(* ===== verification/Prelude.thy ===== *)
theory Prelude
  imports Main "HOL-Library.Word" "HOL-Library.Monad_Syntax"
begin

text \<open>
  Shared vocabulary of the ZeOS development: the integer widths of \<^verbatim>\<open>types.h\<close>, the
  convention for code that does not return, and generic lemmas on lists, options and words.

  A C function that may dereference NULL, index out of an array or loop for ever
  (\<^verbatim>\<open>while(1);\<close>) is a function into \<open>'a option\<close>; \<open>None\<close> means that control does
  not reach the end of the function. The option monad sequences such functions.
\<close>

unbundle bit_operations_syntax

type_synonym byte = "8 word"      \<comment> \<open>\<^verbatim>\<open>Byte\<close>, \<^verbatim>\<open>char\<close>\<close>
type_synonym half = "16 word"     \<comment> \<open>\<^verbatim>\<open>Word\<close>\<close>
type_synonym dword = "32 word"    \<comment> \<open>\<^verbatim>\<open>DWord\<close>, \<^verbatim>\<open>unsigned long\<close> and, read with \<^verbatim>\<open>sint\<close>, \<^verbatim>\<open>int\<close>\<close>

named_theorems kdefs \<open>equations that unfold the operations of the kernel model\<close>
named_theorems frame_simps \<open>fields that an operation leaves unchanged\<close>

section \<open>Sequencing\<close>

lemma bind_SomeE:
  assumes "Option.bind m f = Some y"
  obtains x where "m = Some x" "f x = Some y"
  using assms by (cases m) auto

lemma bind_Some_ex: "m = Some x \<Longrightarrow> f x = r \<Longrightarrow> Option.bind m f = r"
  by simp

section \<open>Lists\<close>

lemma distinct_hd_tl_snoc:
  "distinct (a # us) \<Longrightarrow> last (a # us) \<notin> set (butlast (a # us))"
  by (metis append_butlast_last_id distinct_append disjoint_iff list.distinct(1) list.set_intros(1))

lemma remove1_split: "distinct (us @ x # vs) \<Longrightarrow> remove1 x (us @ x # vs) = us @ vs"
  by (induction us) auto

lemma hd_append_single: "hd (vs @ [b]) = (if vs = [] then b else hd vs)"
  by (cases vs) auto

lemma set_remove1_distinct: "distinct xs \<Longrightarrow> set (remove1 x xs) = set xs - {x}"
  by (rule set_remove1_eq)

lemma map_remove1_inj: "inj f \<Longrightarrow> map f (remove1 x xs) = remove1 (f x) (map f xs)"
  by (induction xs) (auto dest: injD)

section \<open>Words\<close>

lemma unat_lt_32: "unat (w :: 32 word) < 2 ^ 32"
  using unsigned_less [of w, where ?'a = nat] by simp

lemma unat_lt_64: "unat (w :: 64 word) < 2 ^ 64"
  using unsigned_less [of w, where ?'a = nat] by simp

lemma sint_nonneg_unat:
  fixes w :: "dword"
  assumes "0 \<le> sint w"
  shows "sint w = int (unat w)"
proof -
  obtain n where n: "sint w = int n" using assms zero_le_imp_eq_int by blast
  have "w = of_int (sint w)" by simp
  then have w: "w = of_nat n" by (simp add: n)
  have "sint w < 2 ^ 31" using sint_lt [of w] by simp
  with n have "n < 2 ^ 31" by simp
  then have "unat w = n" by (simp add: w unsigned_of_nat take_bit_nat_eq_self)
  then show ?thesis by (simp add: n)
qed

lemma sint_of_nat_small:
  assumes "n < 2 ^ 31"
  shows "sint (of_nat n :: dword) = int n" "unat (of_nat n :: dword) = n"
  using assms by (simp_all add: signed_of_nat signed_take_bit_int_eq_self unsigned_of_nat take_bit_nat_eq_self)
section \<open>Counting loops\<close>

text \<open>\<^verbatim>\<open>for(i = lo; i < lo + n; ++i) body(i)\<close>, stopping at the first iteration that fails.\<close>

fun for_range :: "nat \<Rightarrow> nat \<Rightarrow> (nat \<Rightarrow> 's \<Rightarrow> 's option) \<Rightarrow> 's \<Rightarrow> 's option" where
  "for_range lo 0 body s = Some s"
| "for_range lo (Suc n) body s = do { s \<leftarrow> body lo s; for_range (Suc lo) n body s }"

lemma for_range_rule:
  assumes "\<And>i s. lo \<le> i \<Longrightarrow> i < lo + n \<Longrightarrow> I i s \<Longrightarrow> \<exists>s'. body i s = Some s' \<and> I (Suc i) s'"
    and "I lo s"
  shows "\<exists>s'. for_range lo n body s = Some s' \<and> I (lo + n) s'"
  using assms
proof (induction n arbitrary: lo s)
  case (Suc n)
  obtain s1 where s1: "body lo s = Some s1" "I (Suc lo) s1"
    using Suc.prems(1) [of lo s] Suc.prems(2) by auto
  have "\<exists>s'. for_range (Suc lo) n body s1 = Some s' \<and> I (Suc lo + n) s'"
    by (rule Suc.IH) (use Suc.prems(1) s1(2) in auto)
  with s1(1) show ?case by simp
qed simp

lemma for_range_numeral:
  "for_range lo (numeral k) body s =
     do { s \<leftarrow> body lo s; for_range (Suc lo) (pred_numeral k) body s }"
  by (simp add: numeral_eq_Suc)

lemma for_range_frame:
  assumes "\<And>i s s'. body i s = Some s' \<Longrightarrow> f s' = f s"
  shows "for_range lo n body s = Some s' \<Longrightarrow> f s' = f s"
proof (induction n arbitrary: lo s)
  case (Suc n)
  from Suc.prems obtain s1 where "body lo s = Some s1" "for_range (Suc lo) n body s1 = Some s'"
    by (auto simp: bind_eq_Some_conv)
  with Suc.IH assms show ?case by metis
qed simp

lemma for_range_cong:
  "(\<And>i s. lo \<le> i \<Longrightarrow> i < lo + n \<Longrightarrow> b i s = c i s) \<Longrightarrow> for_range lo n b s = for_range lo n c s"
proof (induction n arbitrary: lo s)
  case (Suc n)
  have "for_range (Suc lo) n b s1 = for_range (Suc lo) n c s1" for s1
    by (rule Suc.IH) (use Suc.prems in simp)
  then show ?case using Suc.prems [of lo s] by (cases "c lo s") simp_all
qed simp

end
