(* ===== verification/Linked_List.thy ===== *)
theory Linked_List
  imports Prelude
begin

text \<open>
  The intrusive doubly linked lists of \<^verbatim>\<open>list.c\<close> and \<^verbatim>\<open>include/list.h\<close>, at the level of
  pointers. A \<^verbatim>\<open>struct list_head\<close> is a pair of pointers; memory is a function from the
  addresses of list heads (the type variable, one constructor per embedded
  \<^verbatim>\<open>list_head\<close> once the kernel fixes it) to their contents, and NULL is \<open>None\<close>.

  \<open>ring h l xs\<close> says that the circular list with head \<open>l\<close> holds the nodes \<open>xs\<close>;
  \<open>lists_ok h F\<close> says so of a whole family of lists and that every node outside them has
  two NULL pointers, which is how the kernel tells a linked anchor from an unlinked one.
  The locale \<open>list_store\<close> is the contract the rest of the kernel relies on.
\<close>

section \<open>The data structure and its operations\<close>

record 'n list_head =
  next_ptr :: "'n option"
  prev_ptr :: "'n option"

type_synonym 'n links = "'n \<Rightarrow> 'n list_head"

definition write_next :: "'n option \<Rightarrow> 'n option \<Rightarrow> 'n links \<Rightarrow> 'n links option" where
  "write_next p v h =
     (case p of None \<Rightarrow> None | Some a \<Rightarrow> Some (h(a := (h a)\<lparr>next_ptr := v\<rparr>)))"

definition write_prev :: "'n option \<Rightarrow> 'n option \<Rightarrow> 'n links \<Rightarrow> 'n links option" where
  "write_prev p v h =
     (case p of None \<Rightarrow> None | Some a \<Rightarrow> Some (h(a := (h a)\<lparr>prev_ptr := v\<rparr>)))"

definition INIT_LIST_HEAD :: "'n \<Rightarrow> 'n links \<Rightarrow> 'n links option" where
  "INIT_LIST_HEAD l h =
     do { h \<leftarrow> write_next (Some l) (Some l) h;
          write_prev (Some l) (Some l) h }"

definition list_add_impl :: "'n \<Rightarrow> 'n option \<Rightarrow> 'n option \<Rightarrow> 'n links \<Rightarrow> 'n links option" where
  "list_add_impl new prv nxt h =
     do { h \<leftarrow> write_prev nxt (Some new) h;
          h \<leftarrow> write_next (Some new) nxt h;
          h \<leftarrow> write_prev (Some new) prv h;
          write_next prv (Some new) h }"

definition list_add :: "'n \<Rightarrow> 'n \<Rightarrow> 'n links \<Rightarrow> 'n links option" where
  "list_add new l h = list_add_impl new (Some l) (next_ptr (h l)) h"

definition list_add_tail :: "'n \<Rightarrow> 'n \<Rightarrow> 'n links \<Rightarrow> 'n links option" where
  "list_add_tail new l h = list_add_impl new (prev_ptr (h l)) (Some l) h"

definition list_del_impl :: "'n option \<Rightarrow> 'n option \<Rightarrow> 'n links \<Rightarrow> 'n links option" where
  "list_del_impl prv nxt h =
     do { h \<leftarrow> write_prev nxt prv h;
          write_next prv nxt h }"

definition list_del :: "'n \<Rightarrow> 'n links \<Rightarrow> 'n links option" where
  "list_del entry h =
     do { h \<leftarrow> list_del_impl (prev_ptr (h entry)) (next_ptr (h entry)) h;
          h \<leftarrow> write_next (Some entry) None h;
          write_prev (Some entry) None h }"

definition list_is_last :: "'n \<Rightarrow> 'n \<Rightarrow> 'n links \<Rightarrow> bool" where
  "list_is_last l k h \<longleftrightarrow> next_ptr (h l) = Some k"

definition list_empty :: "'n \<Rightarrow> 'n links \<Rightarrow> bool" where
  "list_empty l h \<longleftrightarrow> next_ptr (h l) = Some l"

definition list_first :: "'n \<Rightarrow> 'n links \<Rightarrow> 'n option" where
  "list_first l h = next_ptr (h l)"

text \<open>The test of \<^verbatim>\<open>update_process_state\<close> for an anchor that is in some list.\<close>

definition anchor_linked :: "'n \<Rightarrow> 'n links \<Rightarrow> bool" where
  "anchor_linked n h \<longleftrightarrow> next_ptr (h n) \<noteq> None \<and> prev_ptr (h n) \<noteq> None"

text \<open>
  \<^verbatim>\<open>list_for_each_safe\<close>: the successor is read before the body runs, so the body may unlink
  the node it is given. The fuel bounds the number of nodes visited; \<open>None\<close> is a body that
  fails, a NULL successor, or a walk longer than the fuel.
\<close>

fun list_for_each_safe_from ::
  "nat \<Rightarrow> 'n \<Rightarrow> ('s \<Rightarrow> 'n links) \<Rightarrow> ('n \<Rightarrow> 's \<Rightarrow> 's option) \<Rightarrow> 'n option \<Rightarrow> 's \<Rightarrow> 's option" where
  "list_for_each_safe_from fuel l lk body pos s =
     (case pos of
        None \<Rightarrow> None
      | Some p \<Rightarrow>
          if p = l then Some s
          else (case fuel of
                  0 \<Rightarrow> None
                | Suc fuel' \<Rightarrow>
                    (let aux = next_ptr (lk s p)
                     in do { s \<leftarrow> body p s;
                             list_for_each_safe_from fuel' l lk body aux s })))"

declare list_for_each_safe_from.simps [simp del]

definition list_for_each_safe ::
  "nat \<Rightarrow> 'n \<Rightarrow> ('s \<Rightarrow> 'n links) \<Rightarrow> ('n \<Rightarrow> 's \<Rightarrow> 's option) \<Rightarrow> 's \<Rightarrow> 's option" where
  "list_for_each_safe fuel l lk body s =
     list_for_each_safe_from fuel l lk body (next_ptr (lk s l)) s"

section \<open>What a heap of list heads represents\<close>

definition joined :: "'n links \<Rightarrow> 'n \<Rightarrow> 'n \<Rightarrow> bool" where
  "joined h a b \<longleftrightarrow> next_ptr (h a) = Some b \<and> prev_ptr (h b) = Some a"

definition ring :: "'n links \<Rightarrow> 'n \<Rightarrow> 'n list \<Rightarrow> bool" where
  "ring h l xs \<longleftrightarrow> distinct (l # xs) \<and> successively (joined h) (l # xs @ [l])"

definition members :: "('n \<rightharpoonup> 'n list) \<Rightarrow> 'n set" where
  "members F = {n. \<exists>l xs. F l = Some xs \<and> n \<in> set (l # xs)}"

definition lists_ok :: "'n links \<Rightarrow> ('n \<rightharpoonup> 'n list) \<Rightarrow> bool" where
  "lists_ok h F \<longleftrightarrow>
     (\<forall>l xs. F l = Some xs \<longrightarrow> ring h l xs) \<and>
     (\<forall>l xs k ys. F l = Some xs \<longrightarrow> F k = Some ys \<longrightarrow> l \<noteq> k \<longrightarrow>
        set (l # xs) \<inter> set (k # ys) = {}) \<and>
     (\<forall>n. n \<notin> members F \<longrightarrow> next_ptr (h n) = None \<and> prev_ptr (h n) = None)"

lemma successively_joined_cong:
  assumes "\<And>a. a \<in> set (butlast ys) \<Longrightarrow> next_ptr (h' a) = next_ptr (h a)"
    and "\<And>a. a \<in> set (tl ys) \<Longrightarrow> prev_ptr (h' a) = prev_ptr (h a)"
  shows "successively (joined h') ys = successively (joined h) ys"
  using assms
proof (induction ys rule: induct_list012)
  case (3 x y zs)
  have "successively (joined h') (y # zs) = successively (joined h) (y # zs)"
    by (rule "3.IH") (use "3.prems" in \<open>auto split: if_splits\<close>)
  moreover have "joined h' x y = joined h x y"
    using "3.prems" by (simp add: joined_def)
  ultimately show ?case by simp
qed simp_all

lemma ring_cong:
  assumes "\<And>n. n \<in> set (l # xs) \<Longrightarrow> h' n = h n"
  shows "ring h' l xs = ring h l xs"
proof -
  have "successively (joined h') (l # xs @ [l]) = successively (joined h) (l # xs @ [l])"
    by (rule successively_joined_cong) (use assms in \<open>auto dest: in_set_butlastD\<close>)
  then show ?thesis by (simp add: ring_def)
qed

lemma ring_Nil [simp]: "ring h l [] \<longleftrightarrow> next_ptr (h l) = Some l \<and> prev_ptr (h l) = Some l"
  by (auto simp: ring_def joined_def)

text \<open>Splitting a ring between two neighbours.\<close>

lemma ring_split:
  "ring h l (us @ vs) \<longleftrightarrow>
     distinct (l # us @ vs) \<and>
     successively (joined h) (l # us) \<and> successively (joined h) (vs @ [l]) \<and>
     joined h (last (l # us)) (hd (vs @ [l]))"
  using successively_append_iff [of "joined h" "l # us" "vs @ [l]"]
  by (auto simp: ring_def)

lemma ring_next_hd: "ring h l xs \<Longrightarrow> next_ptr (h l) = Some (hd (xs @ [l]))"
  using ring_split [of h l "[]" xs] by (simp add: joined_def)

lemma ring_prev_last: "ring h l xs \<Longrightarrow> prev_ptr (h l) = Some (last (l # xs))"
  using ring_split [of h l xs "[]"] by (simp add: joined_def)

lemma ring_next_at:
  "ring h l (us @ x # vs) \<Longrightarrow> next_ptr (h x) = Some (hd (vs @ [l]))"
  using ring_split [of h l "us @ [x]" vs] by (simp add: joined_def)

lemma ring_prev_at:
  "ring h l (us @ x # vs) \<Longrightarrow> prev_ptr (h x) = Some (last (l # us))"
  using ring_split [of h l us "x # vs"] by (simp add: joined_def)

text \<open>Inserting a fresh node between two neighbours, and taking one out.\<close>

lemma list_add_impl_ring:
  assumes ring: "ring h l (us @ vs)" and fresh: "n \<notin> set (l # us @ vs)"
    and p: "p = last (l # us)" and q: "q = hd (vs @ [l])"
  shows "\<exists>h'. list_add_impl n (Some p) (Some q) h = Some h' \<and> ring h' l (us @ n # vs) \<and>
           (\<forall>m. m \<notin> set (l # us @ n # vs) \<longrightarrow> h' m = h m)"
proof -
  define h1 where "h1 = h(q := (h q)\<lparr>prev_ptr := Some n\<rparr>)"
  define h2 where "h2 = h1(n := (h1 n)\<lparr>next_ptr := Some q\<rparr>)"
  define h3 where "h3 = h2(n := (h2 n)\<lparr>prev_ptr := Some p\<rparr>)"
  define h' where "h' = h3(p := (h3 p)\<lparr>next_ptr := Some n\<rparr>)"
  have run: "list_add_impl n (Some p) (Some q) h = Some h'"
    by (simp add: list_add_impl_def write_prev_def write_next_def h1_def h2_def h3_def h'_def)
  have d: "distinct (l # us @ vs)" and su: "successively (joined h) (l # us)"
    and sv: "successively (joined h) (vs @ [l])"
    using ring by (auto simp: ring_split)
  have pin: "p \<in> set (l # us)" and qin: "q \<in> set (vs @ [l])"
    using p q last_in_set [of "l # us"] hd_in_set [of "vs @ [l]"] by auto
  have np: "n \<noteq> p" and nq: "n \<noteq> q" using pin qin fresh by auto
  have nx: "next_ptr (h' a) = (if a = p then Some n else if a = n then Some q else next_ptr (h a))"
    and pv: "prev_ptr (h' a) = (if a = n then Some p else if a = q then Some n else prev_ptr (h a))"
    for a
    using np nq by (auto simp: h'_def h3_def h2_def h1_def)
  have plast: "p \<notin> set (butlast (l # us))"
    using d p distinct_hd_tl_snoc [of l us] by auto
  have qus: "q \<notin> set us" using d q by (auto simp: hd_append_single split: if_splits)
  have "successively (joined h') (l # us)"
    using su plast qus fresh
    by (subst successively_joined_cong [where h = h])
      (auto simp: nx pv dest: in_set_butlastD split: if_splits)
  moreover have "successively (joined h') (vs @ [l])"
  proof (subst successively_joined_cong [where h = h])
    show "next_ptr (h' a) = next_ptr (h a)" if "a \<in> set (butlast (vs @ [l]))" for a
      using that d pin fresh by (auto simp: nx)
    show "prev_ptr (h' a) = prev_ptr (h a)" if "a \<in> set (tl (vs @ [l]))" for a
      using that d q fresh by (cases vs) (auto simp: pv)
  qed (rule sv)
  moreover have "joined h' p n" and "joined h' n q"
    using np nq by (auto simp: joined_def nx pv)
  ultimately have "ring h' l (us @ n # vs)"
    using d fresh p q successively_append_iff [of "joined h'" "l # us" "n # vs @ [l]"]
      successively_Cons [of "joined h'" n "vs @ [l]"]
    by (auto simp: ring_def)
  moreover have "\<forall>m. m \<notin> set (l # us @ n # vs) \<longrightarrow> h' m = h m"
    using pin qin by (auto simp: h'_def h3_def h2_def h1_def)
  ultimately show ?thesis using run by blast
qed

lemma list_del_ring:
  assumes ring: "ring h l (us @ n # vs)"
  shows "\<exists>h'. list_del n h = Some h' \<and> ring h' l (us @ vs) \<and>
           next_ptr (h' n) = None \<and> prev_ptr (h' n) = None \<and>
           (\<forall>m. m \<notin> set (l # us @ n # vs) \<longrightarrow> h' m = h m)"
proof -
  define p where "p = last (l # us)"
  define q where "q = hd (vs @ [l])"
  define h1 where "h1 = h(q := (h q)\<lparr>prev_ptr := Some p\<rparr>)"
  define h2 where "h2 = h1(p := (h1 p)\<lparr>next_ptr := Some q\<rparr>)"
  define h3 where "h3 = h2(n := (h2 n)\<lparr>next_ptr := None\<rparr>)"
  define h' where "h' = h3(n := (h3 n)\<lparr>prev_ptr := None\<rparr>)"
  have run: "list_del n h = Some h'"
    using ring_next_at [OF ring] ring_prev_at [OF ring]
    by (simp add: list_del_def list_del_impl_def write_prev_def write_next_def p_def q_def
        h1_def h2_def h3_def h'_def)
  have d: "distinct (l # us @ n # vs)" and su: "successively (joined h) (l # us)"
    and sv: "successively (joined h) (vs @ [l])"
    using ring ring_split [of h l us "n # vs"] ring_split [of h l "us @ [n]" vs] by auto
  have pin: "p \<in> set (l # us)" and qin: "q \<in> set (vs @ [l])"
    using p_def q_def last_in_set [of "l # us"] hd_in_set [of "vs @ [l]"] by auto
  have np: "n \<noteq> p" and nq: "n \<noteq> q" using pin qin d by auto
  have nx: "next_ptr (h' a) = (if a = n then None else if a = p then Some q else next_ptr (h a))"
    and pv: "prev_ptr (h' a) = (if a = n then None else if a = q then Some p else prev_ptr (h a))"
    for a
    using np nq by (auto simp: h'_def h3_def h2_def h1_def)
  have plast: "p \<notin> set (butlast (l # us))"
    using d p_def distinct_hd_tl_snoc [of l us] by auto
  have qus: "q \<notin> set us" using d q_def by (auto simp: hd_append_single split: if_splits)
  have "successively (joined h') (l # us)"
    using su plast qus d
    by (subst successively_joined_cong [where h = h])
      (auto simp: nx pv dest: in_set_butlastD split: if_splits)
  moreover have "successively (joined h') (vs @ [l])"
  proof (subst successively_joined_cong [where h = h])
    show "next_ptr (h' a) = next_ptr (h a)" if "a \<in> set (butlast (vs @ [l]))" for a
      using that d pin by (auto simp: nx)
    show "prev_ptr (h' a) = prev_ptr (h a)" if "a \<in> set (tl (vs @ [l]))" for a
      using that d q_def by (cases vs) (auto simp: pv)
  qed (rule sv)
  moreover have "joined h' p q"
    using np nq by (auto simp: joined_def nx pv)
  ultimately have "ring h' l (us @ vs)"
    using d by (auto simp: ring_split p_def q_def)
  moreover have "\<forall>m. m \<notin> set (l # us @ n # vs) \<longrightarrow> h' m = h m"
    using pin qin by (auto simp: h'_def h3_def h2_def h1_def)
  ultimately show ?thesis using run by (auto simp: nx pv)
qed

section \<open>Families of lists\<close>

lemma lists_okD:
  assumes "lists_ok h F"
  shows "F l = Some xs \<Longrightarrow> ring h l xs"
    and "F l = Some xs \<Longrightarrow> F k = Some ys \<Longrightarrow> l \<noteq> k \<Longrightarrow> set (l # xs) \<inter> set (k # ys) = {}"
    and "n \<notin> members F \<Longrightarrow> next_ptr (h n) = None \<and> prev_ptr (h n) = None"
  using assms unfolding lists_ok_def by blast+

lemma members_iff: "n \<in> members F \<longleftrightarrow> (\<exists>l xs. F l = Some xs \<and> (n = l \<or> n \<in> set xs))"
  by (simp add: members_def)

lemma members_map_upd: "members (F(l \<mapsto> zs)) = insert l (set zs) \<union> members (F(l := None))"
  by (rule set_eqI) (auto simp: members_iff)

lemma members_split: "F l = Some xs \<Longrightarrow> members F = insert l (set xs) \<union> members (F(l := None))"
  using members_map_upd [of F l xs] by (simp add: fun_upd_idem)

lemma members_remove:
  assumes "F l = Some xs"
    and disj: "\<And>k ys. F k = Some ys \<Longrightarrow> l \<noteq> k \<Longrightarrow> set (l # xs) \<inter> set (k # ys) = {}"
  shows "members (F(l := None)) = members F - insert l (set xs)"
proof -
  have "n \<notin> insert l (set xs)" if "n \<in> members (F(l := None))" for n
  proof -
    from that obtain k ys where "F k = Some ys" "k \<noteq> l" "n \<in> set (k # ys)"
      by (auto simp: members_iff split: if_splits)
    with disj [of k ys] show ?thesis by auto
  qed
  with members_split [of F l, OF assms(1)] show ?thesis by blast
qed

lemma members_upd:
  assumes "F l = Some xs"
    and "\<And>k ys. F k = Some ys \<Longrightarrow> l \<noteq> k \<Longrightarrow> set (l # xs) \<inter> set (k # ys) = {}"
  shows "members (F(l \<mapsto> zs)) = (members F - set xs) \<union> set zs \<union> {l}"
  using members_remove [of F l xs, OF assms] by (auto simp: members_map_upd)

lemma members_new:
  assumes "F l = None"
  shows "members (F(l \<mapsto> zs)) = members F \<union> set zs \<union> {l}"
  using assms by (auto simp: members_map_upd fun_upd_idem)

lemma members_upd_subset: "members (F(l \<mapsto> xs)) \<subseteq> insert l (set xs \<union> members F)"
proof
  fix n
  assume "n \<in> members (F(l \<mapsto> xs))"
  then obtain k ys where k: "(F(l \<mapsto> xs)) k = Some ys" "n = k \<or> n \<in> set ys" unfolding members_iff by blast
  show "n \<in> insert l (set xs \<union> members F)"
  proof (cases "k = l")
    case False
    with k have "n \<in> members F" by (auto simp: members_iff)
    then show ?thesis by blast
  qed (use k in auto)
qed

lemma membersI: "F l = Some xs \<Longrightarrow> n \<in> set (l # xs) \<Longrightarrow> n \<in> members F"
  unfolding members_def by blast

text \<open>Changing one list of a family: the other rings and the unlinked nodes are untouched.\<close>

lemma lists_ok_upd:
  assumes ok: "lists_ok h F" and l: "F l = Some xs"
    and ring': "ring h' l zs"
    and zs: "set zs \<subseteq> set xs \<union> {n}" and n: "n \<in> set xs \<or> n \<notin> members F"
    and same: "\<And>m. m \<notin> set (l # xs) \<union> {n} \<Longrightarrow> h' m = h m"
    and gone: "\<And>m. m \<in> set xs \<union> {n} \<Longrightarrow> m \<notin> set zs \<Longrightarrow> next_ptr (h' m) = None \<and> prev_ptr (h' m) = None"
  shows "lists_ok h' (F(l \<mapsto> zs))"
  unfolding lists_ok_def
proof (intro conjI allI impI)
  note disj = lists_okD(2) [OF ok]
  have nl: "n \<notin> set (k # ys)" if "F k = Some ys" "k \<noteq> l" for k ys
    using n disj [OF l that(1)] that membersI [of F k ys n] by auto
  show "ring h' k ys" if "(F(l \<mapsto> zs)) k = Some ys" for k ys
  proof (cases "k = l")
    case False
    with that have k: "F k = Some ys" by simp
    have "h' m = h m" if "m \<in> set (k # ys)" for m
      using that same [of m] disj [OF l k] nl [OF k False] False by auto
    with lists_okD(1) [OF ok k] show ?thesis by (metis ring_cong)
  qed (use that ring' in simp)
  show "set (k # ys) \<inter> set (j # us) = {}"
    if "(F(l \<mapsto> zs)) k = Some ys" "(F(l \<mapsto> zs)) j = Some us" "k \<noteq> j" for k ys j us
  proof -
    have "set (l # zs) \<inter> set (m # ws) = {}" if "F m = Some ws" "m \<noteq> l" for m ws
      using disj [OF l that(1)] nl [OF that] that zs by auto
    with that disj [of k ys j us] show ?thesis
      by (cases "k = l"; cases "j = l") (auto simp: Int_commute)
  qed
next
  fix m
  assume "m \<notin> members (F(l \<mapsto> zs))"
  then have m: "m \<notin> members F - set xs" "m \<notin> set zs" "m \<noteq> l"
    using members_upd [of F l xs zs] l lists_okD(2) [OF ok l] by auto
  show "next_ptr (h' m) = None" "prev_ptr (h' m) = None"
    using m same [of m] gone [of m] lists_okD(3) [OF ok, of m] by (cases "m \<in> set xs \<union> {n}"; auto)+
qed

lemma lists_ok_add_at:
  assumes ok: "lists_ok h F" and l: "F l = Some (us @ vs)" and n: "n \<notin> members F"
  shows "\<exists>h'. list_add_impl n (Some (last (l # us))) (Some (hd (vs @ [l]))) h = Some h' \<and>
           lists_ok h' (F(l \<mapsto> us @ n # vs))"
proof -
  have "n \<notin> set (l # us @ vs)" using n membersI [of F l "us @ vs"] l by blast
  then obtain h' where run: "list_add_impl n (Some (last (l # us))) (Some (hd (vs @ [l]))) h = Some h'"
    and ring': "ring h' l (us @ n # vs)"
    and same: "\<forall>m. m \<notin> set (l # us @ n # vs) \<longrightarrow> h' m = h m"
    using list_add_impl_ring [OF lists_okD(1) [OF ok l] _ refl refl] by blast
  have "lists_ok h' (F(l \<mapsto> us @ n # vs))"
    by (rule lists_ok_upd [OF ok l ring', of n]) (use n same in auto)
  with run show ?thesis by blast
qed

lemma lists_ok_add:
  assumes "lists_ok h F" "F l = Some xs" "n \<notin> members F"
  shows "\<exists>h'. list_add n l h = Some h' \<and> lists_ok h' (F(l \<mapsto> n # xs))"
  using lists_ok_add_at [OF assms(1), of l "[]" xs n] assms
    ring_next_hd [OF lists_okD(1) [OF assms(1,2)]]
  by (simp add: list_add_def)

lemma lists_ok_add_tail:
  assumes "lists_ok h F" "F l = Some xs" "n \<notin> members F"
  shows "\<exists>h'. list_add_tail n l h = Some h' \<and> lists_ok h' (F(l \<mapsto> xs @ [n]))"
  using lists_ok_add_at [OF assms(1), of l xs "[]" n] assms
    ring_prev_last [OF lists_okD(1) [OF assms(1,2)]]
  by (simp add: list_add_tail_def)

lemma lists_ok_del:
  assumes ok: "lists_ok h F" and l: "F l = Some xs" and n: "n \<in> set xs"
  shows "\<exists>h'. list_del n h = Some h' \<and> lists_ok h' (F(l \<mapsto> remove1 n xs))"
proof -
  from n obtain us vs where xs: "xs = us @ n # vs" by (auto simp: in_set_conv_decomp)
  have ring: "ring h l (us @ n # vs)" using lists_okD(1) [OF ok l] xs by simp
  have d: "distinct (us @ n # vs)" using ring by (simp add: ring_def)
  obtain h' where run: "list_del n h = Some h'" and ring': "ring h' l (us @ vs)"
    and nulls: "next_ptr (h' n) = None" "prev_ptr (h' n) = None"
    and same: "\<forall>m. m \<notin> set (l # us @ n # vs) \<longrightarrow> h' m = h m"
    using list_del_ring [OF ring] by blast
  have rm: "remove1 n xs = us @ vs" using remove1_split [OF d] xs by simp
  have "lists_ok h' (F(l \<mapsto> us @ vs))"
    by (rule lists_ok_upd [OF ok l ring', of n]) (use n xs same nulls in auto)
  with run rm show ?thesis by auto
qed

lemma lists_ok_init:
  assumes ok: "lists_ok h F" and l: "F l = Some [] \<or> l \<notin> members F"
  shows "\<exists>h'. INIT_LIST_HEAD l h = Some h' \<and> lists_ok h' (F(l \<mapsto> []))"
proof -
  define h' where "h' = h(l := \<lparr>next_ptr = Some l, prev_ptr = Some l\<rparr>)"
  have run: "INIT_LIST_HEAD l h = Some h'"
    by (cases "h l") (simp add: INIT_LIST_HEAD_def write_next_def write_prev_def h'_def)
  have Fl: "F l = Some [] \<or> F l = None" using l membersI [of F l] by (cases "F l") auto
  note disj = lists_okD(2) [OF ok]
  have other: "l \<notin> set (k # ys)" if "F k = Some ys" "k \<noteq> l" for k ys
    using l disj [of l "[]" k ys] that membersI [of F k ys] by auto
  have "lists_ok h' (F(l \<mapsto> []))"
    unfolding lists_ok_def
  proof (intro conjI allI impI)
    show "ring h' k ys" if "(F(l \<mapsto> [])) k = Some ys" for k ys
    proof (cases "k = l")
      case False
      with that have k: "F k = Some ys" by simp
      have "h' m = h m" if "m \<in> set (k # ys)" for m
        using that other [OF k False] by (auto simp: h'_def)
      with lists_okD(1) [OF ok k] show ?thesis by (metis ring_cong)
    qed (use that in \<open>auto simp: h'_def\<close>)
    show "set (k # ys) \<inter> set (j # us) = {}"
      if "(F(l \<mapsto> [])) k = Some ys" "(F(l \<mapsto> [])) j = Some us" "k \<noteq> j" for k ys j us
      using that disj [of k ys j us] other [of k ys] other [of j us]
      by (cases "k = l"; cases "j = l") auto
  next
    fix m
    assume "m \<notin> members (F(l \<mapsto> []))"
    then have "m \<notin> members F" "m \<noteq> l"
      using members_new [of F l "[]"] members_upd [of F l "[]" "[]"] disj [of l "[]"] Fl by auto
    then show "next_ptr (h' m) = None" "prev_ptr (h' m) = None"
      using lists_okD(3) [OF ok, of m] by (auto simp: h'_def)
  qed
  with run show ?thesis by blast
qed

lemma lists_ok_linked: "lists_ok h F \<Longrightarrow> anchor_linked n h \<longleftrightarrow> n \<in> members F"
proof -
  assume ok: "lists_ok h F"
  show ?thesis
  proof (cases "n \<in> members F")
    case True
    then obtain l xs where l: "F l = Some xs" and n: "n \<in> set (l # xs)"
      by (auto simp: members_def)
    note ring = lists_okD(1) [OF ok l]
    have "anchor_linked n h"
    proof (cases "n = l")
      case True
      then show ?thesis
        using ring_next_hd [OF ring] ring_prev_last [OF ring] by (simp add: anchor_linked_def)
    next
      case False
      with n obtain us vs where "xs = us @ n # vs" by (auto simp: in_set_conv_decomp)
      then show ?thesis
        using ring ring_next_at [of h l us n vs] ring_prev_at [of h l us n vs]
        by (simp add: anchor_linked_def)
    qed
    with True show ?thesis by simp
  next
    case False
    then show ?thesis using lists_okD(3) [OF ok False] by (simp add: anchor_linked_def)
  qed
qed

lemma lists_ok_empty: "lists_ok h F \<Longrightarrow> F l = Some xs \<Longrightarrow> list_empty l h \<longleftrightarrow> xs = []"
proof -
  assume ok: "lists_ok h F" and l: "F l = Some xs"
  have "ring h l xs" by (rule lists_okD(1) [OF ok l])
  then have "next_ptr (h l) = Some (hd (xs @ [l]))" "l \<notin> set xs"
    by (auto simp: ring_next_hd ring_def)
  then show ?thesis by (cases xs) (auto simp: list_empty_def)
qed

lemma lists_ok_first:
  "lists_ok h F \<Longrightarrow> F l = Some xs \<Longrightarrow> list_first l h = Some (if xs = [] then l else hd xs)"
  using ring_next_hd [OF lists_okD(1)] by (fastforce simp: list_first_def hd_append_single)

lemma lists_ok_distinct:
  "lists_ok h F \<Longrightarrow> F l = Some xs \<Longrightarrow> distinct (l # xs)"
  using lists_okD(1) by (fastforce simp: ring_def)

section \<open>The contract of the list module\<close>

text \<open>\<open>unlink n F\<close>: the family of lists \<open>F\<close> with the node \<open>n\<close> taken out of whatever list it is in.\<close>

definition unlink :: "'n \<Rightarrow> ('n \<rightharpoonup> 'n list) \<Rightarrow> ('n \<rightharpoonup> 'n list)" where
  "unlink n F = (\<lambda>l. map_option (removeAll n) (F l))"

lemma unlink_fresh: "n \<notin> members F \<Longrightarrow> unlink n F = F"
  by (rule ext) (auto simp: unlink_def members_iff map_option_case removeAll_id split: option.splits)

lemma unlink_upd [simp]: "unlink n (F(l \<mapsto> xs)) = (unlink n F)(l \<mapsto> removeAll n xs)"
  by (rule ext) (simp add: unlink_def)

lemma members_unlink: "n \<notin> dom F \<Longrightarrow> members (unlink n F) = members F - {n}"
  by (rule set_eqI) (fastforce simp: members_iff unlink_def)

text \<open>
  A client of \<^verbatim>\<open>list.c\<close> sees a store \<open>'h\<close> that represents a family of lists and seven
  operations on it. The laws say that each operation returns (it meets no NULL pointer) and
  what the family is afterwards.
\<close>

locale list_store =
  fixes rep :: "'h \<Rightarrow> ('n \<rightharpoonup> 'n list) \<Rightarrow> bool"
    and init :: "'n \<Rightarrow> 'h \<Rightarrow> 'h option"
    and add :: "'n \<Rightarrow> 'n \<Rightarrow> 'h \<Rightarrow> 'h option"
    and add_tail :: "'n \<Rightarrow> 'n \<Rightarrow> 'h \<Rightarrow> 'h option"
    and del :: "'n \<Rightarrow> 'h \<Rightarrow> 'h option"
    and is_empty :: "'n \<Rightarrow> 'h \<Rightarrow> bool"
    and first :: "'n \<Rightarrow> 'h \<Rightarrow> 'n option"
    and linked :: "'n \<Rightarrow> 'h \<Rightarrow> bool"
  assumes init_law: "rep h F \<Longrightarrow> F l = Some [] \<or> l \<notin> members F \<Longrightarrow>
        \<exists>h'. init l h = Some h' \<and> rep h' (F(l \<mapsto> []))"
    and add_law: "rep h F \<Longrightarrow> F l = Some xs \<Longrightarrow> n \<notin> members F \<Longrightarrow>
        \<exists>h'. add n l h = Some h' \<and> rep h' (F(l \<mapsto> n # xs))"
    and add_tail_law: "rep h F \<Longrightarrow> F l = Some xs \<Longrightarrow> n \<notin> members F \<Longrightarrow>
        \<exists>h'. add_tail n l h = Some h' \<and> rep h' (F(l \<mapsto> xs @ [n]))"
    and del_law: "rep h F \<Longrightarrow> F l = Some xs \<Longrightarrow> n \<in> set xs \<Longrightarrow>
        \<exists>h'. del n h = Some h' \<and> rep h' (F(l \<mapsto> remove1 n xs))"
    and empty_law: "rep h F \<Longrightarrow> F l = Some xs \<Longrightarrow> is_empty l h \<longleftrightarrow> xs = []"
    and first_law: "rep h F \<Longrightarrow> F l = Some xs \<Longrightarrow>
        first l h = Some (if xs = [] then l else hd xs)"
    and linked_law: "rep h F \<Longrightarrow> linked n h \<longleftrightarrow> n \<in> members F"
    and distinct_law: "rep h F \<Longrightarrow> F l = Some xs \<Longrightarrow> distinct (l # xs)"
    and disjoint_law: "rep h F \<Longrightarrow> F l = Some xs \<Longrightarrow> F k = Some ys \<Longrightarrow> l \<noteq> k \<Longrightarrow>
        set (l # xs) \<inter> set (k # ys) = {}"
begin

lemma del_unlink:
  assumes rep: "rep h F" and n: "n \<notin> dom F" "n \<in> members F"
  shows "\<exists>h'. del n h = Some h' \<and> rep h' (unlink n F)"
proof -
  from n obtain l xs where l: "F l = Some xs" and nx: "n \<in> set xs"
    by (auto simp: members_iff)
  have "unlink n F = F(l \<mapsto> remove1 n xs)"
  proof
    fix k
    show "unlink n F k = (F(l \<mapsto> remove1 n xs)) k"
    proof (cases "F k")
      case (Some ys)
      have "n \<notin> set ys" if "k \<noteq> l"
        using disjoint_law [OF rep l Some] that nx by auto
      with Some show ?thesis
        using l distinct_law [OF rep l]
        by (auto simp: unlink_def distinct_remove1_removeAll)
    qed (use l in \<open>auto simp: unlink_def\<close>)
  qed
  with del_law [OF rep l nx] show ?thesis by simp
qed

text \<open>Taking a node out of its list, if it is in one, and putting it at an end of another.\<close>

lemma detach:
  assumes rep: "rep h F" and n: "n \<notin> dom F"
  shows "\<exists>h'. (if linked n h then del n h else Some h) = Some h' \<and> rep h' (unlink n F)"
proof (cases "n \<in> members F")
  case True
  with del_unlink [OF rep n True] linked_law [OF rep] show ?thesis by simp
next
  case False
  with rep linked_law [OF rep] show ?thesis by (simp add: unlink_fresh)
qed

lemma relink:
  assumes rep: "rep h F" and n: "n \<notin> dom F" and l: "F l = Some xs"
  shows "\<exists>h'. do { h \<leftarrow> (if linked n h then del n h else Some h); add_tail n l h } = Some h' \<and>
           rep h' ((unlink n F)(l \<mapsto> removeAll n xs @ [n]))"
    and "\<exists>h'. do { h \<leftarrow> (if linked n h then del n h else Some h); add n l h } = Some h' \<and>
           rep h' ((unlink n F)(l \<mapsto> n # removeAll n xs))"
proof -
  obtain h1 where h1: "(if linked n h then del n h else Some h) = Some h1" "rep h1 (unlink n F)"
    using detach [OF rep n] by blast
  have l': "unlink n F l = Some (removeAll n xs)" using l by (simp add: unlink_def)
  have n': "n \<notin> members (unlink n F)" using n by (simp add: members_unlink)
  show "\<exists>h'. do { h \<leftarrow> (if linked n h then del n h else Some h); add_tail n l h } = Some h' \<and>
           rep h' ((unlink n F)(l \<mapsto> removeAll n xs @ [n]))"
    using add_tail_law [OF h1(2) l' n'] h1(1) by auto
  show "\<exists>h'. do { h \<leftarrow> (if linked n h then del n h else Some h); add n l h } = Some h' \<and>
           rep h' ((unlink n F)(l \<mapsto> n # removeAll n xs))"
    using add_law [OF h1(2) l' n'] h1(1) by auto
qed

lemma first_in:
  "rep h F \<Longrightarrow> F l = Some (x # xs) \<Longrightarrow> first l h = Some x \<and> \<not> is_empty l h"
  using first_law [of h F l "x # xs"] empty_law [of h F l "x # xs"] by simp

lemma pop_first:
  assumes rep: "rep h F" and l: "F l = Some (x # xs)"
  shows "\<exists>h'. do { n \<leftarrow> first l h; del n h } = Some h' \<and> rep h' (F(l \<mapsto> xs))"
  using first_in [OF rep l] del_law [OF rep l, of x] by auto

end

interpretation zlist: list_store lists_ok INIT_LIST_HEAD list_add list_add_tail list_del
  list_empty list_first anchor_linked
  by unfold_locales
    (erule lists_ok_init lists_ok_add lists_ok_add_tail lists_ok_del lists_ok_empty
      lists_ok_first lists_ok_linked lists_ok_distinct lists_okD(2); assumption)+

section \<open>Safe traversal\<close>

text \<open>
  If the body, run on the first remaining node, keeps the invariant for the nodes after it,
  the traversal visits every node once, in order, and stops at the head.
\<close>

lemma for_each_safe_from:
  assumes step: "\<And>x xs s. I (x # xs) s \<Longrightarrow> \<exists>s'. body x s = Some s' \<and> I xs s'"
    and nxt: "\<And>x xs s. I (x # xs) s \<Longrightarrow>
        x \<noteq> l \<and> next_ptr (lk s x) = Some (if xs = [] then l else hd xs)"
    and inv: "I xs s" and fuel: "length xs \<le> fuel"
  shows "\<exists>s'. list_for_each_safe_from fuel l lk body
           (Some (if xs = [] then l else hd xs)) s = Some s' \<and> I [] s'"
  using inv fuel
proof (induction xs arbitrary: s fuel)
  case Nil
  then show ?case by (simp add: list_for_each_safe_from.simps)
next
  case (Cons x xs)
  from Cons.prems obtain fuel' where f: "fuel = Suc fuel'" "length xs \<le> fuel'"
    by (cases fuel) auto
  obtain s1 where s1: "body x s = Some s1" "I xs s1"
    using step [OF Cons.prems(1)] by blast
  show ?case
    using Cons.IH [OF s1(2) f(2)] nxt [OF Cons.prems(1)] s1(1)
    unfolding f(1) by (subst list_for_each_safe_from.simps) simp
qed

end
