(* ===== verification/Kernel_State.thy ===== *)
theory Kernel_State
  imports Linked_List
begin

text \<open>
  The data of the kernel: the constants and structures of \<^verbatim>\<open>include/types.h\<close>,
  \<^verbatim>\<open>mm_address.h\<close>, \<^verbatim>\<open>sched.h\<close>, \<^verbatim>\<open>stats.h\<close>, \<^verbatim>\<open>errno.h\<close> and the global variables of the
  C files, gathered in one record \<open>kstate\<close> that every operation takes and returns.

  Pointers. A \<^verbatim>\<open>struct task_struct*\<close> is the index of the task in \<^verbatim>\<open>tasks\<close>, a
  \<^verbatim>\<open>struct semaphore*\<close> the index in \<^verbatim>\<open>semaphores\<close>, a \<^verbatim>\<open>page_table_entry*\<close> to a directory
  its offset (in entries) in \<^verbatim>\<open>dir_pages\<close>; NULL is \<open>None\<close>. The embedded
  \<^verbatim>\<open>struct list_head\<close>s are the constructors of \<open>node\<close>, and \<open>links\<close> is the memory that holds
  them. Bytes that are not one of these typed objects (user pages, kernel stacks) are the
  physical memory \<open>pmem\<close>.

  Control. \<^verbatim>\<open>task_switch\<close> leaves the kernel stack of a task where the task will continue
  when it is switched to again; \<open>kpc\<close> records that place for every task.
\<close>

section \<open>Constants\<close>

abbreviation (input) "TOTAL_PAGES \<equiv> (1024 :: nat)"
abbreviation (input) "NUM_PAG_KERNEL \<equiv> (256 :: nat)"
abbreviation (input) "NUM_PAG_CODE \<equiv> (8 :: nat)"
abbreviation (input) "NUM_PAG_DATA \<equiv> (20 :: nat)"
abbreviation (input) "PAGE_SIZE \<equiv> (4096 :: nat)"
abbreviation (input) "L_USER_START \<equiv> (0x100000 :: dword)"
abbreviation (input) "HEAP_START \<equiv> (0x1FFFFF :: dword)"
abbreviation (input) "PAG_LOG_INIT_CODE \<equiv> (256 :: nat)"
abbreviation (input) "PAG_LOG_INIT_DATA \<equiv> (264 :: nat)"
abbreviation (input) "PAG_LOG_INIT_HEAP \<equiv> (511 :: nat)"
abbreviation (input) "USER_FIRST_PAGE \<equiv> (256 :: nat)"
abbreviation (input) "USER_ESP \<equiv> (0x11BFF0 :: dword)"
abbreviation (input) "ENTRY_DIR_PAGES \<equiv> (0 :: nat)"
abbreviation (input) "FREE_FRAME \<equiv> (0 :: byte)"
abbreviation (input) "USED_FRAME \<equiv> (1 :: byte)"
abbreviation (input) "NR_TASKS \<equiv> (10 :: nat)"
abbreviation (input) "NR_SEMAPHORES \<equiv> (20 :: nat)"
abbreviation (input) "KERNEL_STACK_SIZE \<equiv> (1024 :: nat)"
abbreviation (input) "DEFAULT_QUANTUM \<equiv> (100 :: dword)"
abbreviation (input) "KEYBOARD_BUFFER_SIZE \<equiv> (10 :: int)"

text \<open>The derived constants, as \<^verbatim>\<open>mm_address.h\<close> computes them.\<close>

lemma derived_constants:
  "unat (drop_bit 12 L_USER_START) = PAG_LOG_INIT_CODE"
  "PAG_LOG_INIT_CODE + NUM_PAG_CODE = PAG_LOG_INIT_DATA"
  "unat (drop_bit 12 HEAP_START) = PAG_LOG_INIT_HEAP"
  "USER_ESP = L_USER_START + of_nat ((NUM_PAG_CODE + NUM_PAG_DATA) * 0x1000) - 16"
  by simp_all

text \<open>The error numbers of \<^verbatim>\<open>errno.h\<close>.\<close>

abbreviation (input) "ENOSYS \<equiv> (38 :: dword)"
abbreviation (input) "EBADF \<equiv> (9 :: dword)"
abbreviation (input) "EACCES \<equiv> (13 :: dword)"
abbreviation (input) "EINVAL \<equiv> (22 :: dword)"
abbreviation (input) "EFAULT \<equiv> (14 :: dword)"
abbreviation (input) "EAGAIN \<equiv> (11 :: dword)"
abbreviation (input) "ENOMEM \<equiv> (12 :: dword)"
abbreviation (input) "ESRCH \<equiv> (3 :: dword)"
abbreviation (input) "EBUSY \<equiv> (16 :: dword)"

section \<open>Page table entries\<close>

text \<open>
  \<^verbatim>\<open>page_table_entry\<close> is a union of a 32-bit word and its bit fields: \<open>present\<close>, \<open>rw\<close> and
  \<open>user\<close> are bits 0, 1 and 2, \<open>pbase_addr\<close> bits 12 to 31.
\<close>

type_synonym page_table_entry = dword

definition pte_present :: "page_table_entry \<Rightarrow> bool" where
  "pte_present e = bit e 0"

definition pte_rw :: "page_table_entry \<Rightarrow> bool" where
  "pte_rw e = bit e 1"

definition pte_user :: "page_table_entry \<Rightarrow> bool" where
  "pte_user e = bit e 2"

definition pte_pbase_addr :: "page_table_entry \<Rightarrow> dword" where
  "pte_pbase_addr e = drop_bit 12 e"

definition set_pte_present :: "bool \<Rightarrow> page_table_entry \<Rightarrow> page_table_entry" where
  "set_pte_present b e = (if b then set_bit 0 e else unset_bit 0 e)"

definition set_pte_rw :: "bool \<Rightarrow> page_table_entry \<Rightarrow> page_table_entry" where
  "set_pte_rw b e = (if b then set_bit 1 e else unset_bit 1 e)"

definition set_pte_user :: "bool \<Rightarrow> page_table_entry \<Rightarrow> page_table_entry" where
  "set_pte_user b e = (if b then set_bit 2 e else unset_bit 2 e)"

definition set_pte_pbase_addr :: "dword \<Rightarrow> page_table_entry \<Rightarrow> page_table_entry" where
  "set_pte_pbase_addr f e = take_bit 12 e OR push_bit 12 f"

lemmas pte_defs = pte_present_def pte_rw_def pte_user_def pte_pbase_addr_def
  set_pte_present_def set_pte_rw_def set_pte_user_def set_pte_pbase_addr_def

lemma pte_present_set [simp]:
  "pte_present (set_pte_present b e) = b"
  "pte_present (set_pte_rw b e) = pte_present e"
  "pte_present (set_pte_user b e) = pte_present e"
  "pte_present (set_pte_pbase_addr f e) = pte_present e"
  by (simp_all add: pte_defs bit_simps)

lemma pte_rw_set [simp]:
  "pte_rw (set_pte_rw b e) = b"
  "pte_rw (set_pte_present b e) = pte_rw e"
  "pte_rw (set_pte_user b e) = pte_rw e"
  "pte_rw (set_pte_pbase_addr f e) = pte_rw e"
  by (simp_all add: pte_defs bit_simps)

lemma pte_user_set [simp]:
  "pte_user (set_pte_user b e) = b"
  "pte_user (set_pte_present b e) = pte_user e"
  "pte_user (set_pte_rw b e) = pte_user e"
  "pte_user (set_pte_pbase_addr f e) = pte_user e"
  by (simp_all add: pte_defs bit_simps)

lemma pte_pbase_addr_set [simp]:
  "pte_pbase_addr (set_pte_present b e) = pte_pbase_addr e"
  "pte_pbase_addr (set_pte_rw b e) = pte_pbase_addr e"
  "pte_pbase_addr (set_pte_user b e) = pte_pbase_addr e"
  "pte_pbase_addr (set_pte_pbase_addr f e) = take_bit 20 f"
  by (rule bit_word_eqI; auto simp: pte_defs bit_simps)+

lemma pte_zero [simp]:
  "\<not> pte_present 0" "\<not> pte_rw 0" "\<not> pte_user 0" "pte_pbase_addr 0 = 0"
  by (simp_all add: pte_defs)

section \<open>Tasks, semaphores and their queues\<close>

datatype state_t = ST_RUN | ST_READY | ST_BLOCKED | ST_ZOMBIE | ST_INVALID

record stats =
  user_ticks :: dword
  system_ticks :: dword
  blocked_ticks :: dword
  ready_ticks :: dword
  elapsed_total_ticks :: dword
  total_trans :: dword
  remaining_ticks :: dword

datatype event =
    FREE_TO_READY | USER_TO_SYS | SYS_TO_USER | SYS_TO_READY | READY_TO_SYS
  | SYS_TO_BLOCKED | BLOCKED_TO_READY | QUANTUM_UPDATED | CURRENT_TICKS_UPDATED | REFRESH

record task_struct =
  PID :: dword
  state :: state_t
  quantum :: dword
  st :: stats
  sem_deleted :: int
  dir_pages_baseAddr :: "nat option"
  kernel_esp :: dword
  heap_top :: dword

record semaphore =
  used :: int
  count :: dword
  owner :: "nat option"

record dir_info =
  dir_count :: int
  dir_pos :: int

text \<open>
  Every \<^verbatim>\<open>struct list_head\<close> of the kernel: the queue heads, and the anchors and heads
  embedded in tasks, semaphores and directory descriptors.
\<close>

datatype node =
    Free_queue | Ready_queue | Keyboard_queue | Free_dirs
  | Task_anchor nat | Task_semaphores nat
  | Sem_anchor nat | Sem_blocked nat
  | Dir_anchor nat

text \<open>
  Where a task that is not executing continues: in user mode (the task is not inside the
  kernel), in the loop of \<^verbatim>\<open>cpu_idle\<close>, at the end of an interrupt routine, in
  \<^verbatim>\<open>ret_from_fork\<close> of a new child, at the return of \<^verbatim>\<open>sys_clone\<close> of a new thread, or after
  one of the calls of \<^verbatim>\<open>sched_next_rr\<close> in \<^verbatim>\<open>sys_sem_wait\<close> and \<^verbatim>\<open>sys_read_keyboard\<close>, with the
  local variables that are still needed.
\<close>

datatype kcont =
    User_mode | Idle_loop | Irq_exit | Fork_child | Clone_child | Exited
  | Sem_wait_exit
  | Read_first dword dword
  | Read_more dword dword dword

text \<open>A system call returns a value to its handler, or has switched to another task.\<close>

datatype sysret = Ret dword | Switched

section \<open>The kernel state\<close>

record kstate =
  links :: "node links"
  tasks :: "nat \<Rightarrow> task_struct"
  semaphores :: "nat \<Rightarrow> semaphore"
  idle_task :: "nat option"
  current :: nat
  kpc :: "nat \<Rightarrow> kcont"
  last_PID :: dword
  current_ticks :: dword
  zeos_ticks :: dword
  rdtsc_value :: "nat \<Rightarrow> 64 word"
  rdtsc_count :: nat
  phys_mem :: "nat \<Rightarrow> byte"
  cow_count_mem :: "nat \<Rightarrow> byte"
  dir_pages :: "nat \<Rightarrow> page_table_entry"
  pagusr_table :: "nat \<Rightarrow> nat \<Rightarrow> page_table_entry"
  dir_status :: "nat \<Rightarrow> dir_info"
  cr3 :: "nat option"
  tss_esp0 :: dword
  pmem :: "dword \<Rightarrow> byte"
  keyboard_buffer :: "int \<Rightarrow> byte"
  buff_from :: int
  buff_to :: int
  remaining_to_read :: int
  cursor_x :: byte
  cursor_y :: byte
  screen :: "dword \<Rightarrow> half"
  debug_port :: "byte list"
  tasks_addr :: dword
  pagusr_table_addr :: dword
  cpu_idle_addr :: dword
  ret_from_fork_addr :: dword
  ebp_value :: "nat \<Rightarrow> dword"
  ebp_count :: nat

text \<open>
  \<open>rdtsc_value n\<close> is what the \<open>n\<close>-th execution of \<^verbatim>\<open>rdtsc\<close> reads and \<open>rdtsc_count\<close> how many
  there were; \<open>ebp_value\<close> and \<open>ebp_count\<close> are the same for \<^verbatim>\<open>get_ebp\<close>, whose result depends on the
  stack frames the compiler lays out. \<open>tasks_addr\<close> and \<open>pagusr_table_addr\<close> are the addresses the linker gave to
  \<^verbatim>\<open>tasks[0]\<close> and \<^verbatim>\<open>pagusr_table\<close>, \<open>cpu_idle_addr\<close> and \<open>ret_from_fork_addr\<close> those of the two
  functions; no operation writes them. \<open>dir_pages\<close> is the two-dimensional
  array of \<^verbatim>\<open>mm.c\<close> in row-major order.
\<close>

definition upd_task :: "nat \<Rightarrow> (task_struct \<Rightarrow> task_struct) \<Rightarrow> kstate \<Rightarrow> kstate" where
  "upd_task i f s = s\<lparr>tasks := (tasks s)(i := f (tasks s i))\<rparr>"

definition upd_sem :: "nat \<Rightarrow> (semaphore \<Rightarrow> semaphore) \<Rightarrow> kstate \<Rightarrow> kstate" where
  "upd_sem i f s = s\<lparr>semaphores := (semaphores s)(i := f (semaphores s i))\<rparr>"

text \<open>Running a list operation on the kernel's list heads.\<close>

definition on_links :: "(node links \<Rightarrow> node links option) \<Rightarrow> kstate \<Rightarrow> kstate option" where
  "on_links f s = map_option (\<lambda>h. s\<lparr>links := h\<rparr>) (f (links s))"

definition list_head_to_task_struct :: "node \<Rightarrow> nat option" where
  "list_head_to_task_struct n = (case n of Task_anchor i \<Rightarrow> Some i | _ \<Rightarrow> None)"

text \<open>\<^verbatim>\<open>get_ebp\<close> of \<^verbatim>\<open>sched.S\<close>.\<close>

definition get_ebp :: "kstate \<Rightarrow> dword \<times> kstate" where
  "get_ebp s = (ebp_value s (ebp_count s), s\<lparr>ebp_count := Suc (ebp_count s)\<rparr>)"

text \<open>The address of word \<open>k\<close> of the kernel stack of task \<open>t\<close>, \<^verbatim>\<open>&TASK_UNION(task)->stack[k]\<close>.\<close>

definition stack_addr :: "kstate \<Rightarrow> nat \<Rightarrow> int \<Rightarrow> dword" where
  "stack_addr s t k = tasks_addr s + of_nat (t * PAGE_SIZE) + of_int (4 * k)"

definition KERNEL_ESP :: "kstate \<Rightarrow> nat \<Rightarrow> dword" where
  "KERNEL_ESP s t = stack_addr s t (int KERNEL_STACK_SIZE)"

lemma upd_task_fields [simp]:
  "tasks (upd_task i f s) = (tasks s)(i := f (tasks s i))"
  "links (upd_task i f s) = links s" "semaphores (upd_task i f s) = semaphores s"
  "idle_task (upd_task i f s) = idle_task s" "current (upd_task i f s) = current s"
  "kpc (upd_task i f s) = kpc s" "current_ticks (upd_task i f s) = current_ticks s"
  "cr3 (upd_task i f s) = cr3 s" "dir_pages (upd_task i f s) = dir_pages s"
  "pagusr_table (upd_task i f s) = pagusr_table s" "dir_status (upd_task i f s) = dir_status s"
  "phys_mem (upd_task i f s) = phys_mem s" "cow_count_mem (upd_task i f s) = cow_count_mem s"
  "pmem (upd_task i f s) = pmem s" "last_PID (upd_task i f s) = last_PID s"
  "pagusr_table_addr (upd_task i f s) = pagusr_table_addr s"
  "tasks_addr (upd_task i f s) = tasks_addr s"
  by (simp_all add: upd_task_def)

lemma upd_sem_fields [simp]:
  "semaphores (upd_sem i f s) = (semaphores s)(i := f (semaphores s i))"
  "links (upd_sem i f s) = links s" "tasks (upd_sem i f s) = tasks s"
  "idle_task (upd_sem i f s) = idle_task s" "current (upd_sem i f s) = current s"
  "kpc (upd_sem i f s) = kpc s" "dir_status (upd_sem i f s) = dir_status s"
  by (simp_all add: upd_sem_def)

lemma on_links_Some:
  "on_links f s = Some s' \<longleftrightarrow> (\<exists>h. f (links s) = Some h \<and> s' = s\<lparr>links := h\<rparr>)"
  by (auto simp: on_links_def)

end
