(* ===== verification/Machine.thy ===== *)
theory Machine
  imports Kernel_State
begin

text \<open>
  What the kernel uses of the i386: the two-level address translation that \<^verbatim>\<open>cr3\<close> selects,
  byte accesses through it, and the time stamp counter. In kernel mode the \<open>rw\<close> and \<open>user\<close>
  bits are not consulted (\<^verbatim>\<open>set_pe_flag\<close> sets only the paging bit of \<^verbatim>\<open>cr0\<close>, never its
  write-protect bit); in user mode they are. An access that does not translate is a page
  fault, here \<open>None\<close>.
\<close>

definition assert :: "bool \<Rightarrow> unit option" where
  "assert b = (if b then Some () else None)"

lemma assert_Some [simp]: "assert b = Some u \<longleftrightarrow> b"
  by (simp add: assert_def)

lemma assert_bind [simp]: "b \<Longrightarrow> Option.bind (assert b) f = f ()"
  by (simp add: assert_def)

lemma assert_bind_None [simp]: "\<not> b \<Longrightarrow> Option.bind (assert b) f = None"
  by (simp add: assert_def)

section \<open>Address translation\<close>

text \<open>The row of \<^verbatim>\<open>pagusr_table\<close> that a directory entry points to.\<close>

definition PT_row :: "kstate \<Rightarrow> page_table_entry \<Rightarrow> nat" where
  "PT_row s e = unat (push_bit 12 (pte_pbase_addr e) - pagusr_table_addr s) div PAGE_SIZE"

definition dir_entry :: "kstate \<Rightarrow> dword \<Rightarrow> page_table_entry option" where
  "dir_entry s va = map_option (\<lambda>dir. dir_pages s (dir + unat (drop_bit 22 va))) (cr3 s)"

definition table_entry :: "kstate \<Rightarrow> dword \<Rightarrow> page_table_entry option" where
  "table_entry s va =
     do { de \<leftarrow> dir_entry s va;
          assert (pte_present de);
          Some (pagusr_table s (PT_row s de) (unat (take_bit 10 (drop_bit 12 va)))) }"

definition translate :: "kstate \<Rightarrow> dword \<Rightarrow> dword option" where
  "translate s va =
     do { pe \<leftarrow> table_entry s va;
          assert (pte_present pe);
          Some (push_bit 12 (pte_pbase_addr pe) OR take_bit 12 va) }"

definition user_allowed :: "kstate \<Rightarrow> bool \<Rightarrow> dword \<Rightarrow> bool" where
  "user_allowed s write va =
     (case (dir_entry s va, table_entry s va) of
        (Some de, Some pe) \<Rightarrow>
          pte_present pe \<and> pte_user de \<and> pte_user pe \<and>
          (write \<longrightarrow> pte_rw de \<and> pte_rw pe)
      | _ \<Rightarrow> False)"

definition read_byte :: "kstate \<Rightarrow> dword \<Rightarrow> byte option" where
  "read_byte s va = map_option (pmem s) (translate s va)"

definition write_byte :: "kstate \<Rightarrow> dword \<Rightarrow> byte \<Rightarrow> kstate option" where
  "write_byte s va b = map_option (\<lambda>pa. s\<lparr>pmem := (pmem s)(pa := b)\<rparr>) (translate s va)"

text \<open>The accesses of a program in user mode.\<close>

definition user_read :: "kstate \<Rightarrow> dword \<Rightarrow> byte option" where
  "user_read s va = (if user_allowed s False va then read_byte s va else None)"

definition user_write :: "kstate \<Rightarrow> dword \<Rightarrow> byte \<Rightarrow> kstate option" where
  "user_write s va b = (if user_allowed s True va then write_byte s va b else None)"

lemma translate_pmem [simp]: "translate (s\<lparr>pmem := m\<rparr>) = translate s"
  by (rule ext) (simp add: translate_def table_entry_def dir_entry_def PT_row_def)

lemma user_allowed_pmem [simp]: "user_allowed (s\<lparr>pmem := m\<rparr>) = user_allowed s"
  by (intro ext) (simp add: user_allowed_def table_entry_def dir_entry_def PT_row_def)

section \<open>Sequences of bytes\<close>

fun read_bytes :: "('s \<Rightarrow> dword \<Rightarrow> byte option) \<Rightarrow> 's \<Rightarrow> dword \<Rightarrow> nat \<Rightarrow> byte list option" where
  "read_bytes rd s p 0 = Some []"
| "read_bytes rd s p (Suc n) =
     do { b \<leftarrow> rd s p; bs \<leftarrow> read_bytes rd s (p + 1) n; Some (b # bs) }"

fun write_bytes :: "('s \<Rightarrow> dword \<Rightarrow> byte \<Rightarrow> 's option) \<Rightarrow> 's \<Rightarrow> dword \<Rightarrow> byte list \<Rightarrow> 's option" where
  "write_bytes wr s q [] = Some s"
| "write_bytes wr s q (b # bs) = do { s \<leftarrow> wr s q b; write_bytes wr s (q + 1) bs }"

text \<open>A \<^verbatim>\<open>DWord\<close> in memory, least significant byte first.\<close>

definition dword_bytes :: "dword \<Rightarrow> byte list" where
  "dword_bytes w = [ucast w, ucast (drop_bit 8 w), ucast (drop_bit 16 w), ucast (drop_bit 24 w)]"

definition bytes_dword :: "byte list \<Rightarrow> dword" where
  "bytes_dword bs =
     ucast (bs ! 0) OR push_bit 8 (ucast (bs ! 1)) OR push_bit 16 (ucast (bs ! 2)) OR
     push_bit 24 (ucast (bs ! 3))"

definition read_dword :: "kstate \<Rightarrow> dword \<Rightarrow> dword option" where
  "read_dword s va = map_option bytes_dword (read_bytes read_byte s va 4)"

definition write_dword :: "kstate \<Rightarrow> dword \<Rightarrow> dword \<Rightarrow> kstate option" where
  "write_dword s va w = write_bytes write_byte s va (dword_bytes w)"

lemma bytes_dword_dword_bytes [simp]: "bytes_dword (dword_bytes w) = w"
proof (rule bit_word_eqI)
  fix n :: nat
  assume "n < LENGTH(32)"
  then consider "n < 8" | "8 \<le> n" "n < 16" | "16 \<le> n" "n < 24" | "24 \<le> n" "n < 32" by force
  then show "bit (bytes_dword (dword_bytes w)) n = bit w n"
    by cases (auto simp: bytes_dword_def dword_bytes_def bit_simps)
qed

section \<open>The contract of a byte memory\<close>

text \<open>
  A memory seen through an address translation \<open>phys\<close> that the accesses do not change: reads
  and writes of a mapped address read and change the one cell it maps to.
\<close>

definition cell_at :: "(dword \<Rightarrow> 'p option) \<Rightarrow> dword \<Rightarrow> nat \<Rightarrow> 'p" where
  "cell_at phys a i = the (phys (a + of_nat i))"

definition mapped :: "(dword \<Rightarrow> 'p option) \<Rightarrow> dword \<Rightarrow> nat \<Rightarrow> bool" where
  "mapped phys a n \<longleftrightarrow> (\<forall>i<n. phys (a + of_nat i) \<noteq> None)"

text \<open>The \<open>n\<close> cells from \<open>q\<close> hold in \<open>m'\<close> what those from \<open>p\<close> held in \<open>m\<close>; no other cell changed.\<close>

definition copied ::
  "(dword \<Rightarrow> 'p option) \<Rightarrow> nat \<Rightarrow> dword \<Rightarrow> dword \<Rightarrow> ('p \<Rightarrow> byte) \<Rightarrow> ('p \<Rightarrow> byte) \<Rightarrow> bool" where
  "copied phys n p q m m' \<longleftrightarrow>
     (\<forall>i<n. m' (cell_at phys q i) = m (cell_at phys p i)) \<and>
     (\<forall>x. x \<notin> cell_at phys q ` {..<n} \<longrightarrow> m' x = m x)"

lemma cell_at_Suc [simp]: "cell_at phys (a + 1) i = cell_at phys a (Suc i)"
  by (simp add: cell_at_def algebra_simps)

lemma cell_at_add [simp]: "cell_at phys (a + of_nat k) i = cell_at phys a (k + i)"
  by (simp add: cell_at_def algebra_simps)

lemma mapped_Suc: "mapped phys a (Suc n) \<longleftrightarrow> phys a \<noteq> None \<and> mapped phys (a + 1) n"
  by (auto simp: mapped_def All_less_Suc2 algebra_simps)

lemma mapped_add: "mapped phys a (k + n) \<Longrightarrow> mapped phys a k \<and> mapped phys (a + of_nat k) n"
proof -
  assume m: "mapped phys a (k + n)"
  have "phys (a + of_nat k + of_nat i) \<noteq> None" if "i < n" for i
    using m that by (auto simp: mapped_def algebra_simps dest: spec [of _ "k + i"])
  with m show ?thesis by (auto simp: mapped_def)
qed

lemma copied_trans:
  assumes "copied phys k p q m m1" "copied phys n (p + of_nat k) (q + of_nat k) m1 m2"
    and inj: "inj_on (cell_at phys q) {..<k + n}"
    and disj: "cell_at phys p ` {..<k + n} \<inter> cell_at phys q ` {..<k + n} = {}"
  shows "copied phys (k + n) p q m m2"
  unfolding copied_def
proof (intro conjI allI impI)
  fix i
  assume i: "i < k + n"
  show "m2 (cell_at phys q i) = m (cell_at phys p i)"
  proof (cases "i < k")
    case True
    have "cell_at phys q i \<noteq> cell_at phys q (k + j)" if "j < n" for j
      using inj_onD [OF inj, of i "k + j"] i True that by auto
    then have "cell_at phys q i \<notin> cell_at phys (q + of_nat k) ` {..<n}" by auto
    with True assms(1,2) show ?thesis by (simp add: copied_def)
  next
    case False
    then obtain j where j: "i = k + j" "j < n"
      using i by (metis add_less_cancel_left le_iff_add not_less)
    have "cell_at phys p i \<notin> cell_at phys q ` {..<k}" using disj i by auto
    with j assms(1,2) show ?thesis by (simp add: copied_def)
  qed
next
  fix x
  assume x: "x \<notin> cell_at phys q ` {..<k + n}"
  then have "x \<notin> cell_at phys (q + of_nat k) ` {..<n}" and "x \<notin> cell_at phys q ` {..<k}" by auto
  with assms(1,2) show "m2 x = m x" by (simp add: copied_def)
qed

locale byte_memory =
  fixes ok :: "'s \<Rightarrow> bool"
    and phys :: "dword \<Rightarrow> 'p option"
    and cell :: "'s \<Rightarrow> 'p \<Rightarrow> byte"
    and rd :: "'s \<Rightarrow> dword \<Rightarrow> byte option"
    and wr :: "'s \<Rightarrow> dword \<Rightarrow> byte \<Rightarrow> 's option"
  assumes rd_law: "ok s \<Longrightarrow> phys a = Some p \<Longrightarrow> rd s a = Some (cell s p)"
    and wr_law: "ok s \<Longrightarrow> phys a = Some p \<Longrightarrow>
        \<exists>s'. wr s a v = Some s' \<and> ok s' \<and> cell s' = (cell s)(p := v)"
begin

lemma read_bytes_ok:
  "ok s \<Longrightarrow> mapped phys p n \<Longrightarrow> read_bytes rd s p n = Some (map (\<lambda>i. cell s (cell_at phys p i)) [0..<n])"
proof (induction n arbitrary: p)
  case (Suc n)
  obtain x where x: "phys p = Some x" using Suc.prems by (auto simp: mapped_Suc)
  have "[0..<Suc n] = 0 # map Suc [0..<n]" by (simp add: upt_conv_Cons map_Suc_upt del: upt_Suc)
  then show ?case
    using Suc x by (simp add: mapped_Suc rd_law cell_at_def [of phys p 0] comp_def)
qed simp

lemma write_bytes_ok:
  "ok s \<Longrightarrow> mapped phys q (length bs) \<Longrightarrow> inj_on (cell_at phys q) {..<length bs} \<Longrightarrow>
   \<exists>s'. write_bytes wr s q bs = Some s' \<and> ok s' \<and>
     (\<forall>i<length bs. cell s' (cell_at phys q i) = bs ! i) \<and>
     (\<forall>x. x \<notin> cell_at phys q ` {..<length bs} \<longrightarrow> cell s' x = cell s x)"
proof (induction bs arbitrary: s q)
  case (Cons b bs)
  obtain x where x: "phys q = Some x" using Cons.prems by (auto simp: mapped_Suc)
  then have x0: "cell_at phys q 0 = x" by (simp add: cell_at_def)
  obtain s1 where s1: "wr s q b = Some s1" "ok s1" "cell s1 = (cell s)(x := b)"
    using wr_law [OF Cons.prems(1) x] by blast
  have inj: "inj_on (cell_at phys (q + 1)) {..<length bs}"
    using Cons.prems(3) by (auto simp: inj_on_def)
  obtain s' where s': "write_bytes wr s1 (q + 1) bs = Some s'" "ok s'"
      "\<forall>i<length bs. cell s' (cell_at phys q (Suc i)) = bs ! i"
      "\<forall>y. y \<notin> (\<lambda>i. cell_at phys q (Suc i)) ` {..<length bs} \<longrightarrow> cell s' y = cell s1 y"
    using Cons.IH [OF s1(2) _ inj] Cons.prems(2) by (auto simp: mapped_Suc)
  have "x \<notin> (\<lambda>i. cell_at phys q (Suc i)) ` {..<length bs}"
    using Cons.prems(3) x0 by (auto simp: inj_on_def)
  then have first: "cell s' (cell_at phys q 0) = b" using s'(4) s1(3) x0 by simp
  have "cell s' (cell_at phys q i) = (b # bs) ! i" if "i < Suc (length bs)" for i
    using that first s'(3) by (cases i) auto
  moreover have "cell s' y = cell s y" if "y \<notin> cell_at phys q ` {..<Suc (length bs)}" for y
  proof -
    have "y \<noteq> x" "y \<notin> (\<lambda>i. cell_at phys q (Suc i)) ` {..<length bs}"
      using that x0 by auto
    with s'(4) s1(3) show ?thesis by simp
  qed
  ultimately show ?case using s1(1) s'(1,2) by auto
qed simp

text \<open>Moving \<open>n\<close> bytes at once.\<close>

lemma move_ok:
  assumes "ok s" "mapped phys p n" "mapped phys q n" "inj_on (cell_at phys q) {..<n}"
  shows "\<exists>s'. do { bs \<leftarrow> read_bytes rd s p n; write_bytes wr s q bs } = Some s' \<and> ok s' \<and>
           copied phys n p q (cell s) (cell s')"
proof -
  have "read_bytes rd s p n = Some (map (\<lambda>i. cell s (cell_at phys p i)) [0..<n])"
    by (rule read_bytes_ok [OF assms(1,2)])
  then show ?thesis
    using write_bytes_ok [OF assms(1), of q "map (\<lambda>i. cell s (cell_at phys p i)) [0..<n]"] assms(3,4)
    by (auto simp: copied_def)
qed

end

lemma write_bytes_returns:
  "mapped (translate s) q (length bs) \<Longrightarrow> \<exists>m. write_bytes write_byte s q bs = Some (s\<lparr>pmem := m\<rparr>)"
proof (induction bs arbitrary: s q)
  case Nil
  show ?case by (rule exI [of _ "pmem s"]) simp
next
  case (Cons b bs)
  then obtain x where x: "translate s q = Some x" by (auto simp: mapped_Suc)
  show ?case
    using Cons.IH [of "s\<lparr>pmem := (pmem s)(x := b)\<rparr>" "q + 1"] Cons.prems x
    by (auto simp: mapped_Suc write_byte_def)
qed

text \<open>The kernel's memory under a fixed translation is such a memory.\<close>

interpretation kmem: byte_memory "\<lambda>s. translate s = tr" tr pmem read_byte write_byte for tr
  by unfold_locales (auto simp: read_byte_def write_byte_def)

text \<open>So is the memory of the current task for the program that runs in it, as far as it can be written.\<close>

interpretation umem: byte_memory "\<lambda>s. translate s = tr \<and> user_allowed s = ua"
  "\<lambda>a. if ua False a \<and> ua True a then tr a else None" pmem user_read user_write for tr ua
  by unfold_locales (auto simp: user_read_def user_write_def read_byte_def write_byte_def split: if_splits)

end
