(* ===== verification/Data_Copy.thy ===== *)
theory Data_Copy
  imports Machine
begin

text \<open>
  The copy routines and the tick counter of \<^verbatim>\<open>utils.c\<close>. The copy loops are defined over any
  byte memory (a read and a write operation); the kernel's \<open>copy_data\<close> is their instance on
  virtual memory. \<open>get_ticks\<close> divides the 64-bit time stamp by a constant with the
  \<^verbatim>\<open>do_div\<close> macro, that is with two 32-bit divisions.
\<close>

section \<open>The copy loops\<close>

text \<open>
  The first loop moves \<^verbatim>\<open>DWord\<close>s while more than four bytes are left, the second one bytes. A
  \<^verbatim>\<open>DWord\<close> move reads its four bytes before it writes them.
\<close>

function copy_dwords ::
  "('s \<Rightarrow> dword \<Rightarrow> byte option) \<Rightarrow> ('s \<Rightarrow> dword \<Rightarrow> byte \<Rightarrow> 's option) \<Rightarrow>
   dword \<Rightarrow> dword \<Rightarrow> int \<Rightarrow> 's \<Rightarrow> (dword \<times> dword \<times> int \<times> 's) option" where
  "copy_dwords rd wr p q sz s =
     (if sz > 4
      then do { bs \<leftarrow> read_bytes rd s p 4;
                s \<leftarrow> write_bytes wr s q bs;
                copy_dwords rd wr (p + 4) (q + 4) (sz - 4) s }
      else Some (p, q, sz, s))"
  by pat_completeness auto
termination
  by (relation "measure (\<lambda>(rd, wr, p, q, sz, s). nat sz)") auto

function copy_single ::
  "('s \<Rightarrow> dword \<Rightarrow> byte option) \<Rightarrow> ('s \<Rightarrow> dword \<Rightarrow> byte \<Rightarrow> 's option) \<Rightarrow>
   dword \<Rightarrow> dword \<Rightarrow> int \<Rightarrow> 's \<Rightarrow> 's option" where
  "copy_single rd wr p q sz s =
     (if sz > 0
      then do { bs \<leftarrow> read_bytes rd s p 1;
                s \<leftarrow> write_bytes wr s q bs;
                copy_single rd wr (p + 1) (q + 1) (sz - 1) s }
      else Some s)"
  by pat_completeness auto
termination
  by (relation "measure (\<lambda>(rd, wr, p, q, sz, s). nat sz)") auto

declare copy_dwords.simps [simp del] copy_single.simps [simp del]

lemma copy_dwords_step:
  "sz > 4 \<Longrightarrow> copy_dwords rd wr p q sz s =
     do { bs \<leftarrow> read_bytes rd s p 4;
          s \<leftarrow> write_bytes wr s q bs;
          copy_dwords rd wr (p + 4) (q + 4) (sz - 4) s }"
  by (subst copy_dwords.simps) simp

lemma copy_dwords_stop: "sz \<le> 4 \<Longrightarrow> copy_dwords rd wr p q sz s = Some (p, q, sz, s)"
  by (subst copy_dwords.simps) simp

lemma copy_single_step:
  "sz > 0 \<Longrightarrow> copy_single rd wr p q sz s =
     do { bs \<leftarrow> read_bytes rd s p 1;
          s \<leftarrow> write_bytes wr s q bs;
          copy_single rd wr (p + 1) (q + 1) (sz - 1) s }"
  by (subst copy_single.simps) simp

lemma copy_single_stop: "sz \<le> 0 \<Longrightarrow> copy_single rd wr p q sz s = Some s"
  by (subst copy_single.simps) simp

definition copy_loop ::
  "('s \<Rightarrow> dword \<Rightarrow> byte option) \<Rightarrow> ('s \<Rightarrow> dword \<Rightarrow> byte \<Rightarrow> 's option) \<Rightarrow>
   dword \<Rightarrow> dword \<Rightarrow> int \<Rightarrow> 's \<Rightarrow> 's option" where
  "copy_loop rd wr start dest sz s =
     do { (p, q, left, s) \<leftarrow> copy_dwords rd wr start dest sz s;
          copy_single rd wr p q left s }"

definition copy_data :: "dword \<Rightarrow> dword \<Rightarrow> int \<Rightarrow> kstate \<Rightarrow> kstate option" where
  "copy_data start dest sz s = copy_loop read_byte write_byte start dest sz s"

text \<open>\<^verbatim>\<open>copy_from_user\<close> and \<^verbatim>\<open>copy_to_user\<close> have the same body and return 0.\<close>

definition copy_from_user :: "dword \<Rightarrow> dword \<Rightarrow> int \<Rightarrow> kstate \<Rightarrow> (dword \<times> kstate) option" where
  "copy_from_user start dest sz s =
     do { s \<leftarrow> copy_loop read_byte write_byte start dest sz s; Some (0, s) }"

definition copy_to_user :: "dword \<Rightarrow> dword \<Rightarrow> int \<Rightarrow> kstate \<Rightarrow> (dword \<times> kstate) option" where
  "copy_to_user start dest sz s =
     do { s \<leftarrow> copy_loop read_byte write_byte start dest sz s; Some (0, s) }"

section \<open>The copy loops on a byte memory\<close>

definition copy_region :: "(dword \<Rightarrow> 'p option) \<Rightarrow> dword \<Rightarrow> dword \<Rightarrow> nat \<Rightarrow> bool" where
  "copy_region phys p q n \<longleftrightarrow>
     mapped phys p n \<and> mapped phys q n \<and> inj_on (cell_at phys q) {..<n} \<and>
     cell_at phys p ` {..<n} \<inter> cell_at phys q ` {..<n} = {}"

lemma copy_region_split:
  assumes "copy_region phys p q (k + n)"
  shows "copy_region phys p q k" "copy_region phys (p + of_nat k) (q + of_nat k) n"
proof -
  note r = assms [unfolded copy_region_def]
  have sub: "{..<k} \<subseteq> {..<k + n}" by auto
  have "inj_on (cell_at phys q) {..<k}"
    using r inj_on_subset [OF _ sub] by blast
  moreover have "cell_at phys p ` {..<k} \<inter> cell_at phys q ` {..<k} = {}"
    using r image_mono [OF sub, of "cell_at phys p"] image_mono [OF sub, of "cell_at phys q"] by blast
  ultimately show "copy_region phys p q k"
    using r mapped_add [of phys p k n] mapped_add [of phys q k n] by (simp add: copy_region_def)
  have "inj_on (cell_at phys (q + of_nat k)) {..<n}"
  proof (rule inj_onI)
    fix x y
    assume "x \<in> {..<n}" "y \<in> {..<n}" "cell_at phys (q + of_nat k) x = cell_at phys (q + of_nat k) y"
    then show "x = y" using r inj_onD [of "cell_at phys q" "{..<k + n}" "k + x" "k + y"] by auto
  qed
  moreover have "cell_at phys (p + of_nat k) ` {..<n} \<inter> cell_at phys (q + of_nat k) ` {..<n} = {}"
  proof -
    have sub: "cell_at phys (a + of_nat k) ` {..<n} \<subseteq> cell_at phys a ` {..<k + n}" for a by auto
    have "cell_at phys (p + of_nat k) ` {..<n} \<inter> cell_at phys (q + of_nat k) ` {..<n} \<subseteq>
        cell_at phys p ` {..<k + n} \<inter> cell_at phys q ` {..<k + n}"
      by (rule Int_mono [OF sub sub])
    with r show ?thesis by simp
  qed
  ultimately show "copy_region phys (p + of_nat k) (q + of_nat k) n"
    using r mapped_add [of phys p k n] mapped_add [of phys q k n] by (simp add: copy_region_def)
qed

context byte_memory
begin

lemma copy_single_ok:
  "ok s \<Longrightarrow> copy_region phys p q n \<Longrightarrow>
   \<exists>s'. copy_single rd wr p q (int n) s = Some s' \<and> ok s' \<and> copied phys n p q (cell s) (cell s')"
proof (induction n arbitrary: p q s)
  case 0
  then show ?case by (simp add: copy_single_stop copied_def)
next
  case (Suc n)
  note r = copy_region_split [of phys p q 1 n]
  obtain s1 where s1: "do { bs \<leftarrow> read_bytes rd s p 1; write_bytes wr s q bs } = Some s1" "ok s1"
      "copied phys 1 p q (cell s) (cell s1)"
    using move_ok [OF Suc.prems(1), of p 1 q] r(1) Suc.prems(2) by (auto simp: copy_region_def)
  obtain s2 where s2: "copy_single rd wr (p + 1) (q + 1) (int n) s1 = Some s2" "ok s2"
      "copied phys n (p + 1) (q + 1) (cell s1) (cell s2)"
    using Suc.IH [OF s1(2)] r(2) Suc.prems(2) by auto
  have "copied phys (1 + n) p q (cell s) (cell s2)"
    by (rule copied_trans [OF s1(3)]) (use s2(3) Suc.prems(2) in \<open>auto simp: copy_region_def\<close>)
  moreover have "copy_single rd wr p q (int (Suc n)) s = Some s2"
    using s1(1) s2(1) by (auto simp: copy_single_step bind_eq_Some_conv)
  ultimately show ?case using s2(2) by auto
qed

lemma copy_dwords_ok:
  "ok s \<Longrightarrow> copy_region phys p q n \<Longrightarrow>
   \<exists>s' k. copy_dwords rd wr p q (int n) s = Some (p + of_nat k, q + of_nat k, int (n - k), s') \<and>
     k \<le> n \<and> ok s' \<and> copied phys k p q (cell s) (cell s')"
proof (induction n arbitrary: p q s rule: less_induct)
  case (less n)
  show ?case
  proof (cases "n > 4")
    case False
    then have "copy_dwords rd wr p q (int n) s = Some (p, q, int n, s)"
      by (simp add: copy_dwords_stop)
    then show ?thesis
      using less.prems(1) by (intro exI [of _ s] exI [of _ 0]) (simp add: copied_def)
  next
    case True
    then obtain m where n: "n = 4 + m" by (metis le_add_diff_inverse less_imp_le)
    note r = copy_region_split [of phys p q 4 m, folded n, OF less.prems(2)]
    obtain s1 where s1: "do { bs \<leftarrow> read_bytes rd s p 4; write_bytes wr s q bs } = Some s1" "ok s1"
        "copied phys 4 p q (cell s) (cell s1)"
      using move_ok [OF less.prems(1), of p 4 q] r(1) by (auto simp: copy_region_def)
    obtain s2 k where s2: "copy_dwords rd wr (p + 4) (q + 4) (int m) s1 =
          Some (p + 4 + of_nat k, q + 4 + of_nat k, int (m - k), s2)"
        "k \<le> m" "ok s2" "copied phys k (p + 4) (q + 4) (cell s1) (cell s2)"
      using less.IH [OF _ s1(2), of m "p + 4" "q + 4"] n r(2) by auto
    have "copy_region phys p q (4 + k)"
      using less.prems(2) n s2(2) copy_region_split(1) [of phys p q "4 + k" "m - k"] by simp
    then have "copied phys (4 + k) p q (cell s) (cell s2)"
      by (intro copied_trans [OF s1(3)]) (use s2(4) in \<open>auto simp: copy_region_def\<close>)
    moreover have "copy_dwords rd wr p q (int n) s =
        Some (p + of_nat (4 + k), q + of_nat (4 + k), int (n - (4 + k)), s2)"
      using s1(1) s2(1) n True
      by (auto simp: copy_dwords_step bind_eq_Some_conv algebra_simps)
    ultimately show ?thesis using s2(2,3) n by (intro exI [of _ s2] exI [of _ "4 + k"]) simp
  qed
qed

theorem copy_loop_ok:
  assumes "ok s" "copy_region phys p q n"
  shows "\<exists>s'. copy_loop rd wr p q (int n) s = Some s' \<and> ok s' \<and>
           copied phys n p q (cell s) (cell s')"
proof -
  obtain s1 k where s1: "copy_dwords rd wr p q (int n) s =
        Some (p + of_nat k, q + of_nat k, int (n - k), s1)"
      "k \<le> n" "ok s1" "copied phys k p q (cell s) (cell s1)"
    using copy_dwords_ok [OF assms] by blast
  have n: "n = k + (n - k)" using s1(2) by simp
  note r = copy_region_split [of phys p q k "n - k", folded n, OF assms(2)]
  obtain s2 where s2: "copy_single rd wr (p + of_nat k) (q + of_nat k) (int (n - k)) s1 = Some s2"
      "ok s2" "copied phys (n - k) (p + of_nat k) (q + of_nat k) (cell s1) (cell s2)"
    using copy_single_ok [OF s1(3) r(2)] by blast
  have "copied phys (k + (n - k)) p q (cell s) (cell s2)"
    by (rule copied_trans [OF s1(4) s2(3)]) (use assms(2) n in \<open>auto simp: copy_region_def\<close>)
  then show ?thesis using s1(1) s2(1,2) n by (auto simp: copy_loop_def)
qed

end

lemma copy_loop_nonpos: "sz \<le> 0 \<Longrightarrow> copy_loop rd wr p q sz s = Some s"
  by (simp add: copy_loop_def copy_dwords_stop copy_single_stop)

lemma copy_data_ok:
  assumes "copy_region (translate s) p q n"
  shows "\<exists>s'. copy_data p q (int n) s = Some s' \<and> translate s' = translate s \<and>
           copied (translate s) n p q (pmem s) (pmem s')"
  using kmem.copy_loop_ok [OF refl assms] by (auto simp: copy_data_def)

text \<open>A copy between two mappings of the same bytes does nothing; a copy from an unmapped address faults.\<close>

definition same_cells :: "kstate \<Rightarrow> dword \<Rightarrow> dword \<Rightarrow> nat \<Rightarrow> bool" where
  "same_cells s p q n \<longleftrightarrow> (\<forall>i<n. translate s (p + of_nat i) \<noteq> None \<and> translate s (q + of_nat i) = translate s (p + of_nat i))"

lemma same_cells_Suc:
  "same_cells s p q (Suc n) \<longleftrightarrow> translate s p \<noteq> None \<and> translate s q = translate s p \<and> same_cells s (p + 1) (q + 1) n"
  unfolding same_cells_def All_less_Suc2 by (simp add: add.assoc)

lemma same_cells_split: "same_cells s p q (k + n) \<Longrightarrow> same_cells s p q k \<and> same_cells s (p + of_nat k) (q + of_nat k) n"
  unfolding same_cells_def by (auto simp: add.assoc simp flip: of_nat_add)

lemma move_same: "same_cells s p q k \<Longrightarrow> \<exists>bs. read_bytes read_byte s p k = Some bs \<and> write_bytes write_byte s q bs = Some s"
proof (induction k arbitrary: p q)
  case (Suc k)
  then obtain x where x: "translate s p = Some x" "translate s q = Some x" and c: "same_cells s (p + 1) (q + 1) k"
    by (auto simp: same_cells_Suc)
  with Suc.IH [OF c] show ?case by (auto simp: read_byte_def write_byte_def)
qed simp

lemma copy_single_same: "same_cells s p q n \<Longrightarrow> copy_single read_byte write_byte p q (int n) s = Some s"
proof (induction n arbitrary: p q)
  case (Suc n)
  from same_cells_split [of s p q 1 n] Suc.prems have "same_cells s p q 1" "same_cells s (p + 1) (q + 1) n" by simp_all
  then show ?case using move_same [of s p q 1] Suc.IH by (auto simp: copy_single_step bind_eq_Some_conv)
qed (simp add: copy_single_stop)

lemma copy_dwords_same:
  "same_cells s p q n \<Longrightarrow> \<exists>k\<le>n. copy_dwords read_byte write_byte p q (int n) s = Some (p + of_nat k, q + of_nat k, int (n - k), s)"
proof (induction n arbitrary: p q rule: less_induct)
  case (less n)
  show ?case
  proof (cases "n > 4")
    case False
    then show ?thesis by (intro exI [of _ 0]) (simp add: copy_dwords_stop)
  next
    case True
    then obtain m where n: "n = 4 + m" by (metis le_add_diff_inverse less_imp_le)
    from same_cells_split [of s p q 4 m] less.prems n have c: "same_cells s p q 4" "same_cells s (p + 4) (q + 4) m" by simp_all
    obtain k where k: "k \<le> m" "copy_dwords read_byte write_byte (p + 4) (q + 4) (int m) s =
        Some (p + 4 + of_nat k, q + 4 + of_nat k, int (m - k), s)"
      using less.IH [OF _ c(2)] n by auto
    have "copy_dwords read_byte write_byte p q (int n) s = copy_dwords read_byte write_byte (p + 4) (q + 4) (int m) s"
      using move_same [OF c(1)] True n by (auto simp: copy_dwords_step)
    with k show ?thesis by (intro exI [of _ "4 + k"]) (simp add: n add.assoc)
  qed
qed

lemma copy_data_same:
  assumes "same_cells s p q n"
  shows "copy_data p q (int n) s = Some s"
proof -
  obtain k where k: "k \<le> n" "copy_dwords read_byte write_byte p q (int n) s = Some (p + of_nat k, q + of_nat k, int (n - k), s)"
    using copy_dwords_same [OF assms] by blast
  then have "same_cells s (p + of_nat k) (q + of_nat k) (n - k)" using same_cells_split [of s p q k "n - k"] assms by simp
  then show ?thesis using k(2) copy_single_same by (simp add: copy_data_def copy_loop_def)
qed

lemma copy_data_unmapped:
  assumes "translate s p = None" "sz > 4"
  shows "copy_data p q sz s = None"
proof -
  have "read_bytes read_byte s p 4 = None" by (simp add: numeral_eq_Suc read_byte_def assms(1))
  then show ?thesis using assms(2) by (simp add: copy_data_def copy_loop_def copy_dwords_step)
qed

text \<open>The copy changes nothing but physical memory.\<close>

lemma write_byte_frame: "write_byte s a b = Some s' \<Longrightarrow> \<exists>m. s' = s\<lparr>pmem := m\<rparr>"
  by (auto simp: write_byte_def)

lemma write_bytes_frame: "write_bytes write_byte s a bs = Some s' \<Longrightarrow> \<exists>m. s' = s\<lparr>pmem := m\<rparr>"
proof (induction bs arbitrary: s a)
  case Nil
  then have "s' = s\<lparr>pmem := pmem s\<rparr>" by simp
  then show ?case by blast
next
  case (Cons b bs)
  from Cons.prems obtain s1 where "write_byte s a b = Some s1"
      "write_bytes write_byte s1 (a + 1) bs = Some s'"
    by (auto simp: bind_eq_Some_conv)
  then show ?case using Cons.IH write_byte_frame by fastforce
qed

lemma copy_single_frame:
  "copy_single read_byte write_byte p q sz s = Some s' \<Longrightarrow> \<exists>m. s' = s\<lparr>pmem := m\<rparr>"
proof (induction "nat sz" arbitrary: p q sz s rule: less_induct)
  case less
  show ?case
  proof (cases "sz > 0")
    case False
    with less.prems have "s' = s\<lparr>pmem := pmem s\<rparr>" by (simp add: copy_single_stop)
    then show ?thesis by blast
  next
    case True
    with less.prems obtain b s1 where s1: "write_byte s q b = Some s1"
        "copy_single read_byte write_byte (p + 1) (q + 1) (sz - 1) s1 = Some s'"
      by (auto simp: copy_single_step bind_eq_Some_conv)
    from less.hyps [OF _ s1(2)] True write_byte_frame [OF s1(1)] show ?thesis by fastforce
  qed
qed

lemma copy_dwords_frame:
  "copy_dwords read_byte write_byte p q sz s = Some (p', q', left, s') \<Longrightarrow>
   \<exists>m. s' = s\<lparr>pmem := m\<rparr>"
proof (induction "nat sz" arbitrary: p q sz s rule: less_induct)
  case less
  show ?case
  proof (cases "sz > 4")
    case False
    with less.prems have "s' = s\<lparr>pmem := pmem s\<rparr>" by (simp add: copy_dwords_stop)
    then show ?thesis by blast
  next
    case True
    with less.prems obtain bs s1 where s1: "write_bytes write_byte s q bs = Some s1"
        "copy_dwords read_byte write_byte (p + 4) (q + 4) (sz - 4) s1 = Some (p', q', left, s')"
      by (auto simp: copy_dwords_step bind_eq_Some_conv)
    from less.hyps [OF _ s1(2)] True write_bytes_frame [OF s1(1)] show ?thesis by fastforce
  qed
qed

lemma copy_data_frame: "copy_data p q sz s = Some s' \<Longrightarrow> \<exists>m. s' = s\<lparr>pmem := m\<rparr>"
  unfolding copy_data_def copy_loop_def
  using copy_dwords_frame copy_single_frame by (fastforce simp: bind_eq_Some_conv)

section \<open>The tick counter\<close>

abbreviation (input) "CYCLESPERTICK \<equiv> (109000 :: dword)"

text \<open>
  The instruction \<^verbatim>\<open>divl\<close> divides the 64-bit \<^verbatim>\<open>edx:eax\<close> by a 32-bit operand; it traps when the
  operand is zero or the quotient does not fit in 32 bits.
\<close>

definition divl :: "dword \<Rightarrow> dword \<Rightarrow> dword \<Rightarrow> (dword \<times> dword) option" where
  "divl upper low base =
     (let n = unat upper * 2 ^ 32 + unat low
      in if base = 0 \<or> n div unat base \<ge> 2 ^ 32 then None
         else Some (of_nat (n div unat base), of_nat (n mod unat base)))"

definition do_div :: "64 word \<Rightarrow> dword \<Rightarrow> (64 word \<times> dword) option" where
  "do_div n base =
     (let low = ucast n; high = ucast (drop_bit 32 n);
          (upper, high) = (if high \<noteq> 0 then (high mod base, high div base) else (high, high))
      in do { (low, remainder) \<leftarrow> divl upper low base;
              Some (push_bit 32 (ucast high) OR ucast low, remainder) })"

definition get_ticks :: "kstate \<Rightarrow> (dword \<times> kstate) option" where
  "get_ticks s =
     (let tsc = rdtsc_value s (rdtsc_count s)
      in do { (ticks, remainder) \<leftarrow> do_div tsc CYCLESPERTICK;
              Some (ucast ticks, s\<lparr>rdtsc_count := Suc (rdtsc_count s)\<rparr>) })"

lemma two_step_division:
  fixes H L b W :: nat
  assumes b: "0 < b" and L: "L < W"
  shows "((H mod b) * W + L) div b < W"
    and "(H div b) * W + ((H mod b) * W + L) div b = (H * W + L) div b"
    and "((H mod b) * W + L) mod b = (H * W + L) mod b"
proof -
  have "H mod b + 1 \<le> b" using mod_less_divisor [OF b, of H] by linarith
  then have "(H mod b + 1) * W \<le> b * W" by (rule mult_le_mono1)
  then have "(H mod b) * W + L < W * b" using L by (simp add: mult.commute)
  then show "((H mod b) * W + L) div b < W"
    by (rule less_mult_imp_div_less)
  have "H * W + L = (b * (H div b) + H mod b) * W + L"
    by simp
  then have H: "H * W + L = (H mod b) * W + L + b * ((H div b) * W)"
    by (simp only: add_mult_distrib mult.assoc add.assoc add.commute add.left_commute)
  show "(H div b) * W + ((H mod b) * W + L) div b = (H * W + L) div b"
    unfolding H using b by (simp only: div_mult_self2)
  show "((H mod b) * W + L) mod b = (H * W + L) mod b"
    unfolding H by (simp only: mod_mult_self2)
qed

lemma unat_split_64:
  "unat (n :: 64 word) = unat (ucast (drop_bit 32 n) :: dword) * 2 ^ 32 + unat (ucast n :: dword)"
proof -
  have "unat n < 2 ^ 64" by (rule unat_lt_64)
  then have "unat n div 2 ^ 32 < 2 ^ 32" by (simp add: div_less_iff_less_mult)
  moreover have "unat (ucast (drop_bit 32 n) :: dword) = take_bit 32 (unat n div 2 ^ 32)"
    by (simp add: unsigned_ucast_eq drop_bit_eq_div unat_div)
  ultimately have "unat (ucast (drop_bit 32 n) :: dword) = unat n div 2 ^ 32"
    by (simp add: take_bit_nat_eq_self)
  moreover have "unat (ucast n :: dword) = unat n mod 2 ^ 32"
    by (simp add: unsigned_ucast_eq take_bit_eq_mod)
  ultimately show ?thesis by simp
qed

lemma unat_join_64:
  fixes x y :: "dword"
  shows "unat (push_bit 32 (ucast x) OR ucast y :: 64 word) = unat x * 2 ^ 32 + unat y"
proof -
  let ?n = "push_bit 32 (ucast x) OR ucast y :: 64 word"
  have "ucast (drop_bit 32 ?n) = x"
    by (rule bit_word_eqI) (auto simp: bit_simps dest: bit_imp_le_length)
  moreover have "ucast ?n = y"
    by (rule bit_word_eqI) (auto simp: bit_simps)
  ultimately show ?thesis by (simp add: unat_split_64 [of ?n])
qed

text \<open>The two 32-bit divisions never trap and compute the 64-bit quotient and remainder.\<close>

lemma do_div_correct:
  assumes "base \<noteq> 0"
  shows "do_div n base = Some (n div ucast base, ucast (n mod ucast base))"
proof -
  define b where "b = unat base"
  define high :: "dword" where "high = ucast (drop_bit 32 n)"
  define low :: "dword" where "low = ucast n"
  define N where "N = unat (high mod base) * 2 ^ 32 + unat low"
  have b: "0 < b" "b < 2 ^ 32"
    using assms unat_lt_32 [of base] by (simp_all add: b_def unat_gt_0)
  have L: "unat low < 2 ^ 32" by (rule unat_lt_32)
  have n: "unat n = unat high * 2 ^ 32 + unat low"
    unfolding high_def low_def by (rule unat_split_64)
  have ub: "unat (ucast base :: 64 word) = b"
    using b(2) by (simp add: unsigned_ucast_eq b_def take_bit_nat_eq_self)
  note two = two_step_division [OF b(1) L, of "unat high"]
  have N: "N div b < 2 ^ 32" "unat (high div base) * 2 ^ 32 + N div b = unat n div b"
      "N mod b = unat n mod b"
    using two unfolding N_def n b_def by (simp_all only: unat_div unat_mod)
  have m: "N mod b < 2 ^ 32" using b mod_less_divisor [OF b(1), of N] by linarith
  have div: "divl (high mod base) low base = Some (of_nat (N div b), of_nat (N mod b))"
    using assms N(1) by (simp add: divl_def N_def b_def Let_def del: unat_eq_0)
  have split: "(if high \<noteq> 0 then (high mod base, high div base) else (high, high)) =
        (high mod base, high div base)"
    by simp
  have "do_div n base =
      Some (push_bit 32 (ucast (high div base)) OR ucast (of_nat (N div b) :: dword), of_nat (N mod b))"
    unfolding do_div_def Let_def high_def [symmetric] low_def [symmetric] split by (simp add: div)
  moreover have "push_bit 32 (ucast (high div base)) OR ucast (of_nat (N div b) :: dword) = n div ucast base"
    by (rule word_unat_eq_iff [THEN iffD2])
      (use N in \<open>simp add: unat_join_64 unat_div ub unat_of_nat\<close>)
  moreover have "(of_nat (N mod b) :: dword) = ucast (n mod ucast base)"
  proof (rule word_unat_eq_iff [THEN iffD2])
    have "unat (n mod ucast base) = unat n mod b" by (simp only: unat_mod ub)
    then have "unat (ucast (n mod ucast base) :: dword) = take_bit 32 (unat n mod b)"
      by (simp add: unsigned_ucast_eq)
    with N(3) m show "unat (of_nat (N mod b) :: dword) = unat (ucast (n mod ucast base) :: dword)"
      by (simp add: unat_of_nat take_bit_nat_eq_self)
  qed
  ultimately show ?thesis by simp
qed
lemma get_ticks_ok:
  "get_ticks s = Some (ucast (rdtsc_value s (rdtsc_count s) div ucast CYCLESPERTICK),
     s\<lparr>rdtsc_count := Suc (rdtsc_count s)\<rparr>)"
  by (simp add: get_ticks_def do_div_correct Let_def)

end
