(* ===== verification/Stats.thy ===== *)
theory Stats
  imports Data_Copy
begin

text \<open>
  The accounting of \<^verbatim>\<open>stats.c\<close>. \<open>update_stats\<close> charges the ticks since the last event of a
  task to one of its four counters. All counters are 32-bit and wrap.
\<close>

section \<open>The operations\<close>

definition upd_st :: "nat \<Rightarrow> (stats \<Rightarrow> stats) \<Rightarrow> kstate \<Rightarrow> kstate" where
  "upd_st t f s = upd_task t (\<lambda>k. k\<lparr>st := f (st k)\<rparr>) s"

definition reset_stats :: "nat \<Rightarrow> kstate \<Rightarrow> kstate" where
  "reset_stats t s =
     upd_st t (\<lambda>_. \<lparr>user_ticks = 0, system_ticks = 0, blocked_ticks = 0, ready_ticks = 0,
                    elapsed_total_ticks = 0, total_trans = 0, remaining_ticks = 0\<rparr>) s"

definition update_stats :: "nat \<Rightarrow> event \<Rightarrow> kstate \<Rightarrow> kstate option" where
  "update_stats t e s =
     (if e = QUANTUM_UPDATED \<or> e = CURRENT_TICKS_UPDATED
      then (let aux = quantum (tasks s t) - current_ticks s
            in Some (upd_st t (\<lambda>x. x\<lparr>remaining_ticks := if 0 <=s aux then aux else 0\<rparr>) s))
      else do {
        elapsed \<leftarrow> Some (elapsed_total_ticks (st (tasks s t)));
        (now, s) \<leftarrow> get_ticks s;
        incr \<leftarrow> Some (now - elapsed);
        s \<leftarrow> (case e of
               FREE_TO_READY \<Rightarrow> Some (upd_st t (\<lambda>x. x\<lparr>remaining_ticks := quantum (tasks s t)\<rparr>) s)
             | USER_TO_SYS \<Rightarrow> Some (upd_st t (\<lambda>x. x\<lparr>user_ticks := user_ticks x + incr\<rparr>) s)
             | SYS_TO_USER \<Rightarrow> Some (upd_st t (\<lambda>x. x\<lparr>system_ticks := system_ticks x + incr\<rparr>) s)
             | SYS_TO_READY \<Rightarrow>
                 Some (upd_st t (\<lambda>x. x\<lparr>system_ticks := system_ticks x + incr,
                                       remaining_ticks := quantum (tasks s t)\<rparr>) s)
             | READY_TO_SYS \<Rightarrow>
                 Some (upd_st t (\<lambda>x. x\<lparr>ready_ticks := ready_ticks x + incr,
                                       total_trans := total_trans x + 1\<rparr>) s)
             | SYS_TO_BLOCKED \<Rightarrow> Some (upd_st t (\<lambda>x. x\<lparr>system_ticks := system_ticks x + incr\<rparr>) s)
             | BLOCKED_TO_READY \<Rightarrow> Some (upd_st t (\<lambda>x. x\<lparr>blocked_ticks := blocked_ticks x + incr\<rparr>) s)
             | REFRESH \<Rightarrow>
                 (if state (tasks s t) = ST_READY
                  then Some (upd_st t (\<lambda>x. x\<lparr>ready_ticks := ready_ticks x + incr\<rparr>) s)
                  else if state (tasks s t) = ST_BLOCKED
                  then Some (upd_st t (\<lambda>x. x\<lparr>blocked_ticks := blocked_ticks x + incr\<rparr>) s)
                  else None)
             | _ \<Rightarrow> Some s);
        Some (upd_st t (\<lambda>x. x\<lparr>elapsed_total_ticks := now\<rparr>) s) })"

definition update_entering_sys :: "kstate \<Rightarrow> kstate option" where
  "update_entering_sys s = update_stats (current s) USER_TO_SYS s"

definition update_leaving_sys :: "kstate \<Rightarrow> kstate option" where
  "update_leaving_sys s = update_stats (current s) SYS_TO_USER s"

section \<open>Accounting\<close>

text \<open>The time charged to a task so far.\<close>

definition charged :: "stats \<Rightarrow> dword" where
  "charged x = user_ticks x + system_ticks x + blocked_ticks x + ready_ticks x"

text \<open>What an event does to the statistics, given the tick count \<open>now\<close>.\<close>

definition only_stats :: "nat \<Rightarrow> kstate \<Rightarrow> kstate \<Rightarrow> bool" where
  "only_stats t s s' \<longleftrightarrow>
     (\<exists>x n. s' = s\<lparr>tasks := (tasks s)(t := (tasks s t)\<lparr>st := x\<rparr>), rdtsc_count := n\<rparr>)"

lemma only_stats_refl: "only_stats t s s"
  unfolding only_stats_def by (intro exI [of _ "st (tasks s t)"] exI [of _ "rdtsc_count s"]) (simp add: fun_upd_idem)

lemma only_stats_trans: "only_stats t s s1 \<Longrightarrow> only_stats t s1 s2 \<Longrightarrow> only_stats t s s2"
  unfolding only_stats_def by (elim exE) (simp, blast)

lemma upd_st_eq: "upd_st t f s = s\<lparr>tasks := (tasks s)(t := (tasks s t)\<lparr>st := f (st (tasks s t))\<rparr>)\<rparr>"
  by (simp add: upd_st_def upd_task_def)

lemma upd_st_upd_st: "upd_st t f (upd_st t g s) = upd_st t (\<lambda>x. f (g x)) s"
  by (simp add: upd_st_eq)

lemma only_stats_upd_st: "only_stats t s (upd_st t f (s\<lparr>rdtsc_count := n\<rparr>))"
  unfolding only_stats_def upd_st_eq
  by (intro exI [of _ "f (st (tasks s t))"] exI [of _ n]) simp

lemma update_stats_only:
  "update_stats t e s = Some s' \<Longrightarrow> only_stats t s s'"
proof -
  assume run: "update_stats t e s = Some s'"
  have "only_stats t s (upd_st t f s)" for f
    using only_stats_upd_st [of t s f "rdtsc_count s"] by simp
  then show ?thesis
    using run only_stats_upd_st
    by (cases e) (auto simp: update_stats_def get_ticks_ok upd_st_upd_st Let_def split: if_splits)
qed

lemma update_stats_returns:
  "e \<noteq> REFRESH \<or> state (tasks s t) \<in> {ST_READY, ST_BLOCKED} \<Longrightarrow> \<exists>s'. update_stats t e s = Some s'"
  by (cases e) (auto simp: update_stats_def get_ticks_ok Let_def upd_st_def)

lemma only_stats_fields:
  assumes "only_stats t s s'"
  shows "links s' = links s" "semaphores s' = semaphores s" "idle_task s' = idle_task s"
    "current s' = current s" "kpc s' = kpc s" "current_ticks s' = current_ticks s"
    "dir_status s' = dir_status s" "dir_pages s' = dir_pages s" "pagusr_table s' = pagusr_table s"
    "pagusr_table_addr s' = pagusr_table_addr s" "tasks_addr s' = tasks_addr s" "cr3 s' = cr3 s" "last_PID s' = last_PID s"
    "keyboard_buffer s' = keyboard_buffer s" "buff_from s' = buff_from s" "buff_to s' = buff_to s"
    "remaining_to_read s' = remaining_to_read s"
    "phys_mem s' = phys_mem s" "cow_count_mem s' = cow_count_mem s" "pmem s' = pmem s"
    "state (tasks s' i) = state (tasks s i)" "PID (tasks s' i) = PID (tasks s i)"
    "quantum (tasks s' i) = quantum (tasks s i)" "heap_top (tasks s' i) = heap_top (tasks s i)"
    "sem_deleted (tasks s' i) = sem_deleted (tasks s i)"
    "dir_pages_baseAddr (tasks s' i) = dir_pages_baseAddr (tasks s i)"
    "i \<noteq> t \<Longrightarrow> tasks s' i = tasks s i"
  using assms by (auto simp: only_stats_def)

end
