(* ===== verification/Frames.thy ===== *)
theory Frames
  imports Machine
begin

text \<open>
  The byte map of physical frames of \<^verbatim>\<open>mm.c\<close>: \<^verbatim>\<open>init_frames\<close>, \<^verbatim>\<open>alloc_frame\<close> and
  \<^verbatim>\<open>free_frame\<close> with the copy-on-write counters, and the loop of \<^verbatim>\<open>sys_sbrk\<close> that reserves
  several frames and gives them back when one is missing. The locale \<open>frame_allocator\<close>
  is the contract that loop relies on.
\<close>

section \<open>The operations\<close>

definition init_frames :: "kstate \<Rightarrow> kstate option" where
  "init_frames s =
     do { s \<leftarrow> for_range 0 TOTAL_PAGES
                 (\<lambda>i s. Some (s\<lparr>phys_mem := (phys_mem s)(i := FREE_FRAME)\<rparr>)) s;
          for_range 0 NUM_PAG_KERNEL
                 (\<lambda>i s. Some (s\<lparr>phys_mem := (phys_mem s)(i := USED_FRAME),
                                cow_count_mem := (cow_count_mem s)(i := 0)\<rparr>)) s }"

text \<open>
  \<^verbatim>\<open>alloc_frame\<close> looks at every second frame from the first one after the kernel; the result
  is the frame number, or -1.
\<close>

function alloc_frame_from :: "nat \<Rightarrow> kstate \<Rightarrow> int \<times> kstate" where
  "alloc_frame_from i s =
     (if i < TOTAL_PAGES
      then if phys_mem s i = FREE_FRAME
           then (int i, s\<lparr>phys_mem := (phys_mem s)(i := USED_FRAME),
                          cow_count_mem := (cow_count_mem s)(i := 0)\<rparr>)
           else alloc_frame_from (i + 2) s
      else (-1, s))"
  by pat_completeness auto
termination
  by (relation "measure (\<lambda>(i, s). TOTAL_PAGES - i)") auto

declare alloc_frame_from.simps [simp del]

definition alloc_frame :: "kstate \<Rightarrow> int \<times> kstate" where
  "alloc_frame s = alloc_frame_from NUM_PAG_KERNEL s"

text \<open>
  In \<^verbatim>\<open>free_frame\<close> only the decrement is under the range check; the test of the counter (read
  as a signed char) and the write of the byte map are not, so a frame outside the array is
  an access out of bounds.
\<close>

definition free_frame :: "nat \<Rightarrow> kstate \<Rightarrow> kstate option" where
  "free_frame frame s =
     do { s \<leftarrow> Some (if frame > NUM_PAG_KERNEL \<and> frame < TOTAL_PAGES
                     then s\<lparr>cow_count_mem := (cow_count_mem s)(frame := cow_count_mem s frame - 1)\<rparr>
                     else s);
          assert (frame < TOTAL_PAGES);
          Some (if sint (cow_count_mem s frame) \<le> 0
                then s\<lparr>phys_mem := (phys_mem s)(frame := FREE_FRAME)\<rparr>
                else s) }"

text \<open>The loop of \<^verbatim>\<open>sys_sbrk\<close> that fills \<^verbatim>\<open>frames[]\<close>, over any allocator.\<close>

fun free_all :: "(nat \<Rightarrow> 's \<Rightarrow> 's option) \<Rightarrow> nat list \<Rightarrow> 's \<Rightarrow> 's option" where
  "free_all free [] s = Some s"
| "free_all free (f # fs) s = do { s \<leftarrow> free f s; free_all free fs s }"

fun reserve_frames ::
  "('s \<Rightarrow> int \<times> 's) \<Rightarrow> (nat \<Rightarrow> 's \<Rightarrow> 's option) \<Rightarrow> nat \<Rightarrow> nat list \<Rightarrow> 's \<Rightarrow>
   (nat list option \<times> 's) option" where
  "reserve_frames alloc free 0 frames s = Some (Some frames, s)"
| "reserve_frames alloc free (Suc n) frames s =
     (let (new_frame, s) = alloc s
      in if new_frame = -1
         then do { s \<leftarrow> free_all free frames s; Some (None, s) }
         else reserve_frames alloc free n (frames @ [nat new_frame]) s)"

section \<open>What the operations do\<close>

definition frame_pool :: "nat set" where
  "frame_pool = {f. NUM_PAG_KERNEL \<le> f \<and> f < TOTAL_PAGES \<and> even f}"

definition frame_used :: "kstate \<Rightarrow> nat \<Rightarrow> bool" where
  "frame_used s f \<longleftrightarrow> phys_mem s f \<noteq> FREE_FRAME"

text \<open>A frame in use whose counter says that nobody shares it.\<close>

definition frame_owned :: "kstate \<Rightarrow> nat \<Rightarrow> bool" where
  "frame_owned s f \<longleftrightarrow> frame_used s f \<and> f \<in> frame_pool \<and> cow_count_mem s f = 0"

lemma frame_pool_iff: "f \<in> frame_pool \<longleftrightarrow> (\<exists>k. f = NUM_PAG_KERNEL + 2 * k \<and> f < TOTAL_PAGES)"
proof
  assume "f \<in> frame_pool"
  then have "f = NUM_PAG_KERNEL + 2 * ((f - NUM_PAG_KERNEL) div 2) \<and> f < TOTAL_PAGES"
    by (auto simp: frame_pool_def elim!: evenE)
  then show "\<exists>k. f = NUM_PAG_KERNEL + 2 * k \<and> f < TOTAL_PAGES" by blast
qed (auto simp: frame_pool_def)

lemma all_shift: "(\<forall>k::nat. P k) \<longleftrightarrow> P 0 \<and> (\<forall>k. P (Suc k))"
  by (metis not0_implies_Suc)

lemma alloc_frame_from_step:
  "i < TOTAL_PAGES \<Longrightarrow> phys_mem s i \<noteq> FREE_FRAME \<Longrightarrow> alloc_frame_from i s = alloc_frame_from (i + 2) s"
  "i < TOTAL_PAGES \<Longrightarrow> phys_mem s i = FREE_FRAME \<Longrightarrow>
     alloc_frame_from i s = (int i, s\<lparr>phys_mem := (phys_mem s)(i := USED_FRAME),
                                     cow_count_mem := (cow_count_mem s)(i := 0)\<rparr>)"
  "\<not> i < TOTAL_PAGES \<Longrightarrow> alloc_frame_from i s = (-1, s)"
  by (subst alloc_frame_from.simps, simp)+

lemma alloc_frame_from_fail:
  "alloc_frame_from i s = (-1, s') \<longleftrightarrow>
     s' = s \<and> (\<forall>k. i + 2 * k < TOTAL_PAGES \<longrightarrow> frame_used s (i + 2 * k))"
proof (induction i s rule: alloc_frame_from.induct)
  case (1 i s)
  consider "i < TOTAL_PAGES" "phys_mem s i \<noteq> FREE_FRAME"
    | "i < TOTAL_PAGES" "phys_mem s i = FREE_FRAME" | "\<not> i < TOTAL_PAGES" by blast
  then show ?case
  proof cases
    case 1
    have "(\<forall>k. i + 2 * k < TOTAL_PAGES \<longrightarrow> frame_used s (i + 2 * k)) \<longleftrightarrow>
        (\<forall>k. i + 2 + 2 * k < TOTAL_PAGES \<longrightarrow> frame_used s (i + 2 + 2 * k))"
      using 1 by (subst all_shift) (simp add: frame_used_def)
    with "1.IH" 1 show ?thesis by (simp add: alloc_frame_from_step)
  next
    case 2
    then have "\<not> (\<forall>k. i + 2 * k < TOTAL_PAGES \<longrightarrow> frame_used s (i + 2 * k))"
      using frame_used_def by (metis add.right_neutral mult_0_right)
    with 2 show ?thesis by (simp add: alloc_frame_from_step)
  next
    case 3
    then show ?thesis by (auto simp: alloc_frame_from_step)
  qed
qed

lemma alloc_frame_from_ok:
  assumes "alloc_frame_from i s = (r, s')" "r \<noteq> -1"
  shows "\<exists>k. r = int (i + 2 * k) \<and> i + 2 * k < TOTAL_PAGES \<and> \<not> frame_used s (i + 2 * k) \<and>
           (\<forall>j<k. frame_used s (i + 2 * j)) \<and>
           s' = s\<lparr>phys_mem := (phys_mem s)(i + 2 * k := USED_FRAME),
                  cow_count_mem := (cow_count_mem s)(i + 2 * k := 0)\<rparr>"
  using assms
proof (induction i s rule: alloc_frame_from.induct)
  case (1 i s)
  consider "i < TOTAL_PAGES" "phys_mem s i \<noteq> FREE_FRAME"
    | "i < TOTAL_PAGES" "phys_mem s i = FREE_FRAME" | "\<not> i < TOTAL_PAGES" by blast
  then show ?case
  proof cases
    case 1
    have "alloc_frame_from (i + 2) s = (r, s')"
      using "1.prems"(1) alloc_frame_from_step(1) [OF 1] by simp
    from "1.IH" [OF 1 this "1.prems"(2)]
    obtain k where k: "r = int (i + 2 + 2 * k)" "i + 2 + 2 * k < TOTAL_PAGES"
        "\<not> frame_used s (i + 2 + 2 * k)" "\<forall>j<k. frame_used s (i + 2 + 2 * j)"
        "s' = s\<lparr>phys_mem := (phys_mem s)(i + 2 + 2 * k := USED_FRAME),
               cow_count_mem := (cow_count_mem s)(i + 2 + 2 * k := 0)\<rparr>"
      by blast
    have "frame_used s (i + 2 * j)" if "j < Suc k" for j
      using that k(4) 1 by (cases j) (auto simp: frame_used_def)
    then show ?thesis using k by (intro exI [of _ "Suc k"]) (simp add: fun_upd_def)
  next
    case 2
    have "r = int i" "s' = s\<lparr>phys_mem := (phys_mem s)(i := USED_FRAME),
        cow_count_mem := (cow_count_mem s)(i := 0)\<rparr>"
      using "1.prems" by (simp_all add: alloc_frame_from_step(2) [OF 2])
    then show ?thesis using 2 by (intro exI [of _ 0]) (simp add: frame_used_def fun_upd_def)
  next
    case 3
    then show ?thesis using "1.prems" by (simp add: alloc_frame_from_step)
  qed
qed

lemma alloc_frame_fail:
  "alloc_frame s = (-1, s') \<longleftrightarrow> s' = s \<and> (\<forall>f\<in>frame_pool. frame_used s f)"
  by (auto simp: alloc_frame_def alloc_frame_from_fail frame_pool_iff)

lemma alloc_frame_ok:
  assumes "alloc_frame s = (r, s')" "r \<noteq> -1"
  shows "\<exists>f. r = int f \<and> f \<in> frame_pool \<and> \<not> frame_used s f \<and>
           (\<forall>g\<in>frame_pool. g < f \<longrightarrow> frame_used s g) \<and>
           s' = s\<lparr>phys_mem := (phys_mem s)(f := USED_FRAME),
                  cow_count_mem := (cow_count_mem s)(f := 0)\<rparr>"
proof -
  obtain k where k: "r = int (NUM_PAG_KERNEL + 2 * k)" "NUM_PAG_KERNEL + 2 * k < TOTAL_PAGES"
      "\<not> frame_used s (NUM_PAG_KERNEL + 2 * k)" "\<forall>j<k. frame_used s (NUM_PAG_KERNEL + 2 * j)"
      "s' = s\<lparr>phys_mem := (phys_mem s)(NUM_PAG_KERNEL + 2 * k := USED_FRAME),
             cow_count_mem := (cow_count_mem s)(NUM_PAG_KERNEL + 2 * k := 0)\<rparr>"
    using alloc_frame_from_ok [of NUM_PAG_KERNEL s r s'] assms by (auto simp: alloc_frame_def)
  have "\<forall>g\<in>frame_pool. g < NUM_PAG_KERNEL + 2 * k \<longrightarrow> frame_used s g"
    using k(4) by (auto simp: frame_pool_iff)
  with k show ?thesis by (intro exI [of _ "NUM_PAG_KERNEL + 2 * k"]) (simp add: frame_pool_def)
qed

lemma free_frame_total: "frame < TOTAL_PAGES \<Longrightarrow> \<exists>s'. free_frame frame s = Some s'"
  by (simp add: free_frame_def)

lemma free_frame_last:
  assumes "f \<in> frame_pool" "cow_count_mem s f \<in> {0, 1}" "f \<noteq> NUM_PAG_KERNEL"
  shows "free_frame f s = Some (s\<lparr>phys_mem := (phys_mem s)(f := FREE_FRAME),
           cow_count_mem := (cow_count_mem s)(f := cow_count_mem s f - 1)\<rparr>)"
  using assms by (auto simp: free_frame_def frame_pool_def)

lemma free_frame_shared:
  assumes "f \<in> frame_pool" "2 \<le> unat (cow_count_mem s f)" "unat (cow_count_mem s f) \<le> 128"
    "f \<noteq> NUM_PAG_KERNEL"
  shows "free_frame f s = Some (s\<lparr>cow_count_mem := (cow_count_mem s)(f := cow_count_mem s f - 1)\<rparr>)"
proof -
  define c where "c = cow_count_mem s f - 1"
  have "unat c = unat (cow_count_mem s f) - 1"
    unfolding c_def using assms(2) by (intro unat_minus_one) auto
  then have c: "1 \<le> unat c" "unat c \<le> 127" using assms(2,3) by linarith+
  have "uint c = int (unat c)" by (rule uint_nat)
  then have "1 \<le> uint c" "uint c \<le> 127" using c by linarith+
  then have "sint c > 0"
    by (simp add: sint_uint signed_take_bit_int_eq_self)
  then have "sint (cow_count_mem s f - 1) > 0" by (simp add: c_def)
  then show ?thesis using assms(1,4) by (simp add: free_frame_def frame_pool_def)
qed

section \<open>The contract of the allocator\<close>

locale frame_allocator =
  fixes pool :: "nat set"
    and is_used :: "'s \<Rightarrow> nat \<Rightarrow> bool"
    and owned :: "'s \<Rightarrow> nat \<Rightarrow> bool"
    and alloc :: "'s \<Rightarrow> int \<times> 's"
    and free :: "nat \<Rightarrow> 's \<Rightarrow> 's option"
  assumes pool_finite: "finite pool"
    and alloc_fail: "alloc s = (-1, s') \<longleftrightarrow> s' = s \<and> (\<forall>f\<in>pool. is_used s f)"
    and alloc_ok: "alloc s = (r, s') \<Longrightarrow> r \<noteq> -1 \<Longrightarrow>
        \<exists>f\<in>pool. r = int f \<and> \<not> is_used s f \<and> is_used s' = (is_used s)(f := True) \<and>
          owned s' = (owned s)(f := True)"
    and free_ok: "owned s f \<Longrightarrow> \<exists>s'. free f s = Some s' \<and> is_used s' = (is_used s)(f := False) \<and>
          owned s' = (owned s)(f := False)"
begin

definition available :: "'s \<Rightarrow> nat set" where
  "available s = {f \<in> pool. \<not> is_used s f}"

lemma finite_available: "finite (available s)"
  using pool_finite by (simp add: available_def)

lemma alloc_available:
  assumes "Suc n \<le> card (available s)"
  shows "\<exists>f s'. alloc s = (int f, s') \<and> f \<in> pool \<and> \<not> is_used s f \<and> is_used s' = (is_used s)(f := True) \<and>
           n \<le> card (available s')"
proof -
  obtain r s1 where r: "alloc s = (r, s1)" by fastforce
  have "r \<noteq> -1"
  proof
    assume "r = -1"
    with r alloc_fail have "\<forall>f\<in>pool. is_used s f" by auto
    then have "available s = {}" by (auto simp: available_def)
    with assms show False by simp
  qed
  from alloc_ok [OF r this] obtain f where f: "f \<in> pool" "r = int f" "\<not> is_used s f" "is_used s1 = (is_used s)(f := True)"
    by blast
  then have "available s = insert f (available s1)" "f \<notin> available s1" by (auto simp: available_def)
  then have "card (available s) = Suc (card (available s1))" using finite_available by simp
  with f r assms show ?thesis by auto
qed

lemma free_all_ok:
  "distinct fs \<Longrightarrow> (\<forall>f\<in>set fs. owned s f) \<Longrightarrow>
   \<exists>s'. free_all free fs s = Some s' \<and> is_used s' = (\<lambda>f. is_used s f \<and> f \<notin> set fs)"
proof (induction fs arbitrary: s)
  case (Cons f fs)
  obtain s1 where s1: "free f s = Some s1" "is_used s1 = (is_used s)(f := False)"
      "owned s1 = (owned s)(f := False)"
    using free_ok [of s f] Cons.prems by auto
  have "\<forall>g\<in>set fs. owned s1 g" using Cons.prems s1(3) by auto
  with Cons.IH [of s1] Cons.prems(1) obtain s2 where
    "free_all free fs s1 = Some s2" "is_used s2 = (\<lambda>g. is_used s1 g \<and> g \<notin> set fs)"
    by auto
  with s1 show ?case by (auto simp: fun_eq_iff)
qed simp

text \<open>
  Reserving \<open>n\<close> frames either gives \<open>n\<close> new ones, or, when fewer than \<open>n\<close> are available,
  leaves exactly the frames in use that were in use before.
\<close>

lemma reserve_frames_from:
  assumes "distinct got" "\<forall>f\<in>set got. owned s f \<and> f \<in> pool \<and> \<not> is_used s0 f"
    and "is_used s = (\<lambda>f. is_used s0 f \<or> f \<in> set got)"
  shows "(n \<le> card (available s) \<longrightarrow>
           (\<exists>fs s'. reserve_frames alloc free n got s = Some (Some fs, s') \<and>
              length fs = length got + n \<and> distinct fs \<and>
              (\<forall>f\<in>set fs. owned s' f \<and> f \<in> pool \<and> \<not> is_used s0 f) \<and>
              is_used s' = (\<lambda>f. is_used s0 f \<or> f \<in> set fs))) \<and>
         (card (available s) < n \<longrightarrow>
           (\<exists>s'. reserve_frames alloc free n got s = Some (None, s') \<and> is_used s' = is_used s0))"
  using assms
proof (induction n arbitrary: got s)
  case 0
  then show ?case by auto
next
  case (Suc n)
  obtain r s1 where r: "alloc s = (r, s1)" by fastforce
  show ?case
  proof (cases "r = -1")
    case True
    with r alloc_fail have "s1 = s" "\<forall>f\<in>pool. is_used s f" by auto
    then have "available s = {}" by (auto simp: available_def)
    then have none: "card (available s) = 0" by simp
    obtain s2 where s2: "free_all free got s = Some s2" "is_used s2 = (\<lambda>f. is_used s f \<and> f \<notin> set got)"
      using free_all_ok [of got s] Suc.prems by auto
    have "is_used s2 = is_used s0" using s2(2) Suc.prems by (auto simp: fun_eq_iff)
    with none s2(1) True r \<open>s1 = s\<close> show ?thesis by simp
  next
    case False
    obtain f where f: "f \<in> pool" "r = int f" "\<not> is_used s f" "is_used s1 = (is_used s)(f := True)"
        "owned s1 = (owned s)(f := True)"
      using alloc_ok [OF r False] by blast
    have av: "available s = insert f (available s1)" "f \<notin> available s1"
      using f by (auto simp: available_def)
    then have card: "card (available s) = Suc (card (available s1))"
      using finite_available by simp
    have "(n \<le> card (available s1) \<longrightarrow>
           (\<exists>fs s'. reserve_frames alloc free n (got @ [f]) s1 = Some (Some fs, s') \<and>
              length fs = length (got @ [f]) + n \<and> distinct fs \<and>
              (\<forall>f\<in>set fs. owned s' f \<and> f \<in> pool \<and> \<not> is_used s0 f) \<and>
              is_used s' = (\<lambda>f. is_used s0 f \<or> f \<in> set fs))) \<and>
         (card (available s1) < n \<longrightarrow>
           (\<exists>s'. reserve_frames alloc free n (got @ [f]) s1 = Some (None, s') \<and> is_used s' = is_used s0))"
      by (rule Suc.IH) (use Suc.prems f in \<open>auto simp: fun_eq_iff\<close>)
    then show ?thesis using False r f(2) card by simp
  qed
qed

lemma reserve_frames_ok:
  "n \<le> card (available s) \<Longrightarrow>
     \<exists>fs s'. reserve_frames alloc free n [] s = Some (Some fs, s') \<and> length fs = n \<and> distinct fs \<and>
       (\<forall>f\<in>set fs. owned s' f \<and> f \<in> pool \<and> \<not> is_used s f) \<and>
       is_used s' = (\<lambda>f. is_used s f \<or> f \<in> set fs)"
  "card (available s) < n \<Longrightarrow>
     \<exists>s'. reserve_frames alloc free n [] s = Some (None, s') \<and> is_used s' = is_used s"
  using reserve_frames_from [of "[]" s s n] by simp_all

end

lemma free_frame_owned:
  assumes "frame_owned s f"
  shows "\<exists>s'. free_frame f s = Some s' \<and> frame_used s' = (frame_used s)(f := False) \<and>
           frame_owned s' = (frame_owned s)(f := False)"
  using assms
  by (auto simp: free_frame_def frame_owned_def frame_used_def frame_pool_def fun_eq_iff)

interpretation frames: frame_allocator frame_pool frame_used frame_owned alloc_frame free_frame
proof unfold_locales
  show "finite frame_pool" by (rule finite_subset [of _ "{..<TOTAL_PAGES}"]) (auto simp: frame_pool_def)
  show "alloc_frame s = (-1, s') \<longleftrightarrow> s' = s \<and> (\<forall>f\<in>frame_pool. frame_used s f)" for s s'
    by (rule alloc_frame_fail)
  show "\<exists>f\<in>frame_pool. r = int f \<and> \<not> frame_used s f \<and> frame_used s' = (frame_used s)(f := True) \<and>
          frame_owned s' = (frame_owned s)(f := True)"
    if "alloc_frame s = (r, s')" "r \<noteq> -1" for s r s'
    using alloc_frame_ok [OF that] by (auto simp: frame_used_def frame_owned_def fun_eq_iff)
qed (rule free_frame_owned)

lemma init_frames_ok:
  "\<exists>s'. init_frames s = Some s' \<and> (\<forall>f<TOTAL_PAGES. frame_used s' f \<longleftrightarrow> f < NUM_PAG_KERNEL)"
proof -
  have "\<exists>s1. for_range 0 TOTAL_PAGES
      (\<lambda>i s. Some (s\<lparr>phys_mem := (phys_mem s)(i := FREE_FRAME)\<rparr>)) s = Some s1 \<and>
      (\<forall>f<0 + TOTAL_PAGES. phys_mem s1 f = FREE_FRAME)"
    by (rule for_range_rule) (auto simp: less_Suc_eq)
  then obtain s1 where s1: "for_range 0 TOTAL_PAGES
      (\<lambda>i s. Some (s\<lparr>phys_mem := (phys_mem s)(i := FREE_FRAME)\<rparr>)) s = Some s1"
      "\<forall>f<TOTAL_PAGES. phys_mem s1 f = FREE_FRAME"
    by auto
  have "\<exists>s2. for_range 0 NUM_PAG_KERNEL
      (\<lambda>i s. Some (s\<lparr>phys_mem := (phys_mem s)(i := USED_FRAME),
                     cow_count_mem := (cow_count_mem s)(i := 0)\<rparr>)) s1 = Some s2 \<and>
      (\<forall>f<TOTAL_PAGES. frame_used s2 f \<longleftrightarrow> f < 0 + NUM_PAG_KERNEL)"
    by (rule for_range_rule) (use s1(2) in \<open>auto simp: frame_used_def less_Suc_eq\<close>)
  with s1(1) show ?thesis by (auto simp: init_frames_def)
qed

end
