(* ===== verification/Paging.thy ===== *)
theory Paging
  imports Frames Data_Copy "HOL-Library.Signed_Division"
begin

text \<open>
  Page tables and directories: the rest of \<^verbatim>\<open>mm.c\<close> (paging part), with \<^verbatim>\<open>get_DIR\<close> and
  \<^verbatim>\<open>get_PT\<close> of \<^verbatim>\<open>sched.c\<close>. A page table is the row of \<^verbatim>\<open>pagusr_table\<close> that holds it. An
  index outside the array of 1024 entries is an access out of bounds (\<open>None\<close>).
\<close>

section \<open>Page table entries\<close>

definition get_DIR :: "kstate \<Rightarrow> nat \<Rightarrow> nat option" where
  "get_DIR s t = dir_pages_baseAddr (tasks s t)"

definition get_PT :: "kstate \<Rightarrow> nat \<Rightarrow> nat option" where
  "get_PT s t =
     do { dir \<leftarrow> dir_pages_baseAddr (tasks s t);
          Some (PT_row s (dir_pages s dir)) }"

definition upd_pte ::
  "nat \<Rightarrow> nat \<Rightarrow> (page_table_entry \<Rightarrow> page_table_entry) \<Rightarrow> kstate \<Rightarrow> kstate option" where
  "upd_pte pt page f s =
     do { assert (pt < NR_TASKS \<and> page < TOTAL_PAGES);
          Some (s\<lparr>pagusr_table := (pagusr_table s)
                    (pt := (pagusr_table s pt)(page := f (pagusr_table s pt page)))\<rparr>) }"

definition set_ss_pag :: "nat \<Rightarrow> nat \<Rightarrow> nat \<Rightarrow> kstate \<Rightarrow> kstate option" where
  "set_ss_pag pt page frame s =
     do { s \<leftarrow> upd_pte pt page (\<lambda>_. 0) s;
          s \<leftarrow> upd_pte pt page (set_pte_pbase_addr (of_nat frame)) s;
          s \<leftarrow> upd_pte pt page (set_pte_user True) s;
          s \<leftarrow> upd_pte pt page (set_pte_rw True) s;
          upd_pte pt page (set_pte_present True) s }"

definition set_ro_page :: "nat \<Rightarrow> nat \<Rightarrow> kstate \<Rightarrow> kstate option" where
  "set_ro_page pt page s = upd_pte pt page (set_pte_rw False) s"

definition del_ss_pag :: "nat \<Rightarrow> nat \<Rightarrow> kstate \<Rightarrow> kstate option" where
  "del_ss_pag pt page s = upd_pte pt page (\<lambda>_. 0) s"

definition get_frame :: "nat \<Rightarrow> nat \<Rightarrow> kstate \<Rightarrow> nat option" where
  "get_frame pt page s =
     do { assert (pt < NR_TASKS \<and> page < TOTAL_PAGES);
          Some (unat (pte_pbase_addr (pagusr_table s pt page))) }"

definition is_ss_pag_free :: "nat \<Rightarrow> nat \<Rightarrow> kstate \<Rightarrow> bool option" where
  "is_ss_pag_free pt page s =
     do { assert (pt < NR_TASKS \<and> page < TOTAL_PAGES);
          Some (\<not> pte_present (pagusr_table s pt page)) }"

text \<open>
  \<^verbatim>\<open>share_cow_page\<close>: the counter goes from 0 to 2 when the frame gets its second user, and up
  by one after that; both mappings become read-only.
\<close>

definition share_cow_page :: "nat \<Rightarrow> nat \<Rightarrow> nat \<Rightarrow> kstate \<Rightarrow> kstate option" where
  "share_cow_page pt_source pt_dest page s =
     do { frame \<leftarrow> get_frame pt_source page s;
          assert (frame < TOTAL_PAGES);
          s \<leftarrow> Some (s\<lparr>cow_count_mem := (cow_count_mem s)(frame := cow_count_mem s frame + 1)\<rparr>);
          s \<leftarrow> Some (if cow_count_mem s frame = 1
                     then s\<lparr>cow_count_mem := (cow_count_mem s)(frame := cow_count_mem s frame + 1)\<rparr>
                     else s);
          s \<leftarrow> set_ss_pag pt_dest page frame s;
          s \<leftarrow> set_ro_page pt_source page s;
          set_ro_page pt_dest page s }"

text \<open>
  There is no translation cache in the model: every access walks the tables as they are, and loading \<^verbatim>\<open>cr3\<close>, which also empties the
  cache of the processor, is only the change of the register. So a flush that is missing would not be seen here.
\<close>

definition set_cr3 :: "nat option \<Rightarrow> kstate \<Rightarrow> kstate" where
  "set_cr3 dir s = s\<lparr>cr3 := dir\<rparr>"

text \<open>
  \<^verbatim>\<open>copy_frame\<close> maps the new frame at the page after the heap, copies the page through the
  current address space and removes the mapping. The \<^verbatim>\<open>set_cr3\<close> at its end is the flush.
\<close>

definition copy_frame :: "nat \<Rightarrow> nat \<Rightarrow> nat \<Rightarrow> kstate \<Rightarrow> kstate option" where
  "copy_frame pt page frame s =
     do { s \<leftarrow> set_ss_pag pt (PAG_LOG_INIT_HEAP + 1) frame s;
          s \<leftarrow> copy_data (of_nat (page * PAGE_SIZE)) (of_nat ((PAG_LOG_INIT_HEAP + 1) * PAGE_SIZE))
                 (int PAGE_SIZE) s;
          s \<leftarrow> del_ss_pag pt (PAG_LOG_INIT_HEAP + 1) s;
          Some (set_cr3 (get_DIR s (current s)) s) }"

text \<open>The number of pages from \<open>heap_top\<close> (exclusive) up to the start of the heap, in \<^verbatim>\<open>int\<close>.\<close>

definition get_heap_page_size :: "dword \<Rightarrow> int" where
  "get_heap_page_size heap = sint (HEAP_START - (heap + 1) + of_nat PAGE_SIZE) sdiv int PAGE_SIZE"

text \<open>The index \<^verbatim>\<open>PAG_LOG_INIT_HEAP-pag\<close>, while it is inside the table.\<close>

definition heap_page :: "nat \<Rightarrow> nat option" where
  "heap_page pag = (if pag \<le> PAG_LOG_INIT_HEAP then Some (PAG_LOG_INIT_HEAP - pag) else None)"

section \<open>Directories\<close>

definition get_DIR_id :: "nat \<Rightarrow> nat" where
  "get_DIR_id dir = dir div TOTAL_PAGES"

definition upd_dir_count :: "nat \<Rightarrow> (int \<Rightarrow> int) \<Rightarrow> kstate \<Rightarrow> kstate option" where
  "upd_dir_count i f s =
     do { assert (i < NR_TASKS);
          Some (s\<lparr>dir_status := (dir_status s)
                    (i := (dir_status s i)\<lparr>dir_count := f (dir_count (dir_status s i))\<rparr>)\<rparr>) }"

text \<open>\<^verbatim>\<open>list_entry(l, struct dir_info, anchor)\<close>\<close>

definition list_head_to_dir_info :: "node \<Rightarrow> nat option" where
  "list_head_to_dir_info n = (case n of Dir_anchor i \<Rightarrow> Some i | _ \<Rightarrow> None)"

definition allocate_DIR :: "nat \<Rightarrow> kstate \<Rightarrow> (int \<times> kstate) option" where
  "allocate_DIR t s =
     (if list_empty Free_dirs (links s) then Some (0, s)
      else do { n \<leftarrow> list_first Free_dirs (links s);
                info \<leftarrow> list_head_to_dir_info n;
                s \<leftarrow> on_links (list_del (Dir_anchor info)) s;
                s \<leftarrow> Some (upd_task t (\<lambda>k. k\<lparr>dir_pages_baseAddr :=
                       Some (nat (dir_pos (dir_status s info)) * TOTAL_PAGES)\<rparr>) s);
                s \<leftarrow> upd_dir_count info (\<lambda>_. 1) s;
                Some (1, s) })"

definition reuse_DIR :: "nat \<Rightarrow> nat \<Rightarrow> kstate \<Rightarrow> kstate option" where
  "reuse_DIR dir t s =
     do { s \<leftarrow> Some (upd_task t (\<lambda>k. k\<lparr>dir_pages_baseAddr := Some dir\<rparr>) s);
          upd_dir_count (get_DIR_id dir) (\<lambda>c. c + 1) s }"

text \<open>
  In \<^verbatim>\<open>free_user_pages\<close> the loop over the heap frees the frame of page
  \<^verbatim>\<open>PAG_LOG_INIT_HEAP-pag\<close> and clears the entry of page \<^verbatim>\<open>PAG_LOG_INIT_HEAP+pag\<close>.
\<close>

definition free_user_pages :: "nat \<Rightarrow> kstate \<Rightarrow> kstate option" where
  "free_user_pages t s =
     do { pt \<leftarrow> get_PT s t;
          s \<leftarrow> for_range 0 NUM_PAG_DATA
                 (\<lambda>pag s. do { frame \<leftarrow> get_frame pt (PAG_LOG_INIT_DATA + pag) s;
                               s \<leftarrow> free_frame frame s;
                               upd_pte pt (PAG_LOG_INIT_DATA + pag) (\<lambda>_. 0) s }) s;
          for_range 0 (nat (get_heap_page_size (heap_top (tasks s t))))
                 (\<lambda>pag s. do { page \<leftarrow> heap_page pag;
                               frame \<leftarrow> get_frame pt page s;
                               s \<leftarrow> free_frame frame s;
                               upd_pte pt (PAG_LOG_INIT_HEAP + pag) (\<lambda>_. 0) s }) s }"

definition free_DIR :: "nat \<Rightarrow> kstate \<Rightarrow> kstate option" where
  "free_DIR t s =
     do { dir \<leftarrow> dir_pages_baseAddr (tasks s t);
          i \<leftarrow> Some (get_DIR_id dir);
          s \<leftarrow> upd_dir_count i (\<lambda>c. c - 1) s;
          s \<leftarrow> (if dir_count (dir_status s i) = 0
                then do { s \<leftarrow> free_user_pages t s;
                          on_links (list_add (Dir_anchor i) Free_dirs) s }
                else Some s);
          Some (upd_task t (\<lambda>k. k\<lparr>dir_pages_baseAddr := None\<rparr>) s) }"

section \<open>Initialisation\<close>

definition upd_dir_entry ::
  "nat \<Rightarrow> (page_table_entry \<Rightarrow> page_table_entry) \<Rightarrow> kstate \<Rightarrow> kstate" where
  "upd_dir_entry e f s = s\<lparr>dir_pages := (dir_pages s)(e := f (dir_pages s e))\<rparr>"

definition init_dir_pages :: "kstate \<Rightarrow> kstate option" where
  "init_dir_pages s =
     do { s \<leftarrow> on_links (INIT_LIST_HEAD Free_dirs) s;
          for_range 0 NR_TASKS
            (\<lambda>i s.
               (let e = i * TOTAL_PAGES + ENTRY_DIR_PAGES;
                    s = upd_dir_entry e (\<lambda>_. 0) s;
                    s = upd_dir_entry e (set_pte_pbase_addr
                          (drop_bit 12 (pagusr_table_addr s + of_nat (i * PAGE_SIZE)))) s;
                    s = upd_dir_entry e (set_pte_user True) s;
                    s = upd_dir_entry e (set_pte_rw True) s;
                    s = upd_dir_entry e (set_pte_present True) s;
                    s = s\<lparr>dir_status := (dir_status s)(i := \<lparr>dir_count = 0, dir_pos = int i\<rparr>)\<rparr>
                in on_links (list_add (Dir_anchor i) Free_dirs) s)) s }"

definition init_table_pages :: "kstate \<Rightarrow> kstate option" where
  "init_table_pages s =
     for_range 0 NR_TASKS
       (\<lambda>j s.
          do { s \<leftarrow> for_range 0 TOTAL_PAGES (\<lambda>i s. upd_pte j i (\<lambda>_. 0) s) s;
               s \<leftarrow> for_range 1 (NUM_PAG_KERNEL - 1)
                      (\<lambda>i s. do { s \<leftarrow> upd_pte j i (set_pte_pbase_addr (of_nat i)) s;
                                  s \<leftarrow> upd_pte j i (set_pte_rw True) s;
                                  upd_pte j i (set_pte_present True) s }) s;
               s \<leftarrow> upd_pte j (unat (drop_bit 12 (tasks_addr s - of_nat PAGE_SIZE)))
                      (set_pte_present False) s;
               upd_pte j (unat (drop_bit 12 (tasks_addr s + of_nat (10 * PAGE_SIZE))))
                      (set_pte_present False) s }) s"

text \<open>
  \<^verbatim>\<open>set_user_pages\<close> does not test the result of \<^verbatim>\<open>alloc_frame\<close>; the value is truncated to the
  20 bits of the field.
\<close>

definition set_user_pages :: "nat \<Rightarrow> kstate \<Rightarrow> kstate option" where
  "set_user_pages t s =
     do { pt \<leftarrow> get_PT s t;
          s \<leftarrow> for_range 0 NUM_PAG_CODE
                 (\<lambda>pag s. (let (new_ph_pag, s) = alloc_frame s
                           in do { s \<leftarrow> upd_pte pt (PAG_LOG_INIT_CODE + pag) (\<lambda>_. 0) s;
                                   s \<leftarrow> upd_pte pt (PAG_LOG_INIT_CODE + pag)
                                          (set_pte_pbase_addr (of_int new_ph_pag)) s;
                                   s \<leftarrow> upd_pte pt (PAG_LOG_INIT_CODE + pag) (set_pte_user True) s;
                                   upd_pte pt (PAG_LOG_INIT_CODE + pag) (set_pte_present True) s })) s;
          for_range 0 NUM_PAG_DATA
                 (\<lambda>pag s. (let (new_ph_pag, s) = alloc_frame s
                           in do { s \<leftarrow> upd_pte pt (PAG_LOG_INIT_DATA + pag) (\<lambda>_. 0) s;
                                   s \<leftarrow> upd_pte pt (PAG_LOG_INIT_DATA + pag)
                                          (set_pte_pbase_addr (of_int new_ph_pag)) s;
                                   s \<leftarrow> upd_pte pt (PAG_LOG_INIT_DATA + pag) (set_pte_user True) s;
                                   s \<leftarrow> upd_pte pt (PAG_LOG_INIT_DATA + pag) (set_pte_rw True) s;
                                   upd_pte pt (PAG_LOG_INIT_DATA + pag) (set_pte_present True) s })) s }"

text \<open>\<^verbatim>\<open>set_pe_flag\<close> turns paging on; translation is on throughout the model.\<close>

definition init_mm :: "kstate \<Rightarrow> kstate option" where
  "init_mm s =
     do { s \<leftarrow> init_table_pages s;
          s \<leftarrow> init_frames s;
          s \<leftarrow> init_dir_pages s;
          Some (set_cr3 (Some 0) s) }"

end
