(* ===== verification/Sched.thy ===== *)
theory Sched
  imports Stats Paging
begin

text \<open>
  The process table, the queues and the round-robin scheduler of \<^verbatim>\<open>sched.c\<close>, with the context
  switch of \<^verbatim>\<open>sched.S\<close>. The functions that end in \<open>task_switch\<close> take the place where the
  outgoing task will continue, which \<open>inner_task_switch\<close> records in \<open>kpc\<close>.
\<close>

section \<open>Process creation\<close>

definition allocate_process :: "nat option \<Rightarrow> kstate \<Rightarrow> (nat option \<times> kstate) option" where
  "allocate_process dir s =
     (if list_empty Free_queue (links s) then Some (None, s)
      else do {
        n \<leftarrow> list_first Free_queue (links s);
        task \<leftarrow> list_head_to_task_struct n;
        (ok, s) \<leftarrow> (case dir of
                      None \<Rightarrow> allocate_DIR task s
                    | Some d \<Rightarrow> do { s \<leftarrow> reuse_DIR d task s; Some (1, s) });
        if ok = 0 then Some (None, s)
        else do {
          s \<leftarrow> on_links (list_del (Task_anchor task)) s;
          s \<leftarrow> Some (upd_task task (\<lambda>k. k\<lparr>PID := last_PID s\<rparr>) s);
          s \<leftarrow> Some (s\<lparr>last_PID := last_PID s + 1\<rparr>);
          s \<leftarrow> Some (upd_task task (\<lambda>k. k\<lparr>heap_top := HEAP_START\<rparr>) s);
          s \<leftarrow> on_links (INIT_LIST_HEAD (Task_semaphores task)) s;
          s \<leftarrow> Some (upd_task task (\<lambda>k. k\<lparr>sem_deleted := 0\<rparr>) s);
          s \<leftarrow> Some (upd_task task (\<lambda>k. k\<lparr>quantum := DEFAULT_QUANTUM\<rparr>) s);
          s \<leftarrow> Some (reset_stats task s);
          Some (Some task, s) } })"

section \<open>Queues\<close>

definition update_process_state :: "nat \<Rightarrow> node option \<Rightarrow> bool \<Rightarrow> kstate \<Rightarrow> kstate option" where
  "update_process_state task dest is_first s =
     do { s \<leftarrow> (if anchor_linked (Task_anchor task) (links s)
                then on_links (list_del (Task_anchor task)) s else Some s);
          (case dest of
             None \<Rightarrow> Some (upd_task task (\<lambda>k. k\<lparr>state := ST_RUN\<rparr>) s)
           | Some d \<Rightarrow>
               do { s \<leftarrow> on_links (if is_first then list_add (Task_anchor task) d
                                   else list_add_tail (Task_anchor task) d) s;
                    Some (upd_task task
                      (\<lambda>k. k\<lparr>state := (if d = Ready_queue then ST_READY
                                       else if d = Free_queue then ST_INVALID
                                       else ST_BLOCKED)\<rparr>) s) }) }"

definition update_process_state_rr :: "nat \<Rightarrow> node option \<Rightarrow> kstate \<Rightarrow> kstate option" where
  "update_process_state_rr task dest s = update_process_state task dest False s"

definition add_process_to_scheduling :: "nat \<Rightarrow> event \<Rightarrow> bool \<Rightarrow> kstate \<Rightarrow> kstate option" where
  "add_process_to_scheduling task e is_first s =
     do { s \<leftarrow> update_process_state task (Some Ready_queue) is_first s;
          update_stats task e s }"

section \<open>Context switch and scheduling policy\<close>

definition update_TSS :: "nat \<Rightarrow> kstate \<Rightarrow> kstate" where
  "update_TSS task s = s\<lparr>tss_esp0 := KERNEL_ESP s task\<rparr>"

text \<open>
  \<^verbatim>\<open>change_context\<close> loads the saved stack pointer of the new task: from here on the code that
  runs is what \<open>kpc\<close> says of that task.
\<close>

definition change_context :: "nat \<Rightarrow> kstate \<Rightarrow> kstate" where
  "change_context task s = s\<lparr>current := task\<rparr>"

definition inner_task_switch :: "kcont \<Rightarrow> nat \<Rightarrow> kstate \<Rightarrow> kstate" where
  "inner_task_switch k task s =
     (let (ebp, s) = get_ebp s;
          s = upd_task (current s) (\<lambda>x. x\<lparr>kernel_esp := ebp\<rparr>) s;
          s = s\<lparr>kpc := (kpc s)(current s := k)\<rparr>;
          s = update_TSS task s;
          s = (if dir_pages_baseAddr (tasks s (current s)) \<noteq> dir_pages_baseAddr (tasks s task)
               then set_cr3 (get_DIR s task) s else s)
      in change_context task s)"

definition task_switch :: "kcont \<Rightarrow> nat \<Rightarrow> kstate \<Rightarrow> kstate" where
  "task_switch k task s = inner_task_switch k task s"

definition sched_next_rr :: "kcont \<Rightarrow> kstate \<Rightarrow> kstate option" where
  "sched_next_rr k s =
     do { next_task \<leftarrow> (if \<not> list_empty Ready_queue (links s)
                        then do { n \<leftarrow> list_first Ready_queue (links s);
                                  list_head_to_task_struct n }
                        else idle_task s);
          s \<leftarrow> update_process_state_rr next_task None s;
          s \<leftarrow> update_stats next_task READY_TO_SYS s;
          s \<leftarrow> Some (s\<lparr>current_ticks := 0\<rparr>);
          s \<leftarrow> update_stats next_task CURRENT_TICKS_UPDATED s;
          Some (task_switch k next_task s) }"

definition update_sched_data_rr :: "kstate \<Rightarrow> kstate option" where
  "update_sched_data_rr s =
     do { s \<leftarrow> Some (s\<lparr>current_ticks := current_ticks s + 1\<rparr>);
          update_stats (current s) CURRENT_TICKS_UPDATED s }"

definition needs_sched_rr :: "kstate \<Rightarrow> bool" where
  "needs_sched_rr s \<longleftrightarrow>
     (Some (current s) = idle_task s \<and> \<not> list_empty Ready_queue (links s)) \<or>
     remaining_ticks (st (tasks s (current s))) = 0"

definition execute_scheduling :: "kstate \<Rightarrow> kstate option" where
  "execute_scheduling s =
     do { s \<leftarrow> update_sched_data_rr s;
          if needs_sched_rr s
          then do { s \<leftarrow> (if Some (current s) \<noteq> idle_task s
                          then update_process_state_rr (current s) (Some Ready_queue) s
                          else Some s);
                    s \<leftarrow> update_stats (current s) SYS_TO_READY s;
                    sched_next_rr Irq_exit s }
          else Some s }"

definition get_quantum :: "nat \<Rightarrow> kstate \<Rightarrow> dword" where
  "get_quantum task s = quantum (tasks s task)"

definition set_quantum :: "nat \<Rightarrow> dword \<Rightarrow> kstate \<Rightarrow> kstate option" where
  "set_quantum task new_quantum s =
     do { s \<leftarrow> Some (upd_task task (\<lambda>k. k\<lparr>quantum := new_quantum\<rparr>) s);
          update_stats (current s) QUANTUM_UPDATED s }"

section \<open>Initialisation\<close>

definition init_sched :: "kstate \<Rightarrow> kstate option" where
  "init_sched s =
     do { s \<leftarrow> Some (s\<lparr>current_ticks := 0, last_PID := 0\<rparr>);
          s \<leftarrow> on_links (INIT_LIST_HEAD Free_queue) s;
          s \<leftarrow> on_links (INIT_LIST_HEAD Ready_queue) s;
          s \<leftarrow> for_range 0 NR_TASKS (\<lambda>i s. update_process_state_rr i (Some Free_queue) s) s;
          for_range 0 NR_SEMAPHORES
            (\<lambda>i s. Some (upd_sem i (\<lambda>x. x\<lparr>used := 0, count := 0\<rparr>) s)) s }"

definition init_idle :: "kstate \<Rightarrow> kstate option" where
  "init_idle s =
     do { (r, s) \<leftarrow> allocate_process None s;
          s \<leftarrow> Some (s\<lparr>idle_task := r\<rparr>);
          task \<leftarrow> r;
          s \<leftarrow> write_dword s (stack_addr s task (int KERNEL_STACK_SIZE - 1)) (cpu_idle_addr s);
          s \<leftarrow> Some (upd_task task
                 (\<lambda>k. k\<lparr>kernel_esp := stack_addr s task (int KERNEL_STACK_SIZE - 2)\<rparr>) s);
          s \<leftarrow> Some (s\<lparr>kpc := (kpc s)(task := Idle_loop)\<rparr>);
          Some (upd_task task (\<lambda>k. k\<lparr>state := ST_READY\<rparr>) s) }"

text \<open>
  The code after \<^verbatim>\<open>init_task1\<close> runs on the boot stack and ends in \<^verbatim>\<open>return_gate\<close>: the first
  kernel entry from user mode uses \<^verbatim>\<open>tss.esp0\<close>, that is the stack of task 1. The model makes
  task 1 current here.
\<close>

definition init_task1 :: "kstate \<Rightarrow> kstate option" where
  "init_task1 s =
     do { (r, s) \<leftarrow> allocate_process None s;
          task1 \<leftarrow> r;
          s \<leftarrow> set_user_pages task1 s;
          s \<leftarrow> Some (update_TSS task1 s);
          s \<leftarrow> Some (set_cr3 (get_DIR s task1) s);
          s \<leftarrow> Some (upd_task task1 (\<lambda>k. k\<lparr>state := ST_RUN\<rparr>) s);
          s \<leftarrow> update_stats task1 FREE_TO_READY s;
          Some (s\<lparr>current := task1, kpc := (kpc s)(task1 := User_mode)\<rparr>) }"

end
