(* ===== verification/Queue_View.thy ===== *)
theory Queue_View
  imports Sched
begin

text \<open>
  The abstract view of the kernel's queues: which tasks, semaphores and directories are in
  which list, as HOL lists. \<open>heads\<close> gives the family of linked lists a view stands for, and
  \<open>queues_ok\<close> says that the list heads in memory represent it, that every task is either in
  one queue or one of the tasks \<open>out\<close> of all queues, and that the \<^verbatim>\<open>state\<close> field of every
  queued task names its queue. Each scheduler operation is then a function on views.
\<close>

section \<open>Views\<close>

record qview =
  v_free :: "nat list"
  v_ready :: "nat list"
  v_kbd :: "nat list"
  v_blocked :: "nat \<Rightarrow> nat list option"
  v_sems :: "nat \<Rightarrow> nat list option"
  v_dirs :: "nat list"

definition heads :: "qview \<Rightarrow> node \<rightharpoonup> node list" where
  "heads v n =
     (case n of
        Free_queue \<Rightarrow> Some (map Task_anchor (v_free v))
      | Ready_queue \<Rightarrow> Some (map Task_anchor (v_ready v))
      | Keyboard_queue \<Rightarrow> Some (map Task_anchor (v_kbd v))
      | Free_dirs \<Rightarrow> Some (map Dir_anchor (v_dirs v))
      | Sem_blocked i \<Rightarrow> map_option (map Task_anchor) (v_blocked v i)
      | Task_semaphores t \<Rightarrow> map_option (map Sem_anchor) (v_sems v t)
      | _ \<Rightarrow> None)"

text \<open>The queues that hold tasks, as a function from their heads.\<close>

definition v_queue :: "qview \<Rightarrow> node \<Rightarrow> nat list option" where
  "v_queue v n =
     (case n of
        Free_queue \<Rightarrow> Some (v_free v)
      | Ready_queue \<Rightarrow> Some (v_ready v)
      | Keyboard_queue \<Rightarrow> Some (v_kbd v)
      | Sem_blocked i \<Rightarrow> v_blocked v i
      | _ \<Rightarrow> None)"

definition v_set_queue :: "node \<Rightarrow> nat list \<Rightarrow> qview \<Rightarrow> qview" where
  "v_set_queue n ts v =
     (case n of
        Free_queue \<Rightarrow> v\<lparr>v_free := ts\<rparr>
      | Ready_queue \<Rightarrow> v\<lparr>v_ready := ts\<rparr>
      | Keyboard_queue \<Rightarrow> v\<lparr>v_kbd := ts\<rparr>
      | Sem_blocked i \<Rightarrow> v\<lparr>v_blocked := (v_blocked v)(i \<mapsto> ts)\<rparr>
      | _ \<Rightarrow> v)"

definition v_remove :: "nat \<Rightarrow> qview \<Rightarrow> qview" where
  "v_remove t v =
     v\<lparr>v_free := removeAll t (v_free v), v_ready := removeAll t (v_ready v),
       v_kbd := removeAll t (v_kbd v),
       v_blocked := (\<lambda>i. map_option (removeAll t) (v_blocked v i))\<rparr>"

text \<open>Moving a task to one end of a queue, and out of every queue.\<close>

definition v_move :: "nat \<Rightarrow> node \<Rightarrow> bool \<Rightarrow> qview \<Rightarrow> qview" where
  "v_move t d is_first v =
     (let ts = removeAll t (the (v_queue v d))
      in v_set_queue d (if is_first then t # ts else ts @ [t]) (v_remove t v))"

definition queued :: "qview \<Rightarrow> nat set" where
  "queued v = {t. \<exists>n ts. v_queue v n = Some ts \<and> t \<in> set ts}"

definition tag_of :: "node \<Rightarrow> state_t" where
  "tag_of n =
     (if n = Ready_queue then ST_READY else if n = Free_queue then ST_INVALID else ST_BLOCKED)"

definition queues_ok :: "kstate \<Rightarrow> qview \<Rightarrow> nat set \<Rightarrow> bool" where
  "queues_ok s v out \<longleftrightarrow>
     lists_ok (links s) (heads v) \<and>
     queued v \<inter> out = {} \<and> queued v \<union> out = {..<NR_TASKS} \<and>
     (\<forall>n ts t. v_queue v n = Some ts \<longrightarrow> t \<in> set ts \<longrightarrow> state (tasks s t) = tag_of n)"

section \<open>Facts about views\<close>

lemma heads_queue: "v_queue v n = Some ts \<Longrightarrow> heads v n = Some (map Task_anchor ts)"
  by (auto simp: v_queue_def heads_def split: node.splits)

lemma heads_task:
  "heads v n = Some xs \<Longrightarrow> Task_anchor t \<in> set (n # xs) \<longleftrightarrow> (\<exists>ts. v_queue v n = Some ts \<and> t \<in> set ts)"
  by (cases n) (auto simp: heads_def v_queue_def)

lemma queuedI: "v_queue v n = Some ts \<Longrightarrow> t \<in> set ts \<Longrightarrow> t \<in> queued v"
  unfolding queued_def by blast

lemma queuedE:
  assumes "t \<in> queued v"
  obtains n ts where "v_queue v n = Some ts" "t \<in> set ts"
  using assms unfolding queued_def by blast

lemma Task_anchor_members: "Task_anchor t \<in> members (heads v) \<longleftrightarrow> t \<in> queued v"
proof
  assume "Task_anchor t \<in> members (heads v)"
  then obtain n xs where "heads v n = Some xs" "Task_anchor t \<in> set (n # xs)"
    by (auto simp: members_def)
  with heads_task show "t \<in> queued v" by (blast intro: queuedI)
next
  assume "t \<in> queued v"
  then obtain n ts where "v_queue v n = Some ts" "t \<in> set ts" by (rule queuedE)
  then show "Task_anchor t \<in> members (heads v)"
    using heads_queue [of v n ts] by (intro membersI [of "heads v" n "map Task_anchor ts"]) simp_all
qed

lemma Task_anchor_not_head [simp]: "Task_anchor t \<notin> dom (heads v)"
  by (simp add: heads_def dom_def)

lemma removeAll_Task_anchor:
  "removeAll (Task_anchor t) (map Task_anchor ts) = map Task_anchor (removeAll t ts)"
  by (induction ts) auto

lemma heads_remove: "heads (v_remove t v) = unlink (Task_anchor t) (heads v)"
proof
  fix n
  have "removeAll (Task_anchor t) (map Dir_anchor ds) = map Dir_anchor ds" for ds
    by (induction ds) auto
  moreover have "removeAll (Task_anchor t) (map Sem_anchor ds) = map Sem_anchor ds" for ds
    by (induction ds) auto
  ultimately show "heads (v_remove t v) n = unlink (Task_anchor t) (heads v) n"
    by (cases n) (simp_all add: heads_def unlink_def v_remove_def removeAll_Task_anchor
        option.map_comp comp_def)
qed

lemma heads_set_queue:
  "v_queue v d \<noteq> None \<Longrightarrow> heads (v_set_queue d ts v) = (heads v)(d \<mapsto> map Task_anchor ts)"
  by (rule ext) (auto simp: heads_def v_set_queue_def v_queue_def split: node.splits)

lemma v_queue_remove: "v_queue (v_remove t v) n = map_option (removeAll t) (v_queue v n)"
  by (auto simp: v_queue_def v_remove_def split: node.splits)

lemma v_queue_set_queue:
  "v_queue v d \<noteq> None \<Longrightarrow> v_queue (v_set_queue d ts v) n = (if n = d then Some ts else v_queue v n)"
  by (auto simp: v_queue_def v_set_queue_def split: node.splits)

lemma v_queue_move:
  assumes "v_queue v d = Some ts"
  shows "v_queue (v_move t d f v) n =
    (if n = d then Some (if f then t # removeAll t ts else removeAll t ts @ [t])
     else map_option (removeAll t) (v_queue v n))"
proof -
  have "v_queue (v_remove t v) d \<noteq> None" using assms by (simp add: v_queue_remove)
  then show ?thesis
    using assms by (simp add: v_move_def Let_def v_queue_set_queue) (simp add: v_queue_remove)
qed

lemma heads_move:
  assumes "v_queue v d = Some ts"
  shows "heads (v_move t d f v) = (unlink (Task_anchor t) (heads v))
    (d \<mapsto> (if f then Task_anchor t # removeAll (Task_anchor t) (map Task_anchor ts)
           else removeAll (Task_anchor t) (map Task_anchor ts) @ [Task_anchor t]))"
proof -
  have "v_queue (v_remove t v) d \<noteq> None" using assms by (simp add: v_queue_remove)
  then show ?thesis
    using assms by (simp add: v_move_def Let_def heads_set_queue heads_remove removeAll_Task_anchor)
qed

lemma v_move_other [simp]:
  "v_sems (v_move t d f v) = v_sems v" "v_dirs (v_move t d f v) = v_dirs v"
  "v_sems (v_remove t v) = v_sems v" "v_dirs (v_remove t v) = v_dirs v"
  by (auto simp: v_move_def v_set_queue_def v_remove_def Let_def split: node.splits)

lemma queued_remove: "queued (v_remove t v) = queued v - {t}"
proof (rule set_eqI, rule iffI)
  fix u
  assume "u \<in> queued (v_remove t v)"
  then obtain n ts where "v_queue (v_remove t v) n = Some ts" "u \<in> set ts" by (rule queuedE)
  then show "u \<in> queued v - {t}" by (auto simp: v_queue_remove intro: queuedI)
next
  fix u
  assume "u \<in> queued v - {t}"
  then obtain n ts where "v_queue v n = Some ts" "u \<in> set ts" "u \<noteq> t" by (auto elim: queuedE)
  then show "u \<in> queued (v_remove t v)"
    by (intro queuedI [of "v_remove t v" n "removeAll t ts"]) (simp_all add: v_queue_remove)
qed

lemma queued_move:
  assumes d: "v_queue v d = Some ts"
  shows "queued (v_move t d f v) = insert t (queued v)"
proof (rule set_eqI, rule iffI)
  fix u
  assume "u \<in> queued (v_move t d f v)"
  then obtain n us where n: "v_queue (v_move t d f v) n = Some us" "u \<in> set us" by (rule queuedE)
  with d show "u \<in> insert t (queued v)"
    by (cases "n = d") (auto simp: v_queue_move [OF d] intro: queuedI split: if_splits)
next
  fix u
  assume "u \<in> insert t (queued v)"
  then consider "u = t" | "u \<noteq> t" "u \<in> queued v" by blast
  then show "u \<in> queued (v_move t d f v)"
  proof cases
    case 1
    then show ?thesis by (intro queuedI [OF v_queue_move [OF d, of t f d, simplified]]) auto
  next
    case 2
    then obtain n us where n: "v_queue v n = Some us" "u \<in> set us" by (auto elim: queuedE)
    show ?thesis
      by (rule queuedI [OF v_queue_move [OF d, of t f n, unfolded n(1) option.map if_distrib [of Some, symmetric]]])
        (use n d 2 in auto)
  qed
qed

text \<open>A task is in at most one queue, and once.\<close>

lemma queue_distinct:
  assumes "lists_ok (links s) (heads v)" "v_queue v n = Some ts"
  shows "distinct ts"
  using zlist.distinct_law [OF assms(1) heads_queue [OF assms(2)]]
  by (simp add: distinct_map inj_on_def)

lemma queue_unique:
  assumes "lists_ok (links s) (heads v)" "v_queue v n = Some ts" "v_queue v m = Some us"
    "t \<in> set ts" "t \<in> set us"
  shows "n = m"
  using zlist.disjoint_law [OF assms(1) heads_queue [OF assms(2)] heads_queue [OF assms(3)]]
    assms(4,5) by auto

lemma queues_okD:
  assumes "queues_ok s v out"
  shows "lists_ok (links s) (heads v)" "queued v \<inter> out = {}" "queued v \<union> out = {..<NR_TASKS}"
    "v_queue v n = Some ts \<Longrightarrow> t \<in> set ts \<Longrightarrow> state (tasks s t) = tag_of n"
  using assms unfolding queues_ok_def by blast+

section \<open>The scheduler's queue operations\<close>

lemma on_links_fields [simp]:
  "on_links f s = Some s' \<Longrightarrow> tasks s' = tasks s"
  by (auto simp: on_links_def)

lemma update_process_state_move:
  assumes ok: "queues_ok s v out" and d: "v_queue v d = Some ts"
    and t: "t < NR_TASKS"
  shows "\<exists>h. update_process_state t (Some d) f s =
             Some (upd_task t (\<lambda>k. k\<lparr>state := tag_of d\<rparr>) (s\<lparr>links := h\<rparr>)) \<and>
           queues_ok (upd_task t (\<lambda>k. k\<lparr>state := tag_of d\<rparr>) (s\<lparr>links := h\<rparr>))
             (v_move t d f v) (out - {t})"
proof -
  note L = queues_okD(1) [OF ok]
  obtain h1 h2 where
    h1: "(if anchor_linked (Task_anchor t) (links s) then list_del (Task_anchor t) (links s)
          else Some (links s)) = Some h1" and
    h2: "(if f then list_add (Task_anchor t) d h1 else list_add_tail (Task_anchor t) d h1) = Some h2"
    and ok2: "lists_ok h2 (heads (v_move t d f v))"
    using zlist.relink [OF L Task_anchor_not_head heads_queue [OF d], of t]
    by (cases f) (auto simp: heads_move [OF d] bind_eq_Some_conv)
  have run: "update_process_state t (Some d) f s =
      Some (upd_task t (\<lambda>k. k\<lparr>state := tag_of d\<rparr>) (s\<lparr>links := h2\<rparr>))"
    using h1 h2 by (auto simp: update_process_state_def on_links_def tag_of_def split: if_splits)
  have "queues_ok (upd_task t (\<lambda>k. k\<lparr>state := tag_of d\<rparr>) (s\<lparr>links := h2\<rparr>))
      (v_move t d f v) (out - {t})"
    unfolding queues_ok_def queued_move [OF d]
  proof (intro conjI allI impI)
    show "insert t (queued v) \<inter> (out - {t}) = {}"
      using queues_okD(2) [OF ok] by blast
    show "insert t (queued v) \<union> (out - {t}) = {..<NR_TASKS}"
      using queues_okD(3) [OF ok] t by auto
    fix n us u
    assume n: "v_queue (v_move t d f v) n = Some us" and u: "u \<in> set us"
    show "state (tasks (upd_task t (\<lambda>k. k\<lparr>state := tag_of d\<rparr>) (s\<lparr>links := h2\<rparr>)) u) = tag_of n"
      using n u d queues_okD(4) [OF ok]
      by (cases "u = t") (auto simp: v_queue_move [OF d] split: if_splits)
  qed (simp add: ok2)
  with run show ?thesis by blast
qed

lemma update_process_state_run:
  assumes ok: "queues_ok s v out" and t: "t < NR_TASKS"
  shows "\<exists>h. update_process_state t None f s =
             Some (upd_task t (\<lambda>k. k\<lparr>state := ST_RUN\<rparr>) (s\<lparr>links := h\<rparr>)) \<and>
           queues_ok (upd_task t (\<lambda>k. k\<lparr>state := ST_RUN\<rparr>) (s\<lparr>links := h\<rparr>))
             (v_remove t v) (insert t out)"
proof -
  note L = queues_okD(1) [OF ok]
  obtain h where
    h: "(if anchor_linked (Task_anchor t) (links s) then list_del (Task_anchor t) (links s)
          else Some (links s)) = Some h" and ok2: "lists_ok h (heads (v_remove t v))"
    using zlist.detach [OF L Task_anchor_not_head, of t] by (auto simp: heads_remove)
  have run: "update_process_state t None f s =
      Some (upd_task t (\<lambda>k. k\<lparr>state := ST_RUN\<rparr>) (s\<lparr>links := h\<rparr>))"
    using h by (auto simp: update_process_state_def on_links_def split: if_splits)
  have "queues_ok (upd_task t (\<lambda>k. k\<lparr>state := ST_RUN\<rparr>) (s\<lparr>links := h\<rparr>)) (v_remove t v) (insert t out)"
    unfolding queues_ok_def queued_remove
  proof (intro conjI allI impI)
    show "(queued v - {t}) \<inter> insert t out = {}" using queues_okD(2) [OF ok] by blast
    show "queued v - {t} \<union> insert t out = {..<NR_TASKS}" using queues_okD(3) [OF ok] t by auto
    fix n us u
    assume "v_queue (v_remove t v) n = Some us" "u \<in> set us"
    then show "state (tasks (upd_task t (\<lambda>k. k\<lparr>state := ST_RUN\<rparr>) (s\<lparr>links := h\<rparr>)) u) = tag_of n"
      using queues_okD(4) [OF ok] by (auto simp: v_queue_remove)
  qed (simp add: ok2)
  with run show ?thesis by blast
qed

text \<open>What taking a task out of every queue amounts to when its queue is known.\<close>

lemma qview_eqI:
  assumes "\<And>n. v_queue v n = v_queue w n" "v_sems v = v_sems w" "v_dirs v = v_dirs w"
  shows "(v :: qview) = w"
proof -
  have "v_blocked v i = v_blocked w i" for i
    using assms(1) [of "Sem_blocked i"] by (simp add: v_queue_def)
  then have "v_blocked v = v_blocked w" by blast
  then show ?thesis
    using assms(2,3) assms(1) [of Free_queue] assms(1) [of Ready_queue] assms(1) [of Keyboard_queue]
    by (simp add: v_queue_def)
qed

lemma v_set_queue_other [simp]:
  "v_sems (v_set_queue d ts v) = v_sems v" "v_dirs (v_set_queue d ts v) = v_dirs v"
  by (simp_all add: v_set_queue_def split: node.splits)

lemma v_remove_fresh: "t \<notin> queued v \<Longrightarrow> v_remove t v = v"
proof (rule qview_eqI)
  fix n
  assume t: "t \<notin> queued v"
  show "v_queue (v_remove t v) n = v_queue v n"
  proof (cases "v_queue v n")
    case (Some ts)
    then have "t \<notin> set ts" using t by (blast intro: queuedI)
    with Some show ?thesis by (simp add: v_queue_remove)
  qed (simp add: v_queue_remove)
qed simp_all

lemma v_remove_exact:
  assumes L: "lists_ok (links s) (heads v)" and d: "v_queue v d = Some (us @ t # ws)"
  shows "v_remove t v = v_set_queue d (us @ ws) v"
proof (rule qview_eqI)
  fix n
  have dt: "distinct (us @ t # ws)" by (rule queue_distinct [OF L d])
  have "t \<notin> set ts" if "v_queue v n = Some ts" "n \<noteq> d" for ts
    using queue_unique [OF L that(1) d, of t] that(2) by auto
  then show "v_queue (v_remove t v) n = v_queue (v_set_queue d (us @ ws) v) n"
    using d dt by (cases "v_queue v n") (auto simp: v_queue_remove v_queue_set_queue)
qed simp_all

lemma v_queue_set_queue_Some:
  "v_queue v d = Some ts \<Longrightarrow> v_queue (v_set_queue d us v) n = (if n = d then Some us else v_queue v n)"
  by (simp add: v_queue_set_queue)

lemma v_move_exact:
  assumes L: "lists_ok (links s) (heads v)" and d: "v_queue v d = Some (us @ t # ws)"
    and e: "v_queue v e = Some ts" and de: "e \<noteq> d"
  shows "v_move t e f v = v_set_queue e (if f then t # ts else ts @ [t]) (v_set_queue d (us @ ws) v)"
proof -
  have "t \<notin> set ts" using queue_unique [OF L d e, of t] de by auto
  then show ?thesis using e by (simp add: v_move_def v_remove_exact [OF L d] Let_def)
qed

lemma v_move_fresh:
  assumes "t \<notin> queued v" "v_queue v e = Some ts"
  shows "v_move t e f v = v_set_queue e (if f then t # ts else ts @ [t]) v"
proof -
  have "t \<notin> set ts" using assms by (blast intro: queuedI)
  then show ?thesis using assms by (simp add: v_move_def v_remove_fresh Let_def)
qed

section \<open>What the scheduler leaves alone\<close>

text \<open>
  Scheduling changes list heads, the \<open>state\<close>, the statistics and the saved stack pointer of
  tasks, and the registers of the context switch; \<open>sched_frame\<close> says what it keeps.
\<close>

definition task_kept :: "task_struct \<Rightarrow> task_struct \<Rightarrow> bool" where
  "task_kept a b \<longleftrightarrow>
     PID b = PID a \<and> quantum b = quantum a \<and> sem_deleted b = sem_deleted a \<and>
     dir_pages_baseAddr b = dir_pages_baseAddr a \<and> heap_top b = heap_top a"

definition sched_frame :: "kstate \<Rightarrow> kstate \<Rightarrow> bool" where
  "sched_frame s s' \<longleftrightarrow>
     (\<forall>t. task_kept (tasks s t) (tasks s' t)) \<and>
     semaphores s' = semaphores s \<and> idle_task s' = idle_task s \<and> last_PID s' = last_PID s \<and>
     dir_status s' = dir_status s \<and> dir_pages s' = dir_pages s \<and>
     pagusr_table s' = pagusr_table s \<and> pagusr_table_addr s' = pagusr_table_addr s \<and>
     tasks_addr s' = tasks_addr s \<and>
     phys_mem s' = phys_mem s \<and> cow_count_mem s' = cow_count_mem s \<and> pmem s' = pmem s \<and>
     keyboard_buffer s' = keyboard_buffer s \<and> buff_from s' = buff_from s \<and>
     buff_to s' = buff_to s \<and> remaining_to_read s' = remaining_to_read s"

lemma sched_frame_refl [simp]: "sched_frame s s"
  by (simp add: sched_frame_def task_kept_def)

lemma sched_frame_trans [trans]: "sched_frame s s1 \<Longrightarrow> sched_frame s1 s2 \<Longrightarrow> sched_frame s s2"
  by (simp add: sched_frame_def task_kept_def)

lemma sched_frame_state [simp]:
  "sched_frame s (upd_task t (\<lambda>k. k\<lparr>state := x\<rparr>) (s\<lparr>links := h\<rparr>))"
  "sched_frame s (upd_task t (\<lambda>k. k\<lparr>state := x\<rparr>) s)"
  "sched_frame s (s\<lparr>current_ticks := c\<rparr>)"
  by (simp_all add: sched_frame_def task_kept_def upd_task_def)

lemma sched_frame_stats: "only_stats t s s' \<Longrightarrow> sched_frame s s'"
  by (auto simp: only_stats_def sched_frame_def task_kept_def)

lemma sched_frame_switch: "sched_frame s (task_switch k t s)"
  by (simp add: task_switch_def inner_task_switch_def Let_def get_ebp_def change_context_def
      update_TSS_def set_cr3_def upd_task_def sched_frame_def task_kept_def)

lemma queues_ok_cong:
  assumes "queues_ok s v out" "links s' = links s" "\<And>t. state (tasks s' t) = state (tasks s t)"
  shows "queues_ok s' v out"
  using assms by (simp add: queues_ok_def)

lemma queues_ok_stats: "only_stats t s s' \<Longrightarrow> queues_ok s v out \<Longrightarrow> queues_ok s' v out"
  by (erule queues_ok_cong) (simp_all add: only_stats_fields)

lemma task_switch_fields [simp]:
  "links (task_switch k t s) = links s"
  "state (tasks (task_switch k t s) u) = state (tasks s u)"
  "st (tasks (task_switch k t s) u) = st (tasks s u)"
  "current (task_switch k t s) = t"
  "kpc (task_switch k t s) = (kpc s)(current s := k)"
  "current_ticks (task_switch k t s) = current_ticks s"
  by (simp_all add: task_switch_def inner_task_switch_def Let_def get_ebp_def change_context_def
      update_TSS_def set_cr3_def upd_task_def)

lemma task_switch_cr3:
  "cr3 s = dir_pages_baseAddr (tasks s (current s)) \<or>
     dir_pages_baseAddr (tasks s (current s)) \<noteq> dir_pages_baseAddr (tasks s t) \<Longrightarrow>
   cr3 (task_switch k t s) = dir_pages_baseAddr (tasks s t)"
  by (auto simp: task_switch_def inner_task_switch_def Let_def get_ebp_def change_context_def
      update_TSS_def set_cr3_def upd_task_def get_DIR_def)

text \<open>Making a task ready.\<close>

definition ctrl_frame :: "kstate \<Rightarrow> kstate \<Rightarrow> bool" where
  "ctrl_frame s s' \<longleftrightarrow>
     current s' = current s \<and> kpc s' = kpc s \<and> cr3 s' = cr3 s \<and> current_ticks s' = current_ticks s"

lemma ctrl_frame_refl [simp]: "ctrl_frame s s"
  by (simp add: ctrl_frame_def)

lemma ctrl_frame_trans [trans]: "ctrl_frame s s1 \<Longrightarrow> ctrl_frame s1 s2 \<Longrightarrow> ctrl_frame s s2"
  by (simp add: ctrl_frame_def)

lemma add_process_to_scheduling_ok:
  assumes ok: "queues_ok s v out" and t: "t < NR_TASKS" and e: "e \<noteq> REFRESH"
  shows "\<exists>s'. add_process_to_scheduling t e f s = Some s' \<and>
           queues_ok s' (v_move t Ready_queue f v) (out - {t}) \<and>
           sched_frame s s' \<and> ctrl_frame s s' \<and> state (tasks s' t) = ST_READY \<and>
           (\<forall>u. u \<noteq> t \<longrightarrow> tasks s' u = tasks s u)"
proof -
  have d: "v_queue v Ready_queue = Some (v_ready v)" by (simp add: v_queue_def)
  obtain h where h: "update_process_state t (Some Ready_queue) f s =
        Some (upd_task t (\<lambda>k. k\<lparr>state := tag_of Ready_queue\<rparr>) (s\<lparr>links := h\<rparr>))"
      "queues_ok (upd_task t (\<lambda>k. k\<lparr>state := tag_of Ready_queue\<rparr>) (s\<lparr>links := h\<rparr>))
        (v_move t Ready_queue f v) (out - {t})"
    using update_process_state_move [OF ok d t, of f] by blast
  define s1 where "s1 = upd_task t (\<lambda>k. k\<lparr>state := tag_of Ready_queue\<rparr>) (s\<lparr>links := h\<rparr>)"
  obtain s2 where s2: "update_stats t e s1 = Some s2"
    using update_stats_returns e by blast
  note o2 = update_stats_only [OF s2]
  have run: "add_process_to_scheduling t e f s = Some s2"
    using h(1) s2 by (simp add: add_process_to_scheduling_def flip: s1_def)
  have "queues_ok s2 (v_move t Ready_queue f v) (out - {t})"
    using queues_ok_stats [OF o2] h(2) by (simp add: s1_def)
  moreover have "sched_frame s s2"
    using sched_frame_trans [OF _ sched_frame_stats [OF o2]] by (simp add: s1_def)
  moreover have "ctrl_frame s s2" "state (tasks s2 t) = ST_READY"
    "\<forall>u. u \<noteq> t \<longrightarrow> tasks s2 u = tasks s u"
    using only_stats_fields [OF o2] by (simp_all add: ctrl_frame_def s1_def tag_of_def upd_task_def)
  ultimately show ?thesis using run by blast
qed

section \<open>Choosing the next task\<close>

definition v_next :: "kstate \<Rightarrow> qview \<Rightarrow> nat" where
  "v_next s v = (case v_ready v of [] \<Rightarrow> the (idle_task s) | t # _ \<Rightarrow> t)"

lemma v_next_less:
  assumes "queues_ok s v out" "idle_task s = Some i" "i < NR_TASKS"
  shows "v_next s v < NR_TASKS"
proof (cases "v_ready v")
  case (Cons t ts)
  then have "t \<in> queued v" by (intro queuedI [of v Ready_queue "t # ts"]) (simp_all add: v_queue_def)
  with Cons queues_okD(3) [OF assms(1)] show ?thesis by (auto simp: v_next_def)
qed (use assms in \<open>simp add: v_next_def\<close>)

lemma ready_head:
  assumes "lists_ok (links s) (heads v)"
  shows "list_empty Ready_queue (links s) \<longleftrightarrow> v_ready v = []"
    and "v_ready v = t # ts \<Longrightarrow> list_first Ready_queue (links s) = Some (Task_anchor t)"
  using zlist.empty_law [OF assms, of Ready_queue] zlist.first_law [OF assms, of Ready_queue]
  by (simp_all add: heads_def)

text \<open>The idle task is in no queue, so the queue the next task leaves is the ready queue.\<close>

lemma v_remove_next:
  assumes ok: "queues_ok s v out" and idle: "idle_task s = Some i" "i \<in> out"
  shows "v_remove (v_next s v) v = v\<lparr>v_ready := tl (v_ready v)\<rparr>"
proof (cases "v_ready v")
  case Nil
  then have "v_next s v \<notin> queued v" using idle queues_okD(2) [OF ok] by (auto simp: v_next_def)
  with Nil show ?thesis by (simp add: v_remove_fresh)
next
  case (Cons t ts)
  then have "v_queue v Ready_queue = Some ([] @ t # ts)" by (simp add: v_queue_def)
  from v_remove_exact [OF queues_okD(1) [OF ok] this] Cons show ?thesis
    by (simp add: v_next_def v_set_queue_def)
qed

lemma sched_next_rr_ok:
  assumes ok: "queues_ok s v out" and idle: "idle_task s = Some i" "i < NR_TASKS" "i \<in> out"
    and n: "n = v_next s v"
  shows "\<exists>s'. sched_next_rr k s = Some s' \<and>
           queues_ok s' (v\<lparr>v_ready := tl (v_ready v)\<rparr>) (insert n out) \<and>
           sched_frame s s' \<and> current s' = n \<and> kpc s' = (kpc s)(current s := k) \<and>
           state (tasks s' n) = ST_RUN \<and> current_ticks s' = 0 \<and>
           (\<forall>t. t \<noteq> n \<longrightarrow> state (tasks s' t) = state (tasks s t)) \<and>
           ((cr3 s = dir_pages_baseAddr (tasks s (current s)) \<or>
             dir_pages_baseAddr (tasks s (current s)) \<noteq> dir_pages_baseAddr (tasks s n)) \<longrightarrow>
            cr3 s' = dir_pages_baseAddr (tasks s n))"
proof -
  note L = queues_okD(1) [OF ok]
  have n10: "n < NR_TASKS" using v_next_less [OF ok idle(1,2)] n by simp
  have pick: "(if \<not> list_empty Ready_queue (links s)
      then do { x \<leftarrow> list_first Ready_queue (links s); list_head_to_task_struct x }
      else idle_task s) = Some n"
    using ready_head [OF L] idle n
    by (cases "v_ready v") (auto simp: v_next_def list_head_to_task_struct_def)
  obtain h where s1: "update_process_state n None False s =
        Some (upd_task n (\<lambda>x. x\<lparr>state := ST_RUN\<rparr>) (s\<lparr>links := h\<rparr>))"
    and ok1: "queues_ok (upd_task n (\<lambda>x. x\<lparr>state := ST_RUN\<rparr>) (s\<lparr>links := h\<rparr>))
        (v\<lparr>v_ready := tl (v_ready v)\<rparr>) (insert n out)"
    using update_process_state_run [OF ok n10, of False] v_remove_next [OF ok idle(1,3)] n by auto
  define s1 where "s1 = upd_task n (\<lambda>x. x\<lparr>state := ST_RUN\<rparr>) (s\<lparr>links := h\<rparr>)"
  obtain s2 where s2: "update_stats n READY_TO_SYS s1 = Some s2"
    using update_stats_returns by blast
  define s3 where "s3 = s2\<lparr>current_ticks := 0\<rparr>"
  obtain s4 where s4: "update_stats n CURRENT_TICKS_UPDATED s3 = Some s4"
    using update_stats_returns by blast
  note o2 = update_stats_only [OF s2] and o4 = update_stats_only [OF s4]
  have run: "sched_next_rr k s = Some (task_switch k n s4)"
    using pick s1 s2 s4
    by (simp add: sched_next_rr_def update_process_state_rr_def flip: s1_def s3_def)
  have "queues_ok s2 (v\<lparr>v_ready := tl (v_ready v)\<rparr>) (insert n out)"
    using queues_ok_stats [OF o2] ok1 by (simp add: s1_def)
  then have "queues_ok s3 (v\<lparr>v_ready := tl (v_ready v)\<rparr>) (insert n out)"
    by (rule queues_ok_cong) (simp_all add: s3_def)
  then have "queues_ok s4 (v\<lparr>v_ready := tl (v_ready v)\<rparr>) (insert n out)" by (rule queues_ok_stats [OF o4])
  then have ok': "queues_ok (task_switch k n s4) (v\<lparr>v_ready := tl (v_ready v)\<rparr>) (insert n out)"
    by (rule queues_ok_cong) simp_all
  have "sched_frame s s1" by (simp add: s1_def)
  also note sched_frame_stats [OF o2]
  also have "sched_frame s2 s3" by (simp add: s3_def)
  also note sched_frame_stats [OF o4]
  also note sched_frame_switch [of s4 k n]
  finally have fr: "sched_frame s (task_switch k n s4)" .
  have same: "current s4 = current s" "kpc s4 = kpc s" "cr3 s4 = cr3 s" "current_ticks s4 = 0"
    "dir_pages_baseAddr (tasks s4 t) = dir_pages_baseAddr (tasks s t)"
    "state (tasks s4 t) = (if t = n then ST_RUN else state (tasks s t))" for t
    using only_stats_fields [OF o2] only_stats_fields [OF o4]
    by (simp_all add: s3_def s1_def upd_task_def)
  have "cr3 (task_switch k n s4) = dir_pages_baseAddr (tasks s n)"
    if "cr3 s = dir_pages_baseAddr (tasks s (current s)) \<or>
        dir_pages_baseAddr (tasks s (current s)) \<noteq> dir_pages_baseAddr (tasks s n)"
    using task_switch_cr3 [of s4 n k] that by (simp add: same)
  then show ?thesis using run ok' fr same by auto
qed

end
