(* ===== verification/Kernel_Inv.thy ===== *)
theory Kernel_Inv
  imports Queue_View
begin

text \<open>
  The invariant of the kernel between two steps. \<open>sems_ok\<close> ties the semaphore table to the
  lists of semaphores and of blocked tasks, \<open>dirs_ok\<close> the reference counts of the page
  directories to the tasks that use them and to the list of free directories, and \<open>kinv\<close>
  puts both together with the queues: every task is in exactly one queue, except the idle
  task and the current one.
\<close>

section \<open>Semaphores\<close>

definition sems_core :: "kstate \<Rightarrow> qview \<Rightarrow> bool" where
  "sems_core s v \<longleftrightarrow>
     (\<forall>n. v_blocked v n \<noteq> None \<longrightarrow> n < NR_SEMAPHORES) \<and>
     (\<forall>n<NR_SEMAPHORES. used (semaphores s n) = 0 \<longrightarrow> v_blocked v n \<in> {None, Some []}) \<and>
     (\<forall>n<NR_SEMAPHORES. used (semaphores s n) \<noteq> 0 \<longrightarrow>
        v_blocked v n \<noteq> None \<and>
        (v_blocked v n \<noteq> Some [] \<longrightarrow> count (semaphores s n) = 0) \<and>
        (\<exists>t ns. owner (semaphores s n) = Some t \<and> v_sems v t = Some ns \<and> n \<in> set ns)) \<and>
     (\<forall>t ns n. v_sems v t = Some ns \<longrightarrow> n \<in> set ns \<longrightarrow>
        n < NR_SEMAPHORES \<and> used (semaphores s n) \<noteq> 0 \<and> owner (semaphores s n) = Some t) \<and>
     (\<forall>t. v_sems v t \<noteq> None \<longrightarrow> t < NR_TASKS)"

text \<open>Every task in use has a list of semaphores; a free task owns none.\<close>

definition sems_live :: "qview \<Rightarrow> bool" where
  "sems_live v \<longleftrightarrow>
     (\<forall>t<NR_TASKS. t \<notin> set (v_free v) \<longrightarrow> v_sems v t \<noteq> None) \<and>
     (\<forall>t\<in>set (v_free v). v_sems v t \<in> {None, Some []})"

definition sems_ok :: "kstate \<Rightarrow> qview \<Rightarrow> bool" where
  "sems_ok s v \<longleftrightarrow> sems_core s v \<and> sems_live v"

lemma sems_coreD:
  assumes "sems_core s v"
  shows "v_blocked v n \<noteq> None \<Longrightarrow> n < NR_SEMAPHORES"
    and "n < NR_SEMAPHORES \<Longrightarrow> used (semaphores s n) = 0 \<Longrightarrow> v_blocked v n \<in> {None, Some []}"
    and "n < NR_SEMAPHORES \<Longrightarrow> used (semaphores s n) \<noteq> 0 \<Longrightarrow> v_blocked v n \<noteq> None"
    and "n < NR_SEMAPHORES \<Longrightarrow> used (semaphores s n) \<noteq> 0 \<Longrightarrow> v_blocked v n \<noteq> Some [] \<Longrightarrow>
      count (semaphores s n) = 0"
    and "n < NR_SEMAPHORES \<Longrightarrow> used (semaphores s n) \<noteq> 0 \<Longrightarrow>
      \<exists>t ns. owner (semaphores s n) = Some t \<and> v_sems v t = Some ns \<and> n \<in> set ns"
    and "v_sems v t = Some ns \<Longrightarrow> n \<in> set ns \<Longrightarrow>
      n < NR_SEMAPHORES \<and> used (semaphores s n) \<noteq> 0 \<and> owner (semaphores s n) = Some t"
    and "v_sems v t \<noteq> None \<Longrightarrow> t < NR_TASKS"
  using assms unfolding sems_core_def by blast+

lemma sems_liveD:
  assumes "sems_live v"
  shows "t < NR_TASKS \<Longrightarrow> t \<notin> set (v_free v) \<Longrightarrow> v_sems v t \<noteq> None"
    and "t \<in> set (v_free v) \<Longrightarrow> v_sems v t \<in> {None, Some []}"
  using assms unfolding sems_live_def by blast+

lemma sems_core_cong:
  assumes "sems_core s v" "semaphores s' = semaphores s" "v_sems w = v_sems v"
    "v_blocked w = v_blocked v"
  shows "sems_core s' w"
  using assms by (simp add: sems_core_def)

lemma sems_ok_cong:
  assumes "sems_ok s v" "semaphores s' = semaphores s" "v_sems w = v_sems v"
    "v_blocked w = v_blocked v" "v_free w = v_free v"
  shows "sems_ok s' w"
  using assms by (simp add: sems_ok_def sems_core_def sems_live_def)

section \<open>Page directories\<close>

definition dir_users :: "kstate \<Rightarrow> nat \<Rightarrow> nat set" where
  "dir_users s d = {t. t < NR_TASKS \<and> dir_pages_baseAddr (tasks s t) = Some (d * TOTAL_PAGES)}"

definition dirs_ok :: "kstate \<Rightarrow> qview \<Rightarrow> bool" where
  "dirs_ok s v \<longleftrightarrow>
     (\<forall>d<NR_TASKS. PT_row s (dir_pages s (d * TOTAL_PAGES)) = d \<and>
        dir_pos (dir_status s d) = int d \<and>
        dir_count (dir_status s d) = int (card (dir_users s d))) \<and>
     distinct (v_dirs v) \<and> set (v_dirs v) = {d. d < NR_TASKS \<and> dir_users s d = {}} \<and>
     (\<forall>t<NR_TASKS. t \<in> set (v_free v) \<longleftrightarrow> dir_pages_baseAddr (tasks s t) = None) \<and>
     (\<forall>t<NR_TASKS. \<forall>x. dir_pages_baseAddr (tasks s t) = Some x \<longrightarrow>
        (\<exists>d<NR_TASKS. x = d * TOTAL_PAGES))"

lemma dirs_okD:
  assumes "dirs_ok s v"
  shows "d < NR_TASKS \<Longrightarrow> PT_row s (dir_pages s (d * TOTAL_PAGES)) = d"
    and "d < NR_TASKS \<Longrightarrow> dir_pos (dir_status s d) = int d"
    and "d < NR_TASKS \<Longrightarrow> dir_count (dir_status s d) = int (card (dir_users s d))"
    and "distinct (v_dirs v)"
    and "set (v_dirs v) = {d. d < NR_TASKS \<and> dir_users s d = {}}"
    and "t < NR_TASKS \<Longrightarrow> t \<in> set (v_free v) \<longleftrightarrow> dir_pages_baseAddr (tasks s t) = None"
    and "t < NR_TASKS \<Longrightarrow> dir_pages_baseAddr (tasks s t) = Some x \<Longrightarrow> \<exists>d<NR_TASKS. x = d * TOTAL_PAGES"
  using assms unfolding dirs_ok_def by blast+

lemma dirs_ok_cong:
  assumes "dirs_ok s v" "\<And>t. dir_pages_baseAddr (tasks s' t) = dir_pages_baseAddr (tasks s t)"
    "dir_status s' = dir_status s" "dir_pages s' = dir_pages s"
    "pagusr_table_addr s' = pagusr_table_addr s" "v_dirs w = v_dirs v" "set (v_free w) = set (v_free v)"
  shows "dirs_ok s' w"
proof -
  have "dir_users s' = dir_users s" "PT_row s' = PT_row s"
    using assms by (auto simp: dir_users_def fun_eq_iff PT_row_def)
  with assms show ?thesis by (simp add: dirs_ok_def)
qed

section \<open>The invariant\<close>

definition kinv :: "kstate \<Rightarrow> qview \<Rightarrow> bool" where
  "kinv s v \<longleftrightarrow>
     (\<exists>i. idle_task s = Some i \<and> queues_ok s v {i, current s}) \<and>
     sems_ok s v \<and> dirs_ok s v \<and>
     cr3 s = dir_pages_baseAddr (tasks s (current s))"

lemma kinvE:
  assumes "kinv s v"
  obtains i where "idle_task s = Some i" "i < NR_TASKS" "current s < NR_TASKS"
    "queues_ok s v {i, current s}" "sems_ok s v" "dirs_ok s v"
    "cr3 s = dir_pages_baseAddr (tasks s (current s))"
proof -
  from assms obtain i where i: "idle_task s = Some i" "queues_ok s v {i, current s}"
    by (auto simp: kinv_def)
  have "{i, current s} \<subseteq> {..<NR_TASKS}" using queues_okD(3) [OF i(2)] by blast
  then show ?thesis using that i assms by (auto simp: kinv_def)
qed

lemma kinvI:
  assumes "idle_task s = Some i" "queues_ok s v {i, current s}" "sems_ok s v" "dirs_ok s v"
    "cr3 s = dir_pages_baseAddr (tasks s (current s))"
  shows "kinv s v"
  using assms by (auto simp: kinv_def)

text \<open>The current task is in no queue; in particular its directory is not NULL.\<close>

lemma kinv_current:
  assumes "kinv s v"
  shows "current s \<notin> queued v" "current s \<notin> set (v_free v)" "current s < NR_TASKS"
proof -
  obtain i where i: "queues_ok s v {i, current s}" "current s < NR_TASKS"
    using assms by (rule kinvE)
  show "current s \<notin> queued v" using queues_okD(2) [OF i(1)] by blast
  moreover have "v_queue v Free_queue = Some (v_free v)" by (simp add: v_queue_def)
  ultimately show "current s \<notin> set (v_free v)" by (blast intro: queuedI)
  show "current s < NR_TASKS" by fact
qed

lemma kinv_cong:
  assumes "kinv s v" "links s' = links s" "tasks s' = tasks s" "semaphores s' = semaphores s"
    "idle_task s' = idle_task s" "current s' = current s" "cr3 s' = cr3 s"
    "dir_status s' = dir_status s" "dir_pages s' = dir_pages s" "pagusr_table_addr s' = pagusr_table_addr s"
  shows "kinv s' v"
  using assms
  by (simp add: kinv_def queues_ok_def sems_ok_def sems_core_def dirs_ok_def dir_users_def PT_row_def)

lemma kinv_stats:
  assumes "kinv s v" "only_stats t s s'"
  shows "kinv s' v"
proof -
  note f = only_stats_fields [OF assms(2)]
  obtain i where i: "idle_task s = Some i" "queues_ok s v {i, current s}" "sems_ok s v" "dirs_ok s v"
    "cr3 s = dir_pages_baseAddr (tasks s (current s))"
    using assms(1) by (rule kinvE)
  show ?thesis
  proof (rule kinvI)
    show "queues_ok s' v {i, current s'}" using queues_ok_stats [OF assms(2) i(2)] by (simp add: f)
    show "sems_ok s' v" by (rule sems_ok_cong [OF i(3)]) (simp_all add: f)
    show "dirs_ok s' v" by (rule dirs_ok_cong [OF i(4)]) (simp_all add: f)
  qed (use i f in simp_all)
qed

text \<open>Switching away from a task that has been put into a queue.\<close>

lemma kinv_sched_next:
  assumes ok: "queues_ok s v {i}" "idle_task s = Some i" "sems_ok s v" "dirs_ok s v"
    and c: "cr3 s = dir_pages_baseAddr (tasks s (current s)) \<or>
            dir_pages_baseAddr (tasks s (current s)) = None"
  shows "\<exists>s'. sched_next_rr k s = Some s' \<and> kinv s' (v\<lparr>v_ready := tl (v_ready v)\<rparr>) \<and>
           sched_frame s s' \<and> current s' = v_next s v \<and> kpc s' = (kpc s)(current s := k) \<and>
           state (tasks s' (v_next s v)) = ST_RUN \<and>
           (\<forall>t. t \<noteq> v_next s v \<longrightarrow> state (tasks s' t) = state (tasks s t))"
proof -
  have i: "i < NR_TASKS" using queues_okD(3) [OF ok(1)] by blast
  define n where "n = v_next s v"
  have n10: "n < NR_TASKS" unfolding n_def by (rule v_next_less [OF ok(1,2) i])
  have "n \<notin> set (v_free v)"
  proof
    assume n: "n \<in> set (v_free v)"
    have F: "v_queue v Free_queue = Some (v_free v)" by (simp add: v_queue_def)
    then have nq: "n \<in> queued v" using n by (rule queuedI)
    then have "n \<noteq> i" using queues_okD(2) [OF ok(1)] by blast
    then obtain ts where "v_ready v = n # ts"
      using ok(2) by (cases "v_ready v") (auto simp: n_def v_next_def)
    then have "v_queue v Ready_queue = Some (n # ts)" by (simp add: v_queue_def)
    from queue_unique [OF queues_okD(1) [OF ok(1)] F this n] show False by simp
  qed
  then obtain x where dn: "dir_pages_baseAddr (tasks s n) = Some x"
    using dirs_okD(6) [OF ok(4) n10] by auto
  obtain s' where s': "sched_next_rr k s = Some s'"
      "queues_ok s' (v\<lparr>v_ready := tl (v_ready v)\<rparr>) {n, i}" "sched_frame s s'" "current s' = n"
      "kpc s' = (kpc s)(current s := k)" "state (tasks s' n) = ST_RUN"
      "\<forall>t. t \<noteq> n \<longrightarrow> state (tasks s' t) = state (tasks s t)"
      "(cr3 s = dir_pages_baseAddr (tasks s (current s)) \<or>
        dir_pages_baseAddr (tasks s (current s)) \<noteq> dir_pages_baseAddr (tasks s n)) \<longrightarrow>
       cr3 s' = dir_pages_baseAddr (tasks s n)"
    using sched_next_rr_ok [OF ok(1,2) i _ n_def, of k] by blast
  have c': "cr3 s' = dir_pages_baseAddr (tasks s n)"
    using s'(8) c dn by fastforce
  note fr = s'(3) [unfolded sched_frame_def task_kept_def]
  have "kinv s' (v\<lparr>v_ready := tl (v_ready v)\<rparr>)"
  proof (rule kinvI)
    show "queues_ok s' (v\<lparr>v_ready := tl (v_ready v)\<rparr>) {i, current s'}"
      using s'(2,4) by (simp add: insert_commute)
    show "sems_ok s' (v\<lparr>v_ready := tl (v_ready v)\<rparr>)"
      by (rule sems_ok_cong [OF ok(3)]) (use fr in simp_all)
    show "dirs_ok s' (v\<lparr>v_ready := tl (v_ready v)\<rparr>)"
      by (rule dirs_ok_cong [OF ok(4)]) (use fr in simp_all)
  qed (use fr ok(2) s'(4) c' in simp_all)
  with s' show ?thesis unfolding n_def by blast
qed

end
