(* ===== verification/Semaphore.thy ===== *)
theory Semaphore
  imports Kernel_Inv
begin

text \<open>
  The semaphores of \<^verbatim>\<open>sys.c\<close>. \<open>sys_sem_wait\<close> may switch to another task; what is left of it
  when the task runs again is \<open>sem_wait_exit\<close>. The lemmas show that every call keeps the
  kernel invariant, meets no NULL pointer, and does on the queues what a counting semaphore
  with a first-in first-out queue of waiting tasks does.
\<close>

section \<open>The system calls\<close>

text \<open>The range check all four calls start with.\<close>

definition sem_index :: "dword \<Rightarrow> nat option" where
  "sem_index n_sem = (if n_sem <s 0 \<or> of_nat NR_SEMAPHORES <=s n_sem then None else Some (unat n_sem))"

definition sys_sem_init :: "dword \<Rightarrow> dword \<Rightarrow> kstate \<Rightarrow> (dword \<times> kstate) option" where
  "sys_sem_init n_sem val s =
     (case sem_index n_sem of
        None \<Rightarrow> Some (- EINVAL, s)
      | Some n \<Rightarrow>
          if val < 0 then Some (- EINVAL, s)
          else if used (semaphores s n) \<noteq> 0 then Some (- EBUSY, s)
          else do {
            s \<leftarrow> Some (upd_sem n (\<lambda>x. x\<lparr>used := 1, count := val, owner := Some (current s)\<rparr>) s);
            s \<leftarrow> on_links (INIT_LIST_HEAD (Sem_blocked n)) s;
            s \<leftarrow> on_links (list_add (Sem_anchor n) (Task_semaphores (current s))) s;
            Some (0, s) })"

definition sys_sem_wait :: "dword \<Rightarrow> kstate \<Rightarrow> (sysret \<times> kstate) option" where
  "sys_sem_wait n_sem s =
     (case sem_index n_sem of
        None \<Rightarrow> Some (Ret (- EINVAL), s)
      | Some n \<Rightarrow>
          if used (semaphores s n) = 0 then Some (Ret (- EINVAL), s)
          else if count (semaphores s n) = 0
          then do {
            s \<leftarrow> update_process_state_rr (current s) (Some (Sem_blocked n)) s;
            s \<leftarrow> update_stats (current s) SYS_TO_BLOCKED s;
            s \<leftarrow> sched_next_rr Sem_wait_exit s;
            Some (Switched, s) }
          else Some (Ret 0, upd_sem n (\<lambda>x. x\<lparr>count := count x - 1\<rparr>) s))"

text \<open>After the switch back: was the semaphore destroyed while the task was blocked?\<close>

definition sem_wait_exit :: "kstate \<Rightarrow> dword \<times> kstate" where
  "sem_wait_exit s =
     (if sem_deleted (tasks s (current s)) \<noteq> 0
      then (- 1, upd_task (current s) (\<lambda>k. k\<lparr>sem_deleted := 0\<rparr>) s)
      else (0, s))"

definition sys_sem_signal :: "dword \<Rightarrow> kstate \<Rightarrow> (dword \<times> kstate) option" where
  "sys_sem_signal n_sem s =
     (case sem_index n_sem of
        None \<Rightarrow> Some (- EINVAL, s)
      | Some n \<Rightarrow>
          if used (semaphores s n) = 0 then Some (- EINVAL, s)
          else if list_empty (Sem_blocked n) (links s)
          then Some (0, upd_sem n (\<lambda>x. x\<lparr>count := count x + 1\<rparr>) s)
          else do {
            l \<leftarrow> list_first (Sem_blocked n) (links s);
            task \<leftarrow> list_head_to_task_struct l;
            s \<leftarrow> add_process_to_scheduling task BLOCKED_TO_READY False s;
            Some (0, s) })"

definition wake_deleted :: "node \<Rightarrow> kstate \<Rightarrow> kstate option" where
  "wake_deleted task_anchor s =
     do { task \<leftarrow> list_head_to_task_struct task_anchor;
          s \<leftarrow> add_process_to_scheduling task BLOCKED_TO_READY False s;
          Some (upd_task task (\<lambda>k. k\<lparr>sem_deleted := 1\<rparr>) s) }"

definition sys_sem_destroy :: "dword \<Rightarrow> kstate \<Rightarrow> (dword \<times> kstate) option" where
  "sys_sem_destroy n_sem s =
     (case sem_index n_sem of
        None \<Rightarrow> Some (- EINVAL, s)
      | Some n \<Rightarrow>
          if used (semaphores s n) = 0 then Some (- EINVAL, s)
          else do {
            own \<leftarrow> owner (semaphores s n);
            if PID (tasks s (current s)) \<noteq> PID (tasks s own) then Some (- 1, s)
            else do {
              s \<leftarrow> Some (upd_sem n (\<lambda>x. x\<lparr>used := 0\<rparr>) s);
              s \<leftarrow> on_links (list_del (Sem_anchor n)) s;
              s \<leftarrow> list_for_each_safe NR_TASKS (Sem_blocked n) links wake_deleted s;
              Some (0, s) } })"

text \<open>\<^verbatim>\<open>list_entry(sem_anchor, struct semaphore, anchor)\<close>\<close>

definition list_head_to_semaphore :: "node \<Rightarrow> nat option" where
  "list_head_to_semaphore l = (case l of Sem_anchor n \<Rightarrow> Some n | _ \<Rightarrow> None)"

definition destroy_anchored :: "node \<Rightarrow> kstate \<Rightarrow> kstate option" where
  "destroy_anchored sem_anchor s =
     do { n \<leftarrow> list_head_to_semaphore sem_anchor;
          (r, s) \<leftarrow> sys_sem_destroy (of_nat n) s;
          Some s }"

definition free_semaphores :: "nat \<Rightarrow> kstate \<Rightarrow> kstate option" where
  "free_semaphores task s =
     do { s \<leftarrow> list_for_each_safe NR_SEMAPHORES (Task_semaphores task) links destroy_anchored s;
          on_links (INIT_LIST_HEAD (Task_semaphores task)) s }"

section \<open>Indices\<close>

lemma sem_index_None: "sem_index n = None \<longleftrightarrow> sint n < 0 \<or> 20 \<le> sint n"
  by (auto simp: sem_index_def word_sless_alt word_sle_eq)

lemma sem_index_Some: "sem_index w = Some n \<longleftrightarrow> w = of_nat n \<and> n < NR_SEMAPHORES"
proof
  assume w: "sem_index w = Some n"
  then have s: "0 \<le> sint w" "sint w < 20" and n: "n = unat w"
    by (auto simp: sem_index_def word_sless_alt word_sle_eq split: if_splits)
  from sint_nonneg_unat [OF s(1)] have "int (unat w) < 20" using s(2) by metis
  then have "unat w < 20" by linarith
  then show "w = of_nat n \<and> n < NR_SEMAPHORES" using n by simp
next
  assume "w = of_nat n \<and> n < NR_SEMAPHORES"
  then have w: "w = of_nat n" and n: "n < 20" by simp_all
  have "unat w = n" "sint w = int n"
    using n unfolding w by (simp_all add: sint_of_nat_small)
  then show "sem_index w = Some n"
    using n by (simp add: sem_index_def word_sless_alt word_sle_eq)
qed

section \<open>List nodes of semaphores\<close>

lemma Sem_blocked_members: "Sem_blocked n \<in> members (heads v) \<longleftrightarrow> v_blocked v n \<noteq> None"
proof
  assume "Sem_blocked n \<in> members (heads v)"
  then obtain l xs where l: "heads v l = Some xs" "Sem_blocked n = l \<or> Sem_blocked n \<in> set xs"
    by (auto simp: members_iff)
  then show "v_blocked v n \<noteq> None"
    by (cases l) (auto simp: heads_def)
next
  assume "v_blocked v n \<noteq> None"
  then obtain ts where "heads v (Sem_blocked n) = Some ts" by (auto simp: heads_def)
  then show "Sem_blocked n \<in> members (heads v)" by (intro membersI) auto
qed

lemma Sem_anchor_members:
  "Sem_anchor n \<in> members (heads v) \<longleftrightarrow> (\<exists>t ns. v_sems v t = Some ns \<and> n \<in> set ns)"
proof
  assume "Sem_anchor n \<in> members (heads v)"
  then obtain l xs where l: "heads v l = Some xs" "Sem_anchor n = l \<or> Sem_anchor n \<in> set xs"
    by (auto simp: members_iff)
  then show "\<exists>t ns. v_sems v t = Some ns \<and> n \<in> set ns"
    by (cases l) (auto simp: heads_def, blast)
next
  assume "\<exists>t ns. v_sems v t = Some ns \<and> n \<in> set ns"
  then obtain t ns where t: "v_sems v t = Some ns" "n \<in> set ns" by blast
  then have "heads v (Task_semaphores t) = Some (map Sem_anchor ns)" by (simp add: heads_def)
  then show "Sem_anchor n \<in> members (heads v)" using t(2) by (rule_tac membersI) auto
qed

lemma heads_sem_init:
  "heads (v\<lparr>v_blocked := (v_blocked v)(n \<mapsto> bl), v_sems := (v_sems v)(t \<mapsto> ns)\<rparr>) =
     (heads v)(Sem_blocked n \<mapsto> map Task_anchor bl, Task_semaphores t \<mapsto> map Sem_anchor ns)"
  by (rule ext) (simp add: heads_def split: node.splits)

lemma v_queue_sem_init:
  "v_queue (v\<lparr>v_blocked := f, v_sems := g\<rparr>) m = (case m of Sem_blocked i \<Rightarrow> f i | _ \<Rightarrow> v_queue v m)"
  by (simp add: v_queue_def split: node.splits)

text \<open>Changing the counter of a semaphore no task waits for.\<close>

lemma kinv_count:
  assumes inv: "kinv s v" and n: "n < NR_SEMAPHORES" "used (semaphores s n) \<noteq> 0"
    and bl: "v_blocked v n = Some []"
  shows "kinv (upd_sem n (\<lambda>x. x\<lparr>count := f x\<rparr>) s) v"
proof -
  obtain i where i: "idle_task s = Some i" "queues_ok s v {i, current s}" "sems_ok s v" "dirs_ok s v"
    "cr3 s = dir_pages_baseAddr (tasks s (current s))"
    using inv by (rule kinvE)
  let ?s = "upd_sem n (\<lambda>x. x\<lparr>count := f x\<rparr>) s"
  have u: "used (semaphores ?s m) = used (semaphores s m)"
    "owner (semaphores ?s m) = owner (semaphores s m)"
    "count (semaphores ?s m) = (if m = n then f (semaphores s n) else count (semaphores s m))" for m
    by (simp_all add: upd_sem_def)
  show ?thesis
  proof (rule kinvI)
    show "queues_ok ?s v {i, current ?s}" by (rule queues_ok_cong) (use i(2) in simp_all)
    show "sems_ok ?s v"
      using i(3) n bl unfolding sems_ok_def sems_core_def u by auto
    show "dirs_ok ?s v" by (rule dirs_ok_cong [OF i(4)]) (simp_all add: upd_sem_def)
  qed (use i in \<open>simp_all add: upd_sem_def\<close>)
qed

section \<open>Creating a semaphore\<close>

lemma sys_sem_init_ok:
  assumes inv: "kinv s v" and n: "n < NR_SEMAPHORES" and free: "used (semaphores s n) = 0"
  defines "v' \<equiv> v\<lparr>v_blocked := (v_blocked v)(n \<mapsto> []),
                   v_sems := (v_sems v)(current s \<mapsto> n # the (v_sems v (current s)))\<rparr>"
  shows "\<exists>h. sys_sem_init (of_nat n) val s = Some (0,
             (upd_sem n (\<lambda>x. x\<lparr>used := 1, count := val, owner := Some (current s)\<rparr>) s)\<lparr>links := h\<rparr>) \<and>
           kinv ((upd_sem n (\<lambda>x. x\<lparr>used := 1, count := val, owner := Some (current s)\<rparr>) s)\<lparr>links := h\<rparr>) v'"
proof -
  obtain i where i: "idle_task s = Some i" "queues_ok s v {i, current s}" "sems_ok s v" "dirs_ok s v"
    "cr3 s = dir_pages_baseAddr (tasks s (current s))" "current s < NR_TASKS"
    using inv by (rule kinvE)
  have core: "sems_core s v" and live: "sems_live v" using i(3) by (simp_all add: sems_ok_def)
  note L = queues_okD(1) [OF i(2)]
  note cf = kinv_current(2,3) [OF inv]
  obtain ns where ns: "v_sems v (current s) = Some ns" using sems_liveD(1) [OF live] cf by blast
  have bl: "v_blocked v n = None \<or> v_blocked v n = Some []" using sems_coreD(2) [OF core n free] by blast
  then have b0: "heads v (Sem_blocked n) = Some [] \<or> Sem_blocked n \<notin> members (heads v)"
    by (auto simp: heads_def Sem_blocked_members)
  obtain h1 where h1: "INIT_LIST_HEAD (Sem_blocked n) (links s) = Some h1"
      "lists_ok h1 ((heads v)(Sem_blocked n \<mapsto> []))"
    using zlist.init_law [OF L b0] by blast
  have "Sem_anchor n \<notin> members (heads v)"
    using sems_coreD(6) [OF core] free by (auto simp: Sem_anchor_members)
  moreover have "members ((heads v)(Sem_blocked n \<mapsto> [])) \<subseteq> insert (Sem_blocked n) (members (heads v))"
    by (auto simp: members_iff split: if_splits)
  ultimately have fresh: "Sem_anchor n \<notin> members ((heads v)(Sem_blocked n \<mapsto> []))" by auto
  have own: "((heads v)(Sem_blocked n \<mapsto> [])) (Task_semaphores (current s)) = Some (map Sem_anchor ns)"
    by (simp add: heads_def ns)
  obtain h2 where h2: "list_add (Sem_anchor n) (Task_semaphores (current s)) h1 = Some h2"
      "lists_ok h2 (heads v')"
    using zlist.add_law [OF h1(2) own fresh] unfolding v'_def heads_sem_init by (auto simp: ns)
  define s' where "s' = (upd_sem n (\<lambda>x. x\<lparr>used := 1, count := val, owner := Some (current s)\<rparr>) s)\<lparr>links := h2\<rparr>"
  have run: "sys_sem_init (of_nat n) val s = Some (0, s')"
    using n free h1(1) h2(1) sem_index_Some [of "of_nat n" n]
    by (simp add: sys_sem_init_def on_links_def s'_def upd_sem_def)
  have fields: "tasks s' = tasks s" "current s' = current s" "idle_task s' = idle_task s"
    "cr3 s' = cr3 s" "dir_status s' = dir_status s" "dir_pages s' = dir_pages s"
    "pagusr_table_addr s' = pagusr_table_addr s" "links s' = h2"
    "semaphores s' = (semaphores s)(n := (semaphores s n)\<lparr>used := 1, count := val, owner := Some (current s)\<rparr>)"
    by (simp_all add: s'_def upd_sem_def)
  have queues: "v_queue v' m = (if m = Sem_blocked n then Some [] else v_queue v m)" for m
    by (simp add: v'_def v_queue_def split: node.splits)
  have "v_queue v (Sem_blocked n) \<in> {None, Some []}" using bl by (simp add: v_queue_def)
  then have nq: "t \<in> queued v' \<longleftrightarrow> t \<in> queued v" for t
    unfolding queued_def mem_Collect_eq queues by (metis empty_iff empty_set insertE option.distinct(1) option.inject)
  have "kinv s' v'"
  proof (rule kinvI)
    show "queues_ok s' v' {i, current s'}"
      unfolding queues_ok_def fields
    proof (intro conjI allI impI)
      show "queued v' \<inter> {i, current s} = {}" "queued v' \<union> {i, current s} = {..<NR_TASKS}"
        using queues_okD(2,3) [OF i(2)] nq by blast+
      show "state (tasks s t) = tag_of m" if "v_queue v' m = Some ts" "t \<in> set ts" for m ts t
        using that queues_okD(4) [OF i(2)] by (auto simp: queues split: if_splits)
    qed (rule h2(2))
    show "sems_ok s' v'"
      unfolding sems_ok_def
    proof
      show "sems_live v'" using live cf by (auto simp: sems_live_def v'_def)
      have other: "m \<noteq> n" if "v_sems v t = Some ms" "m \<in> set ms" for t ms m
        using sems_coreD(6) [OF core that] free by auto
      show "sems_core s' v'"
        unfolding sems_core_def fields
      proof (intro conjI allI impI)
        fix m
        assume m: "m < NR_SEMAPHORES"
          "used (((semaphores s)(n := (semaphores s n)\<lparr>used := 1, count := val, owner := Some (current s)\<rparr>)) m) \<noteq> 0"
        show "\<exists>t ns. owner (((semaphores s)(n := (semaphores s n)\<lparr>used := 1, count := val,
                owner := Some (current s)\<rparr>)) m) = Some t \<and> v_sems v' t = Some ns \<and> m \<in> set ns"
        proof (cases "m = n")
          case False
          with m obtain t ms where "owner (semaphores s m) = Some t" "v_sems v t = Some ms" "m \<in> set ms"
            using sems_coreD(5) [OF core m(1)] by auto
          with False show ?thesis by (auto simp: v'_def ns)
        qed (simp add: v'_def)
      qed (use core n cf other ns in \<open>auto simp: sems_core_def v'_def split: if_splits\<close>)
    qed
    show "dirs_ok s' v'"
      by (rule dirs_ok_cong [OF i(4)]) (simp_all add: fields v'_def)
  qed (use i fields in simp_all)
  with run show ?thesis unfolding s'_def by blast
qed

end
