(* ===== verification/Access.thy ===== *)
theory Access
  imports Paging
begin

text \<open>
  \<^verbatim>\<open>access_ok\<close> of \<^verbatim>\<open>utils.c\<close>, which decides whether the kernel may use a pointer it was given by
  a process. The comparisons are between unsigned 32-bit values; the \<^verbatim>\<open>case\<close> for writing falls
  through into the default one.
\<close>

abbreviation (input) "VERIFY_READ \<equiv> (0 :: int)"
abbreviation (input) "VERIFY_WRITE \<equiv> (1 :: int)"

text \<open>The pages from the lowest heap page of the current task up to the first one.\<close>

definition in_heap :: "dword \<Rightarrow> kstate \<Rightarrow> bool" where
  "in_heap addr_ini s \<longleftrightarrow>
     addr_ini \<le> of_nat PAG_LOG_INIT_HEAP \<and>
     of_nat PAG_LOG_INIT_HEAP - of_int (get_heap_page_size (heap_top (tasks s (current s)))) \<le> addr_ini"

definition access_ok :: "int \<Rightarrow> dword \<Rightarrow> dword \<Rightarrow> kstate \<Rightarrow> bool" where
  "access_ok type addr sz s =
     (let addr_ini = drop_bit 12 addr;
          addr_fin = drop_bit 12 (addr + sz)
      in if addr_fin < addr_ini then False
         else if type = VERIFY_WRITE \<and>
                 (of_nat (USER_FIRST_PAGE + NUM_PAG_CODE) \<le> addr_ini \<and>
                  addr_fin \<le> of_nat (USER_FIRST_PAGE + NUM_PAG_CODE + NUM_PAG_DATA) \<or>
                  in_heap addr_ini s)
         then True
         else if of_nat USER_FIRST_PAGE \<le> addr_ini \<and>
                 addr_fin \<le> of_nat (USER_FIRST_PAGE + NUM_PAG_CODE + NUM_PAG_DATA) \<or>
                 in_heap addr_ini s
         then True
         else False)"

text \<open>
  Every address the test for writing accepts is accepted by the test for reading, as the
  comment says; but by falling through, the converse holds as well.
\<close>

lemma access_ok_same: "access_ok t addr sz s = access_ok VERIFY_READ addr sz s"
proof -
  have "of_nat USER_FIRST_PAGE \<le> a" if "of_nat (USER_FIRST_PAGE + NUM_PAG_CODE) \<le> a" for a :: dword
    using that by (simp add: word_le_nat_alt)
  then show ?thesis by (simp add: access_ok_def Let_def)
qed

end
