(* ===== verification/Process.thy ===== *)
theory Process
  imports Semaphore Access
begin

text \<open>
  Creation and end of processes and threads: \<^verbatim>\<open>free_process\<close> of \<^verbatim>\<open>sched.c\<close> and \<^verbatim>\<open>sys_exit\<close>,
  \<^verbatim>\<open>sys_fork\<close> and \<^verbatim>\<open>sys_clone\<close> of \<^verbatim>\<open>sys.c\<close>. The words of the kernel stack that the copy of the
  father's context and the forged return addresses go to are written to physical memory; that the
  child will continue in \<^verbatim>\<open>ret_from_fork\<close>, or return from \<^verbatim>\<open>sys_clone\<close>, is recorded in \<open>kpc\<close>.
\<close>

section \<open>The end of a process\<close>

definition free_process :: "nat \<Rightarrow> kstate \<Rightarrow> kstate option" where
  "free_process task s =
     do { s \<leftarrow> update_process_state_rr task (Some Free_queue) s;
          s \<leftarrow> free_DIR task s;
          free_semaphores task s }"

definition sys_exit :: "kstate \<Rightarrow> kstate option" where
  "sys_exit s =
     do { s \<leftarrow> free_process (current s) s;
          sched_next_rr Exited s }"

section \<open>The kernel stack of a child\<close>

text \<open>
  The position in the stack comes from the frame pointer, modulo the page size. From the word
  above it to the end of the page the stack of the father is copied.
\<close>

definition copy_process_stack :: "nat \<Rightarrow> kstate \<Rightarrow> (int \<times> kstate) option" where
  "copy_process_stack task s =
     (let (father_ebp, s) = get_ebp s;
          stack_pos = int (unat (father_ebp AND (of_nat PAGE_SIZE - 1)) div 4);
          from = stack_addr s (current s) (stack_pos + 1);
          to = stack_addr s task (stack_pos + 1);
          sz = sint (stack_addr s (current s) (int KERNEL_STACK_SIZE) - from)
      in do { s \<leftarrow> copy_data from to sz s; Some (stack_pos, s) })"

section \<open>\<^verbatim>\<open>sys_fork\<close>\<close>

definition share_code_page :: "nat \<Rightarrow> nat \<Rightarrow> nat \<Rightarrow> kstate \<Rightarrow> kstate option" where
  "share_code_page pt_child pt_father page s =
     do { assert (pt_father < NR_TASKS \<and> page < TOTAL_PAGES);
          upd_pte pt_child page (\<lambda>_. pagusr_table s pt_father page) s }"

definition share_user_pages :: "nat \<Rightarrow> kstate \<Rightarrow> kstate option" where
  "share_user_pages task s =
     do { pt_father \<leftarrow> get_PT s (current s);
          pt_child \<leftarrow> get_PT s task;
          s \<leftarrow> for_range 0 NUM_PAG_CODE
                 (\<lambda>i s. share_code_page pt_child pt_father (PAG_LOG_INIT_CODE + i) s) s;
          s \<leftarrow> for_range 0 NUM_PAG_DATA
                 (\<lambda>i s. share_cow_page pt_father pt_child (PAG_LOG_INIT_DATA + i) s) s;
          for_range 0 (nat (get_heap_page_size (heap_top (tasks s (current s)))))
                 (\<lambda>i s. do { page \<leftarrow> heap_page i; share_cow_page pt_father pt_child page s }) s }"

definition sys_fork :: "kstate \<Rightarrow> (dword \<times> kstate) option" where
  "sys_fork s =
     do { (r, s) \<leftarrow> allocate_process None s;
          case r of
            None \<Rightarrow> Some (- EAGAIN, s)
          | Some task \<Rightarrow>
              do { s \<leftarrow> Some (upd_task task (\<lambda>k. k\<lparr>quantum := quantum (tasks s (current s))\<rparr>) s);
                   s \<leftarrow> Some (upd_task task (\<lambda>k. k\<lparr>heap_top := heap_top (tasks s (current s))\<rparr>) s);
                   (stack_pos, s) \<leftarrow> copy_process_stack task s;
                   s \<leftarrow> write_dword s (stack_addr s task stack_pos) (ret_from_fork_addr s);
                   s \<leftarrow> Some (upd_task task (\<lambda>k. k\<lparr>kernel_esp := stack_addr s task (stack_pos - 1)\<rparr>) s);
                   s \<leftarrow> Some (s\<lparr>kpc := (kpc s)(task := Fork_child)\<rparr>);
                   s \<leftarrow> share_user_pages task s;
                   s \<leftarrow> Some (set_cr3 (get_DIR s (current s)) s);
                   s \<leftarrow> add_process_to_scheduling task FREE_TO_READY False s;
                   Some (PID (tasks s task), s) } }"

section \<open>\<^verbatim>\<open>sys_clone\<close>\<close>

definition sys_clone :: "dword \<Rightarrow> dword \<Rightarrow> dword \<Rightarrow> kstate \<Rightarrow> (dword \<times> kstate) option" where
  "sys_clone fn stack exit_func s =
     (if \<not> access_ok VERIFY_WRITE fn 4 s \<or> \<not> access_ok VERIFY_WRITE stack 4 s
      then Some (- EFAULT, s)
      else do {
        dir \<leftarrow> dir_pages_baseAddr (tasks s (current s));
        (r, s) \<leftarrow> allocate_process (Some dir) s;
        case r of
          None \<Rightarrow> Some (- EAGAIN, s)
        | Some task \<Rightarrow>
            do { s \<leftarrow> Some (upd_task task (\<lambda>k. k\<lparr>quantum := quantum (tasks s (current s))\<rparr>) s);
                 (stack_pos, s) \<leftarrow> copy_process_stack task s;
                 s \<leftarrow> Some (upd_task task (\<lambda>k. k\<lparr>kernel_esp := stack_addr s task stack_pos\<rparr>) s);
                 s \<leftarrow> Some (s\<lparr>kpc := (kpc s)(task := Clone_child)\<rparr>);
                 s \<leftarrow> write_dword s (stack - 4) exit_func;
                 s \<leftarrow> write_dword s (stack_addr s task (int KERNEL_STACK_SIZE - 2)) (stack - 4);
                 s \<leftarrow> write_dword s (stack_addr s task (int KERNEL_STACK_SIZE - 5)) fn;
                 s \<leftarrow> add_process_to_scheduling task FREE_TO_READY False s;
                 Some (PID (tasks s task), s) } })"

end
