(* ===== verification/Heap.thy ===== *)
theory Heap
  imports Access
begin

text \<open>
  \<^verbatim>\<open>sys_sbrk\<close> of \<^verbatim>\<open>sys.c\<close>. The heap grows downwards from \<^verbatim>\<open>HEAP_START\<close>, so a positive increment
  lowers \<^verbatim>\<open>heap_top\<close>.
\<close>

text \<open>\<^verbatim>\<open>is_ss_pag_free\<close> for \<open>n\<close> pages downwards from the first one after the heap.\<close>

fun heap_pages_free :: "nat \<Rightarrow> nat \<Rightarrow> nat \<Rightarrow> kstate \<Rightarrow> bool option" where
  "heap_pages_free pt pag 0 s = Some True"
| "heap_pages_free pt pag (Suc n) s =
     do { page \<leftarrow> heap_page pag;
          free \<leftarrow> is_ss_pag_free pt page s;
          if free then heap_pages_free pt (Suc pag) n s else Some False }"

fun map_heap_pages :: "nat \<Rightarrow> nat \<Rightarrow> nat list \<Rightarrow> kstate \<Rightarrow> kstate option" where
  "map_heap_pages pt pag [] s = Some s"
| "map_heap_pages pt pag (f # fs) s =
     do { page \<leftarrow> heap_page pag;
          s \<leftarrow> set_ss_pag pt page f s;
          map_heap_pages pt (Suc pag) fs s }"

definition unmap_heap_pages :: "nat \<Rightarrow> nat \<Rightarrow> nat \<Rightarrow> kstate \<Rightarrow> kstate option" where
  "unmap_heap_pages pt pag n s =
     for_range 0 n
       (\<lambda>i s. do { page \<leftarrow> heap_page (pag + i);
                   frame \<leftarrow> get_frame pt page s;
                   s \<leftarrow> free_frame frame s;
                   del_ss_pag pt page s }) s"

definition sys_sbrk :: "dword \<Rightarrow> kstate \<Rightarrow> (dword \<times> kstate) option" where
  "sys_sbrk increment s =
     (if increment = 0 then Some (heap_top (tasks s (current s)), s)
      else
        let new_heap_top = heap_top (tasks s (current s)) - increment
        in if HEAP_START < new_heap_top \<and> \<not> increment <s 0 then Some (- ENOMEM, s)
           else
             let new_heap_top = (if HEAP_START < new_heap_top then HEAP_START else new_heap_top);
                 act = get_heap_page_size (heap_top (tasks s (current s)));
                 new = get_heap_page_size new_heap_top
             in do {
               pt \<leftarrow> get_PT s (current s);
               if act < new
               then do {
                 free \<leftarrow> heap_pages_free pt (nat act) (nat (new - act)) s;
                 if \<not> free then Some (- ENOMEM, s)
                 else do {
                   (r, s) \<leftarrow> reserve_frames alloc_frame free_frame (nat (new - act)) [] s;
                   case r of
                     None \<Rightarrow> Some (- ENOMEM, s)
                   | Some frames \<Rightarrow>
                       do { s \<leftarrow> map_heap_pages pt (nat act) frames s;
                            Some (new_heap_top + 1,
                              upd_task (current s) (\<lambda>k. k\<lparr>heap_top := new_heap_top\<rparr>) s) } } }
               else do {
                 s \<leftarrow> unmap_heap_pages pt (nat new) (nat (act - new)) s;
                 s \<leftarrow> Some (set_cr3 (get_DIR s (current s)) s);
                 Some (new_heap_top, upd_task (current s) (\<lambda>k. k\<lparr>heap_top := new_heap_top\<rparr>) s) } })"

end
