(* ===== verification/Console.thy ===== *)
theory Console
  imports Machine
begin

text \<open>
  The screen driver of \<^verbatim>\<open>io.c\<close> and \<^verbatim>\<open>devices.c\<close>. Video memory is the component \<open>screen\<close>, a word
  per address; what is sent to port 0xe9 is collected in \<open>debug_port\<close>.
\<close>

abbreviation (input) "NUM_COLUMNS \<equiv> (80 :: nat)"
abbreviation (input) "NUM_ROWS \<equiv> (25 :: nat)"

definition new_line :: "kstate \<Rightarrow> kstate" where
  "new_line s = s\<lparr>cursor_x := 0, cursor_y := of_nat ((unat (cursor_y s) + 1) mod NUM_ROWS)\<rparr>"

definition printc :: "byte \<Rightarrow> kstate \<Rightarrow> kstate" where
  "printc c s =
     (let s = s\<lparr>debug_port := debug_port s @ [c]\<rparr>
      in if c = 10 then new_line s
         else let ch = (ucast c :: half) OR 0x0200;
                  scr = 0xb8000 + of_nat ((unat (cursor_y s) * NUM_COLUMNS + unat (cursor_x s)) * 2);
                  s = s\<lparr>cursor_x := cursor_x s + 1\<rparr>;
                  s = (if of_nat NUM_COLUMNS \<le> cursor_x s then new_line s else s)
              in s\<lparr>screen := (screen s)(scr := ch)\<rparr>)"

definition printc_xy :: "byte \<Rightarrow> byte \<Rightarrow> byte \<Rightarrow> kstate \<Rightarrow> kstate" where
  "printc_xy mx my c s =
     (let cx = cursor_x s; cy = cursor_y s;
          s = printc c (s\<lparr>cursor_x := mx, cursor_y := my\<rparr>)
      in s\<lparr>cursor_x := cx, cursor_y := cy\<rparr>)"

text \<open>A string is given by its bytes before the terminating NUL.\<close>

definition printk :: "byte list \<Rightarrow> kstate \<Rightarrow> kstate" where
  "printk str s = fold printc str s"

text \<open>The buffer is the array it points to; reading past its end is an access out of bounds.\<close>

definition sys_write_console :: "byte list \<Rightarrow> int \<Rightarrow> kstate \<Rightarrow> kstate option" where
  "sys_write_console buffer sz s =
     for_range 0 (nat sz)
       (\<lambda>i s. do { assert (i < length buffer); Some (printc (buffer ! i) s) }) s"

end
