(* ===== verification/Semaphore_Proofs.thy ===== *)
theory Semaphore_Proofs
  imports Semaphore
begin

text \<open>
  The calls that block and wake tasks: waiting, signalling and destroying a semaphore, and
  giving back all the semaphores of a task that ends. A semaphore behaves as a counter with
  a first-in first-out queue of blocked tasks, and no call loses a task or meets a NULL
  pointer.
\<close>

section \<open>Waiting\<close>

lemma v_queue_names [simp]:
  "v_queue v Free_queue = Some (v_free v)" "v_queue v Ready_queue = Some (v_ready v)"
  "v_queue v Keyboard_queue = Some (v_kbd v)" "v_queue v (Sem_blocked n) = v_blocked v n"
  by (simp_all add: v_queue_def)

lemma tag_of_simps [simp]:
  "tag_of Free_queue = ST_INVALID" "tag_of Ready_queue = ST_READY"
  "tag_of Keyboard_queue = ST_BLOCKED" "tag_of (Sem_blocked n) = ST_BLOCKED"
  by (simp_all add: tag_of_def)

text \<open>Moving the current task to a queue and switching to the next one: the common end of
  every call that blocks.\<close>

lemma block_and_switch:
  assumes inv: "kinv s v" and idle: "idle_task s \<noteq> Some (current s)"
    and d: "v_queue v d = Some ts" "d \<noteq> Free_queue"
    and sems: "\<And>s'. semaphores s' = semaphores s \<Longrightarrow>
      sems_ok s' (v_set_queue d (if f then current s # ts else ts @ [current s]) v)"
    and e: "e \<noteq> REFRESH"
  defines "w \<equiv> v_set_queue d (if f then current s # ts else ts @ [current s]) v"
  shows "\<exists>s1 s2 s'. update_process_state (current s) (Some d) f s = Some s1 \<and>
           update_stats (current s) e s1 = Some s2 \<and> sched_next_rr k s2 = Some s' \<and>
           current s1 = current s \<and> current s2 = current s \<and> links s2 = links s1 \<and>
           kinv s' (w\<lparr>v_ready := tl (v_ready w)\<rparr>) \<and> sched_frame s s' \<and>
           current s' = v_next s w \<and> kpc s' = (kpc s)(current s := k) \<and>
           state (tasks s' (v_next s w)) = ST_RUN"
proof -
  obtain i where i: "idle_task s = Some i" "queues_ok s v {i, current s}" "sems_ok s v" "dirs_ok s v"
    "cr3 s = dir_pages_baseAddr (tasks s (current s))" "current s < NR_TASKS"
    using inv by (rule kinvE)
  have w: "v_move (current s) d f v = w"
    unfolding w_def by (rule v_move_fresh [OF kinv_current(1) [OF inv] d(1)])
  obtain h where h: "update_process_state (current s) (Some d) f s =
        Some (upd_task (current s) (\<lambda>k. k\<lparr>state := tag_of d\<rparr>) (s\<lparr>links := h\<rparr>))"
      "queues_ok (upd_task (current s) (\<lambda>k. k\<lparr>state := tag_of d\<rparr>) (s\<lparr>links := h\<rparr>))
        w ({i, current s} - {current s})"
    using update_process_state_move [OF i(2) d(1) i(6), of f] unfolding w by blast
  define s1 where "s1 = upd_task (current s) (\<lambda>k. k\<lparr>state := tag_of d\<rparr>) (s\<lparr>links := h\<rparr>)"
  obtain s2 where s2: "update_stats (current s) e s1 = Some s2"
    using update_stats_returns e by blast
  note o2 = only_stats_fields [OF update_stats_only [OF s2]]
  have set: "{i, current s} - {current s} = {i}" using idle i(1) by auto
  have "queues_ok s2 w {i}"
    by (rule queues_ok_stats [OF update_stats_only [OF s2]]) (use h(2) set in \<open>simp add: s1_def\<close>)
  moreover have "idle_task s2 = Some i" using i(1) by (simp add: o2 s1_def)
  moreover have "sems_ok s2 w" unfolding w_def by (rule sems) (simp add: o2 s1_def)
  moreover have "dirs_ok s2 w"
    by (rule dirs_ok_cong [OF i(4)]) (use d(2) in \<open>auto simp: o2 s1_def w_def v_set_queue_def split: node.splits\<close>)
  moreover have "cr3 s2 = dir_pages_baseAddr (tasks s2 (current s2))"
    using i(5) by (simp add: o2 s1_def)
  ultimately obtain s' where s': "sched_next_rr k s2 = Some s'" "kinv s' (w\<lparr>v_ready := tl (v_ready w)\<rparr>)"
      "sched_frame s2 s'" "current s' = v_next s2 w" "kpc s' = (kpc s2)(current s2 := k)"
      "state (tasks s' (v_next s2 w)) = ST_RUN"
    using kinv_sched_next [of s2 w i k] by blast
  have n: "v_next s2 w = v_next s w" by (simp add: v_next_def o2 s1_def split: list.split)
  have "sched_frame s s1" by (simp add: s1_def)
  also note sched_frame_stats [OF update_stats_only [OF s2]]
  also note s'(3)
  finally have "sched_frame s s'" .
  moreover have "update_process_state (current s) (Some d) f s = Some s1" using h(1) by (simp add: s1_def)
  ultimately show ?thesis using s2 s'(1,2,4-6) by (auto simp: n o2 s1_def)
qed

lemma sems_ok_block:
  assumes ok: "sems_ok s v" and n: "n < NR_SEMAPHORES" "used (semaphores s n) \<noteq> 0"
      "count (semaphores s n) = 0"
    and s': "semaphores s' = semaphores s"
  shows "sems_ok s' (v_set_queue (Sem_blocked n) ts v)"
proof -
  have *: "v_set_queue (Sem_blocked n) ts v = v\<lparr>v_blocked := (v_blocked v)(n \<mapsto> ts)\<rparr>"
    by (simp add: v_set_queue_def)
  show ?thesis
    using ok n unfolding * sems_ok_def sems_core_def sems_live_def s' by simp
qed

lemma sys_sem_wait_blocks:
  assumes inv: "kinv s v" and n: "n < NR_SEMAPHORES" and sem: "used (semaphores s n) \<noteq> 0"
      "count (semaphores s n) = 0" and idle: "idle_task s \<noteq> Some (current s)"
    and bl: "v_blocked v n = Some ts"
  shows "\<exists>s'. sys_sem_wait (of_nat n) s = Some (Switched, s') \<and>
           kinv s' (v\<lparr>v_blocked := (v_blocked v)(n \<mapsto> ts @ [current s]), v_ready := tl (v_ready v)\<rparr>) \<and>
           current s' = v_next s v \<and> kpc s' = (kpc s)(current s := Sem_wait_exit) \<and> sched_frame s s'"
proof -
  have d: "v_queue v (Sem_blocked n) = Some ts" using bl by simp
  have sems: "sems_ok s v" using inv by (simp add: kinv_def)
  have w: "v_set_queue (Sem_blocked n) (if False then current s # ts else ts @ [current s]) v =
      v\<lparr>v_blocked := (v_blocked v)(n \<mapsto> ts @ [current s])\<rparr>"
    by (simp add: v_set_queue_def)
  have n': "sem_index (of_nat n) = Some n" using n sem_index_Some by blast
  have nx: "v_next s (v\<lparr>v_blocked := g\<rparr>) = v_next s v" for g by (simp add: v_next_def)
  have ok: "sems_ok s' (v\<lparr>v_blocked := (v_blocked v)(n \<mapsto> ts @ [current s])\<rparr>)"
    if "semaphores s' = semaphores s" for s'
    using sems_ok_block [OF sems n sem that, of "ts @ [current s]"] by (simp add: v_set_queue_def)
  obtain s1 s2 s' where run: "update_process_state (current s) (Some (Sem_blocked n)) False s = Some s1"
      "update_stats (current s) SYS_TO_BLOCKED s1 = Some s2" "sched_next_rr Sem_wait_exit s2 = Some s'"
      "current s1 = current s"
    and r: "kinv s' (v\<lparr>v_blocked := (v_blocked v)(n \<mapsto> ts @ [current s]), v_ready := tl (v_ready v)\<rparr>)"
      "sched_frame s s'" "current s' = v_next s v" "kpc s' = (kpc s)(current s := Sem_wait_exit)"
    using block_and_switch [OF inv idle d, of False SYS_TO_BLOCKED Sem_wait_exit] ok
    unfolding w nx by auto
  have "sys_sem_wait (of_nat n) s = Some (Switched, s')"
    using run sem by (simp add: sys_sem_wait_def n' update_process_state_rr_def)
  with r show ?thesis by blast
qed

lemma sys_sem_wait_takes:
  assumes inv: "kinv s v" and n: "n < NR_SEMAPHORES" and sem: "used (semaphores s n) \<noteq> 0"
      "count (semaphores s n) \<noteq> 0"
  shows "sys_sem_wait (of_nat n) s =
           Some (Ret 0, upd_sem n (\<lambda>x. x\<lparr>count := count x - 1\<rparr>) s) \<and>
         kinv (upd_sem n (\<lambda>x. x\<lparr>count := count x - 1\<rparr>) s) v"
proof
  have n': "sem_index (of_nat n) = Some n" using n sem_index_Some by blast
  show "sys_sem_wait (of_nat n) s = Some (Ret 0, upd_sem n (\<lambda>x. x\<lparr>count := count x - 1\<rparr>) s)"
    using sem by (simp add: sys_sem_wait_def n')
  show "kinv (upd_sem n (\<lambda>x. x\<lparr>count := count x - 1\<rparr>) s) v"
    by (rule kinv_count [OF inv n sem(1)]) (use sems_coreD(4) sem n inv in \<open>auto simp: kinv_def sems_ok_def\<close>)
qed

section \<open>Waking one task\<close>

lemma wake_ok:
  assumes ok: "queues_ok s v out" and d: "v_queue v d = Some (us @ t # ws)" "d \<noteq> Ready_queue"
    and e: "e \<noteq> REFRESH"
  shows "\<exists>s'. add_process_to_scheduling t e f s = Some s' \<and>
           queues_ok s' (v_set_queue Ready_queue (if f then t # v_ready v else v_ready v @ [t])
             (v_set_queue d (us @ ws) v)) out \<and>
           sched_frame s s' \<and> ctrl_frame s s' \<and> (\<forall>u. u \<noteq> t \<longrightarrow> tasks s' u = tasks s u)"
proof -
  have q: "t \<in> queued v" using queuedI [OF d(1)] by simp
  then have t: "t < NR_TASKS" "out - {t} = out" using queues_okD(2,3) [OF ok] by blast+
  have m: "v_move t Ready_queue f v =
      v_set_queue Ready_queue (if f then t # v_ready v else v_ready v @ [t]) (v_set_queue d (us @ ws) v)"
    by (rule v_move_exact [OF queues_okD(1) [OF ok] d(1)]) (use d(2) in auto)
  show ?thesis using add_process_to_scheduling_ok [OF ok t(1) e, of f] unfolding m t(2) by blast
qed

lemma sys_sem_signal_counts:
  assumes inv: "kinv s v" and n: "n < NR_SEMAPHORES" "used (semaphores s n) \<noteq> 0"
    and bl: "v_blocked v n = Some []"
  shows "sys_sem_signal (of_nat n) s = Some (0, upd_sem n (\<lambda>x. x\<lparr>count := count x + 1\<rparr>) s) \<and>
         kinv (upd_sem n (\<lambda>x. x\<lparr>count := count x + 1\<rparr>) s) v"
proof
  have n': "sem_index (of_nat n) = Some n" using n sem_index_Some by blast
  have L: "lists_ok (links s) (heads v)" using inv queues_okD(1) by (blast elim: kinvE)
  have "heads v (Sem_blocked n) = Some []" using heads_queue [of v "Sem_blocked n" "[]"] bl by simp
  from zlist.empty_law [OF L this] have "list_empty (Sem_blocked n) (links s)" by simp
  then show "sys_sem_signal (of_nat n) s = Some (0, upd_sem n (\<lambda>x. x\<lparr>count := count x + 1\<rparr>) s)"
    using n by (simp add: sys_sem_signal_def n')
qed (rule kinv_count [OF assms])

lemma sys_sem_signal_wakes:
  assumes inv: "kinv s v" and n: "n < NR_SEMAPHORES" "used (semaphores s n) \<noteq> 0"
    and bl: "v_blocked v n = Some (t # ts)"
  shows "\<exists>s'. sys_sem_signal (of_nat n) s = Some (0, s') \<and>
           kinv s' (v\<lparr>v_blocked := (v_blocked v)(n \<mapsto> ts), v_ready := v_ready v @ [t]\<rparr>) \<and>
           sched_frame s s' \<and> ctrl_frame s s' \<and> (\<forall>u. u \<noteq> t \<longrightarrow> tasks s' u = tasks s u)"
proof -
  obtain i where i: "idle_task s = Some i" "queues_ok s v {i, current s}" "sems_ok s v" "dirs_ok s v"
    "cr3 s = dir_pages_baseAddr (tasks s (current s))"
    using inv by (rule kinvE)
  have n': "sem_index (of_nat n) = Some n" using n sem_index_Some by blast
  note L = queues_okD(1) [OF i(2)]
  have d: "v_queue v (Sem_blocked n) = Some ([] @ t # ts)" using bl by simp
  note hd = heads_queue [OF d, simplified]
  have e: "\<not> list_empty (Sem_blocked n) (links s)"
    "list_first (Sem_blocked n) (links s) = Some (Task_anchor t)"
    using zlist.empty_law [OF L hd] zlist.first_law [OF L hd] by simp_all
  have w: "v_set_queue Ready_queue (if False then t # v_ready v else v_ready v @ [t])
      (v_set_queue (Sem_blocked n) ([] @ ts) v) =
      v\<lparr>v_blocked := (v_blocked v)(n \<mapsto> ts), v_ready := v_ready v @ [t]\<rparr>"
    by (simp add: v_set_queue_def)
  obtain s' where s': "add_process_to_scheduling t BLOCKED_TO_READY False s = Some s'"
      "queues_ok s' (v\<lparr>v_blocked := (v_blocked v)(n \<mapsto> ts), v_ready := v_ready v @ [t]\<rparr>) {i, current s}"
      "sched_frame s s'" "ctrl_frame s s'" "\<forall>u. u \<noteq> t \<longrightarrow> tasks s' u = tasks s u"
    using wake_ok [OF i(2) d, of BLOCKED_TO_READY False] unfolding w by auto
  note fr = s'(3,4) [unfolded sched_frame_def task_kept_def ctrl_frame_def]
  have c: "count (semaphores s n) = 0"
    using sems_coreD(4) n i(3) bl by (auto simp: sems_ok_def)
  have "kinv s' (v\<lparr>v_blocked := (v_blocked v)(n \<mapsto> ts), v_ready := v_ready v @ [t]\<rparr>)"
  proof (rule kinvI)
    have "sems_ok s' (v_set_queue (Sem_blocked n) ts v)"
      by (rule sems_ok_block [OF i(3) n c]) (use fr in simp)
    then show "sems_ok s' (v\<lparr>v_blocked := (v_blocked v)(n \<mapsto> ts), v_ready := v_ready v @ [t]\<rparr>)"
      by (rule sems_ok_cong) (simp_all add: v_set_queue_def)
    show "dirs_ok s' (v\<lparr>v_blocked := (v_blocked v)(n \<mapsto> ts), v_ready := v_ready v @ [t]\<rparr>)"
      by (rule dirs_ok_cong [OF i(4)]) (use fr in simp_all)
  qed (use i s' fr in simp_all)
  then show ?thesis
    using s' e n by (auto simp: sys_sem_signal_def n' list_head_to_task_struct_def)
qed

section \<open>Destroying a semaphore\<close>

text \<open>
  What the traversals over blocked tasks and owned semaphores keep: everything \<open>sched_frame\<close>
  and \<open>ctrl_frame\<close> keep, except the semaphore table and \<open>sem_deleted\<close>, which becomes 1 for the
  tasks woken and is not changed for the others; nor is the state of the others.
\<close>

definition wake_frame :: "nat set \<Rightarrow> kstate \<Rightarrow> kstate \<Rightarrow> bool" where
  "wake_frame W s s' \<longleftrightarrow>
     sched_frame (s\<lparr>tasks := (\<lambda>t. (tasks s t)\<lparr>sem_deleted := if t \<in> W then 1 else sem_deleted (tasks s t)\<rparr>)\<rparr>) s' \<and>
     ctrl_frame s s' \<and> (\<forall>u. u \<notin> W \<longrightarrow> state (tasks s' u) = state (tasks s u))"

lemma wake_frame_empty [simp]: "wake_frame {} s s"
  by (simp add: wake_frame_def)

lemma wake_frame_trans: "wake_frame V s s1 \<Longrightarrow> wake_frame W s1 s2 \<Longrightarrow> wake_frame (V \<union> W) s s2"
  by (auto simp: wake_frame_def sched_frame_def task_kept_def ctrl_frame_def)

lemma wake_frame_wake:
  assumes "sched_frame s s'" "ctrl_frame s s'" "\<forall>u. u \<noteq> t \<longrightarrow> tasks s' u = tasks s u"
  shows "wake_frame {t} s (upd_task t (\<lambda>k. k\<lparr>sem_deleted := 1\<rparr>) s')"
  using assms by (auto simp: wake_frame_def sched_frame_def task_kept_def ctrl_frame_def upd_task_def)

definition v_destroy :: "nat \<Rightarrow> qview \<Rightarrow> qview" where
  "v_destroy n v =
     v\<lparr>v_sems := (\<lambda>t. map_option (removeAll n) (v_sems v t)),
       v_blocked := (v_blocked v)(n \<mapsto> []),
       v_ready := v_ready v @ the (v_blocked v n)\<rparr>"

lemma heads_drop_sem:
  "heads (v\<lparr>v_sems := (\<lambda>t. map_option (removeAll n) (v_sems v t))\<rparr>) = unlink (Sem_anchor n) (heads v)"
proof
  fix m
  have "removeAll (Sem_anchor n) (map Task_anchor ts) = map Task_anchor ts" for ts
    by (induction ts) auto
  moreover have "removeAll (Sem_anchor n) (map Dir_anchor ts) = map Dir_anchor ts" for ts
    by (induction ts) auto
  moreover have "removeAll (Sem_anchor n) (map Sem_anchor ts) = map Sem_anchor (removeAll n ts)" for ts
    by (induction ts) auto
  ultimately show "heads (v\<lparr>v_sems := (\<lambda>t. map_option (removeAll n) (v_sems v t))\<rparr>) m =
      unlink (Sem_anchor n) (heads v) m"
    by (cases m) (simp_all add: heads_def unlink_def option.map_comp comp_def)
qed

text \<open>The traversal of the blocked tasks moves them, in order, to the end of the ready queue.\<close>

lemma wake_all:
  assumes ok: "queues_ok s v out" and d: "v_blocked v n = Some ts"
  shows "\<exists>s'. list_for_each_safe NR_TASKS (Sem_blocked n) links wake_deleted s = Some s' \<and>
           queues_ok s' (v\<lparr>v_blocked := (v_blocked v)(n \<mapsto> []), v_ready := v_ready v @ ts\<rparr>) out \<and>
           wake_frame (set ts) s s'"
proof -
  define I where "I xs s1 \<longleftrightarrow>
    (\<exists>us ws. xs = map Task_anchor us \<and> ts = ws @ us \<and>
       queues_ok s1 (v\<lparr>v_blocked := (v_blocked v)(n \<mapsto> us), v_ready := v_ready v @ ws\<rparr>) out \<and>
       wake_frame (set ws) s s1)" for xs s1
  have L: "lists_ok (links s) (heads v)" using queues_okD(1) [OF ok] .
  have q: "v_queue v (Sem_blocked n) = Some ts" using d by simp
  have len: "length ts \<le> NR_TASKS"
  proof -
    have "set ts \<subseteq> {..<NR_TASKS}" using queuedI [OF q] queues_okD(3) [OF ok] by blast
    then have "card (set ts) \<le> card {..<NR_TASKS}" by (intro card_mono) simp_all
    then show ?thesis using distinct_card [OF queue_distinct [OF L q]] by simp
  qed
  have same: "v\<lparr>v_blocked := (v_blocked v)(n \<mapsto> ts), v_ready := v_ready v @ []\<rparr> = v"
    using d by (simp add: fun_upd_idem)
  have start: "I (map Task_anchor ts) s" unfolding I_def
    using ok same by (intro exI [of _ ts] exI [of _ "[]"]) simp
  have step: "\<exists>s2. wake_deleted x s1 = Some s2 \<and> I xs s2" if "I (x # xs) s1" for x xs s1
  proof -
    from that obtain t us ws where I: "x = Task_anchor t" "xs = map Task_anchor us" "ts = ws @ t # us"
        "queues_ok s1 (v\<lparr>v_blocked := (v_blocked v)(n \<mapsto> t # us), v_ready := v_ready v @ ws\<rparr>) out"
        "wake_frame (set ws) s s1"
      unfolding I_def by auto
    let ?v = "v\<lparr>v_blocked := (v_blocked v)(n \<mapsto> t # us), v_ready := v_ready v @ ws\<rparr>"
    have qq: "v_queue ?v (Sem_blocked n) = Some ([] @ t # us)" by simp
    obtain s2 where s2: "add_process_to_scheduling t BLOCKED_TO_READY False s1 = Some s2"
        "queues_ok s2 (v_set_queue Ready_queue (v_ready ?v @ [t]) (v_set_queue (Sem_blocked n) us ?v)) out"
        "sched_frame s1 s2" "ctrl_frame s1 s2" "\<forall>u. u \<noteq> t \<longrightarrow> tasks s2 u = tasks s1 u"
      using wake_ok [OF I(4) qq, of BLOCKED_TO_READY False] by auto
    let ?s = "upd_task t (\<lambda>k. k\<lparr>sem_deleted := 1\<rparr>) s2"
    have "queues_ok ?s (v\<lparr>v_blocked := (v_blocked v)(n \<mapsto> us), v_ready := v_ready v @ ws @ [t]\<rparr>) out"
      by (rule queues_ok_cong [of s2]) (use s2(2) in \<open>simp_all add: v_set_queue_def\<close>)
    moreover have "wake_frame (set (ws @ [t])) s ?s"
      using wake_frame_trans [OF I(5) wake_frame_wake [OF s2(3-5)]] by simp
    ultimately have "I xs ?s" unfolding I_def using I(2,3)
      by (intro exI [of _ us] exI [of _ "ws @ [t]"]) simp
    then show ?thesis using s2(1) by (simp add: wake_deleted_def I(1) list_head_to_task_struct_def)
  qed
  have nxt: "x \<noteq> Sem_blocked n \<and> next_ptr (links s1 x) = Some (if xs = [] then Sem_blocked n else hd xs)"
    if "I (x # xs) s1" for x xs s1
  proof -
    from that obtain t us w where I: "x = Task_anchor t" "xs = map Task_anchor us"
        "queues_ok s1 w out" "v_queue w (Sem_blocked n) = Some (t # us)"
      unfolding I_def by auto
    have "ring (links s1) (Sem_blocked n) (x # xs)"
      using lists_okD(1) [OF queues_okD(1) [OF I(3)] heads_queue [OF I(4)]] I(1,2) by simp
    then show ?thesis
      using ring_next_at [of "links s1" "Sem_blocked n" "[]" x xs] I(1) by (cases xs) simp_all
  qed
  have first: "next_ptr (links s (Sem_blocked n)) =
      Some (if map Task_anchor ts = [] then Sem_blocked n else hd (map Task_anchor ts))"
    using ring_next_hd [OF lists_okD(1) [OF L heads_queue [OF q]]] by (cases ts) simp_all
  obtain s' where "list_for_each_safe NR_TASKS (Sem_blocked n) links wake_deleted s = Some s'" "I [] s'"
    using for_each_safe_from [of I wake_deleted "Sem_blocked n" links, OF step nxt start, of NR_TASKS] len
    unfolding list_for_each_safe_def first by auto
  then show ?thesis unfolding I_def by auto
qed

text \<open>Leaving the list of the owner.\<close>

lemma drop_anchor:
  assumes ok: "queues_ok s v out" and core: "sems_core s v"
    and n: "n < NR_SEMAPHORES" "used (semaphores s n) \<noteq> 0"
  shows "\<exists>h. list_del (Sem_anchor n) (links s) = Some h \<and>
           queues_ok ((upd_sem n (\<lambda>x. x\<lparr>used := 0\<rparr>) s)\<lparr>links := h\<rparr>)
             (v\<lparr>v_sems := (\<lambda>t. map_option (removeAll n) (v_sems v t))\<rparr>) out"
proof -
  note L = queues_okD(1) [OF ok]
  obtain t ns where t: "v_sems v t = Some ns" "n \<in> set ns"
    using sems_coreD(5) [OF core n] by blast
  have mem: "Sem_anchor n \<in> members (heads v)" using t by (auto simp: Sem_anchor_members)
  have "Sem_anchor n \<notin> dom (heads v)" by (simp add: heads_def dom_def)
  then obtain h where h: "list_del (Sem_anchor n) (links s) = Some h" "lists_ok h (unlink (Sem_anchor n) (heads v))"
    using zlist.del_unlink [OF L _ mem] by blast
  have q: "v_queue (v\<lparr>v_sems := g\<rparr>) m = v_queue v m" for g m
    by (simp add: v_queue_def split: node.splits)
  have "queued (v\<lparr>v_sems := g\<rparr>) = queued v" for g by (simp add: queued_def q)
  then show ?thesis
    using h ok unfolding queues_ok_def heads_drop_sem by (auto simp: q heads_drop_sem)
qed

lemma sems_core_destroy:
  assumes core: "sems_core s v"
    and s': "semaphores s' = (semaphores s)(n := (semaphores s n)\<lparr>used := 0\<rparr>)" and n: "n < NR_SEMAPHORES"
  shows "sems_core s' (v_destroy n v)"
  using core n unfolding sems_core_def s' v_destroy_def
  by (auto split: if_splits) (metis (no_types, lifting) map_option_eq_Some)?

lemma sys_sem_destroy_core:
  assumes ok: "queues_ok s v out" and core: "sems_core s v"
    and n: "n < NR_SEMAPHORES" "used (semaphores s n) \<noteq> 0"
    and own: "owner (semaphores s n) = Some o'" "PID (tasks s (current s)) = PID (tasks s o')"
  shows "\<exists>s'. sys_sem_destroy (of_nat n) s = Some (0, s') \<and>
           queues_ok s' (v_destroy n v) out \<and> sems_core s' (v_destroy n v) \<and>
           semaphores s' = (semaphores s)(n := (semaphores s n)\<lparr>used := 0\<rparr>) \<and>
           wake_frame (set (the (v_blocked v n))) (upd_sem n (\<lambda>x. x\<lparr>used := 0\<rparr>) s) s'"
proof -
  have n': "sem_index (of_nat n) = Some n" using n sem_index_Some by blast
  let ?u = "upd_sem n (\<lambda>x. x\<lparr>used := 0\<rparr>) s"
  let ?v = "v\<lparr>v_sems := (\<lambda>t. map_option (removeAll n) (v_sems v t))\<rparr>"
  obtain ts where ts: "v_blocked v n = Some ts" using sems_coreD(3) [OF core n] by blast
  obtain h where h: "list_del (Sem_anchor n) (links s) = Some h" "queues_ok (?u\<lparr>links := h\<rparr>) ?v out"
    using drop_anchor [OF ok core n] by blast
  obtain s' where s': "list_for_each_safe NR_TASKS (Sem_blocked n) links wake_deleted (?u\<lparr>links := h\<rparr>) = Some s'"
      "queues_ok s' (?v\<lparr>v_blocked := (v_blocked v)(n \<mapsto> []), v_ready := v_ready v @ ts\<rparr>) out"
      "wake_frame (set ts) (?u\<lparr>links := h\<rparr>) s'"
    using wake_all [OF h(2), of n ts] ts by auto
  have w: "?v\<lparr>v_blocked := (v_blocked v)(n \<mapsto> []), v_ready := v_ready v @ ts\<rparr> = v_destroy n v"
    by (simp add: v_destroy_def ts)
  have sem: "semaphores s' = (semaphores s)(n := (semaphores s n)\<lparr>used := 0\<rparr>)"
    using s'(3) by (simp add: wake_frame_def sched_frame_def upd_sem_def)
  have "wake_frame (set ts) ?u s'"
    using s'(3) by (simp add: wake_frame_def sched_frame_def ctrl_frame_def task_kept_def upd_sem_def)
  moreover have "sys_sem_destroy (of_nat n) s = Some (0, s')"
    using n own h(1) s'(1) by (simp add: sys_sem_destroy_def n' on_links_def)
  ultimately show ?thesis
    using s'(2) sem sems_core_destroy [OF core sem n(1)] unfolding w ts by auto
qed

section \<open>Giving back all semaphores of the current task\<close>

lemma v_destroy_fields [simp]:
  "v_free (v_destroy n v) = v_free v" "v_kbd (v_destroy n v) = v_kbd v" "v_dirs (v_destroy n v) = v_dirs v"
  by (simp_all add: v_destroy_def)

lemma fold_v_destroy [simp]:
  "v_free (fold v_destroy ns v) = v_free v" "v_kbd (fold v_destroy ns v) = v_kbd v"
  "v_dirs (fold v_destroy ns v) = v_dirs v"
  "v_blocked (fold v_destroy ns v) = (\<lambda>m. if m \<in> set ns then Some [] else v_blocked v m)"
  by (induction ns arbitrary: v) (auto simp: v_destroy_def fun_eq_iff)

lemma v_sems_fold_destroy:
  "v_sems (fold v_destroy ns v) t = map_option (filter (\<lambda>n. n \<notin> set ns)) (v_sems v t)"
  by (induction ns arbitrary: v)
    (auto simp: fun_eq_iff [of "filter (\<lambda>n. True)" "\<lambda>xs. xs", simplified] v_destroy_def removeAll_filter_not_eq option.map_comp comp_def conj_commute option.map_ident
      intro!: map_option_cong filter_cong)

lemma free_semaphores_core:
  assumes ok: "queues_ok s v out" and core: "sems_core s v" and ns: "v_sems v (current s) = Some ns"
  shows "\<exists>s'. free_semaphores (current s) s = Some s' \<and>
           queues_ok s' (fold v_destroy ns v) out \<and> sems_core s' (fold v_destroy ns v) \<and>
           semaphores s' = (\<lambda>n. if n \<in> set ns then (semaphores s n)\<lparr>used := 0\<rparr> else semaphores s n) \<and>
           wake_frame (\<Union>n\<in>set ns. set (the (v_blocked v n))) (s\<lparr>semaphores := semaphores s'\<rparr>) s'"
proof -
  define c where "c = current s"
  have L: "lists_ok (links s) (heads v)" using queues_okD(1) [OF ok] .
  have hs: "heads w (Task_semaphores c) = Some (map Sem_anchor ms)" if "v_sems w c = Some ms" for w ms
    using that by (simp add: heads_def)
  have dist: "distinct ns"
    using zlist.distinct_law [OF L hs] ns by (simp add: c_def distinct_map)
  have range: "n < NR_SEMAPHORES" "used (semaphores s n) \<noteq> 0" "owner (semaphores s n) = Some c" if "n \<in> set ns" for n
    using sems_coreD(6) [OF core ns that] by (simp_all add: c_def)
  have len: "length ns \<le> NR_SEMAPHORES"
  proof -
    have "card (set ns) \<le> card {..<NR_SEMAPHORES}" using range(1) by (intro card_mono) auto
    then show ?thesis using distinct_card [OF dist] by simp
  qed
  define I where "I xs s1 \<longleftrightarrow>
    (\<exists>ms ws. xs = map Sem_anchor ms \<and> ns = ws @ ms \<and> queues_ok s1 (fold v_destroy ws v) out \<and>
       sems_core s1 (fold v_destroy ws v) \<and>
       semaphores s1 = (\<lambda>n. if n \<in> set ws then (semaphores s n)\<lparr>used := 0\<rparr> else semaphores s n) \<and>
       wake_frame (\<Union>n\<in>set ws. set (the (v_blocked v n))) (s\<lparr>semaphores := semaphores s1\<rparr>) s1)" for xs s1
  have start: "I (map Sem_anchor ns) s"
    unfolding I_def using ok core by (intro exI [of _ ns] exI [of _ "[]"]) simp
  have left: "v_sems (fold v_destroy ws v) c = Some ms" if "ns = ws @ ms" for ws ms
  proof -
    have "filter (\<lambda>n. n \<notin> set ws) (ws @ ms) = ms"
      using dist that by (auto simp: filter_empty_conv intro: filter_True)
    then show ?thesis using ns that by (simp add: v_sems_fold_destroy c_def)
  qed
  have step: "\<exists>s2. destroy_anchored x s1 = Some s2 \<and> I xs s2" if "I (x # xs) s1" for x xs s1
  proof -
    from that obtain n ms ws where I: "x = Sem_anchor n" "xs = map Sem_anchor ms" "ns = ws @ n # ms"
        "queues_ok s1 (fold v_destroy ws v) out" "sems_core s1 (fold v_destroy ws v)"
        "semaphores s1 = (\<lambda>n. if n \<in> set ws then (semaphores s n)\<lparr>used := 0\<rparr> else semaphores s n)"
        "wake_frame (\<Union>n\<in>set ws. set (the (v_blocked v n))) (s\<lparr>semaphores := semaphores s1\<rparr>) s1"
      unfolding I_def by auto
    have n: "n \<in> set ns" "n \<notin> set ws" using I(3) dist by auto
    have c1: "current s1 = c" using I(7) by (simp add: wake_frame_def ctrl_frame_def c_def)
    obtain s2 where s2: "sys_sem_destroy (of_nat n) s1 = Some (0, s2)"
        "queues_ok s2 (v_destroy n (fold v_destroy ws v)) out" "sems_core s2 (v_destroy n (fold v_destroy ws v))"
        "semaphores s2 = (semaphores s1)(n := (semaphores s1 n)\<lparr>used := 0\<rparr>)"
        "wake_frame (set (the (v_blocked (fold v_destroy ws v) n))) (upd_sem n (\<lambda>x. x\<lparr>used := 0\<rparr>) s1) s2"
      using sys_sem_destroy_core [OF I(4,5) range(1) [OF n(1)], of c] range [OF n(1)] n(2) I(6) c1 by auto
    have "wake_frame (\<Union>n\<in>set (ws @ [n]). set (the (v_blocked v n))) (s\<lparr>semaphores := semaphores s2\<rparr>) s2"
      using I(7) s2(4,5) n(2)
      by (simp add: wake_frame_def sched_frame_def task_kept_def ctrl_frame_def upd_sem_def)
    moreover have "semaphores s2 =
        (\<lambda>m. if m \<in> set (ws @ [n]) then (semaphores s m)\<lparr>used := 0\<rparr> else semaphores s m)"
      using s2(4) I(6) n(2) by (auto simp: fun_eq_iff)
    ultimately have "I xs s2" unfolding I_def using I(2,3) s2(2,3)
      by (intro exI [of _ ms] exI [of _ "ws @ [n]"]) simp
    then show ?thesis using s2(1) by (simp add: destroy_anchored_def I(1) list_head_to_semaphore_def)
  qed
  have nxt: "x \<noteq> Task_semaphores c \<and>
      next_ptr (links s1 x) = Some (if xs = [] then Task_semaphores c else hd xs)"
    if "I (x # xs) s1" for x xs s1
  proof -
    from that obtain n ms ws where I: "x = Sem_anchor n" "xs = map Sem_anchor ms" "ns = ws @ n # ms"
        "queues_ok s1 (fold v_destroy ws v) out"
      unfolding I_def by auto
    have "ring (links s1) (Task_semaphores c) (x # xs)"
      using lists_okD(1) [OF queues_okD(1) [OF I(4)] hs [OF left [OF I(3)]]] I(1,2) by simp
    then show ?thesis
      using ring_next_at [of "links s1" "Task_semaphores c" "[]" x xs] I(1) by (cases xs) simp_all
  qed
  have first: "next_ptr (links s (Task_semaphores c)) =
      Some (if map Sem_anchor ns = [] then Task_semaphores c else hd (map Sem_anchor ns))"
    using ring_next_hd [OF lists_okD(1) [OF L hs]] ns by (cases ns) (simp_all add: c_def)
  obtain s1 where s1: "list_for_each_safe NR_SEMAPHORES (Task_semaphores c) links destroy_anchored s = Some s1"
      "I [] s1"
    using for_each_safe_from [of I destroy_anchored "Task_semaphores c" links, OF step nxt start, of NR_SEMAPHORES] len
    unfolding list_for_each_safe_def first by auto
  have I: "queues_ok s1 (fold v_destroy ns v) out" "sems_core s1 (fold v_destroy ns v)"
      "semaphores s1 = (\<lambda>n. if n \<in> set ns then (semaphores s n)\<lparr>used := 0\<rparr> else semaphores s n)"
      "wake_frame (\<Union>n\<in>set ns. set (the (v_blocked v n))) (s\<lparr>semaphores := semaphores s1\<rparr>) s1"
    using s1(2) unfolding I_def by auto
  have e: "heads (fold v_destroy ns v) (Task_semaphores c) = Some []"
    using hs [OF left [of ns "[]"]] by simp
  obtain h where h: "INIT_LIST_HEAD (Task_semaphores c) (links s1) = Some h"
      "lists_ok h (heads (fold v_destroy ns v))"
    using zlist.init_law [OF queues_okD(1) [OF I(1)], of "Task_semaphores c"] e by (auto simp: fun_upd_idem)
  let ?s = "s1\<lparr>links := h\<rparr>"
  have "free_semaphores c s = Some ?s" using s1(1) h(1) by (simp add: free_semaphores_def on_links_def)
  moreover have "queues_ok ?s (fold v_destroy ns v) out" using I(1) h(2) by (simp add: queues_ok_def)
  moreover have "sems_core ?s (fold v_destroy ns v)" by (rule sems_core_cong [OF I(2)]) simp_all
  moreover have "wake_frame (\<Union>n\<in>set ns. set (the (v_blocked v n))) (s\<lparr>semaphores := semaphores ?s\<rparr>) ?s"
    using I(4) by (simp add: wake_frame_def sched_frame_def ctrl_frame_def)
  ultimately show ?thesis using I(3) unfolding c_def by auto
qed

end
