(* ===== verification/Keyboard.thy ===== *)
theory Keyboard
  imports Semaphore_Proofs
begin

text \<open>
  \<^verbatim>\<open>keyboard.c\<close>: the circular buffer the keyboard interrupt fills and \<^verbatim>\<open>sys_read\<close> empties, and
  the queue of tasks that wait for it. \<open>sys_read_keyboard\<close> may block twice over; its
  continuations after a switch back are \<open>sys_read_keyboard_first\<close> and
  \<open>sys_read_keyboard_more\<close>, and the local variables they need are in the \<open>kcont\<close> of the task.
\<close>

section \<open>The buffer\<close>

definition char_map :: "byte list" where
  "char_map =
     [0, 0, 49, 50, 51, 52, 53, 54,
      55, 56, 57, 48, 39, 161, 0, 0,
      113, 119, 101, 114, 116, 121, 117, 105,
      111, 112, 96, 43, 0, 0, 97, 115,
      100, 102, 103, 104, 106, 107, 108, 241,
      0, 186, 0, 231, 122, 120, 99, 118,
      98, 110, 109, 44, 46, 45, 0, 42,
      0, 0, 0, 0, 0, 0, 0, 0,
      0, 0, 0, 0, 0, 0, 0, 55,
      56, 57, 45, 52, 53, 54, 43, 49,
      50, 51, 48, 0, 0, 0, 60, 0,
      0, 0, 0, 0, 0, 0, 0, 0,
      0, 0]"

definition is_buffer_full :: "kstate \<Rightarrow> bool" where
  "is_buffer_full s \<longleftrightarrow>
     buff_from s - buff_to s = 1 \<or> (buff_from s = 0 \<and> buff_to s = KEYBOARD_BUFFER_SIZE - 1)"

definition init_keyboard :: "kstate \<Rightarrow> kstate option" where
  "init_keyboard s =
     on_links (INIT_LIST_HEAD Keyboard_queue) (s\<lparr>buff_from := 0, buff_to := 0, remaining_to_read := 0\<rparr>)"

text \<open>An index outside \<^verbatim>\<open>keyboard_buffer\<close> is an access out of bounds.\<close>

definition buffer_push :: "byte \<Rightarrow> kstate \<Rightarrow> kstate option" where
  "buffer_push key s =
     do { assert (0 \<le> buff_to s \<and> buff_to s < KEYBOARD_BUFFER_SIZE);
          s \<leftarrow> Some (s\<lparr>keyboard_buffer := (keyboard_buffer s)(buff_to s := key),
                       buff_to := buff_to s + 1\<rparr>);
          Some (if buff_to s = KEYBOARD_BUFFER_SIZE then s\<lparr>buff_to := 0\<rparr> else s) }"

text \<open>
  The loop of \<open>read_from_keyboard_buffer\<close>: \<open>n\<close> is the number of bytes still wanted, \<open>cnt\<close> the
  number of bytes read.
\<close>

fun read_loop :: "dword \<Rightarrow> nat \<Rightarrow> nat \<Rightarrow> kstate \<Rightarrow> (nat \<times> kstate) option" where
  "read_loop buffer 0 cnt s = Some (cnt, s)"
| "read_loop buffer (Suc n) cnt s =
     (if buff_from s \<noteq> buff_to s
      then do {
        assert (0 \<le> buff_from s \<and> buff_from s < KEYBOARD_BUFFER_SIZE);
        s \<leftarrow> write_byte s (buffer + of_nat cnt) (keyboard_buffer s (buff_from s));
        s \<leftarrow> Some (s\<lparr>buff_from := buff_from s + 1\<rparr>);
        s \<leftarrow> Some (if buff_from s = KEYBOARD_BUFFER_SIZE then s\<lparr>buff_from := 0\<rparr> else s);
        read_loop buffer n (cnt + 1) s }
      else Some (cnt, s))"

definition read_from_keyboard_buffer :: "dword \<Rightarrow> dword \<Rightarrow> kstate \<Rightarrow> (dword \<times> kstate) option" where
  "read_from_keyboard_buffer buffer sz s =
     do { (cnt, s) \<leftarrow> read_loop buffer (nat (sint sz)) 0 s; Some (of_nat cnt, s) }"

section \<open>The interrupt\<close>

text \<open>\<open>value\<close> is the byte read from port 0x60.\<close>

definition wake_reader :: "kstate \<Rightarrow> kstate option" where
  "wake_reader s =
     do { s \<leftarrow> (if Some (current s) \<noteq> idle_task s
                then add_process_to_scheduling (current s) SYS_TO_READY False s else Some s);
          l \<leftarrow> list_first Keyboard_queue (links s);
          task \<leftarrow> list_head_to_task_struct l;
          s \<leftarrow> add_process_to_scheduling task BLOCKED_TO_READY True s;
          sched_next_rr Irq_exit s }"

definition keyboard_routine :: "byte \<Rightarrow> kstate \<Rightarrow> kstate option" where
  "keyboard_routine value s =
     (let position = unat (value AND 0b01111111); action = drop_bit 7 value
      in if action = 0 then
           if position < 98 then
             let key = char_map ! position
             in if \<not> is_buffer_full s then
                  do { s \<leftarrow> buffer_push key s;
                       if \<not> list_empty Keyboard_queue (links s) then
                         do { s \<leftarrow> Some (s\<lparr>remaining_to_read := remaining_to_read s - 1\<rparr>);
                              if remaining_to_read s \<le> 0 \<or> is_buffer_full s then wake_reader s else Some s }
                       else Some s }
                else Some s
           else Some s
         else Some s)"

section \<open>The system call\<close>

definition block_in_read :: "kcont \<Rightarrow> bool \<Rightarrow> kstate \<Rightarrow> kstate option" where
  "block_in_read k first s =
     do { s \<leftarrow> update_process_state (current s) (Some Keyboard_queue) first s;
          s \<leftarrow> update_stats (current s) SYS_TO_BLOCKED s;
          sched_next_rr k s }"

text \<open>The test of the \<^verbatim>\<open>while(size > 0)\<close> and the first half of its body.\<close>

definition sys_read_keyboard_loop ::
  "dword \<Rightarrow> dword \<Rightarrow> dword \<Rightarrow> kstate \<Rightarrow> (sysret \<times> kstate) option" where
  "sys_read_keyboard_loop buffer sz total_size s =
     (if 0 <s sz
      then do { s \<leftarrow> Some (s\<lparr>remaining_to_read := sint sz\<rparr>);
                s \<leftarrow> block_in_read (Read_more buffer sz total_size) True s;
                Some (Switched, s) }
      else Some (Ret total_size, s))"

text \<open>The second half: after the switch back.\<close>

definition sys_read_keyboard_more ::
  "dword \<Rightarrow> dword \<Rightarrow> dword \<Rightarrow> kstate \<Rightarrow> (sysret \<times> kstate) option" where
  "sys_read_keyboard_more buffer sz total_size s =
     do { (n, s) \<leftarrow> read_from_keyboard_buffer (buffer + (total_size - sz)) sz s;
          sys_read_keyboard_loop buffer (sz - n) total_size s }"

definition sys_read_keyboard_first :: "dword \<Rightarrow> dword \<Rightarrow> kstate \<Rightarrow> (sysret \<times> kstate) option" where
  "sys_read_keyboard_first buffer total_size s =
     do { (n, s) \<leftarrow> read_from_keyboard_buffer buffer total_size s;
          sys_read_keyboard_loop buffer (total_size - n) total_size s }"

definition sys_read_keyboard :: "dword \<Rightarrow> dword \<Rightarrow> kstate \<Rightarrow> (sysret \<times> kstate) option" where
  "sys_read_keyboard buffer sz s =
     (if \<not> list_empty Keyboard_queue (links s)
      then do { s \<leftarrow> block_in_read (Read_first buffer sz) False s; Some (Switched, s) }
      else sys_read_keyboard_first buffer sz s)"

section \<open>The buffer is a bounded first-in first-out queue\<close>

definition buffer_wf :: "kstate \<Rightarrow> bool" where
  "buffer_wf s \<longleftrightarrow>
     0 \<le> buff_from s \<and> buff_from s < KEYBOARD_BUFFER_SIZE \<and>
     0 \<le> buff_to s \<and> buff_to s < KEYBOARD_BUFFER_SIZE"

definition buffer_len :: "kstate \<Rightarrow> nat" where
  "buffer_len s = nat ((buff_to s - buff_from s) mod KEYBOARD_BUFFER_SIZE)"

text \<open>The bytes in the buffer, oldest first.\<close>

definition buffer_bytes :: "kstate \<Rightarrow> byte list" where
  "buffer_bytes s =
     map (\<lambda>k. keyboard_buffer s ((buff_from s + int k) mod KEYBOARD_BUFFER_SIZE)) [0..<buffer_len s]"

lemma length_buffer_bytes [simp]: "length (buffer_bytes s) = buffer_len s"
  by (simp add: buffer_bytes_def)

lemma wrap_next:
  fixes i :: int
  assumes "0 \<le> i" "i < 10"
  shows "(if i + 1 = 10 then 0 else i + 1) = (i + 1) mod 10"
  using assms by (cases "i = 9") auto

lemma ring_distance:
  fixes f t :: int
  assumes "0 \<le> f" "f < 10" "0 \<le> t" "t < 10"
  shows "(t - f) mod 10 = (if f \<le> t then t - f else t - f + 10)"
proof (cases "f \<le> t")
  case False
  have "(t - f) mod 10 = (t - f + 10) mod 10" by simp
  also have "\<dots> = t - f + 10" using assms False by (intro mod_pos_pos_trivial) auto
  finally show ?thesis using False by simp
qed (use assms in simp)

lemma buffer_len_eq:
  "buffer_wf s \<Longrightarrow> int (buffer_len s) =
     (if buff_from s \<le> buff_to s then buff_to s - buff_from s else buff_to s - buff_from s + 10)"
  unfolding buffer_len_def buffer_wf_def by (auto simp: ring_distance)

lemma buffer_full_iff: "buffer_wf s \<Longrightarrow> is_buffer_full s \<longleftrightarrow> buffer_len s = 9"
  using buffer_len_eq [of s] unfolding buffer_wf_def is_buffer_full_def by (auto split: if_splits)

lemma buffer_empty_iff: "buffer_wf s \<Longrightarrow> buff_from s = buff_to s \<longleftrightarrow> buffer_len s = 0"
  using buffer_len_eq [of s] unfolding buffer_wf_def by (auto split: if_splits)

lemma buffer_len_le: "buffer_wf s \<Longrightarrow> buffer_len s \<le> 9"
  using buffer_len_eq [of s] unfolding buffer_wf_def by (auto split: if_splits)

lemma buffer_bytes_cong:
  "keyboard_buffer s' = keyboard_buffer s \<Longrightarrow> buff_from s' = buff_from s \<Longrightarrow> buff_to s' = buff_to s \<Longrightarrow>
   buffer_bytes s' = buffer_bytes s"
  by (simp add: buffer_bytes_def buffer_len_def)

lemma buffer_push_ok:
  assumes wf: "buffer_wf s" and nf: "\<not> is_buffer_full s"
  shows "\<exists>s'. buffer_push key s = Some s' \<and> buffer_wf s' \<and> buffer_bytes s' = buffer_bytes s @ [key] \<and>
           s' = s\<lparr>keyboard_buffer := (keyboard_buffer s)(buff_to s := key),
                  buff_to := (buff_to s + 1) mod KEYBOARD_BUFFER_SIZE\<rparr>"
proof -
  let ?s = "s\<lparr>keyboard_buffer := (keyboard_buffer s)(buff_to s := key),
               buff_to := (buff_to s + 1) mod KEYBOARD_BUFFER_SIZE\<rparr>"
  have b: "0 \<le> buff_to s" "buff_to s < 10" using wf by (simp_all add: buffer_wf_def)
  have run: "buffer_push key s = Some ?s"
    using b wrap_next [OF b] by (auto simp: buffer_push_def)
  have wf': "buffer_wf ?s" using wf by (simp add: buffer_wf_def)
  have len9: "buffer_len s < 9"
    using nf buffer_full_iff [OF wf] buffer_len_le [OF wf] by simp
  have len: "buffer_len ?s = Suc (buffer_len s)"
    using buffer_len_eq [OF wf] buffer_len_eq [OF wf'] len9 wf wrap_next [OF b]
    unfolding buffer_wf_def by (auto split: if_splits)
  have last: "(buff_from s + int (buffer_len s)) mod 10 = buff_to s"
    using buffer_len_eq [OF wf] b by (auto split: if_splits)
  have old: "(buff_from s + int k) mod 10 \<noteq> buff_to s" if "k < buffer_len s" for k
  proof
    assume "(buff_from s + int k) mod 10 = buff_to s"
    with last have "(buff_from s + int k) mod 10 = (buff_from s + int (buffer_len s)) mod 10" by simp
    then have "10 dvd (int (buffer_len s) - int k)"
      by (metis add_diff_cancel_left mod_eq_dvd_iff)
    with that len9 show False by (auto dest: zdvd_imp_le)
  qed
  have "buffer_bytes ?s = buffer_bytes s @ [key]"
    unfolding buffer_bytes_def len using old last by (simp add: fun_upd_apply)
  then show ?thesis using run wf' by blast
qed

lemma write_byte_buff_from:
  "write_byte (s\<lparr>buff_from := x\<rparr>) a b = map_option (\<lambda>s'. s'\<lparr>buff_from := x\<rparr>) (write_byte s a b)"
  by (cases "translate s a")
    (simp_all add: write_byte_def translate_def table_entry_def dir_entry_def PT_row_def)

lemma write_bytes_buff_from:
  "write_bytes write_byte (s\<lparr>buff_from := x\<rparr>) a bs =
     map_option (\<lambda>s'. s'\<lparr>buff_from := x\<rparr>) (write_bytes write_byte s a bs)"
proof (induction bs arbitrary: s a)
  case (Cons b bs)
  then show ?case by (cases "write_byte s a b") (simp_all add: write_byte_buff_from)
qed simp

lemma write_byte_pmem: "write_byte s a b = Some s' \<Longrightarrow> \<exists>m. s' = s\<lparr>pmem := m\<rparr>"
  by (auto simp: write_byte_def)

text \<open>Reading takes the oldest bytes of the buffer, as many as there are or as are wanted, and
  stores them in order.\<close>

lemma read_loop_ok:
  "buffer_wf s \<Longrightarrow>
   read_loop buffer n cnt s =
     do { s1 \<leftarrow> write_bytes write_byte s (buffer + of_nat cnt) (take n (buffer_bytes s));
          Some (cnt + min n (buffer_len s),
                s1\<lparr>buff_from := (buff_from s + int (min n (buffer_len s))) mod KEYBOARD_BUFFER_SIZE\<rparr>) }"
proof (induction n arbitrary: cnt s)
  case 0
  then show ?case by (simp add: buffer_wf_def)
next
  case (Suc n)
  have f: "0 \<le> buff_from s" "buff_from s < 10" using Suc.prems by (simp_all add: buffer_wf_def)
  show ?case
  proof (cases "buffer_len s")
    case 0
    with Suc.prems f show ?thesis by (simp add: buffer_empty_iff buffer_bytes_def)
  next
    case (Suc l)
    have ne: "buff_from s \<noteq> buff_to s" using Suc Suc.prems buffer_empty_iff by simp
    let ?g = "(buff_from s + 1) mod 10"
    have bytes: "buffer_bytes s = keyboard_buffer s (buff_from s) # buffer_bytes (s\<lparr>buff_from := ?g\<rparr>)"
      and len: "buffer_len (s\<lparr>buff_from := ?g\<rparr>) = l" and wf: "buffer_wf (s\<lparr>buff_from := ?g\<rparr>)"
    proof -
      show wf: "buffer_wf (s\<lparr>buff_from := ?g\<rparr>)" using Suc.prems by (simp add: buffer_wf_def)
      show len: "buffer_len (s\<lparr>buff_from := ?g\<rparr>) = l"
        using buffer_len_eq [OF Suc.prems] buffer_len_eq [OF wf] Suc wrap_next [OF f] ne Suc.prems
        unfolding buffer_wf_def by (auto split: if_splits)
      show "buffer_bytes s = keyboard_buffer s (buff_from s) # buffer_bytes (s\<lparr>buff_from := ?g\<rparr>)"
        unfolding buffer_bytes_def len Suc using f
        by (simp add: upt_conv_Cons map_Suc_upt [symmetric] mod_simps ac_simps del: upt_Suc)
    qed
    show ?thesis
    proof (cases "write_byte s (buffer + of_nat cnt) (keyboard_buffer s (buff_from s))")
      case None
      then show ?thesis using ne f bytes by simp
    next
      case (Some s1)
      then obtain m where m: "s1 = s\<lparr>pmem := m\<rparr>" using write_byte_pmem by blast
      have same: "buffer_bytes (s\<lparr>pmem := m, buff_from := ?g\<rparr>) = buffer_bytes (s\<lparr>buff_from := ?g\<rparr>)"
        "buffer_len (s\<lparr>pmem := m, buff_from := ?g\<rparr>) = l"
        using len by (simp_all add: buffer_bytes_def buffer_len_def)
      have wf1: "buffer_wf (s\<lparr>pmem := m, buff_from := ?g\<rparr>)" using wf by (simp add: buffer_wf_def)
      have "read_loop buffer (Suc n) cnt s = read_loop buffer n (cnt + 1) (s\<lparr>pmem := m, buff_from := ?g\<rparr>)"
        using ne f Some m wrap_next [OF f] by (auto split: if_splits)
      also have "\<dots> = do { s2 \<leftarrow> write_bytes write_byte (s\<lparr>pmem := m, buff_from := ?g\<rparr>)
              (buffer + of_nat (cnt + 1)) (take n (buffer_bytes (s\<lparr>buff_from := ?g\<rparr>)));
            Some (cnt + 1 + min n l, s2\<lparr>buff_from := (?g + int (min n l)) mod 10\<rparr>) }"
        using Suc.IH [OF wf1, of "cnt + 1"] by (simp add: same)
      also have "\<dots> = do { s2 \<leftarrow> write_bytes write_byte (s\<lparr>pmem := m\<rparr>)
              (buffer + of_nat (cnt + 1)) (take n (buffer_bytes (s\<lparr>buff_from := ?g\<rparr>)));
            Some (cnt + 1 + min n l, s2\<lparr>buff_from := (?g + int (min n l)) mod 10\<rparr>) }"
        using write_bytes_buff_from [of ?g "s\<lparr>pmem := m\<rparr>"]
        by (cases "write_bytes write_byte (s\<lparr>pmem := m\<rparr>)
              (buffer + of_nat (cnt + 1)) (take n (buffer_bytes (s\<lparr>buff_from := ?g\<rparr>)))") simp_all
      finally show ?thesis
        using Some m bytes Suc by (simp add: mod_simps ac_simps)
    qed
  qed
qed

lemma buffer_bytes_advance:
  assumes wf: "buffer_wf s" and n: "n \<le> buffer_len s"
  shows "buffer_bytes (s\<lparr>buff_from := (buff_from s + int n) mod KEYBOARD_BUFFER_SIZE\<rparr>) = drop n (buffer_bytes s)"
    and "buffer_wf (s\<lparr>buff_from := (buff_from s + int n) mod KEYBOARD_BUFFER_SIZE\<rparr>)"
proof -
  let ?s = "s\<lparr>buff_from := (buff_from s + int n) mod KEYBOARD_BUFFER_SIZE\<rparr>"
  show wf': "buffer_wf ?s" using wf by (simp add: buffer_wf_def)
  have "(buff_to s - (buff_from s + int n) mod 10) mod 10 = ((buff_to s - buff_from s) mod 10 - int n) mod 10"
    by (simp add: mod_simps algebra_simps)
  also have "\<dots> = (int (buffer_len s) - int n) mod 10" by (simp add: buffer_len_def)
  also have "\<dots> = int (buffer_len s) - int n"
    using n buffer_len_le [OF wf] by (intro mod_pos_pos_trivial) auto
  finally have len: "buffer_len ?s = buffer_len s - n"
    using n by (simp add: buffer_len_def [of ?s])
  show "buffer_bytes ?s = drop n (buffer_bytes s)"
    unfolding buffer_bytes_def len by (rule nth_equalityI) (auto simp: mod_simps ac_simps)
qed

end
