(* ===== verification/Syscalls.thy ===== *)
theory Syscalls
  imports Process Heap Console Keyboard
begin

text \<open>
  The remaining system calls of \<^verbatim>\<open>sys.c\<close>, the table of \<^verbatim>\<open>sys_call_table.S\<close> and the system call
  handler of \<^verbatim>\<open>entry.S\<close>.
\<close>

section \<open>Simple calls\<close>

abbreviation (input) "READ_OPERATION \<equiv> (0 :: dword)"
abbreviation (input) "WRITE_OPERATION \<equiv> (1 :: dword)"

definition check_fd :: "dword \<Rightarrow> dword \<Rightarrow> dword" where
  "check_fd fd permissions =
     (if fd \<noteq> 0 \<and> fd \<noteq> 1 then - EBADF
      else if fd = 1 \<and> permissions \<noteq> WRITE_OPERATION then - EBADF
      else if fd = 0 \<and> permissions \<noteq> READ_OPERATION then - EBADF
      else 0)"

definition sys_ni_syscall :: dword where
  "sys_ni_syscall = - ENOSYS"

definition sys_getpid :: "kstate \<Rightarrow> dword" where
  "sys_getpid s = PID (tasks s (current s))"

definition sys_gettime :: "kstate \<Rightarrow> dword" where
  "sys_gettime s = zeos_ticks s"

text \<open>The bytes of a \<^verbatim>\<open>struct stats\<close>: its seven counters in the order of the declaration.\<close>

definition stats_bytes :: "stats \<Rightarrow> byte list" where
  "stats_bytes x = concat (map dword_bytes
     [user_ticks x, system_ticks x, blocked_ticks x, ready_ticks x, elapsed_total_ticks x,
      total_trans x, remaining_ticks x])"

text \<open>The loop over the task array, from index \<open>i\<close> with \<open>n\<close> tasks left.\<close>

fun get_stats_from :: "nat \<Rightarrow> nat \<Rightarrow> dword \<Rightarrow> dword \<Rightarrow> kstate \<Rightarrow> (dword \<times> kstate) option" where
  "get_stats_from i 0 pid p s = Some (- ESRCH, s)"
| "get_stats_from i (Suc n) pid p s =
     (if PID (tasks s i) = pid
      then if state (tasks s i) = ST_INVALID then Some (- ESRCH, s)
           else do { s \<leftarrow> (if state (tasks s i) = ST_READY \<or> state (tasks s i) = ST_BLOCKED
                           then update_stats i REFRESH s else Some s);
                     s \<leftarrow> write_bytes write_byte s p (stats_bytes (st (tasks s i)));
                     Some (0, s) }
      else get_stats_from (Suc i) n pid p s)"

definition sys_get_stats :: "dword \<Rightarrow> dword \<Rightarrow> kstate \<Rightarrow> (dword \<times> kstate) option" where
  "sys_get_stats pid p s =
     (if pid <s 0 then Some (- EINVAL, s)
      else if p = 0 \<or> \<not> access_ok VERIFY_WRITE p 28 s then Some (- EFAULT, s)
      else get_stats_from 0 NR_TASKS pid p s)"

section \<open>Reading and writing\<close>

abbreviation (input) "CHUNK_SIZE \<equiv> (256 :: int)"

text \<open>
  \<^verbatim>\<open>copy_from_user\<close> into the local array \<^verbatim>\<open>buffer_copy\<close>: the same loops, with the writes going to
  a list of 256 bytes. The buffer is not checked, so it may be in the kernel. There the byte is that of \<open>pmem\<close>, which holds the
  kernel's stacks but not the variables that are fields of \<open>kstate\<close>: what a \<^verbatim>\<open>write\<close> of kernel data prints is not modelled.
\<close>

definition copy_to_local :: "dword \<Rightarrow> int \<Rightarrow> byte list \<Rightarrow> kstate \<Rightarrow> byte list option" where
  "copy_to_local start sz buffer_copy s =
     copy_loop (\<lambda>b a. read_byte s a)
       (\<lambda>b a x. if unat a < length b then Some (b[unat a := x]) else None)
       start 0 sz buffer_copy"

function sys_write_loop :: "dword \<Rightarrow> int \<Rightarrow> int \<Rightarrow> byte list \<Rightarrow> kstate \<Rightarrow> kstate option" where
  "sys_write_loop buffer sz offset buffer_copy s =
     (if offset < sz \<and> 0 < sz
      then let move_size = min sz CHUNK_SIZE
           in do { buffer_copy \<leftarrow> copy_to_local (buffer + of_int offset) move_size buffer_copy s;
                   s \<leftarrow> sys_write_console buffer_copy move_size s;
                   sys_write_loop buffer sz (offset + move_size) buffer_copy s }
      else Some s)"
  by pat_completeness auto
termination
  by (relation "measure (\<lambda>(buffer, sz, offset, b, s). nat (sz - offset))") auto

declare sys_write_loop.simps [simp del]

definition sys_write :: "dword \<Rightarrow> dword \<Rightarrow> dword \<Rightarrow> byte list \<Rightarrow> kstate \<Rightarrow> (dword \<times> kstate) option" where
  "sys_write fd buffer sz buffer_copy s =
     (let error = check_fd fd WRITE_OPERATION
      in if error <s 0 then Some (error, s)
         else if buffer = 0 then Some (- EFAULT, s)
         else if sz <s 0 then Some (- EINVAL, s)
         else do { s \<leftarrow> sys_write_loop buffer (sint sz) 0 buffer_copy s; Some (sz, s) })"

definition sys_read :: "dword \<Rightarrow> dword \<Rightarrow> dword \<Rightarrow> kstate \<Rightarrow> (sysret \<times> kstate) option" where
  "sys_read fd buffer sz s =
     (let error = check_fd fd READ_OPERATION
      in if error <s 0 then Some (Ret error, s)
         else if buffer = 0 then Some (Ret (- EFAULT), s)
         else if sz <s 0 then Some (Ret (- EINVAL), s)
         else if \<not> access_ok VERIFY_WRITE buffer sz s then Some (Ret (- EFAULT), s)
         else sys_read_keyboard buffer sz s)"

section \<open>Dispatch\<close>

abbreviation (input) "MAX_SYSCALL \<equiv> (36 :: dword)"

definition returning :: "(dword \<times> kstate) option \<Rightarrow> (sysret \<times> kstate) option" where
  "returning r = map_option (\<lambda>(x, s). (Ret x, s)) r"

text \<open>
  The table, applied to the three arguments \<^verbatim>\<open>ebx\<close>, \<^verbatim>\<open>ecx\<close> and \<^verbatim>\<open>edx\<close>. The uninitialised local
  array of \<^verbatim>\<open>sys_write\<close> is given as a list of 256 bytes.
\<close>

definition sys_call_table ::
  "nat \<Rightarrow> dword \<Rightarrow> dword \<Rightarrow> dword \<Rightarrow> byte list \<Rightarrow> kstate \<Rightarrow> (sysret \<times> kstate) option" where
  "sys_call_table n ebx ecx edx loc s =
     (if n = 1 then map_option (\<lambda>s. (Switched, s)) (sys_exit s)
      else if n = 2 then returning (sys_fork s)
      else if n = 4 then returning (sys_write ebx ecx edx loc s)
      else if n = 5 then sys_read ebx ecx edx s
      else if n = 10 then Some (Ret (sys_gettime s), s)
      else if n = 19 then returning (sys_clone ebx ecx edx s)
      else if n = 20 then Some (Ret (sys_getpid s), s)
      else if n = 21 then returning (sys_sem_init ebx ecx s)
      else if n = 22 then sys_sem_wait ebx s
      else if n = 23 then returning (sys_sem_signal ebx s)
      else if n = 24 then returning (sys_sem_destroy ebx s)
      else if n = 25 then returning (sys_sbrk ebx s)
      else if n = 35 then returning (sys_get_stats ebx ecx s)
      else Some (Ret sys_ni_syscall, s))"

text \<open>After a call that has returned: the statistics, and the value for the saved \<^verbatim>\<open>eax\<close>.\<close>

definition leave_call :: "sysret \<Rightarrow> kstate \<Rightarrow> (sysret \<times> kstate) option" where
  "leave_call r s =
     (case r of Ret x \<Rightarrow> do { s \<leftarrow> update_leaving_sys s; Some (Ret x, s) } | Switched \<Rightarrow> Some (Switched, s))"

definition system_call_handler ::
  "dword \<Rightarrow> dword \<Rightarrow> dword \<Rightarrow> dword \<Rightarrow> byte list \<Rightarrow> kstate \<Rightarrow> (sysret \<times> kstate) option" where
  "system_call_handler eax ebx ecx edx loc s =
     (if eax <s 0 \<or> MAX_SYSCALL <=s eax then Some (Ret (- ENOSYS), s)
      else do { s \<leftarrow> update_entering_sys s;
                (r, s) \<leftarrow> sys_call_table (unat eax) ebx ecx edx loc s;
                leave_call r s })"

end
