(* ===== verification/Fault.thy ===== *)
theory Fault
  imports Access
begin

text \<open>
  The page fault routine \<^verbatim>\<open>pf_rsi\<close> of \<^verbatim>\<open>sys.c\<close>, which gives a process its own copy of a page it
  writes to. Its three endless loops \<^verbatim>\<open>while(1);\<close> are \<open>None\<close>; so the messages it writes on the screen before them, after which nothing
  else runs, are in no state.
\<close>

definition pf_rsi :: "dword \<Rightarrow> kstate \<Rightarrow> kstate option" where
  "pf_rsi address s =
     (if \<not> access_ok VERIFY_WRITE address 1 s then None
      else
        let log_page = unat (signed_drop_bit 12 address)
        in do {
          pt \<leftarrow> get_PT s (current s);
          frame \<leftarrow> get_frame pt log_page s;
          assert (frame < TOTAL_PAGES);
          if cow_count_mem s frame = 1
          then set_ss_pag pt log_page frame (s\<lparr>cow_count_mem := (cow_count_mem s)(frame := 0)\<rparr>)
          else if 2 \<le> cow_count_mem s frame
          then do {
            s \<leftarrow> Some (s\<lparr>cow_count_mem := (cow_count_mem s)(frame := cow_count_mem s frame - 1)\<rparr>);
            let (frame_new, s) = alloc_frame s
            in if frame_new = -1 then None
               else do { s \<leftarrow> copy_frame pt log_page (nat frame_new) s;
                         set_ss_pag pt log_page (nat frame_new) s } }
          else None })"

end
