(* ===== verification/Kernel.thy ===== *)
theory Kernel
  imports Syscalls Fault
begin

text \<open>
  The kernel as a machine. Between two steps the current task is in user mode (or in the idle
  loop), or it has just been switched to and will continue where \<open>kpc\<close> says; interrupts are off
  in the kernel, so a step runs to the end of a handler or to the next switch. The handlers are
  those of \<^verbatim>\<open>entry.S\<close>, here with what they do to the variables of the kernel. The frame of the interrupt, the words that \<^verbatim>\<open>SAVE_ALL\<close>
  pushes on the stack of the current task and takes back, the error code of a page fault and the end of interrupt sent to the controller
  are not in \<open>system_call_handler\<close>, \<open>clock_handler\<close>, \<open>keyboard_handler\<close> and \<open>pf_handler\<close> but in the definitions of \<open>Entry\<close>
  around the same C functions (\<open>system_call_asm\<close>, \<open>clock_asm\<close>, \<open>keyboard_asm\<close>, \<open>pf_asm\<close>).
\<close>

section \<open>Interrupt handlers\<close>

text \<open>\<^verbatim>\<open>zeos_show_clock\<close> belongs to a binary library and is a parameter.\<close>

definition clock_routine :: "(kstate \<Rightarrow> kstate) \<Rightarrow> kstate \<Rightarrow> kstate option" where
  "clock_routine zeos_show_clock s =
     (if state (tasks s (current s)) = ST_RUN
      then do { s \<leftarrow> Some (s\<lparr>zeos_ticks := zeos_ticks s + 1\<rparr>);
                s \<leftarrow> Some (zeos_show_clock s);
                execute_scheduling s }
      else Some s)"

text \<open>
  \<^verbatim>\<open>clock_handler\<close> and \<^verbatim>\<open>keyboard_handler\<close>. If the routine has switched away from the interrupted
  task, which has then been left with another \<open>kpc\<close>, the rest of the handler is not executed
  now but when that task runs again.
\<close>

definition irq_handler :: "(kstate \<Rightarrow> kstate option) \<Rightarrow> kstate \<Rightarrow> kstate option" where
  "irq_handler routine s =
     do { s1 \<leftarrow> update_entering_sys s;
          s2 \<leftarrow> routine s1;
          if kpc s2 (current s) = kpc s (current s) then update_leaving_sys s2 else Some s2 }"

definition clock_handler :: "(kstate \<Rightarrow> kstate) \<Rightarrow> kstate \<Rightarrow> kstate option" where
  "clock_handler zeos_show_clock s = irq_handler (clock_routine zeos_show_clock) s"

definition keyboard_handler :: "byte \<Rightarrow> kstate \<Rightarrow> kstate option" where
  "keyboard_handler value s = irq_handler (keyboard_routine value) s"

definition pf_handler :: "dword \<Rightarrow> kstate \<Rightarrow> kstate option" where
  "pf_handler cr2 s = pf_rsi cr2 s"

section \<open>Continuing after a switch\<close>

text \<open>
  The rest of the code of the current task up to user mode, or to the next switch. The result is
  the value a system call leaves in \<^verbatim>\<open>eax\<close>; \<open>None\<close> where there is no such value. The new thread of
  \<^verbatim>\<open>sys_clone\<close> leaves with the value of a register that nobody reads.
\<close>

definition running :: "kstate \<Rightarrow> nat \<Rightarrow> kcont" where
  "running s t = (if idle_task s = Some t then Idle_loop else User_mode)"

definition eax_of :: "sysret \<Rightarrow> dword option" where
  "eax_of r = (case r of Ret x \<Rightarrow> Some x | Switched \<Rightarrow> None)"

definition finish_call :: "(sysret \<times> kstate) option \<Rightarrow> (dword option \<times> kstate) option" where
  "finish_call r = do { (x, s) \<leftarrow> r; (x, s) \<leftarrow> leave_call x s; Some (eax_of x, s) }"

definition resume :: "kstate \<Rightarrow> (dword option \<times> kstate) option" where
  "resume s =
     (let t = current s;
          s1 = s\<lparr>kpc := (kpc s)(t := running s t)\<rparr>
      in case kpc s t of
           Irq_exit \<Rightarrow> do { s \<leftarrow> update_leaving_sys s1; Some (None, s) }
         | Fork_child \<Rightarrow> finish_call (Some (Ret 0, s1))
         | Clone_child \<Rightarrow> do { s \<leftarrow> update_leaving_sys s1; Some (None, s) }
         | Sem_wait_exit \<Rightarrow> (let (x, s) = sem_wait_exit s1 in finish_call (Some (Ret x, s)))
         | Read_first buffer total_size \<Rightarrow> finish_call (sys_read_keyboard_first buffer total_size s1)
         | Read_more buffer sz total_size \<Rightarrow> finish_call (sys_read_keyboard_more buffer sz total_size s1)
         | _ \<Rightarrow> None)"

section \<open>Steps\<close>

text \<open>
  What can happen: the current task makes a system call, faults, or writes to its memory; an
  interrupt arrives; or a task that was switched to continues. \<open>loc\<close> is the content of the
  uninitialised local array of \<^verbatim>\<open>sys_write\<close>. There is no event for the trap 0x82, which \<^verbatim>\<open>zeos_init_auxjp\<close> of the
  prebuilt library installs for user programs and whose handlers move tasks between the kernel's lists: the steps are those of runs
  in which no program uses it.
\<close>

datatype kevent =
    Syscall dword dword dword dword "byte list"
  | Page_fault dword
  | User_store dword byte
  | Clock
  | Key byte
  | Continue

definition kernel_step :: "(kstate \<Rightarrow> kstate) \<Rightarrow> kevent \<Rightarrow> kstate \<Rightarrow> kstate option" where
  "kernel_step zeos_show_clock e s =
     (let k = kpc s (current s)
      in case e of
           Syscall eax ebx ecx edx loc \<Rightarrow>
             (if k = User_mode then map_option snd (system_call_handler eax ebx ecx edx loc s) else None)
         | Page_fault address \<Rightarrow> (if k = User_mode then pf_handler address s else None)
         | User_store address b \<Rightarrow> (if k = User_mode then user_write s address b else None)
         | Clock \<Rightarrow> (if k = User_mode \<or> k = Idle_loop then clock_handler zeos_show_clock s else None)
         | Key value \<Rightarrow> (if k = User_mode \<or> k = Idle_loop then keyboard_handler value s else None)
         | Continue \<Rightarrow> map_option snd (resume s))"

inductive kstep :: "(kstate \<Rightarrow> kstate) \<Rightarrow> kstate \<Rightarrow> kstate \<Rightarrow> bool" for zeos_show_clock where
  kstep: "kernel_step zeos_show_clock e s = Some s' \<Longrightarrow> kstep zeos_show_clock s s'"

inductive_cases kstepE: "kstep zeos_show_clock s s'"

inductive_simps kstep_simps: "kstep zeos_show_clock s s'"

end
