(* ===== verification/Paging_Proofs.thy ===== *)
theory Paging_Proofs
  imports Paging
begin

text \<open>
  What the paging operations of \<^verbatim>\<open>mm.c\<close> do to page tables and frames, in closed form, and the
  frame \<open>mm_only\<close> of the operations that touch nothing else.
\<close>

section \<open>Frames of the operations\<close>

text \<open>\<open>s'\<close> differs from \<open>s\<close> in the page tables and the map of frames at most.\<close>

definition mm_only :: "kstate \<Rightarrow> kstate \<Rightarrow> bool" where
  "mm_only s s' \<longleftrightarrow>
     s'\<lparr>pagusr_table := pagusr_table s, phys_mem := phys_mem s, cow_count_mem := cow_count_mem s\<rparr> = s"

lemma mm_only_refl [simp]: "mm_only s s"
  by (simp add: mm_only_def)

lemma mm_onlyE:
  assumes "mm_only s s'"
  obtains T m c where "s' = s\<lparr>pagusr_table := T, phys_mem := m, cow_count_mem := c\<rparr>"
proof -
  from assms have "s' = s\<lparr>pagusr_table := pagusr_table s', phys_mem := phys_mem s', cow_count_mem := cow_count_mem s'\<rparr>"
    by (cases s; cases s') (simp add: mm_only_def)
  then show ?thesis by (rule that)
qed

lemma mm_only_upd [simp]:
  "mm_only s (s1\<lparr>pagusr_table := T\<rparr>) = mm_only s s1"
  "mm_only s (s1\<lparr>phys_mem := m\<rparr>) = mm_only s s1"
  "mm_only s (s1\<lparr>cow_count_mem := c\<rparr>) = mm_only s s1"
  by (cases s; cases s1; simp add: mm_only_def)+

lemma mm_only_trans [trans]: "mm_only s s1 \<Longrightarrow> mm_only s1 s2 \<Longrightarrow> mm_only s s2"
  by (elim mm_onlyE) simp

lemma mm_only_fields:
  assumes "mm_only s s'"
  shows "links s' = links s" "tasks s' = tasks s" "semaphores s' = semaphores s" "idle_task s' = idle_task s"
    "current s' = current s" "kpc s' = kpc s" "cr3 s' = cr3 s" "dir_status s' = dir_status s"
    "dir_pages s' = dir_pages s" "pagusr_table_addr s' = pagusr_table_addr s" "tasks_addr s' = tasks_addr s"
    "pmem s' = pmem s" "last_PID s' = last_PID s" "current_ticks s' = current_ticks s"
    "PT_row s' = PT_row s" "get_PT s' = get_PT s" "get_DIR s' = get_DIR s"
  using assms by (auto elim!: mm_onlyE simp: PT_row_def get_PT_def get_DIR_def fun_eq_iff)

section \<open>Entries\<close>

lemma upd_pte_ok:
  "pt < NR_TASKS \<Longrightarrow> page < TOTAL_PAGES \<Longrightarrow>
   upd_pte pt page f s = Some (s\<lparr>pagusr_table := (pagusr_table s)
     (pt := (pagusr_table s pt)(page := f (pagusr_table s pt page)))\<rparr>)"
  by (simp add: upd_pte_def)

text \<open>The entries the kernel builds for user pages.\<close>

definition user_pte :: "nat \<Rightarrow> bool \<Rightarrow> page_table_entry" where
  "user_pte frame rw =
     set_pte_present True (set_pte_rw rw (set_pte_user True (set_pte_pbase_addr (of_nat frame) 0)))"

lemma user_pte_bits [simp]:
  "pte_present (user_pte f rw)" "pte_user (user_pte f rw)" "pte_rw (user_pte f rw) = rw"
  "pte_pbase_addr (user_pte f rw) = take_bit 20 (of_nat f)"
  by (simp_all add: user_pte_def)

lemma user_pte_frame: "f < TOTAL_PAGES \<Longrightarrow> unat (pte_pbase_addr (user_pte f rw)) = f"
  by (simp add: unsigned_take_bit_eq unsigned_of_nat take_bit_nat_eq_self)

lemma set_rw_user_pte [simp]: "set_pte_rw b (user_pte f rw) = user_pte f b"
  by (rule bit_word_eqI) (auto simp: user_pte_def pte_defs bit_simps)

lemma set_pte_rw_False_zero: "\<not> pte_rw e \<Longrightarrow> set_pte_rw False e = e"
  by (rule bit_word_eqI) (auto simp: pte_defs bit_simps)

lemma set_ss_pag_ok:
  "pt < NR_TASKS \<Longrightarrow> page < TOTAL_PAGES \<Longrightarrow>
   set_ss_pag pt page frame s = Some (s\<lparr>pagusr_table := (pagusr_table s)
     (pt := (pagusr_table s pt)(page := user_pte frame True))\<rparr>)"
  by (simp add: set_ss_pag_def upd_pte_ok user_pte_def)

lemma set_ro_page_ok:
  "pt < NR_TASKS \<Longrightarrow> page < TOTAL_PAGES \<Longrightarrow>
   set_ro_page pt page s = Some (s\<lparr>pagusr_table := (pagusr_table s)
     (pt := (pagusr_table s pt)(page := set_pte_rw False (pagusr_table s pt page)))\<rparr>)"
  by (simp add: set_ro_page_def upd_pte_ok)

lemma del_ss_pag_ok:
  "pt < NR_TASKS \<Longrightarrow> page < TOTAL_PAGES \<Longrightarrow>
   del_ss_pag pt page s = Some (s\<lparr>pagusr_table := (pagusr_table s)
     (pt := (pagusr_table s pt)(page := 0))\<rparr>)"
  by (simp add: del_ss_pag_def upd_pte_ok)

lemma get_frame_ok:
  "pt < NR_TASKS \<Longrightarrow> page < TOTAL_PAGES \<Longrightarrow>
   get_frame pt page s = Some (unat (pte_pbase_addr (pagusr_table s pt page)))"
  by (simp add: get_frame_def)

lemma alloc_frame_mm:
  assumes "alloc_frame s = (r, s')"
  shows "mm_only s s'" "pagusr_table s' = pagusr_table s" "cow_count_mem s' 0 = cow_count_mem s 0"
proof -
  have "s' = s \<or> (\<exists>m c. s' = s\<lparr>phys_mem := m, cow_count_mem := c\<rparr> \<and> c 0 = cow_count_mem s 0)"
  proof (cases "r = -1")
    case True
    then show ?thesis using alloc_frame_fail [of s s'] assms by simp
  next
    case False
    obtain f where "f \<in> frame_pool" "s' = s\<lparr>phys_mem := (phys_mem s)(f := USED_FRAME),
        cow_count_mem := (cow_count_mem s)(f := 0)\<rparr>"
      using alloc_frame_ok [OF assms False] by blast
    moreover have "f \<noteq> 0" using calculation(1) by (auto simp: frame_pool_def)
    ultimately show ?thesis
      by (intro disjI2 exI [of _ "(phys_mem s)(f := USED_FRAME)"] exI [of _ "(cow_count_mem s)(f := 0)"]) simp
  qed
  then show "mm_only s s'" "pagusr_table s' = pagusr_table s" "cow_count_mem s' 0 = cow_count_mem s 0" by auto
qed

section \<open>Sharing a page\<close>

text \<open>Both tables map the frame of the source, read-only; the counter is that of a shared frame.\<close>

definition cow_next :: "byte \<Rightarrow> byte" where
  "cow_next c = (if c = 0 then 2 else c + 1)"

lemma share_cow_page_ok:
  assumes pt: "src < NR_TASKS" "dst < NR_TASKS" "src \<noteq> dst" and page: "page < TOTAL_PAGES"
    and f: "f = unat (pte_pbase_addr (pagusr_table s src page))" "f < TOTAL_PAGES"
  shows "share_cow_page src dst page s = Some (s\<lparr>
           cow_count_mem := (cow_count_mem s)(f := cow_next (cow_count_mem s f)),
           pagusr_table := (pagusr_table s)
             (dst := (pagusr_table s dst)(page := user_pte f False),
              src := (pagusr_table s src)(page := set_pte_rw False (pagusr_table s src page)))\<rparr>)"
proof -
  have c: "cow_count_mem s f + 1 = 1 \<longleftrightarrow> cow_count_mem s f = 0" by simp
  show ?thesis
    using pt page f(2)
    by (simp add: share_cow_page_def get_frame_ok flip: f(1))
      (auto simp: set_ss_pag_ok set_ro_page_ok cow_next_def fun_upd_twist intro!: kstate.equality)
qed

end
