(* ===== verification/Kernel_Map.thy ===== *)
theory Kernel_Map
  imports Paging_Proofs
begin

text \<open>
  The kernel's own address space: where the linker puts the task array and the page tables,
  what the page tables hold for the kernel's pages, and that these pages, the kernel stacks in
  particular, translate to themselves under every directory.
\<close>

section \<open>Layout\<close>

text \<open>
  What the linker provides: the task array with its two guard pages and the page tables lie in
  the kernel's first megabyte, on page boundaries.
\<close>

definition layout_ok :: "kstate \<Rightarrow> bool" where
  "layout_ok s \<longleftrightarrow>
     (\<exists>p q. tasks_addr s = of_nat (p * PAGE_SIZE) \<and> 2 \<le> p \<and> p + 11 \<le> NUM_PAG_KERNEL \<and>
            pagusr_table_addr s = of_nat (q * PAGE_SIZE) \<and> q + NR_TASKS \<le> NUM_PAG_KERNEL)"

section \<open>Entries of the kernel\<close>

definition kernel_pte :: "nat \<Rightarrow> page_table_entry" where
  "kernel_pte i = set_pte_present True (set_pte_rw True (set_pte_pbase_addr (of_nat i) 0))"

text \<open>
  The kernel's part of a page table after \<^verbatim>\<open>init_table_pages\<close>; \<open>p\<close> is the page of \<^verbatim>\<open>tasks[0]\<close>,
  whose neighbours below and above the task array are the guard pages.
\<close>

definition kernel_row :: "nat \<Rightarrow> (nat \<Rightarrow> page_table_entry) \<Rightarrow> bool" where
  "kernel_row p tb \<longleftrightarrow>
     (\<forall>i<NUM_PAG_KERNEL. tb i =
        (let e = if 1 \<le> i then kernel_pte i else 0
         in if i = p - 1 \<or> i = p + 10 then set_pte_present False e else e))"

lemma page_of_addr:
  assumes "p < 2 ^ 20"
  shows "unat (drop_bit 12 (of_nat (p * PAGE_SIZE) :: dword)) = p"
proof -
  have small: "p * PAGE_SIZE < 2 ^ 32" using assms by simp
  then have "unat (of_nat (p * PAGE_SIZE) :: dword) = p * PAGE_SIZE"
    by (simp only: unsigned_of_nat) (simp add: take_bit_nat_eq_self)
  then show ?thesis
    using small by (simp only: unsigned_drop_bit_eq) (simp add: drop_bit_eq_div take_bit_nat_eq_self)
qed

text \<open>Entry 0 of directory \<open>i\<close> points to row \<open>i\<close> of the page tables, for user and kernel alike.\<close>

definition dir_pte :: "kstate \<Rightarrow> nat \<Rightarrow> page_table_entry" where
  "dir_pte s i = set_pte_present True (set_pte_rw True (set_pte_user True
     (set_pte_pbase_addr (drop_bit 12 (pagusr_table_addr s + of_nat (i * PAGE_SIZE))) 0)))"

lemma page_addr_unat: "p < 2 ^ 20 \<Longrightarrow> unat (of_nat (p * PAGE_SIZE) :: dword) = p * PAGE_SIZE"
  by (simp only: unsigned_of_nat) (simp add: take_bit_nat_eq_self)

lemma push_drop_page:
  assumes "p < 2 ^ 20"
  shows "push_bit 12 (take_bit 20 (drop_bit 12 (of_nat (p * PAGE_SIZE) :: dword))) = of_nat (p * PAGE_SIZE)"
proof -
  have "drop_bit 12 (of_nat (p * PAGE_SIZE) :: dword) = of_nat p"
    using arg_cong [OF page_of_addr [OF assms], of "of_nat :: nat \<Rightarrow> dword"] by simp
  moreover have "take_bit 20 (of_nat p :: dword) = of_nat p"
    using assms by (simp add: take_bit_of_nat take_bit_nat_eq_self flip: of_nat_take_bit)
  ultimately show ?thesis by (simp add: push_bit_eq_mult)
qed

lemma PT_row_dir_pte:
  assumes "layout_ok s" "i < NR_TASKS"
  shows "PT_row s (dir_pte s i) = i" "pte_present (dir_pte s i)"
proof -
  obtain q where q: "pagusr_table_addr s = of_nat (q * PAGE_SIZE)" "q + NR_TASKS \<le> NUM_PAG_KERNEL"
    using assms(1) by (auto simp: layout_ok_def)
  have a: "pagusr_table_addr s + of_nat (i * PAGE_SIZE) = of_nat ((q + i) * PAGE_SIZE)"
    using q(1) by (simp add: algebra_simps)
  have "push_bit 12 (pte_pbase_addr (dir_pte s i)) = of_nat ((q + i) * PAGE_SIZE)"
    unfolding dir_pte_def a pte_pbase_addr_set
    by (rule push_drop_page) (use q(2) assms(2) in simp)
  then have "push_bit 12 (pte_pbase_addr (dir_pte s i)) - pagusr_table_addr s = of_nat (i * PAGE_SIZE)"
    using a by (simp add: algebra_simps)
  then show "PT_row s (dir_pte s i) = i"
    using page_addr_unat [of i] assms(2) by (simp add: PT_row_def)
  show "pte_present (dir_pte s i)" by (simp add: dir_pte_def)
qed

section \<open>The kernel's own pages\<close>

text \<open>An address below 4 MB, given as page and offset, and its parts.\<close>

lemma address_parts:
  assumes "pg < TOTAL_PAGES" "off < PAGE_SIZE"
  defines "a \<equiv> of_nat (pg * PAGE_SIZE + off) :: dword"
  shows "unat (drop_bit 22 a) = 0" "unat (take_bit 10 (drop_bit 12 a)) = pg" "drop_bit 12 a = of_nat pg"
    "take_bit 12 a = of_nat off" "unat a = pg * PAGE_SIZE + off"
proof -
  define n where "n = pg * PAGE_SIZE + off"
  have n: "n < 2 ^ 22" using assms(1,2) by (simp add: n_def)
  have a: "a = of_nat n" by (simp add: a_def n_def)
  have u: "unat a = n" unfolding a using n by (intro sint_of_nat_small) simp
  then show "unat a = pg * PAGE_SIZE + off" by (simp add: n_def)
  show "unat (drop_bit 22 a) = 0"
    using n by (simp only: unsigned_drop_bit_eq u) (simp add: drop_bit_eq_div take_bit_nat_eq_self)
  have d: "unat (drop_bit 12 a) = pg"
    using n assms(1,2) by (simp only: unsigned_drop_bit_eq u) (simp add: drop_bit_eq_div take_bit_nat_eq_self n_def)
  then have "of_nat (unat (drop_bit 12 a)) = (of_nat pg :: dword)" by simp
  then show "drop_bit 12 a = of_nat pg" by simp
  have "unat (take_bit 10 (drop_bit 12 a)) = take_bit 10 (unat (drop_bit 12 a))" by (rule unsigned_take_bit_eq)
  then show "unat (take_bit 10 (drop_bit 12 a)) = pg" using assms(1) d by (simp add: take_bit_nat_eq_self)
  have "unat (take_bit 12 a) = take_bit 12 n" by (simp only: unsigned_take_bit_eq u)
  also have "\<dots> = off" using assms(2) by (simp add: n_def take_bit_eq_mod)
  finally have "of_nat (unat (take_bit 12 a)) = (of_nat off :: dword)" by simp
  then show "take_bit 12 a = of_nat off" by simp
qed

lemma table_entry_low:
  assumes lay: "layout_ok s" and dir: "cr3 s = Some (d * TOTAL_PAGES)" "d < NR_TASKS"
      "dir_pages s (d * TOTAL_PAGES) = dir_pte s d"
    and pg: "pg < TOTAL_PAGES" "off < PAGE_SIZE"
  shows "table_entry s (of_nat (pg * PAGE_SIZE + off)) = Some (pagusr_table s d pg)"
    and "dir_entry s (of_nat (pg * PAGE_SIZE + off)) = Some (dir_pte s d)"
  using dir PT_row_dir_pte [OF lay dir(2)] address_parts(1,2) [OF pg]
  by (simp_all add: table_entry_def dir_entry_def del: of_nat_add of_nat_mult)

text \<open>Translation and protection of such an address.\<close>

lemma translate_low:
  assumes lay: "layout_ok s" and dir: "cr3 s = Some (d * TOTAL_PAGES)" "d < NR_TASKS"
      "dir_pages s (d * TOTAL_PAGES) = dir_pte s d"
    and pg: "pg < TOTAL_PAGES" "off < PAGE_SIZE"
    and f: "unat (pte_pbase_addr (pagusr_table s d pg)) < TOTAL_PAGES"
  shows "translate s (of_nat (pg * PAGE_SIZE + off)) =
     (if pte_present (pagusr_table s d pg)
      then Some (of_nat (unat (pte_pbase_addr (pagusr_table s d pg)) * PAGE_SIZE + off)) else None)"
proof -
  let ?f = "unat (pte_pbase_addr (pagusr_table s d pg))"
  let ?a = "of_nat (?f * PAGE_SIZE + off) :: dword"
  have "push_bit 12 (pte_pbase_addr (pagusr_table s d pg)) OR of_nat off =
      push_bit 12 (drop_bit 12 ?a) OR take_bit 12 ?a"
    using address_parts(3,4) [OF f pg(2)] by (simp del: of_nat_add of_nat_mult)
  also have "\<dots> = ?a" by (rule bit_word_eqI) (auto simp: bit_simps)
  finally show ?thesis
    using table_entry_low(1) [OF lay dir pg] address_parts(4) [OF pg]
    by (simp add: translate_def del: of_nat_add of_nat_mult)
qed

lemma user_allowed_low:
  assumes lay: "layout_ok s" and dir: "cr3 s = Some (d * TOTAL_PAGES)" "d < NR_TASKS"
      "dir_pages s (d * TOTAL_PAGES) = dir_pte s d"
    and pg: "pg < TOTAL_PAGES" "off < PAGE_SIZE"
  shows "user_allowed s w (of_nat (pg * PAGE_SIZE + off)) \<longleftrightarrow>
     (let e = pagusr_table s d pg in pte_present e \<and> pte_user e \<and> (w \<longrightarrow> pte_rw e))"
  using table_entry_low [OF lay dir pg] by (simp add: user_allowed_def dir_pte_def Let_def del: of_nat_add of_nat_mult)

text \<open>Under a directory set up by the initialisation, the kernel's pages translate to themselves.\<close>

lemma translate_kernel:
  assumes lay: "layout_ok s" and dir: "cr3 s = Some (d * TOTAL_PAGES)" "d < NR_TASKS"
      "dir_pages s (d * TOTAL_PAGES) = dir_pte s d"
    and row: "kernel_row p (pagusr_table s d)"
    and pg: "1 \<le> pg" "pg < NUM_PAG_KERNEL" "pg \<noteq> p - 1" "pg \<noteq> p + 10" and off: "off < PAGE_SIZE"
  shows "translate s (of_nat (pg * PAGE_SIZE + off)) = Some (of_nat (pg * PAGE_SIZE + off))"
proof -
  have e: "pagusr_table s d pg = kernel_pte pg" using row pg by (simp add: kernel_row_def Let_def)
  have f: "unat (pte_pbase_addr (kernel_pte pg)) = pg"
    using pg(2) by (simp add: kernel_pte_def unsigned_take_bit_eq unsigned_of_nat take_bit_nat_eq_self)
  have "pte_present (kernel_pte pg)" by (simp add: kernel_pte_def)
  then show ?thesis
    using translate_low [OF lay dir, of pg off] pg off by (simp add: e f del: of_nat_add of_nat_mult)
qed

lemma write_kernel_dword:
  assumes "\<And>i. i < 4 \<Longrightarrow> translate s (a + of_nat i) \<noteq> None"
  shows "\<exists>m. write_dword s a w = Some (s\<lparr>pmem := m\<rparr>)"
proof -
  have "mapped (translate s) a (length (dword_bytes w))"
    using assms by (simp add: mapped_def dword_bytes_def)
  then show ?thesis unfolding write_dword_def by (rule write_bytes_returns)
qed

text \<open>Only the four bytes of the word change.\<close>

lemma write_bytes_untouched:
  "write_bytes write_byte s a bs = Some s' \<Longrightarrow> (\<And>i. i < length bs \<Longrightarrow> translate s (a + of_nat i) \<noteq> Some x) \<Longrightarrow>
   pmem s' x = pmem s x"
proof (induction bs arbitrary: s a)
  case (Cons b bs)
  from Cons.prems(1) obtain s1 where s1: "write_byte s a b = Some s1" "write_bytes write_byte s1 (a + 1) bs = Some s'"
    by (auto simp: bind_eq_Some_conv)
  from s1(1) obtain y where y: "translate s a = Some y" "s1 = s\<lparr>pmem := (pmem s)(y := b)\<rparr>"
    by (auto simp: write_byte_def)
  have "pmem s' x = pmem (s\<lparr>pmem := (pmem s)(y := b)\<rparr>) x"
  proof (rule Cons.IH [OF s1(2) [unfolded y(2)]])
    fix i assume "i < length bs"
    then show "translate (s\<lparr>pmem := (pmem s)(y := b)\<rparr>) (a + 1 + of_nat i) \<noteq> Some x"
      using Cons.prems(2) [of "Suc i"] by (simp add: algebra_simps)
  qed
  moreover have "y \<noteq> x" using Cons.prems(2) [of 0] y(1) by simp
  ultimately show ?case by simp
qed simp

lemma write_dword_untouched:
  "write_dword s a w = Some s' \<Longrightarrow> (\<And>i. i < 4 \<Longrightarrow> translate s (a + of_nat i) \<noteq> Some x) \<Longrightarrow> pmem s' x = pmem s x"
  unfolding write_dword_def by (erule write_bytes_untouched) (simp add: dword_bytes_def)

text \<open>The kernel stack of task \<open>t\<close> is mapped: the guard pages are the neighbours of the array.\<close>

lemma stack_identity:
  assumes lay: "layout_ok s" and dir: "cr3 s = Some (d * TOTAL_PAGES)" "d < NR_TASKS"
      "dir_pages s (d * TOTAL_PAGES) = dir_pte s d"
    and p: "tasks_addr s = of_nat (p * PAGE_SIZE)" "2 \<le> p" "p + 11 \<le> NUM_PAG_KERNEL"
    and row: "kernel_row p (pagusr_table s d)" and t: "t < NR_TASKS" and k: "k < KERNEL_STACK_SIZE" and i: "i < 4"
  shows "translate s (stack_addr s t (int k) + of_nat i) = Some (tasks_addr s + of_nat (t * PAGE_SIZE + (4 * k + i)))"
proof -
  have a: "stack_addr s t (int k) + of_nat i = of_nat ((p + t) * PAGE_SIZE + (4 * k + i))"
    by (simp add: stack_addr_def p(1) algebra_simps)
  have b: "tasks_addr s + of_nat (t * PAGE_SIZE + (4 * k + i)) = of_nat ((p + t) * PAGE_SIZE + (4 * k + i))"
    by (simp add: p(1) algebra_simps)
  show ?thesis unfolding a b
    by (rule translate_kernel [OF lay dir row]) (use p t k i in simp_all)
qed

end
