(* ===== verification/Memory_Inv.thy ===== *)
theory Memory_Inv
  imports Kernel_Map Kernel_Inv
begin

text \<open>
  The invariant of the address spaces. The kernel's pages are mapped as the initialisation
  mapped them, in every page table; every entry names a frame of the 4 MB of memory; and each
  task in use, except the idle task, has its code, data and stack pages, with a heap that does not
  reach down to them.
\<close>

section \<open>The size of a heap\<close>

lemma heap_pages_eq:
  assumes "h \<le> HEAP_START"
  shows "get_heap_page_size h = int ((0x1FFFFF - unat h + 4095) div 4096)"
proof -
  have h: "unat h \<le> 0x1FFFFF" using assms by (simp add: word_le_nat_alt)
  have "HEAP_START - (h + 1) + of_nat PAGE_SIZE = of_nat (0x1FFFFF - unat h + 4095)"
    using h by (simp add: of_nat_diff)
  then have "sint (HEAP_START - (h + 1) + of_nat PAGE_SIZE) = int (0x1FFFFF - unat h + 4095)"
    using h by (simp only:) (rule sint_of_nat_small, simp)
  then show ?thesis by (simp add: get_heap_page_size_def signed_divide_int_def zdiv_int)
qed

lemma heap_pages_start [simp]: "get_heap_page_size HEAP_START = 0"
  by (simp add: heap_pages_eq)

lemma heap_pages_nonneg: "h \<le> HEAP_START \<Longrightarrow> 0 \<le> get_heap_page_size h"
  by (simp add: heap_pages_eq)

section \<open>The invariant\<close>

abbreviation (input) "MAX_HEAP_PAGES \<equiv> (228 :: nat)"

definition kmap_ok :: "kstate \<Rightarrow> bool" where
  "kmap_ok s \<longleftrightarrow>
     layout_ok s \<and> (\<forall>d<NR_TASKS. dir_pages s (d * TOTAL_PAGES) = dir_pte s d) \<and>
     (\<forall>i. i mod TOTAL_PAGES \<noteq> 0 \<longrightarrow> dir_pages s i = 0) \<and>
     (\<exists>p. tasks_addr s = of_nat (p * PAGE_SIZE) \<and> 2 \<le> p \<and> p + 11 \<le> NUM_PAG_KERNEL \<and>
          (\<forall>j<NR_TASKS. kernel_row p (pagusr_table s j)))"

definition ptes_ok :: "(nat \<Rightarrow> nat \<Rightarrow> page_table_entry) \<Rightarrow> bool" where
  "ptes_ok tb \<longleftrightarrow> (\<forall>j<NR_TASKS. \<forall>i<TOTAL_PAGES. unat (pte_pbase_addr (tb j i)) < TOTAL_PAGES)"

definition user_mapped :: "(nat \<Rightarrow> page_table_entry) \<Rightarrow> bool" where
  "user_mapped tb \<longleftrightarrow>
     (\<forall>i. USER_FIRST_PAGE \<le> i \<longrightarrow> i < USER_FIRST_PAGE + NUM_PAG_CODE + NUM_PAG_DATA \<longrightarrow> pte_present (tb i))"

definition heap_fits :: "dword \<Rightarrow> bool" where
  "heap_fits h \<longleftrightarrow> h \<le> HEAP_START \<and> get_heap_page_size h \<le> int MAX_HEAP_PAGES"

definition spaces_ok :: "kstate \<Rightarrow> bool" where
  "spaces_ok s \<longleftrightarrow>
     (\<forall>t<NR_TASKS. \<forall>d. dir_pages_baseAddr (tasks s t) = Some (d * TOTAL_PAGES) \<longrightarrow>
        heap_fits (heap_top (tasks s t)) \<and>
        (idle_task s \<noteq> Some t \<longrightarrow> user_mapped (pagusr_table s d)))"

text \<open>
  Every entry for a user page is empty or names a frame of the pool \<^verbatim>\<open>alloc_frame\<close> takes frames from,
  which lies above the kernel; the counter of frame 0, which an empty entry names, is zero.
\<close>

definition frames_ok :: "kstate \<Rightarrow> bool" where
  "frames_ok s \<longleftrightarrow> cow_count_mem s 0 = 0 \<and>
     (\<forall>j<NR_TASKS. \<forall>i. NUM_PAG_KERNEL \<le> i \<longrightarrow> i < TOTAL_PAGES \<longrightarrow>
        pagusr_table s j i = 0 \<or> unat (pte_pbase_addr (pagusr_table s j i)) \<in> frame_pool)"

definition mem_ok :: "kstate \<Rightarrow> bool" where
  "mem_ok s \<longleftrightarrow> kmap_ok s \<and> ptes_ok (pagusr_table s) \<and> spaces_ok s"

lemma heap_fits_start [simp]: "heap_fits HEAP_START"
  by (simp add: heap_fits_def)

lemma kmap_ok_cong:
  assumes "kmap_ok s" "tasks_addr s' = tasks_addr s" "pagusr_table_addr s' = pagusr_table_addr s"
    "dir_pages s' = dir_pages s" "\<And>j i. j < NR_TASKS \<Longrightarrow> i < NUM_PAG_KERNEL \<Longrightarrow> pagusr_table s' j i = pagusr_table s j i"
  shows "kmap_ok s'"
proof -
  have "dir_pte s' = dir_pte s" using assms(3) by (simp add: dir_pte_def fun_eq_iff)
  moreover have "kernel_row p (pagusr_table s' j) = kernel_row p (pagusr_table s j)" if "j < NR_TASKS" for p j
    using assms(5) [OF that] by (simp add: kernel_row_def)
  ultimately show ?thesis using assms(1-4) by (simp add: kmap_ok_def layout_ok_def)
qed

lemma spaces_ok_cong:
  assumes "spaces_ok s" "idle_task s' = idle_task s" "pagusr_table s' = pagusr_table s"
    "\<And>t. heap_top (tasks s' t) = heap_top (tasks s t)"
    "\<And>t. dir_pages_baseAddr (tasks s' t) = dir_pages_baseAddr (tasks s t)"
  shows "spaces_ok s'"
  using assms by (simp add: spaces_ok_def)

lemma mem_ok_cong:
  assumes "mem_ok s" "tasks_addr s' = tasks_addr s" "pagusr_table_addr s' = pagusr_table_addr s"
    "dir_pages s' = dir_pages s" "pagusr_table s' = pagusr_table s" "idle_task s' = idle_task s"
    "\<And>t. heap_top (tasks s' t) = heap_top (tasks s t)"
    "\<And>t. dir_pages_baseAddr (tasks s' t) = dir_pages_baseAddr (tasks s t)"
  shows "mem_ok s'"
  using assms kmap_ok_cong [of s s'] spaces_ok_cong [of s s'] by (simp add: mem_ok_def)

lemma mem_ok_sched: "mem_ok s \<Longrightarrow> sched_frame s s' \<Longrightarrow> mem_ok s'"
  by (erule mem_ok_cong) (simp_all add: sched_frame_def task_kept_def)

lemma mem_ok_stats: "mem_ok s \<Longrightarrow> only_stats t s s' \<Longrightarrow> mem_ok s'"
  by (erule mem_ok_cong) (simp_all add: only_stats_fields)

text \<open>The page table of a task that has a directory.\<close>

lemma kmap_PT:
  assumes "kmap_ok s" "dir_pages_baseAddr (tasks s t) = Some (d * TOTAL_PAGES)" "d < NR_TASKS"
  shows "get_PT s t = Some d"
  using assms PT_row_dir_pte(1) [of s d] by (simp add: get_PT_def kmap_ok_def)

text \<open>The kernel stacks are mapped to themselves under the directory in \<^verbatim>\<open>cr3\<close>.\<close>

definition stack_pa :: "kstate \<Rightarrow> nat \<Rightarrow> nat \<Rightarrow> nat" where
  "stack_pa s t n = unat (tasks_addr s) + t * PAGE_SIZE + n"

lemma stack_translate:
  assumes k: "kmap_ok s" and cr3: "cr3 s = Some (d * TOTAL_PAGES)" "d < NR_TASKS"
    and t: "t < NR_TASKS" and n: "n < PAGE_SIZE"
  shows "translate s (of_nat (stack_pa s t n)) = Some (of_nat (stack_pa s t n))"
    and "stack_pa s t n < 2 ^ 20"
proof -
  obtain p where p: "tasks_addr s = of_nat (p * PAGE_SIZE)" "2 \<le> p" "p + 11 \<le> NUM_PAG_KERNEL"
      "\<forall>j<NR_TASKS. kernel_row p (pagusr_table s j)"
    using k by (auto simp: kmap_ok_def)
  have u: "unat (tasks_addr s) = p * PAGE_SIZE" unfolding p(1) by (rule page_addr_unat) (use p(3) in simp)
  have a: "stack_pa s t n = (p + t) * PAGE_SIZE + n" by (simp add: stack_pa_def u algebra_simps)
  show "translate s (of_nat (stack_pa s t n)) = Some (of_nat (stack_pa s t n))"
    unfolding a
    by (rule translate_kernel [of s d p]) (use k cr3 p t n in \<open>auto simp: kmap_ok_def\<close>)
  show "stack_pa s t n < 2 ^ 20" unfolding a using p(3) t n by simp
qed

lemma stack_addr_pa: "stack_addr s t (int k) + of_nat i = of_nat (stack_pa s t (4 * k + i))"
  by (simp add: stack_addr_def stack_pa_def algebra_simps)

text \<open>Under the invariant the current address space translates through one row of the page tables.\<close>

lemma mem_translate:
  assumes mem: "mem_ok s" and cr3: "cr3 s = Some (d * TOTAL_PAGES)" "d < NR_TASKS" and pg: "pg < TOTAL_PAGES" "off < PAGE_SIZE"
  shows "translate s (of_nat (pg * PAGE_SIZE + off)) =
     (if pte_present (pagusr_table s d pg)
      then Some (of_nat (unat (pte_pbase_addr (pagusr_table s d pg)) * PAGE_SIZE + off)) else None)"
    and "user_allowed s w (of_nat (pg * PAGE_SIZE + off)) \<longleftrightarrow>
     (let e = pagusr_table s d pg in pte_present e \<and> pte_user e \<and> (w \<longrightarrow> pte_rw e))"
proof -
  have k: "layout_ok s" "dir_pages s (d * TOTAL_PAGES) = dir_pte s d" and f: "unat (pte_pbase_addr (pagusr_table s d pg)) < TOTAL_PAGES"
    using mem cr3(2) pg(1) by (auto simp: mem_ok_def kmap_ok_def ptes_ok_def)
  show "translate s (of_nat (pg * PAGE_SIZE + off)) =
     (if pte_present (pagusr_table s d pg)
      then Some (of_nat (unat (pte_pbase_addr (pagusr_table s d pg)) * PAGE_SIZE + off)) else None)"
    by (rule translate_low [OF k(1) cr3 k(2) pg f])
  show "user_allowed s w (of_nat (pg * PAGE_SIZE + off)) \<longleftrightarrow>
     (let e = pagusr_table s d pg in pte_present e \<and> pte_user e \<and> (w \<longrightarrow> pte_rw e))"
    by (rule user_allowed_low [OF k(1) cr3 k(2) pg])
qed

text \<open>The directory of the current task, under both invariants.\<close>

lemma current_space:
  assumes inv: "kinv s v" and mem: "mem_ok s"
  obtains d where "dir_pages_baseAddr (tasks s (current s)) = Some (d * TOTAL_PAGES)" "d < NR_TASKS"
    "cr3 s = Some (d * TOTAL_PAGES)" "get_PT s (current s) = Some d" "heap_fits (heap_top (tasks s (current s)))"
    "idle_task s \<noteq> Some (current s) \<Longrightarrow> user_mapped (pagusr_table s d)"
proof -
  have di: "dirs_ok s v" and cr: "cr3 s = dir_pages_baseAddr (tasks s (current s))" using inv by (auto simp: kinv_def)
  obtain d where d: "dir_pages_baseAddr (tasks s (current s)) = Some (d * TOTAL_PAGES)" "d < NR_TASKS"
    using dirs_okD(6,7) [OF di kinv_current(3) [OF inv]] kinv_current(2) [OF inv] by blast
  have "get_PT s (current s) = Some d" by (rule kmap_PT [OF _ d]) (use mem in \<open>simp add: mem_ok_def\<close>)
  moreover have "cr3 s = Some (d * TOTAL_PAGES)" using cr d(1) by simp
  moreover have "heap_fits (heap_top (tasks s (current s)))"
    "idle_task s \<noteq> Some (current s) \<Longrightarrow> user_mapped (pagusr_table s d)"
    using mem d(1) kinv_current(3) [OF inv] by (auto simp: mem_ok_def spaces_ok_def)
  ultimately show ?thesis by (intro that [OF d])
qed

end
