(* ===== verification/Allocate.thy ===== *)
theory Allocate
  imports Kernel_Inv
begin

text \<open>
  What \<open>allocate_process\<close> does to the lists and tables. The lemmas are about any family of
  lists that holds the queue of free tasks and the list of free directories, so that they
  serve the initialisation, where the other queues do not exist yet, as well as
  \<^verbatim>\<open>sys_fork\<close> and \<^verbatim>\<open>sys_clone\<close>.
\<close>

section \<open>Directories\<close>

lemma allocate_DIR_ok:
  assumes L: "lists_ok (links s) F" and F: "F Free_dirs = Some (Dir_anchor d # ds)"
    and d: "d < NR_TASKS" "dir_pos (dir_status s d) = int d"
  shows "\<exists>h. allocate_DIR t s = Some (1,
             (upd_task t (\<lambda>k. k\<lparr>dir_pages_baseAddr := Some (d * TOTAL_PAGES)\<rparr>) s)
               \<lparr>links := h, dir_status := (dir_status s)(d := (dir_status s d)\<lparr>dir_count := 1\<rparr>)\<rparr>) \<and>
           lists_ok h (F(Free_dirs \<mapsto> ds))"
proof -
  have e: "\<not> list_empty Free_dirs (links s)" "list_first Free_dirs (links s) = Some (Dir_anchor d)"
    using zlist.first_in [OF L F] by simp_all
  obtain h where h: "list_del (Dir_anchor d) (links s) = Some h" "lists_ok h (F(Free_dirs \<mapsto> ds))"
    using zlist.del_law [OF L F, of "Dir_anchor d"] by auto
  show ?thesis
    by (intro exI [of _ h] conjI h(2))
      (use e d h(1) in \<open>simp add: allocate_DIR_def list_head_to_dir_info_def on_links_def
        upd_dir_count_def upd_task_def\<close>)
qed

lemma allocate_DIR_none:
  assumes "lists_ok (links s) F" "F Free_dirs = Some []"
  shows "allocate_DIR t s = Some (0, s)"
  using zlist.empty_law [OF assms] by (simp add: allocate_DIR_def)

section \<open>Task structures\<close>

text \<open>The fields of a new process, whatever its directory.\<close>

definition fresh_task :: "dword \<Rightarrow> nat \<Rightarrow> task_struct \<Rightarrow> task_struct" where
  "fresh_task pid dir k =
     k\<lparr>PID := pid, dir_pages_baseAddr := Some dir, heap_top := HEAP_START, sem_deleted := 0,
       quantum := DEFAULT_QUANTUM,
       st := \<lparr>user_ticks = 0, system_ticks = 0, blocked_ticks = 0, ready_ticks = 0,
              elapsed_total_ticks = 0, total_trans = 0, remaining_ticks = 0\<rparr>\<rparr>"

lemma fresh_task_fields [simp]:
  "PID (fresh_task p d k) = p" "dir_pages_baseAddr (fresh_task p d k) = Some d"
  "heap_top (fresh_task p d k) = HEAP_START" "sem_deleted (fresh_task p d k) = 0"
  "quantum (fresh_task p d k) = DEFAULT_QUANTUM" "state (fresh_task p d k) = state k"
  "kernel_esp (fresh_task p d k) = kernel_esp k"
  by (simp_all add: fresh_task_def)

lemma allocate_process_none:
  assumes "lists_ok (links s) F" "F Free_queue = Some []"
  shows "allocate_process dir s = Some (None, s)"
  using zlist.empty_law [OF assms] by (simp add: allocate_process_def)

lemma allocate_process_new:
  assumes L: "lists_ok (links s) F" and Q: "F Free_queue = Some (Task_anchor t # xs)"
    and D: "F Free_dirs = Some (Dir_anchor d # ds)"
    and d: "d < NR_TASKS" "dir_pos (dir_status s d) = int d"
    and S: "F (Task_semaphores t) = Some [] \<or> Task_semaphores t \<notin> members F"
  shows "\<exists>h. allocate_process None s = Some (Some t,
             (upd_task t (fresh_task (last_PID s) (d * TOTAL_PAGES)) s)
               \<lparr>links := h, last_PID := last_PID s + 1,
                dir_status := (dir_status s)(d := (dir_status s d)\<lparr>dir_count := 1\<rparr>)\<rparr>) \<and>
           lists_ok h (F(Free_dirs \<mapsto> ds, Free_queue \<mapsto> xs, Task_semaphores t \<mapsto> []))"
proof -
  have e: "\<not> list_empty Free_queue (links s)" "list_first Free_queue (links s) = Some (Task_anchor t)"
    using zlist.first_in [OF L Q] by simp_all
  define s1 where "s1 = (upd_task t (\<lambda>k. k\<lparr>dir_pages_baseAddr := Some (d * TOTAL_PAGES)\<rparr>) s)
      \<lparr>dir_status := (dir_status s)(d := (dir_status s d)\<lparr>dir_count := 1\<rparr>)\<rparr>"
  obtain h1 where h0: "allocate_DIR t s = Some (1,
             (upd_task t (\<lambda>k. k\<lparr>dir_pages_baseAddr := Some (d * TOTAL_PAGES)\<rparr>) s)
               \<lparr>links := h1, dir_status := (dir_status s)(d := (dir_status s d)\<lparr>dir_count := 1\<rparr>)\<rparr>)"
      "lists_ok h1 (F(Free_dirs \<mapsto> ds))"
    using allocate_DIR_ok [OF L D d, of t] by blast
  have h1: "allocate_DIR t s = Some (1, s1\<lparr>links := h1\<rparr>)" "lists_ok h1 (F(Free_dirs \<mapsto> ds))"
    using h0 by (simp_all add: s1_def)
  have "(F(Free_dirs \<mapsto> ds)) Free_queue = Some (Task_anchor t # xs)" using Q by simp
  from zlist.pop_first [OF h1(2) this] zlist.first_in [OF h1(2) this] obtain h2
    where h2: "list_del (Task_anchor t) h1 = Some h2" "lists_ok h2 (F(Free_dirs \<mapsto> ds, Free_queue \<mapsto> xs))"
    by (metis bind.bind_lunit)
  have "(F(Free_dirs \<mapsto> ds, Free_queue \<mapsto> xs)) (Task_semaphores t) = Some [] \<or>
      Task_semaphores t \<notin> members (F(Free_dirs \<mapsto> ds, Free_queue \<mapsto> xs))"
    using S
  proof
    assume n: "Task_semaphores t \<notin> members F"
    have "members (F(Free_dirs \<mapsto> ds, Free_queue \<mapsto> xs)) \<subseteq> members F"
      using Q D by (auto simp: members_iff split: if_splits; fastforce)
    with n show ?thesis by blast
  qed simp
  from zlist.init_law [OF h2(2) this] obtain h3
    where h3: "INIT_LIST_HEAD (Task_semaphores t) h2 = Some h3"
      "lists_ok h3 (F(Free_dirs \<mapsto> ds, Free_queue \<mapsto> xs, Task_semaphores t \<mapsto> []))"
    by blast
  have "allocate_process None s = Some (Some t,
             (upd_task t (fresh_task (last_PID s) (d * TOTAL_PAGES)) s)
               \<lparr>links := h3, last_PID := last_PID s + 1,
                dir_status := (dir_status s)(d := (dir_status s d)\<lparr>dir_count := 1\<rparr>)\<rparr>)"
    using e h1(1) h2(1) h3(1)
    by (auto intro!: kstate.equality task_struct.equality simp: fun_eq_iff allocate_process_def list_head_to_task_struct_def on_links_def s1_def upd_task_def
        reset_stats_def upd_st_def fresh_task_def)
  with h3(2) show ?thesis by blast
qed

lemma allocate_process_share:
  assumes L: "lists_ok (links s) F" and Q: "F Free_queue = Some (Task_anchor t # xs)"
    and d: "d < NR_TASKS"
    and S: "F (Task_semaphores t) = Some [] \<or> Task_semaphores t \<notin> members F"
  shows "\<exists>h. allocate_process (Some (d * TOTAL_PAGES)) s = Some (Some t,
             (upd_task t (fresh_task (last_PID s) (d * TOTAL_PAGES)) s)
               \<lparr>links := h, last_PID := last_PID s + 1,
                dir_status := (dir_status s)
                  (d := (dir_status s d)\<lparr>dir_count := dir_count (dir_status s d) + 1\<rparr>)\<rparr>) \<and>
           lists_ok h (F(Free_queue \<mapsto> xs, Task_semaphores t \<mapsto> []))"
proof -
  have e: "\<not> list_empty Free_queue (links s)" "list_first Free_queue (links s) = Some (Task_anchor t)"
    using zlist.first_in [OF L Q] by simp_all
  from zlist.del_law [OF L Q, of "Task_anchor t"] obtain h2
    where h2: "list_del (Task_anchor t) (links s) = Some h2" "lists_ok h2 (F(Free_queue \<mapsto> xs))"
    by auto
  have "(F(Free_queue \<mapsto> xs)) (Task_semaphores t) = Some [] \<or>
      Task_semaphores t \<notin> members (F(Free_queue \<mapsto> xs))"
    using S
  proof
    assume n: "Task_semaphores t \<notin> members F"
    have "members (F(Free_queue \<mapsto> xs)) \<subseteq> members F"
      using Q by (auto simp: members_iff split: if_splits; fastforce)
    with n show ?thesis by blast
  qed simp
  from zlist.init_law [OF h2(2) this] obtain h3
    where h3: "INIT_LIST_HEAD (Task_semaphores t) h2 = Some h3"
      "lists_ok h3 (F(Free_queue \<mapsto> xs, Task_semaphores t \<mapsto> []))"
    by blast
  have "allocate_process (Some (d * TOTAL_PAGES)) s = Some (Some t,
             (upd_task t (fresh_task (last_PID s) (d * TOTAL_PAGES)) s)
               \<lparr>links := h3, last_PID := last_PID s + 1,
                dir_status := (dir_status s)
                  (d := (dir_status s d)\<lparr>dir_count := dir_count (dir_status s d) + 1\<rparr>)\<rparr>)"
    using e h2(1) h3(1) d
    by (auto intro!: kstate.equality task_struct.equality simp: fun_eq_iff allocate_process_def list_head_to_task_struct_def on_links_def upd_task_def
        reset_stats_def upd_st_def fresh_task_def reuse_DIR_def upd_dir_count_def get_DIR_id_def)
  with h3(2) show ?thesis by blast
qed

end
