(* ===== verification/Process_Proofs.thy ===== *)
theory Process_Proofs
  imports Memory_Inv Allocate Semaphore_Proofs Process
begin

text \<open>
  Creating and ending tasks keeps the kernel invariant. A new task is taken from the head of
  the free queue and, for a process, a free directory goes with it: as long as a task is free
  a directory is.
\<close>

section \<open>A free task has a free directory\<close>

lemma free_dir_exists:
  assumes ok: "dirs_ok s v" and t: "v_free v \<noteq> []" "set (v_free v) \<subseteq> {..<NR_TASKS}"
  shows "v_dirs v \<noteq> []"
proof
  assume "v_dirs v = []"
  then have used: "dir_users s d \<noteq> {}" if "d < NR_TASKS" for d
    using dirs_okD(5) [OF ok] that by auto
  define f where "f d = (SOME t. t \<in> dir_users s d)" for d
  have f: "f d \<in> dir_users s d" if "d < NR_TASKS" for d
    using used [OF that] unfolding f_def by (simp add: some_in_eq)
  have "inj_on f {..<NR_TASKS}"
  proof (rule inj_onI)
    fix x y
    assume "x \<in> {..<NR_TASKS}" "y \<in> {..<NR_TASKS}" "f x = f y"
    then have "f x \<in> dir_users s x" "f x \<in> dir_users s y" using f [of x] f [of y] by simp_all
    then show "x = y" by (simp add: dir_users_def)
  qed
  moreover have "f ` {..<NR_TASKS} \<subseteq> {..<NR_TASKS} - {hd (v_free v)}"
  proof
    fix u
    assume "u \<in> f ` {..<NR_TASKS}"
    then obtain d where d: "u \<in> dir_users s d" "d < NR_TASKS" using f by auto
    then have "dir_pages_baseAddr (tasks s u) \<noteq> None" "u < NR_TASKS" by (auto simp: dir_users_def)
    then have "u \<notin> set (v_free v)" using dirs_okD(6) [OF ok, of u] by simp
    then show "u \<in> {..<NR_TASKS} - {hd (v_free v)}" using hd_in_set [OF t(1)] \<open>u < NR_TASKS\<close> by auto
  qed
  ultimately have "card {..<NR_TASKS} \<le> card ({..<NR_TASKS} - {hd (v_free v)})"
    by (intro card_inj_on_le) auto
  moreover have "hd (v_free v) \<in> {..<NR_TASKS}" using t hd_in_set by blast
  ultimately show False by simp
qed

section \<open>Allocation\<close>

lemma v_queue_alloc:
  "v_queue (v\<lparr>v_free := ts, v_sems := g, v_dirs := ds\<rparr>) n = (if n = Free_queue then Some ts else v_queue v n)"
  by (simp add: v_queue_def split: node.splits)

lemma heads_alloc:
  "heads (v\<lparr>v_free := ts, v_sems := (v_sems v)(t \<mapsto> []), v_dirs := ds\<rparr>) =
     (heads v)(Free_dirs \<mapsto> map Dir_anchor ds, Free_queue \<mapsto> map Task_anchor ts, Task_semaphores t \<mapsto> [])"
  by (rule ext) (simp add: heads_def split: node.splits)

lemma Task_semaphores_members: "Task_semaphores t \<in> members (heads v) \<longleftrightarrow> v_sems v t \<noteq> None"
proof
  assume "Task_semaphores t \<in> members (heads v)"
  then obtain l xs where l: "heads v l = Some xs" "Task_semaphores t = l \<or> Task_semaphores t \<in> set xs"
    by (auto simp: members_iff)
  then show "v_sems v t \<noteq> None" by (cases l) (auto simp: heads_def)
next
  assume "v_sems v t \<noteq> None"
  then obtain ns where "heads v (Task_semaphores t) = Some ns" by (auto simp: heads_def)
  then show "Task_semaphores t \<in> members (heads v)" by (intro membersI) auto
qed

text \<open>What the queues and the semaphores see of an allocation: the same for a process and a thread.\<close>

lemma alloc_view:
  assumes ok: "queues_ok s v out" and sems: "sems_ok s v" and free: "v_free v = t # ts"
    and L: "lists_ok (links s') ((heads v)(Free_dirs \<mapsto> map Dir_anchor ds, Free_queue \<mapsto> map Task_anchor ts,
              Task_semaphores t \<mapsto> []))"
    and s': "\<And>u. state (tasks s' u) = state (tasks s u)" "semaphores s' = semaphores s"
  defines "w \<equiv> v\<lparr>v_free := ts, v_sems := (v_sems v)(t \<mapsto> []), v_dirs := ds\<rparr>"
  shows "queues_ok s' w (insert t out)" "sems_ok s' w" "t < NR_TASKS" "t \<notin> out" "t \<notin> set ts" "t \<notin> queued w"
proof -
  have Q: "v_queue v Free_queue = Some (t # ts)" using free by simp
  have dist: "distinct (t # ts)" by (rule queue_distinct [OF queues_okD(1) [OF ok] Q])
  then show tts: "t \<notin> set ts" by simp
  have tq: "t \<in> queued v" using queuedI [OF Q] by simp
  then show t: "t < NR_TASKS" "t \<notin> out" using queues_okD(2,3) [OF ok] by auto
  have q: "v_queue w n = (if n = Free_queue then Some ts else v_queue v n)" for n
    unfolding w_def by (rule v_queue_alloc)
  have other: "t \<notin> set us" if "v_queue v n = Some us" "n \<noteq> Free_queue" for n us
    using queue_unique [OF queues_okD(1) [OF ok] Q that(1), of t] that(2) by auto
  have queued: "queued w = queued v - {t}"
  proof (rule set_eqI)
    fix u
    show "u \<in> queued w \<longleftrightarrow> u \<in> queued v - {t}"
    proof (cases "u = t")
      case True
      then show ?thesis using tts other by (auto simp: queued_def q split: if_splits)
    next
      case False
      then have "(\<exists>us. v_queue w n = Some us \<and> u \<in> set us) \<longleftrightarrow> (\<exists>us. v_queue v n = Some us \<and> u \<in> set us)" for n
        using Q by (auto simp: q)
      with False show ?thesis by (simp add: queued_def)
    qed
  qed
  then show "t \<notin> queued w" by simp
  show "queues_ok s' w (insert t out)"
    unfolding queues_ok_def queued
  proof (intro conjI allI impI)
    show "lists_ok (links s') (heads w)" using L unfolding w_def heads_alloc .
    show "(queued v - {t}) \<inter> insert t out = {}" using queues_okD(2) [OF ok] by blast
    show "queued v - {t} \<union> insert t out = {..<NR_TASKS}" using queues_okD(3) [OF ok] t(1) by auto
    show "state (tasks s' u) = tag_of n" if "v_queue w n = Some us" "u \<in> set us" for n us u
    proof (cases "n = Free_queue")
      case True
      then have "u \<in> set (t # ts)" using that by (simp add: w_def)
      from queues_okD(4) [OF ok Q this] True show ?thesis by (simp add: s'(1))
    next
      case False
      then show ?thesis using that queues_okD(4) [OF ok] by (simp add: q s'(1))
    qed
  qed
  have old: "v_sems v t \<in> {None, Some []}"
    using sems free by (auto simp: sems_ok_def sems_live_def)
  show "sems_ok s' w"
    unfolding sems_ok_def
  proof
    have "sems_core s v" using sems by (simp add: sems_ok_def)
    note core = sems_coreD [OF this]
    have ow: "\<exists>u ns. owner (semaphores s n) = Some u \<and> v_sems w u = Some ns \<and> n \<in> set ns"
      if n: "n < NR_SEMAPHORES" "used (semaphores s n) \<noteq> 0" for n
    proof -
      obtain u ns where u: "owner (semaphores s n) = Some u" "v_sems v u = Some ns" "n \<in> set ns"
        using core(5) [OF n] by blast
      then have "u \<noteq> t" using old by auto
      then have "v_sems w u = Some ns" using u(2) by (simp add: w_def)
      with u show ?thesis by blast
    qed
    have owns: "n < NR_SEMAPHORES \<and> used (semaphores s n) \<noteq> 0 \<and> owner (semaphores s n) = Some u"
      if "v_sems w u = Some ns" "n \<in> set ns" for u ns n
      using that core(6) [of u ns n] by (auto simp: w_def split: if_splits)
    have "v_blocked w = v_blocked v" by (simp add: w_def)
    moreover have "u < NR_TASKS" if "v_sems w u \<noteq> None" for u
      using that core(7) [of u] t(1) by (auto simp: w_def split: if_splits)
    ultimately show "sems_core s' w"
      unfolding sems_core_def s'(2) using core(1-4) ow owns by auto
    show "sems_live w" using sems tts free unfolding sems_ok_def sems_live_def w_def by auto
  qed
qed

lemma dir_users_alloc:
  assumes "dir_pages_baseAddr (tasks s t) = None" "t < NR_TASKS"
    "\<And>u. dir_pages_baseAddr (tasks s' u) = (if u = t then Some (d * TOTAL_PAGES) else dir_pages_baseAddr (tasks s u))"
  shows "dir_users s' e = (if e = d then insert t (dir_users s d) else dir_users s e)" "t \<notin> dir_users s e"
  using assms by (auto simp: dir_users_def)

lemma finite_dir_users [simp]: "finite (dir_users s d)"
  by (rule finite_subset [of _ "{..<NR_TASKS}"]) (auto simp: dir_users_def)

lemma allocate_process_ok:
  assumes ok: "queues_ok s v out" and sems: "sems_ok s v" and dirs: "dirs_ok s v" and free: "v_free v = t # ts"
  obtains d ds s' where "v_dirs v = d # ds" "allocate_process None s = Some (Some t, s')"
    "d < NR_TASKS" "dir_users s d = {}"
    "\<exists>h D. s' = (upd_task t (fresh_task (last_PID s) (d * TOTAL_PAGES)) s)
        \<lparr>links := h, last_PID := last_PID s + 1, dir_status := D\<rparr>"
    "queues_ok s' (v\<lparr>v_free := ts, v_sems := (v_sems v)(t \<mapsto> []), v_dirs := ds\<rparr>) (insert t out)"
    "sems_ok s' (v\<lparr>v_free := ts, v_sems := (v_sems v)(t \<mapsto> []), v_dirs := ds\<rparr>)"
    "dirs_ok s' (v\<lparr>v_free := ts, v_sems := (v_sems v)(t \<mapsto> []), v_dirs := ds\<rparr>)"
proof -
  have Q: "v_queue v Free_queue = Some (t # ts)" using free by simp
  have sub: "set (v_free v) \<subseteq> {..<NR_TASKS}" using queuedI [OF Q] queues_okD(3) [OF ok] free by auto
  have "v_dirs v \<noteq> []" by (rule free_dir_exists [OF dirs _ sub]) (simp add: free)
  then obtain d ds where d: "v_dirs v = d # ds" by (cases "v_dirs v") auto
  have d10: "d < NR_TASKS" "dir_users s d = {}" using dirs_okD(5) [OF dirs] d by auto
  note L = queues_okD(1) [OF ok]
  have F: "heads v Free_queue = Some (Task_anchor t # map Task_anchor ts)"
    "heads v Free_dirs = Some (Dir_anchor d # map Dir_anchor ds)"
    by (simp_all add: heads_def free d)
  have S: "heads v (Task_semaphores t) = Some [] \<or> Task_semaphores t \<notin> members (heads v)"
    using sems free by (auto simp: Task_semaphores_members sems_ok_def sems_live_def heads_def)
  obtain h where h: "allocate_process None s = Some (Some t,
             (upd_task t (fresh_task (last_PID s) (d * TOTAL_PAGES)) s)
               \<lparr>links := h, last_PID := last_PID s + 1,
                dir_status := (dir_status s)(d := (dir_status s d)\<lparr>dir_count := 1\<rparr>)\<rparr>)"
      "lists_ok h ((heads v)(Free_dirs \<mapsto> map Dir_anchor ds, Free_queue \<mapsto> map Task_anchor ts, Task_semaphores t \<mapsto> []))"
    using allocate_process_new [OF L F d10(1) dirs_okD(2) [OF dirs d10(1)] S] by blast
  define s' where "s' = (upd_task t (fresh_task (last_PID s) (d * TOTAL_PAGES)) s)
               \<lparr>links := h, last_PID := last_PID s + 1,
                dir_status := (dir_status s)(d := (dir_status s d)\<lparr>dir_count := 1\<rparr>)\<rparr>"
  let ?w = "v\<lparr>v_free := ts, v_sems := (v_sems v)(t \<mapsto> []), v_dirs := ds\<rparr>"
  have A: "queues_ok s' ?w (insert t out)" "sems_ok s' ?w" "t < NR_TASKS" "t \<notin> set ts"
    using alloc_view [OF ok sems free, of s' ds] h(2) by (simp_all add: s'_def upd_task_def)
  have nd: "dir_pages_baseAddr (tasks s t) = None" using dirs_okD(6) [OF dirs A(3)] free by simp
  have base: "dir_pages_baseAddr (tasks s' u) = (if u = t then Some (d * TOTAL_PAGES) else dir_pages_baseAddr (tasks s u))" for u
    by (simp add: s'_def)
  note users = dir_users_alloc [OF nd A(3) base]
  have "dirs_ok s' ?w"
    unfolding dirs_ok_def
  proof (intro conjI allI impI)
    fix e :: nat
    assume e: "e < 10"
    show "PT_row s' (dir_pages s' (e * 1024)) = e"
      using dirs_okD(1) [OF dirs e] by (simp add: s'_def PT_row_def upd_task_def)
    show "dir_pos (dir_status s' e) = int e" using dirs_okD(2) [OF dirs e] by (auto simp: s'_def)
    show "dir_count (dir_status s' e) = int (card (dir_users s' e))"
      using dirs_okD(3) [OF dirs e] d10(2) by (simp add: users(1)) (simp add: s'_def)
  next
    show "distinct (v_dirs ?w)" using dirs_okD(4) [OF dirs] d by simp
    show "set (v_dirs ?w) = {e. e < 10 \<and> dir_users s' e = {}}"
      using dirs_okD(4,5) [OF dirs] d d10 by (auto simp: users(1))
  next
    fix u :: nat
    assume "u < 10"
    then show "u \<in> set (v_free ?w) \<longleftrightarrow> dir_pages_baseAddr (tasks s' u) = None"
      using dirs_okD(6) [OF dirs, of u] A(4) by (auto simp: base free)
  next
    fix u x :: nat
    assume "u < 10" "dir_pages_baseAddr (tasks s' u) = Some x"
    then show "\<exists>d<10. x = d * 1024"
      using dirs_okD(7) [OF dirs, of u x] d10(1) by (auto simp: base split: if_splits)
  qed
  with A h(1) d d10 show ?thesis
    by (intro that [of d ds s']) (auto simp: s'_def)
qed

lemma allocate_thread_ok:
  assumes ok: "queues_ok s v out" and sems: "sems_ok s v" and dirs: "dirs_ok s v" and free: "v_free v = t # ts"
    and c: "dir_pages_baseAddr (tasks s c) = Some (d * TOTAL_PAGES)" "c < NR_TASKS" "d < NR_TASKS"
  obtains s' where "allocate_process (Some (d * TOTAL_PAGES)) s = Some (Some t, s')"
    "\<exists>h D. s' = (upd_task t (fresh_task (last_PID s) (d * TOTAL_PAGES)) s)
        \<lparr>links := h, last_PID := last_PID s + 1, dir_status := D\<rparr>"
    "queues_ok s' (v\<lparr>v_free := ts, v_sems := (v_sems v)(t \<mapsto> [])\<rparr>) (insert t out)"
    "sems_ok s' (v\<lparr>v_free := ts, v_sems := (v_sems v)(t \<mapsto> [])\<rparr>)"
    "dirs_ok s' (v\<lparr>v_free := ts, v_sems := (v_sems v)(t \<mapsto> [])\<rparr>)"
proof -
  note L = queues_okD(1) [OF ok]
  have F: "heads v Free_queue = Some (Task_anchor t # map Task_anchor ts)" by (simp add: heads_def free)
  have S: "heads v (Task_semaphores t) = Some [] \<or> Task_semaphores t \<notin> members (heads v)"
    using sems free by (auto simp: Task_semaphores_members sems_ok_def sems_live_def heads_def)
  obtain h where h: "allocate_process (Some (d * TOTAL_PAGES)) s = Some (Some t,
             (upd_task t (fresh_task (last_PID s) (d * TOTAL_PAGES)) s)
               \<lparr>links := h, last_PID := last_PID s + 1,
                dir_status := (dir_status s)
                  (d := (dir_status s d)\<lparr>dir_count := dir_count (dir_status s d) + 1\<rparr>)\<rparr>)"
      "lists_ok h ((heads v)(Free_queue \<mapsto> map Task_anchor ts, Task_semaphores t \<mapsto> []))"
    using allocate_process_share [OF L F c(3) S] by blast
  define s' where "s' = (upd_task t (fresh_task (last_PID s) (d * TOTAL_PAGES)) s)
               \<lparr>links := h, last_PID := last_PID s + 1,
                dir_status := (dir_status s)
                  (d := (dir_status s d)\<lparr>dir_count := dir_count (dir_status s d) + 1\<rparr>)\<rparr>"
  let ?w = "v\<lparr>v_free := ts, v_sems := (v_sems v)(t \<mapsto> [])\<rparr>"
  have w: "v\<lparr>v_free := ts, v_sems := (v_sems v)(t \<mapsto> []), v_dirs := v_dirs v\<rparr> = ?w" by simp
  have "(heads v)(Free_dirs \<mapsto> map Dir_anchor (v_dirs v)) = heads v" by (rule ext) (simp add: heads_def)
  then have A: "queues_ok s' ?w (insert t out)" "sems_ok s' ?w" "t < NR_TASKS" "t \<notin> set ts"
    using alloc_view [OF ok sems free, of s' "v_dirs v"] h(2) unfolding w by (simp_all add: s'_def upd_task_def)
  have nd: "dir_pages_baseAddr (tasks s t) = None" using dirs_okD(6) [OF dirs A(3)] free by simp
  have base: "dir_pages_baseAddr (tasks s' u) = (if u = t then Some (d * TOTAL_PAGES) else dir_pages_baseAddr (tasks s u))" for u
    by (simp add: s'_def)
  note users = dir_users_alloc [OF nd A(3) base]
  have cd: "c \<in> dir_users s d" using c by (simp add: dir_users_def)
  have "dirs_ok s' ?w"
    unfolding dirs_ok_def
  proof (intro conjI allI impI)
    fix e :: nat
    assume e: "e < 10"
    show "PT_row s' (dir_pages s' (e * 1024)) = e"
      using dirs_okD(1) [OF dirs e] by (simp add: s'_def PT_row_def upd_task_def)
    show "dir_pos (dir_status s' e) = int e" using dirs_okD(2) [OF dirs e] by (auto simp: s'_def)
    show "dir_count (dir_status s' e) = int (card (dir_users s' e))"
      using dirs_okD(3) [OF dirs e] users(2) by (simp add: users(1)) (auto simp: s'_def)
  next
    show "distinct (v_dirs ?w)" using dirs_okD(4) [OF dirs] by simp
    show "set (v_dirs ?w) = {e. e < 10 \<and> dir_users s' e = {}}"
      using dirs_okD(5) [OF dirs] cd by (auto simp: users(1))
  next
    fix u :: nat
    assume "u < 10"
    then show "u \<in> set (v_free ?w) \<longleftrightarrow> dir_pages_baseAddr (tasks s' u) = None"
      using dirs_okD(6) [OF dirs, of u] A(4) by (auto simp: base free)
  next
    fix u x :: nat
    assume "u < 10" "dir_pages_baseAddr (tasks s' u) = Some x"
    then show "\<exists>d<10. x = d * 1024"
      using dirs_okD(7) [OF dirs, of u x] c(3) by (auto simp: base split: if_splits)
  qed
  with A h(1) show ?thesis
    by (intro that [of s']) (auto simp: s'_def)
qed

end
