(* ===== verification/Fork_Proofs.thy ===== *)
theory Fork_Proofs
  imports Process_Proofs
begin

text \<open>
  \<^verbatim>\<open>sys_fork\<close>: the copy of the father's kernel stack, the shared pages, and the state the call
  leaves behind.
\<close>

section \<open>The kernel stack\<close>

lemma stack_pos_bound: "unat (w AND (of_nat PAGE_SIZE - 1) :: dword) div 4 < KERNEL_STACK_SIZE"
proof -
  have "w AND (of_nat PAGE_SIZE - 1) = take_bit 12 w"
    by (simp add: take_bit_eq_mask mask_numeral)
  moreover have "unat (take_bit 12 w) = take_bit 12 (unat w)" by (simp only: unsigned_take_bit_eq)
  ultimately show ?thesis by (simp add: take_bit_eq_mod)
qed

lemma stack_cells:
  assumes k: "kmap_ok s" and cr3: "cr3 s = Some (d * TOTAL_PAGES)" "d < NR_TASKS" and t: "t < NR_TASKS"
    and n: "a + n \<le> PAGE_SIZE"
  shows "mapped (translate s) (of_nat (stack_pa s t a)) n"
    and "i < n \<Longrightarrow> cell_at (translate s) (of_nat (stack_pa s t a)) i = of_nat (stack_pa s t (a + i))"
proof -
  have e: "of_nat (stack_pa s t a) + of_nat i = (of_nat (stack_pa s t (a + i)) :: dword)" for i
    by (simp add: stack_pa_def)
  have tr: "translate s (of_nat (stack_pa s t a) + of_nat i) = Some (of_nat (stack_pa s t (a + i)))" if "i < n" for i
    unfolding e by (rule stack_translate(1) [OF k cr3 t]) (use that n in simp)
  then show "mapped (translate s) (of_nat (stack_pa s t a)) n" by (simp add: mapped_def)
  show "cell_at (translate s) (of_nat (stack_pa s t a)) i = of_nat (stack_pa s t (a + i))" if "i < n"
    using tr [OF that] by (simp add: cell_at_def)
qed

lemma stack_pa_inj:
  assumes k: "kmap_ok s" "cr3 s = Some (d * TOTAL_PAGES)" "d < NR_TASKS"
    and t: "t < NR_TASKS" "u < NR_TASKS" and n: "n < PAGE_SIZE" "m < PAGE_SIZE"
    and eq: "(of_nat (stack_pa s t n) :: dword) = of_nat (stack_pa s u m)"
  shows "t = u \<and> n = m"
proof -
  have u: "unat (of_nat (stack_pa s v l) :: dword) = stack_pa s v l" if "v < NR_TASKS" "l < PAGE_SIZE" for v l
    by (rule sint_of_nat_small(2)) (use less_trans [OF stack_translate(2) [OF k that], of "2 ^ 31"] in simp)
  have "stack_pa s t n = stack_pa s u m"
    using arg_cong [OF eq, of unat] unfolding u [OF t(1) n(1)] u [OF t(2) n(2)] .
  then have "t * PAGE_SIZE + n = u * PAGE_SIZE + m" by (simp add: stack_pa_def)
  moreover have "(t * PAGE_SIZE + n) div PAGE_SIZE = t" "(u * PAGE_SIZE + m) div PAGE_SIZE = u"
    using n by simp_all
  ultimately have "t = u" by metis
  with \<open>t * PAGE_SIZE + n = u * PAGE_SIZE + m\<close> show ?thesis by simp
qed

text \<open>The child's kernel stack holds, above the position, what the father's holds.\<close>

lemma copy_process_stack_ok:
  assumes k: "kmap_ok s" and cr3: "cr3 s = Some (d * TOTAL_PAGES)" "d < NR_TASKS"
    and t: "current s < NR_TASKS" "task < NR_TASKS" "current s \<noteq> task"
  defines "pos \<equiv> unat (ebp_value s (ebp_count s) AND (of_nat PAGE_SIZE - 1)) div 4"
  shows "\<exists>m. copy_process_stack task s = Some (int pos, s\<lparr>ebp_count := Suc (ebp_count s), pmem := m\<rparr>) \<and>
           (\<forall>n. 4 * (pos + 1) \<le> n \<longrightarrow> n < PAGE_SIZE \<longrightarrow>
              m (of_nat (stack_pa s task n)) = pmem s (of_nat (stack_pa s (current s) n))) \<and>
           (\<forall>x. (\<forall>n<PAGE_SIZE. x \<noteq> of_nat (stack_pa s task n)) \<longrightarrow> m x = pmem s x)"
proof -
  have pos: "pos < KERNEL_STACK_SIZE" unfolding pos_def by (rule stack_pos_bound)
  let ?s = "s\<lparr>ebp_count := Suc (ebp_count s)\<rparr>"
  let ?a = "4 * (pos + 1)"
  let ?n = "PAGE_SIZE - ?a"
  let ?c = "current s"
  have k': "kmap_ok ?s" by (rule kmap_ok_cong [OF k]) simp_all
  have cr3': "cr3 ?s = Some (d * TOTAL_PAGES)" using cr3(1) by simp
  have an: "?a + ?n \<le> PAGE_SIZE" using pos by simp
  have base: "stack_addr ?s u (int pos + 1) = of_nat (stack_pa ?s u ?a)" for u
    by (simp add: stack_addr_def stack_pa_def algebra_simps)
  have "stack_addr ?s ?c (int KERNEL_STACK_SIZE) - stack_addr ?s ?c (int pos + 1) = of_nat ?n"
    using pos by (simp add: stack_addr_def of_nat_diff algebra_simps)
  then have sz: "sint (stack_addr ?s ?c (int KERNEL_STACK_SIZE) - stack_addr ?s ?c (int pos + 1)) = int ?n"
    by (simp only:) (rule sint_of_nat_small, simp)
  note cells = stack_cells [OF k' cr3' cr3(2) _ an]
  have cellc: "cell_at (translate ?s) (of_nat (stack_pa ?s ?c ?a)) i = of_nat (stack_pa ?s ?c (?a + i))"
    and cellt: "cell_at (translate ?s) (of_nat (stack_pa ?s task ?a)) i = of_nat (stack_pa ?s task (?a + i))"
    if "i < ?n" for i
    using cells(2) [OF t(1) that] cells(2) [OF t(2) that] by simp_all
  have inj: "u = w \<and> i = j"
    if "(of_nat (stack_pa ?s u (?a + i)) :: dword) = of_nat (stack_pa ?s w (?a + j))"
      "u < NR_TASKS" "w < NR_TASKS" "i < ?n" "j < ?n" for u w i j
    using stack_pa_inj [OF k' cr3' cr3(2) that(2,3) _ _ that(1)] that(4,5) by simp
  have region: "copy_region (translate ?s) (of_nat (stack_pa ?s ?c ?a)) (of_nat (stack_pa ?s task ?a)) ?n"
    unfolding copy_region_def
  proof (intro conjI)
    show "mapped (translate ?s) (of_nat (stack_pa ?s ?c ?a)) ?n"
      "mapped (translate ?s) (of_nat (stack_pa ?s task ?a)) ?n"
      using cells(1) [OF t(1)] cells(1) [OF t(2)] by blast+
    show "inj_on (cell_at (translate ?s) (of_nat (stack_pa ?s task ?a))) {..<?n}"
    proof (rule inj_onI)
      fix x y
      assume xy: "x \<in> {..<?n}" "y \<in> {..<?n}"
        "cell_at (translate ?s) (of_nat (stack_pa ?s task ?a)) x = cell_at (translate ?s) (of_nat (stack_pa ?s task ?a)) y"
      then show "x = y" using inj [of task x task y] cellt [of x] cellt [of y] t(2) by simp
    qed
    show "cell_at (translate ?s) (of_nat (stack_pa ?s ?c ?a)) ` {..<?n} \<inter>
        cell_at (translate ?s) (of_nat (stack_pa ?s task ?a)) ` {..<?n} = {}"
    proof (rule equals0I)
      fix x
      assume "x \<in> cell_at (translate ?s) (of_nat (stack_pa ?s ?c ?a)) ` {..<?n} \<inter>
        cell_at (translate ?s) (of_nat (stack_pa ?s task ?a)) ` {..<?n}"
      then obtain i j where "i < ?n" "j < ?n" "x = of_nat (stack_pa ?s ?c (?a + i))" "x = of_nat (stack_pa ?s task (?a + j))"
        using cellc cellt by auto
      then show False using inj [of ?c i task j] t by simp
    qed
  qed
  from copy_data_ok [OF region] obtain s' where s': "copy_data (of_nat (stack_pa ?s ?c ?a)) (of_nat (stack_pa ?s task ?a)) (int ?n) ?s = Some s'"
      "copied (translate ?s) ?n (of_nat (stack_pa ?s ?c ?a)) (of_nat (stack_pa ?s task ?a)) (pmem ?s) (pmem s')"
    by blast
  obtain m where m: "s' = ?s\<lparr>pmem := m\<rparr>" using copy_data_frame [OF s'(1)] by blast
  have pos': "unat (ebp_value s (ebp_count s) AND 4095) div 4 = pos" by (simp add: pos_def)
  have run: "copy_process_stack task s = Some (int pos, ?s\<lparr>pmem := m\<rparr>)"
    using s'(1) sz base m
    by (simp add: copy_process_stack_def get_ebp_def Let_def pos')
  have same: "stack_pa ?s u n = stack_pa s u n" for u n by (simp add: stack_pa_def)
  have c: "m (of_nat (stack_pa s task (?a + i))) = pmem s (of_nat (stack_pa s ?c (?a + i)))" if "i < ?n" for i
  proof -
    have "m (cell_at (translate ?s) (of_nat (stack_pa ?s task ?a)) i) =
        pmem s (cell_at (translate ?s) (of_nat (stack_pa ?s ?c ?a)) i)"
      using s'(2) that by (simp add: copied_def m)
    then show ?thesis unfolding cellc [OF that] cellt [OF that] unfolding same .
  qed
  have "m (of_nat (stack_pa s task n)) = pmem s (of_nat (stack_pa s ?c n))" if "?a \<le> n" "n < PAGE_SIZE" for n
    using c [of "n - ?a"] that by simp
  moreover have "m x = pmem s x" if "\<forall>n<PAGE_SIZE. x \<noteq> of_nat (stack_pa s task n)" for x
  proof -
    have "x \<notin> cell_at (translate ?s) (of_nat (stack_pa ?s task ?a)) ` {..<?n}"
    proof
      assume "x \<in> cell_at (translate ?s) (of_nat (stack_pa ?s task ?a)) ` {..<?n}"
      then obtain i where "i < ?n" "x = of_nat (stack_pa s task (?a + i))" using cellt same by auto
      then show False using that an by simp
    qed
    then show ?thesis using s'(2) by (simp add: copied_def m)
  qed
  ultimately show ?thesis using run by blast
qed

section \<open>Sharing the pages\<close>

definition frame_of :: "kstate \<Rightarrow> nat \<Rightarrow> nat \<Rightarrow> nat" where
  "frame_of s j i = unat (pte_pbase_addr (pagusr_table s j i))"

text \<open>The tables after the pages \<open>P\<close> of table \<open>pf\<close> have been shared with table \<open>pc\<close>.\<close>

definition shared_tables :: "nat \<Rightarrow> nat \<Rightarrow> nat set \<Rightarrow> kstate \<Rightarrow> nat \<Rightarrow> nat \<Rightarrow> page_table_entry" where
  "shared_tables pf pc P s j i =
     (if i \<in> P \<and> j = pc then user_pte (frame_of s pf i) False
      else if i \<in> P \<and> j = pf then set_pte_rw False (pagusr_table s pf i)
      else pagusr_table s j i)"

definition shared_counts :: "nat \<Rightarrow> nat set \<Rightarrow> kstate \<Rightarrow> kstate \<Rightarrow> bool" where
  "shared_counts pf P s s' \<longleftrightarrow>
     (\<forall>f. f \<notin> frame_of s pf ` P \<longrightarrow> cow_count_mem s' f = cow_count_mem s f) \<and>
     (inj_on (frame_of s pf) P \<longrightarrow>
        (\<forall>f\<in>frame_of s pf ` P. cow_count_mem s' f = cow_next (cow_count_mem s f)))"

lemma share_pages:
  assumes pt: "pf < NR_TASKS" "pc < NR_TASKS" "pf \<noteq> pc" and ok: "ptes_ok (pagusr_table s)"
    and g: "inj_on g {..<n}" "\<And>i. i < n \<Longrightarrow> g i < TOTAL_PAGES"
  shows "\<exists>s'. for_range 0 n (\<lambda>i s. share_cow_page pf pc (g i) s) s = Some s' \<and> mm_only s s' \<and>
           pagusr_table s' = shared_tables pf pc (g ` {..<n}) s \<and> phys_mem s' = phys_mem s \<and>
           shared_counts pf (g ` {..<n}) s s'"
proof -
  let ?I = "\<lambda>k s'. mm_only s s' \<and> pagusr_table s' = shared_tables pf pc (g ` {..<k}) s \<and> phys_mem s' = phys_mem s \<and>
      shared_counts pf (g ` {..<k}) s s'"
  have "\<exists>s'. for_range 0 n (\<lambda>i s. share_cow_page pf pc (g i) s) s = Some s' \<and> ?I (0 + n) s'"
  proof (rule for_range_rule)
    fix k s1
    assume k: "k < 0 + n" and I: "?I k s1"
    let ?f = "frame_of s pf (g k)"
    have new: "g k \<notin> g ` {..<k}" using inj_onD [OF g(1), of k] k by fastforce
    have f1: "?f = unat (pte_pbase_addr (pagusr_table s1 pf (g k)))" using I new by (simp add: shared_tables_def frame_of_def)
    have f2: "?f < TOTAL_PAGES" using ok pt(1) g(2) k by (simp add: ptes_ok_def frame_of_def)
    let ?s2 = "s1\<lparr>cow_count_mem := (cow_count_mem s1)(?f := cow_next (cow_count_mem s1 ?f)),
           pagusr_table := (pagusr_table s1)
             (pc := (pagusr_table s1 pc)(g k := user_pte ?f False),
              pf := (pagusr_table s1 pf)(g k := set_pte_rw False (pagusr_table s1 pf (g k))))\<rparr>"
    have run: "share_cow_page pf pc (g k) s1 = Some ?s2"
      by (rule share_cow_page_ok [OF pt _ f1 f2]) (use g(2) k in simp)
    have S: "g ` {..<Suc k} = insert (g k) (g ` {..<k})" by (simp add: lessThan_Suc)
    have T: "pagusr_table ?s2 = shared_tables pf pc (g ` {..<Suc k}) s"
      using I new pt(3) unfolding S by (auto simp: shared_tables_def fun_eq_iff frame_of_def)
    have C: "shared_counts pf (g ` {..<Suc k}) s ?s2"
      unfolding shared_counts_def S
    proof (intro conjI allI impI ballI)
      fix f
      assume "f \<notin> frame_of s pf ` insert (g k) (g ` {..<k})"
      then show "cow_count_mem ?s2 f = cow_count_mem s f" using I by (simp add: shared_counts_def)
    next
      fix f
      assume inj: "inj_on (frame_of s pf) (insert (g k) (g ` {..<k}))"
        and f: "f \<in> frame_of s pf ` insert (g k) (g ` {..<k})"
      have old: "?f \<notin> frame_of s pf ` g ` {..<k}" using inj new by (auto simp: inj_on_def)
      have "inj_on (frame_of s pf) (g ` {..<k})" using inj by (rule inj_on_subset) blast
      then show "cow_count_mem ?s2 f = cow_next (cow_count_mem s f)"
        using f old I by (auto simp: shared_counts_def)
    qed
    have "mm_only s ?s2" "phys_mem ?s2 = phys_mem s" using I by simp_all
    with run T C show "\<exists>s2. share_cow_page pf pc (g k) s1 = Some s2 \<and> ?I (Suc k) s2" by blast
  next
    show "?I 0 s" by (simp add: shared_tables_def shared_counts_def fun_eq_iff)
  qed
  then show ?thesis by simp
qed

lemma shared_ptes_ok:
  assumes "ptes_ok (pagusr_table s)" "pf < NR_TASKS"
  shows "ptes_ok (shared_tables pf pc P s)"
  unfolding ptes_ok_def
proof (intro allI impI)
  fix j i :: nat
  assume ji: "j < 10" "i < 1024"
  have "frame_of s pf i < 1024" "unat (pte_pbase_addr (pagusr_table s j i)) < 1024"
    using assms ji by (simp_all add: ptes_ok_def frame_of_def)
  moreover from this(1) have "unat (pte_pbase_addr (user_pte (frame_of s pf i) False)) < 1024"
    by (subst user_pte_frame) simp_all
  ultimately show "unat (pte_pbase_addr (shared_tables pf pc P s j i)) < 1024"
    unfolding shared_tables_def frame_of_def by (simp only: pte_pbase_addr_set split: if_splits) simp
qed

text \<open>Sharing one set of pages and then another.\<close>

lemma shared_tables_Un:
  assumes "P \<inter> Q = {}" "pagusr_table s' = shared_tables pf pc P s" "pf \<noteq> pc"
  shows "shared_tables pf pc Q s' = shared_tables pf pc (P \<union> Q) s"
  using assms by (auto simp: shared_tables_def frame_of_def fun_eq_iff)

lemma shared_counts_Un:
  assumes PQ: "P \<inter> Q = {}" and s2: "shared_counts pf P s s2" and s3: "shared_counts pf Q s2 s3"
    and fr: "\<And>i. frame_of s2 pf i = frame_of s pf i"
  shows "shared_counts pf (P \<union> Q) s s3"
proof -
  let ?g = "frame_of s pf"
  have same: "frame_of s2 pf = ?g" using fr by blast
  note c2 = s2 [unfolded shared_counts_def]
  note c3 = s3 [unfolded shared_counts_def same]
  have out: "cow_count_mem s3 f = cow_count_mem s f" if "f \<notin> ?g ` (P \<union> Q)" for f
  proof -
    have "f \<notin> ?g ` P" "f \<notin> ?g ` Q" using that by blast+
    with c2 c3 show ?thesis by simp
  qed
  have new: "cow_count_mem s3 f = cow_next (cow_count_mem s f)"
    if inj: "inj_on ?g (P \<union> Q)" and f: "f \<in> ?g ` (P \<union> Q)" for f
  proof -
    have i: "inj_on ?g P" "inj_on ?g Q" using inj by (simp_all add: inj_on_Un)
    have dis: "?g ` P \<inter> ?g ` Q = {}" using inj_on_image_Int [OF inj, of P Q] PQ by auto
    show ?thesis
    proof (cases "f \<in> ?g ` P")
      case True
      then have "f \<notin> ?g ` Q" using dis by blast
      with True c2 c3 i show ?thesis by metis
    next
      case False
      then have "f \<in> ?g ` Q" using f by blast
      with False c2 c3 i show ?thesis by metis
    qed
  qed
  show ?thesis unfolding shared_counts_def using out new by blast
qed

text \<open>The pages a process has besides its code.\<close>

definition cow_pages :: "nat \<Rightarrow> nat set" where
  "cow_pages n = {PAG_LOG_INIT_DATA..<PAG_LOG_INIT_DATA + NUM_PAG_DATA} \<union> (\<lambda>i. PAG_LOG_INIT_HEAP - i) ` {..<n}"

lemma code_pages_copied:
  assumes pt: "pf < NR_TASKS" "pc < NR_TASKS" "pf \<noteq> pc"
  shows "\<exists>s'. for_range 0 NUM_PAG_CODE (\<lambda>i s. share_code_page pc pf (PAG_LOG_INIT_CODE + i) s) s = Some s' \<and>
           s' = s\<lparr>pagusr_table := (\<lambda>j i. if j = pc \<and> PAG_LOG_INIT_CODE \<le> i \<and> i < PAG_LOG_INIT_DATA
                                        then pagusr_table s pf i else pagusr_table s j i)\<rparr>"
proof -
  let ?I = "\<lambda>k s'. s' = s\<lparr>pagusr_table := (\<lambda>j i. if j = pc \<and> PAG_LOG_INIT_CODE \<le> i \<and> i < PAG_LOG_INIT_CODE + k
                                        then pagusr_table s pf i else pagusr_table s j i)\<rparr>"
  have "\<exists>s'. for_range 0 NUM_PAG_CODE (\<lambda>i s. share_code_page pc pf (PAG_LOG_INIT_CODE + i) s) s = Some s' \<and>
      ?I (0 + NUM_PAG_CODE) s'"
    by (rule for_range_rule)
      (use pt in \<open>auto simp: share_code_page_def upd_pte_ok fun_eq_iff intro!: kstate.equality\<close>)
  then show ?thesis by simp
qed

text \<open>The tables after \<open>share_user_pages\<close>, with \<open>n\<close> heap pages.\<close>

definition fork_tables :: "nat \<Rightarrow> nat \<Rightarrow> nat \<Rightarrow> kstate \<Rightarrow> nat \<Rightarrow> nat \<Rightarrow> page_table_entry" where
  "fork_tables pf pc n s j i =
     (if j = pc \<and> PAG_LOG_INIT_CODE \<le> i \<and> i < PAG_LOG_INIT_DATA then pagusr_table s pf i
      else shared_tables pf pc (cow_pages n) s j i)"

lemma share_user_pages_ok:
  assumes PT: "get_PT s (current s) = Some pf" "get_PT s task = Some pc"
    and pt: "pf < NR_TASKS" "pc < NR_TASKS" "pf \<noteq> pc" and ok: "ptes_ok (pagusr_table s)"
    and heap: "heap_fits (heap_top (tasks s (current s)))"
  defines "n \<equiv> nat (get_heap_page_size (heap_top (tasks s (current s))))"
  shows "\<exists>s'. share_user_pages task s = Some s' \<and> mm_only s s' \<and> phys_mem s' = phys_mem s \<and>
           pagusr_table s' = fork_tables pf pc n s \<and> ptes_ok (pagusr_table s') \<and>
           shared_counts pf (cow_pages n) s s'"
proof -
  have n: "n \<le> MAX_HEAP_PAGES" using heap by (simp add: heap_fits_def n_def nat_le_iff)
  let ?T1 = "\<lambda>j i. if j = pc \<and> PAG_LOG_INIT_CODE \<le> i \<and> i < PAG_LOG_INIT_DATA
                  then pagusr_table s pf i else pagusr_table s j i"
  let ?s1 = "s\<lparr>pagusr_table := ?T1\<rparr>"
  have r1: "for_range 0 NUM_PAG_CODE (\<lambda>i s. share_code_page pc pf (PAG_LOG_INIT_CODE + i) s) s = Some ?s1"
    using code_pages_copied [OF pt] by blast
  have ok1: "ptes_ok (pagusr_table ?s1)" using ok pt(1) by (simp add: ptes_ok_def)
  let ?D = "(\<lambda>i. PAG_LOG_INIT_DATA + i) ` {..<NUM_PAG_DATA}"
  let ?H = "(\<lambda>i. PAG_LOG_INIT_HEAP - i) ` {..<n}"
  have D: "?D = {PAG_LOG_INIT_DATA..<PAG_LOG_INIT_DATA + NUM_PAG_DATA}"
    using image_add_atLeastLessThan [of PAG_LOG_INIT_DATA 0 NUM_PAG_DATA] by (simp add: atLeast0LessThan add.commute)
  have DH: "?D \<inter> ?H = {}" using n unfolding D by auto
  obtain s2 where s2: "for_range 0 NUM_PAG_DATA (\<lambda>i s. share_cow_page pf pc (PAG_LOG_INIT_DATA + i) s) ?s1 = Some s2"
      "mm_only ?s1 s2" "pagusr_table s2 = shared_tables pf pc ?D ?s1" "phys_mem s2 = phys_mem ?s1"
      "shared_counts pf ?D ?s1 s2"
    using share_pages [OF pt ok1, of "\<lambda>i. PAG_LOG_INIT_DATA + i" NUM_PAG_DATA] by (auto simp: inj_on_def)
  have ok2: "ptes_ok (pagusr_table s2)" unfolding s2(3) by (rule shared_ptes_ok [OF ok1 pt(1)])
  have hinj: "inj_on (\<lambda>i. PAG_LOG_INIT_HEAP - i) {..<n}" using n by (auto simp: inj_on_def)
  obtain s3 where s3: "for_range 0 n (\<lambda>i s. share_cow_page pf pc (PAG_LOG_INIT_HEAP - i) s) s2 = Some s3"
      "mm_only s2 s3" "pagusr_table s3 = shared_tables pf pc ?H s2" "phys_mem s3 = phys_mem s2"
      "shared_counts pf ?H s2 s3"
    using share_pages [OF pt ok2 hinj] by fastforce
  have heap_loop: "for_range 0 n (\<lambda>i s. do { page \<leftarrow> heap_page i; share_cow_page pf pc page s }) s2 = Some s3"
    unfolding s3(1) [symmetric] by (rule for_range_cong) (use n in \<open>simp add: heap_page_def\<close>)
  have "mm_only s ?s1" by simp
  then have m1: "mm_only s s2" by (rule mm_only_trans [OF _ s2(2)])
  have m: "mm_only s s3" by (rule mm_only_trans [OF m1 s3(2)])
  have hs: "heap_top (tasks s2 (current s2)) = heap_top (tasks s (current s))"
    using mm_only_fields [OF m1] by simp
  have run: "share_user_pages task s = Some s3"
    unfolding share_user_pages_def PT bind.bind_lunit r1 s2(1) hs n_def [symmetric] heap_loop ..
  have C: "cow_pages n = ?D \<union> ?H" unfolding cow_pages_def D ..
  have T: "pagusr_table s3 = fork_tables pf pc n s"
  proof -
    have "pagusr_table s3 = shared_tables pf pc (cow_pages n) ?s1"
      unfolding s3(3) C by (rule shared_tables_Un [OF DH s2(3) pt(3)])
    moreover have out: "i \<notin> cow_pages n" if "PAG_LOG_INIT_CODE \<le> i" "i < PAG_LOG_INIT_DATA" for i
      using that n by (auto simp: cow_pages_def)
    ultimately show ?thesis
      using pt(3) by (auto simp: fun_eq_iff fork_tables_def shared_tables_def frame_of_def)
  qed
  have fr: "frame_of ?s1 pf = frame_of s pf" using pt(3) by (simp add: frame_of_def fun_eq_iff)
  have fr2: "frame_of s2 pf i = frame_of s pf i" for i
    using pt(3) by (simp add: frame_of_def s2(3) shared_tables_def)
  have counts: "shared_counts pf (cow_pages n) s s3"
    unfolding C
  proof (rule shared_counts_Un [OF DH _ s3(5) fr2])
    show "shared_counts pf ?D s s2" using s2(5) by (simp add: shared_counts_def fr)
  qed
  have ph: "phys_mem s3 = phys_mem s" using s3(4) s2(4) by simp
  have "ptes_ok (pagusr_table s3)" unfolding s3(3) by (rule shared_ptes_ok [OF ok2 pt(1)])
  with run m T counts ph show ?thesis by blast
qed

end
