(* ===== verification/Fork_Call.thy ===== *)
theory Fork_Call
  imports Fork_Proofs
begin

text \<open>
  \<^verbatim>\<open>sys_fork\<close> and \<^verbatim>\<open>sys_clone\<close> as a whole: what the calls return, and the state they leave behind.
\<close>

section \<open>Steps that leave the queues alone\<close>

definition core_same :: "kstate \<Rightarrow> kstate \<Rightarrow> bool" where
  "core_same s s' \<longleftrightarrow>
     links s' = links s \<and> semaphores s' = semaphores s \<and> idle_task s' = idle_task s \<and>
     current s' = current s \<and> cr3 s' = cr3 s \<and> dir_status s' = dir_status s \<and>
     dir_pages s' = dir_pages s \<and> pagusr_table_addr s' = pagusr_table_addr s \<and>
     (\<forall>u. state (tasks s' u) = state (tasks s u) \<and>
          dir_pages_baseAddr (tasks s' u) = dir_pages_baseAddr (tasks s u))"

lemma core_same_trans [trans]: "core_same s s1 \<Longrightarrow> core_same s1 s2 \<Longrightarrow> core_same s s2"
  by (simp add: core_same_def)

lemma core_same_mm: "mm_only s s' \<Longrightarrow> core_same s s'"
  by (simp add: core_same_def mm_only_fields)

lemma core_same_inv:
  assumes "core_same s s'"
  shows "queues_ok s v out \<Longrightarrow> queues_ok s' v out" "sems_ok s v \<Longrightarrow> sems_ok s' v" "dirs_ok s v \<Longrightarrow> dirs_ok s' v"
proof -
  note c = assms [unfolded core_same_def]
  show "queues_ok s v out \<Longrightarrow> queues_ok s' v out" by (erule queues_ok_cong) (use c in simp_all)
  show "sems_ok s v \<Longrightarrow> sems_ok s' v" by (erule sems_ok_cong) (use c in simp_all)
  show "dirs_ok s v \<Longrightarrow> dirs_ok s' v" by (erule dirs_ok_cong) (use c in simp_all)
qed

section \<open>Writing a word of a kernel stack\<close>

lemma write_stack_word:
  assumes k: "kmap_ok s" and cr3: "cr3 s = Some (d * TOTAL_PAGES)" "d < NR_TASKS"
    and t: "t < NR_TASKS" and n: "n < KERNEL_STACK_SIZE"
  shows "\<exists>m. write_dword s (stack_addr s t (int n)) w = Some (s\<lparr>pmem := m\<rparr>) \<and>
           (\<forall>i<4. m (of_nat (stack_pa s t (4 * n + i))) = dword_bytes w ! i) \<and>
           (\<forall>x. (\<forall>i<4. x \<noteq> of_nat (stack_pa s t (4 * n + i))) \<longrightarrow> m x = pmem s x)"
proof -
  let ?a = "stack_addr s t (int n)"
  have a: "?a = of_nat (stack_pa s t (4 * n))" using stack_addr_pa [of s t n 0] by simp
  have fit: "4 * n + 4 \<le> PAGE_SIZE" using n by simp
  note cells = stack_cells [OF k cr3 t fit, folded a]
  have len: "length (dword_bytes w) = 4" by (simp add: dword_bytes_def)
  have inj: "inj_on (cell_at (translate s) ?a) {..<length (dword_bytes w)}"
    unfolding len
  proof (rule inj_onI)
    fix i j :: nat
    assume ij: "i \<in> {..<4}" "j \<in> {..<4}" "cell_at (translate s) ?a i = cell_at (translate s) ?a j"
    then show "i = j"
      using stack_pa_inj [OF k cr3 t t, of "4 * n + i" "4 * n + j"] n cells(2) by simp
  qed
  obtain s' where s': "write_bytes write_byte s ?a (dword_bytes w) = Some s'"
      "\<forall>i<4. pmem s' (cell_at (translate s) ?a i) = dword_bytes w ! i"
      "\<forall>x. x \<notin> cell_at (translate s) ?a ` {..<4} \<longrightarrow> pmem s' x = pmem s x"
    using kmem.write_bytes_ok [OF refl _ inj] cells(1) len by auto
  obtain m where "write_bytes write_byte s ?a (dword_bytes w) = Some (s\<lparr>pmem := m\<rparr>)"
    using write_bytes_returns [of s ?a "dword_bytes w"] cells(1) len by auto
  with s'(1) have m: "s' = s\<lparr>pmem := m\<rparr>" by simp
  have "m (of_nat (stack_pa s t (4 * n + i))) = dword_bytes w ! i" if "i < 4" for i
    using s'(2) that by (simp add: m flip: cells(2) [OF that])
  moreover have "m x = pmem s x" if "\<forall>i<4. x \<noteq> of_nat (stack_pa s t (4 * n + i))" for x
    using s'(3) that cells(2) by (auto simp: m)
  ultimately show ?thesis using s'(1) m by (auto simp: write_dword_def)
qed

section \<open>The child before its pages are shared\<close>

text \<open>The keyboard is not touched.\<close>

definition kbd_same :: "kstate \<Rightarrow> kstate \<Rightarrow> bool" where
  "kbd_same s s' \<longleftrightarrow> keyboard_buffer s' = keyboard_buffer s \<and> buff_from s' = buff_from s \<and>
     buff_to s' = buff_to s \<and> remaining_to_read s' = remaining_to_read s"

lemma kbd_same_refl [simp]: "kbd_same s s"
  by (simp add: kbd_same_def)

lemma kbd_same_trans [trans]: "kbd_same s s1 \<Longrightarrow> kbd_same s1 s2 \<Longrightarrow> kbd_same s s2"
  by (simp add: kbd_same_def)

lemma kbd_same_mm: "mm_only s s' \<Longrightarrow> kbd_same s s'"
  by (elim mm_onlyE) (simp add: kbd_same_def)

lemma kbd_same_sched: "sched_frame s s' \<Longrightarrow> kbd_same s s'"
  by (simp add: kbd_same_def sched_frame_def)

text \<open>
  The words of the child's kernel stack from position \<open>pos + 1\<close> up, which are the saved context,
  are those of the father; word \<open>pos\<close> is the return address \<open>w\<close>.
\<close>

definition stack_copied :: "kstate \<Rightarrow> nat \<Rightarrow> nat \<Rightarrow> nat \<Rightarrow> dword \<Rightarrow> (dword \<Rightarrow> byte) \<Rightarrow> bool" where
  "stack_copied s t c pos w m \<longleftrightarrow>
     (\<forall>n. 4 * (pos + 1) \<le> n \<longrightarrow> n < PAGE_SIZE \<longrightarrow>
        m (of_nat (stack_pa s t n)) = pmem s (of_nat (stack_pa s c n))) \<and>
     (\<forall>i<4. m (of_nat (stack_pa s t (4 * pos + i))) = dword_bytes w ! i) \<and>
     (\<forall>x. (\<forall>n<PAGE_SIZE. x \<noteq> of_nat (stack_pa s t n)) \<longrightarrow> m x = pmem s x)"

lemma child_stack_ok:
  assumes k: "kmap_ok s" and cr3: "cr3 s = Some (d * TOTAL_PAGES)" "d < NR_TASKS"
    and t: "current s < NR_TASKS" "t < NR_TASKS" "current s \<noteq> t"
  defines "pos \<equiv> unat (ebp_value s (ebp_count s) AND (of_nat PAGE_SIZE - 1)) div 4"
  obtains m1 m2 where "copy_process_stack t s = Some (int pos, s\<lparr>ebp_count := Suc (ebp_count s), pmem := m1\<rparr>)"
    "write_dword (s\<lparr>ebp_count := Suc (ebp_count s), pmem := m1\<rparr>) (stack_addr s t (int pos)) w =
       Some (s\<lparr>ebp_count := Suc (ebp_count s), pmem := m2\<rparr>)"
    "stack_copied s t (current s) pos w m2"
proof -
  have pos: "pos < KERNEL_STACK_SIZE" unfolding pos_def by (rule stack_pos_bound)
  obtain m1 where m1: "copy_process_stack t s = Some (int pos, s\<lparr>ebp_count := Suc (ebp_count s), pmem := m1\<rparr>)"
      "\<And>n. 4 * (pos + 1) \<le> n \<Longrightarrow> n < PAGE_SIZE \<Longrightarrow>
         m1 (of_nat (stack_pa s t n)) = pmem s (of_nat (stack_pa s (current s) n))"
      "\<And>x. \<forall>n<PAGE_SIZE. x \<noteq> of_nat (stack_pa s t n) \<Longrightarrow> m1 x = pmem s x"
    using copy_process_stack_ok [OF k cr3 t] unfolding pos_def by blast
  let ?s = "s\<lparr>ebp_count := Suc (ebp_count s), pmem := m1\<rparr>"
  have k1: "kmap_ok ?s" by (rule kmap_ok_cong [OF k]) simp_all
  have c1: "cr3 ?s = Some (d * TOTAL_PAGES)" using cr3(1) by simp
  have same: "stack_pa ?s = stack_pa s" "stack_addr ?s = stack_addr s"
    by (simp_all add: stack_pa_def stack_addr_def fun_eq_iff)
  obtain m2 where m2: "write_dword ?s (stack_addr s t (int pos)) w = Some (?s\<lparr>pmem := m2\<rparr>)"
      "\<forall>i<4. m2 (of_nat (stack_pa s t (4 * pos + i))) = dword_bytes w ! i"
      "\<And>x. \<forall>i<4. x \<noteq> of_nat (stack_pa s t (4 * pos + i)) \<Longrightarrow> m2 x = m1 x"
    using write_stack_word [OF k1 c1 cr3(2) t(2) pos, of w] unfolding same by auto
  have "stack_copied s t (current s) pos w m2"
    unfolding stack_copied_def
  proof (intro conjI allI impI)
    fix n :: nat
    assume n: "4 * (pos + 1) \<le> n" "n < 4096"
    have "\<forall>i<4. (of_nat (stack_pa s t n) :: dword) \<noteq> of_nat (stack_pa s t (4 * pos + i))"
    proof (intro allI impI notI)
      fix i :: nat
      assume i: "i < 4" "(of_nat (stack_pa s t n) :: dword) = of_nat (stack_pa s t (4 * pos + i))"
      then show False using stack_pa_inj [OF k cr3 t(2,2) n(2) _ i(2)] pos n(1) by simp
    qed
    then show "m2 (of_nat (stack_pa s t n)) = pmem s (of_nat (stack_pa s (current s) n))"
      using m2(3) m1(2) [OF n] by simp
  next
    fix x :: dword
    assume x: "\<forall>n<4096. x \<noteq> of_nat (stack_pa s t n)"
    then have "\<forall>i<4. x \<noteq> of_nat (stack_pa s t (4 * pos + i))" using pos by simp
    then show "m2 x = pmem s x" using m2(3) m1(3) [OF x] by simp
  qed (use m2(2) in simp)
  with m1(1) m2(1) show ?thesis by (intro that [of m1 m2]) simp_all
qed

section \<open>The tables after the fork\<close>

lemma fork_tables_other:
  assumes "pf \<noteq> pc" "j \<noteq> pc"
  shows "pte_present (fork_tables pf pc n s j i) = pte_present (pagusr_table s j i)"
    and "pte_pbase_addr (fork_tables pf pc n s j i) = pte_pbase_addr (pagusr_table s j i)"
  using assms by (auto simp: fork_tables_def shared_tables_def)

lemma fork_tables_kernel:
  assumes "i < NUM_PAG_KERNEL" "n \<le> MAX_HEAP_PAGES"
  shows "fork_tables pf pc n s j i = pagusr_table s j i"
proof -
  have "i \<notin> cow_pages n" using assms by (auto simp: cow_pages_def)
  then show ?thesis using assms(1) by (simp add: fork_tables_def shared_tables_def)
qed

lemma fork_tables_mapped:
  assumes "user_mapped (pagusr_table s pf)"
  shows "user_mapped (fork_tables pf pc n s pc)"
  unfolding user_mapped_def
proof (intro allI impI)
  fix i :: nat
  assume i: "256 \<le> i" "i < 256 + 8 + 20"
  then have "pte_present (pagusr_table s pf i)" using assms by (simp add: user_mapped_def)
  moreover have "i \<in> cow_pages n" if "264 \<le> i" using i that by (simp add: cow_pages_def)
  ultimately show "pte_present (fork_tables pf pc n s pc i)"
    using i by (cases "i < 264") (simp_all add: fork_tables_def shared_tables_def)
qed

lemma fork_mem_ok:
  assumes mem: "mem_ok s" and k: "kmap_ok s'" and p: "ptes_ok (pagusr_table s')"
    and T: "pagusr_table s' = fork_tables dc d n s" "dc \<noteq> d"
    and idle: "idle_task s' = idle_task s" "idle_task s \<noteq> Some c"
    and c: "c < NR_TASKS" "dir_pages_baseAddr (tasks s c) = Some (dc * TOTAL_PAGES)"
    and t: "dir_pages_baseAddr (tasks s' t) = Some (d * TOTAL_PAGES)" "heap_top (tasks s' t) = heap_top (tasks s c)"
    and other: "\<And>u. u \<noteq> t \<Longrightarrow> heap_top (tasks s' u) = heap_top (tasks s u)"
      "\<And>u. u \<noteq> t \<Longrightarrow> dir_pages_baseAddr (tasks s' u) = dir_pages_baseAddr (tasks s u)"
    and new: "dir_users s d = {}"
  shows "mem_ok s'"
proof -
  have sp: "heap_fits (heap_top (tasks s u)) \<and> (idle_task s \<noteq> Some u \<longrightarrow> user_mapped (pagusr_table s e))"
    if "u < NR_TASKS" "dir_pages_baseAddr (tasks s u) = Some (e * TOTAL_PAGES)" for u e
    using mem that by (simp add: mem_ok_def spaces_ok_def)
  have "spaces_ok s'"
    unfolding spaces_ok_def
  proof (intro allI impI)
    fix u e :: nat
    assume u: "u < 10" "dir_pages_baseAddr (tasks s' u) = Some (e * 1024)"
    show "heap_fits (heap_top (tasks s' u)) \<and> (idle_task s' \<noteq> Some u \<longrightarrow> user_mapped (pagusr_table s' e))"
    proof (cases "u = t")
      case True
      then have "e = d" using u t(1) by simp
      with True show ?thesis using sp [OF c] idle t fork_tables_mapped by (simp add: T)
    next
      case False
      then have b: "dir_pages_baseAddr (tasks s u) = Some (e * TOTAL_PAGES)" using u other(2) by simp
      then have "e \<noteq> d" using new u by (auto simp: dir_users_def)
      then have "user_mapped (pagusr_table s' e) = user_mapped (pagusr_table s e)"
        using T(2) by (simp add: user_mapped_def T(1) fork_tables_other)
      with sp [OF u(1) b] show ?thesis using idle(1) other(1) [OF False] by simp
    qed
  qed
  with k p show ?thesis by (simp add: mem_ok_def)
qed

section \<open>The new task becomes ready\<close>

definition child_view :: "nat \<Rightarrow> nat list \<Rightarrow> nat list \<Rightarrow> qview \<Rightarrow> qview" where
  "child_view t ts ds v =
     v\<lparr>v_free := ts, v_sems := (v_sems v)(t \<mapsto> []), v_dirs := ds, v_ready := v_ready v @ [t]\<rparr>"

lemma free_head:
  assumes "queues_ok s v out" "v_free v = t # ts"
  shows "t < NR_TASKS" "t \<notin> out"
proof -
  have "v_queue v Free_queue = Some (t # ts)" using assms(2) by simp
  then have "t \<in> queued v" by (rule queuedI) simp
  then show "t < NR_TASKS" "t \<notin> out" using queues_okD(2,3) [OF assms(1)] by auto
qed

lemma child_ready:
  assumes idle: "idle_task s = Some i" "t \<noteq> i" "t \<noteq> current s"
    and ok: "queues_ok s (v\<lparr>v_free := ts, v_sems := (v_sems v)(t \<mapsto> []), v_dirs := ds\<rparr>) {t, i, current s}"
      "sems_ok s (v\<lparr>v_free := ts, v_sems := (v_sems v)(t \<mapsto> []), v_dirs := ds\<rparr>)"
      "dirs_ok s (v\<lparr>v_free := ts, v_sems := (v_sems v)(t \<mapsto> []), v_dirs := ds\<rparr>)"
    and cr3: "cr3 s = dir_pages_baseAddr (tasks s (current s))"
  obtains s' where "add_process_to_scheduling t FREE_TO_READY False s = Some s'"
    "kinv s' (child_view t ts ds v)" "sched_frame s s'" "ctrl_frame s s'"
    "\<And>u. u \<noteq> t \<Longrightarrow> tasks s' u = tasks s u"
proof -
  let ?w = "v\<lparr>v_free := ts, v_sems := (v_sems v)(t \<mapsto> []), v_dirs := ds\<rparr>"
  have t: "t < NR_TASKS" "t \<notin> queued ?w" using queues_okD(2,3) [OF ok(1)] by auto
  have w: "v_move t Ready_queue False ?w = child_view t ts ds v"
    using v_move_fresh [OF t(2), of Ready_queue] by (simp add: v_queue_def v_set_queue_def child_view_def)
  obtain s' where s': "add_process_to_scheduling t FREE_TO_READY False s = Some s'"
      "queues_ok s' (child_view t ts ds v) ({t, i, current s} - {t})" "sched_frame s s'" "ctrl_frame s s'"
      "\<forall>u. u \<noteq> t \<longrightarrow> tasks s' u = tasks s u"
    using add_process_to_scheduling_ok [OF ok(1) t(1), of FREE_TO_READY False] unfolding w by blast
  note fr = s'(3) [unfolded sched_frame_def task_kept_def] and cf = s'(4) [unfolded ctrl_frame_def]
  have "kinv s' (child_view t ts ds v)"
  proof (rule kinvI)
    show "idle_task s' = Some i" using fr idle by simp
    have "{t, i, current s} - {t} = {i, current s'}" using idle cf by auto
    with s'(2) show "queues_ok s' (child_view t ts ds v) {i, current s'}" by simp
    show "sems_ok s' (child_view t ts ds v)"
      by (rule sems_ok_cong [OF ok(2)]) (use fr in \<open>simp_all add: child_view_def\<close>)
    show "dirs_ok s' (child_view t ts ds v)"
      by (rule dirs_ok_cong [OF ok(3)]) (use fr in \<open>simp_all add: child_view_def\<close>)
    show "cr3 s' = dir_pages_baseAddr (tasks s' (current s'))" using fr cf cr3 by simp
  qed
  with s' show ?thesis by (intro that [of s']) auto
qed

section \<open>\<^verbatim>\<open>sys_fork\<close>\<close>

lemma sys_fork_none:
  assumes "kinv s v" "v_free v = []"
  shows "sys_fork s = Some (- EAGAIN, s)"
proof -
  obtain i where "queues_ok s v {i, current s}" using assms(1) by (rule kinvE)
  then have "allocate_process None s = Some (None, s)"
    using assms(2) by (intro allocate_process_none [OF queues_okD(1)]) (auto simp: heads_def)
  then show ?thesis by (simp add: sys_fork_def)
qed

text \<open>The word of the kernel stack that the frame pointer names.\<close>

definition father_pos :: "kstate \<Rightarrow> nat" where
  "father_pos s = unat (ebp_value s (ebp_count s) AND (of_nat PAGE_SIZE - 1)) div 4"

lemma add_process_kernel_esp:
  assumes "add_process_to_scheduling t e b s = Some s'"
  shows "kernel_esp (tasks s' u) = kernel_esp (tasks s u)"
proof -
  from assms obtain s1 where s1: "update_process_state t (Some Ready_queue) b s = Some s1" "update_stats t e s1 = Some s'"
    by (auto simp: add_process_to_scheduling_def bind_eq_Some_conv)
  have "kernel_esp (tasks s1 u) = kernel_esp (tasks s u)" for u
    using s1(1) by (auto simp: update_process_state_def bind_eq_Some_conv on_links_Some upd_task_def split: if_splits)
  then show ?thesis using update_stats_only [OF s1(2)] by (auto simp: only_stats_def)
qed

lemma sys_fork_ok:
  assumes inv: "kinv s v" and mem: "mem_ok s" and user: "idle_task s \<noteq> Some (current s)"
    and free: "v_free v = t # ts"
  defines "n \<equiv> nat (get_heap_page_size (heap_top (tasks s (current s))))"
  obtains d ds dc s' where "sys_fork s = Some (last_PID s, s')" "v_dirs v = d # ds"
    "get_PT s (current s) = Some dc" "get_PT s' t = Some d" "d \<noteq> dc"
    "kinv s' (child_view t ts ds v)" "mem_ok s'" "kbd_same s s'" "ctrl_frame (s\<lparr>kpc := (kpc s)(t := Fork_child)\<rparr>) s'"
    "PID (tasks s' t) = last_PID s" "quantum (tasks s' t) = quantum (tasks s (current s))"
    "heap_top (tasks s' t) = heap_top (tasks s (current s))"
    "\<And>u. u \<noteq> t \<Longrightarrow> tasks s' u = tasks s u" "t \<noteq> current s" "idle_task s' = idle_task s" "idle_task s \<noteq> Some t"
    "pagusr_table s' = fork_tables dc d n s" "phys_mem s' = phys_mem s" "shared_counts dc (cow_pages n) s s'"
    "stack_copied s t (current s) (father_pos s) (ret_from_fork_addr s) (pmem s')"
    "kernel_esp (tasks s' t) = stack_addr s t (int (father_pos s) - 1)" "tasks_addr s' = tasks_addr s"
proof -
  let ?c = "current s"
  obtain i where i: "idle_task s = Some i" "i < NR_TASKS" "?c < NR_TASKS" "queues_ok s v {i, ?c}" "sems_ok s v"
      "dirs_ok s v" "cr3 s = dir_pages_baseAddr (tasks s ?c)"
    using inv by (rule kinvE)
  have t: "t < NR_TASKS" "t \<notin> {i, ?c}" by (rule free_head [OF i(4) free])+
  obtain dc where dc: "dir_pages_baseAddr (tasks s ?c) = Some (dc * TOTAL_PAGES)" "dc < NR_TASKS"
    using dirs_okD(6,7) [OF i(6) i(3)] kinv_current(2) [OF inv] by blast
  obtain d ds s1 where d: "v_dirs v = d # ds" "allocate_process None s = Some (Some t, s1)" "d < NR_TASKS"
      "dir_users s d = {}"
    and s1: "\<exists>h D. s1 = (upd_task t (fresh_task (last_PID s) (d * TOTAL_PAGES)) s)
        \<lparr>links := h, last_PID := last_PID s + 1, dir_status := D\<rparr>"
    and ok1: "queues_ok s1 (v\<lparr>v_free := ts, v_sems := (v_sems v)(t \<mapsto> []), v_dirs := ds\<rparr>) (insert t {i, ?c})"
      "sems_ok s1 (v\<lparr>v_free := ts, v_sems := (v_sems v)(t \<mapsto> []), v_dirs := ds\<rparr>)"
      "dirs_ok s1 (v\<lparr>v_free := ts, v_sems := (v_sems v)(t \<mapsto> []), v_dirs := ds\<rparr>)"
    by (rule allocate_process_ok [OF i(4-6) free])
  obtain h D where s1eq: "s1 = (upd_task t (fresh_task (last_PID s) (d * TOTAL_PAGES)) s)
        \<lparr>links := h, last_PID := last_PID s + 1, dir_status := D\<rparr>" using s1 by blast
  have ddc: "d \<noteq> dc" using d(4) dc i(3) by (auto simp: dir_users_def)
  let ?f = "\<lambda>k. k\<lparr>quantum := quantum (tasks s ?c), heap_top := heap_top (tasks s ?c)\<rparr>"
  define s3 where "s3 = upd_task t ?f s1"
  have s3eq: "upd_task t (\<lambda>k. k\<lparr>heap_top := heap_top (tasks (upd_task t (\<lambda>k. k\<lparr>quantum := quantum (tasks s1 (current s1))\<rparr>) s1)
        (current (upd_task t (\<lambda>k. k\<lparr>quantum := quantum (tasks s1 (current s1))\<rparr>) s1)))\<rparr>)
      (upd_task t (\<lambda>k. k\<lparr>quantum := quantum (tasks s1 (current s1))\<rparr>) s1) = s3"
    using t(2) by (simp add: s3_def s1eq upd_task_def)
  have kmap: "kmap_ok s" and ptes: "ptes_ok (pagusr_table s)" using mem by (simp_all add: mem_ok_def)
  have k3: "kmap_ok s3" by (rule kmap_ok_cong [OF kmap]) (simp_all add: s3_def s1eq upd_task_def)
  have f3: "cr3 s3 = Some (dc * TOTAL_PAGES)" "current s3 = ?c" "pmem s3 = pmem s" "stack_pa s3 = stack_pa s"
      "stack_addr s3 = stack_addr s" "ret_from_fork_addr s3 = ret_from_fork_addr s"
    using i(7) dc(1) by (simp_all add: s3_def s1eq upd_task_def stack_pa_def stack_addr_def fun_eq_iff)
  have ct: "current s3 < NR_TASKS" "current s3 \<noteq> t" using i(3) t(2) f3(2) by simp_all
  define pos where "pos = unat (ebp_value s3 (ebp_count s3) AND (of_nat PAGE_SIZE - 1)) div 4"
  obtain m1 m2 where m: "copy_process_stack t s3 = Some (int pos, s3\<lparr>ebp_count := Suc (ebp_count s3), pmem := m1\<rparr>)"
    "write_dword (s3\<lparr>ebp_count := Suc (ebp_count s3), pmem := m1\<rparr>) (stack_addr s t (int pos)) (ret_from_fork_addr s) =
       Some (s3\<lparr>ebp_count := Suc (ebp_count s3), pmem := m2\<rparr>)"
    "stack_copied s3 t ?c pos (ret_from_fork_addr s) m2"
    using child_stack_ok [OF k3 f3(1) dc(2) ct(1) t(1) ct(2)] unfolding pos_def f3 by metis
  define s6 where "s6 = (upd_task t (\<lambda>k. k\<lparr>kernel_esp := stack_addr s t (int pos - 1)\<rparr>)
      (s3\<lparr>ebp_count := Suc (ebp_count s3), pmem := m2\<rparr>))\<lparr>kpc := (kpc s3)(t := Fork_child)\<rparr>"
  have tasks6: "tasks s6 u = (if u = t then (?f (fresh_task (last_PID s) (d * TOTAL_PAGES) (tasks s t)))
      \<lparr>kernel_esp := stack_addr s t (int pos - 1)\<rparr> else tasks s u)" for u
    by (simp add: s6_def s3_def s1eq upd_task_def)
  have c6: "core_same s1 s6" by (simp add: core_same_def s6_def s3_def upd_task_def)
  have k6: "kmap_ok s6" by (rule kmap_ok_cong [OF k3]) (simp_all add: s6_def upd_task_def)
  have f6: "current s6 = ?c" "idle_task s6 = Some i" "cr3 s6 = cr3 s" "pmem s6 = m2" "pagusr_table s6 = pagusr_table s"
      "phys_mem s6 = phys_mem s" "cow_count_mem s6 = cow_count_mem s" "kpc s6 = (kpc s)(t := Fork_child)"
      "current_ticks s6 = current_ticks s"
    using i(1) by (simp_all add: s6_def s3_def s1eq upd_task_def)
  have k_same: "kbd_same s s6" by (simp add: kbd_same_def s6_def s3_def s1eq upd_task_def)
  have pt: "get_PT s6 ?c = Some dc" "get_PT s6 t = Some d"
    using kmap_PT [OF k6] dc d(3) t(2) by (auto simp: tasks6)
  have heap: "heap_fits (heap_top (tasks s ?c))" using mem i(3) dc(1) by (auto simp: mem_ok_def spaces_ok_def)
  have tc: "tasks s6 ?c = tasks s ?c" using t(2) by (simp add: tasks6)
  obtain s7 where s7: "share_user_pages t s6 = Some s7" "mm_only s6 s7" "phys_mem s7 = phys_mem s6"
      "pagusr_table s7 = fork_tables dc d n s6" "ptes_ok (pagusr_table s7)" "shared_counts dc (cow_pages n) s6 s7"
    using share_user_pages_ok [of s6 dc t d] pt dc(2) d(3) ddc ptes heap unfolding f6 tc n_def by metis
  note mf = mm_only_fields [OF s7(2)]
  have cr3_7: "set_cr3 (get_DIR s7 (current s7)) s7 = s7"
    using i(7) t(2) by (simp add: set_cr3_def get_DIR_def mf f6 tasks6)
  have core7: "core_same s1 s7" by (rule core_same_trans [OF c6 core_same_mm [OF s7(2)]])
  note ok7 = core_same_inv [OF core7]
  have t': "t \<noteq> i" "t \<noteq> current s7" and idle7: "idle_task s7 = Some i" using t(2) by (simp_all add: mf f6)
  have cr7: "cr3 s7 = dir_pages_baseAddr (tasks s7 (current s7))" using i(7) by (simp add: mf f6 tc)
  have q7: "queues_ok s7 (v\<lparr>v_free := ts, v_sems := (v_sems v)(t \<mapsto> []), v_dirs := ds\<rparr>) {t, i, current s7}"
    using ok7(1) [OF ok1(1)] by (simp add: mf f6)
  obtain s' where s': "add_process_to_scheduling t FREE_TO_READY False s7 = Some s'"
    "kinv s' (child_view t ts ds v)" "sched_frame s7 s'" "ctrl_frame s7 s'" "\<And>u. u \<noteq> t \<Longrightarrow> tasks s' u = tasks s7 u"
    using child_ready [OF idle7 t' q7 ok7(2) [OF ok1(2)] ok7(3) [OF ok1(3)] cr7] by blast
  note fr = s'(3) [unfolded sched_frame_def task_kept_def]
  have pid: "PID (tasks s' t) = last_PID s" using fr by (simp add: mf tasks6)
  have sa: "stack_addr (s3\<lparr>ebp_count := x, pmem := y\<rparr>) = stack_addr s" for x y
    unfolding f3(5) [symmetric] by (simp add: stack_addr_def fun_eq_iff)
  have run: "sys_fork s = Some (last_PID s, s')"
    using d(2) s3eq m(1,2) s7(1) s'(1) pid cr3_7 f3(5,6)
    by (simp add: sys_fork_def s6_def sa)
  have T: "pagusr_table s' = fork_tables dc d n s"
    using fr s7(4) by (simp add: fork_tables_def shared_tables_def frame_of_def f6 fun_eq_iff)
  have small: "n \<le> MAX_HEAP_PAGES" using heap by (simp add: heap_fits_def n_def nat_le_iff)
  have k': "kmap_ok s'"
  proof (rule kmap_ok_cong [OF k6])
    show "pagusr_table s' j m = pagusr_table s6 j m" if "m < NUM_PAG_KERNEL" for j m
      unfolding T f6 by (rule fork_tables_kernel [OF that small])
  qed (use fr in \<open>simp_all add: mf\<close>)
  have other: "tasks s' u = tasks s u" if "u \<noteq> t" for u using s'(5) that by (simp add: mf tasks6)
  have self: "dir_pages_baseAddr (tasks s' t) = Some (d * TOTAL_PAGES)" "heap_top (tasks s' t) = heap_top (tasks s ?c)"
    "quantum (tasks s' t) = quantum (tasks s ?c)"
    using fr by (simp_all add: mf tasks6)
  have mem': "mem_ok s'"
    by (rule fork_mem_ok [OF mem k' _ T ddc [symmetric] _ user i(3) dc(1) self(1,2) _ _ d(4)])
      (use fr s7(5) in \<open>simp_all add: mf f6 i(1) other\<close>)
  have ctrl: "ctrl_frame (s\<lparr>kpc := (kpc s)(t := Fork_child)\<rparr>) s'"
    using s'(4) by (simp add: ctrl_frame_def mf f6)
  have kbd: "kbd_same s s'"
    by (rule kbd_same_trans [OF kbd_same_trans [OF k_same kbd_same_mm [OF s7(2)]] kbd_same_sched [OF s'(3)]])
  have counts: "shared_counts dc (cow_pages n) s s'"
  proof -
    have "frame_of s6 dc = frame_of s dc" by (simp add: frame_of_def f6 fun_eq_iff)
    then show ?thesis using s7(6) fr by (simp add: shared_counts_def f6)
  qed
  have "stack_copied s t ?c pos (ret_from_fork_addr s) (pmem s')"
    using m(3) fr by (simp add: stack_copied_def f3 mf f6)
  moreover have pos: "pos = father_pos s" by (simp add: pos_def father_pos_def s3_def s1eq upd_task_def)
  ultimately have stk: "stack_copied s t ?c (father_pos s) (ret_from_fork_addr s) (pmem s')" by simp
  have esp: "kernel_esp (tasks s' t) = stack_addr s t (int (father_pos s) - 1)"
    using add_process_kernel_esp [OF s'(1), of t] by (simp add: mf tasks6 pos)
  have addr: "tasks_addr s' = tasks_addr s" using fr by (simp add: mf s6_def s3_def s1eq upd_task_def)
  have PTc: "get_PT s ?c = Some dc" by (rule kmap_PT [OF kmap dc])
  have PTt: "get_PT s' t = Some d" by (rule kmap_PT [OF k' self(1) d(3)])
  show ?thesis
    by (rule that [OF run d(1) PTc PTt ddc s'(2) mem' kbd ctrl pid self(3,2) other _ _ _ T _ counts stk esp addr])
      (use fr t(2) i(1) in \<open>simp_all add: mf f6 s7(3)\<close>)
qed

section \<open>\<^verbatim>\<open>sys_clone\<close>\<close>

lemma sys_clone_errors:
  "\<not> access_ok VERIFY_WRITE fn 4 s \<or> \<not> access_ok VERIFY_WRITE stack 4 s \<Longrightarrow>
   sys_clone fn stack exit_func s = Some (- EFAULT, s)"
  "kinv s v \<Longrightarrow> v_free v = [] \<Longrightarrow> access_ok VERIFY_WRITE fn 4 s \<Longrightarrow> access_ok VERIFY_WRITE stack 4 s \<Longrightarrow>
   sys_clone fn stack exit_func s = Some (- EAGAIN, s)"
proof -
  assume inv: "kinv s v" "v_free v = []" and acc: "access_ok VERIFY_WRITE fn 4 s" "access_ok VERIFY_WRITE stack 4 s"
  obtain i where i: "queues_ok s v {i, current s}" "dirs_ok s v" using inv(1) by (rule kinvE)
  obtain x where x: "dir_pages_baseAddr (tasks s (current s)) = Some x"
    using dirs_okD(6) [OF i(2) kinv_current(3) [OF inv(1)]] kinv_current(2) [OF inv(1)] by auto
  have "allocate_process (Some x) s = Some (None, s)"
    using inv(2) by (intro allocate_process_none [OF queues_okD(1) [OF i(1)]]) (auto simp: heads_def)
  then show "sys_clone fn stack exit_func s = Some (- EAGAIN, s)" using x acc by (simp add: sys_clone_def)
qed (auto simp: sys_clone_def)

text \<open>A state that differs in physical memory and in the count of \<^verbatim>\<open>get_ebp\<close> only.\<close>

lemma kmap_ok_pmem [simp]: "kmap_ok (s\<lparr>pmem := m\<rparr>) = kmap_ok s"
  by (simp add: kmap_ok_def layout_ok_def dir_pte_def)

lemma stack_pmem [simp]:
  "stack_addr (s\<lparr>pmem := m\<rparr>) = stack_addr s" "stack_pa (s\<lparr>pmem := m\<rparr>) = stack_pa s"
  by (simp_all add: stack_addr_def stack_pa_def fun_eq_iff)

text \<open>The new thread starts at \<open>fn\<close> on the stack \<open>stack - 4\<close>.\<close>

definition thread_start :: "kstate \<Rightarrow> nat \<Rightarrow> dword \<Rightarrow> dword \<Rightarrow> (dword \<Rightarrow> byte) \<Rightarrow> bool" where
  "thread_start s t fn esp m \<longleftrightarrow>
     (\<forall>i<4. m (of_nat (stack_pa s t (4 * 1022 + i))) = dword_bytes esp ! i) \<and>
     (\<forall>i<4. m (of_nat (stack_pa s t (4 * 1019 + i))) = dword_bytes fn ! i)"

text \<open>
  Above word \<open>pos\<close> the new stack is the creator's, but for the two words; nothing else changes, except the
  word below \<open>stack\<close>, the return address of the thread.
\<close>

definition thread_copied :: "kstate \<Rightarrow> nat \<Rightarrow> nat \<Rightarrow> dword \<Rightarrow> (dword \<Rightarrow> byte) \<Rightarrow> bool" where
  "thread_copied s t pos esp m \<longleftrightarrow>
     (\<forall>x. (\<forall>i<4. translate s (esp + of_nat i) \<noteq> Some x) \<longrightarrow>
        ((\<forall>n<PAGE_SIZE. x \<noteq> of_nat (stack_pa s t n)) \<longrightarrow> m x = pmem s x) \<and>
        (\<forall>n. 4 * (pos + 1) \<le> n \<longrightarrow> n < PAGE_SIZE \<longrightarrow> n div 4 \<noteq> 1019 \<longrightarrow> n div 4 \<noteq> 1022 \<longrightarrow>
           x = of_nat (stack_pa s t n) \<longrightarrow> m x = pmem s (of_nat (stack_pa s (current s) n))))"

lemma clone_writes:
  assumes k: "kmap_ok s" and cr3: "cr3 s = Some (d * TOTAL_PAGES)" "d < NR_TASKS" and t: "t < NR_TASKS"
    and acc: "\<And>i. i < 4 \<Longrightarrow> translate s (stack - 4 + of_nat i) \<noteq> None"
  obtains m1 m2 m3 where "write_dword s (stack - 4) exit_func = Some (s\<lparr>pmem := m1\<rparr>)"
    "write_dword (s\<lparr>pmem := m1\<rparr>) (stack_addr s t 1022) (stack - 4) = Some (s\<lparr>pmem := m2\<rparr>)"
    "write_dword (s\<lparr>pmem := m2\<rparr>) (stack_addr s t 1019) fn = Some (s\<lparr>pmem := m3\<rparr>)"
    "thread_start s t fn (stack - 4) m3"
    "\<And>x. \<forall>i<4. translate s (stack - 4 + of_nat i) \<noteq> Some x \<Longrightarrow>
       \<forall>i<4. x \<noteq> of_nat (stack_pa s t (4 * 1022 + i)) \<and> x \<noteq> of_nat (stack_pa s t (4 * 1019 + i)) \<Longrightarrow> m3 x = pmem s x"
proof -
  obtain m1 where m1: "write_dword s (stack - 4) exit_func = Some (s\<lparr>pmem := m1\<rparr>)"
    using write_kernel_dword [OF acc] by blast
  obtain m2 where m2: "write_dword (s\<lparr>pmem := m1\<rparr>) (stack_addr s t 1022) (stack - 4) = Some (s\<lparr>pmem := m2\<rparr>)"
      "\<forall>i<4. m2 (of_nat (stack_pa s t (4 * 1022 + i))) = dword_bytes (stack - 4) ! i"
      "\<And>x. \<forall>i<4. x \<noteq> of_nat (stack_pa s t (4 * 1022 + i)) \<Longrightarrow> m2 x = m1 x"
    using write_stack_word [of "s\<lparr>pmem := m1\<rparr>" d t 1022 "stack - 4"] k cr3 t by auto
  obtain m3 where m3: "write_dword (s\<lparr>pmem := m2\<rparr>) (stack_addr s t 1019) fn = Some (s\<lparr>pmem := m3\<rparr>)"
      "\<forall>i<4. m3 (of_nat (stack_pa s t (4 * 1019 + i))) = dword_bytes fn ! i"
      "\<And>x. \<forall>i<4. x \<noteq> of_nat (stack_pa s t (4 * 1019 + i)) \<Longrightarrow> m3 x = m2 x"
    using write_stack_word [of "s\<lparr>pmem := m2\<rparr>" d t 1019 fn] k cr3 t by auto
  have "m3 (of_nat (stack_pa s t (4 * 1022 + i))) = dword_bytes (stack - 4) ! i" if i: "i < 4" for i
  proof -
    have "(of_nat (stack_pa s t (4 * 1022 + i)) :: dword) \<noteq> of_nat (stack_pa s t (4 * 1019 + j))" if "j < 4" for j
      using stack_pa_inj [OF k cr3 t t, of "4 * 1022 + i" "4 * 1019 + j"] i that by auto
    then show ?thesis using m2(2) m3(3) i by simp
  qed
  moreover have "m1 x = pmem s x" if "\<forall>i<4. translate s (stack - 4 + of_nat i) \<noteq> Some x" for x
    using write_dword_untouched [OF m1, of x] that by simp
  ultimately show ?thesis using m1 m2(1,3) m3 by (intro that [of m1 m2 m3]) (simp_all add: thread_start_def)
qed

lemma translate_cong:
  assumes "cr3 s' = cr3 s" "dir_pages s' = dir_pages s" "pagusr_table s' = pagusr_table s"
    "pagusr_table_addr s' = pagusr_table_addr s"
  shows "translate s' = translate s"
  using assms
  by (simp add: fun_eq_iff translate_def table_entry_def dir_entry_def PT_row_def)

lemma write_bytes_fault:
  "j < length bs \<Longrightarrow> translate s (a + of_nat j) = None \<Longrightarrow> write_bytes write_byte s a bs = None"
proof (induction bs arbitrary: s a j)
  case (Cons b bs)
  show ?case
  proof (cases "translate s a")
    case (Some x)
    then obtain k where k: "j = Suc k" "k < length bs" using Cons.prems by (cases j) auto
    have "translate (s\<lparr>pmem := m\<rparr>) (a + 1 + of_nat k) = None" for m
      using Cons.prems(2) k(1) by (simp add: algebra_simps)
    from Cons.IH [OF k(2) this] Some show ?thesis by (simp add: write_byte_def)
  qed (simp add: write_byte_def)
qed simp

lemma write_dword_fault:
  "j < 4 \<Longrightarrow> translate s (a + of_nat j) = None \<Longrightarrow> write_dword s a w = None"
  unfolding write_dword_def by (rule write_bytes_fault) (simp_all add: dword_bytes_def)

text \<open>The call returns the new PID, or the kernel faults on the word below \<open>stack\<close>.\<close>

lemma sys_clone_cases:
  assumes inv: "kinv s v" and mem: "mem_ok s" and user: "idle_task s \<noteq> Some (current s)"
    and free: "v_free v = t # ts"
    and acc: "access_ok VERIFY_WRITE fn 4 s" "access_ok VERIFY_WRITE stack 4 s"
  obtains
    (returns) s' where "\<forall>i<4. translate s (stack - 4 + of_nat i) \<noteq> None" "sys_clone fn stack exit_func s = Some (last_PID s, s')"
    "kinv s' (child_view t ts (v_dirs v) v)" "mem_ok s'" "kbd_same s s'"
    "ctrl_frame (s\<lparr>kpc := (kpc s)(t := Clone_child)\<rparr>) s'"
    "PID (tasks s' t) = last_PID s" "quantum (tasks s' t) = quantum (tasks s (current s))"
    "dir_pages_baseAddr (tasks s' t) = dir_pages_baseAddr (tasks s (current s))" "heap_top (tasks s' t) = HEAP_START"
    "\<forall>u. u \<noteq> t \<longrightarrow> tasks s' u = tasks s u" "t \<noteq> current s" "idle_task s' = idle_task s" "idle_task s \<noteq> Some t"
    "pagusr_table s' = pagusr_table s" "thread_start s t fn (stack - 4) (pmem s')"
    "cow_count_mem s' = cow_count_mem s" "thread_copied s t (father_pos s) (stack - 4) (pmem s')"
    "kernel_esp (tasks s' t) = stack_addr s t (int (father_pos s))" "tasks_addr s' = tasks_addr s"
  | (faults) j where "j < 4" "translate s (stack - 4 + of_nat j) = None" "sys_clone fn stack exit_func s = None"
proof -
  let ?c = "current s"
  obtain i where i: "idle_task s = Some i" "i < NR_TASKS" "?c < NR_TASKS" "queues_ok s v {i, ?c}" "sems_ok s v"
      "dirs_ok s v" "cr3 s = dir_pages_baseAddr (tasks s ?c)"
    using inv by (rule kinvE)
  have t: "t < NR_TASKS" "t \<notin> {i, ?c}" by (rule free_head [OF i(4) free])+
  obtain dc where dc: "dir_pages_baseAddr (tasks s ?c) = Some (dc * TOTAL_PAGES)" "dc < NR_TASKS"
    using dirs_okD(6,7) [OF i(6) i(3)] kinv_current(2) [OF inv] by blast
  have vd: "v\<lparr>v_free := ts, v_sems := (v_sems v)(t \<mapsto> []), v_dirs := v_dirs v\<rparr> =
      v\<lparr>v_free := ts, v_sems := (v_sems v)(t \<mapsto> [])\<rparr>" by simp
  obtain s1 where a: "allocate_process (Some (dc * TOTAL_PAGES)) s = Some (Some t, s1)"
    and s1: "\<exists>h D. s1 = (upd_task t (fresh_task (last_PID s) (dc * TOTAL_PAGES)) s)
        \<lparr>links := h, last_PID := last_PID s + 1, dir_status := D\<rparr>"
    and ok1: "queues_ok s1 (v\<lparr>v_free := ts, v_sems := (v_sems v)(t \<mapsto> []), v_dirs := v_dirs v\<rparr>) (insert t {i, ?c})"
      "sems_ok s1 (v\<lparr>v_free := ts, v_sems := (v_sems v)(t \<mapsto> []), v_dirs := v_dirs v\<rparr>)"
      "dirs_ok s1 (v\<lparr>v_free := ts, v_sems := (v_sems v)(t \<mapsto> []), v_dirs := v_dirs v\<rparr>)"
    unfolding vd by (rule allocate_thread_ok [OF i(4-6) free dc(1) i(3) dc(2)])
  obtain h D where s1eq: "s1 = (upd_task t (fresh_task (last_PID s) (dc * TOTAL_PAGES)) s)
        \<lparr>links := h, last_PID := last_PID s + 1, dir_status := D\<rparr>" using s1 by blast
  define s3 where "s3 = upd_task t (\<lambda>k. k\<lparr>quantum := quantum (tasks s1 (current s1))\<rparr>) s1"
  have kmap: "kmap_ok s" using mem by (simp add: mem_ok_def)
  have k3: "kmap_ok s3" by (rule kmap_ok_cong [OF kmap]) (simp_all add: s3_def s1eq upd_task_def)
  have f3: "cr3 s3 = Some (dc * TOTAL_PAGES)" "current s3 = ?c" "stack_pa s3 = stack_pa s" "stack_addr s3 = stack_addr s"
      "pmem s3 = pmem s"
    using i(7) dc(1) by (simp_all add: s3_def s1eq upd_task_def stack_pa_def stack_addr_def fun_eq_iff)
  have ct: "current s3 < NR_TASKS" "current s3 \<noteq> t" using i(3) t(2) f3(2) by simp_all
  define pos where "pos = father_pos s"
  have pos: "unat (ebp_value s3 (ebp_count s3) AND (of_nat PAGE_SIZE - 1)) div 4 = pos"
    by (simp add: pos_def father_pos_def s3_def s1eq upd_task_def)
  obtain m1 where m1:
      "copy_process_stack t s3 = Some (int pos, s3\<lparr>ebp_count := Suc (ebp_count s3), pmem := m1\<rparr>)"
      "\<And>n. 4 * (pos + 1) \<le> n \<Longrightarrow> n < PAGE_SIZE \<Longrightarrow> m1 (of_nat (stack_pa s t n)) = pmem s (of_nat (stack_pa s ?c n))"
      "\<And>x. \<forall>n<PAGE_SIZE. x \<noteq> of_nat (stack_pa s t n) \<Longrightarrow> m1 x = pmem s x"
    using copy_process_stack_ok [OF k3 f3(1) dc(2) ct(1) t(1) ct(2)] unfolding pos f3 by blast
  define s6 where "s6 = (upd_task t (\<lambda>k. k\<lparr>kernel_esp := stack_addr s t (int pos)\<rparr>)
      (s3\<lparr>ebp_count := Suc (ebp_count s3), pmem := m1\<rparr>))\<lparr>kpc := (kpc s3)(t := Clone_child)\<rparr>"
  have k6: "kmap_ok s6" by (rule kmap_ok_cong [OF k3]) (simp_all add: s6_def upd_task_def)
  have tr: "translate s6 = translate s"
    by (rule translate_cong) (simp_all add: s6_def s3_def s1eq upd_task_def)
  have f6: "cr3 s6 = Some (dc * TOTAL_PAGES)" "stack_addr s6 = stack_addr s" "stack_pa s6 = stack_pa s" "pmem s6 = m1"
    using f3(1) by (simp_all add: s6_def s3_def s1eq upd_task_def stack_pa_def stack_addr_def fun_eq_iff)
  have sa: "stack_addr (s3\<lparr>ebp_count := x\<rparr>) = stack_addr s" for x
    unfolding f3(4) [symmetric] by (simp add: stack_addr_def fun_eq_iff)
  show ?thesis
  proof (cases "\<forall>j<4. translate s (stack - 4 + of_nat j) \<noteq> None")
    case False
    then obtain j where j: "j < 4" "translate s (stack - 4 + of_nat j) = None" by auto
    then have "write_dword s6 (stack - 4) exit_func = None" using write_dword_fault [OF j(1)] by (simp add: tr)
    then have "sys_clone fn stack exit_func s = None"
      using acc dc(1) a m1(1) by (simp add: sys_clone_def sa f3(4) f6(2) flip: s3_def s6_def)
    with j show ?thesis by (rule faults)
  next
    case below: True
    obtain n1 n2 m where m: "write_dword s6 (stack - 4) exit_func = Some (s6\<lparr>pmem := n1\<rparr>)"
        "write_dword (s6\<lparr>pmem := n1\<rparr>) (stack_addr s t 1022) (stack - 4) = Some (s6\<lparr>pmem := n2\<rparr>)"
        "write_dword (s6\<lparr>pmem := n2\<rparr>) (stack_addr s t 1019) fn = Some (s6\<lparr>pmem := m\<rparr>)"
        "thread_start s6 t fn (stack - 4) m"
        "\<And>x. \<forall>i<4. translate s (stack - 4 + of_nat i) \<noteq> Some x \<Longrightarrow>
           \<forall>i<4. x \<noteq> of_nat (stack_pa s t (4 * 1022 + i)) \<and> x \<noteq> of_nat (stack_pa s t (4 * 1019 + i)) \<Longrightarrow> m x = m1 x"
      using clone_writes [OF k6 f6(1) dc(2) t(1), of stack exit_func fn] below unfolding tr f6(2,3,4) by blast
    define s7 where "s7 = s6\<lparr>pmem := m\<rparr>"
    have tasks7: "tasks s7 u = (if u = t then (fresh_task (last_PID s) (dc * TOTAL_PAGES) (tasks s t))
        \<lparr>quantum := quantum (tasks s ?c), kernel_esp := stack_addr s t (int pos)\<rparr> else tasks s u)" for u
      using t(2) by (simp add: s7_def s6_def s3_def s1eq upd_task_def)
    have c7: "core_same s1 s7" by (simp add: core_same_def s7_def s6_def s3_def upd_task_def)
    have f7: "current s7 = ?c" "idle_task s7 = Some i" "cr3 s7 = cr3 s" "pagusr_table s7 = pagusr_table s"
        "kpc s7 = (kpc s)(t := Clone_child)" "current_ticks s7 = current_ticks s" "pmem s7 = m"
        "cow_count_mem s7 = cow_count_mem s"
      using i(1) by (simp_all add: s7_def s6_def s3_def s1eq upd_task_def)
    have kbd7: "kbd_same s s7" by (simp add: kbd_same_def s7_def s6_def s3_def s1eq upd_task_def)
    have k7: "kmap_ok s7" using k6 by (simp add: s7_def)
    note ok7 = core_same_inv [OF c7]
    have q7: "queues_ok s7 (v\<lparr>v_free := ts, v_sems := (v_sems v)(t \<mapsto> []), v_dirs := v_dirs v\<rparr>) {t, i, current s7}"
      using ok7(1) [OF ok1(1)] by (simp add: f7)
    have t': "t \<noteq> i" "t \<noteq> current s7" using t(2) by (simp_all add: f7)
    have cr7: "cr3 s7 = dir_pages_baseAddr (tasks s7 (current s7))" using i(7) t(2) by (simp add: f7 tasks7)
    obtain s' where s': "add_process_to_scheduling t FREE_TO_READY False s7 = Some s'"
      "kinv s' (child_view t ts (v_dirs v) v)" "sched_frame s7 s'" "ctrl_frame s7 s'" "\<And>u. u \<noteq> t \<Longrightarrow> tasks s' u = tasks s7 u"
      using child_ready [OF f7(2) t' q7 ok7(2) [OF ok1(2)] ok7(3) [OF ok1(3)] cr7] by blast
    note fr = s'(3) [unfolded sched_frame_def task_kept_def]
    have pid: "PID (tasks s' t) = last_PID s" using fr by (simp add: tasks7)
    have run: "sys_clone fn stack exit_func s = Some (last_PID s, s')"
      using acc dc(1) a m1(1) m(1-3) s'(1) pid
      by (simp add: sys_clone_def sa f3(4) f6(2) flip: s3_def s6_def s7_def)
    have fields: "\<forall>u. u \<noteq> t \<longrightarrow> tasks s' u = tasks s u" using s'(5) by (simp add: tasks7)
    have base: "dir_pages_baseAddr (tasks s' u) = dir_pages_baseAddr (tasks s (if u = t then ?c else u))"
      "heap_top (tasks s' u) = (if u = t then HEAP_START else heap_top (tasks s u))"
      "quantum (tasks s' t) = quantum (tasks s ?c)" for u
      using fr dc(1) by (simp_all add: tasks7)
    have same: "pagusr_table s' = pagusr_table s" "idle_task s' = idle_task s"
      "cow_count_mem s' = cow_count_mem s" using fr by (simp_all add: f7 i(1))
    have "kmap_ok s'" by (rule kmap_ok_cong [OF k7]) (use fr in simp_all)
    moreover have "spaces_ok s'"
      using mem user i(3) base by (auto simp: mem_ok_def spaces_ok_def same)
    ultimately have mem': "mem_ok s'" using mem by (simp add: mem_ok_def same)
    have ctrl: "ctrl_frame (s\<lparr>kpc := (kpc s)(t := Clone_child)\<rparr>) s'" using s'(4) by (simp add: ctrl_frame_def f7)
    have kbd: "kbd_same s s'" by (rule kbd_same_trans [OF kbd7 kbd_same_sched [OF s'(3)]])
    have copied: "thread_copied s t pos (stack - 4) (pmem s')"
      unfolding thread_copied_def
    proof (intro allI impI conjI)
      fix x
      assume x: "\<forall>i<4. translate s (stack - 4 + of_nat i) \<noteq> Some x"
      show "pmem s' x = pmem s x" if o: "\<forall>n<4096. x \<noteq> of_nat (stack_pa s t n)"
        using m(5) [OF x] m1(3) o fr by (simp add: f7)
      fix n
      assume n: "4 * (pos + 1) \<le> n" "n < 4096" "n div 4 \<noteq> 1019" "n div 4 \<noteq> 1022" "x = of_nat (stack_pa s t n)"
      have "\<forall>i<4. x \<noteq> of_nat (stack_pa s t (4 * 1022 + i)) \<and> x \<noteq> of_nat (stack_pa s t (4 * 1019 + i))"
      proof (intro allI impI)
        fix j :: nat
        assume j: "j < 4"
        have c: "cr3 s = Some (dc * TOTAL_PAGES)" using i(7) dc(1) by simp
        have "(of_nat (stack_pa s t n) :: dword) \<noteq> of_nat (stack_pa s t (4 * k + j))" if "k < 1024" "n div 4 \<noteq> k" for k
        proof
          assume "(of_nat (stack_pa s t n) :: dword) = of_nat (stack_pa s t (4 * k + j))"
          with stack_pa_inj [OF kmap c dc(2) t(1) t(1) n(2), of "4 * k + j"] that(1) j have "n = 4 * k + j" by simp
          then show False using that(2) j by simp
        qed
        from this [of 1022] this [of 1019] show "x \<noteq> of_nat (stack_pa s t (4 * 1022 + j)) \<and> x \<noteq> of_nat (stack_pa s t (4 * 1019 + j))"
          using n(3-5) by simp
      qed
      from m(5) [OF x this] show "pmem s' x = pmem s (of_nat (stack_pa s ?c n))" using m1(2) [OF n(1,2)] n(5) fr by (simp add: f7)
    qed
    have esp: "kernel_esp (tasks s' t) = stack_addr s t (int pos)"
      using add_process_kernel_esp [OF s'(1), of t] by (simp add: tasks7)
    have addr: "tasks_addr s' = tasks_addr s" using fr by (simp add: s7_def s6_def s3_def s1eq upd_task_def)
    have start: "thread_start s t fn (stack - 4) (pmem s')" using m(4) fr by (simp add: thread_start_def f6 f7)
    show ?thesis
      by (rule returns [OF below run s'(2) mem' kbd ctrl pid base(3) _ _ fields _ same(2) _ same(1) start same(3) copied [unfolded pos_def] esp [unfolded pos_def] addr])
        (use base(1,2) [of t] t(2) i(1) in auto)
  qed
qed

lemma sys_clone_ok:
  assumes inv: "kinv s v" and mem: "mem_ok s" and user: "idle_task s \<noteq> Some (current s)"
    and free: "v_free v = t # ts"
    and acc: "access_ok VERIFY_WRITE fn 4 s" "access_ok VERIFY_WRITE stack 4 s"
    and below: "\<And>i. i < 4 \<Longrightarrow> translate s (stack - 4 + of_nat i) \<noteq> None"
  obtains s' where "sys_clone fn stack exit_func s = Some (last_PID s, s')"
    "kinv s' (child_view t ts (v_dirs v) v)" "mem_ok s'" "kbd_same s s'"
    "ctrl_frame (s\<lparr>kpc := (kpc s)(t := Clone_child)\<rparr>) s'"
    "PID (tasks s' t) = last_PID s" "quantum (tasks s' t) = quantum (tasks s (current s))"
    "dir_pages_baseAddr (tasks s' t) = dir_pages_baseAddr (tasks s (current s))" "heap_top (tasks s' t) = HEAP_START"
    "\<forall>u. u \<noteq> t \<longrightarrow> tasks s' u = tasks s u" "t \<noteq> current s" "idle_task s' = idle_task s" "idle_task s \<noteq> Some t"
    "pagusr_table s' = pagusr_table s" "thread_start s t fn (stack - 4) (pmem s')"
  by (cases rule: sys_clone_cases [OF inv mem user free acc, of exit_func]) (use below that in auto)

end
