(* ===== verification/Exit_Proofs.thy ===== *)
theory Exit_Proofs
  imports Fork_Call
begin

text \<open>
  The end of a process: its pages, its directory, its semaphores and its place in the queues are
  given back, and another task runs.
\<close>

section \<open>The pages\<close>

lemma free_frame_mm:
  assumes "f < TOTAL_PAGES"
  shows "\<exists>s'. free_frame f s = Some s' \<and> mm_only s s' \<and> pagusr_table s' = pagusr_table s \<and>
    cow_count_mem s' 0 = cow_count_mem s 0"
  using assms by (simp add: free_frame_def)

lemma ptes_ok_upd:
  assumes "ptes_ok T" "unat (pte_pbase_addr e) < TOTAL_PAGES"
  shows "ptes_ok (T(j := (T j)(i := e)))"
  unfolding ptes_ok_def
proof (intro allI impI)
  fix k l :: nat
  assume "k < 10" "l < 1024"
  then show "unat (pte_pbase_addr ((T(j := (T j)(i := e))) k l)) < 1024"
    using assms by (simp add: ptes_ok_def)
qed

text \<open>The table after \<open>free_user_pages\<close>: the data pages, and \<open>n\<close> entries from the heap's first page
  \<^emph>\<open>upwards\<close>, are cleared.\<close>

definition freed_tables :: "nat \<Rightarrow> nat \<Rightarrow> kstate \<Rightarrow> nat \<Rightarrow> nat \<Rightarrow> page_table_entry" where
  "freed_tables pt n s j i =
     (if j = pt \<and> (PAG_LOG_INIT_DATA \<le> i \<and> i < PAG_LOG_INIT_DATA + NUM_PAG_DATA \<or>
                   PAG_LOG_INIT_HEAP \<le> i \<and> i < PAG_LOG_INIT_HEAP + n)
      then 0 else pagusr_table s j i)"

lemma free_pages_loop:
  assumes pt: "pt < NR_TASKS" and ok: "ptes_ok (pagusr_table s)"
    and g: "\<And>i. i < n \<Longrightarrow> g i < TOTAL_PAGES" "\<And>i. i < n \<Longrightarrow> h i < TOTAL_PAGES"
  shows "\<exists>s'. for_range 0 n (\<lambda>i s. do { frame \<leftarrow> get_frame pt (g i) s; s \<leftarrow> free_frame frame s;
                                      upd_pte pt (h i) (\<lambda>_. 0) s }) s = Some s' \<and>
           mm_only s s' \<and> ptes_ok (pagusr_table s') \<and> cow_count_mem s' 0 = cow_count_mem s 0 \<and>
           pagusr_table s' = (\<lambda>j i. if j = pt \<and> i \<in> h ` {..<n} then 0 else pagusr_table s j i)"
proof -
  let ?I = "\<lambda>k s'. mm_only s s' \<and> ptes_ok (pagusr_table s') \<and> cow_count_mem s' 0 = cow_count_mem s 0 \<and>
     pagusr_table s' = (\<lambda>j i. if j = pt \<and> i \<in> h ` {..<k} then 0 else pagusr_table s j i)"
  have "\<exists>s'. for_range 0 n (\<lambda>i s. do { frame \<leftarrow> get_frame pt (g i) s; s \<leftarrow> free_frame frame s;
                                      upd_pte pt (h i) (\<lambda>_. 0) s }) s = Some s' \<and> ?I (0 + n) s'"
  proof (rule for_range_rule)
    fix k s1
    assume k: "k < 0 + n" and I: "?I k s1"
    have gk: "g k < TOTAL_PAGES" "h k < TOTAL_PAGES" using g k by simp_all
    let ?f = "unat (pte_pbase_addr (pagusr_table s1 pt (g k)))"
    have p1: "ptes_ok (pagusr_table s1)" using I by blast
    then have f: "?f < TOTAL_PAGES" using pt gk(1) unfolding ptes_ok_def by blast
    obtain s2 where s2: "free_frame ?f s1 = Some s2" "mm_only s1 s2" "pagusr_table s2 = pagusr_table s1"
      "cow_count_mem s2 0 = cow_count_mem s1 0"
      using free_frame_mm [OF f] by blast
    let ?s3 = "s2\<lparr>pagusr_table := (pagusr_table s2)(pt := (pagusr_table s2 pt)(h k := 0))\<rparr>"
    have "mm_only s ?s3" using mm_only_trans [of s s1 s2] I s2(2) by simp
    moreover have "ptes_ok (pagusr_table ?s3)" using ptes_ok_upd [OF p1, of 0] by (simp add: s2(3))
    moreover have "pagusr_table ?s3 = (\<lambda>j i. if j = pt \<and> i \<in> h ` {..<Suc k} then 0 else pagusr_table s j i)"
      using I by (auto simp: s2(3) fun_eq_iff lessThan_Suc)
    ultimately show "\<exists>s2. do { frame \<leftarrow> get_frame pt (g k) s1; s \<leftarrow> free_frame frame s1;
        upd_pte pt (h k) (\<lambda>_. 0) s } = Some s2 \<and> ?I (Suc k) s2"
      using s2(1,4) pt gk I by (simp add: get_frame_ok upd_pte_ok)
  qed (use ok in simp)
  then show ?thesis by simp
qed

lemma free_user_pages_ok:
  assumes PT: "get_PT s t = Some pt" "pt < NR_TASKS" and ok: "ptes_ok (pagusr_table s)"
    and heap: "heap_fits (heap_top (tasks s t))"
  defines "n \<equiv> nat (get_heap_page_size (heap_top (tasks s t)))"
  shows "\<exists>s'. free_user_pages t s = Some s' \<and> mm_only s s' \<and> ptes_ok (pagusr_table s') \<and>
           pagusr_table s' = freed_tables pt n s \<and> cow_count_mem s' 0 = cow_count_mem s 0"
proof -
  have n: "n \<le> MAX_HEAP_PAGES" using heap by (simp add: heap_fits_def n_def nat_le_iff)
  obtain s1 where s1: "for_range 0 NUM_PAG_DATA (\<lambda>i s. do { frame \<leftarrow> get_frame pt (PAG_LOG_INIT_DATA + i) s;
      s \<leftarrow> free_frame frame s; upd_pte pt (PAG_LOG_INIT_DATA + i) (\<lambda>_. 0) s }) s = Some s1"
      "mm_only s s1" "ptes_ok (pagusr_table s1)"
      "pagusr_table s1 = (\<lambda>j i. if j = pt \<and> i \<in> (\<lambda>i. PAG_LOG_INIT_DATA + i) ` {..<NUM_PAG_DATA} then 0 else pagusr_table s j i)"
      "cow_count_mem s1 0 = cow_count_mem s 0"
    using free_pages_loop [OF PT(2) ok, of NUM_PAG_DATA "\<lambda>i. PAG_LOG_INIT_DATA + i" "\<lambda>i. PAG_LOG_INIT_DATA + i"]
    by auto
  have bound: "PAG_LOG_INIT_HEAP - i < TOTAL_PAGES" "PAG_LOG_INIT_HEAP + i < TOTAL_PAGES" if "i < n" for i
    using that n by simp_all
  obtain s2 where s2: "for_range 0 n (\<lambda>i s. do { frame \<leftarrow> get_frame pt (PAG_LOG_INIT_HEAP - i) s;
      s \<leftarrow> free_frame frame s; upd_pte pt (PAG_LOG_INIT_HEAP + i) (\<lambda>_. 0) s }) s1 = Some s2"
      "mm_only s1 s2" "ptes_ok (pagusr_table s2)"
      "pagusr_table s2 = (\<lambda>j i. if j = pt \<and> i \<in> (\<lambda>i. PAG_LOG_INIT_HEAP + i) ` {..<n} then 0 else pagusr_table s1 j i)"
      "cow_count_mem s2 0 = cow_count_mem s1 0"
    using free_pages_loop [OF PT(2) s1(3), of n "\<lambda>i. PAG_LOG_INIT_HEAP - i" "\<lambda>i. PAG_LOG_INIT_HEAP + i", OF bound] by blast
  have loop: "for_range 0 n (\<lambda>i s. do { page \<leftarrow> heap_page i; frame \<leftarrow> get_frame pt page s;
      s \<leftarrow> free_frame frame s; upd_pte pt (PAG_LOG_INIT_HEAP + i) (\<lambda>_. 0) s }) s1 = Some s2"
    unfolding s2(1) [symmetric] by (rule for_range_cong) (use n in \<open>simp add: heap_page_def\<close>)
  have heap1: "heap_top (tasks s1 t) = heap_top (tasks s t)" by (simp add: mm_only_fields [OF s1(2)])
  have img: "i \<in> (\<lambda>i. a + i) ` {..<m} \<longleftrightarrow> a \<le> i \<and> i < a + m" for i a m :: nat
    using image_add_atLeastLessThan [of a 0 m] by (auto simp: atLeast0LessThan add.commute)
  have T: "pagusr_table s2 = freed_tables pt n s"
    unfolding s2(4) s1(4) img by (auto simp: freed_tables_def fun_eq_iff)
  have "free_user_pages t s = Some s2"
    unfolding free_user_pages_def PT(1) bind.bind_lunit s1(1) heap1 n_def [symmetric] loop ..
  then show ?thesis using mm_only_trans [OF s1(2) s2(2)] s2(3,5) s1(5) T by auto
qed

section \<open>The directory\<close>

lemma Dir_anchor_members: "Dir_anchor d \<in> members (heads v) \<longleftrightarrow> d \<in> set (v_dirs v)"
proof
  assume "Dir_anchor d \<in> members (heads v)"
  then obtain l xs where l: "heads v l = Some xs" "Dir_anchor d = l \<or> Dir_anchor d \<in> set xs"
    by (auto simp: members_iff)
  then show "d \<in> set (v_dirs v)" by (cases l) (auto simp: heads_def)
next
  assume "d \<in> set (v_dirs v)"
  moreover have "heads v Free_dirs = Some (map Dir_anchor (v_dirs v))" by (simp add: heads_def)
  ultimately show "Dir_anchor d \<in> members (heads v)" by (intro membersI) auto
qed

lemma v_queue_dirs [simp]: "v_queue (v\<lparr>v_dirs := ds\<rparr>) n = v_queue v n"
  by (simp add: v_queue_def split: node.splits)

lemma heads_dirs: "heads (v\<lparr>v_dirs := ds\<rparr>) = (heads v)(Free_dirs \<mapsto> map Dir_anchor ds)"
  by (rule ext) (simp add: heads_def split: node.splits)

lemma queues_ok_dirs:
  assumes "queues_ok s v out" "lists_ok (links s') ((heads v)(Free_dirs \<mapsto> map Dir_anchor ds))"
    "\<And>u. state (tasks s' u) = state (tasks s u)"
  shows "queues_ok s' (v\<lparr>v_dirs := ds\<rparr>) out"
proof -
  have "queued (v\<lparr>v_dirs := ds\<rparr>) = queued v" by (simp add: queued_def)
  then show ?thesis using assms by (simp add: queues_ok_def heads_dirs)
qed

lemma dir_users_free:
  assumes "\<And>u. dir_pages_baseAddr (tasks s' u) = (if u = c then None else dir_pages_baseAddr (tasks s u))"
  shows "dir_users s' e = dir_users s e - {c}"
  using assms by (auto simp: dir_users_def)

text \<open>Leaving the directory \<open>d\<close>, which becomes free when nobody else uses it.\<close>

lemma dirs_ok_leave:
  assumes dirs: "dirs_ok s v" and c: "c < NR_TASKS" "dir_pages_baseAddr (tasks s c) = Some (d * TOTAL_PAGES)" "d < NR_TASKS"
    and w: "set (v_free w) = insert c (set (v_free v))"
      "v_dirs w = (if dir_users s d = {c} then d # v_dirs v else v_dirs v)"
    and s': "\<And>u. dir_pages_baseAddr (tasks s' u) = (if u = c then None else dir_pages_baseAddr (tasks s u))"
      "dir_pages s' = dir_pages s" "pagusr_table_addr s' = pagusr_table_addr s"
      "dir_status s' = (dir_status s)(d := (dir_status s d)\<lparr>dir_count := dir_count (dir_status s d) - 1\<rparr>)"
  shows "dirs_ok s' w"
proof -
  note users = dir_users_free [of s' c s, OF s'(1)]
  have cd: "c \<in> dir_users s d" using c by (simp add: dir_users_def)
  have notc: "c \<notin> dir_users s e" if "e \<noteq> d" for e using c(2) that by (simp add: dir_users_def)
  have dv: "d \<notin> set (v_dirs v)" using dirs_okD(5) [OF dirs] cd by auto
  have pos: "card (dir_users s d) > 0" using cd by (auto simp: card_gt_0_iff)
  show ?thesis
    unfolding dirs_ok_def
  proof (intro conjI allI impI)
    fix e :: nat
    assume e: "e < 10"
    show "PT_row s' (dir_pages s' (e * 1024)) = e" using dirs_okD(1) [OF dirs e] s' by (simp add: PT_row_def)
    show "dir_pos (dir_status s' e) = int e" using dirs_okD(2) [OF dirs e] by (auto simp: s'(4))
    show "dir_count (dir_status s' e) = int (card (dir_users s' e))"
      using dirs_okD(3) [OF dirs e] cd notc pos
      by (cases "e = d") (auto simp: s'(4) users of_nat_diff)
  next
    show "distinct (v_dirs w)" using dirs_okD(4) [OF dirs] dv by (simp add: w)
    show "set (v_dirs w) = {e. e < 10 \<and> dir_users s' e = {}}"
    proof (rule set_eqI)
      fix e
      have "dir_users s d - {c} = {} \<longleftrightarrow> dir_users s d = {c}" using cd by auto
      moreover have "dir_users s e - {c} = dir_users s e" if "e \<noteq> d" using notc [OF that] by simp
      ultimately show "e \<in> set (v_dirs w) \<longleftrightarrow> e \<in> {e. e < 10 \<and> dir_users s' e = {}}"
        using dirs_okD(5) [OF dirs] c(3) cd by (cases "e = d") (auto simp: users w(2))
    qed
  next
    fix u :: nat
    assume "u < 10"
    then show "u \<in> set (v_free w) \<longleftrightarrow> dir_pages_baseAddr (tasks s' u) = None"
      using dirs_okD(6) [OF dirs, of u] by (auto simp: s'(1) w)
  next
    fix u x :: nat
    assume "u < 10" "dir_pages_baseAddr (tasks s' u) = Some x"
    then show "\<exists>d<10. x = d * 1024" using dirs_okD(7) [OF dirs, of u x] by (auto simp: s'(1) split: if_splits)
  qed
qed

lemma free_DIR_ok:
  assumes q: "queues_ok s v1 out" and dirs: "dirs_ok s v" and v1: "v_dirs v1 = v_dirs v" "set (v_free v1) = insert c (set (v_free v))"
    and c: "c < NR_TASKS" "dir_pages_baseAddr (tasks s c) = Some (d * TOTAL_PAGES)" "d < NR_TASKS"
    and k: "kmap_ok s" and p: "ptes_ok (pagusr_table s)" and heap: "heap_fits (heap_top (tasks s c))"
  defines "n \<equiv> nat (get_heap_page_size (heap_top (tasks s c)))" and "alone \<equiv> dir_users s d = {c}"
  obtains s1 h D s' where "free_DIR c s = Some s'" "mm_only s s1"
    "s' = (upd_task c (\<lambda>k. k\<lparr>dir_pages_baseAddr := None\<rparr>) s1)\<lparr>links := h, dir_status := D\<rparr>"
    "queues_ok s' (v1\<lparr>v_dirs := (if alone then d # v_dirs v else v_dirs v)\<rparr>) out"
    "dirs_ok s' (v1\<lparr>v_dirs := (if alone then d # v_dirs v else v_dirs v)\<rparr>)"
    "ptes_ok (pagusr_table s')" "pagusr_table s' = (if alone then freed_tables d n s else pagusr_table s)"
    "cow_count_mem s' 0 = cow_count_mem s 0"
proof -
  let ?D = "(dir_status s)(d := (dir_status s d)\<lparr>dir_count := dir_count (dir_status s d) - 1\<rparr>)"
  let ?s0 = "s\<lparr>dir_status := ?D\<rparr>"
  let ?ds = "if alone then d # v_dirs v else v_dirs v"
  let ?upd = "upd_task c (\<lambda>k. k\<lparr>dir_pages_baseAddr := None\<rparr>)"
  have cd: "c \<in> dir_users s d" using c by (simp add: dir_users_def)
  have count: "dir_count (dir_status s d) - 1 = 0 \<longleftrightarrow> alone"
  proof -
    have "dir_count (dir_status s d) = int (card (dir_users s d))" by (rule dirs_okD(3) [OF dirs c(3)])
    moreover have "card (dir_users s d) = 1 \<longleftrightarrow> dir_users s d = {c}" using cd by (auto simp: card_1_singleton_iff)
    ultimately show ?thesis by (simp add: alone_def)
  qed
  note L = queues_okD(1) [OF q]
  have dirs': "dirs_ok s' (v1\<lparr>v_dirs := ?ds\<rparr>)"
    if "s' = (?upd s1)\<lparr>links := h, dir_status := ?D\<rparr>" "mm_only s s1" for s' s1 h
    by (rule dirs_ok_leave [OF dirs c]) (simp_all add: v1 that(1) mm_only_fields [OF that(2)] alone_def)
  have step: "upd_dir_count d (\<lambda>c. c - 1) s = Some ?s0" using c(3) by (simp add: upd_dir_count_def)
  show ?thesis
  proof (cases alone)
    case False
    let ?s' = "(?upd s)\<lparr>links := links s, dir_status := ?D\<rparr>"
    have "(heads v1)(Free_dirs \<mapsto> map Dir_anchor (v_dirs v)) = heads v1"
      by (rule ext) (simp add: heads_def v1)
    then have "queues_ok ?s' (v1\<lparr>v_dirs := ?ds\<rparr>) out"
      using L False by (intro queues_ok_dirs [OF q]) simp_all
    moreover have "free_DIR c s = Some ?s'"
      using c count False step by (simp add: free_DIR_def get_DIR_id_def upd_task_def)
    ultimately show ?thesis using dirs' [OF refl, of s] p False
      by (intro that [of ?s' s ?D "links s"]) simp_all
  next
    case True
    have PT: "get_PT ?s0 c = Some d" using kmap_PT [OF k c(2,3)] by (simp add: get_PT_def PT_row_def)
    obtain s1 where s1: "free_user_pages c ?s0 = Some s1" "mm_only ?s0 s1" "ptes_ok (pagusr_table s1)"
        "pagusr_table s1 = freed_tables d n ?s0" "cow_count_mem s1 0 = cow_count_mem ?s0 0"
      using free_user_pages_ok [OF PT c(3)] p heap unfolding n_def by auto
    note mf = mm_only_fields [OF s1(2)]
    have "heads v1 Free_dirs = Some (map Dir_anchor (v_dirs v))" by (simp add: heads_def v1)
    moreover have "Dir_anchor d \<notin> members (heads v1)"
      using dirs_okD(5) [OF dirs] cd by (auto simp: Dir_anchor_members v1)
    ultimately obtain h where h: "list_add (Dir_anchor d) Free_dirs (links s) = Some h"
        "lists_ok h ((heads v1)(Free_dirs \<mapsto> Dir_anchor d # map Dir_anchor (v_dirs v)))"
      using zlist.add_law [OF L] by blast
    let ?s2 = "s1\<lparr>dir_status := dir_status s\<rparr>"
    have m2: "mm_only s ?s2" using s1(2) by (auto elim!: mm_onlyE)
    let ?s' = "(?upd ?s2)\<lparr>links := h, dir_status := ?D\<rparr>"
    have "queues_ok ?s' (v1\<lparr>v_dirs := ?ds\<rparr>) out"
      using h(2) True by (intro queues_ok_dirs [OF q]) (simp_all add: mf)
    moreover have "free_DIR c s = Some ?s'"
      using c count True step s1(1) h(1)
      by (auto simp: free_DIR_def get_DIR_id_def upd_task_def on_links_def mf intro!: kstate.equality)
    moreover have "freed_tables d n ?s0 = freed_tables d n s" by (simp add: freed_tables_def fun_eq_iff)
    ultimately show ?thesis using dirs' [OF refl m2, of h] True s1(3-5) m2
      by (intro that [of ?s' ?s2 ?D h]) simp_all
  qed
qed

section \<open>The semaphores\<close>

lemma v_destroy_sels [simp]:
  "v_free (v_destroy n v) = v_free v" "v_dirs (v_destroy n v) = v_dirs v" "v_kbd (v_destroy n v) = v_kbd v"
  "v_sems (v_destroy n v) t = map_option (removeAll n) (v_sems v t)"
  "v_blocked (v_destroy n v) m = (if m = n then Some [] else v_blocked v m)"
  "v_ready (v_destroy n v) = v_ready v @ the (v_blocked v n)"
  by (simp_all add: v_destroy_def)

lemma fold_v_destroy_sels:
  "v_free (fold v_destroy ns v) = v_free v" "v_dirs (fold v_destroy ns v) = v_dirs v"
  "v_kbd (fold v_destroy ns v) = v_kbd v"
  "v_sems (fold v_destroy ns v) t = map_option (filter (\<lambda>n. n \<notin> set ns)) (v_sems v t)"
  "v_blocked (fold v_destroy ns v) n = (if n \<in> set ns then Some [] else v_blocked v n)"
  "distinct ns \<Longrightarrow> v_ready (fold v_destroy ns v) = v_ready v @ concat (map (\<lambda>n. the (v_blocked v n)) ns)"
proof (induction ns arbitrary: v)
  case (Cons m ns)
  have f: "filter (\<lambda>n. n \<notin> set ns) (removeAll m xs) = filter (\<lambda>n. n \<notin> set (m # ns)) xs" for xs
    by (induction xs) auto
  { case 1 then show ?case by (simp add: Cons(1)) }
  { case 2 then show ?case by (simp add: Cons(2)) }
  { case 3 then show ?case by (simp add: Cons(3)) }
  { case 4 then show ?case by (simp add: Cons(4) f option.map_comp comp_def) }
  { case 5 then show ?case by (simp add: Cons(5)) }
  { case 6
    then have e: "map (\<lambda>n. the (v_blocked (v_destroy m v) n)) ns = map (\<lambda>n. the (v_blocked v n)) ns"
      by auto
    have "distinct ns" using 6 by simp
    from Cons(6) [OF this, of "v_destroy m v"] show ?case unfolding e by simp }
qed (simp_all add: map_option_case split: option.split)

text \<open>The queues after the end of the process of task \<open>c\<close>, which owned the semaphores \<open>ns\<close>.\<close>

definition exit_view :: "nat \<Rightarrow> nat list \<Rightarrow> nat list \<Rightarrow> qview \<Rightarrow> qview" where
  "exit_view c ns ds v =
     v\<lparr>v_free := v_free v @ [c], v_dirs := ds, v_sems := (v_sems v)(c \<mapsto> []),
       v_blocked := (\<lambda>n. if n \<in> set ns then Some [] else v_blocked v n),
       v_ready := v_ready v @ concat (map (\<lambda>n. the (v_blocked v n)) ns)\<rparr>"

lemma exit_view_fold:
  assumes core: "sems_core s v" and ns: "v_sems v c = Some ns" "distinct ns"
  shows "fold v_destroy ns (v\<lparr>v_free := v_free v @ [c], v_dirs := ds\<rparr>) = exit_view c ns ds v"
proof -
  have "map_option (filter (\<lambda>n. n \<notin> set ns)) (v_sems v t) = ((v_sems v)(c \<mapsto> [])) t" for t
  proof (cases "v_sems v t")
    case (Some ms)
    show ?thesis
    proof (cases "t = c")
      case False
      have "n \<notin> set ns" if "n \<in> set ms" for n
      proof
        assume "n \<in> set ns"
        then have "owner (semaphores s n) = Some c" using sems_coreD(6) [OF core ns(1)] by simp
        moreover have "owner (semaphores s n) = Some t" using sems_coreD(6) [OF core Some that] by simp
        ultimately show False using False by simp
      qed
      then have "filter (\<lambda>n. n \<notin> set ns) ms = ms" by (simp add: filter_id_conv)
      with False Some show ?thesis by simp
    qed (use ns(1) in simp)
  qed (use ns(1) in auto)
  then show ?thesis
    by (intro qview.equality) (simp_all add: exit_view_def fold_v_destroy_sels ns(2) fun_eq_iff)
qed

section \<open>\<^verbatim>\<open>sys_exit\<close>\<close>

lemma freed_tables_kernel: "i < NUM_PAG_KERNEL \<Longrightarrow> freed_tables d n s j i = pagusr_table s j i"
  by (simp add: freed_tables_def)

lemma exit_sems_live:
  assumes "sems_live v" "c < NR_TASKS"
  shows "sems_live (exit_view c ns ds v)"
  using assms by (auto simp: sems_live_def exit_view_def)

text \<open>What the memory invariant says of the tasks that remain.\<close>

lemma exit_mem_ok:
  assumes mem: "mem_ok s" and k: "kmap_ok s'" and p: "ptes_ok (pagusr_table s')"
    and T: "pagusr_table s' = (if dir_users s d = {c} then freed_tables d n s else pagusr_table s)"
    and base: "\<And>u. dir_pages_baseAddr (tasks s' u) = (if u = c then None else dir_pages_baseAddr (tasks s u))"
    and same: "idle_task s' = idle_task s" "\<And>u. heap_top (tasks s' u) = heap_top (tasks s u)"
  shows "mem_ok s'"
proof -
  have "spaces_ok s'"
    unfolding spaces_ok_def
  proof (intro allI impI)
    fix u e :: nat
    assume u: "u < 10" "dir_pages_baseAddr (tasks s' u) = Some (e * 1024)"
    then have b: "u \<noteq> c" "dir_pages_baseAddr (tasks s u) = Some (e * TOTAL_PAGES)" by (auto simp: base split: if_splits)
    then have "dir_users s d = {c} \<Longrightarrow> e \<noteq> d" using u(1) by (auto simp: dir_users_def)
    then have "pagusr_table s' e = pagusr_table s e" by (auto simp: T freed_tables_def fun_eq_iff)
    then show "heap_fits (heap_top (tasks s' u)) \<and> (idle_task s' \<noteq> Some u \<longrightarrow> user_mapped (pagusr_table s' e))"
      using mem u(1) b(2) same by (simp add: mem_ok_def spaces_ok_def)
  qed
  with k p show ?thesis by (simp add: mem_ok_def)
qed

lemma sys_exit_ok:
  assumes inv: "kinv s v" and mem: "mem_ok s" and user: "idle_task s \<noteq> Some (current s)"
  defines "c \<equiv> current s" and "ns \<equiv> the (v_sems v (current s))"
  obtains d s' where "sys_exit s = Some s'" "dir_pages_baseAddr (tasks s c) = Some (d * TOTAL_PAGES)" "d < NR_TASKS"
    "\<And>w. w = exit_view c ns (if dir_users s d = {c} then d # v_dirs v else v_dirs v) v \<Longrightarrow>
       kinv s' (w\<lparr>v_ready := tl (v_ready w)\<rparr>) \<and> current s' = v_next s w"
    "mem_ok s'" "kbd_same s s'" "kpc s' = (kpc s)(c := Exited)" "idle_task s' = idle_task s"
    "semaphores s' = (\<lambda>n. if n \<in> set ns then (semaphores s n)\<lparr>used := 0\<rparr> else semaphores s n)"
    "\<And>t. sem_deleted (tasks s' t) =
       (if \<exists>n\<in>set ns. t \<in> set (the (v_blocked v n)) then 1 else sem_deleted (tasks s t))"
    "pagusr_table s' = (if dir_users s d = {c}
       then freed_tables d (nat (get_heap_page_size (heap_top (tasks s c)))) s else pagusr_table s)"
    "cow_count_mem s' 0 = cow_count_mem s 0"
    "\<And>u. heap_top (tasks s' u) = heap_top (tasks s u)"
    "\<And>u. dir_pages_baseAddr (tasks s' u) = (if u = c then None else dir_pages_baseAddr (tasks s u))"
proof -
  obtain i where i: "idle_task s = Some i" "i < NR_TASKS" "c < NR_TASKS" "queues_ok s v {i, c}" "sems_ok s v"
      "dirs_ok s v" "cr3 s = dir_pages_baseAddr (tasks s c)"
    using inv unfolding c_def by (rule kinvE)
  have ci: "c \<noteq> i" using user i(1) by (auto simp: c_def)
  have core: "sems_core s v" and live: "sems_live v" using i(5) by (simp_all add: sems_ok_def)
  obtain d where d: "dir_pages_baseAddr (tasks s c) = Some (d * TOTAL_PAGES)" "d < NR_TASKS"
    using dirs_okD(6,7) [OF i(6) i(3)] kinv_current(2) [OF inv] unfolding c_def by blast
  have ns: "v_sems v c = Some ns"
    using sems_liveD(1) [OF live i(3)] kinv_current(2) [OF inv] by (auto simp: c_def ns_def)
  have dist: "distinct ns"
  proof -
    have "heads v (Task_semaphores c) = Some (map Sem_anchor ns)" using ns by (simp add: heads_def)
    from zlist.distinct_law [OF queues_okD(1) [OF i(4)] this] show ?thesis by (simp add: distinct_map)
  qed
  have F: "v_queue v Free_queue = Some (v_free v)" by (simp add: v_queue_def)
  let ?v1 = "v\<lparr>v_free := v_free v @ [c]\<rparr>"
  have w: "v_move c Free_queue False v = ?v1"
    using v_move_fresh [OF _ F, of c False] kinv_current(1) [OF inv] by (simp add: c_def v_set_queue_def)
  obtain h where h: "update_process_state c (Some Free_queue) False s =
        Some (upd_task c (\<lambda>k. k\<lparr>state := tag_of Free_queue\<rparr>) (s\<lparr>links := h\<rparr>))"
      "queues_ok (upd_task c (\<lambda>k. k\<lparr>state := tag_of Free_queue\<rparr>) (s\<lparr>links := h\<rparr>)) ?v1 ({i, c} - {c})"
    using update_process_state_move [OF i(4) F i(3), of False] unfolding w by blast
  define s1 where "s1 = upd_task c (\<lambda>k. k\<lparr>state := tag_of Free_queue\<rparr>) (s\<lparr>links := h\<rparr>)"
  have q1: "queues_ok s1 ?v1 {i}" using h(2) ci by (simp add: s1_def insert_Diff_if)
  have dirs1: "dirs_ok s1 v" by (rule dirs_ok_cong [OF i(6)]) (simp_all add: s1_def upd_task_def)
  have f1: "dir_pages_baseAddr (tasks s1 u) = dir_pages_baseAddr (tasks s u)" "heap_top (tasks s1 u) = heap_top (tasks s u)" for u
    by (simp_all add: s1_def)
  have users1: "dir_users s1 = dir_users s" by (simp add: dir_users_def f1 fun_eq_iff)
  have k1: "kmap_ok s1" by (rule kmap_ok_cong [of s]) (use mem in \<open>simp_all add: mem_ok_def s1_def\<close>)
  have p1: "ptes_ok (pagusr_table s1)" using mem by (simp add: mem_ok_def s1_def)
  have heap1: "heap_fits (heap_top (tasks s1 c))" using mem i(3) d(1) by (auto simp: mem_ok_def spaces_ok_def f1)
  have d1: "dir_pages_baseAddr (tasks s1 c) = Some (d * TOTAL_PAGES)" using d(1) by (simp add: f1)
  let ?n = "nat (get_heap_page_size (heap_top (tasks s1 c)))"
  let ?ds = "if dir_users s d = {c} then d # v_dirs v else v_dirs v"
  obtain t1 h2 D s2 where s2: "free_DIR c s1 = Some s2" "mm_only s1 t1"
    "s2 = (upd_task c (\<lambda>k. k\<lparr>dir_pages_baseAddr := None\<rparr>) t1)\<lparr>links := h2, dir_status := D\<rparr>"
    "queues_ok s2 (?v1\<lparr>v_dirs := ?ds\<rparr>) {i}" "dirs_ok s2 (?v1\<lparr>v_dirs := ?ds\<rparr>)"
    "ptes_ok (pagusr_table s2)" "pagusr_table s2 = (if dir_users s d = {c} then freed_tables d ?n s1 else pagusr_table s1)"
    "cow_count_mem s2 0 = cow_count_mem s1 0"
    by (rule free_DIR_ok [OF q1 dirs1 _ _ i(3) d1 d(2) k1 p1 heap1, unfolded users1]) simp_all
  note mf = mm_only_fields [OF s2(2)]
  have f2: "semaphores s2 = semaphores s" "idle_task s2 = Some i" "current s2 = c" "cr3 s2 = cr3 s" "kpc s2 = kpc s"
    "dir_pages s2 = dir_pages s" "pagusr_table_addr s2 = pagusr_table_addr s" "tasks_addr s2 = tasks_addr s"
    using i(1) by (simp_all add: s2(3) mf s1_def c_def)
  have t2: "dir_pages_baseAddr (tasks s2 u) = (if u = c then None else dir_pages_baseAddr (tasks s u))"
    "heap_top (tasks s2 u) = heap_top (tasks s u)" "sem_deleted (tasks s2 u) = sem_deleted (tasks s u)" for u
    by (simp_all add: s2(3) mf s1_def)
  have core2: "sems_core s2 (?v1\<lparr>v_dirs := ?ds\<rparr>)" by (rule sems_core_cong [OF core]) (simp_all add: f2)
  have "v_sems (?v1\<lparr>v_dirs := ?ds\<rparr>) (current s2) = Some ns" using ns by (simp add: f2)
  note fs = free_semaphores_core [OF s2(4) core2 this]
  define w where "w = exit_view c ns ?ds v"
  have fold: "fold v_destroy ns (?v1\<lparr>v_dirs := ?ds\<rparr>) = w"
    using exit_view_fold [OF core ns dist, of ?ds] by (simp add: w_def)
  define W where "W = (\<Union>n\<in>set ns. set (the (v_blocked (?v1\<lparr>v_dirs := ?ds\<rparr>) n)))"
  obtain s3 where s3: "free_semaphores c s2 = Some s3" "queues_ok s3 w {i}" "sems_core s3 w"
      "semaphores s3 = (\<lambda>n. if n \<in> set ns then (semaphores s n)\<lparr>used := 0\<rparr> else semaphores s n)"
      "wake_frame W (s2\<lparr>semaphores := semaphores s3\<rparr>) s3"
    using fs unfolding fold f2(1,3) W_def by auto
  note wf = s3(5) [unfolded wake_frame_def sched_frame_def task_kept_def ctrl_frame_def]
  have t3: "dir_pages_baseAddr (tasks s3 u) = dir_pages_baseAddr (tasks s2 u)" "heap_top (tasks s3 u) = heap_top (tasks s2 u)"
      "sem_deleted (tasks s3 u) = (if u \<in> W then 1 else sem_deleted (tasks s2 u))" for u
    using wf by simp_all
  have f3: "idle_task s3 = Some i" "current s3 = c" "cr3 s3 = cr3 s" "kpc s3 = kpc s" "dir_pages s3 = dir_pages s"
      "pagusr_table s3 = pagusr_table s2" "pagusr_table_addr s3 = pagusr_table_addr s" "tasks_addr s3 = tasks_addr s"
    using wf by (simp_all add: f2)
  have sems3: "sems_ok s3 w"
    unfolding sems_ok_def using s3(3) exit_sems_live [OF live i(3)] by (simp add: w_def)
  have dirs3: "dirs_ok s3 w"
    by (rule dirs_ok_cong [OF s2(5)]) (use wf t3 in \<open>simp_all add: w_def exit_view_def\<close>)
  have "dir_pages_baseAddr (tasks s3 (current s3)) = None" by (simp add: f3 t3 t2)
  then obtain s' where s': "sched_next_rr Exited s3 = Some s'" "kinv s' (w\<lparr>v_ready := tl (v_ready w)\<rparr>)" "sched_frame s3 s'"
      "current s' = v_next s3 w" "kpc s' = (kpc s3)(current s3 := Exited)"
    using kinv_sched_next [OF s3(2) f3(1) sems3 dirs3, of Exited] by auto
  note fr = s'(3) [unfolded sched_frame_def task_kept_def]
  have run: "sys_exit s = Some s'"
    unfolding sys_exit_def free_process_def update_process_state_rr_def c_def [symmetric] h(1) [folded s1_def]
    using s2(1) s3(1) s'(1) by simp
  have nx: "v_next s3 w = v_next s w" unfolding v_next_def f3(1) i(1) ..
  have "kmap_ok s3"
    by (rule kmap_ok_cong [of s]) (use mem in \<open>simp_all add: mem_ok_def f3 s2(7) freed_tables_kernel s1_def\<close>)
  then have "mem_ok s3"
  proof (rule exit_mem_ok [OF mem])
    show "ptes_ok (pagusr_table s3)" using s2(6) by (simp only: f3(6))
    have "freed_tables d ?n s1 = freed_tables d ?n s" by (simp add: freed_tables_def s1_def fun_eq_iff)
    then show "pagusr_table s3 = (if dir_users s d = {c} then freed_tables d ?n s else pagusr_table s)"
      using s2(7) by (simp add: f3(6) s1_def)
  qed (simp_all add: f3 t3 t2 i(1))
  then have mem': "mem_ok s'" by (rule mem_ok_sched [OF _ s'(3)])
  have "kbd_same s t1"
    using kbd_same_mm [OF s2(2)] by (simp add: kbd_same_def s1_def upd_task_def)
  then have kbd: "kbd_same s s'" using wf fr by (simp add: kbd_same_def s2(3) upd_task_def)
  show ?thesis
  proof (rule that [OF run d _ mem' kbd])
    show "kinv s' (w'\<lparr>v_ready := tl (v_ready w')\<rparr>) \<and> current s' = v_next s w'" if "w' = exit_view c ns ?ds v" for w'
      using s'(2,4) nx by (simp add: that w_def)
    show "kpc s' = (kpc s)(c := Exited)" "idle_task s' = idle_task s" using s'(5) fr i(1) by (simp_all add: f3)
    show "semaphores s' = (\<lambda>n. if n \<in> set ns then (semaphores s n)\<lparr>used := 0\<rparr> else semaphores s n)"
      using fr s3(4) by simp
    show "sem_deleted (tasks s' t) =
       (if \<exists>n\<in>set ns. t \<in> set (the (v_blocked v n)) then 1 else sem_deleted (tasks s t))" for t
      using fr by (simp add: t3 t2 W_def)
    have "freed_tables d ?n s1 = freed_tables d (nat (get_heap_page_size (heap_top (tasks s c)))) s"
      by (simp add: freed_tables_def s1_def fun_eq_iff)
    then show "pagusr_table s' = (if dir_users s d = {c}
       then freed_tables d (nat (get_heap_page_size (heap_top (tasks s c)))) s else pagusr_table s)"
      using fr s2(7) by (simp add: f3(6)) (simp add: s1_def)
    show "cow_count_mem s' 0 = cow_count_mem s 0" using fr wf s2(8) by (simp add: s1_def)
    show "heap_top (tasks s' u) = heap_top (tasks s u)"
      "dir_pages_baseAddr (tasks s' u) = (if u = c then None else dir_pages_baseAddr (tasks s u))" for u
      using fr by (simp_all add: t3 t2)
  qed
qed

end
