(* ===== verification/Heap_Proofs.thy ===== *)
theory Heap_Proofs
  imports Exit_Proofs Heap
begin

text \<open>
  \<^verbatim>\<open>sys_sbrk\<close>: the call always returns, never lets the heap reach the data pages, maps exactly the
  pages between the old and the new size, and keeps the invariants.
\<close>

section \<open>Tables\<close>

text \<open>The memory invariant depends on the entries below the heap only.\<close>

lemma mem_ok_tables:
  assumes mem: "mem_ok s" and p: "ptes_ok (pagusr_table s')"
    and same: "tasks_addr s' = tasks_addr s" "pagusr_table_addr s' = pagusr_table_addr s" "dir_pages s' = dir_pages s"
      "idle_task s' = idle_task s"
    and base: "\<And>t. dir_pages_baseAddr (tasks s' t) = dir_pages_baseAddr (tasks s t)"
    and kernel: "\<And>j i. j < NR_TASKS \<Longrightarrow> i < NUM_PAG_KERNEL \<Longrightarrow> pagusr_table s' j i = pagusr_table s j i"
    and user: "\<And>j i. USER_FIRST_PAGE \<le> i \<Longrightarrow> i < USER_FIRST_PAGE + NUM_PAG_CODE + NUM_PAG_DATA \<Longrightarrow>
        pte_present (pagusr_table s j i) \<Longrightarrow> pte_present (pagusr_table s' j i)"
    and heap: "\<And>t x. t < NR_TASKS \<Longrightarrow> dir_pages_baseAddr (tasks s t) = Some (x * TOTAL_PAGES) \<Longrightarrow>
        heap_fits (heap_top (tasks s' t))"
  shows "mem_ok s'"
proof -
  have "kmap_ok s'" by (rule kmap_ok_cong [of s]) (use mem same kernel in \<open>simp_all add: mem_ok_def\<close>)
  moreover have "user_mapped (pagusr_table s' d)" if "user_mapped (pagusr_table s d)" for d
    using that user by (simp add: user_mapped_def)
  then have "spaces_ok s'"
    using mem heap by (auto simp: mem_ok_def spaces_ok_def base same(4))
  ultimately show ?thesis using p by (simp add: mem_ok_def)
qed

lemma reserve_frames_mm:
  assumes "reserve_frames alloc_frame free_frame n got s = Some (r, s')" "\<forall>f\<in>set got. f < TOTAL_PAGES"
  shows "mm_only s s' \<and> pagusr_table s' = pagusr_table s \<and> cow_count_mem s' 0 = cow_count_mem s 0 \<and>
    (\<forall>fs. r = Some fs \<longrightarrow> (\<forall>f\<in>set fs. f < TOTAL_PAGES))"
  using assms
proof (induction n arbitrary: got s)
  case (Suc n)
  have freed: "mm_only s s' \<and> pagusr_table s' = pagusr_table s \<and> cow_count_mem s' 0 = cow_count_mem s 0"
    if "free_all free_frame fs s = Some s'" "\<forall>f\<in>set fs. f < TOTAL_PAGES" for fs s s'
    using that
  proof (induction fs arbitrary: s)
    case (Cons f fs)
    obtain s1 where s1: "free_frame f s = Some s1" "mm_only s s1" "pagusr_table s1 = pagusr_table s"
        "cow_count_mem s1 0 = cow_count_mem s 0"
      using free_frame_mm [of f s] Cons.prems(2) by auto
    then have "mm_only s1 s' \<and> pagusr_table s' = pagusr_table s1 \<and> cow_count_mem s' 0 = cow_count_mem s1 0"
      using Cons by simp
    then show ?case using s1 mm_only_trans by metis
  qed simp
  obtain x s1 where x: "alloc_frame s = (x, s1)" by fastforce
  note mm = alloc_frame_mm [OF x]
  show ?case
  proof (cases "x = -1")
    case True
    then obtain s2 where "free_all free_frame got s1 = Some s2" "s' = s2" "r = None"
      using Suc.prems(1) x by (auto simp: bind_eq_Some_conv)
    with freed [of got s1 s2] Suc.prems(2) mm show ?thesis using mm_only_trans by auto
  next
    case False
    obtain f where f: "x = int f" "f \<in> frame_pool" using alloc_frame_ok [OF x False] by blast
    have "reserve_frames alloc_frame free_frame n (got @ [f]) s1 = Some (r, s')"
      using Suc.prems(1) x False f(1) by simp
    from Suc.IH [OF this] f(2) Suc.prems(2)
    have "mm_only s1 s' \<and> pagusr_table s' = pagusr_table s1 \<and> cow_count_mem s' 0 = cow_count_mem s1 0 \<and> (\<forall>fs. r = Some fs \<longrightarrow> (\<forall>f\<in>set fs. f < TOTAL_PAGES))"
      by (auto simp: frame_pool_def)
    then show ?thesis using mm mm_only_trans by auto
  qed
qed auto

text \<open>The tables with the frames \<open>fs\<close> mapped from heap page \<open>pag\<close> on.\<close>

definition heap_tables :: "nat \<Rightarrow> nat \<Rightarrow> nat list \<Rightarrow> kstate \<Rightarrow> nat \<Rightarrow> nat \<Rightarrow> page_table_entry" where
  "heap_tables pt pag fs s j i =
     (if j = pt \<and> i \<le> PAG_LOG_INIT_HEAP - pag \<and> PAG_LOG_INIT_HEAP - pag - i < length fs
      then user_pte (fs ! (PAG_LOG_INIT_HEAP - pag - i)) True else pagusr_table s j i)"

lemma map_heap_pages_ok:
  assumes "pt < NR_TASKS" "pag + length fs \<le> PAG_LOG_INIT_HEAP"
  shows "map_heap_pages pt pag fs s = Some (s\<lparr>pagusr_table := heap_tables pt pag fs s\<rparr>)"
  using assms(2)
proof (induction fs arbitrary: pag s)
  case Nil
  have "heap_tables pt pag [] s = pagusr_table s" by (simp add: heap_tables_def fun_eq_iff)
  then show ?case by simp
next
  case (Cons f fs)
  have p: "PAG_LOG_INIT_HEAP - pag < TOTAL_PAGES" "pag \<le> PAG_LOG_INIT_HEAP" using Cons.prems by simp_all
  let ?s1 = "s\<lparr>pagusr_table := (pagusr_table s)
     (pt := (pagusr_table s pt)(PAG_LOG_INIT_HEAP - pag := user_pte f True))\<rparr>"
  have "heap_tables pt (Suc pag) fs ?s1 j i = heap_tables pt pag (f # fs) s j i" for j i
  proof (cases "j = pt \<and> i \<le> PAG_LOG_INIT_HEAP - pag")
    case True
    then consider "i = PAG_LOG_INIT_HEAP - pag" | "i \<le> PAG_LOG_INIT_HEAP - Suc pag"
        "PAG_LOG_INIT_HEAP - pag - i = Suc (PAG_LOG_INIT_HEAP - Suc pag - i)" "i \<noteq> PAG_LOG_INIT_HEAP - pag"
      using Cons.prems by fastforce
    then show ?thesis using True Cons.prems by cases (auto simp: heap_tables_def)
  next
    case False
    then show ?thesis by (auto simp: heap_tables_def)
  qed
  then have e: "heap_tables pt (Suc pag) fs ?s1 = heap_tables pt pag (f # fs) s" by blast
  have "map_heap_pages pt (Suc pag) fs ?s1 = Some (?s1\<lparr>pagusr_table := heap_tables pt (Suc pag) fs ?s1\<rparr>)"
    by (rule Cons.IH) (use Cons.prems in simp)
  then show ?case
    using p assms(1) by (simp add: heap_page_def set_ss_pag_ok e)
qed

lemma heap_tables_low:
  assumes "i < 284" "pag + length fs \<le> MAX_HEAP_PAGES"
  shows "heap_tables pt pag fs s j i = pagusr_table s j i"
proof -
  have "\<not> PAG_LOG_INIT_HEAP - pag - i < length fs" using assms by linarith
  then show ?thesis by (simp add: heap_tables_def)
qed

lemma heap_tables_ptes:
  assumes "ptes_ok (pagusr_table s)" "\<forall>f\<in>set fs. f < TOTAL_PAGES"
  shows "ptes_ok (heap_tables pt pag fs s)"
  unfolding ptes_ok_def
proof (intro allI impI)
  fix j i :: nat
  assume "j < 10" "i < 1024"
  moreover have "unat (pte_pbase_addr (user_pte (fs ! k) True)) < 1024" if "k < length fs" for k
    using assms(2) that by (subst user_pte_frame) simp_all
  ultimately show "unat (pte_pbase_addr (heap_tables pt pag fs s j i)) < 1024"
    using assms(1) unfolding heap_tables_def ptes_ok_def by (simp only: split: if_splits) simp
qed

text \<open>The test that the new pages are free.\<close>

lemma heap_pages_free_ok:
  assumes "pt < NR_TASKS" "\<And>k. k < n \<Longrightarrow> (\<forall>l<k. \<not> pte_present (pagusr_table s pt (PAG_LOG_INIT_HEAP - (pag + l)))) \<Longrightarrow>
      pag + k \<le> PAG_LOG_INIT_HEAP"
  shows "heap_pages_free pt pag n s = Some (\<forall>k<n. \<not> pte_present (pagusr_table s pt (PAG_LOG_INIT_HEAP - (pag + k))))"
  using assms(2)
proof (induction n arbitrary: pag)
  case (Suc n)
  have p: "pag \<le> PAG_LOG_INIT_HEAP" using Suc.prems [of 0] by simp
  show ?case
  proof (cases "pte_present (pagusr_table s pt (PAG_LOG_INIT_HEAP - pag))")
    case True
    then show ?thesis using p assms(1) by (auto simp: heap_page_def is_ss_pag_free_def intro: exI [of _ 0])
  next
    case False
    have "heap_pages_free pt (Suc pag) n s =
        Some (\<forall>k<n. \<not> pte_present (pagusr_table s pt (PAG_LOG_INIT_HEAP - (Suc pag + k))))"
    proof (rule Suc.IH)
      fix k
      assume k: "k < n" "\<forall>l<k. \<not> pte_present (pagusr_table s pt (PAG_LOG_INIT_HEAP - (Suc pag + l)))"
      have "\<forall>l<Suc k. \<not> pte_present (pagusr_table s pt (PAG_LOG_INIT_HEAP - (pag + l)))"
        using k(2) False by (simp add: All_less_Suc2)
      then show "Suc pag + k \<le> PAG_LOG_INIT_HEAP" using Suc.prems [of "Suc k"] k(1) by simp
    qed
    then show ?thesis using p assms(1) False
      by (simp add: heap_page_def is_ss_pag_free_def All_less_Suc2)
  qed
qed simp

section \<open>The call\<close>

lemma kinv_core:
  assumes "kinv s v" "core_same s s'"
  shows "kinv s' v"
proof -
  obtain i where i: "idle_task s = Some i" "queues_ok s v {i, current s}" "sems_ok s v" "dirs_ok s v"
    "cr3 s = dir_pages_baseAddr (tasks s (current s))"
    using assms(1) by (rule kinvE)
  note c = assms(2) [unfolded core_same_def] and ok = core_same_inv [OF assms(2)]
  show ?thesis
    by (rule kinvI [of _ i]) (use i ok(1) [OF i(2)] ok(2) [OF i(3)] ok(3) [OF i(4)] c in simp_all)
qed

text \<open>Changing page tables above the data pages, frames and the current \<open>heap_top\<close>.\<close>

definition set_heap_top :: "dword \<Rightarrow> kstate \<Rightarrow> kstate" where
  "set_heap_top x s = upd_task (current s) (\<lambda>k. k\<lparr>heap_top := x\<rparr>) s"

lemma heap_change_ok:
  assumes inv: "kinv s v" and mem: "mem_ok s" and mm: "mm_only s s1" and p: "ptes_ok (pagusr_table s1)"
    and low: "\<And>j i. i < 284 \<Longrightarrow> pagusr_table s1 j i = pagusr_table s j i" and x: "heap_fits x"
  shows "kinv (set_heap_top x s1) v" "mem_ok (set_heap_top x s1)" "kbd_same s (set_heap_top x s1)"
    "ctrl_frame s (set_heap_top x s1)"
    "tasks (set_heap_top x s1) = (tasks s)(current s := (tasks s (current s))\<lparr>heap_top := x\<rparr>)"
proof -
  note mf = mm_only_fields [OF mm]
  show "kinv (set_heap_top x s1) v"
    by (rule kinv_core [OF inv]) (simp add: core_same_def set_heap_top_def mf)
  have heap: "heap_fits (heap_top (tasks s t))" if t: "t < NR_TASKS" "dir_pages_baseAddr (tasks s t) \<noteq> None" for t
  proof -
    have "dirs_ok s v" using inv by (simp add: kinv_def)
    from dirs_okD(7) [OF this t(1)] obtain d where "dir_pages_baseAddr (tasks s t) = Some (d * TOTAL_PAGES)"
      using t(2) by blast
    then show ?thesis using mem t(1) by (auto simp: mem_ok_def spaces_ok_def)
  qed
  show "mem_ok (set_heap_top x s1)"
    by (rule mem_ok_tables [OF mem]) (use p x heap in \<open>simp_all add: set_heap_top_def mf low\<close>)
  show "kbd_same s (set_heap_top x s1)"
    using kbd_same_mm [OF mm] by (simp add: kbd_same_def set_heap_top_def upd_task_def)
  show "ctrl_frame s (set_heap_top x s1)" by (simp add: ctrl_frame_def set_heap_top_def mf)
qed (simp add: set_heap_top_def mm_only_fields [OF mm])

text \<open>The new end of the heap.\<close>

definition new_heap_top :: "dword \<Rightarrow> dword \<Rightarrow> dword" where
  "new_heap_top h increment = (if HEAP_START < h - increment then HEAP_START else h - increment)"

definition heap_pages :: "dword \<Rightarrow> nat" where
  "heap_pages h = nat (get_heap_page_size h)"

lemma heap_pages_int: "h \<le> HEAP_START \<Longrightarrow> get_heap_page_size h = int (heap_pages h)"
  by (simp add: heap_pages_def heap_pages_nonneg)

lemma heap_fits_pages: "heap_fits h \<longleftrightarrow> h \<le> HEAP_START \<and> heap_pages h \<le> MAX_HEAP_PAGES"
  by (auto simp: heap_fits_def heap_pages_def nat_le_iff)

lemma new_heap_top_le: "new_heap_top h x \<le> HEAP_START"
  by (simp add: new_heap_top_def not_less)

text \<open>With its guards and the page table evaluated, the call is one of two loops.\<close>

lemma sys_sbrk_unfold:
  assumes h: "heap_top (tasks s (current s)) \<le> HEAP_START" and PT: "get_PT s (current s) = Some d"
    and x: "increment \<noteq> 0" "HEAP_START < heap_top (tasks s (current s)) - increment \<longrightarrow> increment <s 0"
  defines "act \<equiv> heap_pages (heap_top (tasks s (current s)))"
    and "nh \<equiv> new_heap_top (heap_top (tasks s (current s))) increment"
  shows "sys_sbrk increment s =
    (if act < heap_pages nh
     then do { free \<leftarrow> heap_pages_free d act (heap_pages nh - act) s;
               if \<not> free then Some (- ENOMEM, s)
               else do { (r, s) \<leftarrow> reserve_frames alloc_frame free_frame (heap_pages nh - act) [] s;
                         case r of None \<Rightarrow> Some (- ENOMEM, s)
                         | Some frames \<Rightarrow> do { s \<leftarrow> map_heap_pages d act frames s; Some (nh + 1, set_heap_top nh s) } } }
     else do { s \<leftarrow> unmap_heap_pages d (heap_pages nh) (act - heap_pages nh) s;
               s \<leftarrow> Some (set_cr3 (get_DIR s (current s)) s);
               Some (nh, set_heap_top nh s) })"
proof -
  have nh: "get_heap_page_size nh = int (heap_pages nh)"
    unfolding nh_def by (rule heap_pages_int [OF new_heap_top_le])
  have a: "get_heap_page_size (heap_top (tasks s (current s))) = int act"
    unfolding act_def by (rule heap_pages_int [OF h])
  have e: "(if HEAP_START < heap_top (tasks s (current s)) - increment then HEAP_START
      else heap_top (tasks s (current s)) - increment) = nh"
    by (simp add: nh_def new_heap_top_def)
  have guards: "(increment = 0) = False"
    "(HEAP_START < heap_top (tasks s (current s)) - increment \<and> \<not> increment <s 0) = False"
    using x by auto
  have nats: "nat (int k - int m) = k - m" for k m by simp
  show ?thesis
    unfolding sys_sbrk_def Let_def guards if_False e nh a PT set_heap_top_def bind.bind_lunit nats nat_int of_nat_less_iff ..
qed

text \<open>A page in the way: one that the process has mapped between the old and the new end.\<close>

definition heap_blocked :: "kstate \<Rightarrow> nat \<Rightarrow> nat \<Rightarrow> nat \<Rightarrow> bool" where
  "heap_blocked s d act new \<longleftrightarrow>
     (\<exists>k. act \<le> k \<and> k < new \<and> k \<le> PAG_LOG_INIT_HEAP \<and> pte_present (pagusr_table s d (PAG_LOG_INIT_HEAP - k)))"

text \<open>The data pages are in the way of a heap of more than 228 pages.\<close>

lemma heap_blocked_data:
  assumes "user_mapped (pagusr_table s d)" "act \<le> MAX_HEAP_PAGES" "MAX_HEAP_PAGES < new"
  shows "heap_blocked s d act new"
  unfolding heap_blocked_def
  by (rule exI [of _ MAX_HEAP_PAGES]) (use assms in \<open>simp add: user_mapped_def\<close>)

lemma heap_test:
  assumes um: "user_mapped (pagusr_table s d)" and d: "d < NR_TASKS" and a: "act \<le> MAX_HEAP_PAGES" "act < new"
  shows "heap_pages_free d act (new - act) s = Some (\<not> heap_blocked s d act new)"
proof -
  have bound: "act + k \<le> PAG_LOG_INIT_HEAP"
    if "\<forall>l<k. \<not> pte_present (pagusr_table s d (PAG_LOG_INIT_HEAP - (act + l)))" for k
  proof (rule ccontr)
    assume "\<not> act + k \<le> PAG_LOG_INIT_HEAP"
    then have "MAX_HEAP_PAGES - act < k" using a by simp
    then have "\<not> pte_present (pagusr_table s d (PAG_LOG_INIT_HEAP - (act + (MAX_HEAP_PAGES - act))))" using that by blast
    then show False using um a(1) by (simp add: user_mapped_def)
  qed
  have "(\<forall>k<new - act. \<not> pte_present (pagusr_table s d (PAG_LOG_INIT_HEAP - (act + k)))) \<longleftrightarrow> \<not> heap_blocked s d act new"
  proof
    assume free: "\<forall>k<new - act. \<not> pte_present (pagusr_table s d (PAG_LOG_INIT_HEAP - (act + k)))"
    show "\<not> heap_blocked s d act new"
    proof
      assume "heap_blocked s d act new"
      then obtain k where "act \<le> k" "k < new" "pte_present (pagusr_table s d (PAG_LOG_INIT_HEAP - k))"
        by (auto simp: heap_blocked_def)
      with free show False by (auto dest: spec [of _ "k - act"])
    qed
  next
    assume nb: "\<not> heap_blocked s d act new"
    then have "new \<le> MAX_HEAP_PAGES" using heap_blocked_data [OF um a(1), of new] by force
    with nb show "\<forall>k<new - act. \<not> pte_present (pagusr_table s d (PAG_LOG_INIT_HEAP - (act + k)))"
      by (auto simp: heap_blocked_def)
  qed
  then show ?thesis using heap_pages_free_ok [OF d, of "new - act" s act] bound by simp
qed

text \<open>The loop that gives pages back.\<close>

lemma unmap_heap_pages_ok:
  assumes pt: "pt < NR_TASKS" and ok: "ptes_ok (pagusr_table s)" and n: "pag + n \<le> PAG_LOG_INIT_HEAP"
  shows "\<exists>s'. unmap_heap_pages pt pag n s = Some s' \<and> mm_only s s' \<and> ptes_ok (pagusr_table s') \<and>
           cow_count_mem s' 0 = cow_count_mem s 0 \<and>
           pagusr_table s' = (\<lambda>j i. if j = pt \<and> i \<in> (\<lambda>k. PAG_LOG_INIT_HEAP - (pag + k)) ` {..<n} then 0
                                   else pagusr_table s j i)"
proof -
  have bound: "PAG_LOG_INIT_HEAP - (pag + k) < TOTAL_PAGES" if "k < n" for k by simp
  have "unmap_heap_pages pt pag n s =
      for_range 0 n (\<lambda>i s. do { frame \<leftarrow> get_frame pt (PAG_LOG_INIT_HEAP - (pag + i)) s; s \<leftarrow> free_frame frame s;
                                upd_pte pt (PAG_LOG_INIT_HEAP - (pag + i)) (\<lambda>_. 0) s }) s"
    unfolding unmap_heap_pages_def
    by (rule for_range_cong) (use n in \<open>simp add: heap_page_def del_ss_pag_def [abs_def]\<close>)
  then show ?thesis
    using free_pages_loop [OF pt ok, of n "\<lambda>k. PAG_LOG_INIT_HEAP - (pag + k)" "\<lambda>k. PAG_LOG_INIT_HEAP - (pag + k)", OF bound bound]
    by simp
qed

text \<open>The call with an increment that is not refused at once.\<close>

lemma sys_sbrk_ok:
  assumes inv: "kinv s v" and mem: "mem_ok s" and user: "idle_task s \<noteq> Some (current s)"
    and x: "increment \<noteq> 0" "HEAP_START < heap_top (tasks s (current s)) - increment \<longrightarrow> increment <s 0"
  defines "act \<equiv> heap_pages (heap_top (tasks s (current s)))"
    and "nh \<equiv> new_heap_top (heap_top (tasks s (current s))) increment"
  defines "new \<equiv> heap_pages nh"
  obtains
    (blocked) d where "get_PT s (current s) = Some d" "act < new" "heap_blocked s d act new"
      "sys_sbrk increment s = Some (- ENOMEM, s)"
  | (no_frames) d s' where "get_PT s (current s) = Some d" "act < new" "\<not> heap_blocked s d act new"
      "card (frames.available s) < new - act" "sys_sbrk increment s = Some (- ENOMEM, s')"
      "mm_only s s'" "pagusr_table s' = pagusr_table s" "frame_used s' = frame_used s"
      "cow_count_mem s' 0 = cow_count_mem s 0"
  | (grown) d fs s1 where "get_PT s (current s) = Some d" "act < new" "\<not> heap_blocked s d act new"
      "new - act \<le> card (frames.available s)" "heap_fits nh"
      "sys_sbrk increment s = Some (nh + 1, set_heap_top nh s1)" "mm_only s s1"
      "pagusr_table s1 = heap_tables d act fs s" "length fs = new - act" "distinct fs"
      "\<forall>f\<in>set fs. f \<in> frame_pool \<and> \<not> frame_used s f \<and> frame_owned s1 f"
      "cow_count_mem s1 0 = cow_count_mem s 0"
  | (shrunk) d s1 where "get_PT s (current s) = Some d" "new \<le> act" "act \<le> MAX_HEAP_PAGES" "heap_fits nh"
      "sys_sbrk increment s = Some (nh, set_heap_top nh s1)" "mm_only s s1" "ptes_ok (pagusr_table s1)"
      "pagusr_table s1 = (\<lambda>j i. if j = d \<and> PAG_LOG_INIT_HEAP - act < i \<and> i \<le> PAG_LOG_INIT_HEAP - new then 0
                              else pagusr_table s j i)"
      "cow_count_mem s1 0 = cow_count_mem s 0"
proof -
  let ?c = "current s"
  have di: "dirs_ok s v" and cr: "cr3 s = dir_pages_baseAddr (tasks s ?c)" using inv by (auto simp: kinv_def)
  obtain d where base: "dir_pages_baseAddr (tasks s ?c) = Some (d * TOTAL_PAGES)" and d: "d < NR_TASKS"
    using dirs_okD(6,7) [OF di kinv_current(3) [OF inv]] kinv_current(2) [OF inv] by blast
  have k: "kmap_ok s" and p: "ptes_ok (pagusr_table s)" using mem by (simp_all add: mem_ok_def)
  have PT: "get_PT s ?c = Some d" by (rule kmap_PT [OF k base d])
  have hf: "heap_fits (heap_top (tasks s ?c))" and um: "user_mapped (pagusr_table s d)"
    using mem base user kinv_current(3) [OF inv] by (auto simp: mem_ok_def spaces_ok_def)
  have h: "heap_top (tasks s ?c) \<le> HEAP_START" and a: "act \<le> MAX_HEAP_PAGES"
    using hf by (simp_all add: heap_fits_pages act_def)
  have nhl: "nh \<le> HEAP_START" unfolding nh_def by (rule new_heap_top_le)
  note run = sys_sbrk_unfold [OF h PT x, folded act_def nh_def, folded new_def]
  have small: "new \<le> MAX_HEAP_PAGES" if "\<not> heap_blocked s d act new"
    using heap_blocked_data [OF um a, of new] that by force
  consider "act < new" "heap_blocked s d act new"
    | "act < new" "\<not> heap_blocked s d act new" "card (frames.available s) < new - act"
    | "act < new" "\<not> heap_blocked s d act new" "new - act \<le> card (frames.available s)"
    | "new \<le> act" by linarith
  then show ?thesis
  proof cases
    case 1
    have "sys_sbrk increment s = Some (- ENOMEM, s)" using run heap_test [OF um d a 1(1)] 1 by simp
    with PT 1 show ?thesis by (rule blocked)
  next
    case 2
    obtain s' where s': "reserve_frames alloc_frame free_frame (new - act) [] s = Some (None, s')" "frame_used s' = frame_used s"
      using frames.reserve_frames_ok(2) [OF 2(3)] by blast
    have "sys_sbrk increment s = Some (- ENOMEM, s')" using run heap_test [OF um d a 2(1)] 2 s'(1) by simp
    with PT 2 show ?thesis by (rule no_frames) (use reserve_frames_mm [OF s'(1)] s'(2) in simp_all)
  next
    case 3
    obtain fs s' where s': "reserve_frames alloc_frame free_frame (new - act) [] s = Some (Some fs, s')" "length fs = new - act"
        "distinct fs" "\<forall>f\<in>set fs. frame_owned s' f \<and> f \<in> frame_pool \<and> \<not> frame_used s f"
      using frames.reserve_frames_ok(1) [OF 3(3)] by blast
    have mm: "mm_only s s'" "pagusr_table s' = pagusr_table s" "cow_count_mem s' 0 = cow_count_mem s 0"
      using reserve_frames_mm [OF s'(1)] by simp_all
    let ?s1 = "s'\<lparr>pagusr_table := heap_tables d act fs s'\<rparr>"
    have "map_heap_pages d act fs s' = Some ?s1"
      by (rule map_heap_pages_ok [OF d]) (use 3(1) small [OF 3(2)] s'(2) in simp)
    then have r: "sys_sbrk increment s = Some (nh + 1, set_heap_top nh ?s1)"
      using run heap_test [OF um d a 3(1)] 3 s'(1) by simp
    have T: "pagusr_table ?s1 = heap_tables d act fs s" by (simp add: heap_tables_def mm(2) fun_eq_iff)
    have "frame_owned ?s1 f = frame_owned s' f" for f by (simp add: frame_owned_def frame_used_def)
    then have f: "\<forall>f\<in>set fs. f \<in> frame_pool \<and> \<not> frame_used s f \<and> frame_owned ?s1 f" using s'(4) by simp
    have "heap_fits nh" using nhl small [OF 3(2)] by (simp add: heap_fits_pages new_def)
    then show ?thesis by (rule grown [OF PT 3 _ r _ T s'(2,3) f]) (use mm in simp_all)
  next
    case 4
    obtain s1 where s1: "unmap_heap_pages d new (act - new) s = Some s1" "mm_only s s1" "ptes_ok (pagusr_table s1)"
        "cow_count_mem s1 0 = cow_count_mem s 0"
        "pagusr_table s1 = (\<lambda>j i. if j = d \<and> i \<in> (\<lambda>k. PAG_LOG_INIT_HEAP - (new + k)) ` {..<act - new} then 0
                                   else pagusr_table s j i)"
      using unmap_heap_pages_ok [OF d p, of new "act - new"] 4 a by auto
    have img: "i \<in> (\<lambda>k. PAG_LOG_INIT_HEAP - (new + k)) ` {..<act - new} \<longleftrightarrow>
        PAG_LOG_INIT_HEAP - act < i \<and> i \<le> PAG_LOG_INIT_HEAP - new" for i
    proof
      assume "PAG_LOG_INIT_HEAP - act < i \<and> i \<le> PAG_LOG_INIT_HEAP - new"
      then show "i \<in> (\<lambda>k. PAG_LOG_INIT_HEAP - (new + k)) ` {..<act - new}"
        using 4 a by (intro image_eqI [of _ _ "PAG_LOG_INIT_HEAP - new - i"]) auto
    qed (use 4 a in auto)
    note mf = mm_only_fields [OF s1(2)]
    have "set_cr3 (get_DIR s1 (current s1)) s1 = s1" using cr by (simp add: set_cr3_def mf get_DIR_def)
    then have r: "sys_sbrk increment s = Some (nh, set_heap_top nh s1)" using run 4 s1(1) by simp
    have "heap_fits nh" using 4 a nhl by (simp add: heap_fits_pages new_def)
    then show ?thesis by (rule shrunk [OF PT 4 a _ r s1(2,3) s1(5) [unfolded img] s1(4)])
  qed
qed

text \<open>On every branch the call returns and keeps the invariants.\<close>

lemma sys_sbrk_safe:
  assumes inv: "kinv s v" and mem: "mem_ok s" and user: "idle_task s \<noteq> Some (current s)"
  shows "\<exists>r s'. sys_sbrk increment s = Some (r, s') \<and> kinv s' v \<and> mem_ok s' \<and> kbd_same s s' \<and> ctrl_frame s s' \<and>
           idle_task s' = idle_task s"
proof (cases "increment = 0 \<or> HEAP_START < heap_top (tasks s (current s)) - increment \<and> \<not> increment <s 0")
  case True
  then have "\<exists>r. sys_sbrk increment s = Some (r, s)" by (auto simp: sys_sbrk_def Let_def)
  then show ?thesis using inv mem by auto
next
  case False
  let ?h = "heap_top (tasks s (current s))"
  let ?act = "heap_pages ?h" and ?nh = "new_heap_top ?h increment"
  have x: "increment \<noteq> 0" "HEAP_START < ?h - increment \<longrightarrow> increment <s 0" using False by auto
  have p: "ptes_ok (pagusr_table s)" using mem by (simp add: mem_ok_def)
  have finish: ?thesis
    if "sys_sbrk increment s = Some (r, set_heap_top ?nh s1)" "mm_only s s1" "ptes_ok (pagusr_table s1)"
      "\<And>j i. i < 284 \<Longrightarrow> pagusr_table s1 j i = pagusr_table s j i" "heap_fits ?nh" for r s1
    using heap_change_ok [OF inv mem that(2-5)] that(1) mm_only_fields [OF that(2)]
    by (intro exI [of _ r] exI [of _ "set_heap_top ?nh s1"]) (simp add: set_heap_top_def)
  show ?thesis
  proof (rule sys_sbrk_ok [OF inv mem user x])
    assume "sys_sbrk increment s = Some (- ENOMEM, s)"
    then show ?thesis using inv mem by auto
  next
    fix s'
    assume s': "sys_sbrk increment s = Some (- ENOMEM, s')" "mm_only s s'" "pagusr_table s' = pagusr_table s"
    note mf = mm_only_fields [OF s'(2)]
    have "mem_ok s'" by (rule mem_ok_cong [OF mem]) (simp_all add: mf s'(3))
    moreover have "kinv s' v" by (rule kinv_core [OF inv core_same_mm [OF s'(2)]])
    ultimately show ?thesis using s'(1) kbd_same_mm [OF s'(2)] by (auto simp: ctrl_frame_def mf)
  next
    fix d fs s1
    assume s1: "?act < heap_pages ?nh" "sys_sbrk increment s = Some (?nh + 1, set_heap_top ?nh s1)" "mm_only s s1"
      "heap_fits ?nh" "pagusr_table s1 = heap_tables d ?act fs s" "length fs = heap_pages ?nh - ?act"
      "\<forall>f\<in>set fs. f \<in> frame_pool \<and> \<not> frame_used s f \<and> frame_owned s1 f"
    have "heap_pages ?nh \<le> MAX_HEAP_PAGES" using s1(4) by (simp add: heap_fits_pages)
    then have low: "pagusr_table s1 j i = pagusr_table s j i" if "i < 284" for j i
      using heap_tables_low [OF that] that s1(1,6) \<open>heap_pages ?nh \<le> MAX_HEAP_PAGES\<close> by (simp add: s1(5))
    have "ptes_ok (pagusr_table s1)"
      unfolding s1(5) by (rule heap_tables_ptes [OF p]) (use s1(7) in \<open>auto simp: frame_pool_def\<close>)
    from finish [OF s1(2,3) this low s1(4)] show ?thesis .
  next
    fix d s1
    assume s1: "?act \<le> MAX_HEAP_PAGES" "sys_sbrk increment s = Some (?nh, set_heap_top ?nh s1)" "mm_only s s1"
      "heap_fits ?nh" "ptes_ok (pagusr_table s1)"
      "pagusr_table s1 = (\<lambda>j i. if j = d \<and> PAG_LOG_INIT_HEAP - ?act < i \<and> i \<le> PAG_LOG_INIT_HEAP - heap_pages ?nh then 0
                              else pagusr_table s j i)"
    have low: "pagusr_table s1 j i = pagusr_table s j i" if "i < 284" for j i
    proof -
      have "\<not> PAG_LOG_INIT_HEAP - ?act < i" using that s1(1) by linarith
      then show ?thesis by (simp only: s1(6) simp_thms if_False)
    qed
    from finish [OF s1(2,3,5) low s1(4)] show ?thesis .
  qed
qed

end
