(* ===== verification/Fault_Proofs.thy ===== *)
theory Fault_Proofs
  imports Fault Heap_Proofs
begin

text \<open>
  The page fault routine under the invariants: which pages the test of the pointer lets through, the
  copy of a frame through the spare page after the heap, and what the routine does to the entry of
  the page and to the counters.
\<close>

section \<open>The pages \<^verbatim>\<open>access_ok\<close> accepts\<close>

lemma access_ok_pages:
  assumes acc: "access_ok t addr sz s" and h: "heap_fits (heap_top (tasks s (current s)))"
  shows "USER_FIRST_PAGE \<le> unat (drop_bit 12 addr)" "unat (drop_bit 12 addr) \<le> PAG_LOG_INIT_HEAP"
proof -
  let ?h = "heap_pages (heap_top (tasks s (current s)))" and ?a = "unat (drop_bit 12 addr)"
  have hp: "?h \<le> MAX_HEAP_PAGES" "get_heap_page_size (heap_top (tasks s (current s))) = int ?h"
    using h heap_pages_int by (auto simp: heap_fits_pages)
  have sub: "unat ((511 :: dword) - of_nat ?h) = 511 - ?h" using hp(1) by (simp add: unat_sub word_le_nat_alt unsigned_of_nat take_bit_nat_eq_self)
  have heap: "511 - ?h \<le> ?a \<and> ?a \<le> 511" if "in_heap (drop_bit 12 addr) s"
    using that sub by (simp add: in_heap_def hp(2) word_le_nat_alt)
  from acc have "256 \<le> ?a \<and> ?a \<le> 284 \<or> in_heap (drop_bit 12 addr) s"
    by (auto simp: access_ok_def Let_def not_less word_le_nat_alt split: if_splits)
  then show "256 \<le> ?a" "?a \<le> 511" using heap hp(1) by auto
qed

lemma signed_page:
  assumes "unat (drop_bit 12 addr) \<le> 511"
  shows "unat (signed_drop_bit 12 (addr :: dword)) = unat (drop_bit 12 addr)"
proof -
  have "\<not> bit addr n" if "21 \<le> n" for n
  proof
    assume "bit addr n"
    then have "bit (unat (drop_bit 12 addr)) (n - 12)" using that by (simp add: bit_unsigned_iff bit_simps)
    then have "2 ^ (n - 12) \<le> unat (drop_bit 12 addr)" by (simp add: bit_nat_iff bit_iff_odd) (metis div_less linorder_not_less odd_pos less_irrefl)
    moreover have "(2 :: nat) ^ 9 \<le> 2 ^ (n - 12)" using that by (intro power_increasing) auto
    ultimately show False using assms by simp
  qed
  then have "signed_drop_bit 12 addr = drop_bit 12 addr"
    by (intro bit_word_eqI) (auto simp: bit_simps)
  then show ?thesis by simp
qed

section \<open>Copying a page\<close>

text \<open>Page \<open>page\<close> is copied to frame \<open>fn\<close>, which the spare page maps during the copy.\<close>

definition frame_copied :: "nat \<Rightarrow> nat \<Rightarrow> (dword \<Rightarrow> byte) \<Rightarrow> (dword \<Rightarrow> byte) \<Rightarrow> bool" where
  "frame_copied f fn m m' \<longleftrightarrow>
     (\<forall>i<PAGE_SIZE. m' (of_nat (fn * PAGE_SIZE + i)) = m (of_nat (f * PAGE_SIZE + i))) \<and>
     (\<forall>x. (\<forall>i<PAGE_SIZE. x \<noteq> of_nat (fn * PAGE_SIZE + i)) \<longrightarrow> m' x = m x)"

lemma frame_address_inj:
  assumes "f < TOTAL_PAGES" "g < TOTAL_PAGES" "i < PAGE_SIZE" "j < PAGE_SIZE"
    and "(of_nat (f * PAGE_SIZE + i) :: dword) = of_nat (g * PAGE_SIZE + j)"
  shows "f = g \<and> i = j"
proof -
  have "f * PAGE_SIZE + i = g * PAGE_SIZE + j"
    using arg_cong [OF assms(5), of unat] address_parts(5) [OF assms(1,3)] address_parts(5) [OF assms(2,4)]
    by simp
  then have "(f * PAGE_SIZE + i) div PAGE_SIZE = (g * PAGE_SIZE + j) div PAGE_SIZE"
    "(f * PAGE_SIZE + i) mod PAGE_SIZE = (g * PAGE_SIZE + j) mod PAGE_SIZE" by simp_all
  with assms(3,4) show ?thesis by simp
qed

abbreviation (input) "SPARE_PAGE \<equiv> (512 :: nat)"

lemma copy_frame_ok:
  assumes mem: "mem_ok s" and cr3: "cr3 s = Some (d * TOTAL_PAGES)" "d < NR_TASKS" "get_DIR s (current s) = cr3 s"
    and page: "page \<le> PAG_LOG_INIT_HEAP" "pte_present (pagusr_table s d page)"
    and f: "f = unat (pte_pbase_addr (pagusr_table s d page))" "f \<noteq> fn" "fn < TOTAL_PAGES"
  obtains m where "copy_frame d page fn s = Some (s\<lparr>pmem := m,
      pagusr_table := (pagusr_table s)(d := (pagusr_table s d)(SPARE_PAGE := 0))\<rparr>)"
    "frame_copied f fn (pmem s) m"
proof -
  let ?s = "s\<lparr>pagusr_table := (pagusr_table s)(d := (pagusr_table s d)(SPARE_PAGE := user_pte fn True))\<rparr>"
  have p: "ptes_ok (pagusr_table s)" using mem by (simp add: mem_ok_def)
  have f1: "f < TOTAL_PAGES" using p cr3(2) page(1) by (auto simp: ptes_ok_def f(1))
  have mem1: "mem_ok ?s"
    by (rule mem_ok_tables [OF mem])
      (use p f(3) mem in \<open>auto simp: ptes_ok_def mem_ok_def spaces_ok_def unsigned_take_bit_eq unsigned_of_nat take_bit_nat_eq_self\<close>)
  have src: "translate ?s (of_nat (page * PAGE_SIZE + i)) = Some (of_nat (f * PAGE_SIZE + i))" if "i < PAGE_SIZE" for i
    using mem_translate(1) [OF mem1 _ cr3(2) _ that, of page] cr3(1) page by (simp add: f(1))
  have dst: "translate ?s (of_nat (SPARE_PAGE * PAGE_SIZE + i)) = Some (of_nat (fn * PAGE_SIZE + i))" if "i < PAGE_SIZE" for i
    using mem_translate(1) [OF mem1 _ cr3(2) _ that, of SPARE_PAGE] cr3(1)
    by (simp add: user_pte_frame [OF f(3)] del: user_pte_bits(4))
  have cs: "cell_at (translate ?s) (of_nat (page * PAGE_SIZE)) i = of_nat (f * PAGE_SIZE + i)" if "i < PAGE_SIZE" for i
    using src [OF that] by (simp add: cell_at_def)
  have cd: "cell_at (translate ?s) (of_nat (SPARE_PAGE * PAGE_SIZE)) i = of_nat (fn * PAGE_SIZE + i)" if "i < PAGE_SIZE" for i
    using dst [OF that] by (simp add: cell_at_def)
  have "copy_region (translate ?s) (of_nat (page * PAGE_SIZE)) (of_nat (SPARE_PAGE * PAGE_SIZE)) PAGE_SIZE"
    unfolding copy_region_def
  proof (intro conjI)
    show "mapped (translate ?s) (of_nat (page * PAGE_SIZE)) PAGE_SIZE" using src by (simp add: mapped_def)
    show "mapped (translate ?s) (of_nat (SPARE_PAGE * PAGE_SIZE)) PAGE_SIZE" using dst by (simp add: mapped_def)
    show "inj_on (cell_at (translate ?s) (of_nat (SPARE_PAGE * PAGE_SIZE))) {..<PAGE_SIZE}"
    proof (rule inj_onI)
      fix i j
      assume "i \<in> {..<PAGE_SIZE}" "j \<in> {..<PAGE_SIZE}" and e: "cell_at (translate ?s) (of_nat (SPARE_PAGE * PAGE_SIZE)) i =
          cell_at (translate ?s) (of_nat (SPARE_PAGE * PAGE_SIZE)) j"
      then have i: "i < PAGE_SIZE" "j < PAGE_SIZE" by simp_all
      show "i = j" using frame_address_inj [OF f(3,3) i] e unfolding cd [OF i(1)] cd [OF i(2)] by blast
    qed
    have "cell_at (translate ?s) (of_nat (page * PAGE_SIZE)) i \<noteq> cell_at (translate ?s) (of_nat (SPARE_PAGE * PAGE_SIZE)) j"
      if "i < PAGE_SIZE" "j < PAGE_SIZE" for i j
      unfolding cs [OF that(1)] cd [OF that(2)] using frame_address_inj [OF f1 f(3) that] f(2) by blast
    then show "cell_at (translate ?s) (of_nat (page * PAGE_SIZE)) ` {..<PAGE_SIZE} \<inter>
        cell_at (translate ?s) (of_nat (SPARE_PAGE * PAGE_SIZE)) ` {..<PAGE_SIZE} = {}"
      by blast
  qed
  then obtain s2 where s2: "copy_data (of_nat (page * PAGE_SIZE)) (of_nat (SPARE_PAGE * PAGE_SIZE)) (int PAGE_SIZE) ?s = Some s2"
      "copied (translate ?s) PAGE_SIZE (of_nat (page * PAGE_SIZE)) (of_nat (SPARE_PAGE * PAGE_SIZE)) (pmem ?s) (pmem s2)"
    using copy_data_ok by blast
  obtain m where m: "s2 = ?s\<lparr>pmem := m\<rparr>" using copy_data_frame [OF s2(1)] by blast
  have "pmem s2 = m" "pmem ?s = pmem s" by (simp_all add: m)
  note c = s2(2) [unfolded copied_def this]
  have "copy_frame d page fn s = Some (s\<lparr>pmem := m,
      pagusr_table := (pagusr_table s)(d := (pagusr_table s d)(SPARE_PAGE := 0))\<rparr>)"
    using s2(1) cr3 by (simp add: copy_frame_def set_ss_pag_ok del_ss_pag_ok m set_cr3_def get_DIR_def)
  moreover have "frame_copied f fn (pmem s) m"
    unfolding frame_copied_def
  proof (intro conjI allI impI)
    fix i assume i: "i < PAGE_SIZE"
    show "m (of_nat (fn * PAGE_SIZE + i)) = pmem s (of_nat (f * PAGE_SIZE + i))"
      using conjunct1 [OF c, rule_format, OF i] unfolding cs [OF i] cd [OF i] .
  next
    fix x :: dword
    assume x: "\<forall>i<PAGE_SIZE. x \<noteq> of_nat (fn * PAGE_SIZE + i)"
    have "x \<notin> cell_at (translate ?s) (of_nat (SPARE_PAGE * PAGE_SIZE)) ` {..<PAGE_SIZE}"
    proof
      assume "x \<in> cell_at (translate ?s) (of_nat (SPARE_PAGE * PAGE_SIZE)) ` {..<PAGE_SIZE}"
      then obtain i where i: "i < PAGE_SIZE" "x = cell_at (translate ?s) (of_nat (SPARE_PAGE * PAGE_SIZE)) i" by blast
      have "x = of_nat (fn * PAGE_SIZE + i)" using i(2) unfolding cd [OF i(1)] .
      with x i(1) show False by blast
    qed
    then show "m x = pmem s x" using conjunct2 [OF c] by blast
  qed
  ultimately show ?thesis by (rule that)
qed

text \<open>A frame that is copied to itself, and a page that is not mapped.\<close>

lemma copy_frame_same:
  assumes mem: "mem_ok s" and cr3: "cr3 s = Some (d * TOTAL_PAGES)" "d < NR_TASKS" "get_DIR s (current s) = cr3 s"
    and page: "page \<le> PAG_LOG_INIT_HEAP" "pte_present (pagusr_table s d page)"
    and f: "f = unat (pte_pbase_addr (pagusr_table s d page))" "f < TOTAL_PAGES"
  shows "copy_frame d page f s = Some (s\<lparr>pagusr_table := (pagusr_table s)(d := (pagusr_table s d)(SPARE_PAGE := 0))\<rparr>)"
proof -
  let ?s = "s\<lparr>pagusr_table := (pagusr_table s)(d := (pagusr_table s d)(SPARE_PAGE := user_pte f True))\<rparr>"
  have p: "ptes_ok (pagusr_table s)" using mem by (simp add: mem_ok_def)
  have mem1: "mem_ok ?s"
    by (rule mem_ok_tables [OF mem])
      (use p f(2) mem in \<open>auto simp: ptes_ok_def mem_ok_def spaces_ok_def unsigned_take_bit_eq unsigned_of_nat take_bit_nat_eq_self\<close>)
  have src: "translate ?s (of_nat (page * PAGE_SIZE + i)) = Some (of_nat (f * PAGE_SIZE + i))" if "i < PAGE_SIZE" for i
    using mem_translate(1) [OF mem1 _ cr3(2) _ that, of page] cr3(1) page by (simp add: f(1))
  have dst: "translate ?s (of_nat (SPARE_PAGE * PAGE_SIZE + i)) = Some (of_nat (f * PAGE_SIZE + i))" if "i < PAGE_SIZE" for i
    using mem_translate(1) [OF mem1 _ cr3(2) _ that, of SPARE_PAGE] cr3(1)
    by (simp add: user_pte_frame [OF f(2)] del: user_pte_bits(4))
  have "same_cells ?s (of_nat (page * PAGE_SIZE)) (of_nat (SPARE_PAGE * PAGE_SIZE)) PAGE_SIZE"
    unfolding same_cells_def
  proof (intro allI impI)
    fix i assume i: "i < PAGE_SIZE"
    show "translate ?s (of_nat (page * PAGE_SIZE) + of_nat i) \<noteq> None \<and>
        translate ?s (of_nat (SPARE_PAGE * PAGE_SIZE) + of_nat i) = translate ?s (of_nat (page * PAGE_SIZE) + of_nat i)"
      using src [OF i] dst [OF i] unfolding of_nat_add by simp
  qed
  from copy_data_same [OF this] cr3 show ?thesis
    by (simp add: copy_frame_def set_ss_pag_ok del_ss_pag_ok set_cr3_def get_DIR_def)
qed

lemma copy_frame_none:
  assumes mem: "mem_ok s" and cr3: "cr3 s = Some (d * TOTAL_PAGES)" "d < NR_TASKS"
    and page: "page \<le> PAG_LOG_INIT_HEAP" "\<not> pte_present (pagusr_table s d page)" and fn: "fn < TOTAL_PAGES"
  shows "copy_frame d page fn s = None"
proof -
  let ?s = "s\<lparr>pagusr_table := (pagusr_table s)(d := (pagusr_table s d)(SPARE_PAGE := user_pte fn True))\<rparr>"
  have p: "ptes_ok (pagusr_table s)" using mem by (simp add: mem_ok_def)
  have mem1: "mem_ok ?s"
    by (rule mem_ok_tables [OF mem])
      (use p fn mem in \<open>auto simp: ptes_ok_def mem_ok_def spaces_ok_def unsigned_take_bit_eq unsigned_of_nat take_bit_nat_eq_self\<close>)
  have "translate ?s (of_nat (page * PAGE_SIZE)) = None"
    using mem_translate(1) [OF mem1 _ cr3(2), of page 0] cr3(1) page by simp
  from copy_data_unmapped [OF this] cr3(2) show ?thesis by (simp add: copy_frame_def set_ss_pag_ok)
qed

section \<open>The routine\<close>

text \<open>
  A page whose frame has no other user left becomes writable; a shared page gets the lowest free
  frame with a copy of its content, also when that is the page's own frame, freed while the entry
  was left; a page that is not shared, or the lack of a frame, stops the machine.
\<close>

lemma pf_rsi_ok:
  assumes inv: "kinv s v" and mem: "mem_ok s" and acc: "access_ok VERIFY_WRITE address 1 s"
  defines "page \<equiv> unat (drop_bit 12 address)"
  obtains d f where "get_PT s (current s) = Some d" "f = unat (pte_pbase_addr (pagusr_table s d page))"
    "d < NR_TASKS" "cr3 s = Some (d * TOTAL_PAGES)" "f < TOTAL_PAGES"
    "cow_count_mem s f = 0 \<Longrightarrow> pf_rsi address s = None"
    "cow_count_mem s f = 1 \<Longrightarrow> pf_rsi address s = Some (s\<lparr>cow_count_mem := (cow_count_mem s)(f := 0),
       pagusr_table := (pagusr_table s)(d := (pagusr_table s d)(page := user_pte f True))\<rparr>)"
    "2 \<le> cow_count_mem s f \<Longrightarrow> \<forall>g\<in>frame_pool. frame_used s g \<Longrightarrow> pf_rsi address s = None"
    "\<And>g. 2 \<le> cow_count_mem s f \<Longrightarrow> g \<in> frame_pool \<Longrightarrow> \<not> frame_used s g \<Longrightarrow>
       \<forall>h\<in>frame_pool. h < g \<longrightarrow> frame_used s h \<Longrightarrow> \<not> pte_present (pagusr_table s d page) \<Longrightarrow> pf_rsi address s = None"
    "\<And>g. 2 \<le> cow_count_mem s f \<Longrightarrow> g \<in> frame_pool \<Longrightarrow> \<not> frame_used s g \<Longrightarrow>
       \<forall>h\<in>frame_pool. h < g \<longrightarrow> frame_used s h \<Longrightarrow> pte_present (pagusr_table s d page) \<Longrightarrow>
       \<exists>m. frame_copied f g (pmem s) m \<and> pf_rsi address s = Some (s\<lparr>pmem := m,
         phys_mem := (phys_mem s)(g := USED_FRAME),
         cow_count_mem := (cow_count_mem s)(f := cow_count_mem s f - 1, g := 0),
         pagusr_table := (pagusr_table s)(d := (pagusr_table s d)(SPARE_PAGE := 0, page := user_pte g True))\<rparr>)"
proof -
  obtain d where d: "dir_pages_baseAddr (tasks s (current s)) = Some (d * TOTAL_PAGES)" "d < NR_TASKS"
      "cr3 s = Some (d * TOTAL_PAGES)" "get_PT s (current s) = Some d" "heap_fits (heap_top (tasks s (current s)))"
    by (rule current_space [OF inv mem])
  have page: "page \<le> 511" unfolding page_def by (rule access_ok_pages(2) [OF acc d(5)])
  define f where "f = unat (pte_pbase_addr (pagusr_table s d page))"
  have f: "f < TOTAL_PAGES" using mem d(2) page by (auto simp: mem_ok_def ptes_ok_def f_def)
  have unf: "pf_rsi address s = (if cow_count_mem s f = 1
          then set_ss_pag d page f (s\<lparr>cow_count_mem := (cow_count_mem s)(f := 0)\<rparr>)
          else if 2 \<le> cow_count_mem s f
          then (let (frame_new, s) = alloc_frame (s\<lparr>cow_count_mem := (cow_count_mem s)(f := cow_count_mem s f - 1)\<rparr>)
            in if frame_new = -1 then None
               else do { s \<leftarrow> copy_frame d page (nat frame_new) s; set_ss_pag d page (nat frame_new) s })
          else None)"
    using acc d(2,4) page f signed_page [of address]
    by (simp add: pf_rsi_def page_def [symmetric] get_frame_ok f_def [symmetric] Let_def)
  have s0: "frame_used (s\<lparr>cow_count_mem := c\<rparr>) = frame_used s" for c by (simp add: frame_used_def fun_eq_iff)
  show ?thesis
  proof (rule that [OF d(4) f_def d(2,3) f])
    show "cow_count_mem s f = 0 \<Longrightarrow> pf_rsi address s = None" by (simp add: unf)
    show "cow_count_mem s f = 1 \<Longrightarrow> pf_rsi address s = Some (s\<lparr>cow_count_mem := (cow_count_mem s)(f := 0),
       pagusr_table := (pagusr_table s)(d := (pagusr_table s d)(page := user_pte f True))\<rparr>)"
      using d(2) page by (simp add: unf set_ss_pag_ok)
    assume c2: "2 \<le> cow_count_mem s f"
    then have c1: "cow_count_mem s f \<noteq> 1" by (auto simp: word_le_nat_alt)
    let ?s0 = "s\<lparr>cow_count_mem := (cow_count_mem s)(f := cow_count_mem s f - 1)\<rparr>"
    {
      assume "\<forall>g\<in>frame_pool. frame_used s g"
      then have "alloc_frame ?s0 = (-1, ?s0)" by (simp add: alloc_frame_fail s0)
      then show "pf_rsi address s = None" using c1 c2 by (simp add: unf)
    }
    fix g
    assume g: "g \<in> frame_pool" "\<not> frame_used s g" "\<forall>h\<in>frame_pool. h < g \<longrightarrow> frame_used s h"
    let ?s1 = "?s0\<lparr>phys_mem := (phys_mem s)(g := USED_FRAME),
         cow_count_mem := (cow_count_mem s)(f := cow_count_mem s f - 1, g := 0)\<rparr>"
    obtain r s1 where r: "alloc_frame ?s0 = (r, s1)" by fastforce
    have "r \<noteq> -1" using alloc_frame_fail [of ?s0 s1] r g(1,2) s0 by auto
    from alloc_frame_ok [OF r this] obtain g' where g': "r = int g'" "g' \<in> frame_pool" "\<not> frame_used s g'"
        "\<forall>h\<in>frame_pool. h < g' \<longrightarrow> frame_used s h"
        "s1 = ?s0\<lparr>phys_mem := (phys_mem ?s0)(g' := USED_FRAME), cow_count_mem := (cow_count_mem ?s0)(g' := 0)\<rparr>"
      unfolding s0 by blast
    have eq: "g' = g" using g g'(2-4) by (meson linorder_neqE_nat)
    have s1: "s1 = ?s1" using g'(5) by (simp add: eq)
    have g1: "g < TOTAL_PAGES" using g(1) by (simp add: frame_pool_def)
    have mm: "mm_only s ?s1" by simp
    have mem1: "mem_ok ?s1" by (rule mem_ok_cong [OF mem]) simp_all
    have unf1: "pf_rsi address s = do { s \<leftarrow> copy_frame d page g ?s1; set_ss_pag d page g s }"
      using c1 c2 r g'(1) unfolding unf s1 eq by simp
    {
      assume "\<not> pte_present (pagusr_table s d page)"
      then have "copy_frame d page g ?s1 = None" by (intro copy_frame_none [OF mem1]) (use d page g1 in simp_all)
      then show "pf_rsi address s = None" by (simp add: unf1)
    }
    assume src: "pte_present (pagusr_table s d page)"
    obtain m where m: "copy_frame d page g ?s1 = Some (?s1\<lparr>pmem := m,
        pagusr_table := (pagusr_table ?s1)(d := (pagusr_table ?s1 d)(SPARE_PAGE := 0))\<rparr>)"
        "frame_copied f g (pmem ?s1) m"
    proof (cases "f = g")
      case True
      have "copy_frame d page f ?s1 = Some (?s1\<lparr>pagusr_table := (pagusr_table ?s1)(d := (pagusr_table ?s1 d)(SPARE_PAGE := 0))\<rparr>)"
        by (rule copy_frame_same [OF mem1]) (use d page f_def f src in \<open>simp_all add: get_DIR_def\<close>)
      then show ?thesis using that [of "pmem s"] True by (simp add: frame_copied_def)
    next
      case False
      then show ?thesis
        using copy_frame_ok [OF mem1, of d page f g thesis] d page f_def g1 src that by (simp add: get_DIR_def)
    qed
    have "pf_rsi address s = Some (s\<lparr>pmem := m,
         phys_mem := (phys_mem s)(g := USED_FRAME),
         cow_count_mem := (cow_count_mem s)(f := cow_count_mem s f - 1, g := 0),
         pagusr_table := (pagusr_table s)(d := (pagusr_table s d)(SPARE_PAGE := 0, page := user_pte g True))\<rparr>)"
      using m(1) d(2) page unfolding unf1 by (simp add: set_ss_pag_ok)
    then show "\<exists>m. frame_copied f g (pmem s) m \<and> pf_rsi address s = Some (s\<lparr>pmem := m,
         phys_mem := (phys_mem s)(g := USED_FRAME),
         cow_count_mem := (cow_count_mem s)(f := cow_count_mem s f - 1, g := 0),
         pagusr_table := (pagusr_table s)(d := (pagusr_table s d)(SPARE_PAGE := 0, page := user_pte g True))\<rparr>)"
      using m(2) by auto
  qed
qed

text \<open>Whatever the counters and the mapping say, the routine keeps the invariants when it returns.\<close>

lemma copy_frame_shape:
  assumes "copy_frame d page g s = Some s'" "d < NR_TASKS" "get_DIR s (current s) = cr3 s"
  shows "\<exists>m. s' = s\<lparr>pmem := m, pagusr_table := (pagusr_table s)(d := (pagusr_table s d)(SPARE_PAGE := 0))\<rparr>"
proof -
  from assms(1,2) obtain s1 where s1: "copy_data (of_nat (page * PAGE_SIZE)) (of_nat (SPARE_PAGE * PAGE_SIZE)) (int PAGE_SIZE)
        (s\<lparr>pagusr_table := (pagusr_table s)(d := (pagusr_table s d)(SPARE_PAGE := user_pte g True))\<rparr>) = Some s1"
      "do { s2 \<leftarrow> del_ss_pag d SPARE_PAGE s1; Some (set_cr3 (get_DIR s2 (current s2)) s2) } = Some s'"
    by (auto simp: copy_frame_def set_ss_pag_ok bind_eq_Some_conv)
  with copy_data_frame [OF s1(1)] assms(2,3) show ?thesis
    by (auto simp: del_ss_pag_ok set_cr3_def get_DIR_def intro!: exI [of _ "pmem s1"] kstate.equality)
qed

lemma pf_rsi_shape:
  assumes inv: "kinv s v" and mem: "mem_ok s" and run: "pf_rsi address s = Some s'"
  obtains d page m p c T g where "d < NR_TASKS" "256 \<le> page" "page \<le> 511"
    "s' = s\<lparr>pmem := m, phys_mem := p, cow_count_mem := c,
        pagusr_table := (pagusr_table s)(d := T(page := user_pte g True))\<rparr>"
    "T = pagusr_table s d \<or> T = (pagusr_table s d)(SPARE_PAGE := 0)" "g < TOTAL_PAGES"
    "frames_ok s \<Longrightarrow> g \<in> frame_pool \<and> c 0 = 0"
proof -
  have acc: "access_ok VERIFY_WRITE address 1 s" using run by (auto simp: pf_rsi_def split: if_splits)
  obtain d where d: "dir_pages_baseAddr (tasks s (current s)) = Some (d * TOTAL_PAGES)" "d < NR_TASKS"
      "cr3 s = Some (d * TOTAL_PAGES)" "get_PT s (current s) = Some d" "heap_fits (heap_top (tasks s (current s)))"
    by (rule current_space [OF inv mem])
  define page where "page = unat (drop_bit 12 address)"
  have page: "256 \<le> page" "page \<le> 511" unfolding page_def by (rule access_ok_pages [OF acc d(5)])+
  define f where "f = unat (pte_pbase_addr (pagusr_table s d page))"
  have f: "f < TOTAL_PAGES" using mem d(2) page by (auto simp: mem_ok_def ptes_ok_def f_def)
  have pool: "f \<in> frame_pool" if "frames_ok s" "cow_count_mem s f \<noteq> 0"
  proof -
    have "f \<noteq> 0" using that by (cases f) (simp_all add: frames_ok_def)
    then have "pagusr_table s d page \<noteq> 0" unfolding f_def by auto
    moreover have "page < TOTAL_PAGES" using page by simp
    ultimately show ?thesis using that(1) d(2) page(1) unfolding frames_ok_def f_def by blast
  qed
  have "\<exists>m p c T g. s' = s\<lparr>pmem := m, phys_mem := p, cow_count_mem := c,
        pagusr_table := (pagusr_table s)(d := T(page := user_pte g True))\<rparr> \<and>
      (T = pagusr_table s d \<or> T = (pagusr_table s d)(SPARE_PAGE := 0)) \<and> g < TOTAL_PAGES \<and>
      (frames_ok s \<longrightarrow> g \<in> frame_pool \<and> c 0 = 0)"
  proof (cases "cow_count_mem s f = 1")
    case True
    then have "s' = s\<lparr>cow_count_mem := (cow_count_mem s)(f := 0),
        pagusr_table := (pagusr_table s)(d := (pagusr_table s d)(page := user_pte f True))\<rparr>"
      using run acc d(2,4) page f signed_page [of address]
      by (simp add: pf_rsi_def page_def [symmetric] get_frame_ok f_def [symmetric] Let_def set_ss_pag_ok)
    moreover have "frames_ok s \<longrightarrow> f \<in> frame_pool \<and> ((cow_count_mem s)(f := 0)) 0 = 0"
      using True pool by (auto simp: frames_ok_def)
    ultimately show ?thesis using f
      by (intro exI [of _ "pmem s"] exI [of _ "phys_mem s"] exI [of _ "(cow_count_mem s)(f := 0)"]
          exI [of _ "pagusr_table s d"] exI [of _ f]) simp
  next
    case False
    let ?s0 = "s\<lparr>cow_count_mem := (cow_count_mem s)(f := cow_count_mem s f - 1)\<rparr>"
    obtain r s1 where r: "alloc_frame ?s0 = (r, s1)" by fastforce
    with False run acc d(2,4) page f signed_page [of address]
    have r1: "2 \<le> cow_count_mem s f" "r \<noteq> -1" "do { s \<leftarrow> copy_frame d page (nat r) s1; set_ss_pag d page (nat r) s } = Some s'"
      by (auto simp: pf_rsi_def page_def [symmetric] get_frame_ok f_def [symmetric] Let_def split: if_splits)
    from alloc_frame_ok [OF r r1(2)] obtain g where g: "r = int g" "g \<in> frame_pool"
        "s1 = ?s0\<lparr>phys_mem := (phys_mem ?s0)(g := USED_FRAME), cow_count_mem := (cow_count_mem ?s0)(g := 0)\<rparr>"
      by blast
    obtain s2 where s2: "copy_frame d page g s1 = Some s2" "set_ss_pag d page g s2 = Some s'"
      using r1(3) by (auto simp: g(1) bind_eq_Some_conv)
    obtain m where m: "s2 = s1\<lparr>pmem := m, pagusr_table := (pagusr_table s1)(d := (pagusr_table s1 d)(SPARE_PAGE := 0))\<rparr>"
      using copy_frame_shape [OF s2(1) d(2)] d(1,3) g(3) by (auto simp: get_DIR_def)
    have "frames_ok s \<longrightarrow> g \<in> frame_pool \<and> cow_count_mem s1 0 = 0"
      using g(2) r1(1) by (auto simp: g(3) frames_ok_def)
    moreover have "s' = s\<lparr>pmem := m, phys_mem := phys_mem s1, cow_count_mem := cow_count_mem s1,
        pagusr_table := (pagusr_table s)(d := ((pagusr_table s d)(SPARE_PAGE := 0))(page := user_pte g True))\<rparr>"
      using s2(2) d(2) page by (auto simp: set_ss_pag_ok m g(3) intro!: kstate.equality)
    moreover have "g < TOTAL_PAGES" using g(2) by (simp add: frame_pool_def)
    ultimately show ?thesis by blast
  qed
  then show ?thesis using that [OF d(2) page] by blast
qed

lemma pf_rsi_safe:
  assumes inv: "kinv s v" and mem: "mem_ok s" and run: "pf_rsi address s = Some s'"
  shows "kinv s' v" "mem_ok s'" "kbd_same s s'" "ctrl_frame s s'" "idle_task s' = idle_task s"
proof -
  obtain d page m p c T g where d: "d < NR_TASKS" and page: "256 \<le> page" "page \<le> 511"
      and s': "s' = s\<lparr>pmem := m, phys_mem := p, cow_count_mem := c,
        pagusr_table := (pagusr_table s)(d := T(page := user_pte g True))\<rparr>"
      and T: "T = pagusr_table s d \<or> T = (pagusr_table s d)(SPARE_PAGE := 0)" and g: "g < TOTAL_PAGES"
    by (rule pf_rsi_shape [OF inv mem run])
  have Tp: "unat (pte_pbase_addr (T i)) < TOTAL_PAGES" if "i < TOTAL_PAGES" for i
    using T that mem d by (auto simp: mem_ok_def ptes_ok_def)
  have Tl: "T i = pagusr_table s d i" if "i < 512" for i using T that by auto
  show "kinv s' v" by (rule kinv_core [OF inv]) (simp add: core_same_def s')
  show "mem_ok s'"
  proof (rule mem_ok_tables [OF mem])
    show "ptes_ok (pagusr_table s')"
      using mem Tp user_pte_frame [OF g, of True] g
      by (auto simp: s' ptes_ok_def mem_ok_def simp del: user_pte_bits(4))
    show "heap_fits (heap_top (tasks s' t))" if "t < NR_TASKS" "dir_pages_baseAddr (tasks s t) = Some (x * TOTAL_PAGES)" for t x
      using mem that by (auto simp: s' mem_ok_def spaces_ok_def)
  qed (use page in \<open>auto simp: s' Tl\<close>)
  show "kbd_same s s'" "ctrl_frame s s'" "idle_task s' = idle_task s"
    by (simp_all add: s' kbd_same_def ctrl_frame_def)
qed

end
