(* ===== verification/Keyboard_Proofs.thy ===== *)
theory Keyboard_Proofs
  imports Keyboard
begin

text \<open>
  The keyboard interrupt and the blocking read keep the kernel invariant. The readers wait
  in one queue; the interrupt wakes the first of them, ahead of all ready tasks, as soon as
  the bytes it waits for have arrived or the buffer is full.
\<close>

section \<open>Blocking\<close>

lemma block_in_read_ok:
  fixes first :: bool
  assumes inv: "kinv s v" and idle: "idle_task s \<noteq> Some (current s)"
  defines "kbd \<equiv> (if first then current s # v_kbd v else v_kbd v @ [current s])"
  shows "\<exists>s'. block_in_read k first s = Some s' \<and>
           kinv s' (v\<lparr>v_kbd := kbd, v_ready := tl (v_ready v)\<rparr>) \<and> sched_frame s s' \<and>
           current s' = v_next s v \<and> kpc s' = (kpc s)(current s := k)"
proof -
  have d: "v_queue v Keyboard_queue = Some (v_kbd v)" by simp
  have sems: "sems_ok s' (v\<lparr>v_kbd := kbd\<rparr>)" if "semaphores s' = semaphores s" for s'
    by (rule sems_ok_cong [of s v]) (use inv that in \<open>simp_all add: kinv_def\<close>)
  have w: "v_set_queue Keyboard_queue (if first then current s # v_kbd v else v_kbd v @ [current s]) v =
      v\<lparr>v_kbd := kbd\<rparr>"
    by (simp add: v_set_queue_def kbd_def)
  have nx: "v_next s (v\<lparr>v_kbd := kbd\<rparr>) = v_next s v" by (simp add: v_next_def)
  obtain s1 s2 s' where run: "update_process_state (current s) (Some Keyboard_queue) first s = Some s1"
      "update_stats (current s) SYS_TO_BLOCKED s1 = Some s2" "sched_next_rr k s2 = Some s'"
      "current s1 = current s"
    and r: "kinv s' (v\<lparr>v_kbd := kbd, v_ready := tl (v_ready v)\<rparr>)"
      "sched_frame s s'" "current s' = v_next s v" "kpc s' = (kpc s)(current s := k)"
    using block_and_switch [OF inv idle d, of first SYS_TO_BLOCKED k] sems
    unfolding w nx by auto
  have "block_in_read k first s = Some s'" using run by (simp add: block_in_read_def)
  with r show ?thesis by blast
qed

section \<open>The interrupt\<close>

lemma wake_reader_ok:
  assumes inv: "kinv s v" and kbd: "v_kbd v = r # rs"
  defines "w \<equiv> v\<lparr>v_kbd := rs,
                   v_ready := (if idle_task s = Some (current s) then v_ready v else v_ready v @ [current s])\<rparr>"
  shows "\<exists>s'. wake_reader s = Some s' \<and> kinv s' w \<and> sched_frame s s' \<and>
           current s' = r \<and> kpc s' = (kpc s)(current s := Irq_exit)"
proof -
  obtain i where i: "idle_task s = Some i" "queues_ok s v {i, current s}" "sems_ok s v" "dirs_ok s v"
    "cr3 s = dir_pages_baseAddr (tasks s (current s))" "current s < NR_TASKS"
    using inv by (rule kinvE)
  define v1 where "v1 = v\<lparr>v_ready := (if current s = i then v_ready v else v_ready v @ [current s])\<rparr>"
  obtain s1 where s1: "(if Some (current s) \<noteq> idle_task s
        then add_process_to_scheduling (current s) SYS_TO_READY False s else Some s) = Some s1"
      "queues_ok s1 v1 {i}" "sched_frame s s1" "ctrl_frame s s1"
  proof (cases "current s = i")
    case True
    then show ?thesis using that [of s] i(1,2) by (simp add: v1_def)
  next
    case False
    have m: "v_move (current s) Ready_queue False v = v1"
      using v_move_fresh [OF kinv_current(1) [OF inv], of Ready_queue "v_ready v" False] False
      by (simp add: v1_def v_set_queue_def)
    have o: "{i, current s} - {current s} = {i}" using False by auto
    show ?thesis
      using add_process_to_scheduling_ok [OF i(2,6), of SYS_TO_READY False] that False i(1)
      unfolding m o by auto
  qed
  have q: "v_queue v1 Keyboard_queue = Some ([] @ r # rs)" by (simp add: v1_def kbd)
  have L1: "lists_ok (links s1) (heads v1)" using queues_okD(1) [OF s1(2)] .
  have l: "list_first Keyboard_queue (links s1) = Some (Task_anchor r)"
    using zlist.first_law [OF L1 heads_queue [OF q]] by simp
  define v2 where "v2 = v1\<lparr>v_kbd := rs, v_ready := r # v_ready v1\<rparr>"
  have v2: "v_set_queue Ready_queue (if True then r # v_ready v1 else v_ready v1 @ [r])
      (v_set_queue Keyboard_queue ([] @ rs) v1) = v2"
    by (simp add: v2_def v_set_queue_def)
  obtain s2 where s2: "add_process_to_scheduling r BLOCKED_TO_READY True s1 = Some s2"
      "queues_ok s2 v2 {i}" "sched_frame s1 s2" "ctrl_frame s1 s2"
    using wake_ok [OF s1(2) q, of BLOCKED_TO_READY True] unfolding v2 by auto
  have fr: "sched_frame s s2" "ctrl_frame s s2"
    using sched_frame_trans [OF s1(3) s2(3)] ctrl_frame_trans [OF s1(4) s2(4)] by simp_all
  note fr' = fr [unfolded sched_frame_def task_kept_def ctrl_frame_def]
  have "sems_ok s2 v2"
    by (rule sems_ok_cong [OF i(3)]) (use fr' in \<open>simp_all add: v2_def v1_def\<close>)
  moreover have "dirs_ok s2 v2"
    by (rule dirs_ok_cong [OF i(4)]) (use fr' in \<open>simp_all add: v2_def v1_def\<close>)
  moreover have "cr3 s2 = dir_pages_baseAddr (tasks s2 (current s2))" using i(5) fr' by simp
  ultimately obtain s3 where s3: "sched_next_rr Irq_exit s2 = Some s3"
      "kinv s3 (v2\<lparr>v_ready := tl (v_ready v2)\<rparr>)" "sched_frame s2 s3" "current s3 = v_next s2 v2"
      "kpc s3 = (kpc s2)(current s2 := Irq_exit)"
    using kinv_sched_next [OF s2(2), of Irq_exit] i(1) fr' by auto
  have w: "v2\<lparr>v_ready := tl (v_ready v2)\<rparr> = w"
    using i(1) by (auto simp: v2_def v1_def w_def)
  have n: "v_next s2 v2 = r" by (simp add: v_next_def v2_def)
  have "wake_reader s = Some s3"
    using s1(1) l s2(1) s3(1) by (simp add: wake_reader_def list_head_to_task_struct_def)
  then show ?thesis
    using s3 sched_frame_trans [OF fr(1) s3(3)] fr' unfolding w n by auto
qed

text \<open>The four cases of the interrupt.\<close>

definition key_of :: "byte \<Rightarrow> byte option" where
  "key_of value =
     (if drop_bit 7 value = 0 \<and> unat (value AND 0b01111111) < 98
      then Some (char_map ! unat (value AND 0b01111111)) else None)"

lemma keyboard_routine_ignores:
  "key_of value = None \<or> is_buffer_full s \<Longrightarrow> keyboard_routine value s = Some s"
  by (auto simp: keyboard_routine_def key_of_def Let_def split: if_splits)

lemma keyboard_routine_key:
  assumes inv: "kinv s v" and wf: "buffer_wf s" and key: "key_of value = Some key" and nf: "\<not> is_buffer_full s"
  defines "s1 \<equiv> s\<lparr>keyboard_buffer := (keyboard_buffer s)(buff_to s := key),
                   buff_to := (buff_to s + 1) mod KEYBOARD_BUFFER_SIZE\<rparr>"
  shows "keyboard_routine value s =
           (if v_kbd v = [] then Some s1
            else let s2 = s1\<lparr>remaining_to_read := remaining_to_read s - 1\<rparr>
                 in if remaining_to_read s \<le> 1 \<or> is_buffer_full s1 then wake_reader s2 else Some s2)"
    and "kinv s1 v" and "kinv (s1\<lparr>remaining_to_read := n\<rparr>) v"
    and "buffer_wf s1" and "buffer_bytes s1 = buffer_bytes s @ [key]"
proof -
  show k: "kinv s1 v" by (rule kinv_cong [OF inv]) (simp_all add: s1_def)
  show "kinv (s1\<lparr>remaining_to_read := n\<rparr>) v" by (rule kinv_cong [OF inv]) (simp_all add: s1_def)
  have p: "buffer_push key s = Some s1" "buffer_wf s1" "buffer_bytes s1 = buffer_bytes s @ [key]"
    using buffer_push_ok [OF wf nf, of key] by (auto simp: s1_def)
  show "buffer_wf s1" "buffer_bytes s1 = buffer_bytes s @ [key]" by fact+
  have L: "lists_ok (links s1) (heads v)" using k queues_okD(1) by (blast elim: kinvE)
  have e: "list_empty Keyboard_queue (links s1) \<longleftrightarrow> v_kbd v = []"
    using zlist.empty_law [OF L heads_queue [of v Keyboard_queue "v_kbd v"]] by simp
  have f: "is_buffer_full (s1\<lparr>remaining_to_read := n\<rparr>) = is_buffer_full s1"
      "remaining_to_read s1 = remaining_to_read s" for n
    by (simp_all add: is_buffer_full_def s1_def)
  show "keyboard_routine value s =
           (if v_kbd v = [] then Some s1
            else let s2 = s1\<lparr>remaining_to_read := remaining_to_read s - 1\<rparr>
                 in if remaining_to_read s \<le> 1 \<or> is_buffer_full s1 then wake_reader s2 else Some s2)"
    using key nf p(1) e f
    by (auto simp: keyboard_routine_def key_of_def Let_def split: if_splits)
qed

text \<open>The interrupt always returns, and keeps the invariant.\<close>

lemma keyboard_routine_inv:
  assumes inv: "kinv s v" and wf: "buffer_wf s"
  shows "\<exists>s' v'. keyboard_routine value s = Some s' \<and> kinv s' v' \<and> buffer_wf s'"
proof (cases "key_of value = None \<or> is_buffer_full s")
  case True
  with assms show ?thesis using keyboard_routine_ignores by blast
next
  case False
  then obtain key where key: "key_of value = Some key" "\<not> is_buffer_full s" by auto
  note k = keyboard_routine_key [OF assms key]
  let ?s1 = "s\<lparr>keyboard_buffer := (keyboard_buffer s)(buff_to s := key),
               buff_to := (buff_to s + 1) mod KEYBOARD_BUFFER_SIZE\<rparr>"
  let ?s2 = "?s1\<lparr>remaining_to_read := remaining_to_read s - 1\<rparr>"
  have wf2: "buffer_wf ?s2" using k(4) by (simp add: buffer_wf_def)
  show ?thesis
  proof (cases "v_kbd v")
    case Nil
    then show ?thesis using k by auto
  next
    case (Cons r rs)
    obtain s3 w where s3: "wake_reader ?s2 = Some s3" "kinv s3 w" "sched_frame ?s2 s3"
      using wake_reader_ok [OF k(3) Cons, of "remaining_to_read s - 1"] by blast
    have "buffer_wf s3" using wf2 s3(3) by (simp add: buffer_wf_def sched_frame_def)
    then show ?thesis using k(1) k(3) [of "remaining_to_read s - 1"] s3 wf2 Cons by (auto simp: Let_def)
  qed
qed

end
