(* ===== verification/Sched_Proofs.thy ===== *)
theory Sched_Proofs
  imports Semaphore_Proofs
begin

text \<open>
  The clock tick: \<open>execute_scheduling\<close> counts the tick of the current task and, when its quantum
  is over or the idle task can be replaced, rotates the ready queue. The kernel invariant
  version of destroying a semaphore is here as well.
\<close>

section \<open>The tick\<close>

text \<open>The ticks left of a quantum, as \<^verbatim>\<open>update_stats\<close> computes them.\<close>

definition ticks_left :: "dword \<Rightarrow> dword \<Rightarrow> dword" where
  "ticks_left q c = (if 0 <=s q - c then q - c else 0)"

lemma ticks_left_0: "ticks_left q c = 0 \<longleftrightarrow> sint (q - c) \<le> 0"
proof -
  have "sint (q - c) = 0 \<longleftrightarrow> q - c = 0" by (rule signed_eq_0_iff)
  then show ?thesis by (auto simp: ticks_left_def word_sle_eq)
qed

definition tick :: "kstate \<Rightarrow> kstate" where
  "tick s = (let s1 = s\<lparr>current_ticks := current_ticks s + 1\<rparr>
             in upd_st (current s) (\<lambda>x. x\<lparr>remaining_ticks :=
                  ticks_left (quantum (tasks s (current s))) (current_ticks s1)\<rparr>) s1)"

lemma update_sched_data_rr_tick: "update_sched_data_rr s = Some (tick s)"
  by (simp add: update_sched_data_rr_def update_stats_def tick_def ticks_left_def Let_def)

lemma tick_fields [simp]:
  "links (tick s) = links s" "current (tick s) = current s" "idle_task (tick s) = idle_task s"
  "current_ticks (tick s) = current_ticks s + 1" "kpc (tick s) = kpc s"
  "remaining_ticks (st (tasks (tick s) (current s))) =
     ticks_left (quantum (tasks s (current s))) (current_ticks s + 1)"
  "sched_frame s (tick s)"
  by (simp_all add: tick_def upd_st_def upd_task_def sched_frame_def task_kept_def)

lemma kinv_ticks: "kinv s v \<Longrightarrow> kinv (s\<lparr>current_ticks := c\<rparr>) v"
  by (rule kinv_cong) simp_all

lemma kinv_tick: "kinv s v \<Longrightarrow> kinv (tick s) v"
proof -
  assume inv: "kinv s v"
  let ?s = "s\<lparr>current_ticks := current_ticks s + 1\<rparr>"
  have "only_stats (current s) ?s (tick s)"
    unfolding tick_def Let_def only_stats_def upd_st_eq
    by (intro exI [of _ "(st (tasks s (current s)))\<lparr>remaining_ticks :=
          ticks_left (quantum (tasks s (current s))) (current_ticks s + 1)\<rparr>"] exI [of _ "rdtsc_count s"]) simp
  with kinv_ticks [OF inv] show "kinv (tick s) v" by (rule kinv_stats)
qed

text \<open>When the quantum of the current task is over, or something is ready while the idle task runs.\<close>

lemma needs_sched_tick:
  assumes inv: "kinv s v"
  shows "needs_sched_rr (tick s) \<longleftrightarrow>
     (idle_task s = Some (current s) \<and> v_ready v \<noteq> []) \<or>
     sint (quantum (tasks s (current s)) - (current_ticks s + 1)) \<le> 0"
proof -
  have L: "lists_ok (links s) (heads v)" using inv queues_okD(1) by (blast elim: kinvE)
  show ?thesis
    using ready_head(1) [OF L] by (auto simp: needs_sched_rr_def ticks_left_0)
qed

lemma execute_scheduling_stays:
  assumes "kinv s v" "\<not> needs_sched_rr (tick s)"
  shows "execute_scheduling s = Some (tick s)" "kinv (tick s) v"
  using assms kinv_tick by (simp_all add: execute_scheduling_def update_sched_data_rr_tick)

lemma execute_scheduling_switches:
  assumes inv: "kinv s v" and need: "needs_sched_rr (tick s)"
  defines "ready \<equiv> (if idle_task s = Some (current s) then v_ready v else v_ready v @ [current s])"
  shows "\<exists>s'. execute_scheduling s = Some s' \<and> kinv s' (v\<lparr>v_ready := tl ready\<rparr>) \<and> sched_frame s s' \<and>
           current s' = (case ready of [] \<Rightarrow> the (idle_task s) | t # _ \<Rightarrow> t) \<and>
           kpc s' = (kpc s)(current s := Irq_exit) \<and> state (tasks s' (current s')) = ST_RUN"
proof -
  let ?s = "tick s"
  have inv1: "kinv ?s v" by (rule kinv_tick [OF inv])
  obtain i where i: "idle_task s = Some i" "queues_ok ?s v {i, current s}" "sems_ok ?s v" "dirs_ok ?s v"
    "cr3 ?s = dir_pages_baseAddr (tasks ?s (current s))"
    using kinvE [OF inv1] by (metis tick_fields(2,3))
  show ?thesis
  proof (cases "current s = i")
    case True
    obtain s2 where s2: "update_stats (current s) SYS_TO_READY ?s = Some s2"
      using update_stats_returns by blast
    note o2 = update_stats_only [OF s2]
    note f2 = only_stats_fields [OF o2]
    have q: "queues_ok s2 v {i}" using queues_ok_stats [OF o2 i(2)] True by simp
    have "idle_task s2 = Some i" "current s2 = current s" using i(1) by (simp_all add: f2)
    moreover have "sems_ok s2 v" by (rule sems_ok_cong [OF i(3)]) (simp_all add: f2)
    moreover have "dirs_ok s2 v" by (rule dirs_ok_cong [OF i(4)]) (simp_all add: f2)
    ultimately obtain s3 where s3: "sched_next_rr Irq_exit s2 = Some s3" "kinv s3 (v\<lparr>v_ready := tl (v_ready v)\<rparr>)"
        "sched_frame s2 s3" "current s3 = v_next s2 v" "kpc s3 = (kpc s2)(current s := Irq_exit)"
        "state (tasks s3 (v_next s2 v)) = ST_RUN"
      using kinv_sched_next [OF q, of Irq_exit] i(5) f2 by auto
    have "execute_scheduling s = Some s3"
      using need s2 s3(1) True i(1) by (simp add: execute_scheduling_def update_sched_data_rr_tick)
    moreover have "sched_frame s s3"
      by (rule sched_frame_trans [OF tick_fields(7) sched_frame_trans [OF sched_frame_stats [OF o2] s3(3)]])
    ultimately show ?thesis
      using s3 i(1) True by (auto simp: ready_def v_next_def f2 split: list.split)
  next
    case False
    have d: "v_queue v Ready_queue = Some (v_ready v)" by simp
    have w: "v_set_queue Ready_queue (if False then current ?s # v_ready v else v_ready v @ [current ?s]) v =
        v\<lparr>v_ready := v_ready v @ [current s]\<rparr>"
      by (simp add: v_set_queue_def)
    have idle: "idle_task ?s \<noteq> Some (current ?s)" using False i(1) by simp
    have sems: "sems_ok s' (v\<lparr>v_ready := v_ready v @ [current s]\<rparr>)" if "semaphores s' = semaphores ?s" for s'
      by (rule sems_ok_cong [OF i(3) that]) simp_all
    obtain s1 s2 s' where run: "update_process_state (current s) (Some Ready_queue) False ?s = Some s1"
        "update_stats (current s) SYS_TO_READY s1 = Some s2" "sched_next_rr Irq_exit s2 = Some s'"
        "current s1 = current s"
      and r: "kinv s' (v\<lparr>v_ready := tl (v_ready v @ [current s])\<rparr>)" "sched_frame ?s s'"
        "current s' = v_next ?s (v\<lparr>v_ready := v_ready v @ [current s]\<rparr>)"
        "kpc s' = (kpc s)(current s := Irq_exit)"
        "state (tasks s' (v_next ?s (v\<lparr>v_ready := v_ready v @ [current s]\<rparr>))) = ST_RUN"
      using block_and_switch [OF inv1 idle d, of False SYS_TO_READY Irq_exit] sems unfolding w by auto
    have "execute_scheduling s = Some s'"
      using need run False i(1)
      by (simp add: execute_scheduling_def update_sched_data_rr_tick update_process_state_rr_def)
    moreover have "sched_frame s s'" by (rule sched_frame_trans [OF tick_fields(7) r(2)])
    ultimately show ?thesis
      using r False i(1) by (auto simp: ready_def v_next_def split: list.split)
  qed
qed

section \<open>Destroying a semaphore\<close>

lemma sys_sem_destroy_ok:
  assumes inv: "kinv s v" and n: "n < NR_SEMAPHORES" "used (semaphores s n) \<noteq> 0"
    and own: "owner (semaphores s n) = Some o'" "PID (tasks s (current s)) = PID (tasks s o')"
  shows "\<exists>s'. sys_sem_destroy (of_nat n) s = Some (0, s') \<and> kinv s' (v_destroy n v) \<and>
           semaphores s' = (semaphores s)(n := (semaphores s n)\<lparr>used := 0\<rparr>) \<and>
           wake_frame (set (the (v_blocked v n))) (upd_sem n (\<lambda>x. x\<lparr>used := 0\<rparr>) s) s'"
proof -
  obtain i where i: "idle_task s = Some i" "queues_ok s v {i, current s}" "sems_ok s v" "dirs_ok s v"
    "cr3 s = dir_pages_baseAddr (tasks s (current s))"
    using inv by (rule kinvE)
  obtain s' where s': "sys_sem_destroy (of_nat n) s = Some (0, s')"
      "queues_ok s' (v_destroy n v) {i, current s}" "sems_core s' (v_destroy n v)"
      "semaphores s' = (semaphores s)(n := (semaphores s n)\<lparr>used := 0\<rparr>)"
      "wake_frame (set (the (v_blocked v n))) (upd_sem n (\<lambda>x. x\<lparr>used := 0\<rparr>) s) s'"
    using sys_sem_destroy_core [OF i(2) _ n own] i(3) by (auto simp: sems_ok_def)
  note fr = s'(5) [unfolded wake_frame_def sched_frame_def task_kept_def ctrl_frame_def]
  have "kinv s' (v_destroy n v)"
  proof (rule kinvI)
    have "sems_live (v_destroy n v)"
      using i(3) unfolding sems_ok_def sems_live_def v_destroy_def by fastforce
    then show "sems_ok s' (v_destroy n v)" using s'(3) by (simp add: sems_ok_def)
    show "dirs_ok s' (v_destroy n v)"
      by (rule dirs_ok_cong [OF i(4)]) (use fr in \<open>simp_all add: upd_sem_def\<close>)
  qed (use i s'(2) fr in \<open>simp_all add: upd_sem_def\<close>)
  with s' show ?thesis by blast
qed

end
