(* ===== verification/Syscall_Proofs.thy ===== *)
theory Syscall_Proofs
  imports Kernel Fault_Proofs Keyboard_Proofs Sched_Proofs
begin

text \<open>
  What the system calls that do not schedule may change: the console the screen, \<^verbatim>\<open>sys_get_stats\<close>
  the statistics of one task and the caller's memory, a read of the keyboard the caller's memory
  and the start of the buffer.
\<close>

section \<open>The console\<close>

definition console_only :: "kstate \<Rightarrow> kstate \<Rightarrow> bool" where
  "console_only s s' \<longleftrightarrow>
     s'\<lparr>cursor_x := cursor_x s, cursor_y := cursor_y s, screen := screen s, debug_port := debug_port s\<rparr> = s"

lemma console_only_refl [simp]: "console_only s s"
  by (simp add: console_only_def)

lemma console_onlyE:
  assumes "console_only s s'"
  obtains x y scr d where "s' = s\<lparr>cursor_x := x, cursor_y := y, screen := scr, debug_port := d\<rparr>"
proof -
  from assms have "s' = s\<lparr>cursor_x := cursor_x s', cursor_y := cursor_y s', screen := screen s', debug_port := debug_port s'\<rparr>"
    by (cases s; cases s') (simp add: console_only_def)
  then show ?thesis by (rule that)
qed

lemma console_only_upd [simp]:
  "console_only s (s1\<lparr>cursor_x := x\<rparr>) = console_only s s1" "console_only s (s1\<lparr>cursor_y := x\<rparr>) = console_only s s1"
  "console_only s (s1\<lparr>screen := f\<rparr>) = console_only s s1" "console_only s (s1\<lparr>debug_port := d\<rparr>) = console_only s s1"
  by (cases s; cases s1; simp add: console_only_def)+

lemma console_only_trans: "console_only s s1 \<Longrightarrow> console_only s1 s2 \<Longrightarrow> console_only s s2"
  by (elim console_onlyE) simp

lemma printc_only: "console_only s (printc c s)"
  by (simp add: printc_def new_line_def Let_def)

lemma printc_fold_only: "console_only s (fold printc cs s)"
proof (induction cs arbitrary: s)
  case (Cons c cs)
  show ?case using console_only_trans [OF printc_only Cons.IH] by simp
qed simp

text \<open>Writing \<open>n\<close> bytes of an array that has them.\<close>

lemma sys_write_console_fold:
  "nat n \<le> length buf \<Longrightarrow> sys_write_console buf n s = Some (fold printc (take (nat n) buf) s)"
proof -
  have "for_range 0 k (\<lambda>i s. do { assert (i < length buf); Some (printc (buf ! i) s) }) s =
      Some (fold printc (take k buf) s)" if "k \<le> length buf" for k
    using for_range_rule [where I = "\<lambda>i x. x = fold printc (take i buf) s" and lo = 0 and n = k and s = s
        and body = "\<lambda>i s. do { assert (i < length buf); Some (printc (buf ! i) s) }"] that
    by (auto simp: take_Suc_conv_app_nth)
  then show "nat n \<le> length buf \<Longrightarrow> ?thesis" by (simp add: sys_write_console_def)
qed

lemma sys_write_console_only: "sys_write_console buf n s = Some s' \<Longrightarrow> console_only s s'"
proof -
  assume run: "sys_write_console buf n s = Some s'"
  have "for_range lo k (\<lambda>i s. do { assert (i < length buf); Some (printc (buf ! i) s) }) s = Some s' \<Longrightarrow> console_only s s'" for lo k
  proof (induction k arbitrary: lo s)
    case (Suc k)
    from Suc.prems have "for_range (Suc lo) k (\<lambda>i s. do { assert (i < length buf); Some (printc (buf ! i) s) })
        (printc (buf ! lo) s) = Some s'"
      by (auto simp: bind_eq_Some_conv)
    then show ?case using console_only_trans [OF printc_only] Suc.IH by blast
  qed simp
  with run show ?thesis by (simp add: sys_write_console_def)
qed

lemma sys_write_loop_only:
  "sys_write_loop buffer sz offset loc s = Some s' \<Longrightarrow> console_only s s'"
proof (induction buffer sz offset loc s rule: sys_write_loop.induct)
  case (1 buffer sz offset loc s)
  show ?case
  proof (cases "offset < sz \<and> 0 < sz")
    case True
    with 1(2) obtain b s1 where b: "copy_to_local (buffer + of_int offset) (min sz CHUNK_SIZE) loc s = Some b"
        "sys_write_console b (min sz CHUNK_SIZE) s = Some s1"
        "sys_write_loop buffer sz (offset + min sz CHUNK_SIZE) b s1 = Some s'"
      by (subst (asm) sys_write_loop.simps) (auto simp: Let_def bind_eq_Some_conv)
    show ?thesis using 1(1) [OF True refl b(1,2,3)] sys_write_console_only [OF b(2)] console_only_trans by blast
  next
    case False
    then show ?thesis using 1(2) by (subst (asm) sys_write_loop.simps) auto
  qed
qed

lemma sys_write_only: "sys_write fd buffer sz loc s = Some (r, s') \<Longrightarrow> console_only s s'"
  using sys_write_loop_only by (auto simp: sys_write_def Let_def bind_eq_Some_conv split: if_splits)

section \<open>Statistics\<close>

lemma get_stats_from_frame:
  "get_stats_from i n pid p s = Some (r, s') \<Longrightarrow> \<exists>t s1 m. (s1 = s \<or> only_stats t s s1) \<and> s' = s1\<lparr>pmem := m\<rparr>"
proof (induction n arbitrary: i)
  case 0
  then show ?case by (auto intro!: exI [of _ s] exI [of _ "pmem s"])
next
  case (Suc n)
  consider "PID (tasks s i) \<noteq> pid" | "PID (tasks s i) = pid" "state (tasks s i) = ST_INVALID"
    | "PID (tasks s i) = pid" "state (tasks s i) \<noteq> ST_INVALID" by blast
  then show ?case
  proof cases
    case 1
    then show ?thesis using Suc by simp
  next
    case 2
    then show ?thesis using Suc.prems by (auto intro!: exI [of _ s] exI [of _ "pmem s"])
  next
    case 3
    then obtain s1 where s1: "s1 = s \<or> update_stats i REFRESH s = Some s1"
        "write_bytes write_byte s1 p (stats_bytes (st (tasks s1 i))) = Some s'"
      using Suc.prems by (auto simp: bind_eq_Some_conv split: if_splits)
    obtain m where "s' = s1\<lparr>pmem := m\<rparr>" using write_bytes_frame [OF s1(2)] by blast
    then show ?thesis using s1(1) update_stats_only by blast
  qed
qed

section \<open>Reading the keyboard\<close>

text \<open>\<open>s'\<close> differs from \<open>s\<close> in physical memory and in the start of the keyboard buffer at most.\<close>

definition taken_only :: "kstate \<Rightarrow> kstate \<Rightarrow> bool" where
  "taken_only s s' \<longleftrightarrow> s'\<lparr>pmem := pmem s, buff_from := buff_from s\<rparr> = s \<and> (buffer_wf s \<longrightarrow> buffer_wf s')"

lemma taken_onlyE:
  assumes "taken_only s s'"
  obtains m f where "s' = s\<lparr>pmem := m, buff_from := f\<rparr>" "buffer_wf s \<longrightarrow> buffer_wf s'"
proof -
  from assms have "s' = s\<lparr>pmem := pmem s', buff_from := buff_from s'\<rparr>"
    by (cases s; cases s') (simp add: taken_only_def)
  then show ?thesis using assms by (intro that) (auto simp: taken_only_def)
qed

lemma taken_only_refl [simp]: "taken_only s s"
  by (simp add: taken_only_def)

lemma taken_only_trans: "taken_only s s1 \<Longrightarrow> taken_only s1 s2 \<Longrightarrow> taken_only s s2"
  by (elim taken_onlyE) (simp add: taken_only_def)

lemma read_loop_taken:
  "read_loop buffer n cnt s = Some (r, s') \<Longrightarrow> taken_only s s' \<and> cnt \<le> r \<and> r \<le> cnt + n"
proof (induction n arbitrary: cnt s)
  case (Suc n)
  show ?case
  proof (cases "buff_from s = buff_to s")
    case True
    then show ?thesis using Suc.prems by simp
  next
    case False
    define nx where "nx = (if buff_from s + 1 = KEYBOARD_BUFFER_SIZE then 0 else buff_from s + 1)"
    from False Suc.prems obtain s1 where b: "0 \<le> buff_from s" "buff_from s < KEYBOARD_BUFFER_SIZE"
        "write_byte s (buffer + of_nat cnt) (keyboard_buffer s (buff_from s)) = Some s1"
        "read_loop buffer n (cnt + 1) (if buff_from s1 + 1 = KEYBOARD_BUFFER_SIZE
           then s1\<lparr>buff_from := 0\<rparr> else s1\<lparr>buff_from := buff_from s1 + 1\<rparr>) = Some (r, s')"
      by (auto simp: bind_eq_Some_conv split: if_splits)
    obtain m where m: "s1 = s\<lparr>pmem := m\<rparr>" using write_byte_frame [OF b(3)] by blast
    have "taken_only s (s\<lparr>pmem := m, buff_from := nx\<rparr>)"
      using b(1,2) by (auto simp: taken_only_def buffer_wf_def nx_def)
    moreover have "taken_only (s\<lparr>pmem := m, buff_from := nx\<rparr>) s' \<and> cnt + 1 \<le> r \<and> r \<le> cnt + 1 + n"
      using b(4) by (intro Suc.IH) (auto simp: m nx_def split: if_splits)
    ultimately show ?thesis using taken_only_trans by auto
  qed
qed simp

lemma read_from_keyboard_buffer_taken:
  "read_from_keyboard_buffer buffer n s = Some (r, s') \<Longrightarrow> taken_only s s'"
  using read_loop_taken by (fastforce simp: read_from_keyboard_buffer_def bind_eq_Some_conv)

end
