(* ===== verification/Protection.thy ===== *)
theory Protection
  imports Fault_Proofs
begin

text \<open>
  The invariant behind the protection of the kernel's memory. The pages of a task's heap are mapped,
  and of the tasks that share a directory at most one has a heap; so \<^verbatim>\<open>fork\<close> and the page fault never
  take an empty entry for a page to share, and every entry of a user page names a frame of the pool.
\<close>

definition heaps_ok :: "kstate \<Rightarrow> bool" where
  "heaps_ok s \<longleftrightarrow>
     (\<forall>t<NR_TASKS. \<forall>d. dir_pages_baseAddr (tasks s t) = Some (d * TOTAL_PAGES) \<longrightarrow>
        (\<forall>k<heap_pages (heap_top (tasks s t)). pte_present (pagusr_table s d (PAG_LOG_INIT_HEAP - k))) \<and>
        (\<forall>u<NR_TASKS. u \<noteq> t \<longrightarrow> dir_pages_baseAddr (tasks s u) = Some (d * TOTAL_PAGES) \<longrightarrow>
           heap_pages (heap_top (tasks s t)) = 0 \<or> heap_pages (heap_top (tasks s u)) = 0))"

definition protected :: "kstate \<Rightarrow> bool" where
  "protected s \<longleftrightarrow> frames_ok s \<and> heaps_ok s"

lemma heaps_okD:
  assumes "heaps_ok s" "t < NR_TASKS" "dir_pages_baseAddr (tasks s t) = Some (d * TOTAL_PAGES)"
  shows "k < heap_pages (heap_top (tasks s t)) \<Longrightarrow> pte_present (pagusr_table s d (PAG_LOG_INIT_HEAP - k))"
    and "u < NR_TASKS \<Longrightarrow> u \<noteq> t \<Longrightarrow> dir_pages_baseAddr (tasks s u) = Some (d * TOTAL_PAGES) \<Longrightarrow>
      heap_pages (heap_top (tasks s t)) = 0 \<or> heap_pages (heap_top (tasks s u)) = 0"
proof -
  note h = assms(1) [unfolded heaps_ok_def, rule_format, OF assms(2,3)]
  show "pte_present (pagusr_table s d (PAG_LOG_INIT_HEAP - k))" if "k < heap_pages (heap_top (tasks s t))"
    by (rule h [THEN conjunct1, rule_format, OF that])
  show "heap_pages (heap_top (tasks s t)) = 0 \<or> heap_pages (heap_top (tasks s u)) = 0"
    if "u < NR_TASKS" "u \<noteq> t" "dir_pages_baseAddr (tasks s u) = Some (d * TOTAL_PAGES)"
    by (rule h [THEN conjunct2, rule_format, OF that])
qed

lemma frames_okD:
  assumes "frames_ok s" "j < NR_TASKS" "NUM_PAG_KERNEL \<le> i" "i < TOTAL_PAGES"
  shows "pagusr_table s j i = 0 \<or> unat (pte_pbase_addr (pagusr_table s j i)) \<in> frame_pool"
    and "pte_present (pagusr_table s j i) \<Longrightarrow> unat (pte_pbase_addr (pagusr_table s j i)) \<in> frame_pool"
proof -
  show *: "pagusr_table s j i = 0 \<or> unat (pte_pbase_addr (pagusr_table s j i)) \<in> frame_pool"
    using assms by (simp add: frames_ok_def)
  show "unat (pte_pbase_addr (pagusr_table s j i)) \<in> frame_pool" if "pte_present (pagusr_table s j i)"
  proof (cases "pagusr_table s j i = 0")
    case True
    then have "pte_present (0 :: page_table_entry)" using that by (simp only:)
    then show ?thesis by simp
  qed (use * in blast)
qed

lemma heap_pages_top0 [simp]: "heap_pages HEAP_START = 0"
  by (simp add: heap_pages_def)

lemma protected_cong:
  assumes "protected s" "pagusr_table s' = pagusr_table s" "cow_count_mem s' 0 = cow_count_mem s 0"
    "\<And>t. heap_top (tasks s' t) = heap_top (tasks s t)"
    "\<And>t. dir_pages_baseAddr (tasks s' t) = dir_pages_baseAddr (tasks s t)"
  shows "protected s'"
  using assms by (simp add: protected_def frames_ok_def heaps_ok_def)

lemma protected_sched: "protected s \<Longrightarrow> sched_frame s s' \<Longrightarrow> protected s'"
  by (erule protected_cong) (simp_all add: sched_frame_def task_kept_def)

text \<open>The frame of an entry the kernel builds.\<close>

lemma user_pte_pool: "f \<in> frame_pool \<Longrightarrow> unat (pte_pbase_addr (user_pte f rw)) \<in> frame_pool"
  by (subst user_pte_frame) (simp_all add: frame_pool_def)

lemma frames_ok_upd:
  assumes ok: "frames_ok s" and cow: "cow_count_mem s' 0 = 0"
    and T: "\<And>j i. j < NR_TASKS \<Longrightarrow> NUM_PAG_KERNEL \<le> i \<Longrightarrow> i < TOTAL_PAGES \<Longrightarrow>
      pagusr_table s' j i = pagusr_table s j i \<or> pagusr_table s' j i = 0 \<or>
      unat (pte_pbase_addr (pagusr_table s' j i)) \<in> frame_pool"
  shows "frames_ok s'"
  unfolding frames_ok_def
proof (intro conjI allI impI)
  fix j i :: nat
  assume ji: "j < 10" "256 \<le> i" "i < 1024"
  then show "pagusr_table s' j i = 0 \<or> unat (pte_pbase_addr (pagusr_table s' j i)) \<in> frame_pool"
    using T [of j i] frames_okD(1) [OF ok, of j i] by auto
qed (rule cow)

section \<open>\<^verbatim>\<open>sys_fork\<close>\<close>

lemma shared_page_mapped:
  assumes prot: "protected s" and t: "t < NR_TASKS" "dir_pages_baseAddr (tasks s t) = Some (d * TOTAL_PAGES)" "d < NR_TASKS"
    and um: "user_mapped (pagusr_table s d)" and fit: "heap_fits (heap_top (tasks s t))"
    and i: "i \<in> cow_pages (nat (get_heap_page_size (heap_top (tasks s t))))"
  shows "pte_present (pagusr_table s d i)" "frame_of s d i \<in> frame_pool" "i < TOTAL_PAGES" "NUM_PAG_KERNEL \<le> i"
proof -
  have n: "nat (get_heap_page_size (heap_top (tasks s t))) \<le> MAX_HEAP_PAGES" using fit by (simp add: heap_fits_def nat_le_iff)
  show r: "i < TOTAL_PAGES" "NUM_PAG_KERNEL \<le> i" using i n by (auto simp: cow_pages_def)
  show p: "pte_present (pagusr_table s d i)"
    using i um heaps_okD(1) [OF _ t(1,2)] prot by (auto simp: cow_pages_def user_mapped_def protected_def heap_pages_def)
  show "frame_of s d i \<in> frame_pool"
    using frames_okD(2) [OF _ t(3) r(2,1) p] prot by (simp add: protected_def frame_of_def)
qed

lemma protected_fork:
  assumes prot: "protected s" and inv: "kinv s v" and mem: "mem_ok s" and user: "idle_task s \<noteq> Some (current s)"
    and free: "v_free v = t # ts" and run: "sys_fork s = Some (r, s')"
  shows "protected s'"
proof (rule sys_fork_ok [OF inv mem user free])
  let ?c = "current s"
  let ?n = "nat (get_heap_page_size (heap_top (tasks s ?c)))"
  fix d ds dc s1
  assume f: "sys_fork s = Some (last_PID s, s1)" "v_dirs v = d # ds" "get_PT s ?c = Some dc" "get_PT s1 t = Some d" "d \<noteq> dc"
    "kinv s1 (child_view t ts ds v)" "mem_ok s1" "heap_top (tasks s1 t) = heap_top (tasks s ?c)" "t \<noteq> ?c"
    "pagusr_table s1 = fork_tables dc d ?n s" "shared_counts dc (cow_pages ?n) s s1"
    "\<And>u. u \<noteq> t \<Longrightarrow> tasks s1 u = tasks s u"
  have s': "s' = s1" using f(1) run by simp
  have di: "dirs_ok s v" "dirs_ok s1 (child_view t ts ds v)" using inv f(6) by (auto simp: kinv_def)
  obtain x where x: "dir_pages_baseAddr (tasks s ?c) = Some (x * TOTAL_PAGES)" "x < NR_TASKS" "get_PT s ?c = Some x"
      "heap_fits (heap_top (tasks s ?c))" "user_mapped (pagusr_table s x)"
    by (rule current_space [OF inv mem]) (use user in blast)
  have dc: "x = dc" using x(3) f(3) by simp
  note x = x [unfolded dc]
  have d: "d < NR_TASKS" "dir_users s d = {}" using dirs_okD(5) [OF di(1)] f(2) by auto
  note page = shared_page_mapped [OF prot kinv_current(3) [OF inv] x(1,2) x(5) x(4)]
  have zero: "(0 :: nat) \<notin> frame_of s dc ` cow_pages ?n" using page(2) by (fastforce simp: frame_pool_def)
  have cow: "cow_count_mem s1 0 = 0"
    using f(11) zero prot by (simp add: shared_counts_def protected_def frames_ok_def)
  have code: "unat (pte_pbase_addr (pagusr_table s dc i)) \<in> frame_pool" if "PAG_LOG_INIT_CODE \<le> i" "i < PAG_LOG_INIT_DATA" for i
    using frames_okD(2) [of s dc i] prot x(2) x(5) that by (simp add: protected_def user_mapped_def)
  have frames: "frames_ok s1"
  proof (rule frames_ok_upd [OF _ cow])
    show "frames_ok s" using prot by (simp add: protected_def)
    fix j i :: nat
    show "pagusr_table s1 j i = pagusr_table s j i \<or> pagusr_table s1 j i = 0 \<or>
        unat (pte_pbase_addr (pagusr_table s1 j i)) \<in> frame_pool"
      using page(2) [of i] code [of i]
      by (auto simp: f(10) fork_tables_def shared_tables_def frame_of_def user_pte_pool simp del: user_pte_bits(4))
  qed
  have present: "pte_present (pagusr_table s1 j i)" if "pte_present (pagusr_table s j i)" "j \<noteq> d" for j i
    using that by (auto simp: f(10) fork_tables_def shared_tables_def)
  obtain i where "queues_ok s v {i, ?c}" using inv by (rule kinvE)
  then have t: "t < NR_TASKS" by (rule free_head(1) [OF _ free])
  have dt: "y = d" if y: "dir_pages_baseAddr (tasks s1 t) = Some (y * TOTAL_PAGES)" for y
  proof -
    have "y < NR_TASKS" using dirs_okD(7) [OF di(2) t y] by auto
    then show ?thesis using kmap_PT [of s1 t y] y f(4,7) by (simp add: mem_ok_def)
  qed
  have other: "dir_pages_baseAddr (tasks s1 u) \<noteq> Some (d * TOTAL_PAGES)" if "u \<noteq> t" "u < NR_TASKS" for u
    using d(2) that f(12) by (auto simp: dir_users_def)
  have "heaps_ok s1"
    unfolding heaps_ok_def
  proof (intro allI impI conjI)
    fix u y k
    assume u: "u < NR_TASKS" "dir_pages_baseAddr (tasks s1 u) = Some (y * TOTAL_PAGES)"
    show "pte_present (pagusr_table s1 y (PAG_LOG_INIT_HEAP - k))" if k: "k < heap_pages (heap_top (tasks s1 u))"
    proof (cases "u = t")
      case True
      then have "y = d" using dt u by simp
      moreover have "PAG_LOG_INIT_HEAP - k \<in> cow_pages ?n" using k True by (auto simp: cow_pages_def heap_pages_def f(8))
      ultimately show ?thesis using page(1) by (auto simp: f(10) fork_tables_def shared_tables_def)
    next
      case False
      then have "y \<noteq> d" using other u by auto
      then show ?thesis
        using present heaps_okD(1) [of s u y k] prot u k f(12) [OF False] by (simp add: protected_def)
    qed
    fix w
    assume w: "w < NR_TASKS" "w \<noteq> u" "dir_pages_baseAddr (tasks s1 w) = Some (y * TOTAL_PAGES)"
    have "u \<noteq> t" "w \<noteq> t" using other [of u] other [of w] dt u w by auto
    then show "heap_pages (heap_top (tasks s1 u)) = 0 \<or> heap_pages (heap_top (tasks s1 w)) = 0"
      using heaps_okD(2) [of s u y w] prot u w f(12) by (simp add: protected_def)
  qed
  then show ?thesis using frames by (simp add: s' protected_def)
qed

text \<open>A thread gets no heap of its own.\<close>

lemma protected_clone:
  assumes prot: "protected s" and T: "pagusr_table s' = pagusr_table s" "cow_count_mem s' 0 = cow_count_mem s 0"
    and t: "heap_top (tasks s' t) = HEAP_START" and other: "\<And>u. u \<noteq> t \<Longrightarrow> tasks s' u = tasks s u"
  shows "protected s'"
proof -
  have "heaps_ok s'"
    unfolding heaps_ok_def
  proof (intro allI impI conjI)
    fix u y k
    assume u: "u < NR_TASKS" "dir_pages_baseAddr (tasks s' u) = Some (y * TOTAL_PAGES)"
    show "pte_present (pagusr_table s' y (PAG_LOG_INIT_HEAP - k))" if k: "k < heap_pages (heap_top (tasks s' u))"
    proof (cases "u = t")
      case False
      then show ?thesis using heaps_okD(1) [of s u y k] prot u k other [OF False] by (simp add: protected_def T(1))
    qed (use k t in simp)
    fix w
    assume w: "w < NR_TASKS" "w \<noteq> u" "dir_pages_baseAddr (tasks s' w) = Some (y * TOTAL_PAGES)"
    show "heap_pages (heap_top (tasks s' u)) = 0 \<or> heap_pages (heap_top (tasks s' w)) = 0"
    proof (cases "u = t \<or> w = t")
      case False
      then show ?thesis using heaps_okD(2) [of s u y w] prot u w other by (simp add: protected_def)
    qed (use t in auto)
  qed
  then show ?thesis using prot by (simp add: protected_def frames_ok_def T)
qed

section \<open>\<^verbatim>\<open>sys_exit\<close>\<close>

lemma protected_exit:
  assumes prot: "protected s" and base: "dir_pages_baseAddr (tasks s c) = Some (d * TOTAL_PAGES)"
    and T: "pagusr_table s' = (if dir_users s d = {c} then freed_tables d n s else pagusr_table s)"
    and cow: "cow_count_mem s' 0 = cow_count_mem s 0"
    and heap: "\<And>u. heap_top (tasks s' u) = heap_top (tasks s u)"
    and dir: "\<And>u. dir_pages_baseAddr (tasks s' u) = (if u = c then None else dir_pages_baseAddr (tasks s u))"
  shows "protected s'"
proof -
  have fr: "frames_ok s" "frames_ok s'"
    using prot frames_ok_upd [of s s'] by (auto simp: protected_def frames_ok_def cow T freed_tables_def)
  have "heaps_ok s'"
    unfolding heaps_ok_def
  proof (intro allI impI conjI)
    fix u y k
    assume u: "u < NR_TASKS" "dir_pages_baseAddr (tasks s' u) = Some (y * TOTAL_PAGES)"
    then have uc: "u \<noteq> c" "dir_pages_baseAddr (tasks s u) = Some (y * TOTAL_PAGES)" by (auto simp: dir split: if_splits)
    have "y \<noteq> d" if "dir_users s d = {c}" using that uc u(1) by (auto simp: dir_users_def)
    then have row: "pagusr_table s' y = pagusr_table s y" by (auto simp: T freed_tables_def fun_eq_iff)
    show "pte_present (pagusr_table s' y (PAG_LOG_INIT_HEAP - k))" if "k < heap_pages (heap_top (tasks s' u))"
      using heaps_okD(1) [of s u y k] prot u(1) uc(2) that by (simp add: protected_def row heap)
    fix w
    assume w: "w < NR_TASKS" "w \<noteq> u" "dir_pages_baseAddr (tasks s' w) = Some (y * TOTAL_PAGES)"
    then have "dir_pages_baseAddr (tasks s w) = Some (y * TOTAL_PAGES)" by (auto simp: dir split: if_splits)
    then show "heap_pages (heap_top (tasks s' u)) = 0 \<or> heap_pages (heap_top (tasks s' w)) = 0"
      using heaps_okD(2) [of s u y w] prot u(1) uc(2) w(1,2) by (simp add: protected_def heap)
  qed
  then show ?thesis using fr(2) by (simp add: protected_def)
qed

section \<open>\<^verbatim>\<open>sys_sbrk\<close>\<close>

text \<open>One task's heap has a new end, and the pages up to it are mapped.\<close>

lemma heaps_ok_resize:
  assumes ok: "heaps_ok s" and base: "dir_pages_baseAddr (tasks s c) = Some (d * TOTAL_PAGES)" "c < NR_TASKS"
    and other: "\<And>u. u \<noteq> c \<Longrightarrow> tasks s' u = tasks s u"
    and dir: "dir_pages_baseAddr (tasks s' c) = dir_pages_baseAddr (tasks s c)"
    and rows: "\<And>j. j \<noteq> d \<Longrightarrow> pagusr_table s' j = pagusr_table s j"
    and heap: "\<And>k. k < heap_pages (heap_top (tasks s' c)) \<Longrightarrow> pte_present (pagusr_table s' d (PAG_LOG_INIT_HEAP - k))"
    and grow: "heap_pages (heap_top (tasks s c)) = 0 \<Longrightarrow> heap_pages (heap_top (tasks s' c)) \<noteq> 0 \<Longrightarrow>
      \<not> pte_present (pagusr_table s d PAG_LOG_INIT_HEAP)"
    and keep: "heap_pages (heap_top (tasks s c)) = 0 \<Longrightarrow> heap_pages (heap_top (tasks s' c)) = 0 \<Longrightarrow>
      pagusr_table s' = pagusr_table s"
  shows "heaps_ok s'"
proof -
  have alone: "heap_pages (heap_top (tasks s u)) = 0 \<or> heap_pages (heap_top (tasks s c)) = 0 \<and>
      heap_pages (heap_top (tasks s' c)) = 0"
    if u: "u < NR_TASKS" "u \<noteq> c" "dir_pages_baseAddr (tasks s u) = Some (d * TOTAL_PAGES)" for u
  proof (cases "heap_pages (heap_top (tasks s c)) = 0")
    case True
    then show ?thesis using grow heaps_okD(1) [OF ok u(1,3), of 0] by auto
  next
    case False
    then show ?thesis using heaps_okD(2) [OF ok base(2,1) u] by simp
  qed
  show ?thesis
    unfolding heaps_ok_def
  proof (intro allI impI conjI)
    fix u y k
    assume u: "u < NR_TASKS" "dir_pages_baseAddr (tasks s' u) = Some (y * TOTAL_PAGES)"
    have us: "dir_pages_baseAddr (tasks s u) = Some (y * TOTAL_PAGES)" using u(2) other [of u] dir by (cases "u = c") auto
    have yd: "y = d" if "u = c" using us base(1) that by simp
    show "pte_present (pagusr_table s' y (PAG_LOG_INIT_HEAP - k))" if k: "k < heap_pages (heap_top (tasks s' u))"
    proof (cases "u = c")
      case True
      then show ?thesis using heap k yd by simp
    next
      case False
      have p: "pte_present (pagusr_table s y (PAG_LOG_INIT_HEAP - k))"
        using heaps_okD(1) [OF ok u(1) us] k other [OF False] by simp
      show ?thesis
      proof (cases "y = d")
        case True
        then have "pagusr_table s' = pagusr_table s" using alone [OF u(1) False] us k other [OF False] keep by simp
        then show ?thesis using p by simp
      qed (use p rows in simp)
    qed
    fix w
    assume w: "w < NR_TASKS" "w \<noteq> u" "dir_pages_baseAddr (tasks s' w) = Some (y * TOTAL_PAGES)"
    have ws: "dir_pages_baseAddr (tasks s w) = Some (y * TOTAL_PAGES)" using w(3) other [of w] dir by (cases "w = c") auto
    have yw: "y = d" if "w = c" using ws base(1) that by simp
    consider "u = c" | "w = c" | "u \<noteq> c" "w \<noteq> c" by blast
    then show "heap_pages (heap_top (tasks s' u)) = 0 \<or> heap_pages (heap_top (tasks s' w)) = 0"
    proof cases
      case 1
      then have "y = d" and c: "w \<noteq> c" using yd w(2) by blast+
      then have "dir_pages_baseAddr (tasks s w) = Some (d * TOTAL_PAGES)" using ws by simp
      from alone [OF w(1) c this] show ?thesis unfolding 1 other [OF c] by (elim disjE conjE) simp_all
    next
      case 2
      then have "y = d" and c: "u \<noteq> c" using yw w(2) by blast+
      then have "dir_pages_baseAddr (tasks s u) = Some (d * TOTAL_PAGES)" using us by simp
      from alone [OF u(1) c this] show ?thesis unfolding 2 other [OF c] by (elim disjE conjE) simp_all
    next
      case 3
      then show ?thesis using heaps_okD(2) [OF ok u(1) us w(1,2) ws] other by simp
    qed
  qed
qed

lemma protected_sbrk:
  assumes prot: "protected s" and inv: "kinv s v" and mem: "mem_ok s" and user: "idle_task s \<noteq> Some (current s)"
    and run: "sys_sbrk increment s = Some (r, s')"
  shows "protected s'"
proof (cases "increment = 0 \<or> HEAP_START < heap_top (tasks s (current s)) - increment \<and> \<not> increment <s 0")
  case True
  then have "\<exists>r. sys_sbrk increment s = Some (r, s)" by (auto simp: sys_sbrk_def Let_def)
  then show ?thesis using run prot by auto
next
  case False
  let ?c = "current s"
  let ?h = "heap_top (tasks s ?c)"
  let ?act = "heap_pages ?h" and ?nh = "new_heap_top ?h increment"
  have x: "increment \<noteq> 0" "HEAP_START < ?h - increment \<longrightarrow> increment <s 0" using False by auto
  have fr: "frames_ok s" "heaps_ok s" using prot by (simp_all add: protected_def)
  obtain d where d: "dir_pages_baseAddr (tasks s ?c) = Some (d * TOTAL_PAGES)" "d < NR_TASKS" "get_PT s ?c = Some d"
    by (rule current_space [OF inv mem])
  have resized: "protected (set_heap_top ?nh s1)"
    if s1: "mm_only s s1" "cow_count_mem s1 0 = cow_count_mem s 0"
      and rows: "\<And>j. j \<noteq> d \<Longrightarrow> pagusr_table s1 j = pagusr_table s j"
      and entry: "\<And>i. pagusr_table s1 d i = pagusr_table s d i \<or> pagusr_table s1 d i = 0 \<or>
        unat (pte_pbase_addr (pagusr_table s1 d i)) \<in> frame_pool"
      and heap: "\<And>k. k < heap_pages ?nh \<Longrightarrow> pte_present (pagusr_table s1 d (PAG_LOG_INIT_HEAP - k))"
      and grow: "?act = 0 \<Longrightarrow> heap_pages ?nh \<noteq> 0 \<Longrightarrow> \<not> pte_present (pagusr_table s d PAG_LOG_INIT_HEAP)"
      and keep: "?act = 0 \<Longrightarrow> heap_pages ?nh = 0 \<Longrightarrow> pagusr_table s1 = pagusr_table s" for s1
  proof -
    note mf = mm_only_fields [OF s1(1)]
    have "frames_ok (set_heap_top ?nh s1)"
    proof (rule frames_ok_upd [OF fr(1)])
      show "cow_count_mem (set_heap_top ?nh s1) 0 = 0" using fr(1) s1(2) by (simp add: set_heap_top_def frames_ok_def)
      fix j i :: nat
      show "pagusr_table (set_heap_top ?nh s1) j i = pagusr_table s j i \<or> pagusr_table (set_heap_top ?nh s1) j i = 0 \<or>
          unat (pte_pbase_addr (pagusr_table (set_heap_top ?nh s1) j i)) \<in> frame_pool"
        using rows [of j] entry [of i] by (cases "j = d") (simp_all add: set_heap_top_def)
    qed
    moreover have "heaps_ok (set_heap_top ?nh s1)"
    proof (rule heaps_ok_resize [OF fr(2) d(1) kinv_current(3) [OF inv]])
      have nh: "heap_top (tasks (set_heap_top ?nh s1) ?c) = ?nh" and T: "pagusr_table (set_heap_top ?nh s1) = pagusr_table s1"
        by (simp_all add: set_heap_top_def mf)
      show "pte_present (pagusr_table (set_heap_top ?nh s1) d (PAG_LOG_INIT_HEAP - k))"
        if "k < heap_pages (heap_top (tasks (set_heap_top ?nh s1) ?c))" for k
        using heap that unfolding nh T .
      show "\<not> pte_present (pagusr_table s d PAG_LOG_INIT_HEAP)"
        if "?act = 0" "heap_pages (heap_top (tasks (set_heap_top ?nh s1) ?c)) \<noteq> 0"
        using grow that unfolding nh .
      show "pagusr_table (set_heap_top ?nh s1) = pagusr_table s"
        if "?act = 0" "heap_pages (heap_top (tasks (set_heap_top ?nh s1) ?c)) = 0"
        using keep that unfolding nh T .
    qed (simp_all add: set_heap_top_def mf rows)
    ultimately show ?thesis by (simp add: protected_def)
  qed
  show ?thesis
  proof (rule sys_sbrk_ok [OF inv mem user x])
    assume "sys_sbrk increment s = Some (- ENOMEM, s)"
    then show ?thesis using run prot by simp
  next
    fix s1 assume s1: "sys_sbrk increment s = Some (- ENOMEM, s1)" "mm_only s s1" "pagusr_table s1 = pagusr_table s"
      "cow_count_mem s1 0 = cow_count_mem s 0"
    have "protected s1" by (rule protected_cong [OF prot]) (use s1 mm_only_fields [OF s1(2)] in simp_all)
    then show ?thesis using s1(1) run by simp
  next
    fix d' fs s1
    assume s1: "get_PT s ?c = Some d'" "?act < heap_pages ?nh" "\<not> heap_blocked s d' ?act (heap_pages ?nh)"
      "sys_sbrk increment s = Some (?nh + 1, set_heap_top ?nh s1)" "mm_only s s1"
      "pagusr_table s1 = heap_tables d' ?act fs s" "length fs = heap_pages ?nh - ?act"
      "\<forall>f\<in>set fs. f \<in> frame_pool \<and> \<not> frame_used s f \<and> frame_owned s1 f"
      "cow_count_mem s1 0 = cow_count_mem s 0" "heap_fits ?nh"
    have d': "d' = d" using s1(1) d(3) by simp
    have new: "heap_pages ?nh \<le> MAX_HEAP_PAGES" using s1(10) by (simp add: heap_fits_pages)
    have "protected (set_heap_top ?nh s1)"
    proof (rule resized [OF s1(5,9)])
      show "pagusr_table s1 d i = pagusr_table s d i \<or> pagusr_table s1 d i = 0 \<or>
          unat (pte_pbase_addr (pagusr_table s1 d i)) \<in> frame_pool" for i
      proof (cases "i \<le> PAG_LOG_INIT_HEAP - ?act \<and> PAG_LOG_INIT_HEAP - ?act - i < length fs")
        case True
        then have "fs ! (PAG_LOG_INIT_HEAP - ?act - i) \<in> frame_pool" using s1(8) nth_mem by blast
        from user_pte_pool [OF this] True show ?thesis by (simp add: s1(6) d' heap_tables_def del: user_pte_bits(4))
      qed (auto simp: s1(6) d' heap_tables_def)
      show "pte_present (pagusr_table s1 d (PAG_LOG_INIT_HEAP - k))" if k: "k < heap_pages ?nh" for k
      proof (cases "k < ?act")
        case True
        then show ?thesis
          using heaps_okD(1) [OF fr(2) kinv_current(3) [OF inv] d(1) True] by (simp add: s1(6) d' heap_tables_def)
      next
        case False
        have "PAG_LOG_INIT_HEAP - k \<le> PAG_LOG_INIT_HEAP - ?act"
          "PAG_LOG_INIT_HEAP - ?act - (PAG_LOG_INIT_HEAP - k) < length fs"
          using False k new s1(2,7) by simp_all
        then show ?thesis by (simp add: s1(6) d' heap_tables_def)
      qed
      show "\<not> pte_present (pagusr_table s d PAG_LOG_INIT_HEAP)" if "?act = 0" "heap_pages ?nh \<noteq> 0"
        using s1(3) that unfolding heap_blocked_def d' by (auto dest: spec [of _ 0])
      show "pagusr_table s1 j = pagusr_table s j" if "j \<noteq> d" for j
        using that by (simp add: s1(6) d' heap_tables_def fun_eq_iff)
      show "pagusr_table s1 = pagusr_table s" if "?act = 0" "heap_pages ?nh = 0"
        using s1(2) unfolding that by simp
    qed
    then show ?thesis using s1(4) run by simp
  next
    fix d' s1
    assume s1: "get_PT s ?c = Some d'" "heap_pages ?nh \<le> ?act" "?act \<le> MAX_HEAP_PAGES"
      "sys_sbrk increment s = Some (?nh, set_heap_top ?nh s1)" "mm_only s s1"
      "pagusr_table s1 = (\<lambda>j i. if j = d' \<and> PAG_LOG_INIT_HEAP - ?act < i \<and> i \<le> PAG_LOG_INIT_HEAP - heap_pages ?nh
         then 0 else pagusr_table s j i)" "cow_count_mem s1 0 = cow_count_mem s 0"
    have d': "d' = d" using s1(1) d(3) by simp
    have "protected (set_heap_top ?nh s1)"
    proof (rule resized [OF s1(5,7)])
      show "pte_present (pagusr_table s1 d (PAG_LOG_INIT_HEAP - k))" if k: "k < heap_pages ?nh" for k
      proof -
        have "\<not> PAG_LOG_INIT_HEAP - k \<le> PAG_LOG_INIT_HEAP - heap_pages ?nh" using k s1(2,3) by simp
        then show ?thesis using heaps_okD(1) [OF fr(2) kinv_current(3) [OF inv] d(1), of k] k s1(2) by (simp add: s1(6) d')
      qed
      show "pagusr_table s1 = pagusr_table s" if "?act = 0" "heap_pages ?nh = 0"
        unfolding s1(6) that by (auto simp: fun_eq_iff)
      show "pagusr_table s1 j = pagusr_table s j" if "j \<noteq> d" for j
        using that by (simp add: s1(6) d' fun_eq_iff)
      show "\<not> pte_present (pagusr_table s d PAG_LOG_INIT_HEAP)" if "?act = 0" "heap_pages ?nh \<noteq> 0"
        using s1(2) that(2) unfolding that(1) by blast
    qed (simp add: s1(6))
    then show ?thesis using s1(4) run by simp
  qed
qed

section \<open>The page fault\<close>

lemma protected_pf:
  assumes prot: "protected s" and inv: "kinv s v" and mem: "mem_ok s" and run: "pf_rsi address s = Some s'"
  shows "protected s'"
proof -
  have fr: "frames_ok s" "heaps_ok s" using prot by (simp_all add: protected_def)
  obtain d page m p c T g where page: "256 \<le> page" "page \<le> 511"
      and s': "s' = s\<lparr>pmem := m, phys_mem := p, cow_count_mem := c,
        pagusr_table := (pagusr_table s)(d := T(page := user_pte g True))\<rparr>"
      and T: "T = pagusr_table s d \<or> T = (pagusr_table s d)(SPARE_PAGE := 0)"
      and g: "g \<in> frame_pool \<and> c 0 = 0"
    by (rule pf_rsi_shape [OF inv mem run]) (use fr in blast)
  have "frames_ok s'"
    by (rule frames_ok_upd [OF fr(1)]) (use T g fr(1) in \<open>auto simp: s' user_pte_pool simp del: user_pte_bits(4)\<close>)
  moreover have present: "pte_present (pagusr_table s' j i)" if "pte_present (pagusr_table s j i)" "i \<le> 511" for j i
    using that T by (auto simp: s')
  have "heaps_ok s'"
    unfolding heaps_ok_def
  proof (intro allI impI conjI)
    fix t y k
    assume t: "t < NR_TASKS" "dir_pages_baseAddr (tasks s' t) = Some (y * TOTAL_PAGES)"
    then have ts: "dir_pages_baseAddr (tasks s t) = Some (y * TOTAL_PAGES)" by (simp add: s')
    show "pte_present (pagusr_table s' y (PAG_LOG_INIT_HEAP - k))" if "k < heap_pages (heap_top (tasks s' t))"
      using present heaps_okD(1) [OF fr(2) t(1) ts, of k] that by (simp add: s')
    fix u
    assume u: "u < NR_TASKS" "u \<noteq> t" "dir_pages_baseAddr (tasks s' u) = Some (y * TOTAL_PAGES)"
    then show "heap_pages (heap_top (tasks s' t)) = 0 \<or> heap_pages (heap_top (tasks s' u)) = 0"
      using heaps_okD(2) [OF fr(2) t(1) ts, of u] by (simp add: s')
  qed
  ultimately show ?thesis by (simp add: protected_def)
qed

end
