(* ===== verification/Kernel_Safety.thy ===== *)
theory Kernel_Safety
  imports Syscall_Proofs Protection
begin

text \<open>
  The invariant of the whole kernel, between two steps of the machine of \<open>Kernel\<close>, and that every
  step keeps it. Beside the invariants of the queues, the address spaces and the keyboard buffer it
  says where each task will continue: a task blocked in a semaphore inside \<^verbatim>\<open>sys_sem_wait\<close>, a task
  in the keyboard queue inside \<^verbatim>\<open>sys_read_keyboard\<close>, a ready task at some place in the kernel, the
  idle task in its loop.
\<close>

section \<open>Where the tasks continue\<close>

fun reading :: "kcont \<Rightarrow> bool" where
  "reading (Read_first b n) = True"
| "reading (Read_more b m n) = True"
| "reading k = False"

definition resumable :: "kcont \<Rightarrow> bool" where
  "resumable k \<longleftrightarrow> k \<in> {Irq_exit, Fork_child, Clone_child, Sem_wait_exit} \<or> reading k"

lemma resumable_simps [simp]:
  "resumable Irq_exit" "resumable Fork_child" "resumable Clone_child" "resumable Sem_wait_exit"
  "resumable (Read_first b n)" "resumable (Read_more b m n)" "\<not> resumable User_mode" "\<not> resumable Idle_loop"
  "\<not> resumable Exited"
  by (simp_all add: resumable_def)

lemma reading_resumable: "reading k \<Longrightarrow> resumable k"
  by (simp add: resumable_def)

definition kpc_ok :: "kstate \<Rightarrow> qview \<Rightarrow> bool" where
  "kpc_ok s v \<longleftrightarrow>
     (\<forall>t\<in>set (v_ready v). resumable (kpc s t)) \<and>
     (\<forall>t\<in>set (v_kbd v). reading (kpc s t)) \<and>
     (\<forall>n ts. v_blocked v n = Some ts \<longrightarrow> (\<forall>t\<in>set ts. kpc s t = Sem_wait_exit)) \<and>
     (\<forall>i. idle_task s = Some i \<longrightarrow> kpc s i \<in> {Idle_loop, Irq_exit}) \<and>
     (idle_task s \<noteq> Some (current s) \<longrightarrow> kpc s (current s) = User_mode \<or> resumable (kpc s (current s)))"

lemma kpc_okD:
  assumes "kpc_ok s v"
  shows "t \<in> set (v_ready v) \<Longrightarrow> resumable (kpc s t)" "t \<in> set (v_kbd v) \<Longrightarrow> reading (kpc s t)"
    "v_blocked v n = Some ts \<Longrightarrow> t \<in> set ts \<Longrightarrow> kpc s t = Sem_wait_exit"
    "idle_task s = Some i \<Longrightarrow> kpc s i \<in> {Idle_loop, Irq_exit}"
    "idle_task s \<noteq> Some (current s) \<Longrightarrow> kpc s (current s) = User_mode \<or> resumable (kpc s (current s))"
  using assms unfolding kpc_ok_def by blast+

definition ksafe :: "kstate \<Rightarrow> qview \<Rightarrow> bool" where
  "ksafe s v \<longleftrightarrow> kinv s v \<and> mem_ok s \<and> protected s \<and> buffer_wf s \<and> kpc_ok s v"

text \<open>A task in user mode is not the idle task.\<close>

lemma ksafe_user:
  assumes "ksafe s v" "kpc s (current s) = User_mode"
  shows "idle_task s \<noteq> Some (current s)"
  using assms kpc_okD(4) [of s v "current s"] by (auto simp: ksafe_def)

section \<open>Changes that do not matter\<close>

lemma buffer_wf_kbd: "kbd_same s s' \<Longrightarrow> buffer_wf s \<Longrightarrow> buffer_wf s'"
  by (simp add: kbd_same_def buffer_wf_def)

lemma kpc_ok_cong:
  "kpc_ok s v \<Longrightarrow> kpc s' = kpc s \<Longrightarrow> idle_task s' = idle_task s \<Longrightarrow> current s' = current s \<Longrightarrow> kpc_ok s' v"
  by (simp add: kpc_ok_def)

lemma ksafe_cong:
  assumes "ksafe s v" "links s' = links s" "tasks s' = tasks s" "semaphores s' = semaphores s"
    "idle_task s' = idle_task s" "current s' = current s" "cr3 s' = cr3 s" "kpc s' = kpc s"
    "dir_status s' = dir_status s" "dir_pages s' = dir_pages s" "pagusr_table s' = pagusr_table s"
    "pagusr_table_addr s' = pagusr_table_addr s" "tasks_addr s' = tasks_addr s" "cow_count_mem s' 0 = cow_count_mem s 0"
    "buffer_wf s \<Longrightarrow> buffer_wf s'"
  shows "ksafe s' v"
  unfolding ksafe_def
proof (intro conjI)
  show "kinv s' v" by (rule kinv_cong [of s]) (use assms in \<open>simp_all add: ksafe_def\<close>)
  show "mem_ok s'" by (rule mem_ok_cong [of s]) (use assms in \<open>simp_all add: ksafe_def\<close>)
  show "protected s'" by (rule protected_cong [of s]) (use assms in \<open>simp_all add: ksafe_def\<close>)
  show "kpc_ok s' v" by (rule kpc_ok_cong [of s]) (use assms in \<open>simp_all add: ksafe_def\<close>)
qed (use assms in \<open>simp add: ksafe_def\<close>)

lemma ksafe_upd [simp]:
  "ksafe s v \<Longrightarrow> ksafe (s\<lparr>pmem := m\<rparr>) v" "ksafe s v \<Longrightarrow> ksafe (s\<lparr>zeos_ticks := n\<rparr>) v"
  by (erule ksafe_cong; simp add: buffer_wf_def)+

lemma ksafe_stats:
  assumes "ksafe s v" "only_stats t s s'"
  shows "ksafe s' v"
  unfolding ksafe_def
proof (intro conjI)
  show "kinv s' v" using assms kinv_stats by (auto simp: ksafe_def)
  show "mem_ok s'" using assms mem_ok_stats by (auto simp: ksafe_def)
  show "protected s'"
    by (rule protected_cong [of s]) (use assms in \<open>simp_all add: ksafe_def only_stats_fields [OF assms(2)]\<close>)
  show "buffer_wf s'" using assms by (simp add: ksafe_def buffer_wf_def only_stats_fields [OF assms(2)])
  show "kpc_ok s' v" by (rule kpc_ok_cong [of s]) (use assms in \<open>simp_all add: ksafe_def only_stats_fields [OF assms(2)]\<close>)
qed

lemma ksafe_update_stats: "ksafe s v \<Longrightarrow> update_stats t e s = Some s' \<Longrightarrow> ksafe s' v"
  using ksafe_stats update_stats_only by blast

lemma ksafe_console: "ksafe s v \<Longrightarrow> console_only s s' \<Longrightarrow> ksafe s' v"
  by (elim console_onlyE, erule ksafe_cong) (simp_all add: buffer_wf_def)

lemma ksafe_taken:
  assumes "ksafe s v" "taken_only s s'"
  shows "ksafe s' v"
proof -
  from assms(2) obtain m f where "s' = s\<lparr>pmem := m, buff_from := f\<rparr>" "buffer_wf s'"
    using assms(1) by (auto elim!: taken_onlyE simp: ksafe_def)
  then show ?thesis using assms(1) by (auto intro: ksafe_cong [of s])
qed

text \<open>Nothing but the current task's memory and the keyboard's place change.\<close>

lemma ksafe_ctrl:
  assumes "ksafe s v" "kinv s' v" "mem_ok s'" "protected s'" "kbd_same s s'" "ctrl_frame s s'" "idle_task s' = idle_task s"
  shows "ksafe s' v"
  using assms kpc_ok_cong [of s v s'] buffer_wf_kbd by (auto simp: ksafe_def ctrl_frame_def)

section \<open>Moving tasks between the queues\<close>

text \<open>The tasks that wait for something.\<close>

definition waiting :: "qview \<Rightarrow> nat set" where
  "waiting v = set (v_ready v) \<union> set (v_kbd v) \<union> {t. \<exists>n ts. v_blocked v n = Some ts \<and> t \<in> set ts}"

lemma waitingI:
  "t \<in> set (v_ready v) \<Longrightarrow> t \<in> waiting v" "t \<in> set (v_kbd v) \<Longrightarrow> t \<in> waiting v"
  "v_blocked v n = Some ts \<Longrightarrow> t \<in> set ts \<Longrightarrow> t \<in> waiting v"
  by (auto simp: waiting_def)

lemma waiting_resumable: "kpc_ok s v \<Longrightarrow> t \<in> waiting v \<Longrightarrow> resumable (kpc s t)"
  unfolding waiting_def using kpc_okD(1-3) [of s v] reading_resumable by fastforce

lemma waiting_queued: "waiting v \<subseteq> queued v"
  unfolding waiting_def by (auto intro: queuedI [of v Ready_queue] queuedI [of v Keyboard_queue] queuedI [of v "Sem_blocked _"])

lemma idle_not_queued: "kinv s v \<Longrightarrow> idle_task s = Some i \<Longrightarrow> i \<notin> queued v"
  using queues_okD(2) by (fastforce elim: kinvE)

text \<open>One task, which waited for nothing, has got a new place; the others may have moved on to the ready queue.\<close>

lemma kpc_ok_place:
  assumes ok: "kpc_ok s v" and x: "x \<notin> waiting v" "idle_task s = Some x \<Longrightarrow> k = Irq_exit"
    and s': "kpc s' = (kpc s)(x := k)" "idle_task s' = idle_task s"
    and ready: "\<And>t. t \<in> set (v_ready w) \<Longrightarrow> t \<in> waiting v \<or> t = x \<and> resumable k"
    and kbd: "\<And>t. t \<in> set (v_kbd w) \<Longrightarrow> t \<in> set (v_kbd v) \<or> t = x \<and> reading k"
    and blocked: "\<And>n ts t. v_blocked w n = Some ts \<Longrightarrow> t \<in> set ts \<Longrightarrow>
        (\<exists>us. v_blocked v n = Some us \<and> t \<in> set us) \<or> t = x \<and> k = Sem_wait_exit"
    and current: "idle_task s = Some (current s') \<or> current s' \<in> waiting v \<or> current s' = x \<and> resumable k \<or>
        current s' = current s \<and> x \<noteq> current s"
  shows "kpc_ok s' w"
proof -
  have sub: "set (v_kbd v) \<subseteq> waiting v" "v_blocked v n = Some us \<Longrightarrow> set us \<subseteq> waiting v" for n us
    by (auto simp: waiting_def)
  have res: "resumable (kpc s' t)" if "t \<in> waiting v" for t
    using waiting_resumable [OF ok that] that x(1) by (auto simp: s'(1))
  show ?thesis
    unfolding kpc_ok_def s'(2)
  proof (intro conjI ballI allI impI)
    show "resumable (kpc s' t)" if "t \<in> set (v_ready w)" for t
      using ready [OF that] res [of t] by (auto simp: s'(1))
    show "reading (kpc s' t)" if "t \<in> set (v_kbd w)" for t
      using kbd [OF that] kpc_okD(2) [OF ok, of t] sub(1) x(1) by (auto simp: s'(1))
    have "t \<noteq> x" if "v_blocked v n = Some us" "t \<in> set us" for n us t using sub(2) [OF that(1)] that(2) x(1) by blast
    then show "kpc s' t = Sem_wait_exit" if "v_blocked w n = Some ts" "t \<in> set ts" for n ts t
      using blocked [OF that] kpc_okD(3) [OF ok] by (fastforce simp: s'(1))
    show "kpc s' i \<in> {Idle_loop, Irq_exit}" if "idle_task s = Some i" for i
      using kpc_okD(4) [OF ok that] that x(2) by (auto simp: s'(1))
    show "kpc s' (current s') = User_mode \<or> resumable (kpc s' (current s'))" if "idle_task s \<noteq> Some (current s')"
      using current that res [of "current s'"] kpc_okD(5) [OF ok] by (auto simp: s'(1))
  qed
qed

lemma kpc_ok_wake:
  assumes ok: "kpc_ok s v"
    and s': "kpc s' = kpc s" "idle_task s' = idle_task s" "current s' = current s"
    and ready: "\<And>t. t \<in> set (v_ready w) \<Longrightarrow> t \<in> waiting v"
    and kbd: "set (v_kbd w) \<subseteq> set (v_kbd v)"
    and blocked: "\<And>n ts t. v_blocked w n = Some ts \<Longrightarrow> t \<in> set ts \<Longrightarrow> \<exists>us. v_blocked v n = Some us \<and> t \<in> set us"
  shows "kpc_ok s' w"
  unfolding kpc_ok_def s'
proof (intro conjI ballI allI impI)
  show "resumable (kpc s t)" if "t \<in> set (v_ready w)" for t using waiting_resumable [OF ok ready [OF that]] .
  show "reading (kpc s t)" if "t \<in> set (v_kbd w)" for t using kpc_okD(2) [OF ok] kbd that by blast
  show "kpc s t = Sem_wait_exit" if "v_blocked w n = Some ts" "t \<in> set ts" for n ts t
    using blocked [OF that] kpc_okD(3) [OF ok] by blast
  show "kpc s i \<in> {Idle_loop, Irq_exit}" if "idle_task s = Some i" for i using kpc_okD(4) [OF ok that] .
  show "kpc s (current s) = User_mode \<or> resumable (kpc s (current s))" if "idle_task s \<noteq> Some (current s)"
    using kpc_okD(5) [OF ok that] .
qed

end
