(* ===== verification/Kernel_Steps.thy ===== *)
theory Kernel_Steps
  imports Kernel_Safety
begin

text \<open>
  Every system call, interrupt and continuation keeps \<open>ksafe\<close>, and so does every step of the
  kernel: the invariant holds in every state the machine reaches from its initialisation.
\<close>

section \<open>Semaphores\<close>

lemma ksafe_sched:
  "ksafe s v \<Longrightarrow> kinv s' w \<Longrightarrow> sched_frame s s' \<Longrightarrow> kpc_ok s' w \<Longrightarrow> ksafe s' w"
  using mem_ok_sched [of s s'] protected_sched [of s s'] buffer_wf_kbd [OF kbd_same_sched, of s s'] by (auto simp: ksafe_def)

lemma in_tl: "x \<in> set (tl xs) \<Longrightarrow> x \<in> set xs"
  by (cases xs) auto

lemma sched_frame_idle: "sched_frame s s' \<Longrightarrow> idle_task s' = idle_task s"
  by (simp add: sched_frame_def)

lemma blocked_exists:
  assumes "kinv s v" "n < NR_SEMAPHORES" "used (semaphores s n) \<noteq> 0"
  obtains ts where "v_blocked v n = Some ts"
  using assms sems_coreD(3) [of s v n] by (auto simp: kinv_def sems_ok_def)

lemma not_waiting_current: "kinv s v \<Longrightarrow> current s \<notin> waiting v"
  using kinv_current(1) waiting_queued by blast

lemma next_waiting:
  assumes "kinv s v" "idle_task s = Some i"
  shows "v_next s v = i \<or> v_next s v \<in> waiting v"
  using assms(2) by (cases "v_ready v") (auto simp: v_next_def waiting_def)

lemma ksafe_sem_wait:
  assumes safe: "ksafe s v" and user: "idle_task s \<noteq> Some (current s)" and run: "sys_sem_wait w s = Some (r, s')"
  shows "\<exists>v'. ksafe s' v'"
proof (cases "\<exists>n. sem_index w = Some n \<and> used (semaphores s n) \<noteq> 0")
  case False
  then have "s' = s" using run by (auto simp: sys_sem_wait_def split: option.splits if_splits)
  with safe show ?thesis by blast
next
  case True
  then obtain n where n: "w = of_nat n" "n < NR_SEMAPHORES" "used (semaphores s n) \<noteq> 0" by (auto simp: sem_index_Some)
  have inv: "kinv s v" and ok: "kpc_ok s v" using safe by (simp_all add: ksafe_def)
  obtain i where i: "idle_task s = Some i" using inv by (auto simp: kinv_def)
  obtain ts where ts: "v_blocked v n = Some ts" by (rule blocked_exists [OF inv n(2,3)])
  show ?thesis
  proof (cases "count (semaphores s n) = 0")
    case False
    from sys_sem_wait_takes [OF inv n(2,3) this] run n(1)
    have s': "s' = upd_sem n (\<lambda>x. x\<lparr>count := count x - 1\<rparr>) s" "kinv s' v" by auto
    have "mem_ok s'" "protected s'"
      by (rule mem_ok_cong [of s] protected_cong [of s]; use safe in \<open>simp add: s'(1) upd_sem_def ksafe_def\<close>)+
    then have "ksafe s' v"
      using safe s'(2) kpc_ok_cong [OF ok, of s'] by (simp add: ksafe_def s'(1) upd_sem_def buffer_wf_def)
    then show ?thesis ..
  next
    case True
    let ?w = "v\<lparr>v_blocked := (v_blocked v)(n \<mapsto> ts @ [current s]), v_ready := tl (v_ready v)\<rparr>"
    from sys_sem_wait_blocks [OF inv n(2,3) True user ts] run n(1)
    have s': "kinv s' ?w" "current s' = v_next s v" "kpc s' = (kpc s)(current s := Sem_wait_exit)" "sched_frame s s'"
      by auto
    have "kpc_ok s' ?w"
    proof (rule kpc_ok_place [OF ok not_waiting_current [OF inv] _ s'(3)])
      show "idle_task s = Some (current s') \<or> current s' \<in> waiting v \<or> current s' = current s \<and> resumable Sem_wait_exit \<or>
          current s' = current s \<and> current s \<noteq> current s"
        using next_waiting [OF inv i] i s'(2) by auto
    qed (use sched_frame_idle [OF s'(4)] user ts in \<open>auto simp: waiting_def split: if_splits dest: in_tl\<close>)
    from ksafe_sched [OF safe s'(1,4) this] show ?thesis ..
  qed
qed

lemma ksafe_sem_signal:
  assumes safe: "ksafe s v" and run: "sys_sem_signal w s = Some (r, s')"
  shows "\<exists>v'. ksafe s' v'"
proof (cases "\<exists>n. sem_index w = Some n \<and> used (semaphores s n) \<noteq> 0")
  case False
  then have "s' = s" using run by (auto simp: sys_sem_signal_def split: option.splits if_splits)
  with safe show ?thesis by blast
next
  case True
  then obtain n where n: "w = of_nat n" "n < NR_SEMAPHORES" "used (semaphores s n) \<noteq> 0" by (auto simp: sem_index_Some)
  have inv: "kinv s v" and ok: "kpc_ok s v" using safe by (simp_all add: ksafe_def)
  obtain us where us: "v_blocked v n = Some us" by (rule blocked_exists [OF inv n(2,3)])
  show ?thesis
  proof (cases us)
    case Nil
    from sys_sem_signal_counts [OF inv n(2,3)] us Nil run n(1)
    have s': "s' = upd_sem n (\<lambda>x. x\<lparr>count := count x + 1\<rparr>) s" "kinv s' v" by auto
    have "mem_ok s'" "protected s'"
      by (rule mem_ok_cong [of s] protected_cong [of s]; use safe in \<open>simp add: s'(1) upd_sem_def ksafe_def\<close>)+
    then have "ksafe s' v"
      using safe s'(2) kpc_ok_cong [OF ok, of s'] by (simp add: ksafe_def s'(1) upd_sem_def buffer_wf_def)
    then show ?thesis ..
  next
    case (Cons t ts)
    let ?w = "v\<lparr>v_blocked := (v_blocked v)(n \<mapsto> ts), v_ready := v_ready v @ [t]\<rparr>"
    from sys_sem_signal_wakes [OF inv n(2,3), of t ts] us Cons run n(1)
    have s': "kinv s' ?w" "sched_frame s s'" "ctrl_frame s s'" by auto
    have "kpc_ok s' ?w"
      by (rule kpc_ok_wake [OF ok])
        (use s'(3) sched_frame_idle [OF s'(2)] us Cons in \<open>auto simp: ctrl_frame_def split: if_splits intro: waitingI\<close>)
    from ksafe_sched [OF safe s'(1,2) this] show ?thesis ..
  qed
qed

lemma ksafe_sem_destroy:
  assumes safe: "ksafe s v" and run: "sys_sem_destroy w s = Some (r, s')"
  shows "\<exists>v'. ksafe s' v'"
proof (cases "\<exists>n o'. sem_index w = Some n \<and> used (semaphores s n) \<noteq> 0 \<and> owner (semaphores s n) = Some o' \<and>
    PID (tasks s (current s)) = PID (tasks s o')")
  case False
  then have "s' = s" using run by (auto simp: sys_sem_destroy_def bind_eq_Some_conv split: option.splits if_splits)
  with safe show ?thesis by blast
next
  case True
  then obtain n o' where n: "w = of_nat n" "n < NR_SEMAPHORES" "used (semaphores s n) \<noteq> 0"
      "owner (semaphores s n) = Some o'" "PID (tasks s (current s)) = PID (tasks s o')"
    by (auto simp: sem_index_Some)
  have inv: "kinv s v" and ok: "kpc_ok s v" using safe by (simp_all add: ksafe_def)
  obtain us where us: "v_blocked v n = Some us" by (rule blocked_exists [OF inv n(2,3)])
  from sys_sem_destroy_ok [OF inv n(2-5)] run n(1)
  have s': "kinv s' (v_destroy n v)" "wake_frame (set (the (v_blocked v n))) (upd_sem n (\<lambda>x. x\<lparr>used := 0\<rparr>) s) s'" by auto
  note f = s'(2) [unfolded wake_frame_def sched_frame_def task_kept_def ctrl_frame_def upd_sem_def, simplified]
  have "mem_ok s' \<and> protected s'"
    by (rule conjI; rule mem_ok_cong [of s] protected_cong [of s]; use safe f in \<open>simp add: ksafe_def\<close>)
  moreover have "kpc_ok s' (v_destroy n v)"
    by (rule kpc_ok_wake [OF ok]) (use f us in \<open>auto simp: waiting_def v_destroy_def split: if_splits\<close>)
  ultimately have "ksafe s' (v_destroy n v)" using s'(1) safe f by (simp add: ksafe_def buffer_wf_def)
  then show ?thesis ..
qed

lemma ksafe_sem_init:
  assumes safe: "ksafe s v" and run: "sys_sem_init w val s = Some (r, s')"
  shows "\<exists>v'. ksafe s' v'"
proof (cases "\<exists>n. sem_index w = Some n \<and> used (semaphores s n) = 0")
  case False
  then have "s' = s" using run by (auto simp: sys_sem_init_def split: option.splits if_splits)
  with safe show ?thesis by blast
next
  case True
  then obtain n where n: "w = of_nat n" "n < NR_SEMAPHORES" "used (semaphores s n) = 0" by (auto simp: sem_index_Some)
  have inv: "kinv s v" and ok: "kpc_ok s v" using safe by (simp_all add: ksafe_def)
  let ?w = "v\<lparr>v_blocked := (v_blocked v)(n \<mapsto> []), v_sems := (v_sems v)(current s \<mapsto> n # the (v_sems v (current s)))\<rparr>"
  from sys_sem_init_ok [OF inv n(2,3), of val] run n(1) obtain h
    where s': "s' = (upd_sem n (\<lambda>x. x\<lparr>used := 1, count := val, owner := Some (current s)\<rparr>) s)\<lparr>links := h\<rparr>" "kinv s' ?w"
    by auto
  have "mem_ok s' \<and> protected s'"
    by (rule conjI; rule mem_ok_cong [of s] protected_cong [of s]; use safe in \<open>simp add: s'(1) upd_sem_def ksafe_def\<close>)
  moreover have "kpc_ok s' ?w"
    by (rule kpc_ok_wake [OF ok]) (auto simp: s'(1) upd_sem_def waiting_def split: if_splits)
  ultimately have "ksafe s' ?w" using s'(2) safe by (simp add: ksafe_def buffer_wf_def s'(1) upd_sem_def)
  then show ?thesis ..
qed

section \<open>Processes and the heap\<close>

lemma ksafe_exit:
  assumes safe: "ksafe s v" and user: "idle_task s \<noteq> Some (current s)" and run: "sys_exit s = Some s'"
  shows "\<exists>v'. ksafe s' v'"
proof -
  have inv: "kinv s v" and mem: "mem_ok s" and ok: "kpc_ok s v" using safe by (simp_all add: ksafe_def)
  obtain i where i: "idle_task s = Some i" using inv by (auto simp: kinv_def)
  have core: "sems_core s v" "sems_live v" using inv by (simp_all add: kinv_def sems_ok_def)
  obtain ns where ns: "v_sems v (current s) = Some ns"
    using sems_liveD(1) [OF core(2) kinv_current(3,2) [OF inv]] by blast
  have blk: "v_blocked v n \<noteq> None" if "n \<in> set ns" for n
    using sems_coreD(6) [OF core(1) ns that] sems_coreD(3) [OF core(1)] by blast
  have ready: "t \<in> waiting v" if "t \<in> set (v_ready (exit_view (current s) (the (v_sems v (current s))) ds v))" for t ds
    using that blk by (auto simp: exit_view_def ns waiting_def)
  show ?thesis
  proof (rule sys_exit_ok [OF inv mem user])
    fix d s1
    let ?w = "exit_view (current s) (the (v_sems v (current s)))
      (if dir_users s d = {current s} then d # v_dirs v else v_dirs v) v"
    assume e: "sys_exit s = Some s1" "mem_ok s1" "kbd_same s s1" "kpc s1 = (kpc s)(current s := Exited)"
        "idle_task s1 = idle_task s"
      and p: "dir_pages_baseAddr (tasks s (current s)) = Some (d * TOTAL_PAGES)"
        "pagusr_table s1 = (if dir_users s d = {current s}
           then freed_tables d (nat (get_heap_page_size (heap_top (tasks s (current s))))) s else pagusr_table s)"
        "cow_count_mem s1 0 = cow_count_mem s 0" "\<And>u. heap_top (tasks s1 u) = heap_top (tasks s u)"
        "\<And>u. dir_pages_baseAddr (tasks s1 u) = (if u = current s then None else dir_pages_baseAddr (tasks s u))"
      and "\<And>w. w = ?w \<Longrightarrow> kinv s1 (w\<lparr>v_ready := tl (v_ready w)\<rparr>) \<and> current s1 = v_next s w"
    then have k: "kinv s1 (?w\<lparr>v_ready := tl (v_ready ?w)\<rparr>)" "current s1 = v_next s ?w" by blast+
    have "kpc_ok s1 (?w\<lparr>v_ready := tl (v_ready ?w)\<rparr>)"
    proof (rule kpc_ok_place [OF ok not_waiting_current [OF inv] _ e(4,5)])
      show "idle_task s = Some (current s1) \<or> current s1 \<in> waiting v \<or> current s1 = current s \<and> resumable Exited \<or>
          current s1 = current s \<and> current s \<noteq> current s"
        using k(2) ready [of _ "if dir_users s d = {current s} then d # v_dirs v else v_dirs v"] i
        by (cases "v_ready ?w") (auto simp: v_next_def)
      show "t \<in> waiting v \<or> t = current s \<and> resumable Exited" if "t \<in> set (v_ready (?w\<lparr>v_ready := tl (v_ready ?w)\<rparr>))" for t
        using that ready in_tl by fastforce
    qed (use user in \<open>auto simp: exit_view_def split: if_splits\<close>)
    moreover have "protected s1" by (rule protected_exit [OF _ p]) (use safe in \<open>simp add: ksafe_def\<close>)
    ultimately have "ksafe s1 (?w\<lparr>v_ready := tl (v_ready ?w)\<rparr>)" using k(1) e(2,3) safe buffer_wf_kbd by (auto simp: ksafe_def)
    moreover have "s1 = s'" using e(1) run by simp
    ultimately show ?thesis by blast
  qed
qed

text \<open>A child gets a place to start from; it was in the queue of free tasks before.\<close>

lemma kpc_ok_child:
  assumes ok: "kpc_ok s v" and inv: "kinv s v" and free: "v_free v = t # ts" and k: "k \<in> {Fork_child, Clone_child}"
    and s': "kpc s' = (kpc s)(t := k)" "idle_task s' = idle_task s" "current s' = current s" "t \<noteq> current s" "idle_task s \<noteq> Some t"
  shows "kpc_ok s' (child_view t ts ds v)"
proof (rule kpc_ok_place [OF ok _ _ s'(1,2)])
  have q: "lists_ok (links s) (heads v)" using inv queues_okD(1) by (auto simp: kinv_def)
  have "t \<notin> set (v_ready v)" "t \<notin> set (v_kbd v)" "v_blocked v n = Some us \<Longrightarrow> t \<notin> set us" for n us
    using queue_unique [OF q, of Free_queue "v_free v" Ready_queue "v_ready v" t]
      queue_unique [OF q, of Free_queue "v_free v" Keyboard_queue "v_kbd v" t]
      queue_unique [OF q, of Free_queue "v_free v" "Sem_blocked n" us t] free
    by auto
  then show "t \<notin> waiting v" by (auto simp: waiting_def)
qed (use s' k in \<open>auto simp: child_view_def intro: waitingI\<close>)

lemma ksafe_fork:
  assumes safe: "ksafe s v" and user: "idle_task s \<noteq> Some (current s)" and run: "sys_fork s = Some (r, s')"
  shows "\<exists>v'. ksafe s' v'"
proof (cases "v_free v")
  case Nil
  then have "s' = s" using sys_fork_none [of s v] safe run by (simp add: ksafe_def)
  with safe show ?thesis by blast
next
  case (Cons t ts)
  have inv: "kinv s v" and mem: "mem_ok s" and ok: "kpc_ok s v" using safe by (simp_all add: ksafe_def)
  obtain ds s1 where f: "sys_fork s = Some (last_PID s, s1)" "kinv s1 (child_view t ts ds v)" "mem_ok s1" "kbd_same s s1"
      "ctrl_frame (s\<lparr>kpc := (kpc s)(t := Fork_child)\<rparr>) s1" "t \<noteq> current s" "idle_task s1 = idle_task s" "idle_task s \<noteq> Some t"
    by (rule sys_fork_ok [OF inv mem user Cons]) blast
  have "kpc_ok s1 (child_view t ts ds v)"
    by (rule kpc_ok_child [OF ok inv Cons, of Fork_child]) (use f in \<open>simp_all add: ctrl_frame_def\<close>)
  moreover have "protected s1" by (rule protected_fork [OF _ inv mem user Cons f(1)]) (use safe in \<open>simp add: ksafe_def\<close>)
  ultimately have "ksafe s1 (child_view t ts ds v)" using f safe buffer_wf_kbd by (auto simp: ksafe_def)
  moreover have "s1 = s'" using f(1) run by simp
  ultimately show ?thesis by blast
qed

lemma ksafe_sbrk:
  assumes safe: "ksafe s v" and user: "idle_task s \<noteq> Some (current s)" and run: "sys_sbrk x s = Some (r, s')"
  shows "ksafe s' v"
proof -
  obtain s1 where "sys_sbrk x s = Some (r, s1)" "kinv s1 v" "mem_ok s1" "kbd_same s s1" "ctrl_frame s s1" "idle_task s1 = idle_task s"
    using sys_sbrk_safe [of s v x] safe user run by (auto simp: ksafe_def)
  moreover have "protected s'" using protected_sbrk [OF _ _ _ user run] safe by (auto simp: ksafe_def)
  ultimately show ?thesis using ksafe_ctrl [OF safe] run by simp
qed

lemma ksafe_clone:
  assumes safe: "ksafe s v" and user: "idle_task s \<noteq> Some (current s)" and run: "sys_clone fn stack ex s = Some (r, s')"
  shows "\<exists>v'. ksafe s' v'"
proof (cases "access_ok VERIFY_WRITE fn 4 s \<and> access_ok VERIFY_WRITE stack 4 s \<and> v_free v \<noteq> []")
  case False
  then have "s' = s" using sys_clone_errors [where s = s and fn = fn and stack = stack and exit_func = ex] run safe
    by (auto simp: ksafe_def)
  with safe show ?thesis by blast
next
  case True
  then obtain t ts where free: "v_free v = t # ts" and acc: "access_ok VERIFY_WRITE fn 4 s" "access_ok VERIFY_WRITE stack 4 s"
    by (cases "v_free v") auto
  have inv: "kinv s v" and mem: "mem_ok s" and ok: "kpc_ok s v" using safe by (simp_all add: ksafe_def)
  show ?thesis
  proof (cases rule: sys_clone_cases [OF inv mem user free acc, of ex])
    case (1 s1)
    have "kpc_ok s1 (child_view t ts (v_dirs v) v)"
      by (rule kpc_ok_child [OF ok inv free, of Clone_child]) (use 1 in \<open>simp_all add: ctrl_frame_def\<close>)
    moreover have "protected s1" by (rule protected_clone [of s s1 t]) (use 1 safe in \<open>simp_all add: ksafe_def\<close>)
    ultimately have "ksafe s1 (child_view t ts (v_dirs v) v)" using 1 safe buffer_wf_kbd by (auto simp: ksafe_def)
    moreover have "s1 = s'" using 1(2) run by simp
    ultimately show ?thesis by blast
  next
    case (2 j)
    then show ?thesis using run by simp
  qed
qed

section \<open>Statistics, console and keyboard\<close>

lemma ksafe_get_stats: "ksafe s v \<Longrightarrow> sys_get_stats pid p s = Some (r, s') \<Longrightarrow> ksafe s' v"
  using get_stats_from_frame ksafe_stats by (fastforce simp: sys_get_stats_def split: if_splits)

lemma ksafe_block_in_read:
  assumes safe: "ksafe s v" and user: "idle_task s \<noteq> Some (current s)" and k: "reading k"
    and run: "block_in_read k first s = Some s'"
  shows "\<exists>v'. ksafe s' v'"
proof -
  have inv: "kinv s v" and ok: "kpc_ok s v" using safe by (simp_all add: ksafe_def)
  obtain i where i: "idle_task s = Some i" using inv by (auto simp: kinv_def)
  let ?w = "v\<lparr>v_kbd := if first then current s # v_kbd v else v_kbd v @ [current s], v_ready := tl (v_ready v)\<rparr>"
  from block_in_read_ok [OF inv user, of k first] run
  have s': "kinv s' ?w" "sched_frame s s'" "current s' = v_next s v" "kpc s' = (kpc s)(current s := k)" by auto
  have "kpc_ok s' ?w"
  proof (rule kpc_ok_place [OF ok not_waiting_current [OF inv] _ s'(4)])
    show "idle_task s = Some (current s') \<or> current s' \<in> waiting v \<or> current s' = current s \<and> resumable k \<or>
        current s' = current s \<and> current s \<noteq> current s"
      using next_waiting [OF inv i] i s'(3) by auto
  qed (use sched_frame_idle [OF s'(2)] user k in \<open>auto split: if_splits dest: in_tl intro: waitingI\<close>)
  from ksafe_sched [OF safe s'(1,2) this] show ?thesis ..
qed

lemma ksafe_remaining: "ksafe s v \<Longrightarrow> ksafe (s\<lparr>remaining_to_read := n\<rparr>) v"
  by (erule ksafe_cong) (simp_all add: buffer_wf_def)

lemma ksafe_read_loop:
  assumes safe: "ksafe s v" and user: "idle_task s \<noteq> Some (current s)"
    and run: "sys_read_keyboard_loop buffer sz tot s = Some (r, s')"
  shows "\<exists>v'. ksafe s' v'"
proof (cases "0 <s sz")
  case True
  then obtain s1 where s1: "block_in_read (Read_more buffer sz tot) True (s\<lparr>remaining_to_read := sint sz\<rparr>) = Some s1" "s' = s1"
    using run by (auto simp: sys_read_keyboard_loop_def bind_eq_Some_conv)
  show ?thesis
    using ksafe_block_in_read [OF ksafe_remaining [OF safe] _ _ s1(1)] user s1(2) by simp
next
  case False
  then show ?thesis using run safe by (auto simp: sys_read_keyboard_loop_def)
qed

lemma ksafe_read_then_loop:
  assumes safe: "ksafe s v" and user: "idle_task s \<noteq> Some (current s)"
    and run: "do { (n, s) \<leftarrow> read_from_keyboard_buffer b x s; sys_read_keyboard_loop buffer (sz - n) tot s } = Some (r, s')"
  shows "\<exists>v'. ksafe s' v'"
proof -
  from run obtain n s1 where s1: "read_from_keyboard_buffer b x s = Some (n, s1)"
      "sys_read_keyboard_loop buffer (sz - n) tot s1 = Some (r, s')"
    by (auto simp: bind_eq_Some_conv)
  note t = read_from_keyboard_buffer_taken [OF s1(1)]
  from t have "idle_task s1 = idle_task s" "current s1 = current s" by (auto elim!: taken_onlyE)
  with ksafe_read_loop [OF ksafe_taken [OF safe t] _ s1(2)] user show ?thesis by simp
qed

lemma ksafe_sys_read:
  assumes safe: "ksafe s v" and user: "idle_task s \<noteq> Some (current s)" and run: "sys_read fd buffer sz s = Some (r, s')"
  shows "\<exists>v'. ksafe s' v'"
proof (cases "sys_read_keyboard buffer sz s = Some (r, s')")
  case True
  show ?thesis
  proof (cases "list_empty Keyboard_queue (links s)")
    case False
    with True have "block_in_read (Read_first buffer sz) False s = Some s'"
      by (auto simp: sys_read_keyboard_def bind_eq_Some_conv)
    then show ?thesis by (rule ksafe_block_in_read [OF safe user, rotated]) simp
  next
    case empty: True
    show ?thesis
      using True empty unfolding sys_read_keyboard_def sys_read_keyboard_first_def
      by (intro ksafe_read_then_loop [OF safe user]) simp
  qed
next
  case False
  then show ?thesis using run safe by (auto simp: sys_read_def Let_def split: if_splits)
qed

section \<open>The system call handler\<close>

lemma ksafe_table:
  assumes safe: "ksafe s v" and user: "idle_task s \<noteq> Some (current s)"
    and run: "sys_call_table n ebx ecx edx loc s = Some (r, s')"
  shows "\<exists>v'. ksafe s' v'"
proof -
  have "sys_exit s = Some s' \<or> (\<exists>x. sys_fork s = Some (x, s')) \<or> (\<exists>x. sys_write ebx ecx edx loc s = Some (x, s')) \<or>
      sys_read ebx ecx edx s = Some (r, s') \<or> (\<exists>x. sys_clone ebx ecx edx s = Some (x, s')) \<or>
      (\<exists>x. sys_sem_init ebx ecx s = Some (x, s')) \<or> sys_sem_wait ebx s = Some (r, s') \<or>
      (\<exists>x. sys_sem_signal ebx s = Some (x, s')) \<or> (\<exists>x. sys_sem_destroy ebx s = Some (x, s')) \<or>
      (\<exists>x. sys_sbrk ebx s = Some (x, s')) \<or> (\<exists>x. sys_get_stats ebx ecx s = Some (x, s')) \<or> s' = s"
    using run by (auto simp: sys_call_table_def returning_def split: if_splits)
  moreover have "\<exists>v'. ksafe s' v'" if "sys_write ebx ecx edx loc s = Some (x, s')" for x
    using ksafe_console [OF safe sys_write_only [OF that]] by blast
  moreover have "\<exists>v'. ksafe s' v'" if "sys_sbrk ebx s = Some (x, s')" for x using ksafe_sbrk [OF safe user that] by blast
  moreover have "\<exists>v'. ksafe s' v'" if "sys_get_stats ebx ecx s = Some (x, s')" for x
    using ksafe_get_stats [OF safe that] by blast
  moreover have "\<exists>v'. ksafe s' v'" if "s' = s" using safe that by blast
  ultimately show ?thesis
    using ksafe_exit [OF safe user] ksafe_fork [OF safe user] ksafe_sys_read [OF safe user] ksafe_clone [OF safe user]
      ksafe_sem_init [OF safe] ksafe_sem_wait [OF safe user] ksafe_sem_signal [OF safe] ksafe_sem_destroy [OF safe]
    by (elim disjE exE) blast+
qed

lemma ksafe_leave_call:
  assumes "ksafe s v" "leave_call x s = Some (r, s')"
  shows "ksafe s' v"
  using assms ksafe_update_stats
  by (auto simp: leave_call_def update_leaving_sys_def bind_eq_Some_conv split: sysret.splits)

lemma ksafe_system_call:
  assumes safe: "ksafe s v" and user: "idle_task s \<noteq> Some (current s)"
    and run: "system_call_handler eax ebx ecx edx loc s = Some (r, s')"
  shows "\<exists>v'. ksafe s' v'"
proof (cases "eax <s 0 \<or> MAX_SYSCALL <=s eax")
  case True
  then show ?thesis using run safe by (auto simp: system_call_handler_def)
next
  case False
  then obtain s1 s2 x where s1: "update_stats (current s) USER_TO_SYS s = Some s1"
      "sys_call_table (unat eax) ebx ecx edx loc s1 = Some (x, s2)" "leave_call x s2 = Some (r, s')"
    using run by (auto simp: system_call_handler_def update_entering_sys_def bind_eq_Some_conv)
  have "idle_task s1 \<noteq> Some (current s1)" using user by (simp add: only_stats_fields [OF update_stats_only [OF s1(1)]])
  from ksafe_table [OF ksafe_update_stats [OF safe s1(1)] this s1(2)] s1(3) ksafe_leave_call show ?thesis by blast
qed

section \<open>Interrupts\<close>

text \<open>\<^verbatim>\<open>zeos_show_clock\<close> writes to the screen.\<close>

definition shows_clock :: "(kstate \<Rightarrow> kstate) \<Rightarrow> bool" where
  "shows_clock f \<longleftrightarrow> (\<forall>s. console_only s (f s))"

lemma ksafe_tick:
  assumes "ksafe s v"
  shows "ksafe (tick s) v"
  using assms kinv_tick [of s v] kpc_ok_cong [of s v "tick s"] ksafe_sched [OF assms, of "tick s" v]
  by (simp add: ksafe_def)

text \<open>A tick that switches, with the queue of ready tasks it leaves.\<close>

lemma ksafe_switch:
  assumes safe: "ksafe s v" and need: "needs_sched_rr (tick s)"
  defines "ready \<equiv> (if idle_task s = Some (current s) then v_ready v else v_ready v @ [current s])"
  obtains s' where "execute_scheduling s = Some s'" "ksafe s' (v\<lparr>v_ready := tl ready\<rparr>)" "sched_frame s s'"
    "current s' = (case ready of [] \<Rightarrow> the (idle_task s) | t # _ \<Rightarrow> t)" "kpc s' = (kpc s)(current s := Irq_exit)"
proof -
  have inv: "kinv s v" and ok: "kpc_ok s v" using safe by (simp_all add: ksafe_def)
  obtain i where i: "idle_task s = Some i" using inv by (auto simp: kinv_def)
  let ?w = "v\<lparr>v_ready := tl ready\<rparr>"
  from execute_scheduling_switches [OF inv need] obtain s' where s': "execute_scheduling s = Some s'" "kinv s' ?w"
      "sched_frame s s'" "current s' = (case ready of [] \<Rightarrow> the (idle_task s) | t # _ \<Rightarrow> t)"
      "kpc s' = (kpc s)(current s := Irq_exit)" unfolding ready_def by blast
  have ready: "t \<in> waiting v \<or> t = current s" if "t \<in> set ready" for t
    using that by (auto simp: ready_def intro: waitingI split: if_splits)
  have "kpc_ok s' ?w"
  proof (rule kpc_ok_place [OF ok not_waiting_current [OF inv] _ s'(5) sched_frame_idle [OF s'(3)]])
    show "idle_task s = Some (current s') \<or> current s' \<in> waiting v \<or> current s' = current s \<and> resumable Irq_exit \<or>
        current s' = current s \<and> current s \<noteq> current s"
    proof (cases ready)
      case Nil
      then show ?thesis using s'(4) i by simp
    next
      case (Cons t ts)
      then have "current s' = t" "t \<in> set ready" using s'(4) by simp_all
      then show ?thesis using ready by simp
    qed
    show "t \<in> waiting v \<or> t = current s \<and> resumable Irq_exit" if "t \<in> set (v_ready ?w)" for t
      using ready in_tl that by fastforce
  qed auto
  from that [OF s'(1) ksafe_sched [OF safe s'(2,3) this] s'(3-5)] show thesis .
qed

lemma ksafe_execute_scheduling:
  assumes safe: "ksafe s v"
  obtains s' v' where "execute_scheduling s = Some s'" "ksafe s' v'"
proof (cases "needs_sched_rr (tick s)")
  case False
  have "kinv s v" using safe by (simp add: ksafe_def)
  with execute_scheduling_stays [OF _ False] ksafe_tick [OF safe] that show ?thesis by blast
next
  case True
  with ksafe_switch [OF safe] that show ?thesis by metis
qed

lemma ksafe_clock:
  assumes safe: "ksafe s v" and clk: "shows_clock f"
  obtains s' v' where "clock_routine f s = Some s'" "ksafe s' v'"
proof (cases "state (tasks s (current s)) = ST_RUN")
  case True
  have "ksafe (f (s\<lparr>zeos_ticks := zeos_ticks s + 1\<rparr>)) v"
    using ksafe_console [OF ksafe_upd(2) [OF safe]] clk by (auto simp: shows_clock_def)
  then obtain s' v' where "execute_scheduling (f (s\<lparr>zeos_ticks := zeos_ticks s + 1\<rparr>)) = Some s'" "ksafe s' v'"
    by (rule ksafe_execute_scheduling)
  with True that show ?thesis by (simp add: clock_routine_def)
next
  case False
  then show ?thesis using that safe by (simp add: clock_routine_def)
qed

lemma ksafe_keyboard:
  assumes safe: "ksafe s v"
  obtains s' v' where "keyboard_routine value s = Some s'" "ksafe s' v'"
proof (cases "key_of value = None \<or> is_buffer_full s")
  case True
  with safe that show ?thesis using keyboard_routine_ignores by blast
next
  case False
  then obtain key where key: "key_of value = Some key" "\<not> is_buffer_full s" by auto
  have inv: "kinv s v" and ok: "kpc_ok s v" and wf: "buffer_wf s" using safe by (simp_all add: ksafe_def)
  note k = keyboard_routine_key [OF inv wf key]
  let ?s1 = "s\<lparr>keyboard_buffer := (keyboard_buffer s)(buff_to s := key),
               buff_to := (buff_to s + 1) mod KEYBOARD_BUFFER_SIZE\<rparr>"
  let ?s2 = "?s1\<lparr>remaining_to_read := remaining_to_read s - 1\<rparr>"
  have safe1: "ksafe ?s1 v" by (rule ksafe_cong [OF safe]) (use k(4) in simp_all)
  have safe2: "ksafe ?s2 v" by (rule ksafe_remaining [OF safe1])
  show ?thesis
  proof (cases "v_kbd v \<noteq> [] \<and> (remaining_to_read s \<le> 1 \<or> is_buffer_full ?s1)")
    case False
    have "keyboard_routine value s = Some ?s1 \<or> keyboard_routine value s = Some ?s2"
      unfolding k(1) using False by (auto simp: Let_def)
    then show ?thesis using that safe1 safe2 by blast
  next
    case True
    then obtain r rs where kbd: "v_kbd v = r # rs" by (cases "v_kbd v") auto
    let ?w = "v\<lparr>v_kbd := rs, v_ready := (if idle_task s = Some (current s) then v_ready v else v_ready v @ [current s])\<rparr>"
    obtain s3 where s3: "wake_reader ?s2 = Some s3" "kinv s3 ?w" "sched_frame ?s2 s3" "current s3 = r"
        "kpc s3 = (kpc s)(current s := Irq_exit)"
      using wake_reader_ok [OF k(3) kbd, of "remaining_to_read s - 1"] by (auto cong: if_cong)
    have "kpc_ok s3 ?w"
      by (rule kpc_ok_place [OF ok not_waiting_current [OF inv] _ s3(5)])
        (use sched_frame_idle [OF s3(3)] s3(4) kbd in \<open>auto intro: waitingI split: if_splits\<close>)
    from ksafe_sched [OF safe2 s3(2,3) this] have "ksafe s3 ?w" .
    moreover have "keyboard_routine value s = Some s3" unfolding k(1) using True s3(1) by (simp add: Let_def)
    ultimately show ?thesis using that by blast
  qed
qed

lemma ksafe_irq:
  assumes safe: "ksafe s v" and routine: "\<And>s v. ksafe s v \<Longrightarrow> \<exists>s' v'. f s = Some s' \<and> ksafe s' v'"
  shows "\<exists>s' v'. irq_handler f s = Some s' \<and> ksafe s' v'"
proof -
  obtain s1 where s1: "update_entering_sys s = Some s1" unfolding update_entering_sys_def using update_stats_returns by blast
  then have "ksafe s1 v" using ksafe_update_stats [OF safe] by (simp add: update_entering_sys_def)
  then obtain s2 w where s2: "f s1 = Some s2" "ksafe s2 w" using routine by blast
  obtain s3 where s3: "update_leaving_sys s2 = Some s3" unfolding update_leaving_sys_def using update_stats_returns by blast
  then have "ksafe s3 w" using ksafe_update_stats [OF s2(2)] by (simp add: update_leaving_sys_def)
  then show ?thesis using s1 s2 s3 by (auto simp: irq_handler_def)
qed

text \<open>Both interrupt handlers always return.\<close>

lemma clock_handler_returns:
  "ksafe s v \<Longrightarrow> shows_clock f \<Longrightarrow> \<exists>s' v'. clock_handler f s = Some s' \<and> ksafe s' v'"
  unfolding clock_handler_def by (rule ksafe_irq) (blast elim: ksafe_clock)+

lemma keyboard_handler_returns: "ksafe s v \<Longrightarrow> \<exists>s' v'. keyboard_handler value s = Some s' \<and> ksafe s' v'"
  unfolding keyboard_handler_def by (rule ksafe_irq) (blast elim: ksafe_keyboard)+

end
