(* ===== verification/User_Pages.thy ===== *)
theory User_Pages
  imports Memory_Inv
begin

text \<open>
  \<^verbatim>\<open>set_user_pages\<close>: with enough free frames, the code and data pages of a new process are mapped to
  distinct frames that nobody used.
\<close>

text \<open>Taking a frame and mapping it, with the entry \<open>e\<close> of the frame.\<close>

definition map_user_page :: "nat \<Rightarrow> (int \<Rightarrow> page_table_entry) \<Rightarrow> nat \<Rightarrow> nat \<Rightarrow> kstate \<Rightarrow> kstate option" where
  "map_user_page pt e base i s =
     (let (f, s) = alloc_frame s
      in Some (s\<lparr>pagusr_table := (pagusr_table s)(pt := (pagusr_table s pt)(base + i := e f))\<rparr>))"

lemma available_cong: "frame_used s' = frame_used s \<Longrightarrow> frames.available s' = frames.available s"
  by (simp add: frames.available_def)

text \<open>The pages from \<open>base\<close> on, mapped to the frames \<open>fs\<close>.\<close>

definition mapped_tables :: "nat \<Rightarrow> bool \<Rightarrow> nat \<Rightarrow> nat list \<Rightarrow> kstate \<Rightarrow> nat \<Rightarrow> nat \<Rightarrow> page_table_entry" where
  "mapped_tables pt rw base fs s j i =
     (if j = pt \<and> base \<le> i \<and> i < base + length fs then user_pte (fs ! (i - base)) rw else pagusr_table s j i)"

lemma map_user_pages_ok:
  assumes "n + m \<le> card (frames.available s)" and e: "\<And>f. e (int f) = user_pte f rw"
  shows "\<exists>s' fs. for_range 0 n (map_user_page pt e base) s = Some s' \<and> mm_only s s' \<and>
           m \<le> card (frames.available s') \<and> length fs = n \<and> distinct fs \<and>
           (\<forall>f\<in>set fs. f \<in> frame_pool \<and> \<not> frame_used s f) \<and> frame_used s' = (\<lambda>f. frame_used s f \<or> f \<in> set fs) \<and>
           pagusr_table s' = mapped_tables pt rw base fs s \<and> cow_count_mem s' 0 = cow_count_mem s 0"
proof -
  let ?I = "\<lambda>k s'. \<exists>fs. mm_only s s' \<and> n - k + m \<le> card (frames.available s') \<and> length fs = k \<and> distinct fs \<and>
      (\<forall>f\<in>set fs. f \<in> frame_pool \<and> \<not> frame_used s f) \<and> frame_used s' = (\<lambda>f. frame_used s f \<or> f \<in> set fs) \<and>
      pagusr_table s' = mapped_tables pt rw base fs s \<and> cow_count_mem s' 0 = cow_count_mem s 0"
  have "\<exists>s'. for_range 0 n (map_user_page pt e base) s = Some s' \<and> ?I (0 + n) s'"
  proof (rule for_range_rule)
    fix k s1
    assume k: "k < 0 + n" and "?I k s1"
    then obtain fs where I: "mm_only s s1" "n - k + m \<le> card (frames.available s1)" "length fs = k" "distinct fs"
      "\<forall>f\<in>set fs. f \<in> frame_pool \<and> \<not> frame_used s f" "frame_used s1 = (\<lambda>f. frame_used s f \<or> f \<in> set fs)"
      "pagusr_table s1 = mapped_tables pt rw base fs s" "cow_count_mem s1 0 = cow_count_mem s 0" by blast
    have "Suc (n - Suc k + m) \<le> card (frames.available s1)" using I(2) k by simp
    from frames.alloc_available [OF this] obtain f s2 where f: "alloc_frame s1 = (int f, s2)" "f \<in> frame_pool"
      "\<not> frame_used s1 f" "frame_used s2 = (frame_used s1)(f := True)" "n - Suc k + m \<le> card (frames.available s2)"
      by blast
    note mm = alloc_frame_mm [OF f(1)]
    let ?s3 = "s2\<lparr>pagusr_table := (pagusr_table s2)(pt := (pagusr_table s2 pt)(base + k := user_pte f rw))\<rparr>"
    have used: "frame_used ?s3 = frame_used s2" by (simp add: frame_used_def fun_eq_iff)
    have "pagusr_table ?s3 j i = mapped_tables pt rw base (fs @ [f]) s j i" for j i
      using I(3,7) mm(2) by (auto simp: mapped_tables_def nth_append)
    then have T: "pagusr_table ?s3 = mapped_tables pt rw base (fs @ [f]) s" by blast
    have "mm_only s ?s3" using mm_only_trans [OF I(1) mm(1)] by simp
    moreover have "n - Suc k + m \<le> card (frames.available ?s3)" using f(5) available_cong [OF used] by simp
    ultimately have "?I (Suc k) ?s3"
      using I f(2-4) T used mm(3) by (intro exI [of _ "fs @ [f]"]) (auto simp: fun_eq_iff)
    moreover have "map_user_page pt e base k s1 = Some ?s3" by (simp add: map_user_page_def f(1) e)
    ultimately show "\<exists>s2. map_user_page pt e base k s1 = Some s2 \<and> ?I (Suc k) s2" by blast
  next
    show "?I 0 s" using assms by (intro exI [of _ "[]"]) (auto simp: mapped_tables_def fun_eq_iff)
  qed
  then show ?thesis by auto
qed

lemma user_pte_ro: "set_pte_present True (set_pte_user True (set_pte_pbase_addr (of_nat f) 0)) = user_pte f False"
  by (simp add: user_pte_def set_pte_rw_False_zero)

lemma set_user_pages_unfold:
  assumes PT: "get_PT s t = Some pt" "pt < NR_TASKS"
  shows "set_user_pages t s =
    do { s \<leftarrow> for_range 0 NUM_PAG_CODE (map_user_page pt
           (\<lambda>f. set_pte_present True (set_pte_user True (set_pte_pbase_addr (of_int f) 0))) PAG_LOG_INIT_CODE) s;
         for_range 0 NUM_PAG_DATA (map_user_page pt
           (\<lambda>f. set_pte_present True (set_pte_rw True (set_pte_user True (set_pte_pbase_addr (of_int f) 0))))
           PAG_LOG_INIT_DATA) s }"
proof -
  have "for_range 0 NUM_PAG_CODE
      (\<lambda>pag s. (let (new_ph_pag, s) = alloc_frame s
                in do { s \<leftarrow> upd_pte pt (PAG_LOG_INIT_CODE + pag) (\<lambda>_. 0) s;
                        s \<leftarrow> upd_pte pt (PAG_LOG_INIT_CODE + pag) (set_pte_pbase_addr (of_int new_ph_pag)) s;
                        s \<leftarrow> upd_pte pt (PAG_LOG_INIT_CODE + pag) (set_pte_user True) s;
                        upd_pte pt (PAG_LOG_INIT_CODE + pag) (set_pte_present True) s })) =
      for_range 0 NUM_PAG_CODE (map_user_page pt
        (\<lambda>f. set_pte_present True (set_pte_user True (set_pte_pbase_addr (of_int f) 0))) PAG_LOG_INIT_CODE)"
    by (rule ext, rule for_range_cong) (use PT(2) in \<open>simp add: map_user_page_def upd_pte_ok split_beta Let_def\<close>)
  moreover have "for_range 0 NUM_PAG_DATA
      (\<lambda>pag s. (let (new_ph_pag, s) = alloc_frame s
                in do { s \<leftarrow> upd_pte pt (PAG_LOG_INIT_DATA + pag) (\<lambda>_. 0) s;
                        s \<leftarrow> upd_pte pt (PAG_LOG_INIT_DATA + pag) (set_pte_pbase_addr (of_int new_ph_pag)) s;
                        s \<leftarrow> upd_pte pt (PAG_LOG_INIT_DATA + pag) (set_pte_user True) s;
                        s \<leftarrow> upd_pte pt (PAG_LOG_INIT_DATA + pag) (set_pte_rw True) s;
                        upd_pte pt (PAG_LOG_INIT_DATA + pag) (set_pte_present True) s })) =
      for_range 0 NUM_PAG_DATA (map_user_page pt
        (\<lambda>f. set_pte_present True (set_pte_rw True (set_pte_user True (set_pte_pbase_addr (of_int f) 0)))) PAG_LOG_INIT_DATA)"
    by (rule ext, rule for_range_cong) (use PT(2) in \<open>simp add: map_user_page_def upd_pte_ok split_beta Let_def\<close>)
  ultimately show ?thesis unfolding set_user_pages_def PT(1) bind.bind_lunit by (simp only:)
qed

lemma set_user_pages_ok:
  assumes PT: "get_PT s t = Some pt" "pt < NR_TASKS" and free: "28 \<le> card (frames.available s)"
  obtains s' fs where "set_user_pages t s = Some s'" "mm_only s s'" "length fs = 28" "distinct fs"
    "\<forall>f\<in>set fs. f \<in> frame_pool \<and> \<not> frame_used s f" "frame_used s' = (\<lambda>f. frame_used s f \<or> f \<in> set fs)"
    "pagusr_table s' = (\<lambda>j i. if j = pt \<and> USER_FIRST_PAGE \<le> i \<and> i < USER_FIRST_PAGE + 28
       then user_pte (fs ! (i - USER_FIRST_PAGE)) (PAG_LOG_INIT_DATA \<le> i) else pagusr_table s j i)"
    "cow_count_mem s' 0 = cow_count_mem s 0"
proof -
  let ?ro = "\<lambda>f. set_pte_present True (set_pte_user True (set_pte_pbase_addr (of_int f) 0))"
  let ?rw = "\<lambda>f. set_pte_present True (set_pte_rw True (set_pte_user True (set_pte_pbase_addr (of_int f) 0)))"
  have e: "?ro (int f) = user_pte f False" "?rw (int f) = user_pte f True" for f
    by (simp_all add: user_pte_ro) (simp add: user_pte_def)
  obtain s1 fs where s1: "for_range 0 NUM_PAG_CODE (map_user_page pt ?ro PAG_LOG_INIT_CODE) s = Some s1" "mm_only s s1"
      "20 \<le> card (frames.available s1)" "length fs = NUM_PAG_CODE" "distinct fs" "\<forall>f\<in>set fs. f \<in> frame_pool \<and> \<not> frame_used s f"
      "frame_used s1 = (\<lambda>f. frame_used s f \<or> f \<in> set fs)" "pagusr_table s1 = mapped_tables pt False PAG_LOG_INIT_CODE fs s"
      "cow_count_mem s1 0 = cow_count_mem s 0"
    using map_user_pages_ok [OF _ e(1), of NUM_PAG_CODE 20 s pt PAG_LOG_INIT_CODE] free by auto
  obtain s2 gs where s2: "for_range 0 NUM_PAG_DATA (map_user_page pt ?rw PAG_LOG_INIT_DATA) s1 = Some s2" "mm_only s1 s2"
      "length gs = NUM_PAG_DATA" "distinct gs" "\<forall>f\<in>set gs. f \<in> frame_pool \<and> \<not> frame_used s1 f"
      "frame_used s2 = (\<lambda>f. frame_used s1 f \<or> f \<in> set gs)" "pagusr_table s2 = mapped_tables pt True PAG_LOG_INIT_DATA gs s1"
      "cow_count_mem s2 0 = cow_count_mem s1 0"
    using map_user_pages_ok [OF _ e(2), of NUM_PAG_DATA 0 s1 pt PAG_LOG_INIT_DATA] s1(3) by auto
  have "set_user_pages t s = Some s2"
    unfolding set_user_pages_unfold [OF PT] s1(1) bind.bind_lunit by (rule s2(1))
  moreover have "pagusr_table s2 j i = (if j = pt \<and> USER_FIRST_PAGE \<le> i \<and> i < USER_FIRST_PAGE + 28
       then user_pte ((fs @ gs) ! (i - USER_FIRST_PAGE)) (PAG_LOG_INIT_DATA \<le> i) else pagusr_table s j i)" for j i
    using s1(4) s2(3) by (auto simp: s2(7) s1(8) mapped_tables_def nth_append)
  ultimately show ?thesis
    using s1 s2 mm_only_trans [OF s1(2) s2(2)] by (intro that [of s2 "fs @ gs"]) (auto simp: fun_eq_iff)
qed

end
