(* ===== verification/Boot.thy ===== *)
theory Boot
  imports Allocate Keyboard User_Pages
begin

text \<open>
  The initialisation of \<^verbatim>\<open>main\<close> in \<^verbatim>\<open>system.c\<close>. From a machine whose variables are zero and
  whose kernel image has the layout the linker script asks for, it returns and establishes
  the kernel invariant, with task 0 as idle task and task 1 running.
\<close>

section \<open>The part of \<^verbatim>\<open>main\<close> that builds the kernel's state\<close>

definition boot :: "kstate \<Rightarrow> kstate option" where
  "boot s =
     do { s \<leftarrow> init_mm s;
          s \<leftarrow> init_sched s;
          s \<leftarrow> init_idle s;
          s \<leftarrow> init_task1 s;
          init_keyboard s }"

text \<open>The image has zeros for the \<^verbatim>\<open>.bss\<close> section, as \<^verbatim>\<open>.data.task\<close> follows it: no list head is linked, no task has a directory or is inside the kernel.\<close>

definition zeroed :: "kstate \<Rightarrow> bool" where
  "zeroed s \<longleftrightarrow>
     (\<forall>n. next_ptr (links s n) = None \<and> prev_ptr (links s n) = None) \<and>
     (\<forall>t. dir_pages_baseAddr (tasks s t) = None) \<and> (\<forall>i. dir_pages s i = 0) \<and> (\<forall>t. kpc s t = User_mode)"

section \<open>Page tables\<close>

lemma clear_row:
  assumes "j < NR_TASKS"
  shows "\<exists>tb. for_range 0 TOTAL_PAGES (\<lambda>i s. upd_pte j i (\<lambda>_. 0) s) s =
           Some (s\<lparr>pagusr_table := (pagusr_table s)(j := tb)\<rparr>) \<and> (\<forall>i<TOTAL_PAGES. tb i = 0)"
proof -
  have "\<exists>s'. for_range 0 TOTAL_PAGES (\<lambda>i s. upd_pte j i (\<lambda>_. 0) s) s = Some s' \<and>
      (\<exists>tb. s' = s\<lparr>pagusr_table := (pagusr_table s)(j := tb)\<rparr> \<and> (\<forall>i<0 + TOTAL_PAGES. tb i = 0))"
  proof (rule for_range_rule)
    fix i s1
    assume i: "i < 0 + TOTAL_PAGES"
      and "\<exists>tb. s1 = s\<lparr>pagusr_table := (pagusr_table s)(j := tb)\<rparr> \<and> (\<forall>k<i. tb k = 0)"
    then obtain tb where tb: "s1 = s\<lparr>pagusr_table := (pagusr_table s)(j := tb)\<rparr>" "\<forall>k<i. tb k = 0" by blast
    show "\<exists>s2. upd_pte j i (\<lambda>_. 0) s1 = Some s2 \<and>
        (\<exists>tb. s2 = s\<lparr>pagusr_table := (pagusr_table s)(j := tb)\<rparr> \<and> (\<forall>k<Suc i. tb k = 0))"
      using i assms tb by (auto simp: upd_pte_ok less_Suc_eq intro!: exI [of _ "tb(i := 0)"])
  qed (rule exI [of _ "pagusr_table s j"], simp)
  then show ?thesis by auto
qed

lemma map_kernel_pages:
  assumes "j < NR_TASKS" "\<forall>i<TOTAL_PAGES. pagusr_table s j i = 0"
  shows "\<exists>tb. for_range 1 (NUM_PAG_KERNEL - 1)
             (\<lambda>i s. do { s \<leftarrow> upd_pte j i (set_pte_pbase_addr (of_nat i)) s;
                         s \<leftarrow> upd_pte j i (set_pte_rw True) s;
                         upd_pte j i (set_pte_present True) s }) s =
           Some (s\<lparr>pagusr_table := (pagusr_table s)(j := tb)\<rparr>) \<and>
           (\<forall>i<TOTAL_PAGES. tb i = (if 1 \<le> i \<and> i < NUM_PAG_KERNEL then kernel_pte i else 0))"
proof -
  let ?body = "\<lambda>i s. do { s \<leftarrow> upd_pte j i (set_pte_pbase_addr (of_nat i)) s;
                         s \<leftarrow> upd_pte j i (set_pte_rw True) s;
                         upd_pte j i (set_pte_present True) s }"
  let ?I = "\<lambda>n s'. \<exists>tb. s' = s\<lparr>pagusr_table := (pagusr_table s)(j := tb)\<rparr> \<and>
      (\<forall>i<TOTAL_PAGES. tb i = (if 1 \<le> i \<and> i < n then kernel_pte i else 0))"
  have "\<exists>s'. for_range 1 (NUM_PAG_KERNEL - 1) ?body s = Some s' \<and> ?I (1 + (NUM_PAG_KERNEL - 1)) s'"
  proof (rule for_range_rule)
    fix i s1
    assume i: "1 \<le> i" "i < 1 + (NUM_PAG_KERNEL - 1)" and "?I i s1"
    then obtain tb where tb: "s1 = s\<lparr>pagusr_table := (pagusr_table s)(j := tb)\<rparr>"
        "\<forall>k<TOTAL_PAGES. tb k = (if 1 \<le> k \<and> k < i then kernel_pte k else 0)" by blast
    have "?body i s1 = Some (s\<lparr>pagusr_table := (pagusr_table s)(j := tb(i := kernel_pte i))\<rparr>)"
      using i assms(1) tb by (simp add: upd_pte_ok kernel_pte_def)
    moreover have "?I (Suc i) (s\<lparr>pagusr_table := (pagusr_table s)(j := tb(i := kernel_pte i))\<rparr>)"
      using i tb(2) by (intro exI [of _ "tb(i := kernel_pte i)"]) (auto simp: less_Suc_eq)
    ultimately show "\<exists>s2. ?body i s1 = Some s2 \<and> ?I (Suc i) s2" by blast
  next
    show "?I 1 s" using assms(2) by (intro exI [of _ "pagusr_table s j"]) auto
  qed
  then show ?thesis by auto
qed

lemma init_table_pages_ok:
  assumes "layout_ok s"
  shows "\<exists>T p. init_table_pages s = Some (s\<lparr>pagusr_table := T\<rparr>) \<and>
           tasks_addr s = of_nat (p * PAGE_SIZE) \<and> 2 \<le> p \<and> p + 11 \<le> NUM_PAG_KERNEL \<and>
           (\<forall>j<NR_TASKS. kernel_row p (T j) \<and> (\<forall>i. NUM_PAG_KERNEL \<le> i \<longrightarrow> i < TOTAL_PAGES \<longrightarrow> T j i = 0))"
proof -
  obtain p where p: "tasks_addr s = of_nat (p * PAGE_SIZE)" "2 \<le> p" "p + 11 \<le> NUM_PAG_KERNEL"
    using assms by (auto simp: layout_ok_def)
  have "tasks_addr s - of_nat PAGE_SIZE = of_nat ((p - 1) * PAGE_SIZE)"
    using p by (simp add: of_nat_diff diff_mult_distrib)
  then have g1: "unat (drop_bit 12 (tasks_addr s - of_nat PAGE_SIZE)) = p - 1"
    using page_of_addr [of "p - 1"] p(3) by simp
  have "tasks_addr s + of_nat (10 * PAGE_SIZE) = of_nat ((p + 10) * PAGE_SIZE)"
    using p(1) by (simp add: algebra_simps)
  then have g2: "unat (drop_bit 12 (tasks_addr s + of_nat (10 * PAGE_SIZE))) = p + 10"
    using page_of_addr [of "p + 10"] p(3) by simp
  let ?body = "\<lambda>j s. do { s \<leftarrow> for_range 0 TOTAL_PAGES (\<lambda>i s. upd_pte j i (\<lambda>_. 0) s) s;
               s \<leftarrow> for_range 1 (NUM_PAG_KERNEL - 1)
                      (\<lambda>i s. do { s \<leftarrow> upd_pte j i (set_pte_pbase_addr (of_nat i)) s;
                                  s \<leftarrow> upd_pte j i (set_pte_rw True) s;
                                  upd_pte j i (set_pte_present True) s }) s;
               s \<leftarrow> upd_pte j (unat (drop_bit 12 (tasks_addr s - of_nat PAGE_SIZE)))
                      (set_pte_present False) s;
               upd_pte j (unat (drop_bit 12 (tasks_addr s + of_nat (10 * PAGE_SIZE))))
                      (set_pte_present False) s }"
  let ?I = "\<lambda>j s'. \<exists>T. s' = s\<lparr>pagusr_table := T\<rparr> \<and> 
      (\<forall>k<j. kernel_row p (T k) \<and> (\<forall>i. NUM_PAG_KERNEL \<le> i \<longrightarrow> i < TOTAL_PAGES \<longrightarrow> T k i = 0))"
  have "\<exists>s'. for_range 0 NR_TASKS ?body s = Some s' \<and> ?I (0 + NR_TASKS) s'"
  proof (rule for_range_rule)
    fix j s1
    assume j: "j < 0 + NR_TASKS" and "?I j s1"
    then obtain T where T: "s1 = s\<lparr>pagusr_table := T\<rparr>" "\<forall>k<j. kernel_row p (T k) \<and> (\<forall>i. NUM_PAG_KERNEL \<le> i \<longrightarrow> i < TOTAL_PAGES \<longrightarrow> T k i = 0)" by blast
    obtain ta where ta: "for_range 0 TOTAL_PAGES (\<lambda>i s. upd_pte j i (\<lambda>_. 0) s) s1 =
        Some (s\<lparr>pagusr_table := T(j := ta)\<rparr>)" "\<forall>i<TOTAL_PAGES. ta i = 0"
      using clear_row [of j s1] j T(1) by auto
    obtain tb where tb: "for_range 1 (NUM_PAG_KERNEL - 1)
             (\<lambda>i s. do { s \<leftarrow> upd_pte j i (set_pte_pbase_addr (of_nat i)) s;
                         s \<leftarrow> upd_pte j i (set_pte_rw True) s;
                         upd_pte j i (set_pte_present True) s }) (s\<lparr>pagusr_table := T(j := ta)\<rparr>) =
           Some (s\<lparr>pagusr_table := T(j := tb)\<rparr>)"
        "\<forall>i<TOTAL_PAGES. tb i = (if 1 \<le> i \<and> i < NUM_PAG_KERNEL then kernel_pte i else 0)"
      using map_kernel_pages [of j "s\<lparr>pagusr_table := T(j := ta)\<rparr>"] j ta(2) by auto
    define tc where "tc = tb(p - 1 := set_pte_present False (tb (p - 1)))"
    define td where "td = tc(p + 10 := set_pte_present False (tc (p + 10)))"
    have "?body j s1 = Some (s\<lparr>pagusr_table := T(j := td)\<rparr>)"
      unfolding ta(1) bind.bind_lunit tb(1) using j p g1 g2 by (simp add: upd_pte_ok td_def tc_def)
    moreover have "kernel_row p td" unfolding kernel_row_def td_def tc_def using tb(2) p(2) by auto
    moreover have "\<forall>i. NUM_PAG_KERNEL \<le> i \<longrightarrow> i < TOTAL_PAGES \<longrightarrow> td i = 0"
      unfolding td_def tc_def using tb(2) p(2,3) by auto
    ultimately show "\<exists>s2. ?body j s1 = Some s2 \<and> ?I (Suc j) s2"
      using T(2) by (auto simp: less_Suc_eq intro!: exI [of _ "T(j := td)"])
  qed (auto intro!: exI [of _ "pagusr_table s"])
  then obtain T where "for_range 0 NR_TASKS ?body s = Some (s\<lparr>pagusr_table := T\<rparr>)"
      "\<forall>k<NR_TASKS. kernel_row p (T k) \<and> (\<forall>i. NUM_PAG_KERNEL \<le> i \<longrightarrow> i < TOTAL_PAGES \<longrightarrow> T k i = 0)"
    by auto
  with p show ?thesis unfolding init_table_pages_def by blast
qed

section \<open>Frames and directories\<close>

lemma init_frames_returns:
  "\<exists>m c. init_frames s = Some (s\<lparr>phys_mem := m, cow_count_mem := c\<rparr>) \<and>
     (\<forall>f<TOTAL_PAGES. m f \<noteq> FREE_FRAME \<longleftrightarrow> f < NUM_PAG_KERNEL) \<and> c 0 = 0"
proof -
  obtain s1 where s1: "init_frames s = Some s1" "\<forall>f<TOTAL_PAGES. frame_used s1 f \<longleftrightarrow> f < NUM_PAG_KERNEL"
    using init_frames_ok by blast
  let ?f = "\<lambda>x. x\<lparr>phys_mem := \<lambda>_. 0, cow_count_mem := \<lambda>_. 0\<rparr> :: kstate"
  obtain s2 where s2: "for_range 0 TOTAL_PAGES
        (\<lambda>i s. Some (s\<lparr>phys_mem := (phys_mem s)(i := FREE_FRAME)\<rparr>)) s = Some s2"
      "for_range 0 NUM_PAG_KERNEL
        (\<lambda>i s. Some (s\<lparr>phys_mem := (phys_mem s)(i := USED_FRAME),
                       cow_count_mem := (cow_count_mem s)(i := 0)\<rparr>)) s2 = Some s1"
    using s1(1) by (auto simp: init_frames_def bind_eq_Some_conv)
  have "?f s2 = ?f s" by (rule for_range_frame [OF _ s2(1)]) auto
  moreover have "?f s1 = ?f s2" by (rule for_range_frame [OF _ s2(2)]) auto
  ultimately have "?f s1 = ?f s" by simp
  then have "s1 = s\<lparr>phys_mem := phys_mem s1, cow_count_mem := cow_count_mem s1\<rparr>"
    by (cases s; cases s1) simp
  moreover have "\<exists>s'. for_range 0 NUM_PAG_KERNEL
        (\<lambda>i s. Some (s\<lparr>phys_mem := (phys_mem s)(i := USED_FRAME),
                       cow_count_mem := (cow_count_mem s)(i := 0)\<rparr>)) s2 = Some s' \<and>
      (\<forall>f<0 + NUM_PAG_KERNEL. cow_count_mem s' f = 0)"
    by (rule for_range_rule) (auto simp: less_Suc_eq)
  then have "cow_count_mem s1 0 = 0" using s2(2) by simp
  ultimately show ?thesis using s1 unfolding frame_used_def by metis
qed

lemma frames_after_init:
  assumes "\<forall>f<TOTAL_PAGES. phys_mem s f \<noteq> FREE_FRAME \<longleftrightarrow> f < NUM_PAG_KERNEL"
  shows "28 \<le> card (frames.available s)"
proof -
  have "(\<lambda>k. NUM_PAG_KERNEL + 2 * k) ` {..<28} \<subseteq> frames.available s"
  proof (rule image_subsetI)
    fix k :: nat
    assume "k \<in> {..<28}"
    then have "NUM_PAG_KERNEL + 2 * k \<in> frame_pool" "NUM_PAG_KERNEL + 2 * k < TOTAL_PAGES"
      by (simp_all add: frame_pool_def)
    then show "NUM_PAG_KERNEL + 2 * k \<in> frames.available s"
      using assms [rule_format, of "NUM_PAG_KERNEL + 2 * k"] by (simp add: frames.available_def frame_used_def)
  qed
  moreover have "card ((\<lambda>k. NUM_PAG_KERNEL + 2 * k) ` {..<28}) = 28" by (simp add: card_image inj_on_def)
  ultimately show ?thesis using card_mono [OF frames.finite_available] by metis
qed

lemma init_dir_pages_ok:
  assumes L: "lists_ok (links s) F" and F: "Free_dirs \<notin> members F" "\<And>i. Dir_anchor i \<notin> members F"
  shows "\<exists>h dp ds. init_dir_pages s = Some (s\<lparr>links := h, dir_pages := dp, dir_status := ds\<rparr>) \<and>
           lists_ok h (F(Free_dirs \<mapsto> map Dir_anchor (rev [0..<NR_TASKS]))) \<and>
           (\<forall>i<NR_TASKS. dp (i * TOTAL_PAGES) = dir_pte s i \<and> ds i = \<lparr>dir_count = 0, dir_pos = int i\<rparr>) \<and>
           (\<forall>i. i mod TOTAL_PAGES \<noteq> 0 \<longrightarrow> dp i = dir_pages s i)"
proof -
  obtain h0 where h0: "INIT_LIST_HEAD Free_dirs (links s) = Some h0" "lists_ok h0 (F(Free_dirs \<mapsto> []))"
    using zlist.init_law [OF L] F(1) by blast
  let ?body = "\<lambda>i s.
               (let e = i * TOTAL_PAGES + ENTRY_DIR_PAGES;
                    s = upd_dir_entry e (\<lambda>_. 0) s;
                    s = upd_dir_entry e (set_pte_pbase_addr
                          (drop_bit 12 (pagusr_table_addr s + of_nat (i * PAGE_SIZE)))) s;
                    s = upd_dir_entry e (set_pte_user True) s;
                    s = upd_dir_entry e (set_pte_rw True) s;
                    s = upd_dir_entry e (set_pte_present True) s;
                    s = s\<lparr>dir_status := (dir_status s)(i := \<lparr>dir_count = 0, dir_pos = int i\<rparr>)\<rparr>
                in on_links (list_add (Dir_anchor i) Free_dirs) s)"
  let ?I = "\<lambda>n s'. \<exists>h dp ds. s' = s\<lparr>links := h, dir_pages := dp, dir_status := ds\<rparr> \<and>
           lists_ok h (F(Free_dirs \<mapsto> map Dir_anchor (rev [0..<n]))) \<and>
           (\<forall>i<n. dp (i * TOTAL_PAGES) = dir_pte s i \<and> ds i = \<lparr>dir_count = 0, dir_pos = int i\<rparr>) \<and>
           (\<forall>i. i mod TOTAL_PAGES \<noteq> 0 \<longrightarrow> dp i = dir_pages s i)"
  have "\<exists>s'. for_range 0 NR_TASKS ?body (s\<lparr>links := h0\<rparr>) = Some s' \<and> ?I (0 + NR_TASKS) s'"
  proof (rule for_range_rule)
    fix i s1
    assume "?I i s1"
    then obtain h dp ds where I: "s1 = s\<lparr>links := h, dir_pages := dp, dir_status := ds\<rparr>"
        "lists_ok h (F(Free_dirs \<mapsto> map Dir_anchor (rev [0..<i])))"
        "\<forall>k<i. dp (k * TOTAL_PAGES) = dir_pte s k \<and> ds k = \<lparr>dir_count = 0, dir_pos = int k\<rparr>"
        "\<forall>k. k mod TOTAL_PAGES \<noteq> 0 \<longrightarrow> dp k = dir_pages s k"
      by blast
    have "members (F(Free_dirs \<mapsto> map Dir_anchor (rev [0..<i]))) \<subseteq>
        insert Free_dirs (set (map Dir_anchor (rev [0..<i])) \<union> members F)"
      by (rule members_upd_subset)
    then have "Dir_anchor i \<notin> members (F(Free_dirs \<mapsto> map Dir_anchor (rev [0..<i])))"
      using F(2) by auto
    from zlist.add_law [OF I(2) _ this, of Free_dirs "map Dir_anchor (rev [0..<i])"] obtain h'
      where h': "list_add (Dir_anchor i) Free_dirs h = Some h'"
        "lists_ok h' (F(Free_dirs \<mapsto> map Dir_anchor (rev [0..<Suc i])))"
      by auto
    let ?dp = "dp(i * TOTAL_PAGES := dir_pte s i)" and ?ds = "ds(i := \<lparr>dir_count = 0, dir_pos = int i\<rparr>)"
    have "?body i s1 = Some (s\<lparr>links := h', dir_pages := ?dp, dir_status := ?ds\<rparr>)"
      using h'(1) I(1) by (simp add: upd_dir_entry_def on_links_def Let_def dir_pte_def)
    moreover have "?I (Suc i) (s\<lparr>links := h', dir_pages := ?dp, dir_status := ?ds\<rparr>)"
      using h'(2) I(3,4) by (intro exI [of _ h'] exI [of _ ?dp] exI [of _ ?ds]) (auto simp: less_Suc_eq)
    ultimately show "\<exists>s2. ?body i s1 = Some s2 \<and> ?I (Suc i) s2" by blast
  next
    show "?I 0 (s\<lparr>links := h0\<rparr>)"
      using h0(2) by (intro exI [of _ h0] exI [of _ "dir_pages s"] exI [of _ "dir_status s"]) simp
  qed
  then show ?thesis using h0(1) unfolding init_dir_pages_def on_links_def by auto
qed

section \<open>Queues\<close>

lemma update_process_state_new:
  assumes L: "lists_ok (links s) F" and t: "Task_anchor t \<notin> members F" and d: "F d = Some xs"
  shows "\<exists>h. update_process_state t (Some d) False s =
             Some (upd_task t (\<lambda>k. k\<lparr>state := tag_of d\<rparr>) (s\<lparr>links := h\<rparr>)) \<and>
           lists_ok h (F(d \<mapsto> xs @ [Task_anchor t]))"
proof -
  have "\<not> anchor_linked (Task_anchor t) (links s)" using zlist.linked_law [OF L] t by simp
  moreover obtain h where "list_add_tail (Task_anchor t) d (links s) = Some h"
      "lists_ok h (F(d \<mapsto> xs @ [Task_anchor t]))"
    using zlist.add_tail_law [OF L d t] by blast
  ultimately show ?thesis by (auto simp: update_process_state_def on_links_def tag_of_def)
qed

lemma free_all_sems:
  "\<exists>S. for_range 0 NR_SEMAPHORES (\<lambda>i s. Some (upd_sem i (\<lambda>x. x\<lparr>used := 0, count := 0\<rparr>) s)) s =
       Some (s\<lparr>semaphores := S\<rparr>) \<and> (\<forall>n<NR_SEMAPHORES. used (S n) = 0 \<and> count (S n) = 0)"
proof -
  let ?I = "\<lambda>n s'. \<exists>S. s' = s\<lparr>semaphores := S\<rparr> \<and> (\<forall>k<n. used (S k) = 0 \<and> count (S k) = 0)"
  have "\<exists>s'. for_range 0 NR_SEMAPHORES (\<lambda>i s. Some (upd_sem i (\<lambda>x. x\<lparr>used := 0, count := 0\<rparr>) s)) s = Some s' \<and>
      ?I (0 + NR_SEMAPHORES) s'"
  proof (rule for_range_rule)
    fix i s1
    assume "?I i s1"
    then obtain S where S: "s1 = s\<lparr>semaphores := S\<rparr>" "\<forall>k<i. used (S k) = 0 \<and> count (S k) = 0" by blast
    then show "\<exists>s2. Some (upd_sem i (\<lambda>x. x\<lparr>used := 0, count := 0\<rparr>) s1) = Some s2 \<and> ?I (Suc i) s2"
      by (auto simp: upd_sem_def less_Suc_eq intro!: exI [of _ "S(i := (S i)\<lparr>used := 0, count := 0\<rparr>)"])
  qed (auto intro: exI [of _ "semaphores s"])
  then show ?thesis by auto
qed

lemma init_sched_ok:
  assumes L: "lists_ok (links s) F"
    and F: "Free_queue \<notin> members F" "Ready_queue \<notin> members F" "\<And>i. Task_anchor i \<notin> members F"
  shows "\<exists>h T S. init_sched s = Some (s\<lparr>current_ticks := 0, last_PID := 0, links := h, tasks := T, semaphores := S\<rparr>) \<and>
           lists_ok h (F(Ready_queue \<mapsto> [], Free_queue \<mapsto> map Task_anchor [0..<NR_TASKS])) \<and>
           (\<forall>i<NR_TASKS. T i = (tasks s i)\<lparr>state := ST_INVALID\<rparr>) \<and>
           (\<forall>n<NR_SEMAPHORES. used (S n) = 0 \<and> count (S n) = 0)"
proof -
  obtain h1 where h1: "INIT_LIST_HEAD Free_queue (links s) = Some h1" "lists_ok h1 (F(Free_queue \<mapsto> []))"
    using zlist.init_law [OF L] F(1) by blast
  have r: "Ready_queue \<notin> members (F(Free_queue \<mapsto> []))"
    using members_upd_subset [of F Free_queue "[]"] F(2) by auto
  let ?F = "\<lambda>n. F(Ready_queue \<mapsto> [], Free_queue \<mapsto> map Task_anchor [0..<n])"
  obtain h2 where h2: "INIT_LIST_HEAD Ready_queue h1 = Some h2" "lists_ok h2 (?F 0)"
    using zlist.init_law [OF h1(2)] r by (auto simp: fun_upd_twist)
  let ?s = "s\<lparr>current_ticks := 0, last_PID := 0, links := h2\<rparr>"
  let ?I = "\<lambda>n s'. \<exists>h T. s' = ?s\<lparr>links := h, tasks := T\<rparr> \<and> lists_ok h (?F n) \<and>
      (\<forall>i<n. T i = (tasks s i)\<lparr>state := ST_INVALID\<rparr>) \<and> (\<forall>i\<ge>n. T i = tasks s i)"
  have "\<exists>s'. for_range 0 NR_TASKS (\<lambda>i s. update_process_state_rr i (Some Free_queue) s) ?s = Some s' \<and>
      ?I (0 + NR_TASKS) s'"
  proof (rule for_range_rule)
    fix i s1
    assume "?I i s1"
    then obtain h T where I: "s1 = ?s\<lparr>links := h, tasks := T\<rparr>" "lists_ok h (?F i)"
        "\<forall>k<i. T k = (tasks s k)\<lparr>state := ST_INVALID\<rparr>" "\<forall>k\<ge>i. T k = tasks s k" by blast
    have "members (?F i) \<subseteq> {Ready_queue, Free_queue} \<union> Task_anchor ` {0..<i} \<union> members F"
      using members_upd_subset [of "F(Ready_queue \<mapsto> [])" Free_queue "map Task_anchor [0..<i]"]
        members_upd_subset [of F Ready_queue "[]"] by auto
    then have n: "Task_anchor i \<notin> members (?F i)" using F(3) [of i] by auto
    have L1: "lists_ok (links s1) (?F i)" using I(1,2) by simp
    obtain h' where h': "update_process_state i (Some Free_queue) False s1 =
          Some (upd_task i (\<lambda>k. k\<lparr>state := tag_of Free_queue\<rparr>) (s1\<lparr>links := h'\<rparr>))"
        "lists_ok h' (?F (Suc i))"
      using update_process_state_new [OF L1 n, of Free_queue] by auto
    let ?T = "T(i := (T i)\<lparr>state := ST_INVALID\<rparr>)"
    have "upd_task i (\<lambda>k. k\<lparr>state := tag_of Free_queue\<rparr>) (s1\<lparr>links := h'\<rparr>) = ?s\<lparr>links := h', tasks := ?T\<rparr>"
      by (simp add: upd_task_def I(1))
    then show "\<exists>s2. update_process_state_rr i (Some Free_queue) s1 = Some s2 \<and> ?I (Suc i) s2"
      using h' I(3,4)
      by (auto simp: update_process_state_rr_def less_Suc_eq intro!: exI [of _ h'] exI [of _ ?T])
  next
    show "?I 0 ?s" using h2(2) by (intro exI [of _ h2] exI [of _ "tasks s"]) simp
  qed
  then obtain h T where r: "for_range 0 NR_TASKS (\<lambda>i s. update_process_state_rr i (Some Free_queue) s) ?s =
        Some (?s\<lparr>links := h, tasks := T\<rparr>)" "lists_ok h (?F NR_TASKS)"
      "\<forall>i<NR_TASKS. T i = (tasks s i)\<lparr>state := ST_INVALID\<rparr>" by auto
  obtain S where S: "for_range 0 NR_SEMAPHORES (\<lambda>i s. Some (upd_sem i (\<lambda>x. x\<lparr>used := 0, count := 0\<rparr>) s))
        (?s\<lparr>links := h, tasks := T\<rparr>) = Some (?s\<lparr>links := h, tasks := T, semaphores := S\<rparr>)"
      "\<forall>n<NR_SEMAPHORES. used (S n) = 0 \<and> count (S n) = 0"
    using free_all_sems [of "?s\<lparr>links := h, tasks := T\<rparr>"] by auto
  have "init_sched s = Some (s\<lparr>current_ticks := 0, last_PID := 0, links := h, tasks := T, semaphores := S\<rparr>)"
    using h1(1) h2(1) r(1) S(1) by (simp add: init_sched_def on_links_def)
  with r(2,3) S(2) show ?thesis by blast
qed

section \<open>The first two processes\<close>

text \<open>The view the initialisation establishes.\<close>

definition boot_view :: qview where
  "boot_view = \<lparr>v_free = [2..<10], v_ready = [], v_kbd = [], v_blocked = (\<lambda>_. None),
                v_sems = [0 \<mapsto> [], 1 \<mapsto> []], v_dirs = rev [0..<8]\<rparr>"

lemma heads_boot_view:
  "heads boot_view =
     [Free_dirs \<mapsto> map Dir_anchor (rev [0..<8]), Ready_queue \<mapsto> [],
      Free_queue \<mapsto> map Task_anchor [2..<10], Task_semaphores 0 \<mapsto> [], Task_semaphores 1 \<mapsto> [],
      Keyboard_queue \<mapsto> []]"
  by (rule ext) (simp add: heads_def boot_view_def split: node.split)

lemma queued_boot_view: "queued boot_view = {2..<10}"
proof -
  have "v_queue boot_view n = (if n = Free_queue then Some [2..<10]
      else if n = Ready_queue \<or> n = Keyboard_queue then Some [] else None)" for n
    by (simp add: v_queue_def boot_view_def split: node.split)
  then show ?thesis unfolding queued_def by (auto split: if_splits)
qed

text \<open>What \<open>init_mm\<close> and \<open>init_sched\<close> leave behind.\<close>

lemma init_mm_sched_ok:
  assumes lay: "layout_ok s" and zero: "zeroed s"
  shows "\<exists>s1 s2 p. init_mm s = Some s1 \<and> init_sched s1 = Some s2 \<and> layout_ok s2 \<and>
           tasks_addr s2 = of_nat (p * PAGE_SIZE) \<and> 2 \<le> p \<and> p + 11 \<le> NUM_PAG_KERNEL \<and>
           lists_ok (links s2) [Free_dirs \<mapsto> map Dir_anchor (rev [0..<10]), Ready_queue \<mapsto> [],
              Free_queue \<mapsto> map Task_anchor [0..<10]] \<and>
           (\<forall>j<NR_TASKS. kernel_row p (pagusr_table s2 j) \<and>
              (\<forall>i. NUM_PAG_KERNEL \<le> i \<longrightarrow> i < TOTAL_PAGES \<longrightarrow> pagusr_table s2 j i = 0)) \<and>
           (\<forall>i<NR_TASKS. dir_pages s2 (i * TOTAL_PAGES) = dir_pte s2 i \<and>
              dir_status s2 i = \<lparr>dir_count = 0, dir_pos = int i\<rparr>) \<and>
           (\<forall>t<NR_TASKS. state (tasks s2 t) = ST_INVALID \<and> dir_pages_baseAddr (tasks s2 t) = None) \<and>
           (\<forall>n<NR_SEMAPHORES. used (semaphores s2 n) = 0) \<and> cr3 s2 = Some 0 \<and> last_PID s2 = 0 \<and>
           28 \<le> card (frames.available s2) \<and> cow_count_mem s2 0 = 0 \<and>
           (\<forall>i. i mod TOTAL_PAGES \<noteq> 0 \<longrightarrow> dir_pages s2 i = 0) \<and> pmem s2 = pmem s \<and> tasks_addr s2 = tasks_addr s"
proof -
  obtain T p where T: "init_table_pages s = Some (s\<lparr>pagusr_table := T\<rparr>)"
      "tasks_addr s = of_nat (p * PAGE_SIZE)" "2 \<le> p" "p + 11 \<le> NUM_PAG_KERNEL"
      "\<forall>j<NR_TASKS. kernel_row p (T j) \<and> (\<forall>i. NUM_PAG_KERNEL \<le> i \<longrightarrow> i < TOTAL_PAGES \<longrightarrow> T j i = 0)"
    using init_table_pages_ok [OF lay] by blast
  obtain m c where m: "init_frames (s\<lparr>pagusr_table := T\<rparr>) =
      Some (s\<lparr>pagusr_table := T, phys_mem := m, cow_count_mem := c\<rparr>)"
      "\<forall>f<TOTAL_PAGES. m f \<noteq> FREE_FRAME \<longleftrightarrow> f < NUM_PAG_KERNEL" "c 0 = 0"
    using init_frames_returns [of "s\<lparr>pagusr_table := T\<rparr>"] by auto
  let ?s = "s\<lparr>pagusr_table := T, phys_mem := m, cow_count_mem := c\<rparr>"
  have L: "lists_ok (links ?s) Map.empty" using zero by (simp add: lists_ok_def zeroed_def)
  have M: "members Map.empty = {}" by (simp add: members_def)
  obtain h dp ds where d: "init_dir_pages ?s = Some (?s\<lparr>links := h, dir_pages := dp, dir_status := ds\<rparr>)"
      "lists_ok h [Free_dirs \<mapsto> map Dir_anchor (rev [0..<NR_TASKS])]"
      "\<forall>i<NR_TASKS. dp (i * TOTAL_PAGES) = dir_pte ?s i \<and> ds i = \<lparr>dir_count = 0, dir_pos = int i\<rparr>"
      "\<forall>i. i mod TOTAL_PAGES \<noteq> 0 \<longrightarrow> dp i = dir_pages ?s i"
    using init_dir_pages_ok [OF L] unfolding M by blast
  let ?s1 = "set_cr3 (Some 0) (?s\<lparr>links := h, dir_pages := dp, dir_status := ds\<rparr>)"
  have r1: "init_mm s = Some ?s1" using T(1) m(1) d(1) by (simp add: init_mm_def)
  let ?F = "[Free_dirs \<mapsto> map Dir_anchor (rev [0..<NR_TASKS])]"
  have L1: "lists_ok (links ?s1) ?F" using d(2) by (simp add: set_cr3_def)
  have "members ?F = insert Free_dirs (Dir_anchor ` {0..<NR_TASKS})"
    by (auto simp: members_iff split: if_splits)
  then have out: "Free_queue \<notin> members ?F" "Ready_queue \<notin> members ?F" "\<And>i. Task_anchor i \<notin> members ?F"
    by auto
  obtain h2 T2 S where s: "init_sched ?s1 =
        Some (?s1\<lparr>current_ticks := 0, last_PID := 0, links := h2, tasks := T2, semaphores := S\<rparr>)"
      "lists_ok h2 (?F(Ready_queue \<mapsto> [], Free_queue \<mapsto> map Task_anchor [0..<NR_TASKS]))"
      "\<forall>i<NR_TASKS. T2 i = (tasks ?s1 i)\<lparr>state := ST_INVALID\<rparr>"
      "\<forall>n<NR_SEMAPHORES. used (S n) = 0 \<and> count (S n) = 0"
    using init_sched_ok [OF L1 out] by blast
  show ?thesis
  proof (intro exI conjI)
    show "init_mm s = Some ?s1" by (rule r1)
    show "init_sched ?s1 =
        Some (?s1\<lparr>current_ticks := 0, last_PID := 0, links := h2, tasks := T2, semaphores := S\<rparr>)" by (rule s(1))
    show "28 \<le> card (frames.available (?s1\<lparr>current_ticks := 0, last_PID := 0, links := h2, tasks := T2, semaphores := S\<rparr>))"
      by (rule frames_after_init) (use m(2) in \<open>simp add: set_cr3_def\<close>)
  qed (use s(2-4) d(3,4) T lay zero m(3) in \<open>auto simp: set_cr3_def layout_ok_def dir_pte_def zeroed_def\<close>)
qed

lemma init_idle_ok:
  assumes lay: "layout_ok s" and p: "tasks_addr s = of_nat (p * PAGE_SIZE)" "2 \<le> p" "p + 11 \<le> NUM_PAG_KERNEL"
    and L: "lists_ok (links s) F" and Q: "F Free_queue = Some (Task_anchor t # xs)"
    and D: "F Free_dirs = Some (Dir_anchor d # ds)" and S: "Task_semaphores t \<notin> members F"
    and t: "t < NR_TASKS" and d: "d < NR_TASKS" "dir_pos (dir_status s d) = int d"
    and cr3: "cr3 s = Some 0" "dir_pages s 0 = dir_pte s 0" "kernel_row p (pagusr_table s 0)"
  shows "\<exists>s' h m e. init_idle s = Some s' \<and> s' = s\<lparr>links := h, pmem := m, kpc := (kpc s)(t := Idle_loop),
             tasks := (tasks s)(t := (fresh_task (last_PID s) (d * TOTAL_PAGES) (tasks s t))
                                      \<lparr>kernel_esp := e, state := ST_READY\<rparr>),
             last_PID := last_PID s + 1, idle_task := Some t,
             dir_status := (dir_status s)(d := (dir_status s d)\<lparr>dir_count := 1\<rparr>)\<rparr> \<and>
           lists_ok h (F(Free_dirs \<mapsto> ds, Free_queue \<mapsto> xs, Task_semaphores t \<mapsto> [])) \<and>
           (\<forall>x. (\<forall>n<PAGE_SIZE. x \<noteq> tasks_addr s + of_nat (t * PAGE_SIZE + n)) \<longrightarrow> m x = pmem s x)"
proof -
  obtain h where h: "allocate_process None s = Some (Some t,
             (upd_task t (fresh_task (last_PID s) (d * TOTAL_PAGES)) s)
               \<lparr>links := h, last_PID := last_PID s + 1,
                dir_status := (dir_status s)(d := (dir_status s d)\<lparr>dir_count := 1\<rparr>)\<rparr>)"
      "lists_ok h (F(Free_dirs \<mapsto> ds, Free_queue \<mapsto> xs, Task_semaphores t \<mapsto> []))"
    using allocate_process_new [OF L Q D d] S by blast
  define s1 where "s1 = (upd_task t (fresh_task (last_PID s) (d * TOTAL_PAGES)) s)
               \<lparr>links := h, last_PID := last_PID s + 1,
                dir_status := (dir_status s)(d := (dir_status s d)\<lparr>dir_count := 1\<rparr>), idle_task := Some t\<rparr>"
  have tr: "translate s1 (stack_addr s1 t (int 1023) + of_nat i) = Some (tasks_addr s1 + of_nat (t * PAGE_SIZE + (4 * 1023 + i)))"
    if "i < 4" for i
    by (rule stack_identity [of s1 0 p])
      (use lay cr3 p t that in \<open>auto simp: s1_def upd_task_def layout_ok_def dir_pte_def\<close>)
  then obtain m where m: "write_dword s1 (stack_addr s1 t (int 1023)) (cpu_idle_addr s1) = Some (s1\<lparr>pmem := m\<rparr>)"
    using write_kernel_dword [of s1 "stack_addr s1 t (int 1023)"] by fastforce
  have same: "m x = pmem s x" if "\<forall>n<PAGE_SIZE. x \<noteq> tasks_addr s + of_nat (t * PAGE_SIZE + n)" for x
  proof -
    have a: "tasks_addr s1 = tasks_addr s" "pmem s1 = pmem s" by (simp_all add: s1_def upd_task_def)
    have "translate s1 (stack_addr s1 t (int 1023) + of_nat i) \<noteq> Some x" if "i < 4" for i
    proof -
      have "4 * 1023 + i < PAGE_SIZE" using that by simp
      then have "x \<noteq> tasks_addr s + of_nat (t * PAGE_SIZE + (4 * 1023 + i))"
        using \<open>\<forall>n<PAGE_SIZE. _\<close> by blast
      then show ?thesis unfolding tr [OF that] a(1) by blast
    qed
    from write_dword_untouched [OF m this] show ?thesis by (simp add: a(2))
  qed
  let ?e = "stack_addr (s1\<lparr>pmem := m\<rparr>) t 1022"
  have "init_idle s = Some (s\<lparr>links := h, pmem := m, kpc := (kpc s)(t := Idle_loop),
             tasks := (tasks s)(t := (fresh_task (last_PID s) (d * TOTAL_PAGES) (tasks s t))
                                      \<lparr>kernel_esp := ?e, state := ST_READY\<rparr>),
             last_PID := last_PID s + 1, idle_task := Some t,
             dir_status := (dir_status s)(d := (dir_status s d)\<lparr>dir_count := 1\<rparr>)\<rparr>)"
    using h(1) m by (auto simp: init_idle_def s1_def upd_task_def intro!: kstate.equality)
  with h(2) same show ?thesis by blast
qed

lemma init_task1_ok:
  assumes L: "lists_ok (links s) F" and Q: "F Free_queue = Some (Task_anchor t # xs)"
    and D: "F Free_dirs = Some (Dir_anchor d # ds)" and S: "Task_semaphores t \<notin> members F"
    and d: "d < NR_TASKS" "dir_pos (dir_status s d) = int d"
    and row: "PT_row s (dir_pages s (d * TOTAL_PAGES)) = d" and free: "28 \<le> card (frames.available s)"
  shows "\<exists>s' h. init_task1 s = Some s' \<and> links s' = h \<and>
           lists_ok h (F(Free_dirs \<mapsto> ds, Free_queue \<mapsto> xs, Task_semaphores t \<mapsto> [])) \<and>
           current s' = t \<and> cr3 s' = Some (d * TOTAL_PAGES) \<and> idle_task s' = idle_task s \<and>
           semaphores s' = semaphores s \<and> dir_pages s' = dir_pages s \<and>
           pagusr_table_addr s' = pagusr_table_addr s \<and>
           dir_status s' = (dir_status s)(d := (dir_status s d)\<lparr>dir_count := 1\<rparr>) \<and>
           state (tasks s' t) = ST_RUN \<and> PID (tasks s' t) = last_PID s \<and>
           dir_pages_baseAddr (tasks s' t) = Some (d * TOTAL_PAGES) \<and>
           (\<forall>u. u \<noteq> t \<longrightarrow> tasks s' u = tasks s u) \<and> kpc s' = (kpc s)(t := User_mode) \<and>
           tasks_addr s' = tasks_addr s \<and> heap_top (tasks s' t) = HEAP_START \<and>
           cow_count_mem s' 0 = cow_count_mem s 0 \<and> pmem s' = pmem s \<and>
           (\<exists>fs. length fs = 28 \<and> distinct fs \<and> (\<forall>f\<in>set fs. f \<in> frame_pool) \<and>
              (\<forall>j i. pagusr_table s' j i = (if j = d \<and> USER_FIRST_PAGE \<le> i \<and> i < USER_FIRST_PAGE + 28
                 then user_pte (fs ! (i - USER_FIRST_PAGE)) (PAG_LOG_INIT_DATA \<le> i) else pagusr_table s j i)))"
proof -
  obtain h where h: "allocate_process None s = Some (Some t,
             (upd_task t (fresh_task (last_PID s) (d * TOTAL_PAGES)) s)
               \<lparr>links := h, last_PID := last_PID s + 1,
                dir_status := (dir_status s)(d := (dir_status s d)\<lparr>dir_count := 1\<rparr>)\<rparr>)"
      "lists_ok h (F(Free_dirs \<mapsto> ds, Free_queue \<mapsto> xs, Task_semaphores t \<mapsto> []))"
    using allocate_process_new [OF L Q D d] S by blast
  define s1 where "s1 = (upd_task t (fresh_task (last_PID s) (d * TOTAL_PAGES)) s)
               \<lparr>links := h, last_PID := last_PID s + 1,
                dir_status := (dir_status s)(d := (dir_status s d)\<lparr>dir_count := 1\<rparr>)\<rparr>"
  have PT: "get_PT s1 t = Some d" using row by (simp add: get_PT_def s1_def PT_row_def upd_task_def)
  have "frame_used s1 = frame_used s" by (simp add: frame_used_def fun_eq_iff s1_def)
  then have free1: "28 \<le> card (frames.available s1)" using free available_cong by metis
  obtain s2 fs where s2: "set_user_pages t s1 = Some s2" "mm_only s1 s2" "length fs = 28" "distinct fs"
      "\<forall>f\<in>set fs. f \<in> frame_pool \<and> \<not> frame_used s1 f" "frame_used s2 = (\<lambda>f. frame_used s1 f \<or> f \<in> set fs)"
      "pagusr_table s2 = (\<lambda>j i. if j = d \<and> USER_FIRST_PAGE \<le> i \<and> i < USER_FIRST_PAGE + 28
         then user_pte (fs ! (i - USER_FIRST_PAGE)) (PAG_LOG_INIT_DATA \<le> i) else pagusr_table s1 j i)"
      "cow_count_mem s2 0 = cow_count_mem s1 0"
    by (rule set_user_pages_ok [OF PT d(1) free1])
  note f2 = mm_only_fields [OF s2(2)]
  define s3 where "s3 = upd_task t (\<lambda>k. k\<lparr>state := ST_RUN\<rparr>) (set_cr3 (get_DIR (update_TSS t s2) t) (update_TSS t s2))"
  obtain s4 where s4: "update_stats t FREE_TO_READY s3 = Some s4" using update_stats_returns by blast
  note f4 = only_stats_fields [OF update_stats_only [OF s4]]
  have run: "init_task1 s = Some (s4\<lparr>current := t, kpc := (kpc s4)(t := User_mode)\<rparr>)"
    using h(1) s2(1) s4 by (simp add: init_task1_def flip: s1_def s3_def)
  have f3: "links s3 = h" "idle_task s3 = idle_task s" "semaphores s3 = semaphores s" "dir_pages s3 = dir_pages s"
    "pagusr_table_addr s3 = pagusr_table_addr s" "cr3 s3 = Some (d * TOTAL_PAGES)"
    "dir_status s3 = (dir_status s)(d := (dir_status s d)\<lparr>dir_count := 1\<rparr>)"
    "tasks s3 = (tasks s)(t := (fresh_task (last_PID s) (d * TOTAL_PAGES) (tasks s t))\<lparr>state := ST_RUN\<rparr>)"
    "kpc s3 = kpc s" "tasks_addr s3 = tasks_addr s" "pagusr_table s3 = pagusr_table s2" "cow_count_mem s3 = cow_count_mem s2"
    "pmem s3 = pmem s"
    by (simp_all add: s3_def f2 upd_task_def set_cr3_def update_TSS_def get_DIR_def) (simp_all add: s1_def upd_task_def)
  let ?s' = "s4\<lparr>current := t, kpc := (kpc s4)(t := User_mode)\<rparr>"
  have T1: "pagusr_table s1 = pagusr_table s" "tasks_addr s1 = tasks_addr s" by (simp_all add: s1_def)
  have "\<forall>j i. pagusr_table ?s' j i = (if j = d \<and> USER_FIRST_PAGE \<le> i \<and> i < USER_FIRST_PAGE + 28
      then user_pte (fs ! (i - USER_FIRST_PAGE)) (PAG_LOG_INIT_DATA \<le> i) else pagusr_table s j i)"
    by (simp add: f4 f3(11) s2(7) T1)
  with s2(3-5) have "\<exists>fs. length fs = 28 \<and> distinct fs \<and> (\<forall>f\<in>set fs. f \<in> frame_pool) \<and>
      (\<forall>j i. pagusr_table ?s' j i = (if j = d \<and> USER_FIRST_PAGE \<le> i \<and> i < USER_FIRST_PAGE + 28
        then user_pte (fs ! (i - USER_FIRST_PAGE)) (PAG_LOG_INIT_DATA \<le> i) else pagusr_table s j i))" by blast
  moreover have "links ?s' = h" "cr3 ?s' = Some (d * TOTAL_PAGES)" "idle_task ?s' = idle_task s"
    "semaphores ?s' = semaphores s" "dir_pages ?s' = dir_pages s" "pagusr_table_addr ?s' = pagusr_table_addr s"
    "dir_status ?s' = (dir_status s)(d := (dir_status s d)\<lparr>dir_count := 1\<rparr>)" "state (tasks ?s' t) = ST_RUN"
    "PID (tasks ?s' t) = last_PID s" "dir_pages_baseAddr (tasks ?s' t) = Some (d * TOTAL_PAGES)"
    "\<forall>u. u \<noteq> t \<longrightarrow> tasks ?s' u = tasks s u" "tasks_addr ?s' = tasks_addr s" "heap_top (tasks ?s' t) = HEAP_START"
    "current ?s' = t" "kpc ?s' = (kpc s)(t := User_mode)" "cow_count_mem ?s' 0 = cow_count_mem s 0"
    "pmem ?s' = pmem s"
    using s2(8) by (simp_all add: f4 f3) (simp add: s1_def)
  ultimately show ?thesis using run h(2) by blast
qed

section \<open>The invariant after the initialisation\<close>

lemma boot_mem_ok:
  assumes lay: "layout_ok s" and p: "tasks_addr s = of_nat (p * PAGE_SIZE)" "2 \<le> p" "p + 11 \<le> NUM_PAG_KERNEL"
    and dirs: "\<forall>d<NR_TASKS. dir_pages s (d * TOTAL_PAGES) = dir_pte s d" "\<forall>i. i mod TOTAL_PAGES \<noteq> 0 \<longrightarrow> dir_pages s i = 0"
    and rows: "\<forall>j<NR_TASKS. kernel_row p (T j) \<and> (\<forall>i. NUM_PAG_KERNEL \<le> i \<longrightarrow> i < TOTAL_PAGES \<longrightarrow> T j i = 0)"
    and fs: "length fs = 28" "\<forall>f\<in>set fs. f \<in> frame_pool"
    and tb: "\<And>j i. pagusr_table s j i = (if j = d \<and> USER_FIRST_PAGE \<le> i \<and> i < USER_FIRST_PAGE + 28
       then user_pte (fs ! (i - USER_FIRST_PAGE)) (PAG_LOG_INIT_DATA \<le> i) else T j i)"
    and idle: "idle_task s = Some a"
    and bases: "\<And>t x. t < NR_TASKS \<Longrightarrow> dir_pages_baseAddr (tasks s t) = Some x \<Longrightarrow>
       heap_top (tasks s t) = HEAP_START \<and> (t \<noteq> a \<longrightarrow> x = d * TOTAL_PAGES)"
  shows "mem_ok s"
proof -
  have "kernel_row p (pagusr_table s j) = kernel_row p (T j)" for j by (simp add: kernel_row_def tb)
  then have "kmap_ok s" unfolding kmap_ok_def using lay p dirs rows by blast
  moreover have "ptes_ok (pagusr_table s)"
    unfolding ptes_ok_def
  proof (intro allI impI)
    fix j i :: nat
    assume ji: "j < 10" "i < 1024"
    have low: "unat (pte_pbase_addr (T j i)) < 1024" if "i < 256"
    proof -
      have "pte_pbase_addr (T j i) = (if 1 \<le> i then take_bit 20 (of_nat i) else 0)"
        using rows ji(1) that by (simp add: kernel_row_def Let_def kernel_pte_def)
      then show ?thesis using that by (simp add: unsigned_take_bit_eq unsigned_of_nat take_bit_nat_eq_self)
    qed
    have user: "unat (pte_pbase_addr (user_pte (fs ! k) b)) < 1024" if "k < 28" for k b
    proof -
      have "fs ! k < 1024" using fs that by (auto simp: frame_pool_def)
      then show ?thesis by (simp add: user_pte_frame del: user_pte_bits)
    qed
    show "unat (pte_pbase_addr (pagusr_table s j i)) < 1024"
    proof (cases "j = d \<and> USER_FIRST_PAGE \<le> i \<and> i < USER_FIRST_PAGE + 28")
      case True
      then have "i - USER_FIRST_PAGE < 28" by linarith
      then show ?thesis unfolding tb if_P [OF True] by (rule user)
    next
      case False
      have "T j i = 0" if "\<not> i < 256" using rows ji that by simp
      then show ?thesis unfolding tb if_not_P [OF False] using low by (cases "i < 256") simp_all
    qed
  qed
  moreover have "spaces_ok s"
    using bases idle by (fastforce simp: spaces_ok_def user_mapped_def tb)
  ultimately show ?thesis by (simp add: mem_ok_def)
qed

lemma boot_frames_ok:
  assumes tb: "\<And>j i. pagusr_table s j i = (if j = d \<and> USER_FIRST_PAGE \<le> i \<and> i < USER_FIRST_PAGE + 28
       then user_pte (fs ! (i - USER_FIRST_PAGE)) (PAG_LOG_INIT_DATA \<le> i) else T j i)"
    and fs: "length fs = 28" "\<forall>f\<in>set fs. f \<in> frame_pool"
    and rows: "\<forall>j<NR_TASKS. kernel_row p (T j) \<and> (\<forall>i. NUM_PAG_KERNEL \<le> i \<longrightarrow> i < TOTAL_PAGES \<longrightarrow> T j i = 0)"
    and cow: "cow_count_mem s 0 = 0"
  shows "frames_ok s"
  unfolding frames_ok_def
proof (intro conjI allI impI)
  fix j i :: nat
  assume ji: "j < 10" "256 \<le> i" "i < 1024"
  show "pagusr_table s j i = 0 \<or> unat (pte_pbase_addr (pagusr_table s j i)) \<in> frame_pool"
  proof (cases "j = d \<and> USER_FIRST_PAGE \<le> i \<and> i < USER_FIRST_PAGE + 28")
    case True
    then have "i - USER_FIRST_PAGE < length fs" using fs(1) by linarith
    then have "fs ! (i - USER_FIRST_PAGE) \<in> frame_pool" using fs(2) nth_mem by blast
    then show ?thesis
      unfolding tb if_P [OF True] by (subst user_pte_frame) (auto simp: frame_pool_def)
  next
    case False
    then show ?thesis unfolding tb if_not_P [OF False] using rows ji by simp
  qed
qed (rule cow)

text \<open>
  The memory of the first task: 28 frames, one for each of its pages; of the physical memory only
  the stack of the idle task has changed.
\<close>

definition booted :: "kstate \<Rightarrow> kstate \<Rightarrow> bool" where
  "booted s s' \<longleftrightarrow> cr3 s' = Some (8 * TOTAL_PAGES) \<and> tasks_addr s' = tasks_addr s \<and>
     (\<exists>fs. length fs = 28 \<and> distinct fs \<and> (\<forall>f\<in>set fs. f \<in> frame_pool) \<and>
        (\<forall>k<28. pagusr_table s' 8 (USER_FIRST_PAGE + k) = user_pte (fs ! k) (NUM_PAG_CODE \<le> k))) \<and>
     (\<forall>x. (\<forall>n<PAGE_SIZE. x \<noteq> tasks_addr s + of_nat n) \<longrightarrow> pmem s' x = pmem s x)"

lemma boot_ok:
  assumes lay: "layout_ok s" and zero: "zeroed s"
  shows "\<exists>s'. boot s = Some s' \<and> kinv s' boot_view \<and> buffer_wf s' \<and> buffer_bytes s' = [] \<and>
           current s' = 1 \<and> idle_task s' = Some 0 \<and> state (tasks s' 1) = ST_RUN \<and>
           PID (tasks s' 1) = 1 \<and> kpc s' 1 = User_mode \<and> (\<forall>n<NR_SEMAPHORES. used (semaphores s' n) = 0) \<and>
           mem_ok s' \<and> kpc s' 0 = Idle_loop \<and> (\<forall>t d. dir_pages_baseAddr (tasks s' t) = Some d \<longrightarrow> t < NR_TASKS \<longrightarrow>
             heap_top (tasks s' t) = HEAP_START) \<and> frames_ok s' \<and>
           heap_top (tasks s' 1) = HEAP_START \<and> booted s s'"
proof -
  have upt: "[0..<10] = 0 # 1 # [2..<10]" "[0..<10] = [0..<8] @ [8,9]" by (simp_all add: upt_rec)
  obtain s1 s2 p where a: "init_mm s = Some s1" "init_sched s1 = Some s2" "layout_ok s2"
      "tasks_addr s2 = of_nat (p * PAGE_SIZE)" "2 \<le> p" "p + 11 \<le> NUM_PAG_KERNEL"
      "lists_ok (links s2) [Free_dirs \<mapsto> map Dir_anchor (rev [0..<10]), Ready_queue \<mapsto> [],
              Free_queue \<mapsto> map Task_anchor [0..<10]]"
      "\<forall>j<NR_TASKS. kernel_row p (pagusr_table s2 j) \<and>
              (\<forall>i. NUM_PAG_KERNEL \<le> i \<longrightarrow> i < TOTAL_PAGES \<longrightarrow> pagusr_table s2 j i = 0)"
      "\<forall>i<NR_TASKS. dir_pages s2 (i * TOTAL_PAGES) = dir_pte s2 i \<and>
              dir_status s2 i = \<lparr>dir_count = 0, dir_pos = int i\<rparr>"
      "\<forall>t<NR_TASKS. state (tasks s2 t) = ST_INVALID \<and> dir_pages_baseAddr (tasks s2 t) = None"
      "\<forall>n<NR_SEMAPHORES. used (semaphores s2 n) = 0" "cr3 s2 = Some 0" "last_PID s2 = 0"
      "28 \<le> card (frames.available s2)" "cow_count_mem s2 0 = 0"
      "\<forall>i. i mod TOTAL_PAGES \<noteq> 0 \<longrightarrow> dir_pages s2 i = 0" "pmem s2 = pmem s" "tasks_addr s2 = tasks_addr s"
    using init_mm_sched_ok [OF lay zero] by blast
  let ?F = "[Free_dirs \<mapsto> map Dir_anchor (rev [0..<10]), Ready_queue \<mapsto> [], Free_queue \<mapsto> map Task_anchor [0..<10]]"
  have Q: "?F Free_queue = Some (Task_anchor 0 # map Task_anchor (1 # [2..<10]))" by (simp add: upt(1))
  have D: "?F Free_dirs = Some (Dir_anchor 9 # map Dir_anchor (8 # rev [0..<8]))" by (simp add: upt(2))
  have M: "Task_semaphores t \<notin> members ?F" for t by (auto simp: members_iff split: if_splits)
  have pre: "(0::nat) < NR_TASKS" "(9::nat) < NR_TASKS" "dir_pos (dir_status s2 9) = int 9"
      "dir_pages s2 0 = dir_pte s2 0" "kernel_row p (pagusr_table s2 0)"
    using a(8) a(9) [rule_format, of 9] a(9) [rule_format, of 0] by simp_all
  obtain s3 h m e where b: "init_idle s2 = Some s3"
      "s3 = s2\<lparr>links := h, pmem := m, kpc := (kpc s2)(0 := Idle_loop),
             tasks := (tasks s2)(0 := (fresh_task (last_PID s2) (9 * TOTAL_PAGES) (tasks s2 0))
                                      \<lparr>kernel_esp := e, state := ST_READY\<rparr>),
             last_PID := last_PID s2 + 1, idle_task := Some 0,
             dir_status := (dir_status s2)(9 := (dir_status s2 9)\<lparr>dir_count := 1\<rparr>)\<rparr>"
      "lists_ok h (?F(Free_dirs \<mapsto> map Dir_anchor (8 # rev [0..<8]),
         Free_queue \<mapsto> map Task_anchor (1 # [2..<10]), Task_semaphores 0 \<mapsto> []))"
      "\<forall>x. (\<forall>n<PAGE_SIZE. x \<noteq> tasks_addr s2 + of_nat (0 * PAGE_SIZE + n)) \<longrightarrow> m x = pmem s2 x"
    using init_idle_ok [OF a(3-7) Q D M pre(1-3) a(12) pre(4,5)] by blast
  let ?G = "?F(Free_dirs \<mapsto> map Dir_anchor (8 # rev [0..<8]),
         Free_queue \<mapsto> map Task_anchor (1 # [2..<10]), Task_semaphores 0 \<mapsto> [])"
  have L3: "lists_ok (links s3) ?G" using b(2,3) by simp
  have Q3: "?G Free_queue = Some (Task_anchor 1 # map Task_anchor [2..<10])" by simp
  have D3: "?G Free_dirs = Some (Dir_anchor 8 # map Dir_anchor (rev [0..<8]))" by simp
  have M3: "Task_semaphores 1 \<notin> members ?G" by (auto simp: members_iff split: if_splits)
  have row: "PT_row s2 (dir_pte s2 i) = i" if "i < NR_TASKS" for i using PT_row_dir_pte [OF a(3) that] by simp
  have row3: "PT_row s3 (dir_pages s3 (i * TOTAL_PAGES)) = i" if "i < NR_TASKS" for i
    using row [OF that] a(9) that b(2) by (simp add: PT_row_def)
  have "frame_used s3 = frame_used s2" by (simp add: frame_used_def fun_eq_iff b(2))
  then have free3: "28 \<le> card (frames.available s3)" using a(14) available_cong by metis
  obtain s4 where c: "init_task1 s3 = Some s4"
      "lists_ok (links s4) (?G(Free_dirs \<mapsto> map Dir_anchor (rev [0..<8]),
         Free_queue \<mapsto> map Task_anchor [2..<10], Task_semaphores 1 \<mapsto> []))"
      "current s4 = 1" "cr3 s4 = Some (8 * TOTAL_PAGES)" "idle_task s4 = idle_task s3"
      "semaphores s4 = semaphores s3" "dir_pages s4 = dir_pages s3" "pagusr_table_addr s4 = pagusr_table_addr s3"
      "dir_status s4 = (dir_status s3)(8 := (dir_status s3 8)\<lparr>dir_count := 1\<rparr>)"
      "state (tasks s4 1) = ST_RUN" "PID (tasks s4 1) = last_PID s3"
      "dir_pages_baseAddr (tasks s4 1) = Some (8 * TOTAL_PAGES)" "\<forall>u. u \<noteq> 1 \<longrightarrow> tasks s4 u = tasks s3 u"
      "kpc s4 = (kpc s3)(1 := User_mode)" "tasks_addr s4 = tasks_addr s3" "heap_top (tasks s4 1) = HEAP_START"
      "cow_count_mem s4 0 = cow_count_mem s3 0"
      "\<exists>fs. length fs = 28 \<and> distinct fs \<and> (\<forall>f\<in>set fs. f \<in> frame_pool) \<and>
         (\<forall>j i. pagusr_table s4 j i = (if j = 8 \<and> USER_FIRST_PAGE \<le> i \<and> i < USER_FIRST_PAGE + 28
            then user_pte (fs ! (i - USER_FIRST_PAGE)) (PAG_LOG_INIT_DATA \<le> i) else pagusr_table s3 j i))"
      "pmem s4 = pmem s3"
    using init_task1_ok [OF L3 Q3 D3 M3 _ _ _ free3] row3 [of 8] a(9) b(2) by auto
  let ?H = "?G(Free_dirs \<mapsto> map Dir_anchor (rev [0..<8]), Free_queue \<mapsto> map Task_anchor [2..<10], Task_semaphores 1 \<mapsto> [])"
  have "Keyboard_queue \<notin> members ?H" by (auto simp: members_iff split: if_splits)
  then obtain g where g: "INIT_LIST_HEAD Keyboard_queue (links s4) = Some g" "lists_ok g (?H(Keyboard_queue \<mapsto> []))"
    using zlist.init_law [OF c(2)] by blast
  define s5 where "s5 = s4\<lparr>buff_from := 0, buff_to := 0, remaining_to_read := 0, links := g\<rparr>"
  have run: "boot s = Some s5"
    using a(1,2) b(1) c(1) g(1) by (simp add: boot_def init_keyboard_def on_links_def s5_def)
  have H: "?H(Keyboard_queue \<mapsto> []) = heads boot_view"
    unfolding heads_boot_view by (rule ext) simp
  have f: "idle_task s5 = Some 0" "current s5 = 1" "cr3 s5 = Some (8 * TOTAL_PAGES)"
    "semaphores s5 = semaphores s2" "links s5 = g" "tasks s5 = tasks s4"
    "dir_status s5 = (dir_status s2)(9 := (dir_status s2 9)\<lparr>dir_count := 1\<rparr>, 8 := (dir_status s2 8)\<lparr>dir_count := 1\<rparr>)"
    using b(2) c by (simp_all add: s5_def)
  have rest: "state (tasks s5 t) = ST_INVALID" "dir_pages_baseAddr (tasks s5 t) = None" if "2 \<le> t" "t < 10" for t
    using that c(13) b(2) a(10) by (simp_all add: s5_def)
  have dirs: "dir_pages_baseAddr (tasks s5 0) = Some (9 * TOTAL_PAGES)"
      "dir_pages_baseAddr (tasks s5 1) = Some (8 * TOTAL_PAGES)"
    using c(12,13) b(2) by (simp_all add: s5_def)
  have dir_of: "dir_pages_baseAddr (tasks s5 t) =
      (if t = 0 then Some (9 * TOTAL_PAGES) else if t = 1 then Some (8 * TOTAL_PAGES) else None)" if "t < 10" for t
    using rest(2) [of t] dirs that by (cases "2 \<le> t") (auto simp: not_le less_2_cases_iff)
  have users: "dir_users s5 d = (if d = 9 then {0} else if d = 8 then {1} else {})" for d
    by (auto simp: dir_users_def dir_of split: if_splits)
  have ki: "kinv s5 boot_view"
  proof (rule kinvI)
    show "queues_ok s5 boot_view {0, current s5}"
      unfolding queues_ok_def queued_boot_view f
    proof (intro conjI allI impI)
      show "lists_ok g (heads boot_view)" using g(2) H by simp
      show "{2..<10} \<inter> {0, 1} = ({} :: nat set)" by auto
      show "{2..<10} \<union> {0, 1} = {..<10::nat}" by auto
      fix n ts t
      assume "v_queue boot_view n = Some ts" "t \<in> set ts"
      then show "state (tasks s4 t) = tag_of n"
        using rest f(6) by (auto simp: v_queue_def boot_view_def split: node.splits)
    qed
    show "sems_ok s5 boot_view"
      using a(11) f(4) by (auto simp: sems_ok_def sems_core_def sems_live_def boot_view_def split: if_splits)
    show "dirs_ok s5 boot_view"
      unfolding dirs_ok_def users
    proof (intro conjI allI impI)
      fix d :: nat
      assume d: "d < 10"
      show "PT_row s5 (dir_pages s5 (d * 1024)) = d"
        using row3 [OF d] c(7,8) by (simp add: s5_def PT_row_def)
      show "dir_pos (dir_status s5 d) = int d" using a(9) d by (simp add: f(7))
      show "dir_count (dir_status s5 d) = int (card (if d = 9 then {0} else if d = 8 then {1} else {} :: nat set))"
        using a(9) d by (simp add: f(7))
    next
      show "set (v_dirs boot_view) = {d. d < 10 \<and> (if d = 9 then {0} else if d = 8 then {1} else {}) = ({} :: nat set)}"
        by (auto simp: boot_view_def)
    next
      fix t :: nat
      assume "t < 10"
      then show "(t \<in> set (v_free boot_view)) = (dir_pages_baseAddr (tasks s5 t) = None)"
        by (auto simp: boot_view_def dir_of)
    next
      fix t x :: nat
      assume "t < 10" "dir_pages_baseAddr (tasks s5 t) = Some x"
      then show "\<exists>d<10. x = d * 1024" using dir_of [of t] by (auto split: if_splits)
    qed (simp add: boot_view_def)
  qed (use f dirs in simp_all)
  obtain fs where fs: "length fs = 28" "\<forall>f\<in>set fs. f \<in> frame_pool"
      "\<And>j i. pagusr_table s4 j i = (if j = 8 \<and> USER_FIRST_PAGE \<le> i \<and> i < USER_FIRST_PAGE + 28
          then user_pte (fs ! (i - USER_FIRST_PAGE)) (PAG_LOG_INIT_DATA \<le> i) else pagusr_table s3 j i)"
      "distinct fs"
    using c(18) by blast
  have heap: "heap_top (tasks s5 t) = HEAP_START \<and> (t \<noteq> 0 \<longrightarrow> x = 8 * TOTAL_PAGES)"
    if "t < NR_TASKS" "dir_pages_baseAddr (tasks s5 t) = Some x" for t x
  proof -
    have "t = 0 \<and> x = 9 * TOTAL_PAGES \<or> t = 1 \<and> x = 8 * TOTAL_PAGES" using that by (auto simp: dir_of split: if_splits)
    then show ?thesis using c(13,16) b(2) by (auto simp: s5_def)
  qed
  have tb: "pagusr_table s5 j i = (if j = 8 \<and> USER_FIRST_PAGE \<le> i \<and> i < USER_FIRST_PAGE + 28
      then user_pte (fs ! (i - USER_FIRST_PAGE)) (PAG_LOG_INIT_DATA \<le> i) else pagusr_table s2 j i)" for j i
    using fs(3) b(2) by (simp add: s5_def)
  have "frames_ok s5"
    by (rule boot_frames_ok [OF tb fs(1,2) a(8)]) (use a(15) b(2) c(17) in \<open>simp add: s5_def\<close>)
  moreover have "mem_ok s5"
  proof (rule boot_mem_ok [OF _ _ a(5,6) _ _ a(8) fs(1,2)])
    show "layout_ok s5" using a(3) b(2) c(8,15) by (simp add: s5_def layout_ok_def)
    show "tasks_addr s5 = of_nat (p * PAGE_SIZE)" using a(4) b(2) c(15) by (simp add: s5_def)
    show "\<forall>d<NR_TASKS. dir_pages s5 (d * TOTAL_PAGES) = dir_pte s5 d"
      using a(9) b(2) c(7,8) by (simp add: s5_def dir_pte_def)
    show "\<forall>i. i mod TOTAL_PAGES \<noteq> 0 \<longrightarrow> dir_pages s5 i = 0" using a(16) b(2) c(7) by (simp add: s5_def)
    show "heap_top (tasks s5 t) = HEAP_START \<and> (t \<noteq> 0 \<longrightarrow> x = 8 * TOTAL_PAGES)"
      if "t < NR_TASKS" "dir_pages_baseAddr (tasks s5 t) = Some x" for t x by (rule heap [OF that])
  qed (use tb f(1) in simp_all)
  moreover have "buffer_wf s5" "buffer_bytes s5 = []"
    by (simp_all add: s5_def buffer_wf_def buffer_bytes_def buffer_len_def)
  moreover have "booted s s5"
    unfolding booted_def
  proof (intro conjI)
    show "cr3 s5 = Some (8 * TOTAL_PAGES)" by (rule f(3))
    show "tasks_addr s5 = tasks_addr s" using c(15) b(2) a(18) by (simp add: s5_def)
    have "pagusr_table s5 8 (USER_FIRST_PAGE + k) = user_pte (fs ! k) (NUM_PAG_CODE \<le> k)" if "k < 28" for k
      unfolding tb using that by simp
    then show "\<exists>fs. length fs = 28 \<and> distinct fs \<and> (\<forall>f\<in>set fs. f \<in> frame_pool) \<and>
        (\<forall>k<28. pagusr_table s5 8 (USER_FIRST_PAGE + k) = user_pte (fs ! k) (NUM_PAG_CODE \<le> k))"
      using fs(1,2,4) by blast
    have "pmem s5 = m" using c(19) b(2) by (simp add: s5_def)
    then show "\<forall>x. (\<forall>n<PAGE_SIZE. x \<noteq> tasks_addr s + of_nat n) \<longrightarrow> pmem s5 x = pmem s x"
      using b(4) by (simp add: a(17,18))
  qed
  ultimately show ?thesis
    using run ki f c(10,11,14,16) a(11,13) b(2) heap by (intro exI [of _ s5]) (simp add: s5_def)
qed

section \<open>A machine at reset\<close>

text \<open>A concrete machine of this layout, with a clock that counts ten million cycles a reading.\<close>

definition reset_state :: kstate where
  "reset_state = \<lparr>
     links = (\<lambda>_. \<lparr>next_ptr = None, prev_ptr = None\<rparr>),
     tasks = (\<lambda>_. \<lparr>PID = 0, state = ST_RUN, quantum = 0,
                     st = \<lparr>user_ticks = 0, system_ticks = 0, blocked_ticks = 0, ready_ticks = 0,
                           elapsed_total_ticks = 0, total_trans = 0, remaining_ticks = 0\<rparr>,
                     sem_deleted = 0, dir_pages_baseAddr = None, kernel_esp = 0, heap_top = 0\<rparr>),
     semaphores = (\<lambda>_. \<lparr>used = 0, count = 0, owner = None\<rparr>),
     idle_task = None, current = 0, kpc = (\<lambda>_. User_mode), last_PID = 0, current_ticks = 0, zeos_ticks = 0,
     rdtsc_value = (\<lambda>n. of_nat (n * 10000000)), rdtsc_count = 0,
     phys_mem = (\<lambda>_. 0), cow_count_mem = (\<lambda>_. 0), dir_pages = (\<lambda>_. 0), pagusr_table = (\<lambda>_ _. 0),
     dir_status = (\<lambda>_. \<lparr>dir_count = 0, dir_pos = 0\<rparr>), cr3 = None, tss_esp0 = 0, pmem = (\<lambda>_. 0),
     keyboard_buffer = (\<lambda>_. 0), buff_from = 0, buff_to = 0, remaining_to_read = 0,
     cursor_x = 0, cursor_y = 0, screen = (\<lambda>_. 0), debug_port = [],
     tasks_addr = of_nat (33 * PAGE_SIZE), pagusr_table_addr = of_nat (54 * PAGE_SIZE),
     cpu_idle_addr = 0x10200, ret_from_fork_addr = 0x10240,
     ebp_value = (\<lambda>_. of_nat (33 * PAGE_SIZE + 0xF00)), ebp_count = 0\<rparr>"

lemma reset_ok: "layout_ok reset_state" "zeroed reset_state"
proof -
  show "layout_ok reset_state"
    unfolding layout_ok_def
    by (rule exI [of _ 33], rule exI [of _ 54]) (simp add: reset_state_def)
  show "zeroed reset_state" by (simp add: zeroed_def reset_state_def)
qed

definition boot_state :: kstate where
  "boot_state = the (boot reset_state)"

lemma boot_state:
  "boot reset_state = Some boot_state" "kinv boot_state boot_view" "buffer_wf boot_state"
  "buffer_bytes boot_state = []" "current boot_state = 1" "idle_task boot_state = Some 0"
  "n < NR_SEMAPHORES \<Longrightarrow> used (semaphores boot_state n) = 0"
  "mem_ok boot_state" "kpc boot_state 0 = Idle_loop" "kpc boot_state 1 = User_mode"
  "heap_top (tasks boot_state 1) = HEAP_START"
  using boot_ok [OF reset_ok] by (auto simp: boot_state_def)

text \<open>The same machine with semaphore 0 created by task 1.\<close>

definition sem_state :: "dword \<Rightarrow> kstate" where
  "sem_state val = snd (the (sys_sem_init 0 val boot_state))"

definition sem_view :: qview where
  "sem_view = boot_view\<lparr>v_blocked := [0 \<mapsto> []], v_sems := [0 \<mapsto> [], 1 \<mapsto> [0]]\<rparr>"

lemma sem_state:
  "kinv (sem_state val) sem_view" "current (sem_state val) = 1" "idle_task (sem_state val) = Some 0"
  "used (semaphores (sem_state val) 0) = 1" "count (semaphores (sem_state val) 0) = val"
  "owner (semaphores (sem_state val) 0) = Some 1" "mem_ok (sem_state val)"
proof -
  have v: "boot_view\<lparr>v_blocked := (v_blocked boot_view)(0 \<mapsto> []),
      v_sems := (v_sems boot_view)(current boot_state \<mapsto> 0 # the (v_sems boot_view (current boot_state)))\<rparr> = sem_view"
    by (simp add: sem_view_def boot_view_def boot_state(5) fun_upd_idem)
  obtain h where h: "sys_sem_init 0 val boot_state = Some (0,
      (upd_sem 0 (\<lambda>x. x\<lparr>used := 1, count := val, owner := Some (current boot_state)\<rparr>) boot_state)\<lparr>links := h\<rparr>)"
      "kinv ((upd_sem 0 (\<lambda>x. x\<lparr>used := 1, count := val, owner := Some (current boot_state)\<rparr>) boot_state)\<lparr>links := h\<rparr>) sem_view"
    using sys_sem_init_ok [OF boot_state(2), of 0 val] boot_state(7) [of 0] unfolding v by auto
  then have s: "sem_state val =
      (upd_sem 0 (\<lambda>x. x\<lparr>used := 1, count := val, owner := Some (current boot_state)\<rparr>) boot_state)\<lparr>links := h\<rparr>"
    by (simp add: sem_state_def)
  show "kinv (sem_state val) sem_view" "current (sem_state val) = 1" "idle_task (sem_state val) = Some 0"
    "used (semaphores (sem_state val) 0) = 1" "count (semaphores (sem_state val) 0) = val"
    "owner (semaphores (sem_state val) 0) = Some 1"
    using h(2) boot_state(5,6) by (simp_all add: s)
  show "mem_ok (sem_state val)" by (rule mem_ok_cong [OF boot_state(8)]) (simp_all add: s upd_sem_def)
qed

end
