(* ===== verification/Kernel_Reach.thy ===== *)
theory Kernel_Reach
  imports Kernel_Steps Boot
begin

text \<open>
  The states the kernel can reach: from any state the initialisation leaves behind, by any sequence
  of system calls, faults, stores, interrupts and continuations. All of them satisfy \<open>ksafe\<close>.
\<close>

section \<open>Continuing after a switch\<close>

lemma kpc_ok_resume:
  assumes "kinv s v" "kpc_ok s v"
  shows "kpc_ok (s\<lparr>kpc := (kpc s)(current s := running s (current s))\<rparr>) v"
proof -
  let ?s = "s\<lparr>kpc := (kpc s)(current s := running s (current s))\<rparr>"
  have c: "t \<noteq> current s" if "t \<in> waiting v" for t using not_waiting_current [OF assms(1)] that by blast
  have b: "t \<noteq> current s" if "v_blocked v n = Some ts" "t \<in> set ts" for n ts t using c waitingI(3) that by blast
  show ?thesis
    unfolding kpc_ok_def
  proof (intro conjI ballI allI impI)
    show "resumable (kpc ?s t)" if "t \<in> set (v_ready v)" for t
      using kpc_okD(1) [OF assms(2) that] c [OF waitingI(1) [OF that]] by simp
    show "reading (kpc ?s t)" if "t \<in> set (v_kbd v)" for t
      using kpc_okD(2) [OF assms(2) that] c [OF waitingI(2) [OF that]] by simp
    show "kpc ?s t = Sem_wait_exit" if "v_blocked v n = Some ts" "t \<in> set ts" for n ts t
      using kpc_okD(3) [OF assms(2) that] b [OF that] by simp
    show "kpc ?s i \<in> {Idle_loop, Irq_exit}" if "idle_task ?s = Some i" for i
      using kpc_okD(4) [OF assms(2), of i] that by (simp add: running_def)
    show "kpc ?s (current ?s) = User_mode \<or> resumable (kpc ?s (current ?s))" if "idle_task ?s \<noteq> Some (current ?s)"
      using that by (simp add: running_def)
  qed
qed

lemma ksafe_resume_point:
  assumes safe: "ksafe s v"
  shows "ksafe (s\<lparr>kpc := (kpc s)(current s := running s (current s))\<rparr>) v"
  using safe kpc_ok_resume [of s v] kinv_cong [of s v "s\<lparr>kpc := (kpc s)(current s := running s (current s))\<rparr>"]
    mem_ok_cong [of s "s\<lparr>kpc := (kpc s)(current s := running s (current s))\<rparr>"]
    protected_cong [of s "s\<lparr>kpc := (kpc s)(current s := running s (current s))\<rparr>"]
  by (simp add: ksafe_def buffer_wf_def)

lemma ksafe_sem_wait_exit:
  assumes safe: "ksafe s v" and run: "sem_wait_exit s = (x, s')"
  shows "ksafe s' v"
proof (cases "sem_deleted (tasks s (current s)) = 0")
  case True
  then show ?thesis using run safe by (simp add: sem_wait_exit_def)
next
  case False
  then have s': "s' = upd_task (current s) (\<lambda>k. k\<lparr>sem_deleted := 0\<rparr>) s" using run by (simp add: sem_wait_exit_def)
  have "kinv s' v" by (rule kinv_core [of s]) (use safe in \<open>simp_all add: ksafe_def core_same_def s' upd_task_def\<close>)
  moreover have "mem_ok s'" by (rule mem_ok_cong [of s]) (use safe in \<open>simp_all add: ksafe_def s' upd_task_def\<close>)
  moreover have "protected s'" by (rule protected_cong [of s]) (use safe in \<open>simp_all add: ksafe_def s' upd_task_def\<close>)
  ultimately show ?thesis
    by (rule ksafe_ctrl [OF safe]) (simp_all add: s' upd_task_def kbd_same_def ctrl_frame_def)
qed

lemma ksafe_finish_call:
  assumes "finish_call (Some (x, s)) = Some (r, s')" "ksafe s v"
  shows "ksafe s' v"
  using assms ksafe_leave_call by (auto simp: finish_call_def bind_eq_Some_conv)

lemma ksafe_resume:
  assumes safe: "ksafe s v" and run: "resume s = Some (r, s')"
  shows "\<exists>v'. ksafe s' v'"
proof -
  let ?s1 = "s\<lparr>kpc := (kpc s)(current s := running s (current s))\<rparr>"
  have safe1: "ksafe ?s1 v" by (rule ksafe_resume_point [OF safe])
  have idle: "idle_task ?s1 \<noteq> Some (current ?s1)" if "kpc s (current s) \<notin> {Idle_loop, Irq_exit}"
    using kpc_okD(4) [of s v "current s"] safe that by (auto simp: ksafe_def)
  have leave: "ksafe s' v" if "update_leaving_sys ?s1 = Some s'"
    using ksafe_update_stats [OF safe1] that by (simp add: update_leaving_sys_def)
  have call: "\<exists>v'. ksafe s' v'" if fc: "finish_call x = Some (r, s')" and each: "\<And>y s2. x = Some (y, s2) \<Longrightarrow> \<exists>w. ksafe s2 w" for x
  proof (cases x)
    case (Some a)
    obtain y s2 where a: "a = (y, s2)" by fastforce
    obtain w where "ksafe s2 w" using each Some a by blast
    then show ?thesis using fc unfolding Some a using ksafe_finish_call by blast
  qed (use fc in \<open>simp add: finish_call_def\<close>)
  show ?thesis
  proof (cases "kpc s (current s)")
    case Irq_exit
    with run leave show ?thesis by (auto simp: resume_def Let_def bind_eq_Some_conv)
  next
    case Fork_child
    with run have "finish_call (Some (Ret 0, ?s1)) = Some (r, s')" by (simp add: resume_def Let_def)
    then show ?thesis by (rule call) (use safe1 in blast)
  next
    case Clone_child
    with run leave show ?thesis by (auto simp: resume_def Let_def bind_eq_Some_conv)
  next
    case Sem_wait_exit
    obtain x s2 where s2: "sem_wait_exit ?s1 = (x, s2)" by fastforce
    with Sem_wait_exit run have "finish_call (Some (Ret x, s2)) = Some (r, s')" by (simp add: resume_def Let_def)
    then show ?thesis by (rule call) (use ksafe_sem_wait_exit [OF safe1 s2] in blast)
  next
    case (Read_first b n)
    with run have "finish_call (sys_read_keyboard_first b n ?s1) = Some (r, s')" by (simp add: resume_def Let_def)
    then show ?thesis
      by (rule call) (use ksafe_read_then_loop [OF safe1 idle] Read_first in \<open>simp add: sys_read_keyboard_first_def\<close>)
  next
    case (Read_more b m n)
    with run have "finish_call (sys_read_keyboard_more b m n ?s1) = Some (r, s')" by (simp add: resume_def Let_def)
    then show ?thesis
      by (rule call) (use ksafe_read_then_loop [OF safe1 idle] Read_more in \<open>simp add: sys_read_keyboard_more_def\<close>)
  qed (use run in \<open>simp_all add: resume_def Let_def\<close>)
qed

section \<open>Every step\<close>

lemma ksafe_step:
  assumes safe: "ksafe s v" and clk: "shows_clock f" and run: "kernel_step f e s = Some s'"
  shows "\<exists>v'. ksafe s' v'"
proof (cases e)
  case (Syscall eax ebx ecx edx loc)
  then obtain r where r: "kpc s (current s) = User_mode" "system_call_handler eax ebx ecx edx loc s = Some (r, s')"
    using run by (auto simp: kernel_step_def Let_def split: if_splits)
  show ?thesis by (rule ksafe_system_call [OF safe ksafe_user [OF safe r(1)] r(2)])
next
  case (Page_fault address)
  then have "pf_rsi address s = Some s'" using run by (auto simp: kernel_step_def pf_handler_def Let_def split: if_splits)
  with safe pf_rsi_safe [of s v address s'] protected_pf [of s v address s'] ksafe_ctrl [OF safe] show ?thesis by (auto simp: ksafe_def)
next
  case (User_store address b)
  then have "write_byte s address b = Some s'" using run by (auto simp: kernel_step_def user_write_def Let_def split: if_splits)
  from write_byte_frame [OF this] ksafe_upd(1) [OF safe] show ?thesis by auto
next
  case Clock
  then show ?thesis using run clock_handler_returns [OF safe clk] by (auto simp: kernel_step_def Let_def split: if_splits)
next
  case (Key b)
  then show ?thesis using run keyboard_handler_returns [OF safe, of b] by (auto simp: kernel_step_def Let_def split: if_splits)
next
  case Continue
  then show ?thesis using run ksafe_resume [OF safe] by (auto simp: kernel_step_def)
qed

section \<open>Reachable states\<close>

inductive kreach :: "(kstate \<Rightarrow> kstate) \<Rightarrow> kstate \<Rightarrow> bool" for zeos_show_clock where
  start: "layout_ok s \<Longrightarrow> zeroed s \<Longrightarrow> boot s = Some s' \<Longrightarrow> kreach zeos_show_clock s'"
| step: "kreach zeos_show_clock s \<Longrightarrow> kstep zeos_show_clock s s' \<Longrightarrow> kreach zeos_show_clock s'"

lemma heaps_ok_empty:
  "(\<And>t d. dir_pages_baseAddr (tasks s t) = Some d \<Longrightarrow> t < NR_TASKS \<Longrightarrow> heap_top (tasks s t) = HEAP_START) \<Longrightarrow> heaps_ok s"
  by (simp add: heaps_ok_def)

lemma ksafe_boot:
  assumes "layout_ok s" "zeroed s" "boot s = Some s'"
  shows "ksafe s' boot_view"
proof -
  have b: "kinv s' boot_view" "buffer_wf s'" "current s' = 1" "idle_task s' = Some 0" "kpc s' 1 = User_mode" "mem_ok s'"
    "kpc s' 0 = Idle_loop" "frames_ok s'"
    using boot_ok [OF assms(1,2)] assms(3) by auto
  have "heaps_ok s'" by (rule heaps_ok_empty) (use boot_ok [OF assms(1,2)] assms(3) in auto)
  with b show ?thesis by (simp add: ksafe_def kpc_ok_def boot_view_def protected_def)
qed

lemma kreach_ksafe:
  assumes "kreach f s" "shows_clock f"
  shows "\<exists>v. ksafe s v"
  using assms
proof (induction rule: kreach.induct)
  case (start s s')
  then show ?case using ksafe_boot by blast
next
  case (step s s')
  then show ?case using ksafe_step by (auto elim!: kstepE)
qed

end
