(* ===== verification/Task_Properties.thy ===== *)
theory Task_Properties
  imports Boot Sched_Proofs Keyboard_Proofs
begin

text \<open>
  The properties of the initialisation, the scheduler, the semaphores and the keyboard. Each
  is stated over the kernel invariant and the abstract queues, on every branch of the call;
  the witnesses apply it to the machine that \<open>boot\<close> leaves behind.
\<close>

section \<open>Initialisation\<close>

text \<open>C1: from a machine with zeroed variables and the linker's layout, the initialisation of
  \<^verbatim>\<open>main\<close> returns and establishes the kernel invariant: task 0 is the idle task, task 1 (PID 1)
  runs in user mode, the other eight tasks are free, no semaphore is used and the keyboard
  buffer is empty.\<close>

theorem boot_establishes_invariant:
  assumes "layout_ok s" "zeroed s"
  shows "\<exists>s'. boot s = Some s' \<and> kinv s' boot_view \<and> current s' = 1 \<and> idle_task s' = Some 0 \<and>
           state (tasks s' 1) = ST_RUN \<and> PID (tasks s' 1) = 1 \<and> kpc s' 1 = User_mode \<and>
           (\<forall>n<NR_SEMAPHORES. used (semaphores s' n) = 0) \<and> buffer_wf s' \<and> buffer_bytes s' = []"
  using boot_ok [OF assms] by blast

theorem boot_establishes_invariant_witness:
  "\<exists>s'. boot reset_state = Some s' \<and> kinv s' boot_view \<and> current s' = 1"
  using boot_establishes_invariant [OF reset_ok] by blast

section \<open>Scheduling\<close>

text \<open>C4: a clock tick keeps the kernel invariant and is round robin: the current task goes on
  exactly when its quantum is not over (and, for the idle task, nothing is ready); otherwise it
  goes to the end of the ready queue (the idle task to no queue) and the head of the queue
  runs, or the idle task when the queue is empty.\<close>

theorem execute_scheduling_round_robin:
  assumes "kinv s v"
  defines "over \<equiv> sint (quantum (tasks s (current s)) - (current_ticks s + 1)) \<le> 0"
    and "idle \<equiv> idle_task s = Some (current s)"
  defines "ready \<equiv> (if idle then v_ready v else v_ready v @ [current s])"
  shows "\<exists>s'. execute_scheduling s = Some s' \<and>
           (if over \<or> idle \<and> v_ready v \<noteq> []
            then kinv s' (v\<lparr>v_ready := tl ready\<rparr>) \<and>
                 current s' = (case ready of [] \<Rightarrow> the (idle_task s) | t # _ \<Rightarrow> t) \<and>
                 state (tasks s' (current s')) = ST_RUN
            else kinv s' v \<and> current s' = current s \<and> links s' = links s)"
proof (cases "needs_sched_rr (tick s)")
  case True
  then show ?thesis
    using needs_sched_tick [OF assms(1)] execute_scheduling_switches [OF assms(1) True]
    unfolding over_def idle_def ready_def by auto
next
  case False
  then show ?thesis
    using needs_sched_tick [OF assms(1)] execute_scheduling_stays [OF assms(1) False]
    unfolding over_def idle_def ready_def by auto
qed

theorem execute_scheduling_round_robin_witness:
  "\<exists>s'. execute_scheduling boot_state = Some s'"
  using execute_scheduling_round_robin [OF boot_state(2)] by blast

section \<open>Semaphores\<close>

text \<open>C14: \<^verbatim>\<open>sem_wait\<close> on every branch: a bad index or an unused semaphore is an error and changes
  nothing; a positive counter is decremented and the call returns 0; with a zero counter the
  task is appended to the queue of the semaphore and the head of the ready queue (or the idle
  task) runs. The kernel invariant is kept throughout.\<close>

theorem sem_wait_spec:
  assumes "kinv s v" "idle_task s \<noteq> Some (current s)"
  shows "case sem_index w of
      None \<Rightarrow> sys_sem_wait w s = Some (Ret (- EINVAL), s)
    | Some n \<Rightarrow>
        if used (semaphores s n) = 0 then sys_sem_wait w s = Some (Ret (- EINVAL), s)
        else if count (semaphores s n) \<noteq> 0
        then sys_sem_wait w s = Some (Ret 0, upd_sem n (\<lambda>x. x\<lparr>count := count x - 1\<rparr>) s) \<and>
             kinv (upd_sem n (\<lambda>x. x\<lparr>count := count x - 1\<rparr>) s) v
        else (\<exists>s'. sys_sem_wait w s = Some (Switched, s') \<and>
                kinv s' (v\<lparr>v_blocked := (v_blocked v)(n \<mapsto> the (v_blocked v n) @ [current s]),
                           v_ready := tl (v_ready v)\<rparr>) \<and>
                current s' = v_next s v \<and> kpc s' = (kpc s)(current s := Sem_wait_exit) \<and>
                semaphores s' = semaphores s)"
proof (cases "sem_index w")
  case (Some n)
  then have n: "w = of_nat n" "n < NR_SEMAPHORES" by (simp_all add: sem_index_Some)
  have i: "sem_index (of_nat n) = Some n" using Some n by simp
  consider "used (semaphores s n) = 0" | "used (semaphores s n) \<noteq> 0" "count (semaphores s n) \<noteq> 0"
    | "used (semaphores s n) \<noteq> 0" "count (semaphores s n) = 0" by blast
  then show ?thesis
  proof cases
    case 1
    then show ?thesis by (simp add: n i sys_sem_wait_def)
  next
    case 2
    then show ?thesis using sys_sem_wait_takes [OF assms(1) n(2)] by (simp add: n i)
  next
    case 3
    have "sems_core s v" using assms(1) by (simp add: kinv_def sems_ok_def)
    then obtain ts where ts: "v_blocked v n = Some ts" using sems_coreD(3) n(2) 3(1) by blast
    show ?thesis
      using sys_sem_wait_blocks [OF assms(1) n(2) 3 assms(2) ts] 3 ts
      by (auto simp: n i sched_frame_def)
  qed
qed (simp add: sys_sem_wait_def)

theorem sem_wait_spec_witness:
  "\<exists>s'. sys_sem_wait 0 (sem_state 0) = Some (Switched, s') \<and> current s' = 0"
  using sem_wait_spec [OF sem_state(1), of 0 0] sem_index_Some [of 0 0] sem_state(2-5) [of 0]
  by (auto simp: v_next_def sem_view_def boot_view_def)

text \<open>C15: \<^verbatim>\<open>sem_signal\<close> on every branch: a bad index or an unused semaphore is an error; with no
  task blocked the counter is incremented; otherwise the task that has been blocked longest
  becomes ready, behind the tasks that are ready already, and the counter stays. The current
  task goes on and the kernel invariant is kept.\<close>

theorem sem_signal_spec:
  assumes "kinv s v"
  shows "case sem_index w of
      None \<Rightarrow> sys_sem_signal w s = Some (- EINVAL, s)
    | Some n \<Rightarrow>
        if used (semaphores s n) = 0 then sys_sem_signal w s = Some (- EINVAL, s)
        else (case the (v_blocked v n) of
            [] \<Rightarrow> sys_sem_signal w s = Some (0, upd_sem n (\<lambda>x. x\<lparr>count := count x + 1\<rparr>) s) \<and>
                  kinv (upd_sem n (\<lambda>x. x\<lparr>count := count x + 1\<rparr>) s) v
          | t # ts \<Rightarrow> (\<exists>s'. sys_sem_signal w s = Some (0, s') \<and>
                  kinv s' (v\<lparr>v_blocked := (v_blocked v)(n \<mapsto> ts), v_ready := v_ready v @ [t]\<rparr>) \<and>
                  semaphores s' = semaphores s \<and> current s' = current s))"
proof (cases "sem_index w")
  case (Some n)
  then have n: "w = of_nat n" "n < NR_SEMAPHORES" by (simp_all add: sem_index_Some)
  have i: "sem_index (of_nat n) = Some n" using Some n by simp
  show ?thesis
  proof (cases "used (semaphores s n) = 0")
    case True
    then show ?thesis by (simp add: n i sys_sem_signal_def)
  next
    case False
    have "sems_core s v" using assms by (simp add: kinv_def sems_ok_def)
    then obtain ts where ts: "v_blocked v n = Some ts" using sems_coreD(3) n(2) False by blast
    show ?thesis
      using sys_sem_signal_counts [OF assms n(2) False] sys_sem_signal_wakes [OF assms n(2) False] False ts
      by (cases ts) (auto simp: n i sched_frame_def ctrl_frame_def)
  qed
qed (simp add: sys_sem_signal_def)

theorem sem_signal_spec_witness:
  "\<exists>s'. sys_sem_signal 0 (sem_state 7) = Some (0, s') \<and> count (semaphores s' 0) = 8"
  using sem_signal_spec [OF sem_state(1), of 0 7] sem_index_Some [of 0 0] sem_state(4,5) [of 7]
  by (auto simp: sem_view_def)

text \<open>C16: \<^verbatim>\<open>sem_destroy\<close> on every branch: errors for a bad index, an unused semaphore and a caller
  that is not the owner change nothing; otherwise the semaphore becomes unused, leaves the list
  of its owner, and all tasks blocked on it become ready in their order, each with its
  \<^verbatim>\<open>sem_deleted\<close> flag set and no other flag changed. The kernel invariant is kept.\<close>

theorem sem_destroy_spec:
  assumes "kinv s v"
  shows "case sem_index w of
      None \<Rightarrow> sys_sem_destroy w s = Some (- EINVAL, s)
    | Some n \<Rightarrow>
        if used (semaphores s n) = 0 then sys_sem_destroy w s = Some (- EINVAL, s)
        else if PID (tasks s (current s)) \<noteq> PID (tasks s (the (owner (semaphores s n))))
        then sys_sem_destroy w s = Some (- 1, s)
        else (\<exists>s'. sys_sem_destroy w s = Some (0, s') \<and>
                kinv s' (v\<lparr>v_sems := (\<lambda>t. map_option (removeAll n) (v_sems v t)),
                           v_blocked := (v_blocked v)(n \<mapsto> []),
                           v_ready := v_ready v @ the (v_blocked v n)\<rparr>) \<and>
                semaphores s' = (semaphores s)(n := (semaphores s n)\<lparr>used := 0\<rparr>) \<and>
                current s' = current s \<and>
                (\<forall>t. sem_deleted (tasks s' t) =
                   (if t \<in> set (the (v_blocked v n)) then 1 else sem_deleted (tasks s t))))"
proof (cases "sem_index w")
  case (Some n)
  then have n: "w = of_nat n" "n < NR_SEMAPHORES" by (simp_all add: sem_index_Some)
  have i: "sem_index (of_nat n) = Some n" using Some n by simp
  show ?thesis
  proof (cases "used (semaphores s n) = 0")
    case True
    then show ?thesis by (simp add: n i sys_sem_destroy_def)
  next
    case False
    have "sems_core s v" using assms by (simp add: kinv_def sems_ok_def)
    then obtain own where own: "owner (semaphores s n) = Some own"
      using sems_coreD(5) [OF _ n(2) False] by blast
    show ?thesis
    proof (cases "PID (tasks s (current s)) = PID (tasks s own)")
      case True
      then show ?thesis
        using sys_sem_destroy_ok [OF assms n(2) False own] False own
        by (auto simp: n i v_destroy_def wake_frame_def sched_frame_def task_kept_def ctrl_frame_def upd_sem_def)
    next
      case False
      then show ?thesis using own \<open>used (semaphores s n) \<noteq> 0\<close> by (simp add: n i sys_sem_destroy_def)
    qed
  qed
qed (simp add: sys_sem_destroy_def)

theorem sem_destroy_spec_witness:
  "\<exists>s'. sys_sem_destroy 0 (sem_state 7) = Some (0, s') \<and> used (semaphores s' 0) = 0"
  using sem_destroy_spec [OF sem_state(1), of 0 7] sem_index_Some [of 0 0] sem_state(2,4,6) [of 7]
  by auto

text \<open>C29: \<^verbatim>\<open>sem_init\<close> on every branch: a bad index (negative ones too) is EINVAL and a semaphore in use is EBUSY, with nothing
  changed; a free one gets the value, the current task as owner and an empty queue, and is first in the list of the semaphores that
  task owns; but for this semaphore and the lists nothing changes, and the kernel invariant is kept. The unsigned value is
  never rejected, however large.\<close>

theorem sem_init_spec:
  assumes "kinv s v"
  shows "case sem_index w of
      None \<Rightarrow> sys_sem_init w val s = Some (- EINVAL, s)
    | Some n \<Rightarrow>
        if used (semaphores s n) \<noteq> 0 then sys_sem_init w val s = Some (- EBUSY, s)
        else (\<exists>s'. sys_sem_init w val s = Some (0, s') \<and>
                s' = s\<lparr>semaphores := (semaphores s)
                  (n := (semaphores s n)\<lparr>used := 1, count := val, owner := Some (current s)\<rparr>), links := links s'\<rparr> \<and>
                kinv s' (v\<lparr>v_blocked := (v_blocked v)(n \<mapsto> []),
                           v_sems := (v_sems v)(current s \<mapsto> n # the (v_sems v (current s)))\<rparr>))"
proof (cases "sem_index w")
  case (Some n)
  then have n: "w = of_nat n" "n < NR_SEMAPHORES" by (simp_all add: sem_index_Some)
  have i: "sem_index (of_nat n) = Some n" using Some n by simp
  show ?thesis
  proof (cases "used (semaphores s n) = 0")
    case True
    then show ?thesis using sys_sem_init_ok [OF assms n(2) True, of val] by (auto simp: n i upd_sem_def)
  next
    case False
    then show ?thesis by (simp add: n i sys_sem_init_def)
  qed
qed (simp add: sys_sem_init_def)

theorem sem_init_spec_witness:
  "\<exists>s'. sys_sem_init 3 5 boot_state = Some (0, s') \<and> count (semaphores s' 3) = 5"
proof -
  have "sem_index 3 = Some 3" "used (semaphores boot_state 3) = 0"
    using sem_index_Some [of 3 3] boot_state(7) [of 3] by simp_all
  with sem_init_spec [OF boot_state(2), of 3 5] obtain s' where s': "sys_sem_init 3 5 boot_state = Some (0, s')"
      "s' = boot_state\<lparr>semaphores := (semaphores boot_state)
        (3 := (semaphores boot_state 3)\<lparr>used := 1, count := 5, owner := Some (current boot_state)\<rparr>), links := links s'\<rparr>"
    by (simp only: option.case simp_thms if_False) blast
  have "semaphores s' 3 = (semaphores boot_state 3)\<lparr>used := 1, count := 5, owner := Some (current boot_state)\<rparr>"
    by (subst s'(2)) simp
  then have "count (semaphores s' 3) = 5" by simp
  with s'(1) show ?thesis by blast
qed

section \<open>Keyboard\<close>

text \<open>C17: the keyboard interrupt always returns and keeps the kernel invariant and the buffer
  well formed. A release, an unknown position or a full buffer changes nothing; otherwise the
  key is appended to the buffer, and the first reader (if any) is switched to at once when it
  has no more than one byte to wait for or the buffer has become full, the interrupted task
  going to the end of the ready queue; if it must wait longer only its counter goes down.\<close>

theorem keyboard_routine_spec:
  assumes "kinv s v" "buffer_wf s"
  shows "case (if is_buffer_full s then None else key_of value) of
      None \<Rightarrow> keyboard_routine value s = Some s
    | Some key \<Rightarrow> (\<exists>s'. keyboard_routine value s = Some s' \<and> buffer_wf s' \<and>
          buffer_bytes s' = buffer_bytes s @ [key] \<and>
          (case v_kbd v of
             [] \<Rightarrow> kinv s' v \<and> current s' = current s \<and> remaining_to_read s' = remaining_to_read s
           | r # rs \<Rightarrow> remaining_to_read s' = remaining_to_read s - 1 \<and>
               (if remaining_to_read s \<le> 1 \<or> buffer_len s = 8
                then current s' = r \<and>
                  kinv s' (v\<lparr>v_kbd := rs, v_ready := (if idle_task s = Some (current s)
                     then v_ready v else v_ready v @ [current s])\<rparr>)
                else current s' = current s \<and> kinv s' v)))"
proof (cases "is_buffer_full s \<or> key_of value = None")
  case True
  then show ?thesis using keyboard_routine_ignores by (auto split: option.split)
next
  case False
  then obtain key where key: "key_of value = Some key" "\<not> is_buffer_full s" by auto
  note k = keyboard_routine_key [OF assms key]
  let ?s1 = "s\<lparr>keyboard_buffer := (keyboard_buffer s)(buff_to s := key),
               buff_to := (buff_to s + 1) mod KEYBOARD_BUFFER_SIZE\<rparr>"
  let ?s2 = "?s1\<lparr>remaining_to_read := remaining_to_read s - 1\<rparr>"
  have full: "is_buffer_full ?s1 \<longleftrightarrow> buffer_len s = 8"
    using buffer_full_iff [OF k(4)] arg_cong [OF k(5), of length] by simp
  have b2: "buffer_bytes ?s2 = buffer_bytes s @ [key]" "buffer_wf ?s2"
    using k(4,5) buffer_bytes_cong [of ?s2 ?s1] by (simp_all add: buffer_wf_def)
  show ?thesis
  proof (cases "v_kbd v")
    case Nil
    then show ?thesis using key k by simp
  next
    case (Cons r rs)
    obtain s3 where s3: "wake_reader ?s2 = Some s3" "sched_frame ?s2 s3" "current s3 = r"
        "kinv s3 (v\<lparr>v_kbd := rs, v_ready := (if idle_task s = Some (current s)
                     then v_ready v else v_ready v @ [current s])\<rparr>)"
      using wake_reader_ok [OF k(3) Cons, of "remaining_to_read s - 1"] by (auto cong: if_cong)
    have "buffer_bytes s3 = buffer_bytes s @ [key]" "buffer_wf s3" "remaining_to_read s3 = remaining_to_read s - 1"
      using s3(2) b2 buffer_bytes_cong [of s3 ?s2] by (simp_all add: sched_frame_def buffer_wf_def)
    then show ?thesis
      using key k(1) k(3) [of "remaining_to_read s - 1"] s3 b2 Cons full by (auto simp: Let_def)
  qed
qed

theorem keyboard_routine_spec_witness:
  "\<exists>s'. keyboard_routine 0x1E boot_state = Some s' \<and> buffer_bytes s' = [97]"
proof -
  have "\<not> is_buffer_full boot_state"
    using buffer_full_iff [OF boot_state(3)] length_buffer_bytes [of boot_state] boot_state(4) by simp
  then show ?thesis
    using keyboard_routine_spec [OF boot_state(2,3), of "0x1E"] boot_state(4)
    by (auto simp: key_of_def char_map_def boot_view_def)
qed

end
