(* ===== verification/Process_Properties.thy ===== *)
theory Process_Properties
  imports Task_Properties Heap_Proofs
begin

text \<open>
  The properties of process creation, process end and the heap, over the kernel invariant
  \<open>kinv\<close> and the memory invariant \<open>mem_ok\<close>.
\<close>

section \<open>\<^verbatim>\<open>sys_fork\<close>\<close>

text \<open>C7: \<^verbatim>\<open>fork\<close> returns EAGAIN and changes nothing when no task is free. Otherwise the first free
  task becomes a ready process, last in the queue, with a directory of its own, the next PID, the
  quantum and heap of its father, no semaphores, the father's saved context on its kernel stack
  above the address of \<^verbatim>\<open>ret_from_fork\<close>; the father goes on with the child's PID, and both
  invariants are kept.\<close>

theorem fork_spec:
  assumes "kinv s v" "mem_ok s" "idle_task s \<noteq> Some (current s)"
  shows "case v_free v of
      [] \<Rightarrow> sys_fork s = Some (- EAGAIN, s)
    | t # ts \<Rightarrow> (\<exists>s' pos. sys_fork s = Some (last_PID s, s') \<and>
          kinv s' (child_view t ts (tl (v_dirs v)) v) \<and> mem_ok s' \<and>
          current s' = current s \<and> kpc s' = (kpc s)(t := Fork_child) \<and>
          PID (tasks s' t) = last_PID s \<and> quantum (tasks s' t) = quantum (tasks s (current s)) \<and>
          heap_top (tasks s' t) = heap_top (tasks s (current s)) \<and>
          (\<forall>u. u \<noteq> t \<longrightarrow> tasks s' u = tasks s u) \<and>
          stack_copied s t (current s) pos (ret_from_fork_addr s) (pmem s'))"
proof (cases "v_free v")
  case Nil
  then show ?thesis using sys_fork_none [OF assms(1)] by simp
next
  case (Cons t ts)
  show ?thesis
    by (rule sys_fork_ok [OF assms Cons]) (use Cons in \<open>auto simp: ctrl_frame_def\<close>)
qed

theorem fork_spec_witness:
  "\<exists>s'. sys_fork boot_state = Some (last_PID boot_state, s') \<and> kpc s' 2 = Fork_child \<and>
     kinv s' (child_view 2 [3..<10] [6, 5, 4, 3, 2, 1, 0] boot_view)"
proof -
  have v: "v_free boot_view = 2 # [3..<10]" "v_dirs boot_view = 7 # [6, 5, 4, 3, 2, 1, 0]"
    by (simp_all add: boot_view_def upt_rec)
  show ?thesis
    using fork_spec [OF boot_state(2,8)] boot_state(5,6) unfolding v by fastforce
qed



section \<open>\<^verbatim>\<open>sys_exit\<close>\<close>

text \<open>C10: \<^verbatim>\<open>exit\<close> always returns the task to the end of the free queue, gives its directory back when
  no other thread uses it, destroys exactly the semaphores it owns, makes the tasks blocked on
  them ready (in the order of its list of semaphores) with their \<^verbatim>\<open>sem_deleted\<close> flag set, and
  switches to the next ready task, or to the idle task. Both invariants are kept.\<close>

theorem exit_spec:
  assumes "kinv s v" "mem_ok s" "idle_task s \<noteq> Some (current s)"
  defines "c \<equiv> current s" and "ns \<equiv> the (v_sems v (current s))"
  shows "\<exists>d s'. sys_exit s = Some s' \<and> dir_pages_baseAddr (tasks s c) = Some (d * TOTAL_PAGES) \<and> mem_ok s' \<and>
     (let w = exit_view c ns (if dir_users s d = {c} then d # v_dirs v else v_dirs v) v
      in kinv s' (w\<lparr>v_ready := tl (v_ready w)\<rparr>) \<and> current s' = v_next s w) \<and>
     semaphores s' = (\<lambda>n. if n \<in> set ns then (semaphores s n)\<lparr>used := 0\<rparr> else semaphores s n) \<and>
     (\<forall>t. sem_deleted (tasks s' t) =
        (if \<exists>n\<in>set ns. t \<in> set (the (v_blocked v n)) then 1 else sem_deleted (tasks s t)))"
  unfolding c_def ns_def Let_def by (rule sys_exit_ok [OF assms(1-3)]) blast

theorem exit_spec_witness:
  "\<exists>s'. sys_exit (sem_state 7) = Some s' \<and> used (semaphores s' 0) = 0"
  using exit_spec [OF sem_state(1,7), of 7] sem_state(2,3) [of 7] by (fastforce simp: sem_view_def)

section \<open>\<^verbatim>\<open>sys_clone\<close>\<close>

text \<open>C11: \<^verbatim>\<open>clone\<close> on every branch. Pointers that \<^verbatim>\<open>access_ok\<close> refuses give EFAULT, no free task EAGAIN,
  and nothing changes. Otherwise, when the word below the stack pointer is mapped, the first free
  task becomes a ready thread that shares the page tables and the quantum of its creator, has an
  empty heap of its own, and starts at the function with the stack pointer one word down; both
  invariants are kept. When that word is not mapped the kernel faults while it stores the exit
  function, and the call has no result.\<close>

theorem clone_spec:
  assumes "kinv s v" "mem_ok s" "idle_task s \<noteq> Some (current s)"
  shows "if \<not> access_ok VERIFY_WRITE fn 4 s \<or> \<not> access_ok VERIFY_WRITE stack 4 s
     then sys_clone fn stack exit_func s = Some (- EFAULT, s)
     else (case v_free v of
         [] \<Rightarrow> sys_clone fn stack exit_func s = Some (- EAGAIN, s)
       | t # ts \<Rightarrow>
           if \<exists>i<4. translate s (stack - 4 + of_nat i) = None then sys_clone fn stack exit_func s = None
           else (\<exists>s'. sys_clone fn stack exit_func s = Some (last_PID s, s') \<and>
             kinv s' (child_view t ts (v_dirs v) v) \<and> mem_ok s' \<and> current s' = current s \<and>
             kpc s' = (kpc s)(t := Clone_child) \<and> PID (tasks s' t) = last_PID s \<and>
             quantum (tasks s' t) = quantum (tasks s (current s)) \<and> heap_top (tasks s' t) = HEAP_START \<and>
             dir_pages_baseAddr (tasks s' t) = dir_pages_baseAddr (tasks s (current s)) \<and>
             pagusr_table s' = pagusr_table s \<and> thread_start s t fn (stack - 4) (pmem s')))"
proof (cases "access_ok VERIFY_WRITE fn 4 s \<and> access_ok VERIFY_WRITE stack 4 s")
  case True
  show ?thesis
  proof (cases "v_free v")
    case Nil
    then show ?thesis using True sys_clone_errors(2) [OF assms(1)] by simp
  next
    case (Cons t ts)
    show ?thesis
      by (cases rule: sys_clone_cases [OF assms Cons conjunct1 [OF True] conjunct2 [OF True], of exit_func])
        (use True Cons in \<open>auto simp: ctrl_frame_def\<close>)
  qed
next
  case False
  then show ?thesis using sys_clone_errors(1) by auto
qed

lemma boot_user_mapped:
  assumes "USER_FIRST_PAGE \<le> pg" "pg < USER_FIRST_PAGE + 28" "off < PAGE_SIZE"
  shows "translate boot_state (of_nat (pg * PAGE_SIZE + off)) \<noteq> None"
proof (rule current_space [OF boot_state(2,8)])
  fix d
  assume d: "cr3 boot_state = Some (d * TOTAL_PAGES)" "d < NR_TASKS"
    and um: "idle_task boot_state \<noteq> Some (current boot_state) \<Longrightarrow> user_mapped (pagusr_table boot_state d)"
  have "pte_present (pagusr_table boot_state d pg)"
    using um assms boot_state(5,6) by (simp add: user_mapped_def)
  then show ?thesis using mem_translate(1) [OF boot_state(8) d, of pg off] assms by simp
qed

theorem clone_spec_witness:
  "\<exists>s'. sys_clone 0x100000 0x11BFF0 0x100004 boot_state = Some (last_PID boot_state, s') \<and>
     kpc s' 2 = Clone_child \<and> heap_top (tasks s' 2) = HEAP_START"
proof -
  have v: "v_free boot_view = 2 # [3..<10]" by (simp add: boot_view_def upt_rec)
  have acc: "access_ok VERIFY_WRITE 0x100000 4 boot_state" "access_ok VERIFY_WRITE 0x11BFF0 4 boot_state"
    by (simp_all add: access_ok_def)
  have "translate boot_state (0x11BFF0 - 4 + of_nat i) \<noteq> None" if "i < 4" for i
  proof -
    have a: "0x11BFF0 - 4 + of_nat i = (of_nat (283 * PAGE_SIZE + (0xFEC + i)) :: dword)" by simp
    show ?thesis unfolding a by (rule boot_user_mapped) (use that in simp_all)
  qed
  then have m: "\<not> (\<exists>i<4. translate boot_state (0x11BFF0 - 4 + of_nat i) = None)" by blast
  have "idle_task boot_state \<noteq> Some (current boot_state)" by (simp add: boot_state(5,6))
  from clone_spec [OF boot_state(2,8) this, of "0x100000" "0x11BFF0" "0x100004", unfolded v] show ?thesis
    unfolding not_not if_not_P [OF m] using acc by auto
qed

section \<open>\<^verbatim>\<open>sys_sbrk\<close>\<close>

lemma sbrk_frame:
  assumes inv: "kinv s v" and mem: "mem_ok s" and user: "idle_task s \<noteq> Some (current s)"
  obtains r d T m c h where "get_PT s (current s) = Some d"
    "sys_sbrk increment s = Some (r, s\<lparr>pagusr_table := (pagusr_table s)(d := T), phys_mem := m, cow_count_mem := c,
       tasks := (tasks s)(current s := (tasks s (current s))\<lparr>heap_top := h\<rparr>)\<rparr>)"
    "\<forall>i<PAG_LOG_INIT_DATA + NUM_PAG_DATA. T i = pagusr_table s d i"
proof (cases "increment = 0 \<or> HEAP_START < heap_top (tasks s (current s)) - increment \<and> \<not> increment <s 0")
  case True
  then have "\<exists>r. sys_sbrk increment s = Some (r, s)" by (auto simp: sys_sbrk_def Let_def)
  then obtain r where r: "sys_sbrk increment s = Some (r, s)" by blast
  have di: "dirs_ok s v" and k: "kmap_ok s" using inv mem by (simp_all add: kinv_def mem_ok_def)
  obtain d where "dir_pages_baseAddr (tasks s (current s)) = Some (d * TOTAL_PAGES)" "d < NR_TASKS"
    using dirs_okD(6,7) [OF di kinv_current(3) [OF inv]] kinv_current(2) [OF inv] by blast
  from kmap_PT [OF k this] have "get_PT s (current s) = Some d" .
  then show thesis
    by (rule that [where T = "pagusr_table s d" and m = "phys_mem s" and c = "cow_count_mem s" and h = "heap_top (tasks s (current s))"]) (simp_all add: r)
next
  case False
  then have x: "increment \<noteq> 0" "HEAP_START < heap_top (tasks s (current s)) - increment \<longrightarrow> increment <s 0" by auto
  let ?c = "tasks s (current s)" and ?t = "pagusr_table s"
  have shape: "set_heap_top h s1 = s\<lparr>pagusr_table := ?t(d := pagusr_table s1 d), phys_mem := phys_mem s1,
      cow_count_mem := cow_count_mem s1, tasks := (tasks s)(current s := ?c\<lparr>heap_top := h\<rparr>)\<rparr>"
    if "mm_only s s1" "\<forall>j i. j \<noteq> d \<longrightarrow> pagusr_table s1 j i = ?t j i" for s1 h d
  proof -
    have T: "?t(d := pagusr_table s1 d) = pagusr_table s1" by (intro ext) (use that(2) in \<open>simp add: fun_upd_apply\<close>)
    show ?thesis unfolding T using that(1) by (auto elim!: mm_onlyE simp: set_heap_top_def upd_task_def)
  qed
  show thesis
  proof (cases rule: sys_sbrk_ok [OF inv mem user x, case_names blocked no_frames grown shrunk])
    case (blocked d)
    show thesis
      by (rule that [OF blocked(1), where T = "?t d" and m = "phys_mem s" and c = "cow_count_mem s" and h = "heap_top ?c"]) (simp_all add: blocked(4))
  next
    case (no_frames d s')
    obtain m c where "s' = s\<lparr>phys_mem := m, cow_count_mem := c\<rparr>" using no_frames(6,7) by (auto elim!: mm_onlyE)
    then show thesis by (intro that [OF no_frames(1), where T = "?t d" and m = m and c = c and h = "heap_top ?c"]) (simp_all add: no_frames(5))
  next
    case (grown d fs s1)
    have len: "length fs \<le> MAX_HEAP_PAGES - heap_pages (heap_top ?c)" using grown(5,9) by (auto simp: heap_fits_pages)
    have sh: "\<forall>j i. j \<noteq> d \<longrightarrow> pagusr_table s1 j i = ?t j i" by (simp add: grown(8) heap_tables_def)
    have low: "\<not> (511 - a - i < n \<and> i \<le> 511 - a)" if "i < 284" "n \<le> 228 - a" for a i n :: nat using that by linarith
    have "\<forall>i<PAG_LOG_INIT_DATA + NUM_PAG_DATA. pagusr_table s1 d i = ?t d i"
      using low [OF _ len] by (simp add: grown(8) heap_tables_def) blast
    from that [OF grown(1) grown(6) [unfolded shape [OF grown(7) sh]] this] show thesis .
  next
    case (shrunk d s1)
    have sh: "\<forall>j i. j \<noteq> d \<longrightarrow> pagusr_table s1 j i = ?t j i" by (simp add: shrunk(8))
    have low: "\<not> 511 - a < i" if "i < 284" "a \<le> 228" for a i :: nat using that by linarith
    have "\<forall>i<PAG_LOG_INIT_DATA + NUM_PAG_DATA. pagusr_table s1 d i = ?t d i"
      using low [OF _ shrunk(3)] by (simp add: shrunk(8))
    from that [OF shrunk(1) shrunk(5) [unfolded shape [OF shrunk(6) sh]] this] show thesis .
  qed
qed

text \<open>C13: \<^verbatim>\<open>sbrk\<close> always returns and keeps both invariants; in particular the heap never reaches the
  data pages, whatever the increment, and no task is left with a heap of more than 228 pages. Apart
  from the map of the frames and the counters of their sharers it changes the \<^verbatim>\<open>heap_top\<close> of the
  caller, no other field and no other task, and of all page tables the caller's only, above its
  data pages.\<close>

theorem sbrk_safe:
  assumes "kinv s v" "mem_ok s" "idle_task s \<noteq> Some (current s)"
  shows "\<exists>r s' d T m c h. sys_sbrk increment s = Some (r, s') \<and> kinv s' v \<and> mem_ok s' \<and>
     get_PT s (current s) = Some d \<and> heap_pages h \<le> MAX_HEAP_PAGES \<and>
     s' = s\<lparr>pagusr_table := (pagusr_table s)(d := T), phys_mem := m, cow_count_mem := c,
            tasks := (tasks s)(current s := (tasks s (current s))\<lparr>heap_top := h\<rparr>)\<rparr> \<and>
     (\<forall>i<PAG_LOG_INIT_DATA + NUM_PAG_DATA. T i = pagusr_table s d i)"
proof -
  obtain r d T m c h where f: "get_PT s (current s) = Some d"
    "sys_sbrk increment s = Some (r, s\<lparr>pagusr_table := (pagusr_table s)(d := T), phys_mem := m, cow_count_mem := c,
       tasks := (tasks s)(current s := (tasks s (current s))\<lparr>heap_top := h\<rparr>)\<rparr>)" (is "_ = Some (_, ?s)")
    "\<forall>i<PAG_LOG_INIT_DATA + NUM_PAG_DATA. T i = pagusr_table s d i"
    by (rule sbrk_frame [OF assms])
  have r: "kinv ?s v" "mem_ok ?s" using sys_sbrk_safe [OF assms, of increment] f(2) by simp_all
  have "heap_fits (heap_top (tasks ?s (current ?s)))" by (rule current_space [OF r])
  then have "heap_pages h \<le> MAX_HEAP_PAGES" by (simp add: heap_fits_pages)
  with f r show ?thesis by blast
qed

theorem sbrk_safe_witness:
  "\<exists>r s'. sys_sbrk 0x80000000 boot_state = Some (r, s') \<and> heap_pages (heap_top (tasks s' 1)) \<le> MAX_HEAP_PAGES"
proof -
  obtain r s' d T m c h where "sys_sbrk 0x80000000 boot_state = Some (r, s')" "heap_pages h \<le> MAX_HEAP_PAGES"
      "s' = boot_state\<lparr>pagusr_table := (pagusr_table boot_state)(d := T), phys_mem := m, cow_count_mem := c,
            tasks := (tasks boot_state)(current boot_state := (tasks boot_state (current boot_state))\<lparr>heap_top := h\<rparr>)\<rparr>"
    using sbrk_safe [OF boot_state(2,8), of "0x80000000"] boot_state(5,6) by (auto elim!: exE)
  then show ?thesis by (intro exI [of _ r] exI [of _ s']) (simp add: boot_state(5))
qed

text \<open>C12: what \<^verbatim>\<open>sbrk\<close> does with an increment that does not wrap: when the heap gains pages, either a
  mapped page is in the way, or frames are missing, and then the result is ENOMEM with the tables and
  the set of used frames as before; or the new pages, and no others, are mapped to distinct frames
  that were free, and the result is the first byte of the larger heap. When it gains none, the pages
  given up are unmapped and the result is the new \<^verbatim>\<open>heap_top\<close> itself.\<close>

theorem sbrk_spec:
  assumes "kinv s v" "mem_ok s" "idle_task s \<noteq> Some (current s)"
    and "increment \<noteq> 0" "HEAP_START < heap_top (tasks s (current s)) - increment \<longrightarrow> increment <s 0"
  defines "act \<equiv> heap_pages (heap_top (tasks s (current s)))"
    and "nh \<equiv> new_heap_top (heap_top (tasks s (current s))) increment"
  defines "new \<equiv> heap_pages nh"
  shows "\<exists>d s'. get_PT s (current s) = Some d \<and>
     (if act < new \<and> (heap_blocked s d act new \<or> card (frames.available s) < new - act)
      then sys_sbrk increment s = Some (- ENOMEM, s') \<and> tasks s' = tasks s \<and>
        pagusr_table s' = pagusr_table s \<and> frame_used s' = frame_used s
      else if act < new
      then sys_sbrk increment s = Some (nh + 1, s') \<and> heap_top (tasks s' (current s)) = nh \<and>
        (\<exists>fs. length fs = new - act \<and> distinct fs \<and> (\<forall>f\<in>set fs. f \<in> frame_pool \<and> \<not> frame_used s f) \<and>
           pagusr_table s' = heap_tables d act fs s)
      else sys_sbrk increment s = Some (nh, s') \<and> heap_top (tasks s' (current s)) = nh \<and>
        pagusr_table s' = (\<lambda>j i. if j = d \<and> PAG_LOG_INIT_HEAP - act < i \<and> i \<le> PAG_LOG_INIT_HEAP - new then 0
                                else pagusr_table s j i))"
proof (rule sys_sbrk_ok [OF assms(1-5), folded act_def nh_def, folded new_def])
  fix d assume "get_PT s (current s) = Some d" "act < new" "heap_blocked s d act new"
    "sys_sbrk increment s = Some (- ENOMEM, s)"
  then show ?thesis by simp
next
  fix d s' assume "get_PT s (current s) = Some d" "act < new" "card (frames.available s) < new - act"
    "sys_sbrk increment s = Some (- ENOMEM, s')" "mm_only s s'" "pagusr_table s' = pagusr_table s"
    "frame_used s' = frame_used s"
  then show ?thesis using mm_only_fields by auto
next
  fix d fs s1 assume a: "get_PT s (current s) = Some d" "act < new" "\<not> heap_blocked s d act new"
    "new - act \<le> card (frames.available s)" "sys_sbrk increment s = Some (nh + 1, set_heap_top nh s1)" "mm_only s s1"
    "pagusr_table s1 = heap_tables d act fs s" "length fs = new - act" "distinct fs"
    "\<forall>f\<in>set fs. f \<in> frame_pool \<and> \<not> frame_used s f \<and> frame_owned s1 f"
  have c: "current s1 = current s" using mm_only_fields [OF a(6)] by simp
  show ?thesis
    by (rule exI [of _ d], rule exI [of _ "set_heap_top nh s1"]) (use a c in \<open>auto simp: set_heap_top_def\<close>)
next
  fix d s1 assume a: "get_PT s (current s) = Some d" "new \<le> act" "sys_sbrk increment s = Some (nh, set_heap_top nh s1)"
    "mm_only s s1"
    "pagusr_table s1 = (\<lambda>j i. if j = d \<and> PAG_LOG_INIT_HEAP - act < i \<and> i \<le> PAG_LOG_INIT_HEAP - new then 0
                            else pagusr_table s j i)"
  have c: "current s1 = current s" using mm_only_fields [OF a(4)] by simp
  show ?thesis
    by (rule exI [of _ d], rule exI [of _ "set_heap_top nh s1"]) (use a c in \<open>simp add: set_heap_top_def\<close>)
qed

text \<open>With \<^verbatim>\<open>sbrk(-1)\<close> on an empty heap the result is clamped to \<^verbatim>\<open>HEAP_START\<close> and no page changes.\<close>

theorem sbrk_spec_witness:
  "\<exists>s'. sys_sbrk 0xFFFFFFFF boot_state = Some (HEAP_START, s') \<and> heap_top (tasks s' 1) = HEAP_START \<and>
     pagusr_table s' = pagusr_table boot_state"
proof -
  have h: "heap_pages HEAP_START = 0" "new_heap_top HEAP_START 0xFFFFFFFF = HEAP_START"
    by (simp_all add: heap_pages_def new_heap_top_def)
  have "HEAP_START < heap_top (tasks boot_state (current boot_state)) - 0xFFFFFFFF \<longrightarrow> (0xFFFFFFFF :: dword) <s 0"
    by (simp add: word_sless_alt)
  moreover have "(if j = d \<and> 511 < i \<and> i \<le> 511 then 0 else x) = x" for j d i :: nat and x :: page_table_entry
    by auto
  ultimately show ?thesis
    using sbrk_spec [OF boot_state(2,8), of "0xFFFFFFFF"] h boot_state(5,6,11) by auto
qed

end
