(* ===== verification/Kernel_Properties.thy ===== *)
theory Kernel_Properties
  imports Kernel_Reach Process_Properties
begin

text \<open>
  The properties of the kernel as a whole: what holds in every state it reaches, the protection of
  its memory and the return of its interrupts.
\<close>

section \<open>User accesses\<close>

lemma unat_drop_22: "unat (drop_bit 22 va :: dword) = unat va div 2 ^ 22"
  using unat_lt_32 [of va] by (simp only: unsigned_drop_bit_eq) (simp add: drop_bit_eq_div take_bit_nat_eq_self)

lemma low_address:
  assumes "unat (drop_bit 22 va :: dword) = 0"
  obtains pg off where "pg < TOTAL_PAGES" "off < PAGE_SIZE" "va = of_nat (pg * PAGE_SIZE + off)"
proof
  have "unat va < 2 ^ 22" using assms unfolding unat_drop_22 by (simp add: div_eq_0_iff)
  then show "unat va div PAGE_SIZE < TOTAL_PAGES" by simp
  show "unat va mod PAGE_SIZE < PAGE_SIZE" by simp
  have "va = of_nat (unat va)" by simp
  also have "unat va = unat va div PAGE_SIZE * PAGE_SIZE + unat va mod PAGE_SIZE" by simp
  finally show "va = of_nat (unat va div PAGE_SIZE * PAGE_SIZE + unat va mod PAGE_SIZE)" .
qed

lemma kernel_row_user:
  "kernel_row p tb \<Longrightarrow> i < NUM_PAG_KERNEL \<Longrightarrow> \<not> pte_user (tb i)"
  by (simp add: kernel_row_def Let_def kernel_pte_def)

lemma user_access:
  assumes safe: "ksafe s v" and acc: "user_allowed s w va"
  obtains pg off f where "va = of_nat (pg * PAGE_SIZE + off)" "NUM_PAG_KERNEL \<le> pg" "pg < TOTAL_PAGES" "off < PAGE_SIZE"
    "translate s va = Some (of_nat (f * PAGE_SIZE + off))" "f \<in> frame_pool"
proof -
  have inv: "kinv s v" and mem: "mem_ok s" and fr: "frames_ok s" using safe by (simp_all add: ksafe_def protected_def)
  obtain d where d: "cr3 s = Some (d * TOTAL_PAGES)" "d < NR_TASKS" by (rule current_space [OF inv mem])
  have k: "kmap_ok s" using mem by (simp add: mem_ok_def)
  have "unat (drop_bit 22 va) = 0"
  proof (rule ccontr)
    assume i: "unat (drop_bit 22 va) \<noteq> 0"
    have "unat (drop_bit 22 va) < TOTAL_PAGES"
      using unat_lt_32 [of va] unfolding unat_drop_22 by simp
    with i have "(d * TOTAL_PAGES + unat (drop_bit 22 va)) mod TOTAL_PAGES \<noteq> 0" by simp
    then have "dir_pages s (d * TOTAL_PAGES + unat (drop_bit 22 va)) = 0" using k unfolding kmap_ok_def by blast
    then have "table_entry s va = None" by (simp add: table_entry_def dir_entry_def d(1))
    then show False using acc by (simp add: user_allowed_def split: option.splits)
  qed
  then obtain pg off where va: "pg < TOTAL_PAGES" "off < PAGE_SIZE" "va = of_nat (pg * PAGE_SIZE + off)"
    by (rule low_address)
  let ?e = "pagusr_table s d pg"
  have e: "pte_present ?e" "pte_user ?e"
    using acc mem_translate(2) [OF mem d va(1,2), of w] by (simp_all add: va(3) Let_def del: of_nat_add of_nat_mult)
  obtain p where "kernel_row p (pagusr_table s d)" using k d(2) by (auto simp: kmap_ok_def)
  then have pg: "NUM_PAG_KERNEL \<le> pg" using kernel_row_user e(2) not_le by blast
  have "translate s va = Some (of_nat (unat (pte_pbase_addr ?e) * PAGE_SIZE + off))"
    using mem_translate(1) [OF mem d va(1,2)] e(1) by (simp add: va(3) del: of_nat_add of_nat_mult)
  moreover have "unat (pte_pbase_addr ?e) \<in> frame_pool" by (rule frames_okD(2) [OF fr d(2) pg va(1) e(1)])
  ultimately show ?thesis using that va pg by blast
qed

lemma frame_pool_page:
  assumes "f \<in> frame_pool" "off < PAGE_SIZE"
  shows "unat (of_nat (f * PAGE_SIZE + off) :: dword) div PAGE_SIZE = f"
proof -
  have "f < TOTAL_PAGES" using assms(1) by (simp add: frame_pool_def)
  then show ?thesis using address_parts(5) [of f off] assms(2) by simp
qed

lemma boot_reach: "kreach f boot_state"
  by (rule kreach.start [OF reset_ok boot_state(1)])

lemma shows_clock_id: "shows_clock (\<lambda>s. s)"
  by (simp add: shows_clock_def)

section \<open>Reachable states\<close>

text \<open>C2: in every state the kernel reaches from its initialisation, by system calls, page
  faults, stores, interrupts and continuations in any order, the invariants of the queues, the
  semaphores, the directories, the address spaces and the keyboard buffer hold, every task
  continues where its queue says, and every task but the idle and the current one is in
  exactly one queue, the one its \<^verbatim>\<open>state\<close> field names.\<close>

theorem reachable_invariant:
  assumes "kreach zeos_show_clock s" "shows_clock zeos_show_clock"
  shows "\<exists>v. ksafe s v \<and>
     (\<forall>t\<in>{..<NR_TASKS} - {the (idle_task s), current s}.
        \<exists>!n. \<exists>ts. v_queue v n = Some ts \<and> t \<in> set ts \<and> state (tasks s t) = tag_of n)"
proof -
  obtain v where safe: "ksafe s v" using kreach_ksafe [OF assms] by blast
  then have inv: "kinv s v" by (simp add: ksafe_def)
  obtain i where i: "idle_task s = Some i" "queues_ok s v {i, current s}" using inv by (rule kinvE)
  have "\<exists>!n. \<exists>ts. v_queue v n = Some ts \<and> t \<in> set ts \<and> state (tasks s t) = tag_of n"
    if t: "t \<in> {..<NR_TASKS} - {the (idle_task s), current s}" for t
  proof -
    have "t \<in> queued v" using t i(1) queues_okD(3) [OF i(2)] by auto
    then obtain n ts where n: "v_queue v n = Some ts" "t \<in> set ts" by (rule queuedE)
    then have "state (tasks s t) = tag_of n" using i(2) unfolding queues_ok_def by blast
    then show ?thesis using n queue_unique [OF queues_okD(1) [OF i(2)]] by blast
  qed
  with safe show ?thesis by blast
qed

theorem reachable_invariant_witness: "\<exists>v. ksafe boot_state v"
  using reachable_invariant [OF boot_reach [of "\<lambda>s. s"] shows_clock_id] by blast

text \<open>C3: the kernel's memory is protected: in every reachable state an address that user mode
  may access lies above the kernel's pages and translates to a frame of the user pool, so no
  store of user mode changes a byte of the kernel's first megabyte.\<close>

theorem memory_protection:
  assumes "kreach zeos_show_clock s" "shows_clock zeos_show_clock" "user_allowed s w va"
  shows "NUM_PAG_KERNEL \<le> unat va div PAGE_SIZE \<and>
    (\<exists>pa. translate s va = Some pa \<and> unat pa div PAGE_SIZE \<in> frame_pool \<and>
       (\<forall>x b. unat x div PAGE_SIZE < NUM_PAG_KERNEL \<longrightarrow> pmem (the (user_write s va b)) x = pmem s x \<or>
          user_write s va b = None))"
proof (intro conjI)
  obtain v where safe: "ksafe s v" using kreach_ksafe [OF assms(1,2)] by blast
  obtain pg off f where a: "va = of_nat (pg * PAGE_SIZE + off)" "NUM_PAG_KERNEL \<le> pg" "pg < TOTAL_PAGES" "off < PAGE_SIZE"
      "translate s va = Some (of_nat (f * PAGE_SIZE + off))" "f \<in> frame_pool"
    by (rule user_access [OF safe assms(3)])
  show "NUM_PAG_KERNEL \<le> unat va div PAGE_SIZE"
    using address_parts(5) [OF a(3,4)] a(2,4) unfolding a(1) by simp
  let ?pa = "of_nat (f * PAGE_SIZE + off) :: dword"
  have f: "unat ?pa div PAGE_SIZE = f" by (rule frame_pool_page [OF a(6,4)])
  have "x \<noteq> ?pa" if "unat x div PAGE_SIZE < NUM_PAG_KERNEL" for x
    using that f a(6) by (auto simp: frame_pool_def simp del: of_nat_add of_nat_mult)
  then show "\<exists>pa. translate s va = Some pa \<and> unat pa div PAGE_SIZE \<in> frame_pool \<and>
       (\<forall>x b. unat x div PAGE_SIZE < NUM_PAG_KERNEL \<longrightarrow> pmem (the (user_write s va b)) x = pmem s x \<or>
          user_write s va b = None)"
    using a(5,6) f by (intro exI [of _ ?pa]) (simp add: user_write_def write_byte_def del: of_nat_add of_nat_mult)
qed

lemma boot_booted: "booted reset_state boot_state"
  using boot_ok [OF reset_ok] by (auto simp: boot_state_def)

lemma boot_user_allowed: "user_allowed boot_state False 0x100000"
proof -
  obtain fs where b: "cr3 boot_state = Some (8 * TOTAL_PAGES)"
      "\<forall>k<28. pagusr_table boot_state 8 (USER_FIRST_PAGE + k) = user_pte (fs ! k) (NUM_PAG_CODE \<le> k)"
    using boot_booted by (auto simp: booted_def)
  have "pagusr_table boot_state 8 256 = user_pte (fs ! 0) False" using b(2) [rule_format, of 0] by simp
  then show ?thesis using mem_translate(2) [OF boot_state(8) b(1), of 256 0 False] by (simp add: Let_def)
qed

theorem memory_protection_witness: "\<exists>pa. translate boot_state 0x100000 = Some pa \<and> unat pa div PAGE_SIZE \<in> frame_pool"
  using memory_protection [OF boot_reach [of "\<lambda>s. s"] shows_clock_id boot_user_allowed] by blast

section \<open>Progress\<close>

lemma resume_returns:
  assumes "resumable (kpc s (current s))" "\<not> reading (kpc s (current s))"
  shows "\<exists>r s'. resume s = Some (r, s')"
proof -
  have u: "\<exists>s2. update_leaving_sys s1 = Some s2" for s1
    unfolding update_leaving_sys_def by (rule update_stats_returns) simp
  have call: "\<exists>r s'. finish_call (Some (Ret x, s1)) = Some (r, s')" for x s1
    using u [of s1] by (auto simp: finish_call_def leave_call_def)
  let ?s1 = "s\<lparr>kpc := (kpc s)(current s := running s (current s))\<rparr>"
  consider "kpc s (current s) = Irq_exit" | "kpc s (current s) = Fork_child" | "kpc s (current s) = Clone_child"
    | "kpc s (current s) = Sem_wait_exit"
    using assms by (auto simp: resumable_def)
  then show ?thesis
  proof cases
    case 1
    then show ?thesis using u [of ?s1] by (auto simp: resume_def Let_def)
  next
    case 2
    then show ?thesis using call [of 0 ?s1] by (auto simp: resume_def Let_def)
  next
    case 3
    then show ?thesis using u [of ?s1] by (auto simp: resume_def Let_def)
  next
    case 4
    then show ?thesis using call [of "fst (sem_wait_exit ?s1)" "snd (sem_wait_exit ?s1)"]
      by (auto simp: resume_def Let_def split_beta)
  qed
qed

text \<open>C6: the kernel does not hang: in every reachable state either user code or the idle loop
  runs, and then the clock and the keyboard interrupts are handled and return, whatever the key;
  or the current task has just been switched to and its continuation returns. The exception is
  a task that continues inside \<^verbatim>\<open>read\<close>, which may fault on a bad buffer.\<close>

theorem kernel_progress:
  assumes "kreach zeos_show_clock s" "shows_clock zeos_show_clock"
  shows "kpc s (current s) \<in> {User_mode, Idle_loop} \<and>
       (\<exists>s'. kernel_step zeos_show_clock Clock s = Some s') \<and>
       (\<forall>key. \<exists>s'. kernel_step zeos_show_clock (Key key) s = Some s') \<or>
     (\<exists>s'. kernel_step zeos_show_clock Continue s = Some s') \<or> reading (kpc s (current s))"
proof -
  obtain v where safe: "ksafe s v" using kreach_ksafe [OF assms] by blast
  then have ok: "kpc_ok s v" by (simp add: ksafe_def)
  have "kpc s (current s) \<in> {User_mode, Idle_loop} \<or> resumable (kpc s (current s))"
    using kpc_okD(4,5) [OF ok] by (cases "idle_task s = Some (current s)") auto
  moreover have "\<exists>s'. kernel_step zeos_show_clock Clock s = Some s'" "\<exists>s'. kernel_step zeos_show_clock (Key key) s = Some s'"
    if "kpc s (current s) \<in> {User_mode, Idle_loop}" for key
    using that clock_handler_returns [OF safe assms(2)] keyboard_handler_returns [OF safe, of key]
    by (auto simp: kernel_step_def Let_def)
  moreover have "\<exists>s'. kernel_step zeos_show_clock Continue s = Some s'"
    if "resumable (kpc s (current s))" "\<not> reading (kpc s (current s))"
    using resume_returns [OF that] by (auto simp: kernel_step_def)
  ultimately show ?thesis by blast
qed

theorem kernel_progress_witness: "\<exists>s'. kernel_step (\<lambda>s. s) Clock boot_state = Some s'"
proof -
  have k: "kpc boot_state (current boot_state) = User_mode" unfolding boot_state(5) by (rule boot_state(10))
  have "\<not> (\<exists>s'. kernel_step (\<lambda>s. s) Continue boot_state = Some s')" "\<not> reading (kpc boot_state (current boot_state))"
    by (simp_all add: kernel_step_def resume_def Let_def k)
  then show ?thesis using kernel_progress [OF boot_reach [of "\<lambda>s. s"] shows_clock_id] by blast
qed

end
