(* ===== verification/Fairness.thy ===== *)
theory Fairness
  imports Kernel_Properties
begin

text \<open>
  Fairness of the scheduler, over the steps of the kernel: the clock interrupt of the task in user
  mode and the return of a task that was switched to. The current task is always in the state
  \<^verbatim>\<open>ST_RUN\<close>, which the clock interrupt tests; a turn ends after the ticks of the quantum; and the
  ready tasks have their turns in the order of the queue.
\<close>

section \<open>The current task runs\<close>

definition runs :: "kstate \<Rightarrow> bool" where
  "runs s \<longleftrightarrow> state (tasks s (current s)) = ST_RUN"

lemma runs_fields: "current s' = current s \<Longrightarrow> tasks s' = tasks s \<Longrightarrow> runs s' = runs s"
  by (simp add: runs_def)

lemma runs_stats: "update_stats t e s = Some s' \<Longrightarrow> runs s' = runs s"
  by (drule update_stats_only) (simp add: runs_def only_stats_fields)

lemma runs_console: "console_only s s' \<Longrightarrow> runs s' = runs s"
  by (elim console_onlyE) (simp add: runs_def)

lemma runs_taken: "taken_only s s' \<Longrightarrow> runs s' = runs s"
  by (elim taken_onlyE) (simp add: runs_def)

text \<open>Whoever is switched to has been taken out of its queue.\<close>

lemma runs_task_switch: "state (tasks s t) = ST_RUN \<Longrightarrow> runs (task_switch k t s)"
  by (auto simp: runs_def task_switch_def inner_task_switch_def change_context_def Let_def get_ebp_def upd_task_def
      update_TSS_def set_cr3_def)

lemma update_process_state_runs: "update_process_state t None b s = Some s' \<Longrightarrow> state (tasks s' t) = ST_RUN"
  by (auto simp: update_process_state_def bind_eq_Some_conv upd_task_def)

lemma sched_next_runs:
  assumes "sched_next_rr k s = Some s'"
  shows "runs s'" "current_ticks s' = 0"
proof -
  obtain t s1 s2 s3 where s: "update_process_state t None False s = Some s1" "update_stats t READY_TO_SYS s1 = Some s2"
      "update_stats t CURRENT_TICKS_UPDATED (s2\<lparr>current_ticks := 0\<rparr>) = Some s3" "s' = task_switch k t s3"
    using assms by (auto simp: sched_next_rr_def update_process_state_rr_def bind_eq_Some_conv)
  note f = only_stats_fields [OF update_stats_only [OF s(2)]] only_stats_fields [OF update_stats_only [OF s(3)]]
  show "runs s'" unfolding s(4) by (rule runs_task_switch) (simp add: f update_process_state_runs [OF s(1)])
  show "current_ticks s' = 0"
    using f(6,33) by (simp add: s(4) task_switch_def inner_task_switch_def change_context_def Let_def get_ebp_def upd_task_def
        update_TSS_def set_cr3_def)
qed

section \<open>System calls\<close>

lemma runs_block: "block_in_read k first s = Some s' \<Longrightarrow> runs s'"
  using sched_next_runs(1) by (auto simp: block_in_read_def bind_eq_Some_conv)

lemma runs_exit: "sys_exit s = Some s' \<Longrightarrow> runs s'"
  using sched_next_runs(1) by (auto simp: sys_exit_def bind_eq_Some_conv)

lemma runs_sem_wait: "runs s \<Longrightarrow> sys_sem_wait w s = Some (r, s') \<Longrightarrow> runs s'"
  using sched_next_runs(1)
  by (auto simp: sys_sem_wait_def bind_eq_Some_conv runs_def split: option.splits if_splits)

lemma runs_sem_init: "runs s \<Longrightarrow> sys_sem_init w x s = Some (r, s') \<Longrightarrow> runs s'"
  by (auto simp: sys_sem_init_def bind_eq_Some_conv runs_def on_links_Some split: option.splits if_splits)

text \<open>The tasks that are woken are not the current one.\<close>

lemma runs_sem_signal:
  assumes safe: "ksafe s v" and run: "sys_sem_signal w s = Some (r, s')" and r: "runs s"
  shows "runs s'"
proof (cases "\<exists>n. sem_index w = Some n \<and> used (semaphores s n) \<noteq> 0")
  case False
  then have "s' = s" using run by (auto simp: sys_sem_signal_def split: option.splits if_splits)
  with r show ?thesis by simp
next
  case True
  then obtain n where n: "w = of_nat n" "n < NR_SEMAPHORES" "used (semaphores s n) \<noteq> 0" by (auto simp: sem_index_Some)
  have inv: "kinv s v" using safe by (simp add: ksafe_def)
  obtain us where us: "v_blocked v n = Some us" by (rule blocked_exists [OF inv n(2,3)])
  show ?thesis
  proof (cases us)
    case Nil
    with sys_sem_signal_counts [OF inv n(2,3)] us run n(1) r show ?thesis by (auto simp: runs_def upd_sem_def)
  next
    case (Cons t ts)
    have "t \<noteq> current s" using us Cons not_waiting_current [OF inv] by (force simp: waiting_def)
    with sys_sem_signal_wakes [OF inv n(2,3), of t ts] us Cons run n(1) r show ?thesis
      by (auto simp: runs_def ctrl_frame_def)
  qed
qed

lemma runs_sem_destroy:
  assumes safe: "ksafe s v" and run: "sys_sem_destroy w s = Some (r, s')" and r: "runs s"
  shows "runs s'"
proof (cases "\<exists>n o'. sem_index w = Some n \<and> used (semaphores s n) \<noteq> 0 \<and> owner (semaphores s n) = Some o' \<and>
    PID (tasks s (current s)) = PID (tasks s o')")
  case False
  then have "s' = s" using run by (auto simp: sys_sem_destroy_def bind_eq_Some_conv split: option.splits if_splits)
  with r show ?thesis by simp
next
  case True
  then obtain n o' where n: "w = of_nat n" "n < NR_SEMAPHORES" "used (semaphores s n) \<noteq> 0"
      "owner (semaphores s n) = Some o'" "PID (tasks s (current s)) = PID (tasks s o')"
    by (auto simp: sem_index_Some)
  have inv: "kinv s v" using safe by (simp add: ksafe_def)
  obtain us where us: "v_blocked v n = Some us" by (rule blocked_exists [OF inv n(2,3)])
  have "current s \<notin> set us" using us not_waiting_current [OF inv] by (force simp: waiting_def)
  with sys_sem_destroy_ok [OF inv n(2-5)] run n(1) us r show ?thesis
    by (auto simp: wake_frame_def ctrl_frame_def runs_def upd_sem_def)
qed

lemma runs_child:
  "\<lbrakk>\<And>u. u \<noteq> t \<Longrightarrow> tasks s' u = tasks s u; t \<noteq> current s; ctrl_frame (s\<lparr>kpc := k\<rparr>) s'; runs s\<rbrakk> \<Longrightarrow> runs s'"
  by (simp add: runs_def ctrl_frame_def)

lemma runs_fork:
  assumes safe: "ksafe s v" and user: "idle_task s \<noteq> Some (current s)" and run: "sys_fork s = Some (r, s')" and r: "runs s"
  shows "runs s'"
proof (cases "v_free v")
  case Nil
  then show ?thesis using sys_fork_none [of s v] safe run r by (simp add: ksafe_def)
next
  case (Cons t ts)
  obtain s1 where "sys_fork s = Some (last_PID s, s1)" "ctrl_frame (s\<lparr>kpc := (kpc s)(t := Fork_child)\<rparr>) s1"
      "\<forall>u. u \<noteq> t \<longrightarrow> tasks s1 u = tasks s u" "t \<noteq> current s"
    by (rule sys_fork_ok [of s v, OF _ _ user Cons]) (use safe in \<open>simp_all add: ksafe_def\<close>)
  with runs_child [of t s1 s] run r show ?thesis by auto
qed

lemma runs_clone:
  assumes safe: "ksafe s v" and user: "idle_task s \<noteq> Some (current s)" and run: "sys_clone fn stack ex s = Some (r, s')" and r: "runs s"
  shows "runs s'"
proof (cases "access_ok VERIFY_WRITE fn 4 s \<and> access_ok VERIFY_WRITE stack 4 s \<and> v_free v \<noteq> []")
  case False
  then show ?thesis using sys_clone_errors [where s = s and fn = fn and stack = stack and exit_func = ex] run safe r
    by (auto simp: ksafe_def)
next
  case True
  then obtain t ts where free: "v_free v = t # ts" and acc: "access_ok VERIFY_WRITE fn 4 s" "access_ok VERIFY_WRITE stack 4 s"
    by (cases "v_free v") auto
  have inv: "kinv s v" and mem: "mem_ok s" using safe by (simp_all add: ksafe_def)
  show ?thesis
  proof (cases rule: sys_clone_cases [OF inv mem user free acc, of ex])
    case (1 s1)
    then have "runs s1" using r by (intro runs_child [of t s1 s]) auto
    with 1(2) run show ?thesis by simp
  qed (use run in simp)
qed

lemma runs_sbrk:
  assumes safe: "ksafe s v" and user: "idle_task s \<noteq> Some (current s)" and run: "sys_sbrk x s = Some (r, s')"
  shows "runs s' = runs s"
  by (rule sbrk_frame [of s v x, OF _ _ user]) (use safe run in \<open>auto simp: ksafe_def runs_def\<close>)

lemma runs_get_stats: "sys_get_stats pid p s = Some (r, s') \<Longrightarrow> runs s' = runs s"
proof -
  assume "sys_get_stats pid p s = Some (r, s')"
  then have "s' = s \<or> (\<exists>t s1 m. (s1 = s \<or> only_stats t s s1) \<and> s' = s1\<lparr>pmem := m\<rparr>)"
    using get_stats_from_frame [of 0 NR_TASKS pid p s r s'] by (auto simp: sys_get_stats_def split: if_splits)
  then show ?thesis by (auto simp: runs_def only_stats_fields)
qed

lemma runs_read_loop: "sys_read_keyboard_loop b m n s = Some (r, s') \<Longrightarrow> runs s \<Longrightarrow> runs s'"
  using runs_block by (auto simp: sys_read_keyboard_loop_def bind_eq_Some_conv split: if_splits)

lemma runs_read_then_loop:
  assumes "do { (k, s) \<leftarrow> read_from_keyboard_buffer b x s; sys_read_keyboard_loop buffer (m - k) n s } = Some (r, s')" "runs s"
  shows "runs s'"
proof -
  obtain k s1 where s1: "read_from_keyboard_buffer b x s = Some (k, s1)" "sys_read_keyboard_loop buffer (m - k) n s1 = Some (r, s')"
    using assms(1) by (auto simp: bind_eq_Some_conv)
  have "runs s1" using runs_taken [OF read_from_keyboard_buffer_taken [OF s1(1)]] assms(2) by simp
  with runs_read_loop [OF s1(2)] show ?thesis .
qed

lemma runs_read: "sys_read fd b n s = Some (r, s') \<Longrightarrow> runs s \<Longrightarrow> runs s'"
  using runs_block runs_read_then_loop [of b n s b n n r s']
  by (auto simp: sys_read_def sys_read_keyboard_def sys_read_keyboard_first_def Let_def bind_eq_Some_conv split: if_splits)

lemma runs_table:
  assumes safe: "ksafe s v" and user: "idle_task s \<noteq> Some (current s)"
    and run: "sys_call_table n ebx ecx edx loc s = Some (r, s')" and r: "runs s"
  shows "runs s'"
proof -
  have "sys_exit s = Some s' \<or> (\<exists>x. sys_fork s = Some (x, s')) \<or> (\<exists>x. sys_write ebx ecx edx loc s = Some (x, s')) \<or>
      sys_read ebx ecx edx s = Some (r, s') \<or> (\<exists>x. sys_clone ebx ecx edx s = Some (x, s')) \<or>
      (\<exists>x. sys_sem_init ebx ecx s = Some (x, s')) \<or> sys_sem_wait ebx s = Some (r, s') \<or>
      (\<exists>x. sys_sem_signal ebx s = Some (x, s')) \<or> (\<exists>x. sys_sem_destroy ebx s = Some (x, s')) \<or>
      (\<exists>x. sys_sbrk ebx s = Some (x, s')) \<or> (\<exists>x. sys_get_stats ebx ecx s = Some (x, s')) \<or> s' = s"
    using run by (auto simp: sys_call_table_def returning_def split: if_splits)
  moreover have "runs s'" if "sys_write ebx ecx edx loc s = Some (x, s')" for x
    using runs_console [OF sys_write_only [OF that]] r by simp
  ultimately show ?thesis
    using runs_exit runs_fork [OF safe user _ r] runs_read [OF _ r] runs_clone [OF safe user _ r] runs_sem_init [OF r]
      runs_sem_wait [OF r] runs_sem_signal [OF safe _ r] runs_sem_destroy [OF safe _ r] runs_sbrk [OF safe user]
      runs_get_stats r
    by (elim disjE exE) auto
qed

section \<open>Every step\<close>

lemma runs_leave: "leave_call x s = Some (r, s') \<Longrightarrow> runs s' = runs s"
  using runs_stats by (auto simp: leave_call_def update_leaving_sys_def bind_eq_Some_conv split: sysret.splits)

lemma runs_finish: "finish_call x = Some (r, s') \<Longrightarrow> (\<And>y s2. x = Some (y, s2) \<Longrightarrow> runs s2) \<Longrightarrow> runs s'"
  using runs_leave by (auto simp: finish_call_def bind_eq_Some_conv)

lemma runs_irq:
  assumes run: "irq_handler f s = Some s'" and routine: "\<And>s s'. f s = Some s' \<Longrightarrow> runs s \<Longrightarrow> runs s'" and r: "runs s"
  shows "runs s'"
proof -
  obtain s1 s2 where s: "update_entering_sys s = Some s1" "f s1 = Some s2" "s' = s2 \<or> update_leaving_sys s2 = Some s'"
    using run by (auto simp: irq_handler_def bind_eq_Some_conv split: if_splits)
  have "runs s1" using s(1) r runs_stats by (simp add: update_entering_sys_def)
  with routine [OF s(2)] s(3) runs_stats show ?thesis by (auto simp: update_leaving_sys_def)
qed

lemma runs_tick [simp]: "runs (tick s) = runs s"
  using tick_fields(7) [of s] by (simp add: runs_def tick_def upd_st_def upd_task_def Let_def)

lemma runs_execute_scheduling: "execute_scheduling s = Some s' \<Longrightarrow> runs s \<Longrightarrow> runs s'"
  using sched_next_runs(1) runs_tick
  by (auto simp: execute_scheduling_def update_sched_data_rr_tick bind_eq_Some_conv split: if_splits)

lemma runs_clock: "shows_clock f \<Longrightarrow> clock_routine f s = Some s' \<Longrightarrow> runs s \<Longrightarrow> runs s'"
  using runs_execute_scheduling runs_console [of "s\<lparr>zeos_ticks := zeos_ticks s + 1\<rparr>"]
  by (auto simp: clock_routine_def shows_clock_def runs_def split: if_splits)

lemma runs_keyboard:
  assumes run: "keyboard_routine b s = Some s'" and r: "runs s"
  shows "runs s'"
proof -
  have push: "runs s1 = runs s" if "buffer_push k s = Some s1" for k s1
    using that by (auto simp: buffer_push_def bind_eq_Some_conv runs_def split: if_splits)
  have wake: "runs s2" if "wake_reader s1 = Some s2" for s1 s2
    using that sched_next_runs(1) by (auto simp: wake_reader_def bind_eq_Some_conv split: if_splits)
  from run consider "s' = s" | k s1 where "buffer_push k s = Some s1" "s' = s1 \<or> s' = s1\<lparr>remaining_to_read := remaining_to_read s1 - 1\<rparr> \<or>
      wake_reader (s1\<lparr>remaining_to_read := remaining_to_read s1 - 1\<rparr>) = Some s'"
    by (auto simp: keyboard_routine_def Let_def bind_eq_Some_conv split: if_splits)
  then show ?thesis
  proof cases
    case 2
    then show ?thesis using push [OF 2(1)] wake r by (auto simp: runs_def)
  qed (use r in simp)
qed

lemma runs_resume:
  assumes run: "resume s = Some (r, s')" and r: "runs s"
  shows "runs s'"
proof -
  let ?s1 = "s\<lparr>kpc := (kpc s)(current s := running s (current s))\<rparr>"
  have r1: "runs ?s1" using r by (simp add: runs_def)
  have wait: "runs (snd (sem_wait_exit ?s1))" using r by (simp add: sem_wait_exit_def runs_def upd_task_def)
  consider "update_leaving_sys ?s1 = Some s'" | x s2 where "finish_call (Some (x, s2)) = Some (r, s')" "runs s2"
    | b n where "finish_call (sys_read_keyboard_first b n ?s1) = Some (r, s')"
    | b m n where "finish_call (sys_read_keyboard_more b m n ?s1) = Some (r, s')"
    using run r1 wait by (auto simp: resume_def Let_def bind_eq_Some_conv split_beta split: kcont.splits)
  then show ?thesis
  proof cases
    case 1
    then show ?thesis using runs_stats r1 by (simp add: update_leaving_sys_def)
  next
    case 2
    then show ?thesis using runs_finish by blast
  next
    case 3
    then show ?thesis
      by (rule runs_finish) (use r1 runs_read_then_loop in \<open>auto simp: sys_read_keyboard_first_def\<close>)
  next
    case 4
    then show ?thesis
      by (rule runs_finish) (use r1 runs_read_then_loop in \<open>auto simp: sys_read_keyboard_more_def\<close>)
  qed
qed

lemma runs_step:
  assumes safe: "ksafe s v" and clk: "shows_clock f" and run: "kernel_step f e s = Some s'" and r: "runs s"
  shows "runs s'"
proof (cases e)
  case (Syscall eax ebx ecx edx loc)
  then obtain x where x: "kpc s (current s) = User_mode" "system_call_handler eax ebx ecx edx loc s = Some (x, s')"
    using run by (auto simp: kernel_step_def Let_def split: if_splits)
  show ?thesis
  proof (cases "eax <s 0 \<or> MAX_SYSCALL <=s eax")
    case True
    then show ?thesis using x(2) r by (auto simp: system_call_handler_def)
  next
    case False
    then obtain s1 s2 y where s1: "update_stats (current s) USER_TO_SYS s = Some s1"
        "sys_call_table (unat eax) ebx ecx edx loc s1 = Some (y, s2)" "leave_call y s2 = Some (x, s')"
      using x(2) by (auto simp: system_call_handler_def update_entering_sys_def bind_eq_Some_conv)
    have "idle_task s1 \<noteq> Some (current s1)"
      using ksafe_user [OF safe x(1)] by (simp add: only_stats_fields [OF update_stats_only [OF s1(1)]])
    then have "runs s2"
      by (rule runs_table [OF ksafe_update_stats [OF safe s1(1)] _ s1(2)]) (use runs_stats [OF s1(1)] r in simp)
    then show ?thesis using runs_leave [OF s1(3)] by simp
  qed
next
  case (Page_fault address)
  then have run': "pf_rsi address s = Some s'" using run by (auto simp: kernel_step_def pf_handler_def Let_def split: if_splits)
  have ok: "kinv s v" "mem_ok s" using safe by (simp_all add: ksafe_def)
  obtain m p c T where "s' = s\<lparr>pmem := m, phys_mem := p, cow_count_mem := c, pagusr_table := T\<rparr>"
    by (rule pf_rsi_shape [OF ok run']) (erule that)
  with r show ?thesis by (simp add: runs_def)
next
  case (User_store address b)
  then have "write_byte s address b = Some s'" using run by (auto simp: kernel_step_def user_write_def Let_def split: if_splits)
  from write_byte_frame [OF this] r show ?thesis by (auto simp: runs_def)
next
  case Clock
  then have "irq_handler (clock_routine f) s = Some s'" using run by (auto simp: kernel_step_def clock_handler_def Let_def split: if_splits)
  then show ?thesis by (rule runs_irq [OF _ runs_clock [OF clk] r])
next
  case (Key b)
  then have "irq_handler (keyboard_routine b) s = Some s'" using run by (auto simp: kernel_step_def keyboard_handler_def Let_def split: if_splits)
  then show ?thesis by (rule runs_irq [OF _ runs_keyboard r])
next
  case Continue
  then show ?thesis using run runs_resume r by (auto simp: kernel_step_def)
qed

lemma kreach_runs:
  assumes "kreach f s" "shows_clock f"
  shows "runs s"
  using assms
proof (induction rule: kreach.induct)
  case (start s s')
  obtain s1 where "boot s = Some s1" "current s1 = 1" "state (tasks s1 1) = ST_RUN"
    using boot_ok [OF start(1,2)] by blast
  with start(3) show ?case by (simp add: runs_def)
next
  case (step s s')
  from kreach_ksafe [OF step(1) step(4)] obtain v where "ksafe s v" ..
  with step show ?case using runs_step by (auto elim!: kstepE)
qed

section \<open>A run of the kernel under clock ticks\<close>

text \<open>
  A run in which the tasks make no calls: a task in user mode, or the idle loop, is interrupted by
  the clock; a task that was switched to continues. The result lists, tick by tick, the task that
  was interrupted.
\<close>

definition next_event :: "kstate \<Rightarrow> kevent" where
  "next_event s = (if kpc s (current s) = User_mode \<or> kpc s (current s) = Idle_loop then Clock else Continue)"

fun clock_run :: "(kstate \<Rightarrow> kstate) \<Rightarrow> nat \<Rightarrow> kstate \<Rightarrow> (nat list \<times> kstate) option" where
  "clock_run f 0 s = Some ([], s)"
| "clock_run f (Suc n) s =
     do { s1 \<leftarrow> kernel_step f (next_event s) s;
          (us, s2) \<leftarrow> clock_run f n s1;
          Some (if next_event s = Clock then current s # us else us, s2) }"

lemma clock_run_add:
  "clock_run f n s = Some (us, s1) \<Longrightarrow> clock_run f m s1 = Some (ws, s2) \<Longrightarrow> clock_run f (n + m) s = Some (us @ ws, s2)"
  by (induction n arbitrary: s us) (auto simp: bind_eq_Some_conv)

text \<open>The ticks of a turn: those left to the current task, and those of a task that starts its turn.\<close>

definition ticks_to_go :: "dword \<Rightarrow> dword \<Rightarrow> nat" where
  "ticks_to_go q c = Suc (nat (sint (q - (c + 1))))"

definition turn :: "kstate \<Rightarrow> nat" where
  "turn s = (if idle_task s = Some (current s) then 1 else ticks_to_go (quantum (tasks s (current s))) (current_ticks s))"

text \<open>What a step within a turn leaves as it is.\<close>

definition turn_same :: "kstate \<Rightarrow> kstate \<Rightarrow> bool" where
  "turn_same s s' \<longleftrightarrow> idle_task s' = idle_task s \<and> (\<forall>u. quantum (tasks s' u) = quantum (tasks s u)) \<and>
     (\<forall>u. u \<noteq> current s \<longrightarrow> kpc s' u = kpc s u)"

lemma turn_same_trans: "turn_same s s1 \<Longrightarrow> current s1 = current s \<Longrightarrow> turn_same s1 s2 \<Longrightarrow> turn_same s s2"
  by (simp add: turn_same_def)

lemma stats_same:
  assumes "update_stats t e s = Some s'"
  shows "turn_same s s'" "current s' = current s" "kpc s' = kpc s" "current_ticks s' = current_ticks s"
  using only_stats_fields [OF update_stats_only [OF assms]] by (simp_all add: turn_same_def)

lemma ready_stays:
  assumes "kinv s v"
  shows "needs_sched_rr (tick s) \<longleftrightarrow> (idle_task s = Some (current s) \<and> v_ready v \<noteq> []) \<or>
     nat (sint (quantum (tasks s (current s)) - (current_ticks s + 1))) = 0"
  unfolding needs_sched_tick [OF assms] by simp

text \<open>A clock interrupt within the turn, and the one that ends it.\<close>

lemma clock_enters:
  assumes safe: "ksafe s v" and clk: "shows_clock f" and r: "runs s" and k: "kpc s (current s) = User_mode \<or> kpc s (current s) = Idle_loop"
  obtains s2 where "ksafe s2 v" "current s2 = current s" "kpc s2 = kpc s" "current_ticks s2 = current_ticks s" "turn_same s s2"
    "kernel_step f Clock s = do { s3 \<leftarrow> execute_scheduling s2;
       if kpc s3 (current s) = kpc s (current s) then update_leaving_sys s3 else Some s3 }"
proof -
  obtain s1 where s1: "update_stats (current s) USER_TO_SYS s = Some s1" using update_stats_returns by blast
  note same = stats_same [OF s1]
  let ?s = "s1\<lparr>zeos_ticks := zeos_ticks s1 + 1\<rparr>"
  have c: "console_only ?s (f ?s)" using clk by (simp add: shows_clock_def)
  then have f: "current (f ?s) = current s" "kpc (f ?s) = kpc s" "current_ticks (f ?s) = current_ticks s" "turn_same s (f ?s)"
    using same by (auto elim!: console_onlyE simp: turn_same_def)
  have "runs s1" using runs_stats [OF s1] r by simp
  then have "clock_routine f s1 = execute_scheduling (f ?s)" by (simp add: clock_routine_def runs_def)
  then have "kernel_step f Clock s = do { s3 \<leftarrow> execute_scheduling (f ?s);
       if kpc s3 (current s) = kpc s (current s) then update_leaving_sys s3 else Some s3 }"
    using k s1 by (auto simp: kernel_step_def clock_handler_def irq_handler_def update_entering_sys_def Let_def)
  moreover have "ksafe (f ?s) v" by (rule ksafe_console [OF ksafe_upd(2) [OF ksafe_update_stats [OF safe s1]] c])
  ultimately show thesis using that f by blast
qed

lemma turn_over:
  assumes "kinv s2 v" "current s2 = current s" "current_ticks s2 = current_ticks s" "turn_same s s2" "v_ready v \<noteq> []"
  shows "needs_sched_rr (tick s2) \<longleftrightarrow> turn s = 1"
  using ready_stays [OF assms(1)] assms(2-5) by (auto simp: turn_def ticks_to_go_def turn_same_def)

lemma clock_in_turn:
  assumes safe: "ksafe s v" and clk: "shows_clock f" and r: "runs s" and ready: "v_ready v \<noteq> []"
    and k: "kpc s (current s) = User_mode \<or> kpc s (current s) = Idle_loop" and more: "turn s \<noteq> 1"
  obtains s' where "kernel_step f Clock s = Some s'" "ksafe s' v" "current s' = current s" "kpc s' = kpc s"
    "current_ticks s' = current_ticks s + 1" "turn_same s s'"
proof (rule clock_enters [OF safe clk r k])
  fix s2
  assume s2: "ksafe s2 v" "current s2 = current s" "kpc s2 = kpc s" "current_ticks s2 = current_ticks s" "turn_same s s2"
    and step: "kernel_step f Clock s = do { s3 \<leftarrow> execute_scheduling s2;
       if kpc s3 (current s) = kpc s (current s) then update_leaving_sys s3 else Some s3 }"
  have inv: "kinv s2 v" using s2(1) by (simp add: ksafe_def)
  have "\<not> needs_sched_rr (tick s2)" using turn_over [OF inv s2(2,4,5) ready] more by simp
  from execute_scheduling_stays [OF inv this] have ex: "execute_scheduling s2 = Some (tick s2)" by simp
  obtain s' where s': "update_stats (current s2) SYS_TO_USER (tick s2) = Some s'" using update_stats_returns by blast
  note same = stats_same [OF s']
  have "kernel_step f Clock s = Some s'" using step ex s' s2(2,3) by (simp add: update_leaving_sys_def)
  moreover have "ksafe s' v" by (rule ksafe_update_stats [OF ksafe_tick [OF s2(1)] s'])
  moreover have "turn_same s s'"
    using s2(2,3,5) same tick_fields(7) [of s2] by (simp add: turn_same_def sched_frame_def task_kept_def)
  ultimately show thesis using that s2(2-4) same by simp
qed

lemma clock_ends_turn:
  assumes safe: "ksafe s v" and clk: "shows_clock f" and r: "runs s" and ready: "v_ready v = t # ts"
    and k: "kpc s (current s) = User_mode \<or> kpc s (current s) = Idle_loop" and last: "turn s = 1"
  obtains s' where "kernel_step f Clock s = Some s'" "current s' = t" "current_ticks s' = 0" "turn_same s s'"
    "ksafe s' (v\<lparr>v_ready := ts @ (if idle_task s = Some (current s) then [] else [current s])\<rparr>)"
proof (rule clock_enters [OF safe clk r k])
  fix s2
  assume s2: "ksafe s2 v" "current s2 = current s" "kpc s2 = kpc s" "current_ticks s2 = current_ticks s" "turn_same s s2"
    and step: "kernel_step f Clock s = do { s3 \<leftarrow> execute_scheduling s2;
       if kpc s3 (current s) = kpc s (current s) then update_leaving_sys s3 else Some s3 }"
  have inv: "kinv s2 v" using s2(1) by (simp add: ksafe_def)
  have need: "needs_sched_rr (tick s2)" using turn_over [OF inv s2(2,4,5)] last ready by simp
  have idle: "idle_task s2 = idle_task s" using s2(5) by (simp add: turn_same_def)
  obtain s' where s': "execute_scheduling s2 = Some s'" "sched_frame s2 s'" "current s' = t" "kpc s' = (kpc s2)(current s := Irq_exit)"
      "ksafe s' (v\<lparr>v_ready := ts @ (if idle_task s = Some (current s) then [] else [current s])\<rparr>)"
    by (rule ksafe_switch [OF s2(1) need, unfolded idle s2(2)]) (simp_all add: ready split: if_splits)
  have "kernel_step f Clock s = Some s'" using step s'(1,4) s2(2) k by auto
  moreover have "current_ticks s' = 0"
    using s'(1) need sched_next_runs(2) by (auto simp: execute_scheduling_def update_sched_data_rr_tick bind_eq_Some_conv)
  moreover have "turn_same s s'"
    using s'(2,4) s2(2,3,5) by (simp add: turn_same_def sched_frame_def task_kept_def)
  ultimately show thesis using that s'(3,5) by blast
qed

text \<open>A task that was switched to returns to user mode, or to the idle loop.\<close>

lemma continue_in_turn:
  assumes safe: "ksafe s v" and k: "resumable (kpc s (current s))" "\<not> reading (kpc s (current s))"
  obtains s' where "kernel_step f Continue s = Some s'" "ksafe s' v" "current s' = current s" "current_ticks s' = current_ticks s"
    "turn_same s s'" "kpc s' (current s) = running s (current s)"
proof -
  let ?s1 = "s\<lparr>kpc := (kpc s)(current s := running s (current s))\<rparr>"
  have safe1: "ksafe ?s1 v" by (rule ksafe_resume_point [OF safe])
  obtain s2 where s2: "ksafe s2 v" "current s2 = current s" "kpc s2 = kpc ?s1" "current_ticks s2 = current_ticks s" "turn_same s s2"
    and step: "kernel_step f Continue s = update_leaving_sys s2"
  proof (cases "kpc s (current s) = Sem_wait_exit")
    case True
    obtain x s2 where x: "sem_wait_exit ?s1 = (x, s2)" by fastforce
    then have f: "s2 = ?s1 \<or> s2 = upd_task (current s) (\<lambda>k. k\<lparr>sem_deleted := 0\<rparr>) ?s1" by (auto simp: sem_wait_exit_def split: if_splits)
    have "kernel_step f Continue s = update_leaving_sys s2"
      using True x by (cases "update_leaving_sys s2")
        (simp_all add: kernel_step_def resume_def Let_def finish_call_def leave_call_def)
    then show ?thesis by (rule that [OF ksafe_sem_wait_exit [OF safe1 x], rotated -1]) (use f in \<open>auto simp: turn_same_def\<close>)
  next
    case False
    have "kernel_step f Continue s = update_leaving_sys ?s1"
      using k False by (cases "update_leaving_sys ?s1")
        (auto simp: kernel_step_def resume_def Let_def finish_call_def leave_call_def resumable_def)
    then show ?thesis by (rule that [OF safe1, rotated -1]) (simp_all add: turn_same_def)
  qed
  obtain s' where s': "update_stats (current s2) SYS_TO_USER s2 = Some s'" using update_stats_returns by blast
  note same = stats_same [OF s']
  show thesis
  proof (rule that [of s'])
    show "kernel_step f Continue s = Some s'" using step s' by (simp add: update_leaving_sys_def)
    show "ksafe s' v" by (rule ksafe_update_stats [OF s2(1) s'])
    show "turn_same s s'" by (rule turn_same_trans [OF s2(5,2) same(1)])
  qed (use s2 same in simp_all)
qed

section \<open>Turns\<close>

lemma sint_minus_one:
  assumes "0 < sint (x :: dword)"
  shows "sint (x - 1) = sint x - 1"
proof -
  have n: "sint x = int (unat x)" using sint_nonneg_unat [of x] assms by simp
  have "sint x < 2 ^ 31" using sint_lt [of x] by simp
  then have "int (unat x) < int (2 ^ 31)" unfolding n by (simp only: of_nat_power of_nat_numeral)
  then have small: "unat x < 2 ^ 31" by (simp only: of_nat_less_iff)
  have "0 < unat x" using assms unfolding n by (simp only: of_nat_0_less_iff)
  then have "x - 1 = of_nat (unat x - 1)" by (simp add: of_nat_diff)
  moreover have "sint (of_nat (unat x - 1) :: dword) = int (unat x - 1)" by (rule sint_of_nat_small(1)) (use small in simp)
  ultimately show ?thesis unfolding n using \<open>0 < unat x\<close> by (simp only: of_nat_diff)
qed

lemma turn_cong:
  "turn_same s s' \<Longrightarrow> current s' = current s \<Longrightarrow> current_ticks s' = current_ticks s \<Longrightarrow> turn s' = turn s"
  by (simp add: turn_def turn_same_def)

lemma turn_counts_down:
  assumes "turn_same s s'" "current s' = current s" "current_ticks s' = current_ticks s + 1" "turn s \<noteq> 1"
  shows "turn s = Suc (turn s')"
proof -
  let ?left = "quantum (tasks s (current s)) - (current_ticks s + 1)"
  have pos: "0 < sint ?left" and idle: "idle_task s \<noteq> Some (current s)"
    using assms(4) by (auto simp: turn_def ticks_to_go_def split: if_splits)
  have left: "quantum (tasks s (current s)) - (current_ticks s + 1 + 1) = ?left - 1" by simp
  have "turn s' = Suc (nat (sint (quantum (tasks s (current s)) - (current_ticks s' + 1))))"
    using assms(1,2) idle by (simp add: turn_def turn_same_def ticks_to_go_def)
  also have "\<dots> = Suc (nat (sint (?left - 1)))" unfolding assms(3) left ..
  also have "\<dots> = nat (sint ?left)" unfolding sint_minus_one [OF pos] using pos by simp
  finally show ?thesis using idle by (simp add: turn_def ticks_to_go_def)
qed

text \<open>In user mode: the ticks of the turn, then the head of the queue is current.\<close>

lemma turn_ends:
  assumes "ksafe s v" "shows_clock f" "runs s" "v_ready v = t # ts"
    and "kpc s (current s) = User_mode \<or> kpc s (current s) = Idle_loop"
  shows "\<exists>s'. clock_run f (turn s) s = Some (replicate (turn s) (current s), s') \<and> current s' = t \<and> current_ticks s' = 0 \<and>
     turn_same s s' \<and> ksafe s' (v\<lparr>v_ready := ts @ (if idle_task s = Some (current s) then [] else [current s])\<rparr>)"
  using assms
proof (induction "turn s" arbitrary: s rule: less_induct)
  case less
  have ev: "next_event s = Clock" using less.prems(5) by (simp add: next_event_def)
  have ne: "v_ready v \<noteq> []" using less.prems(4) by simp
  show ?case
  proof (cases "turn s = 1")
    case True
    show ?thesis
      by (rule clock_ends_turn [OF less.prems(1-5) True])
        (simp add: True ev clock_run.simps(2) [of f 0, simplified One_nat_def [symmetric]])
  next
    case False
    obtain s1 where s1: "kernel_step f Clock s = Some s1" "ksafe s1 v" "current s1 = current s" "kpc s1 = kpc s"
        "current_ticks s1 = current_ticks s + 1" "turn_same s s1"
      by (rule clock_in_turn [OF less.prems(1-3) ne less.prems(5) False])
    have n: "turn s = Suc (turn s1)" by (rule turn_counts_down [OF s1(6,3,5) False])
    have idle: "idle_task s1 = idle_task s" using s1(6) by (simp add: turn_same_def)
    obtain s' where s': "clock_run f (turn s1) s1 = Some (replicate (turn s1) (current s), s')" "current s' = t"
        "current_ticks s' = 0" "turn_same s1 s'"
        "ksafe s' (v\<lparr>v_ready := ts @ (if idle_task s = Some (current s) then [] else [current s])\<rparr>)"
      using less.hyps [of s1] n s1(2,4) less.prems(2,4,5) runs_step [OF less.prems(1,2) s1(1) less.prems(3)]
      unfolding s1(3) idle by auto
    show ?thesis
      by (rule exI [of _ s']) (use s' s1(1) turn_same_trans [OF s1(6,3) s'(4)] in \<open>simp add: n ev\<close>)
  qed
qed

text \<open>From the moment a task is switched to.\<close>

lemma whole_turn:
  assumes safe: "ksafe s v" and clk: "shows_clock f" and r: "runs s" and ready: "v_ready v = t # ts"
    and read: "\<not> reading (kpc s (current s))"
  shows "\<exists>n s'. clock_run f n s = Some (replicate (turn s) (current s), s') \<and> current s' = t \<and> current_ticks s' = 0 \<and>
     turn_same s s' \<and> runs s' \<and> ksafe s' (v\<lparr>v_ready := ts @ (if idle_task s = Some (current s) then [] else [current s])\<rparr>)"
proof -
  have ok: "kpc_ok s v" using safe by (simp add: ksafe_def)
  have each: "clock_run f n s0 = Some (us, s') \<Longrightarrow> ksafe s0 w \<Longrightarrow> runs s0 \<Longrightarrow> runs s'" for n s0 us s' w
  proof (induction n arbitrary: s0 us w)
    case (Suc n)
    then obtain s1 ws where s1: "kernel_step f (next_event s0) s0 = Some s1" "clock_run f n s1 = Some (ws, s')"
      by (auto simp: bind_eq_Some_conv)
    from ksafe_step [OF Suc.prems(2) clk s1(1)] runs_step [OF Suc.prems(2) clk s1(1) Suc.prems(3)] Suc.IH [OF s1(2)]
    show ?case by blast
  qed simp
  show ?thesis
  proof (cases "kpc s (current s) = User_mode \<or> kpc s (current s) = Idle_loop")
    case True
    from turn_ends [OF safe clk r ready True] each [OF _ safe r] show ?thesis by blast
  next
    case False
    then have k: "resumable (kpc s (current s))" using kpc_okD(4,5) [OF ok] by (cases "idle_task s = Some (current s)") auto
    obtain s1 where s1: "kernel_step f Continue s = Some s1" "ksafe s1 v" "current s1 = current s" "current_ticks s1 = current_ticks s"
        "turn_same s s1" "kpc s1 (current s) = running s (current s)"
      by (rule continue_in_turn [OF safe k read])
    have "kpc s1 (current s1) = User_mode \<or> kpc s1 (current s1) = Idle_loop" using s1(3,6) by (simp add: running_def)
    have idle: "idle_task s1 = idle_task s" using s1(5) by (simp add: turn_same_def)
    from turn_ends [OF s1(2) clk runs_step [OF safe clk s1(1) r] ready \<open>kpc s1 (current s1) = User_mode \<or> _\<close>]
    obtain s' where s': "clock_run f (turn s) s1 = Some (replicate (turn s) (current s), s')" "current s' = t" "current_ticks s' = 0"
        "turn_same s1 s'" "ksafe s' (v\<lparr>v_ready := ts @ (if idle_task s = Some (current s) then [] else [current s])\<rparr>)"
      unfolding turn_cong [OF s1(5,3,4)] s1(3) idle by auto
    have "clock_run f (Suc (turn s)) s = Some (replicate (turn s) (current s), s')"
      using s1(1) s'(1) False by (simp add: next_event_def)
    with each [OF this safe r] s' turn_same_trans [OF s1(5,3) s'(4)] show ?thesis by blast
  qed
qed

section \<open>Fairness\<close>

text \<open>The ticks of a turn of task \<open>u\<close>: its quantum, and one tick when that is not positive.\<close>

definition turn_of :: "kstate \<Rightarrow> nat \<Rightarrow> nat" where
  "turn_of s u = ticks_to_go (quantum (tasks s u)) 0"

lemma turns_pass:
  assumes "ksafe s v" "shows_clock f" "runs s" "v_ready v = before @ t # after"
    and "\<forall>u\<in>set (current s # before). \<not> reading (kpc s u)"
  shows "\<exists>n s' v'. clock_run f n s =
       Some (replicate (turn s) (current s) @ concat (map (\<lambda>u. replicate (turn_of s u) u) before), s') \<and>
     current s' = t \<and> state (tasks s' t) = ST_RUN \<and> ksafe s' v' \<and>
     v_ready v' = after @ (if idle_task s = Some (current s) then [] else [current s]) @ before"
  using assms
proof (induction before arbitrary: s v after)
  case Nil
  then have ready: "v_ready v = t # after" and read: "\<not> reading (kpc s (current s))" by simp_all
  from whole_turn [OF Nil(1-3) ready read] show ?case by (fastforce simp: runs_def)
next
  case (Cons u before)
  let ?rest = "if idle_task s = Some (current s) then [] else [current s]"
  have ready: "v_ready v = u # (before @ t # after)" and read: "\<not> reading (kpc s (current s))" using Cons.prems(4,5) by simp_all
  obtain n s1 where s1: "clock_run f n s = Some (replicate (turn s) (current s), s1)" "current s1 = u" "current_ticks s1 = 0"
      "turn_same s s1" "runs s1" "ksafe s1 (v\<lparr>v_ready := (before @ t # after) @ ?rest\<rparr>)"
    using whole_turn [OF Cons.prems(1-3) ready read] by blast
  have inv: "kinv s v" "kinv s1 (v\<lparr>v_ready := (before @ t # after) @ ?rest\<rparr>)" using Cons.prems(1) s1(6) by (simp_all add: ksafe_def)
  have notin: "u \<notin> set before" "u \<notin> set ?rest" "u \<notin> set (before @ t # after)"
    using not_waiting_current [OF inv(2)] unfolding s1(2) waiting_def by auto
  have c: "current s \<notin> set (before @ t # after)" "current s \<noteq> u"
    using not_waiting_current [OF inv(1)] ready by (auto simp: waiting_def)
  have idle: "idle_task s1 = idle_task s" "idle_task s \<noteq> Some u"
    using s1(4) idle_not_queued [OF inv(1)] waiting_queued waitingI(1) [of u v] ready by (auto simp: turn_same_def)
  have q: "quantum (tasks s1 w) = quantum (tasks s w)" for w using s1(4) by (simp add: turn_same_def)
  have same: "turn_of s1 w = turn_of s w" for w by (simp add: turn_of_def q)
  have t1: "turn s1 = turn_of s u" by (simp add: turn_def turn_of_def s1(2,3) q idle)
  have "kpc s1 w = kpc s w" if "w \<in> set (u # before)" for w
  proof -
    have "w \<noteq> current s" using that c by auto
    then show ?thesis using s1(4) by (simp add: turn_same_def)
  qed
  then have "\<forall>w\<in>set (current s1 # before). \<not> reading (kpc s1 w)" using Cons.prems(5) by (simp add: s1(2))
  from Cons.IH [OF s1(6) Cons.prems(2) s1(5) _ this, of "after @ ?rest"] obtain m s' v' where s':
      "clock_run f m s1 = Some (replicate (turn_of s u) u @ concat (map (\<lambda>u. replicate (turn_of s u) u) before), s')"
      "current s' = t" "state (tasks s' t) = ST_RUN" "ksafe s' v'" "v_ready v' = (after @ ?rest) @ [u] @ before"
    by (auto simp: s1(2) idle t1 same)
  from clock_run_add [OF s1(1) s'(1)] s'(2-5) show ?case by (intro exI [of _ "n + m"] exI [of _ s'] exI [of _ v']) simp
qed

text \<open>C5: the scheduler starves nobody. In a reachable state let \<open>t\<close> be ready behind the tasks
  \<open>before\<close>, let none of these nor the current task be about to continue inside \<^verbatim>\<open>read\<close> (where it may
  block or fault), and let them run without making calls. Then after finitely many clock interrupts
  and returns to user mode \<open>t\<close> is the running task: the interrupts have hit the current task for the
  rest of its quantum (the idle task once), then each of the tasks before \<open>t\<close>, in the order of the
  queue, for its whole quantum; and they all are in the queue again, in that order.\<close>

theorem scheduler_fair:
  assumes "kreach zeos_show_clock s" "shows_clock zeos_show_clock" "ksafe s v" "v_ready v = before @ t # after"
    and "\<forall>u\<in>set (current s # before). \<not> reading (kpc s u)"
  shows "\<exists>n s' v'. clock_run zeos_show_clock n s =
       Some (replicate (turn s) (current s) @ concat (map (\<lambda>u. replicate (turn_of s u) u) before), s') \<and>
     current s' = t \<and> state (tasks s' t) = ST_RUN \<and> ksafe s' v' \<and>
     v_ready v' = after @ (if idle_task s = Some (current s) then [] else [current s]) @ before"
  by (rule turns_pass [OF assms(3,2) kreach_runs [OF assms(1,2)] assms(4,5)])

text \<open>Task 1 has forked task 2.\<close>

lemma forked_state:
  obtains s v where "kreach f s" "ksafe s v" "v_ready v = [2]" "current s = 1" "kpc s 1 = User_mode" "idle_task s = Some 0"
    "kpc s 2 = Fork_child"
proof -
  note b = boot_state
  have safe: "ksafe boot_state boot_view" by (rule ksafe_boot [OF reset_ok b(1)])
  obtain s1 where s1: "update_stats (current boot_state) USER_TO_SYS boot_state = Some s1" using update_stats_returns by blast
  note f1 = only_stats_fields [OF update_stats_only [OF s1]]
  have safe1: "ksafe s1 boot_view" by (rule ksafe_update_stats [OF safe s1])
  have inv: "kinv s1 boot_view" "mem_ok s1" using safe1 by (simp_all add: ksafe_def)
  have user: "idle_task s1 \<noteq> Some (current s1)" by (simp add: f1 b)
  have free: "v_free boot_view = 2 # [3..<10]" by (simp add: boot_view_def upt_rec)
  obtain ds s2 where s2: "sys_fork s1 = Some (last_PID s1, s2)" "kinv s2 (child_view 2 [3..<10] ds boot_view)"
      "ctrl_frame (s1\<lparr>kpc := (kpc s1)(2 := Fork_child)\<rparr>) s2" "idle_task s2 = idle_task s1" "mem_ok s2" "kbd_same s1 s2"
      "idle_task s1 \<noteq> Some 2"
    by (rule sys_fork_ok [OF inv user free]) blast
  have k2: "current s2 = 1" "kpc s2 = (kpc s1)(2 := Fork_child)" "idle_task s2 = Some 0"
    using s2(3,4) by (simp_all add: ctrl_frame_def f1 b)
  have "kpc_ok s2 (child_view 2 [3..<10] ds boot_view)"
    by (rule kpc_ok_child [OF _ inv(1) free, of Fork_child]) (use safe1 s2 k2 in \<open>simp_all add: ksafe_def f1 b\<close>)
  moreover have "protected s2" by (rule protected_fork [OF _ inv user free s2(1)]) (use safe1 in \<open>simp add: ksafe_def\<close>)
  ultimately have safe2: "ksafe s2 (child_view 2 [3..<10] ds boot_view)"
    using s2 safe1 buffer_wf_kbd by (auto simp: ksafe_def)
  obtain s3 where s3: "update_stats (current s2) SYS_TO_USER s2 = Some s3" using update_stats_returns by blast
  note f3 = only_stats_fields [OF update_stats_only [OF s3]]
  have user0: "kpc boot_state (current boot_state) = User_mode" unfolding b(5) by (rule b(10))
  have "kernel_step f (Syscall 2 0 0 0 []) boot_state = Some s3"
    using s1 s2(1) s3 by (simp add: kernel_step_def system_call_handler_def update_entering_sys_def update_leaving_sys_def
        leave_call_def sys_call_table_def returning_def user0 word_sless_alt word_sle_eq)
  then have "kreach f s3" using kreach.step [OF boot_reach kstep] by blast
  moreover have "ksafe s3 (child_view 2 [3..<10] ds boot_view)" by (rule ksafe_update_stats [OF safe2 s3])
  ultimately show thesis by (rule that) (simp_all add: child_view_def boot_view_def f3 k2 f1 b b(10) [unfolded One_nat_def])
qed

theorem scheduler_fair_witness: "\<exists>n s us s'. clock_run (\<lambda>s. s) n s = Some (us, s') \<and> current s = 1 \<and> 1 \<in> set us \<and> current s' = 2"
proof (rule forked_state [of "\<lambda>s. s"])
  fix s v assume s: "kreach (\<lambda>s. s) s" "ksafe s v" "v_ready v = [2]" "current s = 1" "kpc s 1 = User_mode" "idle_task s = Some 0"
    "kpc s 2 = Fork_child"
  have "turn s \<noteq> 0" using s(4,6) by (simp add: turn_def ticks_to_go_def)
  with scheduler_fair [OF s(1) shows_clock_id s(2), of "[]" 2 "[]"] s(3-5) show ?thesis by fastforce
qed

end
