(* ===== verification/Component_Properties.thy ===== *)
theory Component_Properties
  imports Syscall_Proofs Process_Properties
begin

text \<open>
  Properties of single components: the linked lists, the reservation of frames, the division behind the tick
  counter, the statistics and the check of pointers.
\<close>

section \<open>Linked lists\<close>

text \<open>C30: the operations of \<^verbatim>\<open>list.c\<close> on a heap of list heads refine the operations on sequences:
  \<^verbatim>\<open>list_add\<close> is cons, \<^verbatim>\<open>list_add_tail\<close> is append, \<^verbatim>\<open>list_del\<close> removes the element wherever it is,
  \<^verbatim>\<open>list_empty\<close> and \<^verbatim>\<open>list_first\<close> are the test and the head; none meets a NULL pointer and none
  changes another list.\<close>

theorem lists_refine_sequences:
  assumes "lists_ok h F" "F l = Some xs"
  shows "(n \<notin> members F \<longrightarrow>
       (\<exists>h'. list_add n l h = Some h' \<and> lists_ok h' (F(l \<mapsto> n # xs))) \<and>
       (\<exists>h'. list_add_tail n l h = Some h' \<and> lists_ok h' (F(l \<mapsto> xs @ [n])))) \<and>
     (n \<in> set xs \<longrightarrow> (\<exists>h'. list_del n h = Some h' \<and> lists_ok h' (F(l \<mapsto> remove1 n xs)))) \<and>
     (list_empty l h \<longleftrightarrow> xs = []) \<and> list_first l h = Some (if xs = [] then l else hd xs)"
  using zlist.add_law [OF assms] zlist.add_tail_law [OF assms] zlist.del_law [OF assms]
    zlist.empty_law [OF assms] zlist.first_law [OF assms] by blast

lemma boot_lists: "lists_ok (links boot_state) (heads boot_view)"
proof -
  obtain i where "queues_ok boot_state boot_view {i, current boot_state}" using boot_state(2) by (rule kinvE)
  then show ?thesis by (rule queues_okD(1))
qed

theorem lists_refine_sequences_witness:
  "list_first Free_queue (links boot_state) = Some (Task_anchor 2) \<and>
   (\<exists>h'. list_del (Task_anchor 5) (links boot_state) = Some h')"
proof -
  have "heads boot_view Free_queue = Some (map Task_anchor [2,3,4,5,6,7,8,9])" by (simp add: heads_def boot_view_def upt_rec)
  from lists_refine_sequences [OF boot_lists this, of "Task_anchor 5"] show ?thesis by auto
qed

text \<open>A visitor that unlinks every node it is given and notes it.\<close>

definition drain :: "'n \<Rightarrow> 'n links \<times> 'n list \<Rightarrow> ('n links \<times> 'n list) option" where
  "drain n s = do { h \<leftarrow> list_del n (fst s); Some (h, snd s @ [n]) }"

text \<open>C31: \<^verbatim>\<open>list_for_each_safe\<close> terminates although its body unlinks the node it is given: with as
  much fuel as the list has nodes the loop ends, has visited every node once and in order, and
  leaves the list empty.\<close>

theorem list_for_each_safe_terminates:
  assumes "lists_ok h F" "F l = Some xs" "length xs \<le> fuel"
  shows "\<exists>h'. list_for_each_safe fuel l fst drain (h, []) = Some (h', xs) \<and> lists_ok h' (F(l \<mapsto> []))"
proof -
  let ?I = "\<lambda>ys s. lists_ok (fst s) (F(l \<mapsto> ys)) \<and> snd s @ ys = xs"
  have "\<exists>s'. list_for_each_safe_from fuel l fst drain (Some (if xs = [] then l else hd xs)) (h, []) = Some s' \<and> ?I [] s'"
  proof (rule for_each_safe_from)
    fix y ys and s :: "'a links \<times> 'a list"
    assume I: "?I (y # ys) s"
    then have "lists_ok (fst s) (F(l \<mapsto> y # ys))" by blast
    from zlist.del_law [OF this, of l "y # ys" y] I show "\<exists>s'. drain y s = Some s' \<and> ?I ys s'"
      by (auto simp: drain_def)
  next
    fix y ys and s :: "'a links \<times> 'a list"
    assume I: "?I (y # ys) s"
    then have "ring (fst s) l ([] @ y # ys)" using lists_okD(1) [of "fst s" "F(l \<mapsto> y # ys)" l "y # ys"] by simp
    from ring_next_at [OF this] this show "y \<noteq> l \<and> next_ptr (fst s y) = Some (if ys = [] then l else hd ys)"
      by (auto simp: ring_def hd_append_single)
  qed (use assms in \<open>simp_all add: fun_upd_idem\<close>)
  moreover have "next_ptr (h l) = Some (if xs = [] then l else hd xs)"
    using zlist.first_law [OF assms(1,2)] by (simp add: list_first_def)
  ultimately show ?thesis by (auto simp: list_for_each_safe_def)
qed

theorem list_for_each_safe_terminates_witness:
  "\<exists>h'. list_for_each_safe 8 Free_queue fst drain (links boot_state, []) = Some (h', map Task_anchor [2,3,4,5,6,7,8,9])"
proof -
  have "heads boot_view Free_queue = Some (map Task_anchor [2,3,4,5,6,7,8,9])" by (simp add: heads_def boot_view_def upt_rec)
  from list_for_each_safe_terminates [OF boot_lists this, of 8] show ?thesis by auto
qed

section \<open>Frames\<close>

text \<open>Reserving frames for a heap is all or nothing: with at least \<open>n\<close> free frames in the pool
  it gives \<open>n\<close> different ones that were free and marks exactly those as used; with fewer it fails
  and leaves the frames in use as they were.\<close>

theorem reserve_all_or_nothing:
  "if n \<le> card {f \<in> frame_pool. \<not> frame_used s f}
   then \<exists>fs s'. reserve_frames alloc_frame free_frame n [] s = Some (Some fs, s') \<and> length fs = n \<and> distinct fs \<and>
          (\<forall>f\<in>set fs. f \<in> frame_pool - {f. frame_used s f}) \<and> frame_used s' = (\<lambda>f. frame_used s f \<or> f \<in> set fs)
   else \<exists>s'. reserve_frames alloc_frame free_frame n [] s = Some (None, s') \<and> frame_used s' = frame_used s"
  using frames.reserve_frames_ok [where n = n and s = s] unfolding frames.available_def by (auto simp: not_le)

theorem reserve_all_or_nothing_witness:
  "\<exists>fs s'. reserve_frames alloc_frame free_frame 2 [] reset_state = Some (Some fs, s') \<and> length fs = 2 \<and> distinct fs"
proof -
  have "{256, 258} \<subseteq> {f \<in> frame_pool. \<not> frame_used reset_state f}"
    by (simp add: frame_pool_def frame_used_def reset_state_def)
  moreover have "finite {f \<in> frame_pool. \<not> frame_used reset_state f}"
    by (rule finite_subset [of _ "{..<TOTAL_PAGES}"]) (auto simp: frame_pool_def)
  ultimately have "2 \<le> card {f \<in> frame_pool. \<not> frame_used reset_state f}"
    using card_mono [of _ "{256, 258 :: nat}"] by fastforce
  then show ?thesis using reserve_all_or_nothing [of 2 reset_state] by auto
qed

section \<open>The tick counter\<close>

text \<open>C40: \<^verbatim>\<open>do_div\<close>, which divides a 64-bit by a 32-bit number with two 32-bit divisions, is 64-bit
  division: it traps exactly on a zero divisor and never on an overflow of the quotient.\<close>

theorem do_div_is_division:
  "do_div n base = (if base = 0 then None else Some (n div ucast base, ucast (n mod ucast base)))"
proof (cases "base = 0")
  case True
  then show ?thesis by (simp add: do_div_def divl_def Let_def)
qed (simp add: do_div_correct)

section \<open>Statistics\<close>

text \<open>No time is lost or charged twice: every event that charges time moves \<^verbatim>\<open>elapsed_total_ticks\<close> to
  the present and charges exactly the time that has passed to the user, system, ready or blocked
  ticks of that one task; nothing else of any task changes.\<close>

theorem update_stats_accounts:
  assumes "update_stats t e s = Some s'"
    and "e \<in> {USER_TO_SYS, SYS_TO_USER, SYS_TO_READY, READY_TO_SYS, SYS_TO_BLOCKED, BLOCKED_TO_READY, REFRESH}"
  shows "charged (st (tasks s' t)) - charged (st (tasks s t)) =
       elapsed_total_ticks (st (tasks s' t)) - elapsed_total_ticks (st (tasks s t)) \<and>
     elapsed_total_ticks (st (tasks s' t)) = ucast (rdtsc_value s (rdtsc_count s) div ucast CYCLESPERTICK) \<and>
     only_stats t s s'"
proof (intro conjI)
  let ?now = "ucast (rdtsc_value s (rdtsc_count s) div ucast CYCLESPERTICK) :: dword"
  let ?x = "st (tasks s t)"
  have "st (tasks s' t) \<in> (\<lambda>x. x\<lparr>elapsed_total_ticks := ?now\<rparr>) `
      {?x\<lparr>user_ticks := user_ticks ?x + (?now - elapsed_total_ticks ?x)\<rparr>,
       ?x\<lparr>system_ticks := system_ticks ?x + (?now - elapsed_total_ticks ?x)\<rparr>,
       ?x\<lparr>system_ticks := system_ticks ?x + (?now - elapsed_total_ticks ?x), remaining_ticks := quantum (tasks s t)\<rparr>,
       ?x\<lparr>ready_ticks := ready_ticks ?x + (?now - elapsed_total_ticks ?x), total_trans := total_trans ?x + 1\<rparr>,
       ?x\<lparr>ready_ticks := ready_ticks ?x + (?now - elapsed_total_ticks ?x)\<rparr>,
       ?x\<lparr>blocked_ticks := blocked_ticks ?x + (?now - elapsed_total_ticks ?x)\<rparr>}"
    using assms by (cases e) (auto simp: update_stats_def get_ticks_ok upd_st_eq Let_def split: if_splits)
  then show "charged (st (tasks s' t)) - charged ?x = elapsed_total_ticks (st (tasks s' t)) - elapsed_total_ticks ?x"
    "elapsed_total_ticks (st (tasks s' t)) = ?now"
    by (auto simp: charged_def)
qed (rule update_stats_only [OF assms(1)])

theorem update_stats_accounts_witness:
  "\<exists>s'. update_stats 1 USER_TO_SYS reset_state = Some s' \<and>
     charged (st (tasks s' 1)) = elapsed_total_ticks (st (tasks s' 1))"
proof -
  obtain s' where s': "update_stats 1 USER_TO_SYS reset_state = Some s'" using update_stats_returns by blast
  from update_stats_accounts [OF this] s' show ?thesis by (auto simp: reset_state_def charged_def)
qed

section \<open>Pointer checks\<close>

text \<open>C38: what \<^verbatim>\<open>access_ok\<close> lets through. An accepted address never lies in the kernel's pages nor
  above the heap's first page; but the check for writing is the check for reading, because its
  \<^verbatim>\<open>case\<close> falls through: it accepts the read-only code pages, and both accept the page behind the stack.\<close>

theorem access_ok_admits:
  assumes "heap_fits (heap_top (tasks s (current s)))"
  shows "access_ok VERIFY_WRITE addr sz s = access_ok VERIFY_READ addr sz s \<and>
    (access_ok type addr sz s \<longrightarrow> USER_FIRST_PAGE \<le> unat (drop_bit 12 addr) \<and> unat (drop_bit 12 addr) \<le> PAG_LOG_INIT_HEAP) \<and>
    access_ok VERIFY_WRITE L_USER_START 1 s \<and>
    access_ok type (of_nat ((USER_FIRST_PAGE + NUM_PAG_CODE + NUM_PAG_DATA) * PAGE_SIZE)) 1 s"
  using access_ok_same [of VERIFY_WRITE] access_ok_pages [OF _ assms] by (auto simp: access_ok_def)

theorem access_ok_admits_witness: "access_ok VERIFY_WRITE L_USER_START 1 boot_state"
proof -
  have "heap_fits (heap_top (tasks boot_state (current boot_state)))" unfolding boot_state(5,11) by simp
  from access_ok_admits [OF this] show ?thesis by blast
qed

end
