(* ===== verification/Console_Proofs.thy ===== *)
theory Console_Proofs
  imports Component_Properties
begin

text \<open>
  The console: where the driver writes, and what \<^verbatim>\<open>write\<close> sends to it. \<^verbatim>\<open>copy_from_user\<close> into the local
  array of \<^verbatim>\<open>sys_write\<close> is followed through both of its loops.
\<close>

section \<open>Copying into a local array\<close>

abbreviation (input) local_write :: "byte list \<Rightarrow> dword \<Rightarrow> byte \<Rightarrow> byte list option" where
  "local_write b a x \<equiv> (if unat a < length b then Some (b[unat a := x]) else None)"

lemma local_write_bytes:
  "k + length xs \<le> length b \<Longrightarrow> length b \<le> 256 \<Longrightarrow>
   write_bytes (\<lambda>b a x. local_write b a x) b (of_nat k) xs = Some (take k b @ xs @ drop (k + length xs) b)"
proof (induction xs arbitrary: k b)
  case (Cons x xs)
  have u: "unat (of_nat k :: dword) = k" by (rule sint_of_nat_small(2)) (use Cons.prems in simp)
  have k: "k < length b" using Cons.prems(1) by simp
  have "write_bytes (\<lambda>b a x. local_write b a x) (b[k := x]) (of_nat (Suc k)) xs =
      Some (take (Suc k) (b[k := x]) @ xs @ drop (Suc k + length xs) (b[k := x]))"
    by (rule Cons.IH) (use Cons.prems in simp_all)
  then show ?case using k u by (simp add: take_Suc_conv_app_nth add.commute)
qed simp

lemma local_read_bytes:
  "(\<And>i. i < n \<Longrightarrow> read_byte s (p + of_nat i) = Some (R i)) \<Longrightarrow>
   read_bytes (\<lambda>b a. read_byte s a) b p n = Some (map R [0..<n])"
proof (induction n arbitrary: p R)
  case (Suc n)
  have "read_bytes (\<lambda>b a. read_byte s a) b (p + 1) n = Some (map (\<lambda>i. R (Suc i)) [0..<n])"
  proof (rule Suc.IH)
    fix i assume "i < n"
    then show "read_byte s (p + 1 + of_nat i) = Some (R (Suc i))" using Suc.prems [of "Suc i"] by (simp add: algebra_simps)
  qed
  moreover have "[0..<Suc n] = 0 # map Suc [0..<n]" by (simp add: upt_conv_Cons map_Suc_upt del: upt_Suc)
  ultimately show ?case using Suc.prems [of 0] by (simp add: comp_def)
qed simp

text \<open>One move of \<open>m\<close> bytes, and what is left to do.\<close>

lemma local_move:
  assumes R: "\<And>i. i < m + n \<Longrightarrow> read_byte s (p + of_nat i) = Some (R i)"
    and k: "k + (m + n) \<le> length b" "length b \<le> 256"
  shows "do { bs \<leftarrow> read_bytes (\<lambda>b a. read_byte s a) b p m; write_bytes (\<lambda>b a x. local_write b a x) b (of_nat k) bs } =
      Some (take k b @ map R [0..<m] @ drop (k + m) b)"
    and "\<And>i. i < n \<Longrightarrow> read_byte s (p + of_nat m + of_nat i) = Some (R (m + i))"
proof -
  show "do { bs \<leftarrow> read_bytes (\<lambda>b a. read_byte s a) b p m; write_bytes (\<lambda>b a x. local_write b a x) b (of_nat k) bs } =
      Some (take k b @ map R [0..<m] @ drop (k + m) b)"
    using local_read_bytes [of m s p R b] R local_write_bytes [of k "map R [0..<m]" b] k by simp
  show "read_byte s (p + of_nat m + of_nat i) = Some (R (m + i))" if "i < n" for i
    using R [of "m + i"] that by (simp add: algebra_simps)
qed

lemma local_splice:
  assumes "k + (m + n) \<le> length b"
  shows "take (k + m) (take k b @ map R [0..<m] @ drop (k + m) b) @ map (\<lambda>i. R (m + i)) [0..<n] @
      drop (k + m + n) (take k b @ map R [0..<m] @ drop (k + m) b) = take k b @ map R [0..<m + n] @ drop (k + (m + n)) b"
proof -
  have "map R [0..<m + n] = map R [0..<m] @ map (\<lambda>i. R (m + i)) [0..<n]"
    by (rule nth_equalityI) (auto simp: nth_append)
  then show ?thesis using assms by (simp add: ac_simps)
qed

lemma local_single:
  "(\<And>i. i < n \<Longrightarrow> read_byte s (p + of_nat i) = Some (R i)) \<Longrightarrow> k + n \<le> length b \<Longrightarrow> length b \<le> 256 \<Longrightarrow>
   copy_single (\<lambda>b a. read_byte s a) (\<lambda>b a x. local_write b a x) p (of_nat k) (int n) b =
     Some (take k b @ map R [0..<n] @ drop (k + n) b)"
proof (induction n arbitrary: p k b R)
  case 0
  then show ?case by (simp add: copy_single_stop)
next
  case (Suc n)
  note mv = local_move [of 1 n s p R k b]
  let ?b = "take k b @ map R [0..<1] @ drop (k + 1) b"
  have "copy_single (\<lambda>b a. read_byte s a) (\<lambda>b a x. local_write b a x) p (of_nat k) (int (Suc n)) b =
      copy_single (\<lambda>b a. read_byte s a) (\<lambda>b a x. local_write b a x) (p + 1) (of_nat (k + 1)) (int n) ?b"
    using mv(1) Suc.prems by (auto simp: copy_single_step bind_eq_Some_conv add.commute)
  also have "\<dots> = Some (take (k + 1) ?b @ map (\<lambda>i. R (1 + i)) [0..<n] @ drop (k + 1 + n) ?b)"
    by (rule Suc.IH) (use mv(2) Suc.prems in auto)
  also have "\<dots> = Some (take k b @ map R [0..<1 + n] @ drop (k + (1 + n)) b)"
    by (subst local_splice) (use Suc.prems in auto)
  finally show ?case by simp
qed

lemma local_copy:
  "(\<And>i. i < n \<Longrightarrow> read_byte s (p + of_nat i) = Some (R i)) \<Longrightarrow> k + n \<le> length b \<Longrightarrow> length b \<le> 256 \<Longrightarrow>
   copy_loop (\<lambda>b a. read_byte s a) (\<lambda>b a x. local_write b a x) p (of_nat k) (int n) b =
     Some (take k b @ map R [0..<n] @ drop (k + n) b)"
proof (induction n arbitrary: p k b R rule: less_induct)
  case (less n)
  show ?case
  proof (cases "n \<le> 4")
    case True
    then show ?thesis using local_single [OF less.prems] by (simp add: copy_loop_def copy_dwords_stop)
  next
    case False
    then obtain m where n: "n = 4 + m" by (metis le_add_diff_inverse nat_le_linear)
    note mv = local_move [of 4 m s p R k b, folded n, OF less.prems]
    let ?b = "take k b @ map R [0..<4] @ drop (k + 4) b"
    have "copy_loop (\<lambda>b a. read_byte s a) (\<lambda>b a x. local_write b a x) p (of_nat k) (int n) b =
        copy_loop (\<lambda>b a. read_byte s a) (\<lambda>b a x. local_write b a x) (p + 4) (of_nat (k + 4)) (int m) ?b"
      using mv(1) n False by (auto simp: copy_loop_def copy_dwords_step bind_eq_Some_conv algebra_simps)
    also have "\<dots> = Some (take (k + 4) ?b @ map (\<lambda>i. R (4 + i)) [0..<m] @ drop (k + 4 + m) ?b)"
      by (rule less.IH) (use mv(2) less.prems n in auto)
    also have "\<dots> = Some (take k b @ map R [0..<n] @ drop (k + n) b)"
      unfolding n by (subst local_splice) (use less.prems n in auto)
    finally show ?thesis .
  qed
qed

section \<open>\<^verbatim>\<open>sys_write\<close>\<close>

lemma read_byte_console: "console_only s s' \<Longrightarrow> read_byte s' a = read_byte s a"
proof -
  assume "console_only s s'"
  then obtain x y scr d where s': "s' = s\<lparr>cursor_x := x, cursor_y := y, screen := scr, debug_port := d\<rparr>"
    by (rule console_onlyE)
  have "translate s' = translate s" by (rule translate_cong) (simp_all add: s')
  then show ?thesis by (simp add: read_byte_def s')
qed

text \<open>
  The loop with \<open>k\<close> iterations left, each of which sends \<open>c\<close> bytes: \<^verbatim>\<open>size\<close>, but at most 256,
  whatever is left of the buffer.
\<close>

lemma write_loop_sends:
  assumes c: "c = min n 256" "0 < n"
  shows "(\<And>i. i < off + k * c \<Longrightarrow> read_byte s (buffer + of_nat i) = Some (R i)) \<Longrightarrow> length loc = 256 \<Longrightarrow>
     n \<le> off + k * c \<Longrightarrow> (k = 0 \<or> off + (k - 1) * c < n) \<Longrightarrow>
   sys_write_loop buffer (int n) (int off) loc s = Some (fold printc (map R [off..<off + k * c]) s)"
proof (induction k arbitrary: off loc s)
  case 0
  then show ?case by (subst sys_write_loop.simps) simp
next
  case (Suc k)
  let ?loc = "map (\<lambda>i. R (off + i)) [0..<c] @ drop c loc"
  have off: "off < n" using Suc.prems(4) by (cases k) auto
  have cc: "min (int n) CHUNK_SIZE = int c" "c \<le> 256" by (simp_all add: c(1))
  have "copy_loop (\<lambda>b a. read_byte s a) (\<lambda>b a x. local_write b a x) (buffer + of_nat off) (of_nat 0) (int c) loc =
      Some (take 0 loc @ map (\<lambda>i. R (off + i)) [0..<c] @ drop (0 + c) loc)"
  proof (rule local_copy)
    fix i assume "i < c"
    then show "read_byte s (buffer + of_nat off + of_nat i) = Some (R (off + i))"
      using Suc.prems(1) [of "off + i"] by (simp add: algebra_simps)
  qed (use Suc.prems(2) cc in simp_all)
  then have cp: "copy_to_local (buffer + of_nat off) (int c) loc s = Some ?loc"
    by (simp add: copy_to_local_def)
  have l: "map (\<lambda>i. R (off + i)) [0..<c] = map R [off..<off + c]"
    by (rule nth_equalityI) auto
  have wr: "sys_write_console ?loc (int c) s = Some (fold printc (map R [off..<off + c]) s)"
    by (subst sys_write_console_fold) (simp_all add: l)
  let ?s = "fold printc (map R [off..<off + c]) s"
  have "sys_write_loop buffer (int n) (int off) loc s = sys_write_loop buffer (int n) (int (off + c)) ?loc ?s"
    using off wr by (subst sys_write_loop.simps) (simp add: Let_def cp cc(1))
  also have "\<dots> = Some (fold printc (map R [off + c..<off + c + k * c]) ?s)"
  proof (rule Suc.IH)
    fix i assume "i < off + c + k * c"
    then show "read_byte ?s (buffer + of_nat i) = Some (R i)"
      using Suc.prems(1) [of i] read_byte_console [OF printc_fold_only] by (simp add: algebra_simps)
  next
    show "k = 0 \<or> off + c + (k - 1) * c < n" using Suc.prems(4) by (cases k) auto
  qed (use Suc.prems cc in \<open>auto simp: algebra_simps\<close>)
  also have "\<dots> = Some (fold printc (map R [off..<off + Suc k * c]) s)"
  proof -
    have "[off..<off + Suc k * c] = [off..<off + c] @ [off + c..<off + c + k * c]"
      using upt_add_eq_append [of off "off + c" "k * c"] by (simp add: add.assoc)
    then show ?thesis by simp
  qed
  finally show ?case .
qed

text \<open>How many bytes \<^verbatim>\<open>sys_write\<close> sends for a given size.\<close>

definition sent :: "nat \<Rightarrow> nat" where
  "sent n = (if n \<le> 256 then n else (n + 255) div 256 * 256)"

lemma sent_chunks:
  assumes "0 < n"
  obtains k where "sent n = k * min n 256" "n \<le> k * min n 256" "(k - 1) * min n 256 < n" "k \<noteq> 0"
proof (cases "n \<le> 256")
  case True
  then show ?thesis using that [of 1] assms by (simp add: sent_def)
next
  case False
  let ?k = "(n + 255) div 256"
  have "?k * 256 \<le> n + 255" "n + 255 < ?k * 256 + 256" by (simp_all add: div_mult_mod_eq minus_mod_eq_div_mult [symmetric] mod_less_divisor)
  moreover from this False have "?k \<noteq> 0" by auto
  ultimately show ?thesis using that [of ?k] False by (simp add: sent_def diff_mult_distrib)
qed

lemma sys_write_ok:
  assumes "length loc = 256"
    and "\<And>i. i < sent (unat sz) \<Longrightarrow> read_byte s (buffer + of_nat i) = Some (R i)"
  shows "sys_write fd buffer sz loc s =
     (if fd \<noteq> 1 then Some (- EBADF, s)
      else if buffer = 0 then Some (- EFAULT, s)
      else if sz <s 0 then Some (- EINVAL, s)
      else Some (sz, fold printc (map R [0..<sent (unat sz)]) s))"
proof -
  have e: "(- EBADF :: dword) <s 0" by (simp add: word_sless_alt)
  show ?thesis
  proof (cases "fd = 1 \<and> buffer \<noteq> 0 \<and> \<not> sz <s 0")
    case False
    then show ?thesis using e by (auto simp: sys_write_def check_fd_def Let_def)
  next
    case True
    have nn: "sint sz = int (unat sz)" by (rule sint_nonneg_unat) (use True in \<open>simp add: word_sless_alt\<close>)
    have "sys_write_loop buffer (int (unat sz)) (int 0) loc s = Some (fold printc (map R [0..<sent (unat sz)]) s)"
    proof (cases "unat sz = 0")
      case True
      then show ?thesis by (subst sys_write_loop.simps) (simp add: sent_def)
    next
      case False
      then obtain k where k: "sent (unat sz) = k * min (unat sz) 256" "unat sz \<le> k * min (unat sz) 256"
          "(k - 1) * min (unat sz) 256 < unat sz"
        using sent_chunks [of "unat sz"] by blast
      then show ?thesis
        using write_loop_sends [OF refl, of "unat sz" 0 k s buffer R loc] False assms by simp
    qed
    then show ?thesis using True by (simp add: sys_write_def check_fd_def Let_def nn)
  qed
qed

text \<open>C34: \<^verbatim>\<open>write\<close> on every branch: a descriptor other than 1, a NULL buffer and a negative size are
  errors and print nothing, whatever the buffer; otherwise, if the bytes to send can be read, they go
  to the console in order and the size is returned. For a size over 256 that is not a multiple of 256
  the bytes to send are those of the buffer and the ones behind it, up to the next multiple of 256,
  since each round copies the minimum of the whole size and 256.\<close>

theorem sys_write_spec:
  assumes "length loc = 256"
  shows "if fd \<noteq> 1 then sys_write fd buffer sz loc s = Some (- EBADF, s)
     else if buffer = 0 then sys_write fd buffer sz loc s = Some (- EFAULT, s)
     else if sz <s 0 then sys_write fd buffer sz loc s = Some (- EINVAL, s)
     else (\<forall>R. (\<forall>i < sent (unat sz). read_byte s (buffer + of_nat i) = Some (R i)) \<longrightarrow>
        sys_write fd buffer sz loc s = Some (sz, fold printc (map R [0..<sent (unat sz)]) s))"
proof -
  have "sys_write fd buffer sz loc s = Some (sz, fold printc (map R [0..<sent (unat sz)]) s)"
    if "fd = 1" "buffer \<noteq> 0" "\<not> sz <s 0" "\<forall>i < sent (unat sz). read_byte s (buffer + of_nat i) = Some (R i)" for R
    using sys_write_ok [OF assms, of sz s buffer R fd] that by simp
  moreover have "(- EBADF :: dword) <s 0" by (simp add: word_sless_alt)
  ultimately show ?thesis by (simp add: sys_write_def check_fd_def Let_def)
qed

theorem sys_write_spec_witness:
  "\<exists>s'. sys_write 1 0x100000 2 (replicate 256 0) boot_state = Some (2, s') \<and> length (debug_port s') = length (debug_port boot_state) + 2"
proof -
  define R where "R i = the (read_byte boot_state (0x100000 + of_nat i))" for i :: nat
  have "read_byte boot_state (0x100000 + of_nat i) = Some (R i)" if "i < sent (unat (2 :: dword))" for i
  proof -
    have "i < 2" using that by (simp add: sent_def)
    then have "translate boot_state (of_nat (256 * PAGE_SIZE + i)) \<noteq> None" by (intro boot_user_mapped) simp_all
    then show ?thesis by (auto simp: R_def read_byte_def)
  qed
  then have r: "\<forall>i < sent (unat (2 :: dword)). read_byte boot_state (0x100000 + of_nat i) = Some (R i)" by blast
  have "\<forall>R. (\<forall>i < sent (unat (2 :: dword)). read_byte boot_state (0x100000 + of_nat i) = Some (R i)) \<longrightarrow>
      sys_write 1 0x100000 2 (replicate 256 0) boot_state = Some (2, fold printc (map R [0..<sent (unat (2 :: dword))]) boot_state)"
    using sys_write_spec [of "replicate 256 0" 1 "0x100000" 2 boot_state] by (simp add: word_sless_alt)
  with r have w: "sys_write 1 0x100000 2 (replicate 256 0) boot_state = Some (2, fold printc (map R [0..<2]) boot_state)"
    by (simp add: sent_def)
  have "length (debug_port (printc c s)) = length (debug_port s) + 1" for c s
    by (simp add: printc_def new_line_def Let_def)
  then show ?thesis using w by (simp add: upt_rec)
qed

section \<open>The cursor\<close>

text \<open>The driver stays on the screen: from a cursor within 80 columns and 25 rows every character
  leaves it there, and writes no video memory but the 4000 bytes at 0xb8000.\<close>

theorem printc_stays_on_screen:
  assumes "unat (cursor_x s) < NUM_COLUMNS" "unat (cursor_y s) < NUM_ROWS"
  shows "unat (cursor_x (printc c s)) < NUM_COLUMNS \<and> unat (cursor_y (printc c s)) < NUM_ROWS \<and>
     (\<forall>a. screen (printc c s) a \<noteq> screen s a \<longrightarrow> 0xb8000 \<le> unat a \<and> unat a + 1 < 0xb8000 + 4000)"
proof -
  let ?k = "(unat (cursor_y s) * NUM_COLUMNS + unat (cursor_x s)) * 2"
  have k: "?k < 4000" using assms by simp
  have "unat (of_nat (0xb8000 + ?k) :: dword) = 0xb8000 + ?k" by (rule sint_of_nat_small(2)) (use k in simp)
  then have a: "unat (0xb8000 + of_nat ?k :: dword) = 0xb8000 + ?k" by (simp only: of_nat_add of_nat_numeral)
  have row: "unat (of_nat ((unat (cursor_y s) + 1) mod NUM_ROWS) :: byte) = (unat (cursor_y s) + 1) mod NUM_ROWS"
    by (simp add: unsigned_of_nat take_bit_nat_eq_self)
  have col: "unat (cursor_x s + 1) = unat (cursor_x s) + 1"
    using assms(1) by (simp only: unat_word_ariths(1)) simp
  have "unat (cursor_x (printc c s)) < NUM_COLUMNS" "unat (cursor_y (printc c s)) < NUM_ROWS"
    using assms col row by (simp_all add: printc_def new_line_def Let_def word_le_nat_alt del: of_nat_mod)
  moreover have "0xb8000 \<le> unat x \<and> unat x + 1 < 0xb8000 + 4000" if "screen (printc c s) x \<noteq> screen s x" for x
  proof -
    have "x = 0xb8000 + of_nat ?k" using that by (auto simp: printc_def new_line_def Let_def split: if_splits)
    moreover have "even ?k" by simp
    then have "?k + 1 < 4000" using k by presburger
    ultimately show ?thesis using a by simp
  qed
  ultimately show ?thesis by blast
qed

theorem printc_stays_on_screen_witness: "unat (cursor_x (printc 65 reset_state)) < NUM_COLUMNS"
  using printc_stays_on_screen [of reset_state 65] by (simp add: reset_state_def)

end
