(* ===== verification/Libc.thy ===== *)
theory Libc
  imports Syscalls
begin

text \<open>
  The user's library: \<^verbatim>\<open>itoa\<close>, \<^verbatim>\<open>strlen\<close> and \<^verbatim>\<open>perror\<close> of \<^verbatim>\<open>libc.c\<close>, and the wrappers of
  \<^verbatim>\<open>libc.S\<close> that enter the kernel. The loops are defined over any byte memory, a read \<open>rd\<close> and a
  write \<open>wr\<close>; a program runs them on the memory of its task.
\<close>

section \<open>\<^verbatim>\<open>itoa\<close>\<close>

function itoa_digits :: "('s \<Rightarrow> dword \<Rightarrow> byte \<Rightarrow> 's option) \<Rightarrow> int \<Rightarrow> dword \<Rightarrow> int \<Rightarrow> 's \<Rightarrow> (int \<times> 's) option" where
  "itoa_digits wr a b i s =
     (if a > 0
      then do { s \<leftarrow> wr s (b + of_int i) (of_int (a mod 10) + 48);
                itoa_digits wr (a div 10) b (i + 1) s }
      else Some (i, s))"
  by pat_completeness auto
termination
  by (relation "measure (\<lambda>(wr, a, b, i, s). nat a)") auto

function itoa_reverse ::
  "('s \<Rightarrow> dword \<Rightarrow> byte option) \<Rightarrow> ('s \<Rightarrow> dword \<Rightarrow> byte \<Rightarrow> 's option) \<Rightarrow> dword \<Rightarrow> int \<Rightarrow> int \<Rightarrow> 's \<Rightarrow> 's option" where
  "itoa_reverse rd wr b i i1 s =
     (if i1 < i div 2
      then do { c \<leftarrow> rd s (b + of_int i1);
                x \<leftarrow> rd s (b + of_int (i - i1 - 1));
                s \<leftarrow> wr s (b + of_int i1) x;
                s \<leftarrow> wr s (b + of_int (i - i1 - 1)) c;
                itoa_reverse rd wr b i (i1 + 1) s }
      else Some s)"
  by pat_completeness auto
termination
  by (relation "measure (\<lambda>(rd, wr, b, i, i1, s). nat (i div 2 - i1))") auto

declare itoa_digits.simps [simp del] itoa_reverse.simps [simp del]

definition itoa ::
  "('s \<Rightarrow> dword \<Rightarrow> byte option) \<Rightarrow> ('s \<Rightarrow> dword \<Rightarrow> byte \<Rightarrow> 's option) \<Rightarrow> int \<Rightarrow> dword \<Rightarrow> 's \<Rightarrow> 's option" where
  "itoa rd wr a b s =
     (if a = 0
      then do { s \<leftarrow> wr s b 48; wr s (b + 1) 0 }
      else do { (i, s) \<leftarrow> itoa_digits wr a b 0 s;
                s \<leftarrow> itoa_reverse rd wr b i 0 s;
                wr s (b + of_int i) 0 })"

section \<open>\<^verbatim>\<open>strlen\<close>\<close>

text \<open>A string without a zero byte has no length: the value is \<open>None\<close>.\<close>

partial_function (option) strlen_from :: "(dword \<Rightarrow> byte option) \<Rightarrow> dword \<Rightarrow> int \<Rightarrow> int option" where
  "strlen_from rd a i =
     Option.bind (rd (a + of_int i)) (\<lambda>c. if c \<noteq> 0 then strlen_from rd a (i + 1) else Some i)"

definition strlen :: "(dword \<Rightarrow> byte option) \<Rightarrow> dword \<Rightarrow> int option" where
  "strlen rd a = strlen_from rd a 0"

section \<open>System calls\<close>

text \<open>The value in \<^verbatim>\<open>eax\<close> and \<^verbatim>\<open>errno\<close> after the trap.\<close>

definition UPDATE_ERRNO :: "dword \<Rightarrow> dword \<Rightarrow> dword \<times> dword" where
  "UPDATE_ERRNO eax errno = (if 0 <=s eax then (eax, errno) else (- 1, eax * - 1))"

text \<open>
  A wrapper loads the registers, traps and looks at the result; if the call has switched to another
  task the rest of the wrapper is executed when the task runs again. The registers that a
  wrapper does not load keep their values \<open>ecx\<close> and \<open>edx\<close>. \<open>loc\<close> is as in \<open>sys_write\<close>.
\<close>

definition int80 ::
  "dword \<Rightarrow> dword \<Rightarrow> dword \<Rightarrow> dword \<Rightarrow> byte list \<Rightarrow> dword \<Rightarrow> kstate \<Rightarrow> (sysret \<times> dword \<times> kstate) option" where
  "int80 eax ebx ecx edx loc errno s =
     do { (r, s) \<leftarrow> system_call_handler eax ebx ecx edx loc s;
          Some (case r of Ret x \<Rightarrow> (let (x, errno) = UPDATE_ERRNO x errno in (Ret x, errno, s))
                        | Switched \<Rightarrow> (Switched, errno, s)) }"

definition libc_write where
  "libc_write fd buffer sz loc errno s = int80 4 fd buffer sz loc errno s"

definition libc_read where
  "libc_read fd buffer sz loc errno s = int80 5 fd buffer sz loc errno s"

definition libc_gettime where
  "libc_gettime ebx ecx edx loc errno s = int80 10 ebx ecx edx loc errno s"

definition libc_fork where
  "libc_fork ebx ecx edx loc errno s = int80 2 ebx ecx edx loc errno s"

definition libc_getpid where
  "libc_getpid ebx ecx edx loc errno s = int80 20 ebx ecx edx loc errno s"

definition libc_exit where
  "libc_exit ebx ecx edx loc errno s = int80 1 ebx ecx edx loc errno s"

definition libc_get_stats where
  "libc_get_stats pid p edx loc errno s = int80 35 pid p edx loc errno s"

text \<open>\<^verbatim>\<open>clone\<close> passes the address of \<^verbatim>\<open>exit\<close>, to which the thread's function returns.\<close>

definition libc_clone where
  "libc_clone exit_addr f stack loc errno s = int80 19 f stack exit_addr loc errno s"

definition libc_sem_init where
  "libc_sem_init n_sem v edx loc errno s = int80 21 n_sem v edx loc errno s"

definition libc_sem_wait where
  "libc_sem_wait n_sem ecx edx loc errno s = int80 22 n_sem ecx edx loc errno s"

definition libc_sem_signal where
  "libc_sem_signal n_sem ecx edx loc errno s = int80 23 n_sem ecx edx loc errno s"

definition libc_sem_destroy where
  "libc_sem_destroy n_sem ecx edx loc errno s = int80 24 n_sem ecx edx loc errno s"

definition libc_sbrk where
  "libc_sbrk increment ecx edx loc errno s = int80 25 increment ecx edx loc errno s"

section \<open>\<^verbatim>\<open>perror\<close>\<close>

definition perror_message :: "dword \<Rightarrow> string" where
  "perror_message errno =
     (if errno = ENOSYS then ''System call not defined''
      else if errno = EBADF then ''Bad file descriptor identifier''
      else if errno = EACCES then ''Wrong permission writing to file''
      else if errno = EINVAL then ''Buffer size is equal or less than 0''
      else if errno = EFAULT then ''Address is null''
      else if errno = EAGAIN then ''There are not free tasks to store the new process''
      else if errno = ENOMEM then ''There are not free frames to allocate the duplicated data+stack of child''
      else if errno = ESRCH then ''There is no process with this PID''
      else ''Unknown error'')"

text \<open>\<open>literal\<close> gives the address at which the compiler has put a string.\<close>

definition perror ::
  "(string \<Rightarrow> dword) \<Rightarrow> byte list \<Rightarrow> dword \<Rightarrow> kstate \<Rightarrow> (sysret \<times> dword \<times> kstate) option" where
  "perror literal loc errno s =
     (let error_message = literal (perror_message errno)
      in do { n \<leftarrow> strlen (user_read s) error_message;
              libc_write 1 error_message (of_int n) loc errno s })"

end
