(* ===== verification/Libc_Proofs.thy ===== *)
theory Libc_Proofs
  imports Libc Console_Proofs Kernel_Properties
begin

text \<open>
  The user's library: \<^verbatim>\<open>itoa\<close> writes the decimal digits of its argument, \<^verbatim>\<open>strlen\<close> finds their
  number, and \<^verbatim>\<open>perror\<close> writes its message to the console through the kernel.
\<close>

section \<open>A buffer in memory\<close>

definition view :: "('p \<Rightarrow> byte) \<Rightarrow> (dword \<Rightarrow> 'p option) \<Rightarrow> dword \<Rightarrow> nat \<Rightarrow> byte list" where
  "view m phys b n = map (\<lambda>i. m (cell_at phys b i)) [0..<n]"

lemma length_view [simp]: "length (view m phys b n) = n"
  by (simp add: view_def)

definition elsewhere :: "(dword \<Rightarrow> 'p option) \<Rightarrow> dword \<Rightarrow> nat \<Rightarrow> ('p \<Rightarrow> byte) \<Rightarrow> ('p \<Rightarrow> byte) \<Rightarrow> bool" where
  "elsewhere phys b n m m' \<longleftrightarrow> (\<forall>x. x \<notin> cell_at phys b ` {..<n} \<longrightarrow> m' x = m x)"

lemma elsewhere_trans: "elsewhere phys b n m m1 \<Longrightarrow> elsewhere phys b n m1 m2 \<Longrightarrow> elsewhere phys b n m m2"
  by (simp add: elsewhere_def)

section \<open>Digits\<close>

text \<open>The digits from the least significant one, and the number that a decimal text stands for.\<close>

fun digits_le :: "nat \<Rightarrow> byte list" where
  "digits_le n = (if n = 0 then [] else (of_nat (n mod 10) + 48) # digits_le (n div 10))"

declare digits_le.simps [simp del]

definition decimal :: "byte list \<Rightarrow> nat" where
  "decimal ds = foldl (\<lambda>n d. 10 * n + (unat d - 48)) 0 ds"

lemma digit_unat: "k < 10 \<Longrightarrow> unat (of_nat k + 48 :: byte) = k + 48"
proof -
  assume "k < 10"
  then have "unat (of_nat (k + 48) :: byte) = k + 48" by (simp add: unsigned_of_nat take_bit_nat_eq_self del: of_nat_add)
  then show ?thesis by simp
qed

lemma digits_le_value: "foldr (\<lambda>d n. 10 * n + (unat d - 48)) (digits_le n) 0 = n"
proof (induction n rule: digits_le.induct)
  case (1 n)
  then show ?case by (subst digits_le.simps) (simp add: digit_unat)
qed

lemma decimal_rev: "decimal (rev (digits_le n)) = n"
  using digits_le_value [of n] by (simp add: decimal_def foldl_conv_foldr)

lemma digits_le_range: "d \<in> set (digits_le n) \<Longrightarrow> 48 \<le> unat d \<and> unat d < 58"
proof (induction n rule: digits_le.induct)
  case (1 n)
  show ?case
  proof (cases "n = 0")
    case True
    then show ?thesis using 1 by (subst (asm) (2) digits_le.simps) simp
  next
    case False
    then have "d = of_nat (n mod 10) + 48 \<or> d \<in> set (digits_le (n div 10))"
      using 1(2) by (subst (asm) digits_le.simps) auto
    then show ?thesis using 1(1) [OF False] digit_unat [of "n mod 10"] by auto
  qed
qed

lemma digits_le_last: "n \<noteq> 0 \<Longrightarrow> digits_le n \<noteq> [] \<and> last (digits_le n) \<noteq> 48"
proof (induction n rule: digits_le.induct)
  case (1 n)
  show ?case
  proof (cases "n div 10 = 0")
    case True
    then have "n < 10" by auto
    then have "unat (of_nat n + 48 :: byte) \<noteq> 48" using digit_unat [of n] 1(2) by simp
    moreover have "digits_le n = [of_nat n + 48]" using 1(2) \<open>n < 10\<close>
      by (subst digits_le.simps) (simp add: digits_le.simps)
    ultimately show ?thesis by auto
  next
    case False
    then show ?thesis using 1 by (subst (1 2) digits_le.simps) simp
  qed
qed

lemma digits_le_length: "n < 10 ^ k \<Longrightarrow> length (digits_le n) \<le> k"
proof (induction k arbitrary: n)
  case 0
  then show ?case by (subst digits_le.simps) simp
next
  case (Suc k)
  have "n div 10 < 10 ^ k" using Suc.prems by (simp add: div_less_iff_less_mult)
  then show ?case using Suc.IH by (subst digits_le.simps) simp
qed

section \<open>The swaps of \<^verbatim>\<open>itoa\<close>\<close>

text \<open>The list after \<open>j\<close> swaps in its first \<open>m\<close> elements.\<close>

definition swapped :: "byte list \<Rightarrow> nat \<Rightarrow> nat \<Rightarrow> byte list" where
  "swapped xs m j = map (\<lambda>p. if p < m \<and> (p < j \<or> m - j \<le> p) then xs ! (m - 1 - p) else xs ! p) [0..<length xs]"

lemma swapped_0: "swapped xs m 0 = xs"
  by (rule nth_equalityI) (auto simp: swapped_def)

lemma swapped_all: "m \<le> length xs \<Longrightarrow> swapped xs m (m div 2) = rev (take m xs) @ drop m xs"
proof (rule nth_equalityI)
  fix p
  assume m: "m \<le> length xs" and "p < length (swapped xs m (m div 2))"
  then have p: "p < length xs" by (simp add: swapped_def)
  have r: "(rev (take m xs) @ drop m xs) ! p = (if p < m then xs ! (m - 1 - p) else xs ! p)"
    using p m by (simp add: nth_append rev_nth min_def)
  have mid: "m - 1 - p = p" if "p < m" "\<not> (p < m div 2 \<or> m - m div 2 \<le> p)"
  proof -
    have "m = 2 * (m div 2) \<or> m = 2 * (m div 2) + 1" by presburger
    with that show ?thesis by linarith
  qed
  have "swapped xs m (m div 2) ! p = (if p < m \<and> (p < m div 2 \<or> m - m div 2 \<le> p) then xs ! (m - 1 - p) else xs ! p)"
    using p by (simp add: swapped_def split del: if_split cong: if_cong)
  also have "\<dots> = (if p < m then xs ! (m - 1 - p) else xs ! p)" using mid by (cases "p < m") auto
  finally show "swapped xs m (m div 2) ! p = (rev (take m xs) @ drop m xs) ! p" using r by simp
qed (simp add: swapped_def)

lemma swapped_step:
  assumes "m \<le> length xs" "j < m div 2"
  shows "(swapped xs m j)[j := swapped xs m j ! (m - j - 1), m - j - 1 := swapped xs m j ! j] = swapped xs m (Suc j)"
proof (rule nth_equalityI)
  fix p
  assume "p < length ((swapped xs m j)[j := swapped xs m j ! (m - j - 1), m - j - 1 := swapped xs m j ! j])"
  then have p: "p < length xs" by (simp add: swapped_def)
  have a: "swapped xs m j ! j = xs ! j" "swapped xs m j ! (m - j - 1) = xs ! (m - j - 1)"
    using assms by (auto simp: swapped_def)
  show "(swapped xs m j)[j := swapped xs m j ! (m - j - 1), m - j - 1 := swapped xs m j ! j] ! p =
      swapped xs m (Suc j) ! p"
    unfolding a using assms p by (auto simp: swapped_def nth_list_update)
qed (simp add: swapped_def)

section \<open>\<^verbatim>\<open>itoa\<close> and \<^verbatim>\<open>strlen\<close> on a byte memory\<close>

context byte_memory
begin

lemma load:
  "ok s \<Longrightarrow> mapped phys b n \<Longrightarrow> k < n \<Longrightarrow> rd s (b + of_nat k) = Some (view (cell s) phys b n ! k)"
  by (auto simp: mapped_def view_def cell_at_def rd_law)

lemma store:
  assumes "ok s" "mapped phys b n" "inj_on (cell_at phys b) {..<n}" "k < n"
  shows "\<exists>s'. wr s (b + of_nat k) v = Some s' \<and> ok s' \<and>
    view (cell s') phys b n = (view (cell s) phys b n)[k := v] \<and> elsewhere phys b n (cell s) (cell s')"
proof -
  obtain x where x: "phys (b + of_nat k) = Some x" using assms(2,4) by (auto simp: mapped_def)
  then have c: "cell_at phys b k = x" by (simp add: cell_at_def)
  obtain s' where s': "wr s (b + of_nat k) v = Some s'" "ok s'" "cell s' = (cell s)(x := v)"
    using wr_law [OF assms(1) x] by blast
  have "view (cell s') phys b n = (view (cell s) phys b n)[k := v]"
  proof (rule nth_equalityI)
    fix i
    assume "i < length (view (cell s') phys b n)"
    then have i: "i < n" by simp
    have "cell_at phys b i = x \<longleftrightarrow> i = k" using inj_onD [OF assms(3), of i k] c i assms(4) by auto
    then show "view (cell s') phys b n ! i = (view (cell s) phys b n)[k := v] ! i"
      using i assms(4) s'(3) c by (auto simp: view_def nth_list_update)
  qed simp
  moreover have "elsewhere phys b n (cell s) (cell s')"
    using s'(3) c assms(4) by (auto simp: elsewhere_def)
  ultimately show ?thesis using s' by blast
qed

lemma itoa_digits_ok:
  "ok s \<Longrightarrow> mapped phys b n \<Longrightarrow> inj_on (cell_at phys b) {..<n} \<Longrightarrow> i + length (digits_le m) \<le> n \<Longrightarrow>
   \<exists>s'. itoa_digits wr (int m) b (int i) s = Some (int (i + length (digits_le m)), s') \<and> ok s' \<and>
     view (cell s') phys b n = take i (view (cell s) phys b n) @ digits_le m @
        drop (i + length (digits_le m)) (view (cell s) phys b n) \<and>
     elsewhere phys b n (cell s) (cell s')"
proof (induction m arbitrary: i s rule: digits_le.induct)
  case (1 m)
  show ?case
  proof (cases "m = 0")
    case True
    then show ?thesis using 1(2) by (subst itoa_digits.simps) (simp add: digits_le.simps elsewhere_def)
  next
    case False
    let ?v = "view (cell s) phys b n" and ?d = "of_nat (m mod 10) + 48 :: byte"
    have d: "digits_le m = ?d # digits_le (m div 10)" using False by (subst digits_le.simps) simp
    have i: "i < n" using 1(5) d by simp
    obtain s1 where s1: "wr s (b + of_nat i) ?d = Some s1" "ok s1" "view (cell s1) phys b n = ?v[i := ?d]"
        "elsewhere phys b n (cell s) (cell s1)"
      using store [OF 1(2-4) i] by blast
    have "\<exists>s'. itoa_digits wr (int (m div 10)) b (int (Suc i)) s1 =
        Some (int (Suc i + length (digits_le (m div 10))), s') \<and> ok s' \<and>
        view (cell s') phys b n = take (Suc i) (view (cell s1) phys b n) @ digits_le (m div 10) @
          drop (Suc i + length (digits_le (m div 10))) (view (cell s1) phys b n) \<and>
        elsewhere phys b n (cell s1) (cell s')"
      by (rule 1(1) [OF False s1(2) 1(3,4)]) (use 1(5) d in simp)
    then obtain s' where s': "itoa_digits wr (int (m div 10)) b (int (Suc i)) s1 =
        Some (int (Suc i + length (digits_le (m div 10))), s')" "ok s'"
        "view (cell s') phys b n = take (Suc i) (?v[i := ?d]) @ digits_le (m div 10) @
          drop (Suc i + length (digits_le (m div 10))) (?v[i := ?d])"
        "elsewhere phys b n (cell s1) (cell s')"
      unfolding s1(3) by blast
    have "int m mod 10 = int (m mod 10)" by (simp add: zmod_int)
    then have dd: "(of_int (int m mod 10) :: byte) = of_nat (m mod 10)" by (simp only: of_int_of_nat_eq)
    have "itoa_digits wr (int m) b (int i) s = itoa_digits wr (int (m div 10)) b (int (Suc i)) s1"
      using False s1(1) by (subst itoa_digits.simps) (simp add: dd zdiv_int add.commute)
    moreover have "take (Suc i) (?v[i := ?d]) = take i ?v @ [?d]" using i by (simp add: take_Suc_conv_app_nth)
    ultimately show ?thesis using s' d elsewhere_trans [OF s1(4) s'(4)] by (intro exI [of _ s']) simp
  qed
qed

lemma itoa_reverse_ok:
  "ok s \<Longrightarrow> mapped phys b n \<Longrightarrow> inj_on (cell_at phys b) {..<n} \<Longrightarrow> m \<le> n \<Longrightarrow> length xs = n \<Longrightarrow>
   view (cell s) phys b n = swapped xs m j \<Longrightarrow> j \<le> m div 2 \<Longrightarrow>
   \<exists>s'. itoa_reverse rd wr b (int m) (int j) s = Some s' \<and> ok s' \<and>
     view (cell s') phys b n = swapped xs m (m div 2) \<and> elsewhere phys b n (cell s) (cell s')"
proof (induction "m div 2 - j" arbitrary: j s)
  case 0
  then have j: "j = m div 2" by simp
  then have "\<not> int j < int m div 2" by (simp add: zdiv_int)
  then show ?case using 0 j by (subst itoa_reverse.simps) (simp add: elsewhere_def)
next
  case (Suc k)
  let ?v = "swapped xs m j"
  have j: "j < m div 2" using Suc.hyps(2) by simp
  have bd: "j < n" "m - j - 1 < n" using j Suc.prems(4) by auto
  have e: "int m - int j - 1 = int (m - j - 1)" using j by simp
  obtain s1 where s1: "wr s (b + of_nat j) (?v ! (m - j - 1)) = Some s1" "ok s1"
      "view (cell s1) phys b n = ?v[j := ?v ! (m - j - 1)]" "elsewhere phys b n (cell s) (cell s1)"
    using store [OF Suc.prems(1-3) bd(1)] Suc.prems(6) by metis
  obtain s2 where s2: "wr s1 (b + of_nat (m - j - 1)) (?v ! j) = Some s2" "ok s2"
      "view (cell s2) phys b n = ?v[j := ?v ! (m - j - 1), m - j - 1 := ?v ! j]" "elsewhere phys b n (cell s1) (cell s2)"
    using store [OF s1(2) Suc.prems(2,3) bd(2)] s1(3) by metis
  have ld: "rd s (b + of_nat j) = Some (?v ! j)" "rd s (b + of_nat (m - j - 1)) = Some (?v ! (m - j - 1))"
    using load [OF Suc.prems(1,2)] bd Suc.prems(6) by metis+
  have k: "k = m div 2 - Suc j" using Suc.hyps(2) by simp
  have "view (cell s2) phys b n = swapped xs m (Suc j)"
    using s2(3) swapped_step [of m xs j] Suc.prems(4,5) j by simp
  then obtain s' where s': "itoa_reverse rd wr b (int m) (int (Suc j)) s2 = Some s'" "ok s'"
      "view (cell s') phys b n = swapped xs m (m div 2)" "elsewhere phys b n (cell s2) (cell s')"
    using Suc.hyps(1) [OF k s2(2) Suc.prems(2-5)] j by (metis Suc_leI)
  have "int j < int m div 2" using j by (simp add: zdiv_int)
  then have "itoa_reverse rd wr b (int m) (int j) s = itoa_reverse rd wr b (int m) (int (Suc j)) s2"
    using ld s1(1) s2(1) by (subst itoa_reverse.simps) (simp add: e add.commute)
  then show ?case using s' elsewhere_trans [OF s1(4) elsewhere_trans [OF s2(4) s'(4)]] by auto
qed

lemma itoa_ok:
  assumes "ok s" "mapped phys b n" "inj_on (cell_at phys b) {..<n}" "0 < m" "length (digits_le m) < n"
  shows "\<exists>s' r. itoa rd wr (int m) b s = Some s' \<and> ok s' \<and>
    view (cell s') phys b n = rev (digits_le m) @ 0 # r \<and> elsewhere phys b n (cell s) (cell s')"
proof -
  let ?l = "length (digits_le m)" and ?v = "view (cell s) phys b n"
  obtain s1 where s1: "itoa_digits wr (int m) b (int 0) s = Some (int (0 + ?l), s1)" "ok s1"
      "view (cell s1) phys b n = take 0 ?v @ digits_le m @ drop (0 + ?l) ?v" "elsewhere phys b n (cell s) (cell s1)"
    using itoa_digits_ok [OF assms(1-3), of 0 m] assms(5) by auto
  let ?xs = "digits_le m @ drop ?l ?v"
  have xs: "length ?xs = n" "view (cell s1) phys b n = swapped ?xs ?l 0" using assms(5) s1(3) by (simp_all add: swapped_0)
  obtain s2 where s2: "itoa_reverse rd wr b (int ?l) (int 0) s1 = Some s2" "ok s2"
      "view (cell s2) phys b n = swapped ?xs ?l (?l div 2)" "elsewhere phys b n (cell s1) (cell s2)"
    using itoa_reverse_ok [OF s1(2) assms(2,3) _ xs(1) xs(2)] assms(5) by auto
  have v2: "view (cell s2) phys b n = rev (digits_le m) @ drop ?l ?v"
    using s2(3) swapped_all [of ?l ?xs] by simp
  obtain s3 where s3: "wr s2 (b + of_nat ?l) 0 = Some s3" "ok s3"
      "view (cell s3) phys b n = (view (cell s2) phys b n)[?l := 0]" "elsewhere phys b n (cell s2) (cell s3)"
    using store [OF s2(2) assms(2,3,5)] by blast
  have "view (cell s3) phys b n = rev (digits_le m) @ 0 # drop (Suc ?l) ?v"
    unfolding s3(3) v2 using assms(5) by (simp add: list_update_append Cons_nth_drop_Suc [symmetric])
  moreover have "itoa rd wr (int m) b s = Some s3" using assms(4) s1(1) s2(1) s3(1) by (simp add: itoa_def)
  ultimately show ?thesis using s3(2) elsewhere_trans [OF s1(4) elsewhere_trans [OF s2(4) s3(4)]] by blast
qed

lemma itoa_zero:
  assumes "ok s" "mapped phys b n" "inj_on (cell_at phys b) {..<n}" "1 < n"
  shows "\<exists>s' r. itoa rd wr 0 b s = Some s' \<and> ok s' \<and> view (cell s') phys b n = [48] @ 0 # r \<and>
    elsewhere phys b n (cell s) (cell s')"
proof -
  let ?v = "view (cell s) phys b n"
  obtain s1 where s1: "wr s (b + of_nat 0) 48 = Some s1" "ok s1" "view (cell s1) phys b n = ?v[0 := 48]"
      "elsewhere phys b n (cell s) (cell s1)"
    using store [OF assms(1-3), of 0 48] assms(4) by auto
  obtain s2 where s2: "wr s1 (b + of_nat 1) 0 = Some s2" "ok s2" "view (cell s2) phys b n = ?v[0 := 48, 1 := 0]"
      "elsewhere phys b n (cell s1) (cell s2)"
    using store [OF s1(2) assms(2-4), of 0] unfolding s1(3) by blast
  obtain x y r where "?v = x # y # r" using assms(4) by (metis length_view One_nat_def Suc_lessE length_Suc_conv less_SucE)
  then have "view (cell s2) phys b n = [48] @ 0 # r" by (simp add: s2(3))
  then show ?thesis using s1(1) s2(1,2) elsewhere_trans [OF s1(4) s2(4)]
    by (intro exI [of _ s2] exI [of _ r]) (simp add: itoa_def)
qed

lemma itoa_below_zero:
  assumes "ok s" "mapped phys b n" "inj_on (cell_at phys b) {..<n}" "a < 0" "0 < n"
  shows "\<exists>s' r. itoa rd wr a b s = Some s' \<and> ok s' \<and> view (cell s') phys b n = [] @ 0 # r \<and>
    elsewhere phys b n (cell s) (cell s')"
proof -
  obtain s1 where s1: "wr s (b + of_nat 0) 0 = Some s1" "ok s1" "view (cell s1) phys b n = (view (cell s) phys b n)[0 := 0]"
      "elsewhere phys b n (cell s) (cell s1)"
    using store [OF assms(1-3), of 0 0] assms(5) by auto
  have "itoa rd wr a b s = Some s1"
    using assms(4) s1(1) by (simp add: itoa_def itoa_digits.simps [of wr a] itoa_reverse.simps [of rd wr b 0 0])
  moreover obtain x r where "view (cell s) phys b n = x # r" using assms(5) by (metis length_view list.exhaust list.size(3) less_nat_zero_code)
  ultimately show ?thesis using s1 by (intro exI [of _ s1] exI [of _ r]) simp
qed

lemma view_load:
  "ok s \<Longrightarrow> mapped phys b n \<Longrightarrow> view (cell s) phys b n = ds @ 0 # r \<Longrightarrow> i \<le> length ds \<Longrightarrow>
   rd s (b + of_nat i) = Some ((ds @ [0]) ! i)"
proof -
  assume a: "ok s" "mapped phys b n" "view (cell s) phys b n = ds @ 0 # r" "i \<le> length ds"
  have "length (view (cell s) phys b n) = length ds + 1 + length r" by (simp add: a(3))
  then have "i < n" using a(4) by simp
  then show ?thesis using load [OF a(1,2)] a(3,4) by (simp add: nth_append)
qed

end

lemma strlen_from_ok:
  "(\<And>i. i < k \<Longrightarrow> \<exists>c. rd (a + of_nat (j + i)) = Some c \<and> c \<noteq> 0) \<Longrightarrow> rd (a + of_nat (j + k)) = Some 0 \<Longrightarrow>
   strlen_from rd a (int j) = Some (int (j + k))"
proof (induction k arbitrary: j)
  case 0
  then show ?case by (subst strlen_from.simps) simp
next
  case (Suc k)
  obtain c where c: "rd (a + of_nat j) = Some c" "c \<noteq> 0" using Suc.prems(1) [of 0] by auto
  have "strlen_from rd a (int (Suc j)) = Some (int (Suc j + k))"
  proof (rule Suc.IH)
    fix i assume "i < k"
    then show "\<exists>c. rd (a + of_nat (Suc j + i)) = Some c \<and> c \<noteq> 0" using Suc.prems(1) [of "Suc i"] by simp
  qed (use Suc.prems(2) in simp)
  then show ?case using c by (subst strlen_from.simps) (simp add: add.commute)
qed

lemma strlen_ok:
  assumes "\<And>i. i \<le> length ds \<Longrightarrow> rd (a + of_nat i) = Some ((ds @ [0]) ! i)" "0 \<notin> set ds"
  shows "strlen rd a = Some (int (length ds))"
proof -
  have "strlen_from rd a (int 0) = Some (int (0 + length ds))"
  proof (rule strlen_from_ok)
    fix i
    assume i: "i < length ds"
    then have "ds ! i \<noteq> 0" using assms(2) nth_mem by metis
    then show "\<exists>c. rd (a + of_nat (0 + i)) = Some c \<and> c \<noteq> 0" using assms(1) [of i] i by (simp add: nth_append)
  next
    show "rd (a + of_nat (0 + length ds)) = Some 0" using assms(1) [of "length ds"] by simp
  qed
  then show ?thesis by (simp add: strlen_def)
qed

section \<open>In the memory of a task\<close>

text \<open>The \<open>n\<close> bytes from \<open>b\<close> are different cells that the current task may read and write.\<close>

definition user_buffer :: "kstate \<Rightarrow> dword \<Rightarrow> nat \<Rightarrow> bool" where
  "user_buffer s b n \<longleftrightarrow>
     (\<forall>i<n. user_allowed s False (b + of_nat i) \<and> user_allowed s True (b + of_nat i) \<and> translate s (b + of_nat i) \<noteq> None) \<and>
     inj_on (\<lambda>i. translate s (b + of_nat i)) {..<n}"

text \<open>C37: \<^verbatim>\<open>itoa\<close> of any \<^verbatim>\<open>int\<close> into a writable buffer of 11 bytes: it leaves at most ten decimal
  digits and a zero byte, \<^verbatim>\<open>strlen\<close> of the text is the number of digits, the digits stand for the
  argument and do not begin with a zero unless the argument is zero, and no byte outside the
  buffer changes. A negative argument gives the empty text.\<close>

theorem itoa_roundtrip:
  assumes "user_buffer s b 11" "a < 2 ^ 31"
  shows "\<exists>s' ds. itoa user_read user_write a b s = Some s' \<and>
     (\<forall>i\<le>length ds. user_read s' (b + of_nat i) = Some ((ds @ [0]) ! i)) \<and> length ds \<le> 10 \<and>
     strlen (user_read s') b = Some (int (length ds)) \<and>
     (\<forall>d\<in>set ds. 48 \<le> unat d \<and> unat d < 58) \<and> decimal ds = nat a \<and>
     (a < 0 \<longrightarrow> ds = []) \<and> (0 < a \<longrightarrow> ds \<noteq> [] \<and> hd ds \<noteq> 48) \<and>
     (\<forall>x. (\<forall>i<11. translate s (b + of_nat i) \<noteq> Some x) \<longrightarrow> pmem s' x = pmem s x)"
proof -
  define phys where "phys = (\<lambda>c. if user_allowed s False c \<and> user_allowed s True c then translate s c else None)"
  have ph: "phys (b + of_nat i) = translate s (b + of_nat i)" "translate s (b + of_nat i) \<noteq> None" if "i < 11" for i
    using assms(1) that by (simp_all add: phys_def user_buffer_def)
  have m: "mapped phys b 11" using ph by (simp add: mapped_def)
  have inj: "inj_on (cell_at phys b) {..<11}"
  proof (rule inj_onI)
    fix i j
    assume i: "i \<in> {..<11}" "j \<in> {..<11}" "cell_at phys b i = cell_at phys b j"
    then have "translate s (b + of_nat i) = translate s (b + of_nat j)"
      using ph(1) [of i] ph(2) [of i] ph(1) [of j] ph(2) [of j] by (auto simp: cell_at_def)
    then show "i = j" using assms(1) i(1,2) by (auto simp: user_buffer_def dest: inj_onD)
  qed
  have dl: "length (digits_le (nat a)) \<le> 10" by (rule digits_le_length) (use assms(2) in simp)
  define ds where "ds = (if a = 0 then [48] else rev (digits_le (nat a)))"
  have "\<exists>s' r. itoa user_read user_write a b s = Some s' \<and> (translate s' = translate s \<and> user_allowed s' = user_allowed s) \<and>
      view (pmem s') phys b 11 = ds @ 0 # r \<and> elsewhere phys b 11 (pmem s) (pmem s')"
  proof (cases a "0 :: int" rule: linorder_cases)
    case less
    then have "ds = []" by (simp add: ds_def digits_le.simps)
    then show ?thesis using umem.itoa_below_zero [of s "translate s" "user_allowed s" b 11 a] m inj less by (simp add: phys_def)
  next
    case equal
    then show ?thesis using umem.itoa_zero [of s "translate s" "user_allowed s" b 11] m inj by (simp add: phys_def ds_def)
  next
    case greater
    then show ?thesis using umem.itoa_ok [of s "translate s" "user_allowed s" b 11 "nat a"] m inj dl by (simp add: phys_def ds_def)
  qed
  then obtain s' r where s': "itoa user_read user_write a b s = Some s'" "translate s' = translate s" "user_allowed s' = user_allowed s"
      "view (pmem s') phys b 11 = ds @ 0 # r" "elsewhere phys b 11 (pmem s) (pmem s')"
    by blast
  have rd: "user_read s' (b + of_nat i) = Some ((ds @ [0]) ! i)" if "i \<le> length ds" for i
    using umem.view_load [of s' "translate s" "user_allowed s" b 11 ds r i] s' m that by (simp add: phys_def)
  have rg: "\<forall>d\<in>set ds. 48 \<le> unat d \<and> unat d < 58" using digits_le_range [of _ "nat a"] by (auto simp: ds_def)
  then have nz: "0 \<notin> set ds" by (metis not_numeral_le_zero unat_0)
  have len: "length ds \<le> 10" using dl by (simp add: ds_def)
  have dec: "decimal ds = nat a" using decimal_rev [of "nat a"] by (simp add: ds_def decimal_def)
  have "0 < a \<Longrightarrow> ds \<noteq> [] \<and> hd ds \<noteq> 48" using digits_le_last [of "nat a"] by (simp add: ds_def hd_rev)
  moreover have "a < 0 \<Longrightarrow> ds = []" by (simp add: ds_def digits_le.simps)
  moreover have "pmem s' x = pmem s x" if "\<forall>i<11. translate s (b + of_nat i) \<noteq> Some x" for x
  proof -
    have "x \<notin> cell_at phys b ` {..<11}"
      using that ph by (auto simp: cell_at_def)
    then show ?thesis using s'(5) by (simp add: elsewhere_def)
  qed
  ultimately show ?thesis using s'(1) rd rg len dec strlen_ok [of ds "user_read s'" b, OF rd nz] by blast
qed

text \<open>A writable page of the first task.\<close>

lemma boot_page:
  obtains f where "f < TOTAL_PAGES"
    and "\<And>off. off < PAGE_SIZE \<Longrightarrow> translate boot_state (of_nat (264 * PAGE_SIZE + off)) = Some (of_nat (f * PAGE_SIZE + off))"
    and "\<And>off w. off < PAGE_SIZE \<Longrightarrow> user_allowed boot_state w (of_nat (264 * PAGE_SIZE + off))"
proof -
  obtain fs where b: "cr3 boot_state = Some (8 * TOTAL_PAGES)" "length fs = 28" "\<forall>f\<in>set fs. f \<in> frame_pool"
      "\<forall>k<28. pagusr_table boot_state 8 (USER_FIRST_PAGE + k) = user_pte (fs ! k) (NUM_PAG_CODE \<le> k)"
    using boot_booted by (auto simp: booted_def)
  have e: "pagusr_table boot_state 8 264 = user_pte (fs ! 8) True" using b(4) [rule_format, of 8] by simp
  have f: "fs ! 8 < TOTAL_PAGES" using b(2,3) nth_mem [of 8 fs] by (auto simp: frame_pool_def)
  show ?thesis
  proof (rule that [OF f])
    fix off :: nat and w
    assume "off < PAGE_SIZE"
    note m = mem_translate [OF boot_state(8) b(1) _ _ this, of 264]
    show "translate boot_state (of_nat (264 * PAGE_SIZE + off)) = Some (of_nat (fs ! 8 * PAGE_SIZE + off))"
      using m(1) f by (simp add: e user_pte_frame del: user_pte_bits(4))
    show "user_allowed boot_state w (of_nat (264 * PAGE_SIZE + off))"
      using m(2) [of w] by (simp add: e Let_def del: user_pte_bits(4))
  qed
qed

lemma boot_buffer: "user_buffer boot_state 0x108000 11"
proof (rule boot_page)
  fix f
  assume f: "f < TOTAL_PAGES"
    and tr: "\<And>off. off < PAGE_SIZE \<Longrightarrow> translate boot_state (of_nat (264 * PAGE_SIZE + off)) = Some (of_nat (f * PAGE_SIZE + off))"
    and ua: "\<And>off w. off < PAGE_SIZE \<Longrightarrow> user_allowed boot_state w (of_nat (264 * PAGE_SIZE + off))"
  have a: "(0x108000 :: dword) + of_nat i = of_nat (264 * PAGE_SIZE + i)" for i by simp
  have inj: "inj_on (\<lambda>i. translate boot_state (0x108000 + of_nat i)) {..<11}"
  proof (rule inj_onI)
    fix i j :: nat
    assume ij: "i \<in> {..<11}" "j \<in> {..<11}" "translate boot_state (0x108000 + of_nat i) = translate boot_state (0x108000 + of_nat j)"
    then have "(of_nat (f * PAGE_SIZE + i) :: dword) = of_nat (f * PAGE_SIZE + j)" unfolding a using tr by simp
    then have "unat (of_nat (f * PAGE_SIZE + i) :: dword) = unat (of_nat (f * PAGE_SIZE + j) :: dword)" by simp
    then have "f * PAGE_SIZE + i = f * PAGE_SIZE + j"
      using f ij(1,2) sint_of_nat_small(2) [of "f * PAGE_SIZE + i"] sint_of_nat_small(2) [of "f * PAGE_SIZE + j"] by simp
    then show "i = j" by simp
  qed
  have "user_allowed boot_state w (0x108000 + of_nat i)" "translate boot_state (0x108000 + of_nat i) \<noteq> None" if "i < 11" for i w
    unfolding a using ua tr that by simp_all
  with inj show ?thesis by (simp add: user_buffer_def)
qed

theorem itoa_roundtrip_witness:
  "\<exists>s' ds. itoa user_read user_write 1024 0x108000 boot_state = Some s' \<and> decimal ds = 1024 \<and>
     strlen (user_read s') 0x108000 = Some (int (length ds)) \<and> hd ds \<noteq> 48"
  using itoa_roundtrip [OF boot_buffer, of 1024] by auto

section \<open>\<^verbatim>\<open>perror\<close>\<close>

definition cstring :: "string \<Rightarrow> byte list" where
  "cstring str = map (\<lambda>c. of_nat (of_char c)) str"

lemma debug_port_fold: "debug_port (fold printc cs s) = debug_port s @ cs"
  by (induction cs arbitrary: s) (simp_all add: printc_def new_line_def Let_def)

lemma message_text: "0 \<notin> set (cstring (perror_message e))" "length (perror_message e) \<le> 100"
  by (simp_all add: perror_message_def cstring_def)

lemma stats_calls:
  obtains s1 where "update_entering_sys s = Some s1" "only_stats (current s) s s1"
  using update_stats_returns [of USER_TO_SYS s "current s"] update_stats_only [of "current s" USER_TO_SYS s]
  by (auto simp: update_entering_sys_def)

lemma stats_leaving:
  obtains s1 where "update_leaving_sys s = Some s1" "only_stats (current s) s s1"
  using update_stats_returns [of SYS_TO_USER s "current s"] update_stats_only [of "current s" SYS_TO_USER s]
  by (auto simp: update_leaving_sys_def)

lemma read_byte_stats: "only_stats t s s1 \<Longrightarrow> read_byte s1 a = read_byte s a"
proof -
  assume o: "only_stats t s s1"
  have "translate s1 = translate s" by (rule translate_cong) (use only_stats_fields [OF o] in simp_all)
  then show ?thesis using only_stats_fields(20) [OF o] by (simp add: read_byte_def)
qed

text \<open>\<^verbatim>\<open>perror\<close> sends the message of \<^verbatim>\<open>errno\<close>, without its zero byte, to the console through
  \<^verbatim>\<open>write\<close> and the system call handler, and leaves \<^verbatim>\<open>errno\<close> as it was.\<close>

theorem perror_prints:
  assumes "length loc = 256" "literal (perror_message errno) \<noteq> 0"
    and "\<And>i. i \<le> length (perror_message errno) \<Longrightarrow>
       user_read s (literal (perror_message errno) + of_nat i) = Some ((cstring (perror_message errno) @ [0]) ! i)"
  shows "\<exists>s'. perror literal loc errno s = Some (Ret (of_nat (length (perror_message errno))), errno, s') \<and>
     debug_port s' = debug_port s @ cstring (perror_message errno)"
proof -
  let ?a = "literal (perror_message errno)" and ?c = "cstring (perror_message errno)"
  let ?n = "length (perror_message errno)"
  have n: "length ?c = ?n" "?n \<le> 100" using message_text(2) by (simp_all add: cstring_def)
  have sz: "unat (of_nat ?n :: dword) = ?n" "sint (of_nat ?n :: dword) = int ?n"
    by (rule sint_of_nat_small; use n(2) in simp)+
  have len: "strlen (user_read s) ?a = Some (int ?n)"
    using strlen_ok [of ?c "user_read s" ?a] assms(3) message_text(1) n(1) by simp
  obtain s1 where s1: "update_entering_sys s = Some s1" "only_stats (current s) s s1" by (rule stats_calls)
  have rd: "read_byte s1 (?a + of_nat i) = Some (?c ! i)" if "i < ?n" for i
    using assms(3) [of i] that n(1) read_byte_stats [OF s1(2)] by (auto simp: user_read_def nth_append split: if_splits)
  have snt: "sent (unat (of_nat ?n :: dword)) = ?n" unfolding sz(1) using n(2) by (simp add: sent_def)
  have mp: "map (\<lambda>i. ?c ! i) [0..<?n] = ?c" using n(1) map_nth [of ?c] by simp
  have nn: "\<not> (of_nat ?n :: dword) <s 0" using sz(2) by (simp add: word_sless_alt)
  have wr: "sys_write 1 ?a (of_nat ?n) loc s1 = Some (of_nat ?n, fold printc ?c s1)"
    using sys_write_ok [where s = s1 and buffer = ?a and sz = "of_nat ?n" and R = "\<lambda>i. ?c ! i" and fd = 1, OF assms(1)]
      rd assms(2) nn unfolding snt mp by simp
  obtain s2 where s2: "update_leaving_sys (fold printc ?c s1) = Some s2"
      "only_stats (current (fold printc ?c s1)) (fold printc ?c s1) s2" by (rule stats_leaving)
  have "system_call_handler 4 1 ?a (of_nat ?n) loc s = Some (Ret (of_nat ?n), s2)"
    using s1(1) wr s2(1) by (simp add: system_call_handler_def sys_call_table_def returning_def leave_call_def word_sless_alt word_sle_eq)
  moreover have "0 <=s (of_nat ?n :: dword)" using sz(2) by (simp add: word_sle_eq)
  ultimately have "perror literal loc errno s = Some (Ret (of_nat ?n), errno, s2)"
    using len by (simp add: perror_def Let_def libc_write_def int80_def UPDATE_ERRNO_def)
  moreover have "debug_port s1 = debug_port s" "debug_port s2 = debug_port (fold printc ?c s1)"
    using s1(2) s2(2) by (auto simp: only_stats_def)
  then have "debug_port s2 = debug_port s @ ?c" by (simp add: debug_port_fold)
  ultimately show ?thesis by blast
qed

theorem perror_prints_witness:
  "\<exists>s s'. perror (\<lambda>_. 0x108000) (replicate 256 0) EBADF s = Some (Ret 30, EBADF, s') \<and>
     length (debug_port s') = length (debug_port s) + 30"
proof (rule boot_page)
  fix f
  assume f: "f < TOTAL_PAGES"
    and tr: "\<And>off. off < PAGE_SIZE \<Longrightarrow> translate boot_state (of_nat (264 * PAGE_SIZE + off)) = Some (of_nat (f * PAGE_SIZE + off))"
    and ua: "\<And>off w. off < PAGE_SIZE \<Longrightarrow> user_allowed boot_state w (of_nat (264 * PAGE_SIZE + off))"
  let ?c = "cstring (perror_message EBADF) @ [0]"
  let ?s = "boot_state\<lparr>pmem := \<lambda>x. ?c ! (unat x mod PAGE_SIZE)\<rparr>"
  have n: "length (perror_message EBADF) = 30" by (simp add: perror_message_def)
  have rd: "user_read ?s (0x108000 + of_nat i) = Some (?c ! i)" if "i \<le> 30" for i
  proof -
    have a: "(0x108000 :: dword) + of_nat i = of_nat (264 * PAGE_SIZE + i)" by simp
    have "unat (of_nat (f * PAGE_SIZE + i) :: dword) = f * PAGE_SIZE + i"
      by (rule sint_of_nat_small(2)) (use f that in simp)
    then show ?thesis unfolding a using tr [of i] ua [of i False] that
      by (simp add: user_read_def read_byte_def del: of_nat_add of_nat_mult)
  qed
  obtain s' where "perror (\<lambda>_. 0x108000) (replicate 256 0) EBADF ?s = Some (Ret (of_nat (length (perror_message EBADF))), EBADF, s')"
      "debug_port s' = debug_port ?s @ cstring (perror_message EBADF)"
    using perror_prints [of "replicate 256 0" "\<lambda>_. 0x108000" EBADF ?s] rd n by auto
  then show ?thesis using n by (intro exI [of _ ?s] exI [of _ s']) (simp add: cstring_def)
qed

section \<open>Calls that do not exist\<close>

text \<open>C36: a trap with a number that the table does not have, negative and huge numbers included, returns -1
  to the program with ENOSYS in \<^verbatim>\<open>errno\<close>; nothing in the kernel but the statistics of the caller changes.\<close>

theorem unknown_call_enosys:
  assumes "eax \<notin> {1, 2, 4, 5, 10, 19, 20, 21, 22, 23, 24, 25, 35}"
  shows "\<exists>s'. int80 eax ebx ecx edx loc errno s = Some (Ret (- 1), ENOSYS, s') \<and> only_stats (current s) s s'"
proof -
  have up: "UPDATE_ERRNO (- ENOSYS) errno = (- 1, ENOSYS)" by (simp add: UPDATE_ERRNO_def word_sle_eq)
  have "\<exists>s'. system_call_handler eax ebx ecx edx loc s = Some (Ret (- ENOSYS), s') \<and> only_stats (current s) s s'"
  proof (cases "eax <s 0 \<or> (36 :: dword) <=s eax")
    case True
    then show ?thesis using only_stats_refl by (simp add: system_call_handler_def)
  next
    case False
    have ne: "unat eax \<noteq> k" if "unat (of_nat k :: dword) = k" "of_nat k \<noteq> eax" for k using that by auto
    have k: "unat eax \<noteq> 1" "unat eax \<noteq> 2" "unat eax \<noteq> 4" "unat eax \<noteq> 5" "unat eax \<noteq> 10" "unat eax \<noteq> 19"
      "unat eax \<noteq> 20" "unat eax \<noteq> 21" "unat eax \<noteq> 22" "unat eax \<noteq> 23" "unat eax \<noteq> 24" "unat eax \<noteq> 25" "unat eax \<noteq> 35"
      by (rule ne; use assms in simp)+
    obtain s1 where s1: "update_entering_sys s = Some s1" "only_stats (current s) s s1" by (rule stats_calls)
    obtain s2 where s2: "update_leaving_sys s1 = Some s2" "only_stats (current s1) s1 s2" by (rule stats_leaving)
    have "system_call_handler eax ebx ecx edx loc s = Some (Ret (- ENOSYS), s2)"
      using False s1(1) s2(1) k by (simp add: system_call_handler_def sys_call_table_def leave_call_def sys_ni_syscall_def)
    then show ?thesis using only_stats_trans [OF s1(2)] s2(2) only_stats_fields(4) [OF s1(2)] by auto
  qed
  then show ?thesis using up by (auto simp: int80_def)
qed

theorem unknown_call_enosys_witness:
  "\<exists>s'. int80 (- 1) 0 0 0 [] 0 boot_state = Some (Ret (- 1), ENOSYS, s') \<and> only_stats 1 boot_state s'"
  using unknown_call_enosys [of "- 1" 0 0 0 "[]" 0 boot_state] boot_state(5) by simp

end
