(* ===== verification/Setup.thy ===== *)
theory Setup
  imports Boot Console
begin

text \<open>
  The hardware the kernel sets up before it enters user mode: the segment descriptors, gates and
  task state segment of \<^verbatim>\<open>types.h\<close>, the registers of \<^verbatim>\<open>hardware.c\<close>, \<^verbatim>\<open>setGdt\<close> and \<^verbatim>\<open>setTSS\<close> of \<^verbatim>\<open>mm.c\<close>,
  \<^verbatim>\<open>interrupt.c\<close>, and \<^verbatim>\<open>main\<close> of \<^verbatim>\<open>system.c\<close>. Two functions of the prebuilt libraries, \<^verbatim>\<open>set_handlers\<close>
  and \<^verbatim>\<open>zeos_init_auxjp\<close>, are parameters of the definitions that call them.
\<close>

section \<open>Parts of an address\<close>

definition highWord :: "dword \<Rightarrow> half" where
  "highWord address = ucast (drop_bit 16 address AND 0xFFFF)"

definition lowWord :: "dword \<Rightarrow> half" where
  "lowWord address = ucast (address AND 0xFFFF)"

definition midByte :: "dword \<Rightarrow> byte" where
  "midByte address = ucast (drop_bit 16 address AND 0xFF)"

definition highByte :: "dword \<Rightarrow> byte" where
  "highByte address = ucast (drop_bit 24 address AND 0xFF)"

section \<open>Structures\<close>

text \<open>\<^verbatim>\<open>Descriptor\<close>, \<^verbatim>\<open>Gate\<close>, \<^verbatim>\<open>TSS\<close> and \<^verbatim>\<open>Register\<close>; the padding words of the TSS are left out.\<close>

record Descriptor =
  limit :: half
  lowBase :: half
  midBase :: byte
  flags1 :: byte
  flags2 :: byte
  highBase :: byte

record Gate =
  lowOffset :: half
  segmentSelector :: half
  gate_flags :: half
  highOffset :: half

record TSS =
  t_PreviousTaskLink :: half
  t_esp0 :: dword
  t_ss0 :: half
  t_esp1 :: dword
  t_ss1 :: half
  t_esp2 :: dword
  t_ss2 :: half
  t_cr3 :: dword
  t_eip :: dword
  t_eFlags :: dword
  t_eax :: dword
  t_ecx :: dword
  t_edx :: dword
  t_ebx :: dword
  t_esp :: dword
  t_ebp :: dword
  t_esi :: dword
  t_edi :: dword
  t_es :: half
  t_cs :: half
  t_ss :: half
  t_ds :: half
  t_fs :: half
  t_gs :: half
  t_LDTSegmentSelector :: half
  t_debugTrap :: half
  t_IOMapBaseAddress :: half

record Register =
  reg_limit :: half
  reg_base :: dword

text \<open>
  The machine: the kernel's data, the tables, and the registers of the processor and of the
  interrupt controller. \<open>idt_addr\<close> and \<open>tss_addr\<close> are the addresses of the two variables;
  \<open>tss_esp0\<close> of the kernel's data is the field \<^verbatim>\<open>esp0\<close> of \<open>tss\<close>.
\<close>

record machine =
  kern :: kstate
  gdt :: "nat \<Rightarrow> Descriptor"
  gdtR :: Register
  idt :: "nat \<Rightarrow> Gate"
  idtR :: Register
  tss :: TSS
  r_gdt :: Register
  r_idt :: Register
  r_ldt :: half
  r_task :: half
  r_eflags :: dword
  r_cs :: half
  r_ss :: half
  r_ds :: half
  r_es :: half
  r_fs :: half
  r_gs :: half
  r_esp :: dword
  r_eip :: dword
  pic_mask :: byte
  idt_addr :: dword
  tss_addr :: dword

abbreviation (input) "KERNEL_CS \<equiv> (0x10 :: half)"
abbreviation (input) "KERNEL_DS \<equiv> (0x18 :: half)"
abbreviation (input) "USER_CS \<equiv> (0x23 :: half)"
abbreviation (input) "USER_DS \<equiv> (0x2B :: half)"
abbreviation (input) "KERNEL_TSS \<equiv> (0x30 :: half)"
abbreviation (input) "GDT_START \<equiv> (0x901b3 :: dword)"
abbreviation (input) "KERNEL_START \<equiv> (0x10000 :: dword)"
abbreviation (input) "INITIAL_EFLAGS \<equiv> (0x200 :: dword)"
abbreviation (input) "IDT_ENTRIES \<equiv> (256 :: nat)"

section \<open>\<^verbatim>\<open>hardware.c\<close>\<close>

definition get_eflags :: "machine \<Rightarrow> dword" where
  "get_eflags m = r_eflags m"

text \<open>Bit 1 of the flags is always set.\<close>

definition set_eflags :: "machine \<Rightarrow> machine" where
  "set_eflags m = m\<lparr>r_eflags := 2\<rparr>"

definition set_idt_reg :: "Register \<Rightarrow> machine \<Rightarrow> machine" where
  "set_idt_reg x m = m\<lparr>r_idt := x\<rparr>"

definition set_gdt_reg :: "Register \<Rightarrow> machine \<Rightarrow> machine" where
  "set_gdt_reg x m = m\<lparr>r_gdt := x\<rparr>"

definition set_ldt_reg :: "half \<Rightarrow> machine \<Rightarrow> machine" where
  "set_ldt_reg sel m = m\<lparr>r_ldt := sel\<rparr>"

definition set_task_reg :: "half \<Rightarrow> machine \<Rightarrow> machine" where
  "set_task_reg sel m = m\<lparr>r_task := sel\<rparr>"

text \<open>A jump to the next instruction.\<close>

definition delay :: "machine \<Rightarrow> machine" where
  "delay m = m"

definition enable_int :: "machine \<Rightarrow> machine" where
  "enable_int m =
     (let m = m\<lparr>pic_mask := 0xFC\<rparr>;
          m = delay m
      in m\<lparr>r_eflags := set_bit 9 (r_eflags m)\<rparr>)"

text \<open>
  \<^verbatim>\<open>*p_rdtr\<close> goes into the last word of the user stack's page; the far return loads what was
  pushed for it. The four words pushed on the boot stack, which nothing reads again, are not written, and the segment registers \<^verbatim>\<open>fs\<close>
  and \<^verbatim>\<open>gs\<close>, which nothing uses and which the return to a lower privilege clears, are not in the state.
\<close>

definition return_gate :: "half \<Rightarrow> half \<Rightarrow> dword \<Rightarrow> half \<Rightarrow> dword \<Rightarrow> machine \<Rightarrow> machine option" where
  "return_gate ds' ss' esp' cs' eip' m =
     do { w \<leftarrow> read_dword (kern m) (KERNEL_START + 8);
          k \<leftarrow> write_dword (kern m) (esp' + 12) w;
          Some (m\<lparr>kern := k, r_es := ds', r_ds := ds', r_ss := ss', r_esp := esp', r_cs := cs', r_eip := eip'\<rparr>) }"

section \<open>Descriptor tables\<close>

definition setGdt :: "machine \<Rightarrow> machine" where
  "setGdt m =
     (let i = unat (drop_bit 3 KERNEL_TSS); a = tss_addr m;
          m = m\<lparr>gdt := (gdt m)(i := (gdt m i)\<lparr>lowBase := lowWord a, midBase := midByte a, highBase := highByte a\<rparr>)\<rparr>;
          m = m\<lparr>gdtR := \<lparr>reg_limit = 256 * 8, reg_base = GDT_START\<rparr>\<rparr>
      in set_gdt_reg (gdtR m) m)"

definition setTSS :: "machine \<Rightarrow> machine" where
  "setTSS m =
     (let m = m\<lparr>kern := (kern m)\<lparr>tss_esp0 := KERNEL_ESP (kern m) 1\<rparr>,
                tss := \<lparr>t_PreviousTaskLink = 0, t_esp0 = KERNEL_ESP (kern m) 1, t_ss0 = KERNEL_DS,
                  t_esp1 = 0, t_ss1 = 0, t_esp2 = 0, t_ss2 = 0, t_cr3 = 0, t_eip = 0, t_eFlags = INITIAL_EFLAGS,
                  t_eax = 0, t_ecx = 0, t_edx = 0, t_ebx = 0, t_esp = USER_ESP, t_ebp = USER_ESP, t_esi = 0, t_edi = 0,
                  t_es = USER_DS, t_cs = USER_CS, t_ss = USER_DS, t_ds = USER_DS, t_fs = 0, t_gs = 0,
                  t_LDTSegmentSelector = KERNEL_TSS, t_debugTrap = 0, t_IOMapBaseAddress = 0\<rparr>\<rparr>
      in set_task_reg KERNEL_TSS m)"

section \<open>\<^verbatim>\<open>interrupt.c\<close>\<close>

definition set_gate :: "int \<Rightarrow> dword \<Rightarrow> half \<Rightarrow> machine \<Rightarrow> machine option" where
  "set_gate vector handler flags m =
     (if 0 \<le> vector \<and> vector < int IDT_ENTRIES
      then Some (m\<lparr>idt := (idt m)(nat vector := \<lparr>lowOffset = lowWord handler, segmentSelector = KERNEL_CS,
                                              gate_flags = flags, highOffset = highWord handler\<rparr>)\<rparr>)
      else None)"

definition setInterruptHandler :: "int \<Rightarrow> dword \<Rightarrow> dword \<Rightarrow> machine \<Rightarrow> machine option" where
  "setInterruptHandler vector handler maxAccessibleFromPL m =
     (let flags = (ucast (push_bit 13 maxAccessibleFromPL) :: half);
          flags = flags OR 0x8E00
      in set_gate vector handler flags m)"

definition setTrapHandler :: "int \<Rightarrow> dword \<Rightarrow> dword \<Rightarrow> machine \<Rightarrow> machine option" where
  "setTrapHandler vector handler maxAccessibleFromPL m =
     (let flags = (ucast (push_bit 13 maxAccessibleFromPL) :: half);
          flags = flags OR 0x8E00
      in set_gate vector handler flags m)"

text \<open>The addresses of the four handlers of \<^verbatim>\<open>entry.S\<close>.\<close>

record handlers =
  pf_addr :: dword
  clock_addr :: dword
  keyboard_addr :: dword
  system_call_addr :: dword

definition setIdt :: "(machine \<Rightarrow> machine) \<Rightarrow> handlers \<Rightarrow> machine \<Rightarrow> machine option" where
  "setIdt set_handlers h m =
     do { m \<leftarrow> Some (m\<lparr>idtR := \<lparr>reg_limit = of_nat (IDT_ENTRIES * 8 - 1), reg_base = idt_addr m\<rparr>\<rparr>);
          m \<leftarrow> Some (set_handlers m);
          m \<leftarrow> setInterruptHandler 14 (pf_addr h) 0 m;
          m \<leftarrow> setInterruptHandler 32 (clock_addr h) 0 m;
          m \<leftarrow> setInterruptHandler 33 (keyboard_addr h) 0 m;
          m \<leftarrow> setTrapHandler 0x80 (system_call_addr h) 3 m;
          Some (set_idt_reg (idtR m) m) }"

section \<open>\<^verbatim>\<open>main\<close>\<close>

definition set_seg_regs :: "half \<Rightarrow> half \<Rightarrow> dword \<Rightarrow> machine \<Rightarrow> machine" where
  "set_seg_regs data_sel stack_sel esp' m =
     m\<lparr>r_eflags := unset_bit 10 (r_eflags m), r_ds := data_sel, r_es := data_sel, r_fs := data_sel, r_gs := data_sel,
       r_ss := stack_sel, r_esp := esp' - 5 * 4\<rparr>"

definition kernel_loaded :: "byte list" where
  "kernel_loaded = map (\<lambda>c. of_nat (of_char c)) ''Kernel Loaded!    ''"

definition entering_user_mode :: "byte list" where
  "entering_user_mode = map (\<lambda>c. of_nat (of_char c)) ''Entering user mode...''"

definition on_kern :: "(kstate \<Rightarrow> kstate option) \<Rightarrow> machine \<Rightarrow> machine option" where
  "on_kern f m = map_option (\<lambda>k. m\<lparr>kern := k\<rparr>) (f (kern m))"

text \<open>Moving the user's image to where the first task's pages are.\<close>

definition copy_user_image :: "kstate \<Rightarrow> kstate option" where
  "copy_user_image s =
     do { sys_size \<leftarrow> read_dword s KERNEL_START;
          usr_size \<leftarrow> read_dword s (KERNEL_START + 4);
          copy_data (KERNEL_START + sys_size) L_USER_START (sint usr_size) s }"

text \<open>\<^verbatim>\<open>&protected_tasks[5]\<close> is \<^verbatim>\<open>&tasks[4]\<close>: the array starts one page before \<^verbatim>\<open>tasks\<close>.\<close>

definition main :: "(machine \<Rightarrow> machine) \<Rightarrow> (machine \<Rightarrow> machine) \<Rightarrow> handlers \<Rightarrow> machine \<Rightarrow> machine option" where
  "main set_handlers zeos_init_auxjp h m =
     do { m \<leftarrow> Some (set_eflags m);
          m \<leftarrow> Some (set_seg_regs KERNEL_DS KERNEL_DS (tasks_addr (kern m) + of_nat (4 * PAGE_SIZE)) m);
          m \<leftarrow> on_kern (\<lambda>k. Some (printk kernel_loaded k)) m;
          m \<leftarrow> Some (setGdt m);
          m \<leftarrow> setIdt set_handlers h m;
          m \<leftarrow> Some (setTSS m);
          m \<leftarrow> on_kern boot m;
          m \<leftarrow> on_kern copy_user_image m;
          m \<leftarrow> on_kern (\<lambda>k. Some (printk entering_user_mode k)) m;
          m \<leftarrow> Some (zeos_init_auxjp m);
          m \<leftarrow> Some (enable_int m);
          return_gate USER_DS USER_DS USER_ESP USER_CS L_USER_START m }"

end
