(* ===== verification/Setup_Proofs.thy ===== *)
theory Setup_Proofs
  imports Setup Kernel_Properties Console_Proofs
begin

text \<open>
  What the initialisation of the hardware leaves: gates and descriptors that hold the addresses they
  were given, and a processor in user mode in the user's program, which has been copied to the
  pages of the first task.
\<close>

section \<open>Addresses in gates and descriptors\<close>

definition gate_offset :: "Gate \<Rightarrow> dword" where
  "gate_offset g = push_bit 16 (ucast (highOffset g)) OR ucast (lowOffset g)"

definition gate_DPL :: "Gate \<Rightarrow> nat" where
  "gate_DPL g = unat (drop_bit 13 (gate_flags g) AND 3)"

definition gate_present :: "Gate \<Rightarrow> bool" where
  "gate_present g = bit (gate_flags g) 15"

definition gate_type :: "Gate \<Rightarrow> half" where
  "gate_type g = drop_bit 8 (gate_flags g) AND 0x1F"

definition descriptor_base :: "Descriptor \<Rightarrow> dword" where
  "descriptor_base d = push_bit 24 (ucast (highBase d)) OR push_bit 16 (ucast (midBase d)) OR ucast (lowBase d)"

lemma and_ffff: "ucast ((a :: dword) AND 0xFFFF) = (ucast a :: half)"
proof (rule bit_word_eqI)
  fix n :: nat
  have m: "(0xFFFF :: dword) = mask 16" by (simp add: mask_eq_exp_minus_1)
  assume "n < LENGTH(16)"
  then show "bit (ucast (a AND 0xFFFF) :: half) n = bit (ucast a :: half) n" unfolding m by (simp add: bit_simps)
qed

lemma and_ff: "ucast ((a :: dword) AND 0xFF) = (ucast a :: byte)"
proof (rule bit_word_eqI)
  fix n :: nat
  have m: "(0xFF :: dword) = mask 8" by (simp add: mask_eq_exp_minus_1)
  assume "n < LENGTH(8)"
  then show "bit (ucast (a AND 0xFF) :: byte) n = bit (ucast a :: byte) n" unfolding m by (simp add: bit_simps)
qed

lemma words_join: "push_bit 16 (ucast (highWord a)) OR ucast (lowWord a) = (a :: dword)"
proof (rule bit_word_eqI)
  fix n :: nat
  assume "n < LENGTH(32)"
  then show "bit (push_bit 16 (ucast (highWord a)) OR ucast (lowWord a) :: dword) n = bit a n"
    unfolding highWord_def lowWord_def and_ffff by (cases "n < 16") (auto simp: bit_simps)
qed

lemma bytes_join: "push_bit 24 (ucast (highByte a)) OR push_bit 16 (ucast (midByte a)) OR ucast (lowWord a) = (a :: dword)"
proof (rule bit_word_eqI)
  fix n :: nat
  assume "n < LENGTH(32)"
  then consider "n < 16" | "16 \<le> n" "n < 24" | "24 \<le> n" "n < 32" by fastforce
  then show "bit (push_bit 24 (ucast (highByte a)) OR push_bit 16 (ucast (midByte a)) OR ucast (lowWord a) :: dword) n = bit a n"
    unfolding highByte_def midByte_def lowWord_def and_ffff and_ff by cases (auto simp: bit_simps)
qed

section \<open>\<^verbatim>\<open>setIdt\<close>\<close>

text \<open>After \<^verbatim>\<open>setIdt\<close> the four gates hold the addresses of their handlers, split over two fields, the
  kernel's code segment and a present 32-bit interrupt gate; only the gate of the system calls
  can be used from user mode; the other gates are those of \<^verbatim>\<open>set_handlers\<close>, and the
  register points to the whole table.\<close>

theorem setIdt_gates:
  "\<exists>m'. setIdt set_handlers h m = Some m' \<and>
     (\<forall>(vector, handler, dpl) \<in> {(14, pf_addr h, 0), (32, clock_addr h, 0), (33, keyboard_addr h, 0),
          (0x80, system_call_addr h, 3)}.
        gate_offset (idt m' vector) = handler \<and> segmentSelector (idt m' vector) = KERNEL_CS \<and>
        gate_present (idt m' vector) \<and> gate_type (idt m' vector) = 0xE \<and> gate_DPL (idt m' vector) = dpl) \<and>
     (\<forall>v. v \<notin> {14, 32, 33, 0x80} \<longrightarrow>
        idt m' v = idt (set_handlers (m\<lparr>idtR := \<lparr>reg_limit = 2047, reg_base = idt_addr m\<rparr>\<rparr>)) v) \<and>
     r_idt m' = idtR (set_handlers (m\<lparr>idtR := \<lparr>reg_limit = 2047, reg_base = idt_addr m\<rparr>\<rparr>))"
proof -
  have f: "(ucast (push_bit 13 (0 :: dword)) OR 0x8E00 :: half) = 0x8E00"
    "(ucast (push_bit 13 (3 :: dword)) OR 0x8E00 :: half) = 0xEE00" by simp_all
  have "bit (0x8E00 :: half) 15" "bit (0xEE00 :: half) 15"
    by (simp_all add: bit_iff_odd_drop_bit drop_bit_eq_div)
  then show ?thesis
    by (simp add: setIdt_def setInterruptHandler_def setTrapHandler_def set_gate_def set_idt_reg_def Let_def f
      gate_offset_def words_join gate_present_def gate_type_def gate_DPL_def)
qed

text \<open>A machine after the loader has run, with the variables of the kernel zero.\<close>

definition reset_machine :: machine where
  "reset_machine = \<lparr>kern = reset_state,
     gdt = (\<lambda>_. \<lparr>limit = 0, lowBase = 0, midBase = 0, flags1 = 0, flags2 = 0, highBase = 0\<rparr>), gdtR = \<lparr>reg_limit = 0, reg_base = 0\<rparr>,
     idt = (\<lambda>_. \<lparr>lowOffset = 0, segmentSelector = 0, gate_flags = 0, highOffset = 0\<rparr>), idtR = \<lparr>reg_limit = 0, reg_base = 0\<rparr>,
     tss = \<lparr>t_PreviousTaskLink = 0, t_esp0 = 0, t_ss0 = 0, t_esp1 = 0, t_ss1 = 0, t_esp2 = 0, t_ss2 = 0, t_cr3 = 0,
       t_eip = 0, t_eFlags = 0, t_eax = 0, t_ecx = 0, t_edx = 0, t_ebx = 0, t_esp = 0, t_ebp = 0, t_esi = 0, t_edi = 0,
       t_es = 0, t_cs = 0, t_ss = 0, t_ds = 0, t_fs = 0, t_gs = 0, t_LDTSegmentSelector = 0, t_debugTrap = 0,
       t_IOMapBaseAddress = 0\<rparr>,
     r_gdt = \<lparr>reg_limit = 0, reg_base = 0\<rparr>, r_idt = \<lparr>reg_limit = 0, reg_base = 0\<rparr>, r_ldt = 0, r_task = 0, r_eflags = 2,
     r_cs = 0x10, r_ss = 0x18, r_ds = 0x18, r_es = 0x18, r_fs = 0x18, r_gs = 0x18, r_esp = 0x9000, r_eip = 0x10000,
     pic_mask = 0xFF, idt_addr = 0x40000, tss_addr = 0x40800\<rparr>"

definition entry_points :: handlers where
  "entry_points = \<lparr>pf_addr = 0x10100, clock_addr = 0x10140, keyboard_addr = 0x10180, system_call_addr = 0x101C0\<rparr>"

theorem setIdt_gates_witness:
  "\<exists>m'. setIdt (\<lambda>m. m) entry_points reset_machine = Some m' \<and> gate_offset (idt m' 0x80) = 0x101C0 \<and>
     gate_DPL (idt m' 0x80) = 3 \<and> gate_DPL (idt m' 14) = 0"
  using setIdt_gates [of "\<lambda>m. m" entry_points reset_machine] by (auto simp: entry_points_def)

section \<open>The task state segment\<close>

text \<open>\<^verbatim>\<open>setGdt\<close> and \<^verbatim>\<open>setTSS\<close> make the descriptor of the TSS point to the variable \<^verbatim>\<open>tss\<close>,
  leave the other descriptors and the rest of this one, and give the kernel stack of task 1
  to the processor for the next entry into the kernel. The limit of the table is 2048, one more than
  its last byte.\<close>

theorem tss_installed:
  "descriptor_base (gdt (setTSS (setGdt m)) 6) = tss_addr m \<and>
   limit (gdt (setTSS (setGdt m)) 6) = limit (gdt m 6) \<and> flags1 (gdt (setTSS (setGdt m)) 6) = flags1 (gdt m 6) \<and>
   flags2 (gdt (setTSS (setGdt m)) 6) = flags2 (gdt m 6) \<and>
   (gdt (setTSS (setGdt m)))(6 := gdt m 6) = gdt m \<and>
   r_gdt (setTSS (setGdt m)) = \<lparr>reg_limit = 2048, reg_base = GDT_START\<rparr> \<and> r_task (setTSS (setGdt m)) = KERNEL_TSS \<and>
   t_ss0 (tss (setTSS (setGdt m))) = KERNEL_DS \<and> t_esp0 (tss (setTSS (setGdt m))) = KERNEL_ESP (kern m) 1 \<and>
   tss_esp0 (kern (setTSS (setGdt m))) = KERNEL_ESP (kern m) 1"
proof -
  have "unat (drop_bit 3 KERNEL_TSS) = 6" by (simp add: drop_bit_eq_div)
  then show ?thesis
    by (simp add: setTSS_def setGdt_def set_gdt_reg_def set_task_reg_def Let_def descriptor_base_def bytes_join)
qed

section \<open>The memory after the initialisation\<close>

text \<open>The pages of the user's program and of the kernel, as bytes.\<close>

lemma user_cells:
  assumes b: "booted s s'" and mem: "mem_ok s'"
  obtains g where "\<And>i. i < 28 * PAGE_SIZE \<Longrightarrow> translate s' (0x100000 + of_nat i) = Some (of_nat (g i))"
    and "\<And>i. i < 28 * PAGE_SIZE \<Longrightarrow> user_allowed s' False (0x100000 + of_nat i)"
    and "\<And>i. i < 28 * PAGE_SIZE \<Longrightarrow> 256 * PAGE_SIZE \<le> g i \<and> g i < 2 ^ 22" and "inj_on g {..<28 * PAGE_SIZE}"
proof -
  obtain fs where fs: "length fs = 28" "distinct fs" "\<forall>f\<in>set fs. f \<in> frame_pool" "cr3 s' = Some (8 * TOTAL_PAGES)"
      "\<forall>k<28. pagusr_table s' 8 (USER_FIRST_PAGE + k) = user_pte (fs ! k) (NUM_PAG_CODE \<le> k)"
    using b by (auto simp: booted_def)
  define g where "g i = fs ! (i div PAGE_SIZE) * PAGE_SIZE + i mod PAGE_SIZE" for i
  have fr: "256 \<le> fs ! k" "fs ! k < TOTAL_PAGES" if "k < 28" for k
    using fs(1,3) that nth_mem [of k fs] by (auto simp: frame_pool_def)
  have k: "i div PAGE_SIZE < 28" if "i < 28 * PAGE_SIZE" for i using that by (simp add: div_less_iff_less_mult)
  have a: "(0x100000 :: dword) + of_nat i = of_nat ((256 + i div PAGE_SIZE) * PAGE_SIZE + i mod PAGE_SIZE)" for i
  proof -
    have "(256 + i div PAGE_SIZE) * PAGE_SIZE + i mod PAGE_SIZE = 0x100000 + i"
      using div_mult_mod_eq [of i PAGE_SIZE] by (simp add: algebra_simps)
    then show ?thesis by simp
  qed
  have e: "pagusr_table s' 8 (256 + i div PAGE_SIZE) = user_pte (fs ! (i div PAGE_SIZE)) (NUM_PAG_CODE \<le> i div PAGE_SIZE)"
    if "i < 28 * PAGE_SIZE" for i
    using fs(5) k [OF that] by simp
  have tr: "translate s' (0x100000 + of_nat i) = Some (of_nat (g i))" "user_allowed s' False (0x100000 + of_nat i)"
    if i: "i < 28 * PAGE_SIZE" for i
    unfolding a g_def
    using mem_translate(1) [OF mem fs(4), of "256 + i div PAGE_SIZE" "i mod PAGE_SIZE"]
      mem_translate(2) [OF mem fs(4), of "256 + i div PAGE_SIZE" "i mod PAGE_SIZE" False] k [OF i] fr(2) [OF k [OF i]]
    by (simp_all add: e [OF i] user_pte_frame Let_def del: user_pte_bits(4) of_nat_add of_nat_mult)
  have bd: "256 * PAGE_SIZE \<le> g i \<and> g i < 2 ^ 22" if i: "i < 28 * PAGE_SIZE" for i
  proof -
    have "i mod PAGE_SIZE < PAGE_SIZE" by simp
    then show ?thesis using fr [OF k [OF i]] by (simp add: g_def)
  qed
  have inj: "inj_on g {..<28 * PAGE_SIZE}"
  proof (rule inj_onI)
    fix i j
    assume i: "i \<in> {..<28 * PAGE_SIZE}" and j: "j \<in> {..<28 * PAGE_SIZE}" and eq: "g i = g j"
    have "g x div PAGE_SIZE = fs ! (x div PAGE_SIZE)" "g x mod PAGE_SIZE = x mod PAGE_SIZE" for x
      by (simp_all add: g_def)
    then have q: "fs ! (i div PAGE_SIZE) = fs ! (j div PAGE_SIZE)" "i mod PAGE_SIZE = j mod PAGE_SIZE" using eq by metis+
    then have "i div PAGE_SIZE = j div PAGE_SIZE"
      using fs(1,2) k i j by (simp add: nth_eq_iff_index_eq)
    then show "i = j" using q(2) by (metis div_mult_mod_eq)
  qed
  show ?thesis by (rule that [OF tr bd inj])
qed

lemma kernel_cells:
  assumes "booted s s'" "mem_ok s'"
  obtains p where "tasks_addr s' = of_nat (p * PAGE_SIZE)" "2 \<le> p" "p + 11 \<le> NUM_PAG_KERNEL"
    and "\<And>a. 0x1000 \<le> a \<Longrightarrow> a < 0x100000 \<Longrightarrow> a div PAGE_SIZE \<noteq> p - 1 \<Longrightarrow> a div PAGE_SIZE \<noteq> p + 10 \<Longrightarrow>
      translate s' (of_nat a) = Some (of_nat a)"
proof -
  have c: "cr3 s' = Some (8 * TOTAL_PAGES)" using assms(1) by (auto simp: booted_def)
  obtain p where p: "layout_ok s'" "\<forall>d<NR_TASKS. dir_pages s' (d * TOTAL_PAGES) = dir_pte s' d"
      "tasks_addr s' = of_nat (p * PAGE_SIZE)" "2 \<le> p" "p + 11 \<le> NUM_PAG_KERNEL"
      "\<forall>j<NR_TASKS. kernel_row p (pagusr_table s' j)"
    using assms(2) by (auto simp: mem_ok_def kmap_ok_def)
  have "translate s' (of_nat a) = Some (of_nat a)"
    if a: "0x1000 \<le> a" "a < 0x100000" "a div PAGE_SIZE \<noteq> p - 1" "a div PAGE_SIZE \<noteq> p + 10" for a
  proof -
    have "1 \<le> a div PAGE_SIZE" "a div PAGE_SIZE < NUM_PAG_KERNEL" using a(1,2) by (simp_all add: div_less_iff_less_mult less_eq_div_iff_mult_less_eq)
    then have "translate s' (of_nat (a div PAGE_SIZE * PAGE_SIZE + a mod PAGE_SIZE)) =
        Some (of_nat (a div PAGE_SIZE * PAGE_SIZE + a mod PAGE_SIZE))"
      using translate_kernel [OF p(1) c, of p "a div PAGE_SIZE" "a mod PAGE_SIZE"] p(2) [rule_format, of 8] p(6) [rule_format, of 8] a(3,4)
      by (simp del: of_nat_add of_nat_mult)
    then show ?thesis by (simp only: div_mult_mod_eq)
  qed
  then show ?thesis by (rule that [OF p(3-5)])
qed

section \<open>The user's program\<close>

text \<open>
  The loader has put the image at 0x10000: the system, which begins with the two sizes, and the
  user's program behind it. The words that are read and the program are not in the page of
  \<^verbatim>\<open>tasks[0]\<close>, whose stack the initialisation writes, nor in the guard pages around the array.
\<close>

definition image_at :: "kstate \<Rightarrow> nat \<Rightarrow> nat \<Rightarrow> byte list \<Rightarrow> bool" where
  "image_at s sys usr img \<longleftrightarrow>
     length img = sys + usr \<and> 12 \<le> sys \<and> 0x10000 + sys + usr \<le> 0x100000 \<and> usr \<le> 28 * PAGE_SIZE - 4 \<and>
     bytes_dword (take 4 img) = of_nat sys \<and> bytes_dword (take 4 (drop 4 img)) = of_nat usr \<and>
     (\<forall>i < sys + usr. pmem s (of_nat (0x10000 + i)) = img ! i) \<and>
     (let p = unat (tasks_addr s) div PAGE_SIZE
      in \<forall>i < sys + usr. i < 12 \<or> sys \<le> i \<longrightarrow> (0x10000 + i) div PAGE_SIZE \<notin> {p - 1, p, p + 10})"

lemma image_kept:
  assumes b: "booted s s'" and mem: "mem_ok s'" and img: "image_at s sys usr img"
    and i: "i < sys + usr" "i < 12 \<or> sys \<le> i"
  shows "translate s' (of_nat (0x10000 + i)) = Some (of_nat (0x10000 + i))"
    and "pmem s' (of_nat (0x10000 + i)) = img ! i"
proof -
  let ?a = "0x10000 + i"
  have a: "?a < 0x100000" using img i(1) by (simp add: image_at_def)
  obtain p where p: "tasks_addr s' = of_nat (p * PAGE_SIZE)" "p + 11 \<le> NUM_PAG_KERNEL"
    and id: "\<And>a. 0x1000 \<le> a \<Longrightarrow> a < 0x100000 \<Longrightarrow> a div PAGE_SIZE \<noteq> p - 1 \<Longrightarrow> a div PAGE_SIZE \<noteq> p + 10 \<Longrightarrow>
      translate s' (of_nat a) = Some (of_nat a)"
    using kernel_cells [OF b mem] by blast
  have t: "tasks_addr s = of_nat (p * PAGE_SIZE)" using p(1) b by (simp add: booted_def)
  have up: "unat (tasks_addr s) = p * PAGE_SIZE" unfolding t by (rule sint_of_nat_small(2)) (use p(2) in simp)
  have pg: "?a div PAGE_SIZE \<notin> {p - 1, p, p + 10}"
  proof -
    have "\<forall>i < sys + usr. i < 12 \<or> sys \<le> i \<longrightarrow>
        (0x10000 + i) div PAGE_SIZE \<notin> {p * PAGE_SIZE div PAGE_SIZE - 1, p * PAGE_SIZE div PAGE_SIZE, p * PAGE_SIZE div PAGE_SIZE + 10}"
      using img unfolding image_at_def Let_def up by blast
    from this [rule_format, OF i] show ?thesis by (simp only: nonzero_mult_div_cancel_right) simp
  qed
  then show "translate s' (of_nat ?a) = Some (of_nat ?a)" using id [of ?a] a by simp
  have "of_nat ?a \<noteq> tasks_addr s + of_nat n" if n: "n < PAGE_SIZE" for n
  proof
    assume "of_nat ?a = tasks_addr s + of_nat n"
    then have "unat (of_nat ?a :: dword) = unat (of_nat (p * PAGE_SIZE + n) :: dword)" by (simp add: t)
    moreover have "unat (of_nat ?a :: dword) = ?a" by (rule sint_of_nat_small(2)) (use a in simp)
    moreover have "unat (of_nat (p * PAGE_SIZE + n) :: dword) = p * PAGE_SIZE + n"
      by (rule sint_of_nat_small(2)) (use p(2) n in simp)
    ultimately have "?a = p * PAGE_SIZE + n" by simp
    then have "?a div PAGE_SIZE = p" using n by simp
    then show False using pg by simp
  qed
  then have "pmem s' (of_nat ?a) = pmem s (of_nat ?a)" using b by (simp add: booted_def)
  then show "pmem s' (of_nat ?a) = img ! i" using img i(1) by (simp add: image_at_def)
qed

lemma read_dword_cells:
  assumes "\<And>i. i < 4 \<Longrightarrow> translate s (a + of_nat i) = Some (c i)"
  shows "read_dword s a = Some (bytes_dword (map (\<lambda>i. pmem s (c i)) [0..<4]))"
proof -
  have "mapped (translate s) a 4" using assms by (simp add: mapped_def)
  then have "read_bytes read_byte s a 4 = Some (map (\<lambda>i. pmem s (cell_at (translate s) a i)) [0..<4])"
    using kmem.read_bytes_ok [OF refl] by blast
  moreover have "map (\<lambda>i. pmem s (cell_at (translate s) a i)) [0..<4] = map (\<lambda>i. pmem s (c i)) [0..<4]"
    using assms by (simp add: cell_at_def)
  ultimately show ?thesis by (simp add: read_dword_def)
qed

lemma copy_user_image_ok:
  assumes b: "booted s s'" and mem: "mem_ok s'" and img: "image_at s sys usr img"
  shows "\<exists>m. copy_user_image s' = Some (s'\<lparr>pmem := m\<rparr>) \<and>
     (\<forall>i<usr. user_read (s'\<lparr>pmem := m\<rparr>) (0x100000 + of_nat i) = Some (img ! (sys + i)))"
proof -
  have l: "length img = sys + usr" "12 \<le> sys" "0x10000 + sys + usr \<le> 0x100000" "usr \<le> 28 * PAGE_SIZE - 4"
      "bytes_dword (take 4 img) = of_nat sys" "bytes_dword (take 4 (drop 4 img)) = of_nat usr"
    using img by (simp_all add: image_at_def)
  obtain g where g: "\<And>i. i < 28 * PAGE_SIZE \<Longrightarrow> translate s' (0x100000 + of_nat i) = Some (of_nat (g i))"
    and ua: "\<And>i. i < 28 * PAGE_SIZE \<Longrightarrow> user_allowed s' False (0x100000 + of_nat i)"
    and gb: "\<And>i. i < 28 * PAGE_SIZE \<Longrightarrow> 256 * PAGE_SIZE \<le> g i \<and> g i < 2 ^ 22" and inj: "inj_on g {..<28 * PAGE_SIZE}"
    using user_cells [OF b mem] by blast
  note kept = image_kept [OF b mem img]
  have word: "read_dword s' (of_nat (0x10000 + 4 * j)) = Some (bytes_dword (take 4 (drop (4 * j) img)))" if "j < 3" for j
  proof -
    have "translate s' (of_nat (0x10000 + 4 * j) + of_nat i) = Some (of_nat (0x10000 + (4 * j + i)))" if "i < 4" for i
    proof -
      have "(of_nat (0x10000 + 4 * j) :: dword) + of_nat i = of_nat (0x10000 + (4 * j + i))" by (simp add: add.assoc)
      then show ?thesis using kept(1) [of "4 * j + i"] \<open>j < 3\<close> that l(2) by (simp only:) simp
    qed
    note rd = read_dword_cells [OF this]
    have "map (\<lambda>i. pmem s' (of_nat (0x10000 + (4 * j + i)))) [0..<4] = take 4 (drop (4 * j) img)"
    proof (rule nth_equalityI)
      fix i assume "i < length (map (\<lambda>i. pmem s' (of_nat (0x10000 + (4 * j + i)))) [0..<4])"
      then show "map (\<lambda>i. pmem s' (of_nat (0x10000 + (4 * j + i)))) [0..<4] ! i = take 4 (drop (4 * j) img) ! i"
        using kept(2) [of "4 * j + i"] that l(1,2) by simp
    qed (use l(1,2) that in simp)
    then show ?thesis using rd by simp
  qed
  have w: "read_dword s' KERNEL_START = Some (of_nat sys)" "read_dword s' (KERNEL_START + 4) = Some (of_nat usr)"
    using word [of 0] word [of 1] l(5,6) by simp_all
  have us: "sint (of_nat usr :: dword) = int usr" by (rule sint_of_nat_small(1)) (use l(4) in simp)
  have ua': "(KERNEL_START + of_nat sys) + of_nat i = (of_nat (0x10000 + (sys + i)) :: dword)" for i by simp
  have src: "translate s' (KERNEL_START + of_nat sys + of_nat i) = Some (of_nat (0x10000 + (sys + i)))" if "i < usr" for i
    unfolding ua' by (rule kept(1)) (use that in simp_all)
  have dst: "translate s' (L_USER_START + of_nat i) = Some (of_nat (g i))" if "i < usr" for i
    using g [of i] that l(4) by simp
  have cs: "cell_at (translate s') (KERNEL_START + of_nat sys) i = of_nat (0x10000 + (sys + i))" if "i < usr" for i
    using src [OF that] by (simp add: cell_at_def)
  have cd: "cell_at (translate s') L_USER_START i = of_nat (g i)" if "i < usr" for i
    using dst [OF that] by (simp add: cell_at_def)
  have un: "unat (of_nat (g i) :: dword) = g i" "256 * PAGE_SIZE \<le> g i" if "i < usr" for i
  proof -
    have i: "i < 28 * PAGE_SIZE" using that l(4) by simp
    show "unat (of_nat (g i) :: dword) = g i" by (rule sint_of_nat_small(2)) (use gb [OF i] in simp)
    show "256 * PAGE_SIZE \<le> g i" using gb [OF i] by simp
  qed
  have "copy_region (translate s') (KERNEL_START + of_nat sys) L_USER_START usr"
    unfolding copy_region_def
  proof (intro conjI)
    show "mapped (translate s') (KERNEL_START + of_nat sys) usr" using src by (simp add: mapped_def)
    show "mapped (translate s') L_USER_START usr" using dst by (simp add: mapped_def)
    show "inj_on (cell_at (translate s') L_USER_START) {..<usr}"
    proof (rule inj_onI)
      fix i j
      assume ij: "i \<in> {..<usr}" "j \<in> {..<usr}" "cell_at (translate s') L_USER_START i = cell_at (translate s') L_USER_START j"
      then have "unat (of_nat (g i) :: dword) = unat (of_nat (g j) :: dword)" using cd by simp
      then have "g i = g j" using ij un(1) by simp
      then show "i = j" using inj ij(1,2) l(4) by (auto dest: inj_onD)
    qed
    have "cell_at (translate s') (KERNEL_START + of_nat sys) i \<noteq> cell_at (translate s') L_USER_START j"
      if i: "i < usr" and j: "j < usr" for i j
    proof
      assume "cell_at (translate s') (KERNEL_START + of_nat sys) i = cell_at (translate s') L_USER_START j"
      then have "unat (of_nat (0x10000 + (sys + i)) :: dword) = unat (of_nat (g j) :: dword)" using cs [OF i] cd [OF j] by simp
      moreover have "unat (of_nat (0x10000 + (sys + i)) :: dword) = 0x10000 + (sys + i)"
        by (rule sint_of_nat_small(2)) (use i l(3) in simp)
      ultimately show False using un [OF j] i l(3) by simp
    qed
    then show "cell_at (translate s') (KERNEL_START + of_nat sys) ` {..<usr} \<inter> cell_at (translate s') L_USER_START ` {..<usr} = {}"
      by blast
  qed
  from copy_data_ok [OF this] obtain s2 where s2: "copy_data (KERNEL_START + of_nat sys) L_USER_START (int usr) s' = Some s2"
      "copied (translate s') usr (KERNEL_START + of_nat sys) L_USER_START (pmem s') (pmem s2)" by blast
  obtain m where m: "s2 = s'\<lparr>pmem := m\<rparr>" using copy_data_frame [OF s2(1)] by blast
  have "user_read (s'\<lparr>pmem := m\<rparr>) (0x100000 + of_nat i) = Some (img ! (sys + i))" if i: "i < usr" for i
  proof -
    have "m (of_nat (g i)) = pmem s' (of_nat (0x10000 + (sys + i)))"
    proof -
      have "m (cell_at (translate s') L_USER_START i) = pmem s' (cell_at (translate s') (KERNEL_START + of_nat sys) i)"
        using s2(2) i unfolding copied_def m by simp
      then show ?thesis unfolding cs [OF i] cd [OF i] .
    qed
    also have "\<dots> = img ! (sys + i)" by (rule kept(2)) (use i in simp_all)
    finally show ?thesis using ua [of i] g [of i] i l(4) by (simp add: user_read_def read_byte_def)
  qed
  moreover have "copy_user_image s' = Some (s'\<lparr>pmem := m\<rparr>)"
    unfolding copy_user_image_def using w s2(1) us by (simp add: m)
  ultimately show ?thesis by blast
qed

section \<open>Entering user mode\<close>

lemma user_read_console: "console_only s s' \<Longrightarrow> user_read s' a = user_read s a"
proof -
  assume c: "console_only s s'"
  then obtain x y scr d where s': "s' = s\<lparr>cursor_x := x, cursor_y := y, screen := scr, debug_port := d\<rparr>" by (rule console_onlyE)
  have "user_allowed s' False a = user_allowed s False a"
    by (simp add: s' user_allowed_def dir_entry_def table_entry_def PT_row_def)
  then show ?thesis using read_byte_console [OF c] by (simp add: user_read_def)
qed

lemma printk_only: "console_only s (printk cs s)"
  unfolding printk_def by (rule printc_fold_only)

text \<open>The word that \<^verbatim>\<open>return_gate\<close> writes is the last one of the stack's page.\<close>

lemma return_gate_ok:
  assumes b: "booted s s'" and mem: "mem_ok s'" and img: "image_at s sys usr img"
    and same: "console_only (s'\<lparr>pmem := m0\<rparr>) (kern m)"
  shows "\<exists>mm. return_gate USER_DS USER_DS USER_ESP USER_CS L_USER_START m =
      Some (m\<lparr>kern := (kern m)\<lparr>pmem := mm\<rparr>, r_es := USER_DS, r_ds := USER_DS, r_ss := USER_DS, r_esp := USER_ESP,
               r_cs := USER_CS, r_eip := L_USER_START\<rparr>) \<and>
    (\<forall>i<usr. user_read ((kern m)\<lparr>pmem := mm\<rparr>) (0x100000 + of_nat i) = user_read (kern m) (0x100000 + of_nat i))"
proof -
  let ?k = "kern m"
  obtain x y scr d where k: "?k = s'\<lparr>pmem := m0, cursor_x := x, cursor_y := y, screen := scr, debug_port := d\<rparr>"
    using same by (rule console_onlyE) simp
  have tr: "translate ?k = translate s'" by (rule translate_cong) (simp_all add: k)
  have l: "12 \<le> sys" "usr \<le> 28 * PAGE_SIZE - 4" using img by (simp_all add: image_at_def)
  obtain g where g: "\<And>i. i < 28 * PAGE_SIZE \<Longrightarrow> translate s' (0x100000 + of_nat i) = Some (of_nat (g i))"
    and ua: "\<And>i. i < 28 * PAGE_SIZE \<Longrightarrow> user_allowed s' False (0x100000 + of_nat i)"
    and gb: "\<And>i. i < 28 * PAGE_SIZE \<Longrightarrow> 256 * PAGE_SIZE \<le> g i \<and> g i < 2 ^ 22" and inj: "inj_on g {..<28 * PAGE_SIZE}"
    using user_cells [OF b mem] by blast
  have un: "unat (of_nat (g i) :: dword) = g i" if "i < 28 * PAGE_SIZE" for i
    by (rule sint_of_nat_small(2)) (use gb [OF that] in simp)
  have "translate ?k (KERNEL_START + 8 + of_nat i) = Some (of_nat (0x10000 + (8 + i)))" if "i < 4" for i
  proof -
    have a: "(KERNEL_START + 8 :: dword) + of_nat i = of_nat (0x10000 + (8 + i))" by simp
    show ?thesis unfolding tr a by (rule image_kept(1) [OF b mem img]) (use that l(1) in simp_all)
  qed
  from read_dword_cells [OF this] obtain w where w: "read_dword ?k (KERNEL_START + 8) = Some w" by blast
  have top: "translate ?k (USER_ESP + 12 + of_nat j) = Some (of_nat (g (28 * PAGE_SIZE - 4 + j)))" if "j < 4" for j
  proof -
    have a: "USER_ESP + 12 + of_nat j = (0x100000 :: dword) + of_nat (28 * PAGE_SIZE - 4 + j)" by simp
    show ?thesis unfolding tr a by (rule g) (use that in simp)
  qed
  have "\<exists>mm. write_dword ?k (USER_ESP + 12) w = Some (?k\<lparr>pmem := mm\<rparr>)"
    by (rule write_kernel_dword) (use top in simp)
  then obtain mm where mm: "write_dword ?k (USER_ESP + 12) w = Some (?k\<lparr>pmem := mm\<rparr>)" by blast
  have "user_read (?k\<lparr>pmem := mm\<rparr>) (0x100000 + of_nat i) = user_read ?k (0x100000 + of_nat i)" if i: "i < usr" for i
  proof -
    have ii: "i < 28 * PAGE_SIZE" using i l(2) by simp
    have "pmem (?k\<lparr>pmem := mm\<rparr>) (of_nat (g i)) = pmem ?k (of_nat (g i))"
    proof (rule write_dword_untouched [OF mm])
      fix j :: nat
      assume j: "j < 4"
      have jj: "28 * PAGE_SIZE - 4 + j < 28 * PAGE_SIZE" using j by simp
      have "g (28 * PAGE_SIZE - 4 + j) \<noteq> g i"
        using inj_onD [OF inj, of "28 * PAGE_SIZE - 4 + j" i] j i l(2) by auto
      then have "(of_nat (g (28 * PAGE_SIZE - 4 + j)) :: dword) \<noteq> of_nat (g i)"
        using un [OF ii] un [OF jj] by metis
      then show "translate ?k (USER_ESP + 12 + of_nat j) \<noteq> Some (of_nat (g i))" using top [OF j] by simp
    qed
    then show ?thesis using g [OF ii] by (simp add: user_read_def read_byte_def tr)
  qed
  moreover have "return_gate USER_DS USER_DS USER_ESP USER_CS L_USER_START m =
      Some (m\<lparr>kern := ?k\<lparr>pmem := mm\<rparr>, r_es := USER_DS, r_ds := USER_DS, r_ss := USER_DS, r_esp := USER_ESP,
               r_cs := USER_CS, r_eip := L_USER_START\<rparr>)"
    unfolding return_gate_def w bind.bind_lunit mm by (rule refl)
  ultimately show ?thesis by blast
qed

lemma setIdt_returns: "\<exists>m'. setIdt set_handlers h m = Some m'"
  by (simp add: setIdt_def setInterruptHandler_def setTrapHandler_def set_gate_def Let_def)

lemma setIdt_kern:
  assumes "setIdt set_handlers h m = Some m'" "\<And>x. kern (set_handlers x) = kern x"
  shows "kern m' = kern m"
  using assms by (auto simp: setIdt_def setInterruptHandler_def setTrapHandler_def set_gate_def set_idt_reg_def Let_def)

lemma main_ok:
  assumes "layout_ok (kern m)" "zeroed (kern m)" "image_at (kern m) sys usr img"
    and "\<And>x. kern (set_handlers x) = kern x" "\<And>x. console_only (kern x) (kern (zeos_init_auxjp x))"
  shows "\<exists>m'. main set_handlers zeos_init_auxjp h m = Some m' \<and> ksafe (kern m') boot_view \<and>
     current (kern m') = 1 \<and> kpc (kern m') 1 = User_mode \<and> pic_mask m' = 0xFC \<and> bit (r_eflags m') 9 \<and>
     r_cs m' = USER_CS \<and> r_ss m' = USER_DS \<and> r_ds m' = USER_DS \<and> r_es m' = USER_DS \<and>
     r_esp m' = USER_ESP \<and> r_eip m' = L_USER_START \<and>
     (\<forall>i<usr. user_read (kern m') (L_USER_START + of_nat i) = Some (img ! (sys + i)))"
proof -
  define m1 where "m1 = set_seg_regs KERNEL_DS KERNEL_DS (tasks_addr (kern (set_eflags m)) + of_nat (4 * PAGE_SIZE)) (set_eflags m)"
  define m2 where "m2 = m1\<lparr>kern := printk kernel_loaded (kern m1)\<rparr>"
  define m3 where "m3 = setGdt m2"
  obtain m4 where m4: "setIdt set_handlers h m3 = Some m4" using setIdt_returns [of set_handlers h m3] by blast
  define m5 where "m5 = setTSS m4"
  have k1: "kern m1 = kern m" by (simp add: m1_def set_seg_regs_def set_eflags_def)
  obtain x y scr d where k2: "kern m2 = (kern m)\<lparr>cursor_x := x, cursor_y := y, screen := scr, debug_port := d\<rparr>"
    using printk_only [of "kern m" kernel_loaded] by (rule console_onlyE) (simp add: m2_def k1)
  have "kern m3 = kern m2" by (simp add: m3_def setGdt_def set_gdt_reg_def Let_def)
  then have k4: "kern m4 = kern m2" using setIdt_kern [OF m4 assms(4)] by simp
  have k5: "kern m5 = (kern m2)\<lparr>tss_esp0 := KERNEL_ESP (kern m4) 1\<rparr>"
    by (simp add: m5_def setTSS_def set_task_reg_def Let_def k4)
  have pre: "layout_ok (kern m5)" "zeroed (kern m5)" "image_at (kern m5) sys usr img"
    using assms(1-3) by (simp_all add: k5 k2 layout_ok_def zeroed_def image_at_def)
  obtain s' where s': "boot (kern m5) = Some s'" "current s' = 1" "kpc s' 1 = User_mode" "mem_ok s'" "booted (kern m5) s'"
    using boot_ok [OF pre(1,2)] by auto
  have safe: "ksafe s' boot_view" by (rule ksafe_boot [OF pre(1,2) s'(1)])
  obtain mc where mc: "copy_user_image s' = Some (s'\<lparr>pmem := mc\<rparr>)"
      "\<forall>i<usr. user_read (s'\<lparr>pmem := mc\<rparr>) (0x100000 + of_nat i) = Some (img ! (sys + i))"
    using copy_user_image_ok [OF s'(5,4) pre(3)] by blast
  define m6 where "m6 = m5\<lparr>kern := printk entering_user_mode (s'\<lparr>pmem := mc\<rparr>)\<rparr>"
  define m7 where "m7 = enable_int (zeos_init_auxjp m6)"
  have con: "console_only (s'\<lparr>pmem := mc\<rparr>) (kern m7)"
    using console_only_trans [OF printk_only [of "s'\<lparr>pmem := mc\<rparr>" entering_user_mode]] assms(5) [of m6]
    by (simp add: m7_def enable_int_def delay_def Let_def m6_def)
  obtain mm where mm: "return_gate USER_DS USER_DS USER_ESP USER_CS L_USER_START m7 =
      Some (m7\<lparr>kern := (kern m7)\<lparr>pmem := mm\<rparr>, r_es := USER_DS, r_ds := USER_DS, r_ss := USER_DS, r_esp := USER_ESP,
               r_cs := USER_CS, r_eip := L_USER_START\<rparr>)"
      "\<forall>i<usr. user_read ((kern m7)\<lparr>pmem := mm\<rparr>) (0x100000 + of_nat i) = user_read (kern m7) (0x100000 + of_nat i)"
    using return_gate_ok [OF s'(5,4) pre(3) con] by (elim exE conjE) (rule that)
  have run: "main set_handlers zeos_init_auxjp h m = return_gate USER_DS USER_DS USER_ESP USER_CS L_USER_START m7"
    unfolding main_def bind.bind_lunit on_kern_def m1_def [symmetric] option.map m2_def [symmetric] m3_def [symmetric] m4
      m5_def [symmetric] s'(1) using mc(1) by (simp add: m7_def m6_def)
  have k7: "current (kern m7) = 1" "kpc (kern m7) 1 = User_mode"
    using s'(2,3) by (auto intro: console_onlyE [OF con])
  have "ksafe ((kern m7)\<lparr>pmem := mm\<rparr>) boot_view"
    using ksafe_upd(1) [OF ksafe_console [OF ksafe_upd(1) [OF safe] con]] .
  moreover have "user_read ((kern m7)\<lparr>pmem := mm\<rparr>) (L_USER_START + of_nat i) = Some (img ! (sys + i))" if "i < usr" for i
    using mm(2) mc(2) user_read_console [OF con] that by simp
  moreover have "pic_mask m7 = 0xFC" "bit (r_eflags m7) 9"
    by (simp_all add: m7_def enable_int_def delay_def Let_def bit_simps)
  ultimately show ?thesis
    unfolding run mm(1) using k7 by simp
qed

text \<open>C28: from a loaded image and cleared variables \<^verbatim>\<open>main\<close> reaches the end of \<^verbatim>\<open>return_gate\<close>: the kernel's
  invariant holds, the clock and the keyboard are the only interrupts that are not masked, interrupts are on,
  the segment registers are those of the user, and the processor is at the first byte of the
  user's program, whose bytes the program can read at their addresses. The two library functions
  are assumed to leave the kernel's data alone but for the console.\<close>

theorem main_enters_user_mode:
  assumes "layout_ok (kern m)" "zeroed (kern m)" "image_at (kern m) sys usr img"
    and "\<And>x. kern (set_handlers x) = kern x" "\<And>x. console_only (kern x) (kern (zeos_init_auxjp x))"
  shows "\<exists>m'. main set_handlers zeos_init_auxjp h m = Some m' \<and> ksafe (kern m') boot_view \<and>
     current (kern m') = 1 \<and> kpc (kern m') 1 = User_mode \<and> pic_mask m' = 0xFC \<and> bit (r_eflags m') 9 \<and>
     r_cs m' = USER_CS \<and> r_ss m' = USER_DS \<and> r_ds m' = USER_DS \<and> r_es m' = USER_DS \<and>
     r_esp m' = USER_ESP \<and> r_eip m' = L_USER_START \<and>
     (\<forall>i<usr. user_read (kern m') (L_USER_START + of_nat i) = Some (img ! (sys + i)))"
  using assms by (rule main_ok)

theorem main_enters_user_mode_witness:
  "\<exists>m m'. main (\<lambda>x. x) (\<lambda>x. x) entry_points m = Some m' \<and> r_eip m' = 0x100000 \<and> bit (r_eflags m') 9 \<and>
     user_read (kern m') 0x100000 = Some 0xEB"
proof -
  let ?img = "dword_bytes 16 @ dword_bytes 4 @ replicate 8 0 @ [0xEB, 0xFE, 0x90, 0x90]"
  let ?k = "reset_state\<lparr>pmem := \<lambda>x. ?img ! (unat x - 0x10000)\<rparr>"
  let ?m = "reset_machine\<lparr>kern := ?k\<rparr>"
  have "layout_ok ?k" "zeroed ?k" using reset_ok by (simp_all add: layout_ok_def zeroed_def)
  moreover have "image_at ?k 16 4 ?img"
  proof -
    have u: "unat (of_nat (0x10000 + i) :: dword) - 0x10000 = i" if "i < 20" for i
    proof -
      have "unat (of_nat (0x10000 + i) :: dword) = 0x10000 + i" by (rule sint_of_nat_small(2)) (use that in simp)
      then show ?thesis by simp
    qed
    have l: "length ?img = 16 + 4" "take 4 ?img = dword_bytes 16" "take 4 (drop 4 ?img) = dword_bytes 4"
      by (simp_all add: dword_bytes_def)
    have "pmem ?k (of_nat (0x10000 + i)) = ?img ! i" if "i < 20" for i using u [OF that] by simp
    moreover have "(0x10000 + i) div PAGE_SIZE = 16" if "i < 20" for i
      by (rule div_nat_eqI) (use that in simp_all)
    moreover have "unat (tasks_addr ?k) div PAGE_SIZE = 33" by (simp add: reset_state_def)
    ultimately show ?thesis unfolding image_at_def Let_def l(2,3) bytes_dword_dword_bytes using l(1) by simp
  qed
  ultimately have "\<exists>m'. main (\<lambda>x. x) (\<lambda>x. x) entry_points ?m = Some m' \<and> ksafe (kern m') boot_view \<and>
     current (kern m') = 1 \<and> kpc (kern m') 1 = User_mode \<and> pic_mask m' = 0xFC \<and> bit (r_eflags m') 9 \<and>
     r_cs m' = USER_CS \<and> r_ss m' = USER_DS \<and> r_ds m' = USER_DS \<and> r_es m' = USER_DS \<and>
     r_esp m' = USER_ESP \<and> r_eip m' = L_USER_START \<and>
     (\<forall>i<4. user_read (kern m') (L_USER_START + of_nat i) = Some (?img ! (16 + i)))"
    by (intro main_enters_user_mode) simp_all
  then obtain m' where m': "main (\<lambda>x. x) (\<lambda>x. x) entry_points ?m = Some m'" "r_eip m' = 0x100000" "bit (r_eflags m') 9"
      "\<forall>i<4. user_read (kern m') (L_USER_START + of_nat i) = Some (?img ! (16 + i))"
    by blast
  have "user_read (kern m') 0x100000 = Some 0xEB" using m'(4) [rule_format, of 0] by (simp add: dword_bytes_def nth_append)
  then show ?thesis using m'(1-3) by blast
qed

end
