(* ===== verification/Memory_Properties.thy ===== *)
theory Memory_Properties
  imports Kernel_Properties Setup_Proofs
begin

text \<open>
  Properties of the memory of tasks: the page fault routine, the release of pages, the keyboard's bytes in the
  buffer of a reader, and what the kernel's own writes do not check.
\<close>

section \<open>Copy on write\<close>

text \<open>After the routine the faulting address is writable.\<close>

lemma address_split:
  fixes address :: dword
  assumes "page = unat (drop_bit 12 address)"
  shows "address = of_nat (page * PAGE_SIZE + unat address mod PAGE_SIZE)" "unat address mod PAGE_SIZE < PAGE_SIZE"
proof -
  have "page = unat address div PAGE_SIZE" using assms by (simp add: drop_bit_eq_div unat_div)
  then have "page * PAGE_SIZE + unat address mod PAGE_SIZE = unat address" by (simp only: div_mult_mod_eq)
  moreover have "of_nat (unat address) = address" by simp
  ultimately show "address = of_nat (page * PAGE_SIZE + unat address mod PAGE_SIZE)" by (simp only:)
qed simp

lemma writable_entry:
  assumes "mem_ok s" "cr3 s = Some (d * TOTAL_PAGES)" "d < NR_TASKS" "page = unat (drop_bit 12 address)" "page < TOTAL_PAGES"
    and "pagusr_table s d page = user_pte g True"
  shows "user_allowed s True address"
proof -
  note a = address_split [OF assms(4)]
  have "user_allowed s True (of_nat (page * PAGE_SIZE + unat address mod PAGE_SIZE))"
    unfolding mem_translate(2) [OF assms(1-3,5) a(2)] by (simp add: assms(6) Let_def del: user_pte_bits(4))
  then show ?thesis using a(1) by (simp only:)
qed

lemma counter_cases: "(c :: byte) = 0 \<or> c = 1 \<or> 2 \<le> c \<and> c \<noteq> 0 \<and> c \<noteq> 1"
proof -
  have "2 \<le> c" if "c \<noteq> 0" "c \<noteq> 1" using that by (simp add: word_le_nat_alt word_unat_eq_iff)
  then show ?thesis by blast
qed

lemma page_fault_writable:
  assumes "kinv s v" "mem_ok s" "get_PT s (current s) = Some d" "page = unat (drop_bit 12 address)"
    and acc: "access_ok VERIFY_WRITE address 1 s"
    and run: "pf_rsi address s = Some s'" "cr3 s' = cr3 s" "pagusr_table s' d page = user_pte g True"
  shows "user_allowed s' True address"
proof -
  obtain d' where d: "d' < NR_TASKS" "cr3 s = Some (d' * TOTAL_PAGES)" "get_PT s (current s) = Some d'"
      "heap_fits (heap_top (tasks s (current s)))"
    by (rule current_space [OF assms(1,2)]) blast
  have eq: "d' = d" using d(3) assms(3) by simp
  have page: "page < TOTAL_PAGES" using access_ok_pages(2) [OF acc d(4)] unfolding assms(4) by simp
  show ?thesis
    by (rule writable_entry [OF pf_rsi_safe(2) [OF assms(1,2) run(1)] _ _ assms(4) page run(3)]) (use d run(2) eq in simp_all)
qed

text \<open>What the routine does with an address that passes its check, by the users of the frame.\<close>

lemma page_fault_runs:
  assumes "kinv s v" "mem_ok s" "get_PT s (current s) = Some d"
    and "page = unat (drop_bit 12 address)" "f = unat (pte_pbase_addr (pagusr_table s d page))"
    and acc: "access_ok VERIFY_WRITE address 1 s"
  shows "cow_count_mem s f = 0 \<Longrightarrow> pf_rsi address s = None"
    and "cow_count_mem s f = 1 \<Longrightarrow> pf_rsi address s = Some (s\<lparr>cow_count_mem := (cow_count_mem s)(f := 0),
       pagusr_table := (pagusr_table s)(d := (pagusr_table s d)(page := user_pte f True))\<rparr>)"
    and "2 \<le> cow_count_mem s f \<Longrightarrow> (\<forall>g\<in>frame_pool. frame_used s g) \<or> \<not> pte_present (pagusr_table s d page) \<Longrightarrow>
       pf_rsi address s = None"
    and "\<And>g. 2 \<le> cow_count_mem s f \<Longrightarrow> g \<in> frame_pool \<Longrightarrow> \<not> frame_used s g \<Longrightarrow>
       \<forall>h\<in>frame_pool. h < g \<longrightarrow> frame_used s h \<Longrightarrow> pte_present (pagusr_table s d page) \<Longrightarrow>
       \<exists>m. frame_copied f g (pmem s) m \<and> pf_rsi address s = Some (s\<lparr>pmem := m,
         phys_mem := (phys_mem s)(g := USED_FRAME),
         cow_count_mem := (cow_count_mem s)(f := cow_count_mem s f - 1, g := 0),
         pagusr_table := (pagusr_table s)(d := (pagusr_table s d)(SPARE_PAGE := 0, page := user_pte g True))\<rparr>)"
proof -
  note d = assms(3) and f = assms(5)
  show "pf_rsi address s = None" if "cow_count_mem s f = 0"
  proof (rule pf_rsi_ok [OF assms(1,2) acc, folded assms(4)], goal_cases)
    case (1 d' f')
    then have "f' = f" using d f by simp
    with 1(6) that show ?case by blast
  qed
  show "pf_rsi address s = Some (s\<lparr>cow_count_mem := (cow_count_mem s)(f := 0),
       pagusr_table := (pagusr_table s)(d := (pagusr_table s d)(page := user_pte f True))\<rparr>)" if "cow_count_mem s f = 1"
  proof (rule pf_rsi_ok [OF assms(1,2) acc, folded assms(4)], goal_cases)
    case (1 d' f')
    then have "d' = d" "f' = f" using d f by simp_all
    with 1(7) that show ?case by blast
  qed
  show "pf_rsi address s = None" if c: "2 \<le> cow_count_mem s f"
    and stop: "(\<forall>g\<in>frame_pool. frame_used s g) \<or> \<not> pte_present (pagusr_table s d page)"
  proof (cases "\<forall>g\<in>frame_pool. frame_used s g")
    case True
    show ?thesis
    proof (rule pf_rsi_ok [OF assms(1,2) acc, folded assms(4)], goal_cases)
      case (1 d' f')
      then have "f' = f" using d f by simp
      with 1(8) c True show ?case by blast
    qed
  next
    case False
    then obtain g where g: "g \<in> frame_pool" "\<not> frame_used s g" "\<forall>h\<in>frame_pool. h < g \<longrightarrow> frame_used s h"
      using exists_least_iff [of "\<lambda>g. g \<in> frame_pool \<and> \<not> frame_used s g"] by blast
    have np: "\<not> pte_present (pagusr_table s d page)" using stop False by blast
    show ?thesis
    proof (rule pf_rsi_ok [OF assms(1,2) acc, folded assms(4)], goal_cases)
      case (1 d' f')
      then have "d' = d" "f' = f" using d f by simp_all
      with 1(9) [of g] g np c show ?case by blast
    qed
  qed
  show "\<exists>m. frame_copied f g (pmem s) m \<and> pf_rsi address s = Some (s\<lparr>pmem := m,
         phys_mem := (phys_mem s)(g := USED_FRAME),
         cow_count_mem := (cow_count_mem s)(f := cow_count_mem s f - 1, g := 0),
         pagusr_table := (pagusr_table s)(d := (pagusr_table s d)(SPARE_PAGE := 0, page := user_pte g True))\<rparr>)"
    if "2 \<le> cow_count_mem s f" "g \<in> frame_pool" "\<not> frame_used s g"
      "\<forall>h\<in>frame_pool. h < g \<longrightarrow> frame_used s h" "pte_present (pagusr_table s d page)" for g
  proof (rule pf_rsi_ok [OF assms(1,2) acc, folded assms(4)], goal_cases)
    case (1 d' f')
    then have "d' = d" "f' = f" using d f by simp_all
    with 1(10) [of g] that show ?case by blast
  qed
qed

lemma page_fault_copies:
  assumes "kinv s v" "mem_ok s" "get_PT s (current s) = Some d"
    and "page = unat (drop_bit 12 address)" "f = unat (pte_pbase_addr (pagusr_table s d page))"
    and acc: "access_ok VERIFY_WRITE address 1 s"
    and shared: "2 \<le> cow_count_mem s f" "\<not> (\<forall>g\<in>frame_pool. frame_used s g)" "pte_present (pagusr_table s d page)"
  shows "\<exists>g m s'. g \<in> frame_pool \<and> \<not> frame_used s g \<and> (\<forall>h\<in>frame_pool. h < g \<longrightarrow> frame_used s h) \<and>
     frame_copied f g (pmem s) m \<and> pf_rsi address s = Some s' \<and> user_allowed s' True address \<and>
     s' = s\<lparr>pmem := m, phys_mem := (phys_mem s)(g := USED_FRAME),
            cow_count_mem := (cow_count_mem s)(f := cow_count_mem s f - 1, g := 0),
            pagusr_table := (pagusr_table s)(d := (pagusr_table s d)(SPARE_PAGE := 0, page := user_pte g True))\<rparr>"
proof -
  obtain g where g: "g \<in> frame_pool" "\<not> frame_used s g" "\<forall>h\<in>frame_pool. h < g \<longrightarrow> frame_used s h"
    using exists_least_iff [of "\<lambda>g. g \<in> frame_pool \<and> \<not> frame_used s g"] shared(2) by blast
  obtain m where m: "frame_copied f g (pmem s) m" "pf_rsi address s = Some (s\<lparr>pmem := m,
       phys_mem := (phys_mem s)(g := USED_FRAME),
       cow_count_mem := (cow_count_mem s)(f := cow_count_mem s f - 1, g := 0),
       pagusr_table := (pagusr_table s)(d := (pagusr_table s d)(SPARE_PAGE := 0, page := user_pte g True))\<rparr>)"
    using page_fault_runs(4) [OF assms(1-6) shared(1) g shared(3)] by blast
  show ?thesis
    using g m page_fault_writable [OF assms(1-4) acc m(2), of g]
    by (intro exI [of _ g] exI [of _ m] exI conjI) (rule refl | assumption | simp)+
qed

text \<open>C9: the page fault routine on every branch. An address that \<^verbatim>\<open>access_ok\<close> refuses stops the machine,
  and so does a page whose frame is not shared; the last user of a shared frame gets its page back
  writable; another user gets the lowest free frame with a copy of the page, the old frame losing
  one user, or stops the machine if there is no free frame or if the page is not even mapped. The
  frame of the page may itself be free, through an entry that outlived it: then it may be the lowest
  free one, is taken again and keeps its content. In all cases that return the store can be
  repeated.\<close>

theorem page_fault_cow:
  assumes "kinv s v" "mem_ok s" "get_PT s (current s) = Some d"
    and "page = unat (drop_bit 12 address)" "f = unat (pte_pbase_addr (pagusr_table s d page))"
  shows "if \<not> access_ok VERIFY_WRITE address 1 s \<or> cow_count_mem s f = 0 then pf_rsi address s = None
     else if cow_count_mem s f = 1 then
        (\<exists>s'. pf_rsi address s = Some s' \<and> user_allowed s' True address \<and>
           s' = s\<lparr>cow_count_mem := (cow_count_mem s)(f := 0),
                  pagusr_table := (pagusr_table s)(d := (pagusr_table s d)(page := user_pte f True))\<rparr>)
     else if (\<forall>g\<in>frame_pool. frame_used s g) \<or> \<not> pte_present (pagusr_table s d page) then pf_rsi address s = None
     else (\<exists>g m s'. g \<in> frame_pool \<and> \<not> frame_used s g \<and> (\<forall>h\<in>frame_pool. h < g \<longrightarrow> frame_used s h) \<and>
           frame_copied f g (pmem s) m \<and> pf_rsi address s = Some s' \<and> user_allowed s' True address \<and>
           s' = s\<lparr>pmem := m, phys_mem := (phys_mem s)(g := USED_FRAME),
                  cow_count_mem := (cow_count_mem s)(f := cow_count_mem s f - 1, g := 0),
                  pagusr_table := (pagusr_table s)(d := (pagusr_table s d)(SPARE_PAGE := 0, page := user_pte g True))\<rparr>)"
proof (cases "access_ok VERIFY_WRITE address 1 s")
  case False
  then show ?thesis by (simp add: pf_rsi_def)
next
  case acc: True
  note writable = page_fault_writable [OF assms(1-4) acc]
  note run = page_fault_runs [OF assms acc]
  consider "cow_count_mem s f = 0" | "cow_count_mem s f = 1"
    | "2 \<le> cow_count_mem s f" "cow_count_mem s f \<noteq> 0" "cow_count_mem s f \<noteq> 1" using counter_cases by blast
  then show ?thesis
  proof cases
    case 1
    then show ?thesis using run(1) by simp
  next
    case 2
    then show ?thesis using acc run(2) [OF 2] writable [OF run(2) [OF 2], of f] by simp
  next
    case 3
    show ?thesis
    proof (cases "(\<forall>g\<in>frame_pool. frame_used s g) \<or> \<not> pte_present (pagusr_table s d page)")
      case True
      then show ?thesis using run(3) [OF 3(1)] 3(3) by auto
    next
      case False
      then have c: "\<not> (\<forall>g\<in>frame_pool. frame_used s g)" "pte_present (pagusr_table s d page)" by blast+
      have n: "\<not> (\<not> access_ok VERIFY_WRITE address 1 s \<or> cow_count_mem s f = 0)" "\<not> cow_count_mem s f = 1"
        using acc 3 by blast+
      show ?thesis unfolding if_not_P [OF n(1)] if_not_P [OF n(2)] if_not_P [OF False]
        by (rule page_fault_copies [OF assms acc 3(1) c])
    qed
  qed
qed

theorem page_fault_cow_witness:
  "\<exists>s'. pf_rsi 0x108000 (boot_state\<lparr>cow_count_mem := \<lambda>_. 1\<rparr>) = Some s' \<and> user_allowed s' True 0x108000"
proof -
  let ?s = "boot_state\<lparr>cow_count_mem := \<lambda>_. 1\<rparr>"
  have k: "kinv ?s boot_view" by (rule kinv_core [OF boot_state(2)]) (simp add: core_same_def)
  have m: "mem_ok ?s" by (rule mem_ok_cong [OF boot_state(8)]) simp_all
  have acc: "access_ok VERIFY_WRITE 0x108000 1 ?s" by (simp add: access_ok_def)
  obtain d where "get_PT ?s (current ?s) = Some d" by (rule current_space [OF k m])
  from page_fault_cow [OF k m this refl refl, where address = "0x108000"] acc show ?thesis by auto
qed

section \<open>Writing bytes to a task\<close>

lemma write_bytes_read:
  assumes "mapped (translate s) q (length bs)" "inj_on (cell_at (translate s) q) {..<length bs}"
  shows "\<exists>m. write_bytes write_byte s q bs = Some (s\<lparr>pmem := m\<rparr>) \<and>
    (\<forall>i<length bs. read_byte (s\<lparr>pmem := m\<rparr>) (q + of_nat i) = Some (bs ! i))"
proof -
  obtain s' where s': "write_bytes write_byte s q bs = Some s'"
      "\<forall>i<length bs. pmem s' (cell_at (translate s) q i) = bs ! i"
    using kmem.write_bytes_ok [OF refl assms] by blast
  obtain m where m: "s' = s\<lparr>pmem := m\<rparr>" using write_bytes_frame [OF s'(1)] by blast
  have "read_byte (s\<lparr>pmem := m\<rparr>) (q + of_nat i) = Some (bs ! i)" if i: "i < length bs" for i
  proof -
    obtain y where y: "translate s (q + of_nat i) = Some y" using assms(1) i by (auto simp: mapped_def)
    then show ?thesis using s'(2) [rule_format, OF i] by (simp add: read_byte_def m cell_at_def)
  qed
  then show ?thesis using s'(1) m by blast
qed

lemma keyboard_read_ok:
  assumes "buffer_wf s" "list_empty Keyboard_queue (links s)" "n \<le> length (buffer_bytes s)"
    and "mapped (translate s) buffer n" "inj_on (cell_at (translate s) buffer) {..<n}"
  shows "\<exists>s'. sys_read_keyboard buffer (of_nat n) s = Some (Ret (of_nat n), s') \<and>
     (\<forall>i<n. read_byte s' (buffer + of_nat i) = Some (buffer_bytes s ! i)) \<and>
     buffer_bytes s' = drop n (buffer_bytes s) \<and> buffer_wf s' \<and>
     (\<exists>m f. s' = s\<lparr>pmem := m, buff_from := f\<rparr>)"
proof -
  have n: "n \<le> buffer_len s" "n \<le> 9" using assms(3) buffer_len_le [OF assms(1)] by simp_all
  have sz: "nat (sint (of_nat n :: dword)) = n" using sint_of_nat_small(1) [of n] n(2) by simp
  let ?bs = "take n (buffer_bytes s)"
  have l: "length ?bs = n" using n(1) by simp
  obtain m where m: "write_bytes write_byte s buffer ?bs = Some (s\<lparr>pmem := m\<rparr>)"
      "\<forall>i<n. read_byte (s\<lparr>pmem := m\<rparr>) (buffer + of_nat i) = Some (?bs ! i)"
    using write_bytes_read [of s buffer ?bs] assms(4,5) l by auto
  let ?s = "s\<lparr>pmem := m, buff_from := (buff_from s + int n) mod KEYBOARD_BUFFER_SIZE\<rparr>"
  have rl: "read_loop buffer n 0 s = Some (n, ?s)"
    using read_loop_ok [OF assms(1), of buffer n 0] m(1) n(1) by simp
  have "sys_read_keyboard buffer (of_nat n) s = Some (Ret (of_nat n), ?s)"
    using assms(2) rl by (simp add: sys_read_keyboard_def sys_read_keyboard_first_def read_from_keyboard_buffer_def sz
      sys_read_keyboard_loop_def)
  moreover have "read_byte ?s (buffer + of_nat i) = Some (buffer_bytes s ! i)" if "i < n" for i
  proof -
    have "translate ?s = translate (s\<lparr>pmem := m\<rparr>)" by (rule translate_cong) simp_all
    then show ?thesis using m(2) that by (simp add: read_byte_def)
  qed
  moreover have "buffer_wf (s\<lparr>pmem := m\<rparr>)" "buffer_bytes (s\<lparr>pmem := m\<rparr>) = buffer_bytes s" "buffer_len (s\<lparr>pmem := m\<rparr>) = buffer_len s"
    using assms(1) by (simp_all add: buffer_wf_def buffer_bytes_def buffer_len_def)
  then have "buffer_bytes ?s = drop n (buffer_bytes s)" "buffer_wf ?s"
    using buffer_bytes_advance [of "s\<lparr>pmem := m\<rparr>" n] n(1) by simp_all
  ultimately show ?thesis by blast
qed

text \<open>C18: reading the keyboard is first in, first out. With no other reader and at least \<open>n\<close> bytes in the
  buffer, \<^verbatim>\<open>read\<close> of \<open>n\<close> bytes returns \<open>n\<close> at once with the \<open>n\<close> oldest bytes in order in the
  caller's memory, and leaves the others in the buffer in their order.\<close>

theorem keyboard_read_fifo:
  assumes "buffer_wf s" "list_empty Keyboard_queue (links s)" "n \<le> length (buffer_bytes s)"
    and "mapped (translate s) buffer n" "inj_on (cell_at (translate s) buffer) {..<n}"
  shows "\<exists>s'. sys_read_keyboard buffer (of_nat n) s = Some (Ret (of_nat n), s') \<and>
     (\<forall>i<n. read_byte s' (buffer + of_nat i) = Some (buffer_bytes s ! i)) \<and>
     buffer_bytes s' = drop n (buffer_bytes s) \<and> buffer_wf s'"
  using keyboard_read_ok [OF assms] by blast

section \<open>\<^verbatim>\<open>get_stats\<close>\<close>

lemma get_stats_none: "(\<And>j. j < n \<Longrightarrow> PID (tasks s (i + j)) \<noteq> pid) \<Longrightarrow> get_stats_from i n pid p s = Some (- ESRCH, s)"
proof (induction n arbitrary: i)
  case (Suc n)
  have "get_stats_from (Suc i) n pid p s = Some (- ESRCH, s)"
    by (rule Suc.IH) (use Suc.prems [of "Suc j" for j] in auto)
  then show ?case using Suc.prems [of 0] by simp
qed simp

lemma get_stats_skip:
  "(\<And>j. j < k \<Longrightarrow> PID (tasks s (i + j)) \<noteq> pid) \<Longrightarrow> get_stats_from i (k + n) pid p s = get_stats_from (i + k) n pid p s"
proof (induction k arbitrary: i)
  case (Suc k)
  have "get_stats_from (Suc i) (k + n) pid p s = get_stats_from (Suc i + k) n pid p s"
    by (rule Suc.IH) (use Suc.prems [of "Suc j" for j] in auto)
  then show ?case using Suc.prems [of 0] by simp
qed simp

text \<open>C35: \<^verbatim>\<open>get_stats\<close> on every branch: a negative pid, a NULL or refused pointer and a pid that no living task has
  are errors that change nothing, whatever is mapped at the pointer; for a living task, if the 28 bytes
  at the pointer are mapped to distinct bytes of memory, its statistics, brought up to date if it is
  ready or blocked, are in the caller's memory, field after field, and 0 is returned.\<close>

theorem get_stats_spec:
  shows "(pid <s 0 \<longrightarrow> sys_get_stats pid p s = Some (- EINVAL, s)) \<and>
    (\<not> pid <s 0 \<and> (p = 0 \<or> \<not> access_ok VERIFY_WRITE p 28 s) \<longrightarrow> sys_get_stats pid p s = Some (- EFAULT, s)) \<and>
    (\<not> pid <s 0 \<and> p \<noteq> 0 \<and> access_ok VERIFY_WRITE p 28 s \<longrightarrow>
       ((\<forall>t<NR_TASKS. PID (tasks s t) \<noteq> pid) \<longrightarrow> sys_get_stats pid p s = Some (- ESRCH, s)) \<and>
       (\<forall>t<NR_TASKS. PID (tasks s t) = pid \<and> (\<forall>u<t. PID (tasks s u) \<noteq> pid) \<longrightarrow>
          (state (tasks s t) = ST_INVALID \<longrightarrow> sys_get_stats pid p s = Some (- ESRCH, s)) \<and>
          (state (tasks s t) \<noteq> ST_INVALID \<and> mapped (translate s) p 28 \<and> inj_on (cell_at (translate s) p) {..<28} \<longrightarrow>
             (\<exists>s1 m. (if state (tasks s t) \<in> {ST_READY, ST_BLOCKED} then update_stats t REFRESH s = Some s1 else s1 = s) \<and>
                sys_get_stats pid p s = Some (0, s1\<lparr>pmem := m\<rparr>) \<and>
                (\<forall>i<28. read_byte (s1\<lparr>pmem := m\<rparr>) (p + of_nat i) = Some (stats_bytes (st (tasks s1 t)) ! i))))))"
proof (intro conjI impI allI)
  show "sys_get_stats pid p s = Some (- EINVAL, s)" if "pid <s 0" using that by (simp add: sys_get_stats_def)
  show "sys_get_stats pid p s = Some (- EFAULT, s)" if "\<not> pid <s 0 \<and> (p = 0 \<or> \<not> access_ok VERIFY_WRITE p 28 s)"
    using that by (auto simp: sys_get_stats_def)
  assume ok: "\<not> pid <s 0 \<and> p \<noteq> 0 \<and> access_ok VERIFY_WRITE p 28 s"
  then have run: "sys_get_stats pid p s = get_stats_from 0 NR_TASKS pid p s" by (simp add: sys_get_stats_def)
  show "sys_get_stats pid p s = Some (- ESRCH, s)" if "\<forall>t<NR_TASKS. PID (tasks s t) \<noteq> pid"
    unfolding run by (rule get_stats_none) (use that in simp)
  fix t
  assume t: "t < NR_TASKS" and first: "PID (tasks s t) = pid \<and> (\<forall>u<t. PID (tasks s u) \<noteq> pid)"
  have k: "t + Suc (9 - t) = NR_TASKS" using t by simp
  have "get_stats_from 0 (t + Suc (9 - t)) pid p s = get_stats_from (0 + t) (Suc (9 - t)) pid p s"
    by (rule get_stats_skip) (use first in simp)
  then have at: "sys_get_stats pid p s = get_stats_from t (Suc (9 - t)) pid p s" unfolding run k by (simp only: add_0)
  show "sys_get_stats pid p s = Some (- ESRCH, s)" if "state (tasks s t) = ST_INVALID"
    unfolding at using first that by simp
  assume a: "state (tasks s t) \<noteq> ST_INVALID \<and> mapped (translate s) p 28 \<and> inj_on (cell_at (translate s) p) {..<28}"
  then have live: "state (tasks s t) \<noteq> ST_INVALID" by blast
  obtain s1 where s1: "if state (tasks s t) \<in> {ST_READY, ST_BLOCKED} then update_stats t REFRESH s = Some s1 else s1 = s"
      "only_stats t s s1"
  proof (cases "state (tasks s t) \<in> {ST_READY, ST_BLOCKED}")
    case False
    then show ?thesis using that [of s] only_stats_refl by simp
  next
    case True
    then obtain s1 where "update_stats t REFRESH s = Some s1" using update_stats_returns by blast
    then show ?thesis using that [of s1] True update_stats_only by auto
  qed
  have tr: "translate s1 = translate s" by (rule translate_cong) (use only_stats_fields [OF s1(2)] in simp_all)
  have l: "length (stats_bytes (st (tasks s1 t))) = 28" by (simp add: stats_bytes_def dword_bytes_def)
  obtain m where m: "write_bytes write_byte s1 p (stats_bytes (st (tasks s1 t))) = Some (s1\<lparr>pmem := m\<rparr>)"
      "\<forall>i<28. read_byte (s1\<lparr>pmem := m\<rparr>) (p + of_nat i) = Some (stats_bytes (st (tasks s1 t)) ! i)"
    using write_bytes_read [of s1 p "stats_bytes (st (tasks s1 t))"] a unfolding l tr by blast
  have "sys_get_stats pid p s = Some (0, s1\<lparr>pmem := m\<rparr>)"
    unfolding at using first live s1(1) m(1) by (cases "state (tasks s t)") simp_all
  then show "\<exists>s1 m. (if state (tasks s t) \<in> {ST_READY, ST_BLOCKED} then update_stats t REFRESH s = Some s1 else s1 = s) \<and>
                sys_get_stats pid p s = Some (0, s1\<lparr>pmem := m\<rparr>) \<and>
                (\<forall>i<28. read_byte (s1\<lparr>pmem := m\<rparr>) (p + of_nat i) = Some (stats_bytes (st (tasks s1 t)) ! i))"
    using s1(1) m(2) by blast
qed

lemma boot_bytes:
  assumes "n \<le> PAGE_SIZE"
  shows "mapped (translate boot_state) 0x108000 n" "inj_on (cell_at (translate boot_state) 0x108000) {..<n}"
proof -
  obtain g where g: "\<And>i. i < 28 * PAGE_SIZE \<Longrightarrow> translate boot_state (0x100000 + of_nat i) = Some (of_nat (g i))"
    and ua: "\<And>i. i < 28 * PAGE_SIZE \<Longrightarrow> user_allowed boot_state False (0x100000 + of_nat i)"
    and gb: "\<And>i. i < 28 * PAGE_SIZE \<Longrightarrow> 256 * PAGE_SIZE \<le> g i \<and> g i < 2 ^ 22" and inj: "inj_on g {..<28 * PAGE_SIZE}"
    using user_cells [OF boot_booted boot_state(8)] by blast
  have tr: "translate boot_state (0x108000 + of_nat i) = Some (of_nat (g (0x8000 + i)))" if "i < n" for i
  proof -
    have a: "(0x108000 :: dword) + of_nat i = 0x100000 + of_nat (0x8000 + i)" by simp
    show ?thesis unfolding a by (rule g) (use that assms in simp)
  qed
  show "mapped (translate boot_state) 0x108000 n" using tr by (simp add: mapped_def)
  show "inj_on (cell_at (translate boot_state) 0x108000) {..<n}"
  proof (rule inj_onI)
    fix i j
    assume i: "i \<in> {..<n}" and j: "j \<in> {..<n}"
      and eq: "cell_at (translate boot_state) 0x108000 i = cell_at (translate boot_state) 0x108000 j"
    have b: "0x8000 + i < 28 * PAGE_SIZE" "0x8000 + j < 28 * PAGE_SIZE" using i j assms by simp_all
    have u: "unat (of_nat (g k) :: dword) = g k" if "k < 28 * PAGE_SIZE" for k
      by (rule sint_of_nat_small(2)) (use gb [OF that] in simp)
    have "(of_nat (g (0x8000 + i)) :: dword) = of_nat (g (0x8000 + j))" using eq tr i j by (simp add: cell_at_def)
    then have "g (0x8000 + i) = g (0x8000 + j)" using u [OF b(1)] u [OF b(2)] by metis
    then show "i = j" using inj_onD [OF inj, of "0x8000 + i" "0x8000 + j"] b by simp
  qed
qed

theorem keyboard_read_fifo_witness:
  "\<exists>s s'. buffer_bytes s = [97, 98, 99] \<and> sys_read_keyboard 0x108000 2 s = Some (Ret 2, s') \<and>
     read_byte s' 0x108001 = Some 98 \<and> buffer_bytes s' = [99]"
proof -
  let ?s = "boot_state\<lparr>keyboard_buffer := \<lambda>i. 97 + of_int i, buff_from := 0, buff_to := 3\<rparr>"
  have wf: "buffer_wf ?s" by (simp add: buffer_wf_def)
  have b: "buffer_bytes ?s = [97, 98, 99]" by (simp add: buffer_bytes_def buffer_len_def upt_rec)
  have tr: "translate ?s = translate boot_state" by (rule translate_cong) simp_all
  have e: "list_empty Keyboard_queue (links ?s)"
    using lists_ok_empty [OF boot_lists, of Keyboard_queue] by (simp add: heads_boot_view)
  from keyboard_read_fifo [OF wf e, where n = 2 and buffer = "0x108000"] boot_bytes [where n = 2]
  obtain s' where s': "sys_read_keyboard 0x108000 2 ?s = Some (Ret 2, s')"
      "\<forall>i<2. read_byte s' (0x108000 + of_nat i) = Some (buffer_bytes ?s ! i)" "buffer_bytes s' = drop 2 (buffer_bytes ?s)"
    unfolding tr b by auto
  have "read_byte s' 0x108001 = Some 98" using s'(2) [rule_format, of 1] by (simp add: b)
  then show ?thesis using s'(1,3) b by (intro exI [of _ ?s] exI [of _ s']) simp
qed

theorem get_stats_spec_witness:
  "\<exists>s m. sys_get_stats 1 0x108000 s = Some (0, s\<lparr>pmem := m\<rparr>)"
proof -
  let ?s = "boot_state\<lparr>tasks := (tasks boot_state)(0 := (tasks boot_state 0)\<lparr>PID := 7\<rparr>)\<rparr>"
  have acc: "access_ok VERIFY_WRITE 0x108000 28 ?s" by (simp add: access_ok_def)
  have p: "PID (tasks ?s 1) = 1" "PID (tasks ?s 0) = 7" "state (tasks ?s 1) = ST_RUN"
    using boot_ok [OF reset_ok] by (auto simp: boot_state_def)
  have tr: "translate ?s = translate boot_state" by (rule translate_cong) simp_all
  have ok: "\<not> (1 :: dword) <s 0 \<and> (0x108000 :: dword) \<noteq> 0 \<and> access_ok VERIFY_WRITE 0x108000 28 ?s"
    using acc by (simp add: word_sless_alt)
  have q: "PID (tasks ?s 1) = 1 \<and> (\<forall>u<1. PID (tasks ?s u) \<noteq> 1)" using p(1,2) by (simp only: less_one) simp
  have cells: "mapped (translate ?s) 0x108000 28" "inj_on (cell_at (translate ?s) 0x108000) {..<28}"
    unfolding tr by (rule boot_bytes; simp)+
  have one: "(1 :: nat) < NR_TASKS" by simp
  have live: "state (tasks ?s 1) \<noteq> ST_INVALID \<and> mapped (translate ?s) 0x108000 28 \<and> inj_on (cell_at (translate ?s) 0x108000) {..<28}"
    unfolding p(3) using cells by simp
  have "\<exists>s1 m. (if state (tasks ?s 1) \<in> {ST_READY, ST_BLOCKED} then update_stats 1 REFRESH ?s = Some s1 else s1 = ?s) \<and>
      sys_get_stats 1 0x108000 ?s = Some (0, s1\<lparr>pmem := m\<rparr>)"
    using conjunct2 [OF conjunct2 [OF conjunct2 [OF get_stats_spec [of 1 "0x108000" ?s]], THEN mp, OF ok], THEN spec, of 1,
        THEN mp, OF one, THEN mp, OF q, THEN conjunct2, THEN mp, OF live] by (elim exE conjE) (intro exI conjI)
  then have "\<exists>s1 m. s1 = ?s \<and> sys_get_stats 1 0x108000 ?s = Some (0, s1\<lparr>pmem := m\<rparr>)"
    unfolding p(3) by simp
  then show ?thesis by blast
qed

section \<open>What the kernel does not check\<close>

text \<open>C39: copy on write does not protect a page from the kernel, whose writes do not look at the \<^verbatim>\<open>rw\<close> bit (the
  write-protect bit of \<^verbatim>\<open>cr0\<close> is never set). If the page of the buffer is shared with another address space,
  read-only in both as \<^verbatim>\<open>fork\<close> leaves it, then a \<^verbatim>\<open>read\<close> of one process puts the byte into the
  memory of the other one as well, without a page fault.\<close>

theorem read_breaks_copy_on_write:
  assumes "mem_ok s" "buffer_wf s" "list_empty Keyboard_queue (links s)" "buffer_bytes s \<noteq> []"
    and "cr3 s = Some (d * TOTAL_PAGES)" "d < NR_TASKS" "j < NR_TASKS" "pg < TOTAL_PAGES" "off < PAGE_SIZE"
    and shared: "pagusr_table s d pg = user_pte f False" "pagusr_table s j pg = user_pte f False" "f < TOTAL_PAGES"
  shows "\<not> user_allowed s True (of_nat (pg * PAGE_SIZE + off)) \<and>
     (\<exists>s'. sys_read_keyboard (of_nat (pg * PAGE_SIZE + off)) 1 s = Some (Ret 1, s') \<and>
        read_byte (s'\<lparr>cr3 := Some (j * TOTAL_PAGES)\<rparr>) (of_nat (pg * PAGE_SIZE + off)) = Some (hd (buffer_bytes s)))"
proof -
  let ?a = "of_nat (pg * PAGE_SIZE + off) :: dword"
  have tr: "translate s ?a = Some (of_nat (f * PAGE_SIZE + off))"
    using mem_translate(1) [OF assms(1,5,6,8,9)] user_pte_frame [OF assms(12)] by (simp add: shared(1) del: user_pte_bits(4))
  have ro: "\<not> user_allowed s True ?a"
    using mem_translate(2) [OF assms(1,5,6,8,9), of True] by (simp add: shared(1) Let_def del: user_pte_bits(4))
  have "mapped (translate s) ?a 1" using tr by (simp add: mapped_def)
  moreover have "inj_on (cell_at (translate s) ?a) {..<1}" by (rule inj_onI) simp
  moreover have "1 \<le> length (buffer_bytes s)" using assms(4) by (cases "buffer_bytes s") simp_all
  ultimately obtain s' where s': "sys_read_keyboard ?a (of_nat 1) s = Some (Ret (of_nat 1), s')"
      "\<forall>i<1. read_byte s' (?a + of_nat i) = Some (buffer_bytes s ! i)" "\<exists>m f. s' = s\<lparr>pmem := m, buff_from := f\<rparr>"
    using keyboard_read_ok [OF assms(2,3)] by blast
  obtain m x where m: "s' = s\<lparr>pmem := m, buff_from := x\<rparr>" using s'(3) by blast
  have "translate s' = translate s" by (rule translate_cong) (simp_all add: m)
  then have cell: "m (of_nat (f * PAGE_SIZE + off)) = hd (buffer_bytes s)"
    using s'(2) [rule_format, of 0] tr assms(4) by (simp add: read_byte_def m hd_conv_nth)
  have "mem_ok (s'\<lparr>cr3 := Some (j * TOTAL_PAGES)\<rparr>)" by (rule mem_ok_cong [OF assms(1)]) (simp_all add: m)
  from mem_translate(1) [OF this _ assms(7-9)]
  have "translate (s'\<lparr>cr3 := Some (j * TOTAL_PAGES)\<rparr>) ?a = Some (of_nat (f * PAGE_SIZE + off))"
    using user_pte_frame [OF assms(12)] by (simp add: shared(2) m del: user_pte_bits(4))
  then have "read_byte (s'\<lparr>cr3 := Some (j * TOTAL_PAGES)\<rparr>) ?a = Some (hd (buffer_bytes s))"
    using cell by (simp add: read_byte_def m)
  then show ?thesis using ro s'(1) by auto
qed

text \<open>\<^verbatim>\<open>free_user_pages\<close> returns and clears the entries of the data pages, but of the heap only the first
  page's entry: it clears the entries above the first page where the heap's pages are those below, so the other
  entries of the heap keep pointing to frames that have been freed.\<close>

theorem freed_heap_stays_mapped:
  assumes "get_PT s t = Some pt" "pt < NR_TASKS" "ptes_ok (pagusr_table s)" "heap_fits (heap_top (tasks s t))"
  shows "\<exists>s'. free_user_pages t s = Some s' \<and>
     (\<forall>i<NUM_PAG_DATA. pagusr_table s' pt (PAG_LOG_INIT_DATA + i) = 0) \<and>
     (\<forall>k. 1 \<le> k \<longrightarrow> int k < get_heap_page_size (heap_top (tasks s t)) \<longrightarrow>
        pagusr_table s' pt (PAG_LOG_INIT_HEAP - k) = pagusr_table s pt (PAG_LOG_INIT_HEAP - k))"
proof -
  let ?n = "nat (get_heap_page_size (heap_top (tasks s t)))"
  obtain s' where s': "free_user_pages t s = Some s'" "pagusr_table s' = freed_tables pt ?n s"
    using free_user_pages_ok [OF assms] by blast
  have "?n \<le> MAX_HEAP_PAGES" using assms(4) by (simp add: heap_fits_def nat_le_iff)
  then have "pagusr_table s' pt (PAG_LOG_INIT_HEAP - k) = pagusr_table s pt (PAG_LOG_INIT_HEAP - k)"
    if k: "1 \<le> k" "int k < get_heap_page_size (heap_top (tasks s t))" for k
  proof -
    have "k < ?n" using k(2) by linarith
    then have "PAG_LOG_INIT_DATA + NUM_PAG_DATA \<le> PAG_LOG_INIT_HEAP - k" "PAG_LOG_INIT_HEAP - k < PAG_LOG_INIT_HEAP"
      using \<open>?n \<le> MAX_HEAP_PAGES\<close> k(1) by simp_all
    then show ?thesis unfolding s'(2) freed_tables_def by simp
  qed
  moreover have "\<forall>i<NUM_PAG_DATA. pagusr_table s' pt (PAG_LOG_INIT_DATA + i) = 0"
    by (simp add: s'(2) freed_tables_def)
  ultimately show ?thesis using s'(1) by blast
qed

text \<open>The first task's machine with one page of every table mapped to the same frame.\<close>

lemma one_entry:
  assumes "NUM_PAG_KERNEL \<le> pg" "f < TOTAL_PAGES"
    and s: "s = boot_state\<lparr>pagusr_table := \<lambda>j i. if i = pg then user_pte f rw else pagusr_table boot_state j i, keyboard_buffer := kb,
      buff_from := x, buff_to := y\<rparr>"
  shows "mem_ok s"
proof (rule mem_ok_tables [OF boot_state(8)])
  have "ptes_ok (pagusr_table boot_state)" using boot_state(8) by (simp add: mem_ok_def)
  then show "ptes_ok (pagusr_table s)" using user_pte_frame [OF assms(2), of rw] assms(2)
    by (simp add: ptes_ok_def s del: user_pte_bits(4))
  show "heap_fits (heap_top (tasks s t))" if "t < NR_TASKS" "dir_pages_baseAddr (tasks boot_state t) = Some (x * TOTAL_PAGES)" for t x
    using boot_state(8) that by (auto simp: s mem_ok_def spaces_ok_def)
qed (use assms(1) in \<open>simp_all add: s\<close>)

theorem read_breaks_copy_on_write_witness:
  "\<exists>s s'. \<not> user_allowed s True 0x108000 \<and> sys_read_keyboard 0x108000 1 s = Some (Ret 1, s') \<and>
     read_byte (s'\<lparr>cr3 := Some (3 * TOTAL_PAGES)\<rparr>) 0x108000 = Some 97"
proof -
  let ?s = "boot_state\<lparr>pagusr_table := \<lambda>j i. if i = 264 then user_pte 300 False else pagusr_table boot_state j i,
      keyboard_buffer := \<lambda>i. 97 + of_int i, buff_from := 0, buff_to := 3\<rparr>"
  have m: "mem_ok ?s" by (rule one_entry [OF _ _ refl]) simp_all
  have wf: "buffer_wf ?s" by (simp add: buffer_wf_def)
  have b: "buffer_bytes ?s = [97, 98, 99]" by (simp add: buffer_bytes_def buffer_len_def upt_rec)
  have e: "list_empty Keyboard_queue (links ?s)"
    using lists_ok_empty [OF boot_lists, of Keyboard_queue] by (simp add: heads_boot_view)
  have c: "cr3 ?s = Some (8 * TOTAL_PAGES)" using boot_booted by (simp add: booted_def)
  from read_breaks_copy_on_write [OF m wf e _ c, where j = 3 and pg = 264 and off = 0 and f = 300]
  have "\<not> user_allowed ?s True 0x108000 \<and> (\<exists>s'. sys_read_keyboard 0x108000 1 ?s = Some (Ret 1, s') \<and>
      read_byte (s'\<lparr>cr3 := Some (3 * TOTAL_PAGES)\<rparr>) 0x108000 = Some 97)" by (simp add: b)
  then show ?thesis by blast
qed

theorem freed_heap_stays_mapped_witness:
  "\<exists>s s' d. free_user_pages 1 s = Some s' \<and> get_heap_page_size (heap_top (tasks s 1)) = 2 \<and>
     pagusr_table s' d 510 = user_pte 300 True"
proof -
  let ?s = "boot_state\<lparr>pagusr_table := \<lambda>j i. if i = 510 then user_pte 300 True else pagusr_table boot_state j i,
      tasks := (tasks boot_state)(1 := (tasks boot_state 1)\<lparr>heap_top := 0x1FFFFF - 8192\<rparr>)\<rparr>"
  have "mem_ok (boot_state\<lparr>pagusr_table := \<lambda>j i. if i = 510 then user_pte 300 True else pagusr_table boot_state j i,
      keyboard_buffer := keyboard_buffer boot_state, buff_from := buff_from boot_state, buff_to := buff_to boot_state\<rparr>)"
    by (rule one_entry [OF _ _ refl]) simp_all
  then have p: "ptes_ok (pagusr_table ?s)" by (simp add: mem_ok_def)
  obtain d where d: "get_PT boot_state (current boot_state) = Some d" "d < NR_TASKS"
    by (rule current_space [OF boot_state(2,8)])
  have "get_PT ?s 1 = get_PT boot_state 1" by (simp add: get_PT_def get_DIR_def PT_row_def)
  then have PT: "get_PT ?s 1 = Some d" using d(1) boot_state(5) by simp
  have n: "get_heap_page_size (heap_top (tasks ?s 1)) = 2" by (simp add: get_heap_page_size_def)
  then have fit: "heap_fits (heap_top (tasks ?s 1))" by (simp add: heap_fits_def)
  obtain s' where s': "free_user_pages 1 ?s = Some s'"
      "\<forall>k. 1 \<le> k \<longrightarrow> int k < get_heap_page_size (heap_top (tasks ?s 1)) \<longrightarrow>
        pagusr_table s' d (PAG_LOG_INIT_HEAP - k) = pagusr_table ?s d (PAG_LOG_INIT_HEAP - k)"
    using freed_heap_stays_mapped [OF PT d(2) p fit] by blast
  have "pagusr_table s' d 510 = user_pte 300 True" using s'(2) [THEN spec, of 1] unfolding n by simp
  then show ?thesis using s'(1) n by blast
qed

end
