(* ===== verification/Image.thy ===== *)
theory Image
  imports Machine
begin

text \<open>
  \<^verbatim>\<open>build.c\<close>, the host program that assembles the disk image from the boot sector, the system and the
  user program. The files of the host are a map from names to files; \<^verbatim>\<open>die\<close> is a value of \<open>death\<close>
  with the format string's constructor and its argument. Messages to the standard error are left out.
\<close>

section \<open>The host\<close>

text \<open>
  A file as \<^verbatim>\<open>open\<close>, \<^verbatim>\<open>fstat\<close> and \<^verbatim>\<open>read\<close> see it: \<^verbatim>\<open>fstat\<close> fails or reports a size, which need not be
  the number of bytes there are; a read fails at the positions of \<open>read_fails\<close>.
\<close>

record host_file =
  file_bytes :: "byte list"
  st_size :: "nat option"
  read_fails :: "nat set"

text \<open>
  The program's data: the buffer, the open file with its offset, and the standard output, a file of
  at most \<open>out_room\<close> bytes with its offset, which \<^verbatim>\<open>lseek\<close> may refuse to move.
\<close>

record build_state =
  buf :: "byte list"
  fd_file :: host_file
  fd_offset :: nat
  out_bytes :: "byte list"
  out_offset :: nat
  out_room :: nat
  seekable :: bool

datatype death =
    Usage
  | Unable_to_open string
  | Unable_to_read_header string
  | Non_Minix_header string
  | Illegal_data_segment string
  | Illegal_bss_segment string
  | Illegal_symbol_table string
  | Boot_block_must_be_exactly_512_bytes
  | Boot_block_hasnt_got_boot_flag
  | Write_call_failed
  | Unable_to_stat string
  | Error_reading string
  | Unexpected_EOF string
  | Write_failed
  | Output_seek_failed
  | Write_of_image_length_failed
  | Write_of_system_length_failed
  | Write_of_user_length_failed

type_synonym 'a outcome = "death + 'a"

definition die :: "death \<Rightarrow> 'a outcome" where
  "die d = Inl d"

definition andthen :: "'a outcome \<Rightarrow> ('a \<Rightarrow> 'b outcome) \<Rightarrow> 'b outcome" where
  "andthen r f = (case r of Inl d \<Rightarrow> Inl d | Inr x \<Rightarrow> f x)"

definition open_file :: "(string \<Rightarrow> host_file option) \<Rightarrow> string \<Rightarrow> build_state \<Rightarrow> build_state outcome" where
  "open_file files name s =
     (case files name of None \<Rightarrow> die (Unable_to_open name)
      | Some f \<Rightarrow> Inr (s\<lparr>fd_file := f, fd_offset := 0\<rparr>))"

text \<open>\<^verbatim>\<open>read(fd, buf, n)\<close>: the number of bytes read, at most \<open>n\<close>, or -1.\<close>

definition read_file :: "nat \<Rightarrow> build_state \<Rightarrow> int \<times> build_state" where
  "read_file n s =
     (if fd_offset s \<in> read_fails (fd_file s) then (- 1, s)
      else let bs = take n (drop (fd_offset s) (file_bytes (fd_file s)))
           in (int (length bs), s\<lparr>buf := bs @ drop (length bs) (buf s), fd_offset := fd_offset s + length bs\<rparr>))"

text \<open>\<^verbatim>\<open>write(1, buf, n)\<close> and \<^verbatim>\<open>lseek(1, n, SEEK_SET)\<close>. A gap that a seek leaves is filled with zeros.\<close>

definition put :: "nat \<Rightarrow> byte list \<Rightarrow> byte list \<Rightarrow> byte list" where
  "put k bs out = (if bs = [] then out else take k (out @ replicate k 0) @ bs @ drop (k + length bs) out)"

definition write_image :: "nat \<Rightarrow> build_state \<Rightarrow> int \<times> build_state" where
  "write_image n s =
     (let bs = take (min n (out_room s - out_offset s)) (buf s)
      in (int (length bs), s\<lparr>out_bytes := put (out_offset s) bs (out_bytes s), out_offset := out_offset s + length bs\<rparr>))"

definition seek_image :: "nat \<Rightarrow> build_state \<Rightarrow> int \<times> build_state" where
  "seek_image n s = (if seekable s then (int n, s\<lparr>out_offset := n\<rparr>) else (- 1, s))"

definition do_write :: "nat \<Rightarrow> death \<Rightarrow> build_state \<Rightarrow> build_state outcome" where
  "do_write n d s = (let (k, s) = write_image n s in if k \<noteq> int n then die d else Inr s)"

definition do_seek :: "nat \<Rightarrow> build_state \<Rightarrow> build_state outcome" where
  "do_seek n s = (let (k, s) = seek_image n s in if k \<noteq> int n then die Output_seek_failed else Inr s)"

section \<open>The program\<close>

abbreviation (input) "MINIX_HEADER_LEN \<equiv> (32 :: nat)"
abbreviation (input) "DEFAULT_MAJOR_ROOT \<equiv> (0 :: byte)"
abbreviation (input) "DEFAULT_MINOR_ROOT \<equiv> (0 :: byte)"

text \<open>\<^verbatim>\<open>lb[i]\<close>, the buffer as an array of 32-bit words.\<close>

definition lb :: "build_state \<Rightarrow> nat \<Rightarrow> dword" where
  "lb s i = bytes_dword (take 4 (drop (4 * i) (buf s)))"

definition hdr :: "byte list" where
  "hdr = [0x01, 0x03, 0x10, 0x04, 0x20, 0x00, 0x00, 0x00]"

definition minix_open :: "(string \<Rightarrow> host_file option) \<Rightarrow> string \<Rightarrow> build_state \<Rightarrow> build_state outcome" where
  "minix_open files name s =
     andthen (open_file files name s) (\<lambda>s.
     let (n, s) = read_file MINIX_HEADER_LEN s in
     if n \<noteq> int MINIX_HEADER_LEN then die (Unable_to_read_header name)
     else if take 8 (buf s) \<noteq> hdr \<or> lb s 5 \<noteq> 0 then die (Non_Minix_header name)
     else if lb s 3 \<noteq> 0 then die (Illegal_data_segment name)
     else if lb s 4 \<noteq> 0 then die (Illegal_bss_segment name)
     else if lb s 7 \<noteq> 0 then die (Illegal_symbol_table name)
     else Inr s)"

definition usage :: "'a outcome" where
  "usage = die Usage"

definition copy_boot_sector :: "(string \<Rightarrow> host_file option) \<Rightarrow> string \<Rightarrow> build_state \<Rightarrow> build_state outcome" where
  "copy_boot_sector files name s =
     andthen (minix_open files name s) (\<lambda>s.
     let (i, s) = read_file 1024 s in
     if i \<noteq> 512 then die Boot_block_must_be_exactly_512_bytes
     else if buf s ! 510 \<noteq> 0x55 \<or> buf s ! 511 \<noteq> 0xaa then die Boot_block_hasnt_got_boot_flag
     else do_write 512 Write_call_failed
            (s\<lparr>buf := (buf s)[508 := DEFAULT_MINOR_ROOT, 509 := DEFAULT_MAJOR_ROOT]\<rparr>))"

text \<open>The loop that copies \<^verbatim>\<open>sz\<close> bytes, 1024 at a time.\<close>

lemma chunk_less:
  "0 < (sz :: dword) \<Longrightarrow> unat (sz - (if 1024 < sz then 1024 else sz)) < unat sz"
  by (auto simp: unat_sub word_le_nat_alt word_less_nat_alt split: if_splits)

function copy_file_loop :: "string \<Rightarrow> dword \<Rightarrow> build_state \<Rightarrow> build_state outcome" where
  "copy_file_loop name sz s =
     (if sz > 0
      then let l = (if sz > 1024 then 1024 else sz);
               (n, s) = read_file (unat l) s
           in if n \<noteq> int (unat l)
              then die (if n < 0 then Error_reading name else Unexpected_EOF name)
              else andthen (do_write (unat l) Write_failed s) (copy_file_loop name (sz - l))
      else Inr s)"
  by pat_completeness auto
termination
  by (relation "measure (\<lambda>(name, sz, s). unat sz)") (simp_all add: chunk_less)

declare copy_file_loop.simps [simp del]

text \<open>Copies a whole file and returns its size, which is kept in 32 bits.\<close>

definition copy_file :: "(string \<Rightarrow> host_file option) \<Rightarrow> string \<Rightarrow> build_state \<Rightarrow> (dword \<times> build_state) outcome" where
  "copy_file files name s =
     andthen (open_file files name s) (\<lambda>s.
     case st_size (fd_file s) of None \<Rightarrow> die (Unable_to_stat name)
     | Some n \<Rightarrow> andthen (copy_file_loop name (of_nat n) s) (\<lambda>s. Inr (of_nat n, s)))"

text \<open>A field of the boot sector or of the system: its offset and its bytes.\<close>

definition write_field :: "nat \<Rightarrow> byte list \<Rightarrow> death \<Rightarrow> build_state \<Rightarrow> build_state outcome" where
  "write_field k bs d s =
     andthen (do_seek k s) (\<lambda>s. do_write (length bs) d (s\<lparr>buf := bs @ drop (length bs) (buf s)\<rparr>))"

definition field24 :: "dword \<Rightarrow> byte list" where
  "field24 w = [ucast (w AND 0xff), ucast (drop_bit 8 w AND 0xff), ucast (drop_bit 16 w AND 0xff), 0]"

definition build_main :: "(string \<Rightarrow> host_file option) \<Rightarrow> string list \<Rightarrow> build_state \<Rightarrow> build_state outcome" where
  "build_main files argv s =
     (if length argv \<noteq> 4 then usage
      else andthen (copy_boot_sector files (argv ! 1) s) (\<lambda>s.
           andthen (copy_file files (argv ! 2) s) (\<lambda>(sys_size, s).
           andthen (copy_file files (argv ! 3) s) (\<lambda>(usr_size, s).
           let im_size = (sys_size + usr_size + 15) div 16 in
           andthen (write_field 500 [ucast (im_size AND 0xff), ucast (drop_bit 8 im_size AND 0xff)]
                      Write_of_image_length_failed s) (\<lambda>s.
           andthen (write_field 512 (field24 sys_size) Write_of_system_length_failed s) (\<lambda>s.
           andthen (write_field 516 (field24 usr_size) Write_of_user_length_failed s) (\<lambda>s.
           write_field 520 (field24 0x7E1B) Write_of_user_length_failed s)))))))"

section \<open>Running the copies\<close>

lemma andthen_simps [simp]: "andthen (Inr x) f = f x" "andthen (Inl d) f = Inl d"
  by (simp_all add: andthen_def)

lemma andthen_Inr: "andthen r f = Inr y \<longleftrightarrow> (\<exists>x. r = Inr x \<and> f x = Inr y)"
  by (cases r) simp_all

end
