(* ===== verification/Image_Proofs.thy ===== *)
theory Image_Proofs
  imports Image
begin

text \<open>
  The image builder: which inputs it accepts, and what the image of accepted inputs holds.
\<close>

section \<open>Writing\<close>

lemma put_append: "put (length out) bs out = out @ bs"
  by (simp add: put_def)

lemma put_inside:
  assumes "k + length bs \<le> length out"
  shows "length (put k bs out) = length out"
    and "i < length out \<Longrightarrow> put k bs out ! i = (if k \<le> i \<and> i < k + length bs then bs ! (i - k) else out ! i)"
proof -
  show "length (put k bs out) = length out" using assms by (simp add: put_def)
  show "put k bs out ! i = (if k \<le> i \<and> i < k + length bs then bs ! (i - k) else out ! i)" if "i < length out"
    using assms that by (auto simp: put_def nth_append)
qed

lemma put_within:
  assumes "k \<le> length out" "bs \<noteq> []"
  shows "length (put k bs out) = max (length out) (k + length bs)"
    and "i < max (length out) (k + length bs) \<Longrightarrow>
      put k bs out ! i = (if k \<le> i \<and> i < k + length bs then bs ! (i - k) else out ! i)"
proof -
  show "length (put k bs out) = max (length out) (k + length bs)" using assms by (simp add: put_def max_def)
  show "put k bs out ! i = (if k \<le> i \<and> i < k + length bs then bs ! (i - k) else out ! i)"
    if "i < max (length out) (k + length bs)"
    using assms that by (auto simp: put_def nth_append)
qed

text \<open>The buffer has its size, and what is not about the output stays.\<close>

definition same_output :: "build_state \<Rightarrow> build_state \<Rightarrow> bool" where
  "same_output s s' \<longleftrightarrow> out_room s' = out_room s \<and> seekable s' = seekable s \<and>
     length (buf s) = 1024 \<and> length (buf s') = 1024"

lemma same_output_trans: "same_output s s1 \<Longrightarrow> same_output s1 s2 \<Longrightarrow> same_output s s2"
  by (simp add: same_output_def)

lemma do_write_ok:
  assumes "n \<le> length (buf s)" "out_offset s + n \<le> out_room s"
  shows "do_write n d s = Inr (s\<lparr>out_bytes := put (out_offset s) (take n (buf s)) (out_bytes s),
                                 out_offset := out_offset s + n\<rparr>)"
proof -
  have "min n (out_room s - out_offset s) = n" using assms(2) by simp
  then show ?thesis using assms(1) by (simp add: do_write_def write_image_def Let_def)
qed

lemma write_field_ok:
  assumes "seekable s" "k + length bs \<le> out_room s" "length bs \<le> length (buf s)"
  shows "\<exists>s'. write_field k bs d s = Inr s' \<and> out_bytes s' = put k bs (out_bytes s) \<and>
     out_room s' = out_room s \<and> seekable s' \<and> length (buf s') = length (buf s)"
  using assms by (simp add: write_field_def do_seek_def seek_image_def do_write_ok)

lemma read_file_ok:
  assumes "read_fails (fd_file s) = {}" "fd_offset s + n \<le> length (file_bytes (fd_file s))"
  shows "read_file n s = (int n, s\<lparr>buf := take n (drop (fd_offset s) (file_bytes (fd_file s))) @ drop n (buf s),
      fd_offset := fd_offset s + n\<rparr>)"
  using assms by (simp add: read_file_def Let_def)

section \<open>Copying\<close>

lemma copy_file_loop_step:
  assumes "0 < sz" "(if 1024 < sz then 1024 else sz) = l" "read_file (unat l) s = (int (unat l), s1)"
    and "do_write (unat l) Write_failed s1 = Inr s2"
  shows "copy_file_loop name sz s = copy_file_loop name (sz - l) s2"
  by (subst copy_file_loop.simps) (simp add: assms Let_def)

lemma copy_file_loop_ok:
  assumes "n < 2 ^ 32" "read_fails (fd_file s) = {}" "fd_offset s + n \<le> length (file_bytes (fd_file s))"
    and "length (buf s) = 1024" "out_offset s = length (out_bytes s)" "out_offset s + n \<le> out_room s"
  shows "\<exists>s'. copy_file_loop name (of_nat n) s = Inr s' \<and> same_output s s' \<and>
     out_bytes s' = out_bytes s @ take n (drop (fd_offset s) (file_bytes (fd_file s))) \<and>
     out_offset s' = length (out_bytes s')"
  using assms
proof (induction n arbitrary: s rule: less_induct)
  case (less n)
  have u: "unat (of_nat n :: dword) = n" using less.prems(1) by (simp add: unsigned_of_nat take_bit_nat_eq_self)
  show ?case
  proof (cases "n = 0")
    case True
    then show ?thesis using less.prems by (subst copy_file_loop.simps) (simp add: same_output_def)
  next
    case False
    define k where "k = min n 1024"
    have k: "0 < k" "k \<le> n" "k \<le> 1024" using False by (auto simp: k_def)
    have pos: "0 < (of_nat n :: dword)" using False by (simp only: word_less_nat_alt u unat_0)
    have l: "(if 1024 < (of_nat n :: dword) then 1024 else of_nat n) = (of_nat k :: dword)"
      by (simp add: word_less_nat_alt u k_def min_def)
    have uk: "unat (of_nat k :: dword) = k" using k(3) by (simp add: unsigned_of_nat take_bit_nat_eq_self)
    have left: "of_nat n - of_nat k = (of_nat (n - k) :: dword)" using k(2) by simp
    let ?F = "file_bytes (fd_file s)"
    let ?s1 = "s\<lparr>buf := take k (drop (fd_offset s) ?F) @ drop k (buf s), fd_offset := fd_offset s + k\<rparr>"
    let ?s2 = "?s1\<lparr>out_bytes := out_bytes s @ take k (drop (fd_offset s) ?F), out_offset := out_offset s + k\<rparr>"
    have rd: "read_file k s = (int k, ?s1)" by (rule read_file_ok) (use less.prems k in auto)
    have lk: "length (take k (drop (fd_offset s) ?F)) = k" using less.prems(3) k(2) by simp
    have wr: "do_write k Write_failed ?s1 = Inr ?s2"
      using do_write_ok [of k ?s1 Write_failed] less.prems k lk by (simp add: put_append)
    have step: "copy_file_loop name (of_nat n) s = copy_file_loop name (of_nat (n - k)) ?s2"
      by (rule copy_file_loop_step [OF pos l, of s ?s1, unfolded uk, OF rd wr, unfolded left])
    have "\<exists>s'. copy_file_loop name (of_nat (n - k)) ?s2 = Inr s' \<and> same_output ?s2 s' \<and>
        out_bytes s' = out_bytes ?s2 @ take (n - k) (drop (fd_offset ?s2) (file_bytes (fd_file ?s2))) \<and>
        out_offset s' = length (out_bytes s')"
      by (rule less.IH) (use less.prems k in auto)
    then obtain s' where s': "copy_file_loop name (of_nat (n - k)) ?s2 = Inr s'" "same_output ?s2 s'"
        "out_bytes s' = out_bytes ?s2 @ take (n - k) (drop (fd_offset ?s2) (file_bytes (fd_file ?s2)))"
        "out_offset s' = length (out_bytes s')"
      by blast
    have "take n (drop (fd_offset s) ?F) =
        take k (drop (fd_offset s) ?F) @ take (n - k) (drop (fd_offset s + k) ?F)"
      using take_add [of k "n - k" "drop (fd_offset s) ?F"] k(2) by (simp add: add.commute)
    moreover have "same_output s s'" using s'(2) less.prems(4) by (simp add: same_output_def)
    ultimately show ?thesis using s' step by (auto simp: add.commute)
  qed
qed

text \<open>A file whose size is its number of bytes and that can be read.\<close>

definition regular :: "host_file \<Rightarrow> byte list \<Rightarrow> bool" where
  "regular f bs \<longleftrightarrow> file_bytes f = bs \<and> st_size f = Some (length bs) \<and> read_fails f = {}"

lemma copy_file_ok:
  assumes "files name = Some f" "regular f bs" "length bs < 2 ^ 32"
    and "length (buf s) = 1024" "out_offset s = length (out_bytes s)" "out_offset s + length bs \<le> out_room s"
  shows "\<exists>s'. copy_file files name s = Inr (of_nat (length bs), s') \<and> same_output s s' \<and>
     out_bytes s' = out_bytes s @ bs \<and> out_offset s' = length (out_bytes s')"
  using copy_file_loop_ok [of "length bs" "s\<lparr>fd_file := f, fd_offset := 0\<rparr>" name] assms
  by (auto simp: copy_file_def open_file_def regular_def same_output_def)

section \<open>The boot sector\<close>

text \<open>The word \<open>i\<close> of a Minix header, and what \<^verbatim>\<open>minix_open\<close> asks of the header.\<close>

definition header_word :: "byte list \<Rightarrow> nat \<Rightarrow> dword" where
  "header_word bs i = bytes_dword (take 4 (drop (4 * i) bs))"

definition minix_header :: "byte list \<Rightarrow> bool" where
  "minix_header bs \<longleftrightarrow> 32 \<le> length bs \<and> take 8 bs = hdr \<and> (\<forall>i\<in>{3, 4, 5, 7}. header_word bs i = 0)"

definition boot_file :: "byte list \<Rightarrow> bool" where
  "boot_file bs \<longleftrightarrow> minix_header bs \<and> length bs = 32 + 512 \<and> bs ! 542 = 0x55 \<and> bs ! 543 = 0xaa"

lemma lb_header:
  assumes "buf s = take 32 bs @ r" "32 \<le> length bs" "i < 8"
  shows "lb s i = header_word bs i"
proof -
  have "take 4 (drop (4 * i) (take 32 bs @ r)) = take 4 (drop (4 * i) bs)"
    by (rule nth_equalityI) (use assms(2,3) in \<open>auto simp: nth_append\<close>)
  then show ?thesis by (simp add: lb_def header_word_def assms(1))
qed

lemma minix_open_cases:
  assumes "files name = Some f" "length (buf s) = 1024"
  obtains d where "minix_open files name s = Inl d" "minix_header (file_bytes f) \<longrightarrow> 0 \<in> read_fails f"
  | "minix_header (file_bytes f)" "minix_open files name s =
      Inr (s\<lparr>fd_file := f, fd_offset := 32, buf := take 32 (file_bytes f) @ drop 32 (buf s)\<rparr>)"
proof (cases "32 \<le> length (file_bytes f) \<and> 0 \<notin> read_fails f")
  case False
  then show ?thesis using assms that(1)
    by (auto simp: minix_open_def open_file_def read_file_def Let_def minix_header_def die_def split: if_splits)
next
  case True
  let ?s = "s\<lparr>fd_file := f, fd_offset := 32, buf := take 32 (file_bytes f) @ drop 32 (buf s)\<rparr>"
  have rd: "read_file 32 (s\<lparr>fd_file := f, fd_offset := 0\<rparr>) = (32, ?s)"
    using True assms by (simp add: read_file_def Let_def)
  have lb: "lb ?s i = header_word (file_bytes f) i" if "i < 8" for i
    by (rule lb_header) (use True that in simp_all)
  have tk: "take 8 (buf ?s) = take 8 (file_bytes f)" using True by (simp add: take_append min_def)
  have "minix_open files name s = (if minix_header (file_bytes f) then Inr ?s else minix_open files name s)"
    and "\<not> minix_header (file_bytes f) \<Longrightarrow> \<exists>d. minix_open files name s = Inl d"
    using True by (simp_all only: minix_open_def open_file_def assms(1) option.case andthen_simps rd prod.case Let_def tk lb)
      (simp_all add: minix_header_def die_def)
  then show ?thesis using that by metis
qed

lemma copy_boot_sector_ok:
  assumes "files name = Some f" "read_fails f = {}" "boot_file (file_bytes f)"
    and "length (buf s) = 1024" "out_bytes s = []" "out_offset s = 0" "512 \<le> out_room s"
  shows "\<exists>s'. copy_boot_sector files name s = Inr s' \<and> same_output s s' \<and>
     out_bytes s' = (drop 32 (file_bytes f))[508 := 0, 509 := 0] \<and> out_offset s' = 512"
proof -
  let ?F = "file_bytes f"
  have F: "minix_header ?F" "length ?F = 544" "?F ! 542 = 0x55" "?F ! 543 = 0xaa"
    using assms(3) by (simp_all add: boot_file_def)
  let ?s1 = "s\<lparr>fd_file := f, fd_offset := 32, buf := take 32 ?F @ drop 32 (buf s)\<rparr>"
  have op: "minix_open files name s = Inr ?s1"
    by (rule minix_open_cases [of files name f s, OF assms(1,4)]) (use F(1) assms(2) in auto)
  let ?b = "drop 32 ?F @ drop 512 (take 32 ?F @ drop 32 (buf s))"
  let ?s2 = "s\<lparr>fd_file := f, fd_offset := 544, buf := ?b\<rparr>"
  have rd: "read_file 1024 ?s1 = (512, ?s2)" using F(2) assms(2) by (simp add: read_file_def Let_def)
  have b: "?b ! 510 = 0x55" "?b ! 511 = 0xaa" using F by (simp_all add: nth_append)
  let ?s3 = "?s2\<lparr>buf := ?b[508 := 0, 509 := 0]\<rparr>"
  have tk: "take 512 (?b[508 := 0, 509 := 0]) = (drop 32 ?F)[508 := 0, 509 := 0]"
    using F(2) by (simp add: list_update_append)
  have wr: "do_write 512 Write_call_failed ?s3 =
      Inr (?s3\<lparr>out_bytes := put (out_offset ?s3) (take 512 (buf ?s3)) (out_bytes ?s3), out_offset := out_offset ?s3 + 512\<rparr>)"
    by (rule do_write_ok) (use F(2) assms in simp_all)
  have nz: "(drop 32 ?F)[508 := 0, 509 := 0] \<noteq> []" using F(2) by simp
  show ?thesis
    unfolding copy_boot_sector_def op andthen_simps rd Let_def prod.case
    using b wr tk nz F(2) assms by (simp add: same_output_def put_def)
qed

section \<open>The image\<close>

lemma field24_length [simp]: "length (field24 w) = 4" "field24 w \<noteq> []"
  by (simp_all add: field24_def)

lemma low_byte: "ucast ((w :: dword) AND 0xff) = (ucast w :: byte)"
proof (rule bit_word_eqI)
  fix n :: nat
  have m: "(0xff :: dword) = mask 8" by (simp add: mask_eq_exp_minus_1)
  assume "n < LENGTH(8)"
  then show "bit (ucast (w AND 0xff) :: byte) n = bit (ucast w :: byte) n"
    unfolding m by (simp add: bit_simps)
qed

lemma field24_value:
  assumes "w < 0x1000000"
  shows "bytes_dword (field24 w) = w"
proof -
  have hi: "drop_bit 24 w = 0"
    using assms by (simp add: drop_bit_eq_div div_word_less)
  have "field24 w = dword_bytes w"
    unfolding field24_def dword_bytes_def hi low_byte by simp
  then show ?thesis by simp
qed

lemma two_bytes:
  "unat (ucast ((w :: dword) AND 0xff) :: byte) + 256 * unat (ucast (drop_bit 8 w AND 0xff) :: byte) = unat w mod 2 ^ 16"
proof -
  have b: "unat (ucast v :: byte) = unat v mod 256" for v :: dword
    by (simp add: unsigned_ucast_eq take_bit_eq_mod)
  have d: "unat (drop_bit 8 w) = unat w div 256"
    by (simp only: drop_bit_eq_div unat_div) simp
  show ?thesis
    unfolding low_byte b d using mod_mult2_eq [of "unat w" 256 256] by simp
qed

text \<open>The image before the sizes are written, and the writes.\<close>

definition raw_image :: "byte list \<Rightarrow> byte list \<Rightarrow> byte list \<Rightarrow> byte list" where
  "raw_image bt sys usr = (drop 32 bt)[508 := 0, 509 := 0] @ sys @ usr"

definition im_size_of :: "byte list \<Rightarrow> byte list \<Rightarrow> dword" where
  "im_size_of sys usr = (of_nat (length sys) + of_nat (length usr) + 15) div 16"

definition final_image :: "byte list \<Rightarrow> byte list \<Rightarrow> byte list \<Rightarrow> byte list" where
  "final_image bt sys usr =
     put 520 (field24 0x7E1B) (put 516 (field24 (of_nat (length usr))) (put 512 (field24 (of_nat (length sys)))
       (put 500 [ucast (im_size_of sys usr AND 0xff), ucast (drop_bit 8 (im_size_of sys usr) AND 0xff)]
         (raw_image bt sys usr))))"

lemma build_main_ok:
  assumes files: "files (argv ! 1) = Some b" "files (argv ! 2) = Some y" "files (argv ! 3) = Some u" "length argv = 4"
    and b: "read_fails b = {}" "file_bytes b = bt" "boot_file bt"
    and y: "regular y sys" "length sys < 2 ^ 32" and u: "regular u usr" "length usr < 2 ^ 32"
    and s: "length (buf s) = 1024" "out_bytes s = []" "out_offset s = 0" "seekable s"
      "512 + length sys + length usr \<le> out_room s" "524 \<le> out_room s"
  shows "\<exists>s'. build_main files argv s = Inr s' \<and> out_bytes s' = final_image bt sys usr"
proof -
  obtain s1 where s1: "copy_boot_sector files (argv ! 1) s = Inr s1" "same_output s s1"
      "out_bytes s1 = (drop 32 bt)[508 := 0, 509 := 0]" "out_offset s1 = 512"
    using copy_boot_sector_ok [of files "argv ! 1" b s] files(1) b s by auto
  have l: "length (out_bytes s1) = 512" using b(3) by (simp add: s1(3) boot_file_def)
  obtain s2 where s2: "copy_file files (argv ! 2) s1 = Inr (of_nat (length sys), s2)" "same_output s1 s2"
      "out_bytes s2 = out_bytes s1 @ sys" "out_offset s2 = length (out_bytes s2)"
    using copy_file_ok [of files "argv ! 2", OF files(2) y, of s1] s1(2,4) l s by (auto simp: same_output_def)
  obtain s3 where s3: "copy_file files (argv ! 3) s2 = Inr (of_nat (length usr), s3)" "same_output s2 s3"
      "out_bytes s3 = out_bytes s2 @ usr" "out_offset s3 = length (out_bytes s3)"
    using copy_file_ok [of files "argv ! 3", OF files(3) u, of s2] s1(2) s2 l s by (auto simp: same_output_def)
  have o: "out_room s3 = out_room s" "seekable s3" "length (buf s3) = 1024" "out_bytes s3 = raw_image bt sys usr"
    using s1 s2 s3 s(4) by (simp_all add: same_output_def raw_image_def)
  let ?im = "[ucast (im_size_of sys usr AND 0xff), ucast (drop_bit 8 (im_size_of sys usr) AND 0xff)] :: byte list"
  obtain s4 where s4: "write_field 500 ?im Write_of_image_length_failed s3 = Inr s4"
      "out_bytes s4 = put 500 ?im (out_bytes s3)" "out_room s4 = out_room s" "seekable s4" "length (buf s4) = 1024"
    using write_field_ok [of s3 500 ?im Write_of_image_length_failed] o s by auto
  obtain s5 where s5: "write_field 512 (field24 (of_nat (length sys))) Write_of_system_length_failed s4 = Inr s5"
      "out_bytes s5 = put 512 (field24 (of_nat (length sys))) (out_bytes s4)" "out_room s5 = out_room s" "seekable s5"
      "length (buf s5) = 1024"
    using write_field_ok [of s4 512 "field24 (of_nat (length sys))" Write_of_system_length_failed] s4 s by auto
  obtain s6 where s6: "write_field 516 (field24 (of_nat (length usr))) Write_of_user_length_failed s5 = Inr s6"
      "out_bytes s6 = put 516 (field24 (of_nat (length usr))) (out_bytes s5)" "out_room s6 = out_room s" "seekable s6"
      "length (buf s6) = 1024"
    using write_field_ok [of s5 516 "field24 (of_nat (length usr))" Write_of_user_length_failed] s5 s by auto
  obtain s7 where s7: "write_field 520 (field24 0x7E1B) Write_of_user_length_failed s6 = Inr s7"
      "out_bytes s7 = put 520 (field24 0x7E1B) (out_bytes s6)"
    using write_field_ok [of s6 520 "field24 0x7E1B" Write_of_user_length_failed] s6 s by auto
  have "build_main files argv s = Inr s7"
    using files(4) s4(1) s5(1) s6(1) s7(1)
    by (simp add: build_main_def s1(1) [unfolded One_nat_def] s2(1) s3(1) Let_def im_size_of_def)
  then show ?thesis using s7(2) s6(2) s5(2) s4(2) o(4) by (auto simp: final_image_def)
qed

lemma build_image_ok:
  assumes "length argv = 4" "files (argv ! 1) = Some b" "files (argv ! 2) = Some y" "files (argv ! 3) = Some u"
    and "read_fails b = {}" "boot_file (file_bytes b)"
    and "regular y sys" "length sys < 0x1000000" and "regular u usr" "length usr < 0x1000000"
    and "length (buf s) = 1024" "out_bytes s = []" "out_offset s = 0" "seekable s"
    and "512 + length sys + length usr \<le> out_room s" "524 \<le> out_room s"
  shows "\<exists>s'. build_main files argv s = Inr s' \<and>
     length (out_bytes s') = max (512 + length sys + length usr) 524 \<and>
     (\<forall>i<508. i \<notin> {500, 501} \<longrightarrow> out_bytes s' ! i = file_bytes b ! (32 + i)) \<and> out_bytes s' ! 508 = 0 \<and> out_bytes s' ! 509 = 0 \<and>
     out_bytes s' ! 510 = 0x55 \<and> out_bytes s' ! 511 = 0xaa \<and>
     unat (out_bytes s' ! 500) + 256 * unat (out_bytes s' ! 501) = (length sys + length usr + 15) div 16 mod 2 ^ 16 \<and>
     bytes_dword (take 4 (drop 512 (out_bytes s'))) = of_nat (length sys) \<and>
     bytes_dword (take 4 (drop 516 (out_bytes s'))) = of_nat (length usr) \<and>
     bytes_dword (take 4 (drop 520 (out_bytes s'))) = 0x7E1B \<and>
     (\<forall>i. 12 \<le> i \<longrightarrow> i < length sys + length usr \<longrightarrow> out_bytes s' ! (512 + i) = (sys @ usr) ! i)"
proof -
  let ?bt = "file_bytes b" and ?im = "im_size_of sys usr"
  let ?imb = "[ucast (?im AND 0xff), ucast (drop_bit 8 ?im AND 0xff)] :: byte list"
  define raw where "raw = raw_image ?bt sys usr"
  define o1 where "o1 = put 500 ?imb raw"
  define o2 where "o2 = put 512 (field24 (of_nat (length sys))) o1"
  define o3 where "o3 = put 516 (field24 (of_nat (length usr))) o2"
  define out where "out = put 520 (field24 0x7E1B) o3"
  have bt: "length ?bt = 544" "?bt ! 542 = 0x55" "?bt ! 543 = 0xaa" using assms(6) by (simp_all add: boot_file_def)
  have raw: "length raw = 512 + length sys + length usr" using bt(1) by (simp add: raw_def raw_image_def)
  have l1: "length o1 = length raw" using raw put_inside(1) [of 500 ?imb raw] by (simp add: o1_def)
  have l2: "length o2 = max (length raw) 516" using raw l1 put_within(1) [of 512 o1 "field24 (of_nat (length sys))"] by (simp add: o2_def)
  have l3: "length o3 = max (length raw) 520" using l2 put_within(1) [of 516 o2 "field24 (of_nat (length usr))"] by (simp add: o3_def max_def)
  have l4: "length out = max (length raw) 524" using l3 put_within(1) [of 520 o3 "field24 0x7E1B"] by (simp add: out_def max_def)
  have n1: "i < length raw \<Longrightarrow> o1 ! i = (if 500 \<le> i \<and> i < 502 then ?imb ! (i - 500) else raw ! i)" for i
    using raw put_inside(2) [of 500 ?imb raw i] by (simp add: o1_def)
  have n2: "i < length o2 \<Longrightarrow> o2 ! i = (if 512 \<le> i \<and> i < 516 then field24 (of_nat (length sys)) ! (i - 512) else o1 ! i)" for i
    using raw l1 l2 put_within(2) [of 512 o1 "field24 (of_nat (length sys))" i] by (simp add: o2_def)
  have g2: "516 \<le> length o2" and g3: "520 \<le> length o3" using l2 l3 by simp_all
  have l3': "length o3 = max (length o2) (516 + 4)" using put_within(1) [OF g2, of "field24 (of_nat (length usr))"] by (simp add: o3_def)
  have l4': "length out = max (length o3) (520 + 4)" using put_within(1) [OF g3, of "field24 0x7E1B"] by (simp add: out_def)
  have n3: "i < length o3 \<Longrightarrow> o3 ! i = (if 516 \<le> i \<and> i < 520 then field24 (of_nat (length usr)) ! (i - 516) else o2 ! i)" for i
    unfolding l3' unfolding o3_def using put_within(2) [OF g2, of "field24 (of_nat (length usr))" i] by simp
  have n4: "i < length out \<Longrightarrow> out ! i = (if 520 \<le> i \<and> i < 524 then field24 0x7E1B ! (i - 520) else o3 ! i)" for i
    unfolding l4' unfolding out_def using put_within(2) [OF g3, of "field24 0x7E1B" i] by simp
  have low: "out ! i = (if 500 \<le> i \<and> i < 502 then ?imb ! (i - 500) else raw ! i)" if "i < 512" for i
    using that n1 [of i] n2 [of i] n3 [of i] n4 [of i] l1 l2 l3 l4 raw by auto
  have high: "out ! i = raw ! i" if "524 \<le> i" "i < length raw" for i
    using that n1 [of i] n2 [of i] n3 [of i] n4 [of i] l1 l2 l3 l4 raw by auto
  have f1: "take 4 (drop 512 out) = field24 (of_nat (length sys))"
    by (rule nth_equalityI) (use l4 l3 l2 n2 n3 n4 in auto)
  have f2: "take 4 (drop 516 out) = field24 (of_nat (length usr))"
    by (rule nth_equalityI) (use l4 l3 n3 n4 in auto)
  have f3: "take 4 (drop 520 out) = field24 0x7E1B"
    by (rule nth_equalityI) (use l4 n4 in auto)
  have im: "unat ?im = (length sys + length usr + 15) div 16"
  proof -
    have "of_nat (length sys) + of_nat (length usr) + 15 = (of_nat (length sys + length usr + 15) :: dword)" by simp
    moreover have "unat (of_nat (length sys + length usr + 15) :: dword) = length sys + length usr + 15"
      by (rule sint_of_nat_small(2)) (use assms(8,10) in simp)
    ultimately show ?thesis by (simp only: im_size_of_def unat_div) simp
  qed
  have "raw ! i = ?bt ! (32 + i)" if "i < 508" for i
    using that bt(1) by (simp add: raw_def raw_image_def nth_append)
  then have a1: "\<forall>i<508. i \<notin> {500, 501} \<longrightarrow> out ! i = ?bt ! (32 + i)" using low by auto
  have a2: "out ! 508 = 0" "out ! 509 = 0" "out ! 510 = 0x55" "out ! 511 = 0xaa"
    using low [of 508] low [of 509] low [of 510] low [of 511] bt
    by (simp_all add: raw_def raw_image_def nth_append)
  have a3: "unat (out ! 500) + 256 * unat (out ! 501) = (length sys + length usr + 15) div 16 mod 2 ^ 16"
    using low [of 500] low [of 501] two_bytes [of ?im] im by simp
  have a4: "\<forall>i. 12 \<le> i \<longrightarrow> i < length sys + length usr \<longrightarrow> out ! (512 + i) = (sys @ usr) ! i"
    using high raw bt(1) by (auto simp: raw_def raw_image_def nth_append)
  have a5: "bytes_dword (field24 (of_nat n)) = of_nat n" if "n < 0x1000000" for n
  proof (rule field24_value)
    have "unat (of_nat n :: dword) = n" by (rule sint_of_nat_small(2)) (use that in simp)
    then show "(of_nat n :: dword) < 0x1000000" using that by (simp add: word_less_nat_alt)
  qed
  obtain s' where s': "build_main files argv s = Inr s'" "out_bytes s' = final_image ?bt sys usr"
    using build_main_ok [of files argv b y u ?bt sys usr s] assms by auto
  have out: "final_image ?bt sys usr = out" unfolding final_image_def out_def o3_def o2_def o1_def raw_def by (rule refl)
  have "bytes_dword (field24 0x7E1B) = 0x7E1B" by (rule field24_value) simp
  then show ?thesis
    using s' l4 raw a1 a2 a3 a4 f1 f2 f3 a5 [OF assms(8)] a5 [OF assms(10)]
    by (intro exI [of _ s']) (simp add: out)
qed

text \<open>Three files and an empty output to build with.\<close>

definition plain_file :: "byte list \<Rightarrow> host_file" where
  "plain_file bs = \<lparr>file_bytes = bs, st_size = Some (length bs), read_fails = {}\<rparr>"

definition blank_boot :: "byte list" where
  "blank_boot = hdr @ replicate 24 0 @ replicate 510 0 @ [0x55, 0xaa]"

definition sample_files :: "byte list \<Rightarrow> byte list \<Rightarrow> string \<Rightarrow> host_file option" where
  "sample_files sys usr = [''b'' \<mapsto> plain_file blank_boot, ''y'' \<mapsto> plain_file sys, ''u'' \<mapsto> plain_file usr]"

definition empty_output :: build_state where
  "empty_output = \<lparr>buf = replicate 1024 0, fd_file = plain_file [], fd_offset = 0, out_bytes = [], out_offset = 0,
      out_room = 0x100000, seekable = True\<rparr>"

lemma regular_plain: "regular (plain_file bs) bs"
  by (simp add: regular_def plain_file_def)

lemma blank_boot: "boot_file blank_boot"
proof -
  have "header_word blank_boot i = 0" if "i \<in> {3, 4, 5, 7}" for i
    using that by (auto simp: header_word_def blank_boot_def hdr_def bytes_dword_def numeral_eq_Suc)
  then show ?thesis by (simp add: boot_file_def minix_header_def nth_append hdr_def blank_boot_def)
qed

lemma sample_simps:
  "sample_files sys usr ''b'' = Some (plain_file blank_boot)" "sample_files sys usr ''y'' = Some (plain_file sys)"
  "sample_files sys usr ''u'' = Some (plain_file usr)" "read_fails (plain_file bs) = {}" "file_bytes (plain_file bs) = bs"
  "length (buf empty_output) = 1024" "out_bytes empty_output = []" "out_offset empty_output = 0" "seekable empty_output"
  "out_room empty_output = 0x100000"
  by (simp_all add: sample_files_def plain_file_def empty_output_def)

text \<open>C32: the image of a good boot sector, system and user program, each of the two less than 2^24 bytes, written to an empty seekable
  output with room for it: the boot sector with the root device
  set to 0, the system and the user program, one after another; over them, at offset 500, the number of
  16-byte paragraphs of both modulo 2^16 (so the number itself only below 1 MB), and at the start of the system the two sizes and the
  constant 0x7E1B as 32-bit words. The image has at least 524 bytes, for these three words.\<close>

theorem build_image:
  assumes "length argv = 4" "files (argv ! 1) = Some b" "files (argv ! 2) = Some y" "files (argv ! 3) = Some u"
    and "read_fails b = {}" "boot_file (file_bytes b)"
    and "regular y sys" "length sys < 0x1000000" and "regular u usr" "length usr < 0x1000000"
    and "length (buf s) = 1024" "out_bytes s = []" "out_offset s = 0" "seekable s"
    and "512 + length sys + length usr \<le> out_room s" "524 \<le> out_room s"
  shows "\<exists>s'. build_main files argv s = Inr s' \<and>
     length (out_bytes s') = max (512 + length sys + length usr) 524 \<and>
     (\<forall>i<508. i \<notin> {500, 501} \<longrightarrow> out_bytes s' ! i = file_bytes b ! (32 + i)) \<and> out_bytes s' ! 508 = 0 \<and> out_bytes s' ! 509 = 0 \<and>
     out_bytes s' ! 510 = 0x55 \<and> out_bytes s' ! 511 = 0xaa \<and>
     unat (out_bytes s' ! 500) + 256 * unat (out_bytes s' ! 501) = (length sys + length usr + 15) div 16 mod 2 ^ 16 \<and>
     bytes_dword (take 4 (drop 512 (out_bytes s'))) = of_nat (length sys) \<and>
     bytes_dword (take 4 (drop 516 (out_bytes s'))) = of_nat (length usr) \<and>
     bytes_dword (take 4 (drop 520 (out_bytes s'))) = 0x7E1B \<and>
     (\<forall>i. 12 \<le> i \<longrightarrow> i < length sys + length usr \<longrightarrow> out_bytes s' ! (512 + i) = (sys @ usr) ! i)"
  using assms by (rule build_image_ok)

theorem build_image_witness:
  "\<exists>s'. build_main (sample_files (replicate 20 1) (replicate 8 7)) [''build'', ''b'', ''y'', ''u''] empty_output = Inr s' \<and>
     bytes_dword (take 4 (drop 512 (out_bytes s'))) = 20 \<and> out_bytes s' ! 532 = 7"
proof -
  let ?sys = "replicate 20 1 :: byte list" and ?usr = "replicate 8 7 :: byte list"
  let ?argv = "[''build'', ''b'', ''y'', ''u'']"
  obtain s' where s': "build_main (sample_files ?sys ?usr) ?argv empty_output = Inr s'"
      "bytes_dword (take 4 (drop 512 (out_bytes s'))) = of_nat (length ?sys)"
      "\<forall>i. 12 \<le> i \<longrightarrow> i < length ?sys + length ?usr \<longrightarrow> out_bytes s' ! (512 + i) = (?sys @ ?usr) ! i"
    using build_image [of ?argv "sample_files ?sys ?usr" "plain_file blank_boot" "plain_file ?sys" "plain_file ?usr"
        ?sys ?usr empty_output] blank_boot regular_plain sample_simps by auto
  have "out_bytes s' ! (512 + 20) = 7" using s'(3) [THEN spec, of 20] by (simp add: nth_append)
  then show ?thesis using s'(1,2) by (intro exI conjI) simp_all
qed

section \<open>Refused inputs\<close>

lemma do_write_Inr:
  "do_write n d s = Inr s' \<Longrightarrow> fd_file s' = fd_file s \<and> fd_offset s' = fd_offset s \<and> buf s' = buf s \<and>
     seekable s' = seekable s"
  by (auto simp: do_write_def write_image_def Let_def die_def split: if_splits)

lemma read_file_Inr:
  "read_file n s = (k, s1) \<Longrightarrow> 0 \<le> k \<Longrightarrow> fd_offset s \<le> length (file_bytes (fd_file s)) \<Longrightarrow>
    fd_file s1 = fd_file s \<and> k = int (min n (length (file_bytes (fd_file s)) - fd_offset s)) \<and>
    fd_offset s1 = fd_offset s + nat k \<and> seekable s1 = seekable s \<and>
    (n \<le> length (buf s) \<longrightarrow> length (buf s1) = length (buf s))"
  by (auto simp: read_file_def Let_def split: if_splits)

lemma copy_file_loop_Inr:
  "copy_file_loop name sz s = Inr s' \<Longrightarrow> length (buf s) = 1024 \<Longrightarrow> fd_offset s \<le> length (file_bytes (fd_file s)) \<Longrightarrow>
   fd_offset s + unat sz \<le> length (file_bytes (fd_file s)) \<and> length (buf s') = 1024 \<and> seekable s' = seekable s"
proof (induction name sz s rule: copy_file_loop.induct)
  case (1 name sz s)
  show ?case
  proof (cases "0 < sz")
    case False
    then have "sz = 0" by (simp add: word_less_nat_alt unat_eq_zero)
    then show ?thesis using 1(2-4) by (subst (asm) copy_file_loop.simps) simp
  next
    case True
    define l where "l = (if 1024 < sz then 1024 else sz)"
    obtain k s1 where rd: "read_file (unat l) s = (k, s1)" by (cases "read_file (unat l) s")
    have run: "k = int (unat l)" "andthen (do_write (unat l) Write_failed s1) (copy_file_loop name (sz - l)) = Inr s'"
      using 1(2) True rd by (subst (asm) copy_file_loop.simps; simp add: Let_def l_def [symmetric] die_def split: if_splits)+
    then obtain s2 where s2: "do_write (unat l) Write_failed s1 = Inr s2" "copy_file_loop name (sz - l) s2 = Inr s'"
      by (auto simp: andthen_Inr)
    have l: "unat l \<le> 1024" "unat (sz - l) + unat l = unat sz"
      by (auto simp: l_def word_less_nat_alt unat_sub word_le_nat_alt)
    note r = read_file_Inr [OF rd [unfolded run(1)] of_nat_0_le_iff 1(4)] and w = do_write_Inr [OF s2(1)]
    have "int (unat l) = int (min (unat l) (length (file_bytes (fd_file s)) - fd_offset s))" using r by blast
    then have "unat l = min (unat l) (length (file_bytes (fd_file s)) - fd_offset s)" by (simp only: of_nat_eq_iff)
    then have fits: "fd_offset s + unat l \<le> length (file_bytes (fd_file s))" using 1(4) by simp
    have "fd_offset s2 + unat (sz - l) \<le> length (file_bytes (fd_file s2)) \<and> length (buf s') = 1024 \<and> seekable s' = seekable s2"
    proof (rule 1(1) [OF True l_def rd [symmetric]])
      show "\<not> k \<noteq> int (unat l)" using run(1) by simp
    qed (use s2 r w 1(3,4) l fits in auto)
    then show ?thesis using r w fits l by auto
  qed
qed

lemma copy_file_Inr:
  assumes "copy_file files name s = Inr (sz, s')" "length (buf s) = 1024"
  shows "\<exists>f n. files name = Some f \<and> st_size f = Some n \<and> sz = of_nat n \<and> unat sz \<le> length (file_bytes f) \<and>
    length (buf s') = 1024 \<and> seekable s' = seekable s"
proof -
  obtain f where f: "files name = Some f"
    using assms(1) by (auto simp: copy_file_def open_file_def die_def split: option.splits)
  let ?s = "s\<lparr>fd_file := f, fd_offset := 0\<rparr>"
  obtain n where n: "st_size f = Some n"
    using assms(1) f by (auto simp: copy_file_def open_file_def die_def split: option.splits)
  obtain s1 where s1: "copy_file_loop name (of_nat n) ?s = Inr s1" "sz = of_nat n" "s' = s1"
  proof (cases "copy_file_loop name (of_nat n) ?s")
    case (Inl d)
    then show ?thesis using assms(1) by (simp add: copy_file_def open_file_def f n)
  next
    case (Inr s1)
    then have "of_nat n = sz \<and> s1 = s'" using assms(1) by (simp add: copy_file_def open_file_def f n)
    with Inr show ?thesis by (intro that) auto
  qed
  have "unat (of_nat n :: dword) \<le> length (file_bytes f) \<and> length (buf s1) = 1024 \<and> seekable s1 = seekable s"
    using copy_file_loop_Inr [OF s1(1)] assms(2) by simp
  then show ?thesis unfolding s1(2,3) using f n by (intro exI [of _ f] exI [of _ n] conjI) (simp_all only: refl)
qed

lemma copy_boot_sector_Inr:
  assumes "copy_boot_sector files name s = Inr s'" "length (buf s) = 1024"
  shows "\<exists>f. files name = Some f \<and> boot_file (file_bytes f) \<and> length (buf s') = 1024 \<and> seekable s' = seekable s"
proof -
  obtain f where f: "files name = Some f"
    using assms(1) by (cases "files name") (auto simp: copy_boot_sector_def minix_open_def open_file_def die_def)
  let ?F = "file_bytes f"
  let ?s1 = "s\<lparr>fd_file := f, fd_offset := 32, buf := take 32 ?F @ drop 32 (buf s)\<rparr>"
  have "minix_header ?F \<and> minix_open files name s = Inr ?s1"
  proof (rule minix_open_cases [of files name f s, OF f assms(2)])
    fix d
    assume "minix_open files name s = Inl d"
    then show ?thesis using assms(1) by (simp add: copy_boot_sector_def)
  qed blast
  then have op: "minix_header ?F" "minix_open files name s = Inr ?s1" by blast+
  obtain k s2 where rd: "read_file 1024 ?s1 = (k, s2)" by (cases "read_file 1024 ?s1")
  have run: "k = 512" "buf s2 ! 510 = 0x55" "buf s2 ! 511 = 0xaa"
      "do_write 512 Write_call_failed (s2\<lparr>buf := (buf s2)[508 := 0, 509 := 0]\<rparr>) = Inr s'"
    using assms(1) by (simp_all add: copy_boot_sector_def op(2) rd die_def split: if_splits)
  have F: "32 \<le> length ?F" using op(1) by (simp add: minix_header_def)
  have s2: "k = int (min 1024 (length ?F - 32))" "buf s2 = take (nat k) (drop 32 ?F) @ drop (nat k) (buf ?s1)" "seekable s2 = seekable s"
    using rd run(1) by (auto simp: read_file_def Let_def split: if_splits)
  have l: "length ?F = 544" using s2(1) run(1) F by (simp add: min_def split: if_splits)
  have "boot_file ?F" using op(1) l run(1-3) s2(2) by (simp add: boot_file_def nth_append)
  moreover have "length (buf s2) = 1024" using s2(2) run(1) l assms(2) by simp
  ultimately show ?thesis using f do_write_Inr [OF run(4)] s2(3) by simp
qed

text \<open>C33: the builder ends with an image only for three arguments and a first file that is exactly a
  32-byte Minix header without data, bss and symbols and a 512-byte boot sector with the
  flag 0xAA55, a system and a user program with no fewer bytes than their sizes in 32 bits, and a seekable
  output; on every other input it dies.\<close>

theorem build_refuses:
  assumes "length (buf s) = 1024"
    and "\<not> (length argv = 4 \<and> seekable s \<and>
      (\<exists>b y u m n. files (argv ! 1) = Some b \<and> boot_file (file_bytes b) \<and>
         files (argv ! 2) = Some y \<and> st_size y = Some m \<and> m mod 2 ^ 32 \<le> length (file_bytes y) \<and>
         files (argv ! 3) = Some u \<and> st_size u = Some n \<and> n mod 2 ^ 32 \<le> length (file_bytes u)))"
  shows "\<exists>d. build_main files argv s = Inl d"
proof (cases "build_main files argv s")
  case (Inr s')
  have u: "unat (of_nat n :: dword) = n mod 2 ^ 32" for n by (simp add: unsigned_of_nat take_bit_eq_mod)
  have l: "length argv = 4" using Inr by (auto simp: build_main_def usage_def die_def split: if_splits)
  obtain s1 sy s2 us s3 where run: "copy_boot_sector files (argv ! 1) s = Inr s1"
      "copy_file files (argv ! 2) s1 = Inr (sy, s2)" "copy_file files (argv ! 3) s2 = Inr (us, s3)"
    and w: "\<exists>bs d s4. write_field 500 bs d s3 = Inr s4"
    using Inr l by (auto simp: build_main_def andthen_Inr Let_def) blast
  note b = copy_boot_sector_Inr [OF run(1) assms(1)]
  then have y: "\<exists>f n. files (argv ! 2) = Some f \<and> st_size f = Some n \<and> sy = of_nat n \<and> unat sy \<le> length (file_bytes f) \<and>
      length (buf s2) = 1024 \<and> seekable s2 = seekable s1"
    using copy_file_Inr [OF run(2)] by blast
  then have v: "\<exists>f n. files (argv ! 3) = Some f \<and> st_size f = Some n \<and> us = of_nat n \<and> unat us \<le> length (file_bytes f) \<and>
      length (buf s3) = 1024 \<and> seekable s3 = seekable s2"
    using copy_file_Inr [OF run(3)] by blast
  have "seekable s3" using w by (auto simp: write_field_def do_seek_def seek_image_def die_def split: if_splits)
  with b y v l u assms(2) show ?thesis by metis
qed blast

theorem build_refuses_witness:
  "\<exists>d. build_main (\<lambda>_. None) [''build'', ''b'', ''y'', ''u''] empty_output = Inl d"
  by (rule build_refuses) (simp_all add: sample_simps)

end
