(* ===== verification/Bootsect.thy ===== *)
theory Bootsect
  imports Setup
begin

text \<open>
  The boot sector, \<^verbatim>\<open>bootsect.S\<close>: 16-bit code that runs before the kernel. It moves itself to 0x90000, loads the
  system from the floppy disk with the BIOS, opens the gate of address line 20, programs the interrupt
  controllers and enters the kernel in protected mode. The BIOS is a parameter.
\<close>

section \<open>The processor in real mode\<close>

text \<open>
  \<open>b_mem\<close> is physical memory, \<open>b_stack\<close> the words in use on the stack, the last one pushed first; the memory of the
  stack is not part of \<open>b_mem\<close>. \<open>b_sread\<close>, \<open>b_head\<close> and \<open>b_track\<close> are the variables \<^verbatim>\<open>sread\<close>, \<^verbatim>\<open>head\<close> and \<^verbatim>\<open>track\<close>, \<open>b_out\<close> is what was
  written to ports, \<open>b_in\<close> gives the successive values that ports are read with, and \<open>b_a20\<close> says whether address line 20 is
  open at each of the successive moments \<open>b_time\<close>.
\<close>

record rm =
  b_mem :: "nat \<Rightarrow> byte"
  b_ax :: half
  b_bx :: half
  b_cx :: half
  b_dx :: half
  b_si :: half
  b_di :: half
  b_bp :: half
  b_cs :: half
  b_ds :: half
  b_es :: half
  b_ss :: half
  b_gs :: half
  b_sp :: half
  b_stack :: "half list"
  b_sread :: half
  b_head :: half
  b_track :: half
  b_out :: "(half \<times> byte) list"
  b_in :: "nat \<Rightarrow> half \<Rightarrow> byte"
  b_reads :: nat
  b_a20 :: "nat \<Rightarrow> bool"
  b_time :: nat
  b_if :: bool
  b_cr0 :: dword
  b_idtr :: Register
  b_gdtr :: Register
  b_eip :: dword

type_synonym bios = "byte \<Rightarrow> rm \<Rightarrow> rm"   \<comment> \<open>the interrupts of the BIOS, by their numbers\<close>

abbreviation (input) "BOOTSEG \<equiv> (0x07C0 :: half)"
abbreviation (input) "INITSEG \<equiv> (0x9000 :: half)"
abbreviation (input) "SYSSEG \<equiv> (0x1000 :: half)"
abbreviation (input) "SEC_PISTA \<equiv> (18 :: half)"
abbreviation (input) "TEST_ADDR \<equiv> (0x7c :: half)"

text \<open>The offsets of data in the sector; \<^verbatim>\<open>gdt\<close> is at 435 and the others follow it.\<close>

abbreviation (input) "gdt_off \<equiv> (435 :: half)"
abbreviation (input) "idt_48 \<equiv> (491 :: half)"
abbreviation (input) "setup_sects \<equiv> (497 :: half)"
abbreviation (input) "syssize \<equiv> (500 :: half)"
abbreviation (input) "gdt_48 \<equiv> (502 :: half)"

definition lo :: "half \<Rightarrow> byte" where
  "lo r = ucast r"

definition hi :: "half \<Rightarrow> byte" where
  "hi r = ucast (drop_bit 8 r)"

definition set_lo :: "byte \<Rightarrow> half \<Rightarrow> half" where
  "set_lo b r = (r AND 0xFF00) OR ucast b"

definition set_hi :: "byte \<Rightarrow> half \<Rightarrow> half" where
  "set_hi b r = push_bit 8 (ucast b) OR (r AND 0x00FF)"

text \<open>With line 20 closed an address above 1 MB wraps around.\<close>

definition linear :: "rm \<Rightarrow> half \<Rightarrow> half \<Rightarrow> nat" where
  "linear m seg off =
     (let a = 16 * unat seg + unat off in if b_a20 m (b_time m) then a else a mod 0x100000)"

definition load8 :: "rm \<Rightarrow> half \<Rightarrow> half \<Rightarrow> byte" where
  "load8 m seg off = b_mem m (linear m seg off)"

definition load16 :: "rm \<Rightarrow> half \<Rightarrow> half \<Rightarrow> half" where
  "load16 m seg off = set_hi (load8 m seg (off + 1)) (ucast (load8 m seg off))"

definition store16 :: "half \<Rightarrow> half \<Rightarrow> half \<Rightarrow> rm \<Rightarrow> rm" where
  "store16 seg off w m = m\<lparr>b_mem := (b_mem m)(linear m seg off := lo w, linear m seg (off + 1) := hi w)\<rparr>"

definition push16 :: "half \<Rightarrow> rm \<Rightarrow> rm" where
  "push16 w m = m\<lparr>b_stack := w # b_stack m\<rparr>"

definition pop16 :: "rm \<Rightarrow> (half \<times> rm) option" where
  "pop16 m = (case b_stack m of [] \<Rightarrow> None | w # ws \<Rightarrow> Some (w, m\<lparr>b_stack := ws\<rparr>))"

text \<open>The word of the stack pointer that \<^verbatim>\<open>pusha\<close> pushes is ignored by \<^verbatim>\<open>popa\<close> and 0 here.\<close>

definition pusha :: "rm \<Rightarrow> rm" where
  "pusha m = m\<lparr>b_stack := [b_di m, b_si m, b_bp m, 0, b_bx m, b_dx m, b_cx m, b_ax m] @ b_stack m\<rparr>"

definition popa :: "rm \<Rightarrow> rm option" where
  "popa m =
     (case b_stack m of
        di # si # bp # _ # bx # dx # cx # ax # ws \<Rightarrow>
          Some (m\<lparr>b_stack := ws, b_di := di, b_si := si, b_bp := bp, b_bx := bx, b_dx := dx, b_cx := cx, b_ax := ax\<rparr>)
      | _ \<Rightarrow> None)"

definition out8 :: "half \<Rightarrow> byte \<Rightarrow> rm \<Rightarrow> rm" where
  "out8 port v m = m\<lparr>b_ax := set_lo v (b_ax m), b_out := b_out m @ [(port, v)]\<rparr>"   \<comment> \<open>\<^verbatim>\<open>mov al,v\<close> and \<^verbatim>\<open>out port,al\<close>\<close>

definition in8 :: "half \<Rightarrow> rm \<Rightarrow> rm" where
  "in8 port m = m\<lparr>b_ax := set_lo (b_in m (b_reads m) port) (b_ax m), b_reads := Suc (b_reads m)\<rparr>"

section \<open>Moving the sector\<close>

function rep_movsw :: "rm \<Rightarrow> rm" where
  "rep_movsw m =
     (if b_cx m = 0 then m
      else rep_movsw ((store16 (b_es m) (b_di m) (load16 m (b_ds m) (b_si m)) m)
             \<lparr>b_si := b_si m + 2, b_di := b_di m + 2, b_cx := b_cx m - 1\<rparr>))"
  by pat_completeness auto
termination
proof (relation "measure (\<lambda>m. unat (b_cx m))")
  fix m :: rm
  assume "b_cx m \<noteq> 0"
  then have "unat (b_cx m - 1) < unat (b_cx m)" by (simp add: unat_minus_one unat_gt_0)
  then show "((store16 (b_es m) (b_di m) (load16 m (b_ds m) (b_si m)) m)
      \<lparr>b_si := b_si m + 2, b_di := b_di m + 2, b_cx := b_cx m - 1\<rparr>, m) \<in> measure (\<lambda>m. unat (b_cx m))"
    by simp
qed simp

declare rep_movsw.simps [simp del]

definition move_sector :: "rm \<Rightarrow> rm" where
  "move_sector m =
     (let m = m\<lparr>b_ds := BOOTSEG, b_ax := INITSEG\<rparr>;
          m = m\<lparr>b_es := b_ax m, b_cx := 256, b_si := 0, b_di := 0\<rparr>;
          m = rep_movsw m
      in m\<lparr>b_cs := INITSEG\<rparr>)"

text \<open>The stack and the message, whose offset is \<open>msg1\<close>.\<close>

definition greet :: "bios \<Rightarrow> half \<Rightarrow> rm \<Rightarrow> rm" where
  "greet bios msg1 m =
     (let m = m\<lparr>b_di := 0x4000 - 12\<rparr>;
          m = m\<lparr>b_ds := b_ax m, b_ss := b_ax m, b_sp := b_di m, b_stack := []\<rparr>;
          m = m\<lparr>b_ax := set_hi 0x03 (b_ax m), b_bx := set_hi 0 (b_bx m)\<rparr>;
          m = bios 0x10 m;
          m = m\<lparr>b_cx := 0xB, b_bx := 0x0007, b_bp := msg1, b_ax := 0x1301\<rparr>
      in bios 0x10 m)"

section \<open>Loading the system\<close>

definition read_track :: "bios \<Rightarrow> rm \<Rightarrow> rm option" where
  "read_track bios m =
     do { m \<leftarrow> popa (bios 0x10 ((pusha (pusha m))\<lparr>b_ax := 0xe2e, b_bx := 7\<rparr>));
          m \<leftarrow> Some (m\<lparr>b_dx := b_track m, b_cx := b_sread m + 1\<rparr>);
          m \<leftarrow> Some (m\<lparr>b_cx := set_hi (lo (b_dx m)) (b_cx m)\<rparr>);
          m \<leftarrow> Some (m\<lparr>b_dx := b_head m\<rparr>);
          m \<leftarrow> Some (m\<lparr>b_dx := set_hi (lo (b_dx m)) (b_dx m) AND 0x0100\<rparr>);
          m \<leftarrow> Some (m\<lparr>b_ax := set_hi 2 (b_ax m)\<rparr>);
          m \<leftarrow> Some (push16 (b_ax m) (push16 (b_bx m) (push16 (b_cx m) (push16 (b_dx m) m))));
          m \<leftarrow> Some (bios 0x13 m);
          m \<leftarrow> Some (m\<lparr>b_stack := drop 4 (b_stack m)\<rparr>);
          popa m }"

text \<open>How many sectors to read: the rest of the track, but not past the end of the segment.\<close>

definition ok1_read :: "rm \<Rightarrow> rm" where
  "ok1_read m =
     (let m = m\<lparr>b_ax := SEC_PISTA - b_sread m\<rparr>;
          cx = push_bit 9 (b_ax m);
          carry = (2 ^ 16 \<le> unat cx + unat (b_bx m));
          m = m\<lparr>b_cx := cx + b_bx m\<rparr>
      in if \<not> carry \<or> b_cx m = 0 then m else m\<lparr>b_ax := drop_bit 9 (0 - b_bx m)\<rparr>)"

text \<open>The position on the disk and in memory after \<^verbatim>\<open>read_track\<close>.\<close>

definition next_sector :: "rm \<Rightarrow> rm" where
  "next_sector m =
     (let m = m\<lparr>b_cx := b_ax m, b_ax := b_ax m + b_sread m\<rparr>;
          m = (if b_ax m = SEC_PISTA
               then let m = m\<lparr>b_ax := 1 - b_head m\<rparr>;
                        m = (if b_ax m = 0 then m\<lparr>b_track := b_track m + 1\<rparr> else m)
                    in m\<lparr>b_head := b_ax m, b_ax := 0\<rparr>
               else m)
      in m\<lparr>b_sread := b_ax m\<rparr>)"

definition next_address :: "rm \<Rightarrow> rm" where
  "next_address m =
     (let cx = push_bit 9 (b_cx m);
          carry = (2 ^ 16 \<le> unat (b_bx m) + unat cx);
          m = m\<lparr>b_cx := cx, b_bx := b_bx m + cx\<rparr>
      in if \<not> carry then m
         else let m = m\<lparr>b_ax := set_hi (hi (b_es m) + 0x10) (b_es m)\<rparr>
              in m\<lparr>b_es := b_ax m, b_bx := 0\<rparr>)"

partial_function (option) rp_read :: "bios \<Rightarrow> rm \<Rightarrow> rm option" where
  "rp_read bios m =
     (if \<not> b_es m - SYSSEG \<le> load16 m (b_ds m) syssize
      then Some (m\<lparr>b_ax := b_es m - SYSSEG\<rparr>)
      else Option.bind (read_track bios (ok1_read (m\<lparr>b_ax := b_es m - SYSSEG\<rparr>)))
             (\<lambda>m. rp_read bios (next_address (next_sector m))))"

text \<open>The label \<^verbatim>\<open>die\<close> is an endless loop.\<close>

definition read_it :: "bios \<Rightarrow> rm \<Rightarrow> rm option" where
  "read_it bios m =
     (let m = m\<lparr>b_ax := set_lo (load8 m (b_ds m) setup_sects) (b_ax m)\<rparr>;
          m = m\<lparr>b_ax := set_lo (lo (b_ax m) + 1) (b_ax m)\<rparr>;
          m = m\<lparr>b_sread := set_lo (lo (b_ax m)) (b_sread m)\<rparr>;
          m = m\<lparr>b_ax := b_es m\<rparr>
      in if b_ax m AND 0x0fff \<noteq> 0 then None
         else rp_read bios (m\<lparr>b_bx := 0\<rparr>))"

definition kill_motor :: "rm \<Rightarrow> rm option" where
  "kill_motor m =
     do { m \<leftarrow> Some (push16 (b_dx m) m);
          m \<leftarrow> Some (m\<lparr>b_dx := 0x3f2\<rparr>);
          m \<leftarrow> Some (out8 (b_dx m) 0 m);
          (w, m) \<leftarrow> pop16 m;
          Some (m\<lparr>b_dx := w\<rparr>) }"

section \<open>Protected mode\<close>

text \<open>\<^verbatim>\<open>empty_8042\<close> counts in \<^verbatim>\<open>ecx\<close>, which it saves and restores; \<open>n\<close> is that counter.\<close>

function empty_8042_loop :: "dword \<Rightarrow> rm \<Rightarrow> rm" where
  "empty_8042_loop n m =
     (let n = n - 1
      in if n = 0 then m
         else let m = in8 0x64 m
              in if b_ax m AND 1 \<noteq> 0 then empty_8042_loop n (in8 0x60 m)
                 else if b_ax m AND 2 \<noteq> 0 then empty_8042_loop n m
                 else m)"
  by pat_completeness auto
termination
proof (relation "measure (\<lambda>(n, _). unat (n - 1))")
  have less: "unat (x - 1) < unat x" if "x \<noteq> 0" for x :: dword
    using that by (simp add: unat_minus_one unat_gt_0)
  show "((x, in8 0x60 y), n, m) \<in> measure (\<lambda>(n, _). unat (n - 1))" if "x = n - 1" "x \<noteq> 0" for n x :: dword and m y :: rm
    using less [OF that(2)] that(1) [symmetric] by simp
  show "((x, y), n, m) \<in> measure (\<lambda>(n, _). unat (n - 1))" if "x = n - 1" "x \<noteq> 0" for n x :: dword and m y :: rm
    using less [OF that(2)] that(1) [symmetric] by simp
qed simp

declare empty_8042_loop.simps [simp del]

definition empty_8042 :: "rm \<Rightarrow> rm" where
  "empty_8042 m = empty_8042_loop 0xFFFFFF m"

text \<open>
  The loop that waits for the gate of line 20. A moment passes with every round.
\<close>

partial_function (option) a20_wait :: "rm \<Rightarrow> rm option" where
  "a20_wait m =
     (let m = m\<lparr>b_ax := b_ax m + 1\<rparr>;
          m = store16 (b_ds m) TEST_ADDR (b_ax m) m
      in if b_ax m = load16 m (b_gs m) (TEST_ADDR + 0x10) then a20_wait (m\<lparr>b_time := Suc (b_time m)\<rparr>)
         else Some m)"

definition open_a20 :: "rm \<Rightarrow> rm option" where
  "open_a20 m =
     do { m \<leftarrow> Some (empty_8042 m);
          m \<leftarrow> Some (out8 0x64 0xD1 m);
          m \<leftarrow> Some (empty_8042 m);
          m \<leftarrow> Some (out8 0x60 0xDF m);
          m \<leftarrow> Some (empty_8042 m);
          m \<leftarrow> Some (push16 (b_ds m) m);
          m \<leftarrow> Some (m\<lparr>b_ax := 0\<rparr>);
          m \<leftarrow> Some (m\<lparr>b_ds := b_ax m, b_ax := b_ax m - 1\<rparr>);
          m \<leftarrow> Some (m\<lparr>b_gs := b_ax m\<rparr>);
          m \<leftarrow> Some (m\<lparr>b_bx := load16 m (b_ds m) TEST_ADDR\<rparr>);
          m \<leftarrow> a20_wait m;
          m \<leftarrow> Some (store16 (b_ds m) TEST_ADDR (b_bx m) m);
          (w, m) \<leftarrow> pop16 m;
          Some (m\<lparr>b_ds := w\<rparr>) }"

definition program_8259 :: "rm \<Rightarrow> rm" where
  "program_8259 m =
     (let m = out8 0x20 0x11 m;
          m = out8 0xA0 0x11 m;
          m = out8 0x21 0x20 m;
          m = out8 0xA1 0x28 m;
          m = out8 0x21 0x04 m;
          m = out8 0xA1 0x02 m;
          m = out8 0x21 0x01 m;
          m = out8 0xA1 0x01 m;
          m = out8 0xA1 0xFF m
      in out8 0x21 0xFB m)"

text \<open>\<^verbatim>\<open>lidt\<close> and \<^verbatim>\<open>lgdt\<close> with an operand of 16 bits load 24 bits of the base.\<close>

definition load_table_reg :: "rm \<Rightarrow> half \<Rightarrow> Register" where
  "load_table_reg m off =
     \<lparr>reg_limit = load16 m (b_ds m) off,
      reg_base = ucast (load16 m (b_ds m) (off + 2)) OR push_bit 16 (ucast (load8 m (b_ds m) (off + 4)))\<rparr>"

definition enter_protected :: "rm \<Rightarrow> rm" where
  "enter_protected m =
     (let m = m\<lparr>b_ax := b_cs m\<rparr>;
          m = m\<lparr>b_ds := b_ax m\<rparr>;
          m = m\<lparr>b_idtr := load_table_reg m idt_48\<rparr>;
          m = m\<lparr>b_gdtr := load_table_reg m gdt_48\<rparr>;
          m = m\<lparr>b_ax := 1, b_cr0 := 1\<rparr>
      in m\<lparr>b_eip := 0x10010, b_cs := KERNEL_CS\<rparr>)"

section \<open>The sector as a whole\<close>

definition bootsect :: "bios \<Rightarrow> half \<Rightarrow> rm \<Rightarrow> rm option" where
  "bootsect bios msg1 m =
     do { m \<leftarrow> Some (greet bios msg1 (move_sector m));
          m \<leftarrow> Some (m\<lparr>b_ax := SYSSEG\<rparr>);
          m \<leftarrow> read_it bios (m\<lparr>b_es := b_ax m\<rparr>);
          m \<leftarrow> kill_motor m;
          m \<leftarrow> Some (out8 0x70 0x80 (m\<lparr>b_if := False\<rparr>));
          m \<leftarrow> open_a20 m;
          Some (enter_protected (program_8259 m)) }"

text \<open>
  The data of the sector from \<^verbatim>\<open>gdt\<close> on, as it is assembled: the descriptors, \<^verbatim>\<open>idt_48\<close>, \<^verbatim>\<open>setup_sects\<close>, \<^verbatim>\<open>syssize\<close>,
  \<^verbatim>\<open>gdt_48\<close> and \<^verbatim>\<open>boot_flag\<close>.
\<close>

definition words :: "half list \<Rightarrow> byte list" where
  "words ws = concat (map (\<lambda>w. [lo w, hi w]) ws)"

definition gdt_data :: "byte list" where
  "gdt_data =
     words [0, 0, 0, 0] @
     words [0, 0, 0, 0] @
     words [0xFFFF, 0x0000] @ [0x00, 0x9a, 0xcf, 0x00] @
     words [0xFFFF, 0x0000] @ [0x00, 0x92, 0xcf, 0x00] @
     words [0xFFFF, 0x0000] @ [0x00, 0xfa, 0xcf, 0x00] @
     words [0xFFFF, 0x0000] @ [0x00, 0xf2, 0xcf, 0x00] @
     words [104, 0] @ [0, 0x89, 0, 0]"

definition boot_data :: "byte list" where
  "boot_data =
     gdt_data @ words [0, 0, 0] @ [0] @ words [0] @ words [0x7F00] @ words [0x8000] @ words [gdt_off, 0x9] @ words [0] @
     words [0xAA55]"

end
