(* ===== verification/Bootsect_Proofs.thy ===== *)
theory Bootsect_Proofs
  imports Bootsect
begin

text \<open>
  The boot sector loads the system. First what is documented of the BIOS, then \<^verbatim>\<open>read_track\<close>, the loop of
  \<^verbatim>\<open>read_it\<close> with its invariant, the gate of line 20, and the sector as a whole.
\<close>

section \<open>The BIOS\<close>

text \<open>
  A call of the BIOS returns with the segment registers, the stack and the variables of the sector as they were. Of
  the memory from 0x600, where the data of the BIOS ends, to the video memory, it changes only \<open>A\<close>.
\<close>

definition undisturbed :: "rm \<Rightarrow> nat set \<Rightarrow> rm \<Rightarrow> bool" where
  "undisturbed m A m' \<longleftrightarrow>
     (\<exists>M a b c d i e p. m' = m\<lparr>b_mem := M, b_ax := a, b_bx := b, b_cx := c, b_dx := d, b_si := i, b_di := e, b_bp := p\<rparr> \<and>
        (\<forall>x. 0x600 \<le> x \<longrightarrow> x < 0xA0000 \<longrightarrow> x \<notin> A \<longrightarrow> M x = b_mem m x))"

text \<open>
  Interrupt 0x13 with 2 in \<^verbatim>\<open>ah\<close> reads \<^verbatim>\<open>al\<close> sectors of one track to \<^verbatim>\<open>es:bx\<close>: the track is in \<^verbatim>\<open>ch\<close> and two bits of \<^verbatim>\<open>cl\<close>, the
  first sector, counted from 1, in the other bits of \<^verbatim>\<open>cl\<close>, the head in \<^verbatim>\<open>dh\<close> and the drive in \<^verbatim>\<open>dl\<close>. The controller
  cannot cross a boundary of 64 KB in memory. On the disk, the two heads of a track follow each other.
\<close>

definition req_count :: "rm \<Rightarrow> nat" where
  "req_count m = unat (lo (b_ax m))"

definition req_first :: "rm \<Rightarrow> nat" where
  "req_first m = unat (lo (b_cx m) AND 0x3F)"

definition req_track :: "rm \<Rightarrow> nat" where
  "req_track m = unat (hi (b_cx m)) + 4 * unat (lo (b_cx m) AND 0xC0)"

definition req_head :: "rm \<Rightarrow> nat" where
  "req_head m = unat (hi (b_dx m))"

definition req_to :: "rm \<Rightarrow> nat set" where
  "req_to m = {linear m (b_es m) (b_bx m)..<linear m (b_es m) (b_bx m) + 512 * req_count m}"

definition read_request :: "rm \<Rightarrow> bool" where
  "read_request m \<longleftrightarrow>
     hi (b_ax m) = 2 \<and> lo (b_dx m) = 0 \<and> 1 \<le> req_count m \<and> 1 \<le> req_first m \<and> req_first m + req_count m \<le> 19 \<and>
     req_head m < 2 \<and> req_track m < 80 \<and>
     (\<forall>x\<in>req_to m. 0x600 \<le> x \<and> x < 0x90000 \<and> x div 0x10000 = linear m (b_es m) (b_bx m) div 0x10000)"

definition bios_ok :: "bios \<Rightarrow> (nat \<Rightarrow> byte) \<Rightarrow> bool" where
  "bios_ok bios disk \<longleftrightarrow>
     (\<forall>m. undisturbed m {} (bios 0x10 m)) \<and>
     (\<forall>m. read_request m \<longrightarrow>
        undisturbed m (req_to m) (bios 0x13 m) \<and>
        (\<forall>i < 512 * req_count m. b_mem (bios 0x13 m) (linear m (b_es m) (b_bx m) + i) =
           disk (512 * ((req_track m * 2 + req_head m) * 18 + req_first m - 1) + i)))"

section \<open>Registers\<close>

lemma half_of_nat: "n < 65536 \<Longrightarrow> unat (of_nat n :: half) = n"
  by (simp add: unsigned_of_nat take_bit_nat_eq_self)

lemma byte_of_nat: "n < 256 \<Longrightarrow> unat (of_nat n :: byte) = n"
  by (simp add: unsigned_of_nat take_bit_nat_eq_self)

lemma lo_of_nat: "lo (of_nat n) = of_nat n"
  by (rule bit_word_eqI) (simp add: lo_def bit_simps)

lemma and_masks: "(r :: half) AND 0x00FF = take_bit 8 r" "(r :: half) AND 0xFF00 = push_bit 8 (drop_bit 8 r)"
proof -
  have m: "(0x00FF :: half) = mask 8" by (simp add: mask_eq_exp_minus_1)
  show "r AND 0x00FF = take_bit 8 r" unfolding m by (rule take_bit_eq_mask [symmetric])
  have n: "(0xFF00 :: half) = NOT (mask 8)" by (simp add: mask_eq_exp_minus_1)
  show "r AND 0xFF00 = push_bit 8 (drop_bit 8 r)"
    unfolding n by (rule bit_word_eqI) (auto simp only: bit_simps o_def le_add_diff_inverse not_less)
qed

lemmas parts = lo_def hi_def set_lo_def set_hi_def and_masks

lemma lo_set_hi [simp]: "lo (set_hi b r) = lo r"
  unfolding parts by (rule bit_word_eqI) (auto simp: bit_simps)

lemma hi_set_hi [simp]: "hi (set_hi b r) = b"
  unfolding parts by (rule bit_word_eqI) (auto simp: bit_simps)

lemma lo_set_lo [simp]: "lo (set_lo b r) = b"
  unfolding parts by (rule bit_word_eqI) (auto simp: bit_simps)

lemma set_hi_lo_hi [simp]: "set_hi (hi w) (ucast (lo w)) = w"
  unfolding parts by (rule bit_word_eqI) (auto simp: bit_simps)

lemma popa_pusha:
  "popa (m\<lparr>b_stack := [di, si, bp, w, bx, dx, cx, ax] @ ws\<rparr>) =
     Some (m\<lparr>b_stack := ws, b_di := di, b_si := si, b_bp := bp, b_bx := bx, b_dx := dx, b_cx := cx, b_ax := ax\<rparr>)"
  by (simp add: popa_def)

section \<open>\<^verbatim>\<open>read_track\<close>\<close>

text \<open>\<open>at_sector s h t m\<close>: the variables say sector \<open>s\<close>, counted from 0, of head \<open>h\<close> and track \<open>t\<close>.\<close>

definition at_sector :: "nat \<Rightarrow> nat \<Rightarrow> nat \<Rightarrow> rm \<Rightarrow> bool" where
  "at_sector s h t m \<longleftrightarrow> b_sread m = of_nat s \<and> b_head m = of_nat h \<and> b_track m = of_nat t \<and> s < 18 \<and> h < 2 \<and> t < 80"

definition target :: "rm \<Rightarrow> nat" where
  "target m = 16 * unat (b_es m) + unat (b_bx m)"

lemma linear_low: "16 * unat seg + unat off < 0x100000 \<Longrightarrow> linear m seg off = 16 * unat seg + unat off"
  by (simp add: linear_def Let_def)

lemma request_made:
  assumes "at_sector s h t m" "b_ax m = of_nat n" "1 \<le> n" "s + n \<le> 18"
    and "b_cx r = set_hi (lo (b_track m)) (b_sread m + 1)"
    and "b_dx r = set_hi (lo (b_head m)) (b_head m) AND 0x0100" "b_ax r = set_hi 2 (b_ax m)"
  shows "req_count r = n" "req_first r = s + 1" "req_track r = t" "req_head r = h" "lo (b_dx r) = 0" "hi (b_ax r) = 2"
proof -
  note a = assms [unfolded at_sector_def]
  show "req_count r = n" using a by (simp add: req_count_def lo_of_nat byte_of_nat)
  have c: "lo (b_cx r) = of_nat (s + 1)" "hi (b_cx r) = of_nat t"
    using a lo_of_nat [of "s + 1"] by (simp_all add: lo_of_nat add.commute)
  have s: "s + 1 \<in> set [1..<19]" using a(1) by auto
  have "unat ((of_nat k :: byte) AND 0x3F) = k \<and> (of_nat k :: byte) AND 0xC0 = 0" if "k \<in> set [1..<19]" for k
    using that by (simp add: upt_conv_Cons del: set_upt) auto
  from this [OF s] show "req_first r = s + 1" "req_track r = t"
    using a c by (simp_all add: req_first_def req_track_def byte_of_nat)
  consider "h = 0" | "h = 1" using a(1) by linarith
  then show "req_head r = h" "lo (b_dx r) = 0"
    using a by (cases; simp add: req_head_def parts)+
  show "hi (b_ax r) = 2" using a by simp
qed

lemma read_track_ok:
  assumes bios: "bios_ok bios disk" and at: "at_sector s h t m" "b_ax m = of_nat n" "1 \<le> n" "s + n \<le> 18"
    and to: "0x600 \<le> target m" "target m + 512 * n \<le> 0x90000"
      "\<And>i. i < 512 * n \<Longrightarrow> (target m + i) div 0x10000 = target m div 0x10000"
  shows "\<exists>M. read_track bios m = Some (m\<lparr>b_mem := M\<rparr>) \<and>
     (\<forall>i < 512 * n. M (target m + i) = disk (512 * ((t * 2 + h) * 18 + s) + i)) \<and>
     (\<forall>x. 0x600 \<le> x \<longrightarrow> x < 0xA0000 \<longrightarrow> x < target m \<or> target m + 512 * n \<le> x \<longrightarrow> M x = b_mem m x)"
proof -
  have "undisturbed ((pusha (pusha m))\<lparr>b_ax := 0xe2e, b_bx := 7\<rparr>) {} (bios 0x10 ((pusha (pusha m))\<lparr>b_ax := 0xe2e, b_bx := 7\<rparr>))"
    using bios by (simp add: bios_ok_def)
  then have "\<exists>M. (\<forall>x. 0x600 \<le> x \<longrightarrow> x < 0xA0000 \<longrightarrow> M x = b_mem m x) \<and>
      popa (bios 0x10 ((pusha (pusha m))\<lparr>b_ax := 0xe2e, b_bx := 7\<rparr>)) = Some ((pusha m)\<lparr>b_mem := M\<rparr>)"
    by (cases m) (auto simp: undisturbed_def pusha_def popa_def)
  then obtain M where M: "\<And>x. 0x600 \<le> x \<Longrightarrow> x < 0xA0000 \<Longrightarrow> M x = b_mem m x"
    and p1: "popa (bios 0x10 ((pusha (pusha m))\<lparr>b_ax := 0xe2e, b_bx := 7\<rparr>)) = Some ((pusha m)\<lparr>b_mem := M\<rparr>)"
    by blast
  define r where "r = (pusha m)\<lparr>b_mem := M, b_ax := set_hi 2 (b_ax m), b_cx := set_hi (lo (b_track m)) (b_sread m + 1),
     b_dx := set_hi (lo (b_head m)) (b_head m) AND 0x0100,
     b_stack := [set_hi 2 (b_ax m), b_bx m, set_hi (lo (b_track m)) (b_sread m + 1),
       set_hi (lo (b_head m)) (b_head m) AND 0x0100] @ b_stack (pusha m)\<rparr>"
  have run: "read_track bios m = popa ((bios 0x13 r)\<lparr>b_stack := drop 4 (b_stack (bios 0x13 r))\<rparr>)"
    unfolding read_track_def p1 by (cases m) (simp add: r_def pusha_def push16_def)
  have "b_cx r = set_hi (lo (b_track m)) (b_sread m + 1)" "b_dx r = set_hi (lo (b_head m)) (b_head m) AND 0x0100"
    "b_ax r = set_hi 2 (b_ax m)" by (simp_all add: r_def)
  note req = request_made [OF at this]
  have l: "linear r (b_es r) (b_bx r) = target m"
    using linear_low [of "b_es m" "b_bx m" r] to at(3) by (simp add: r_def pusha_def target_def)
  have rt: "req_to r = {target m..<target m + 512 * n}" by (simp add: req_to_def l req)
  have "read_request r"
    unfolding read_request_def req rt l
  proof (intro conjI ballI)
    fix x
    assume x: "x \<in> {target m..<target m + 512 * n}"
    then have "x - target m < 512 * n" by auto
    from to(3) [OF this] show "x div 0x10000 = target m div 0x10000" using x by simp
    show "0x600 \<le> x" "x < 0x90000" using x to by auto
  qed (use at in \<open>auto simp: at_sector_def\<close>)
  then have b: "undisturbed r {target m..<target m + 512 * n} (bios 0x13 r)"
    "\<forall>i < 512 * n. b_mem (bios 0x13 r) (target m + i) = disk (512 * ((t * 2 + h) * 18 + s) + i)"
    using bios unfolding bios_ok_def by (auto simp: rt l req)
  define M' where "M' = b_mem (bios 0x13 r)"
  have "read_track bios m = Some (m\<lparr>b_mem := M'\<rparr>)"
    unfolding run M'_def using b(1) by (cases m) (auto simp: undisturbed_def r_def pusha_def popa_def)
  moreover have "M' x = b_mem m x" if "0x600 \<le> x" "x < 0xA0000" "x < target m \<or> target m + 512 * n \<le> x" for x
  proof -
    have "M' x = b_mem r x" using b(1) that by (auto simp: undisturbed_def M'_def)
    then show ?thesis using M that by (simp add: r_def)
  qed
  ultimately show ?thesis using b(2) by (auto simp: M'_def)
qed

section \<open>The loop of \<^verbatim>\<open>read_it\<close>\<close>

text \<open>What the loop does not touch.\<close>

definition rest :: "rm \<Rightarrow> rm" where
  "rest m = m\<lparr>b_mem := \<lambda>_. 0, b_ax := 0, b_bx := 0, b_cx := 0, b_es := 0, b_sread := 0, b_head := 0, b_track := 0\<rparr>"

lemma rest_updates [simp]:
  "rest (m\<lparr>b_mem := M\<rparr>) = rest m" "rest (m\<lparr>b_ax := w\<rparr>) = rest m" "rest (m\<lparr>b_bx := w\<rparr>) = rest m"
  "rest (m\<lparr>b_cx := w\<rparr>) = rest m" "rest (m\<lparr>b_es := w\<rparr>) = rest m" "rest (m\<lparr>b_sread := w\<rparr>) = rest m"
  "rest (m\<lparr>b_head := w\<rparr>) = rest m" "rest (m\<lparr>b_track := w\<rparr>) = rest m"
  by (cases m, simp add: rest_def)+

lemma rest_fields:
  assumes "rest m = rest m0"
  shows "b_ds m = b_ds m0" "b_ss m = b_ss m0" "b_sp m = b_sp m0" "b_cs m = b_cs m0" "b_stack m = b_stack m0" "b_out m = b_out m0"
    "b_in m = b_in m0" "b_a20 m = b_a20 m0" "b_time m = b_time m0" "b_dx m = b_dx m0" "b_if m = b_if m0"
  using assms by (cases m; cases m0; simp add: rest_def)+

lemma drop_bit_half:
  assumes "n < 65536"
  shows "drop_bit 9 (of_nat n :: half) = of_nat (n div 512)"
proof -
  have "unat (drop_bit 9 (of_nat n :: half)) = n div 512"
    unfolding unat_drop_bit_eq half_of_nat [OF assms] by (simp add: drop_bit_eq_div)
  then have "of_nat (unat (drop_bit 9 (of_nat n :: half))) = (of_nat (n div 512) :: half)" by simp
  then show ?thesis by simp
qed

lemma ok1_read_ok:
  assumes "at_sector s h t m" "b_bx m = of_nat (512 * q)" "q < 128"
  shows "b_ax (ok1_read m) = of_nat (min (18 - s) (128 - q))" "at_sector s h t (ok1_read m)" "b_bx (ok1_read m) = b_bx m"
    "b_es (ok1_read m) = b_es m" "b_mem (ok1_read m) = b_mem m" "rest (ok1_read m) = rest m"
proof -
  have s: "s < 18" "b_sread m = of_nat s" using assms(1) by (simp_all add: at_sector_def)
  have a: "SEC_PISTA - b_sread m = of_nat (18 - s)" using s by (simp add: of_nat_diff)
  have c: "push_bit 9 (of_nat (18 - s) :: half) = of_nat (512 * (18 - s))" by (simp add: push_bit_eq_mult)
  have u: "unat (of_nat (512 * (18 - s)) :: half) = 512 * (18 - s)" "unat (of_nat (512 * q) :: half) = 512 * q"
    by (rule half_of_nat, use assms(3) in simp)+
  have z: "(of_nat (512 * (18 - s)) + of_nat (512 * q) :: half) = 0 \<longleftrightarrow> 18 - s + q = 128"
  proof -
    have "(of_nat (512 * (18 - s)) + of_nat (512 * q) :: half) = of_nat (512 * (18 - s + q))"
      by (simp add: algebra_simps)
    moreover have "(of_nat (512 * (18 - s + q)) :: half) = 0 \<longleftrightarrow> 2 ^ 16 dvd 512 * (18 - s + q)"
      by (simp only: word_of_nat_eq_0_iff) simp
    moreover have "2 ^ 16 dvd 512 * (18 - s + q) \<longleftrightarrow> 128 dvd 18 - s + q"
      using nat_mult_dvd_cancel1 [of 512 128 "18 - s + q"] by simp
    moreover have "128 dvd 18 - s + q \<longleftrightarrow> 18 - s + q = 128"
    proof
      assume "128 dvd 18 - s + q"
      then obtain k where k: "18 - s + q = 128 * k" ..
      then have "0 < k" "k < 2" using s assms(3) by (auto intro!: Nat.gr0I)
      with k show "18 - s + q = 128" by simp
    qed simp
    ultimately show ?thesis by simp
  qed
  show "b_ax (ok1_read m) = of_nat (min (18 - s) (128 - q))"
  proof (cases "18 - s + q \<le> 128")
    case True
    then have "min (18 - s) (128 - q) = 18 - s" by simp
    then show ?thesis using True z u by (auto simp: ok1_read_def Let_def a c assms(2))
  next
    case False
    then have q: "0 < q" "min (18 - s) (128 - q) = 128 - q" by simp_all
    have "0 - of_nat (512 * q) = (of_nat (65536 - 512 * q) :: half)"
      using assms(3) by (simp add: of_nat_diff)
    then have d: "drop_bit 9 (0 - of_nat (512 * q) :: half) = of_nat ((65536 - 512 * q) div 512)"
      using drop_bit_half [of "65536 - 512 * q"] q(1) by simp
    have e: "(65536 - 512 * q) div 512 = 128 - q" by (rule div_nat_eqI) (use assms(3) in auto)
    have "drop_bit 9 (0 - of_nat (512 * q) :: half) = of_nat (128 - q)" unfolding d e ..
    then show ?thesis using False z u q(2) by (simp add: ok1_read_def Let_def a c assms(2))
  qed
  show "at_sector s h t (ok1_read m)" "b_bx (ok1_read m) = b_bx m"
    "b_es (ok1_read m) = b_es m" "b_mem (ok1_read m) = b_mem m" "rest (ok1_read m) = rest m"
    using assms(1) by (simp_all add: ok1_read_def Let_def at_sector_def)
qed

lemma next_sector_ok:
  assumes "at_sector s h t m" "b_ax m = of_nat n" "s + n \<le> 18"
  defines "m' \<equiv> next_sector m"
  shows "b_sread m' = of_nat (if s + n = 18 then 0 else s + n)" "b_head m' = of_nat (if s + n = 18 then 1 - h else h)"
    "b_track m' = of_nat (if s + n = 18 \<and> h = 1 then t + 1 else t)"
    "b_cx m' = of_nat n" "b_es m' = b_es m" "b_bx m' = b_bx m" "b_mem m' = b_mem m" "rest m' = rest m"
proof -
  note a = assms(1,2) [unfolded at_sector_def]
  have e: "of_nat n + of_nat s = (18 :: half) \<longleftrightarrow> s + n = 18"
  proof
    assume "of_nat n + of_nat s = (18 :: half)"
    then have "unat (of_nat (n + s) :: half) = unat (18 :: half)" by simp
    moreover have "unat (of_nat (n + s) :: half) = n + s" by (rule half_of_nat) (use assms(3) in simp)
    ultimately show "s + n = 18" by simp
  next
    assume "s + n = 18"
    then have "of_nat (n + s) = (of_nat 18 :: half)" by (simp add: add.commute)
    then show "of_nat n + of_nat s = (18 :: half)" by simp
  qed
  have h: "h = 0 \<or> h = 1" using a by linarith
  show "b_sread m' = of_nat (if s + n = 18 then 0 else s + n)" "b_head m' = of_nat (if s + n = 18 then 1 - h else h)"
    "b_track m' = of_nat (if s + n = 18 \<and> h = 1 then t + 1 else t)"
    "b_cx m' = of_nat n" "b_es m' = b_es m" "b_bx m' = b_bx m" "b_mem m' = b_mem m" "rest m' = rest m"
    using a h by (auto simp: m'_def next_sector_def Let_def e add.commute)
qed

lemma next_address_ok:
  assumes "b_cx m = of_nat n" "b_bx m = of_nat (512 * q)" "b_es m = of_nat (0x1000 * (k + 1))" "n \<le> 18" "q < 128" "q + n \<le> 128" "k < 8"
  defines "m' \<equiv> next_address m"
  shows "b_bx m' = of_nat (512 * (if q + n = 128 then 0 else q + n))"
    "b_es m' = of_nat (0x1000 * ((if q + n = 128 then k + 1 else k) + 1))" "b_sread m' = b_sread m" "b_head m' = b_head m"
    "b_track m' = b_track m" "b_mem m' = b_mem m" "rest m' = rest m"
proof -
  have c: "push_bit 9 (of_nat n :: half) = of_nat (512 * n)" by (simp add: push_bit_eq_mult)
  have u: "unat (of_nat (512 * n) :: half) = 512 * n" by (rule half_of_nat) (use assms(4) in simp)
  have v: "unat (of_nat (512 * q) :: half) + 512 * n \<ge> 2 ^ 16 \<longleftrightarrow> q + n = 128"
  proof -
    have "unat (of_nat (512 * q) :: half) = 512 * q" by (rule half_of_nat) (use assms(5) in simp)
    then show ?thesis using assms(6) by auto
  qed
  have es: "set_hi (hi (of_nat (0x1000 * (k + 1))) + 0x10) (of_nat (0x1000 * (k + 1))) = (of_nat (0x1000 * (k + 2)) :: half)"
  proof -
    have "k \<in> set [0..<8]" using assms(7) by simp
    then show ?thesis by (simp add: upt_conv_Cons del: set_upt) (auto simp: set_hi_def hi_def)
  qed
  show "b_bx m' = of_nat (512 * (if q + n = 128 then 0 else q + n))"
    "b_es m' = of_nat (0x1000 * ((if q + n = 128 then k + 1 else k) + 1))" "b_sread m' = b_sread m" "b_head m' = b_head m"
    "b_track m' = b_track m" "b_mem m' = b_mem m" "rest m' = rest m"
    using u v es by (simp_all add: m'_def next_address_def Let_def c assms(1-3) algebra_simps)
qed

text \<open>The invariant: \<open>r\<close> sectors behind the first have been read.\<close>

definition loaded :: "(nat \<Rightarrow> byte) \<Rightarrow> rm \<Rightarrow> nat \<Rightarrow> rm \<Rightarrow> bool" where
  "loaded disk m0 r m \<longleftrightarrow>
     at_sector ((r + 1) mod 18) ((r + 1) div 18 mod 2) ((r + 1) div 18 div 2) m \<and>
     b_bx m = of_nat (512 * (r mod 128)) \<and> b_es m = of_nat (0x1000 * (r div 128 + 1)) \<and> rest m = rest m0 \<and>
     (\<forall>i < 512 * r. b_mem m (0x10000 + i) = disk (512 + i)) \<and>
     (\<forall>x. 0x600 \<le> x \<longrightarrow> x < 0xA0000 \<longrightarrow> x < 0x10000 \<or> 0x10000 + 512 * r \<le> x \<longrightarrow> b_mem m x = b_mem m0 x)"

lemma in_segment: "16 * (0x1000 * (r div 128 + 1)) + 512 * (r mod 128) = 0x10000 + 512 * (r :: nat)"
proof -
  define k q where "k = r div 128" and "q = r mod 128"
  have "r = 128 * k + q" by (simp add: k_def q_def)
  then show ?thesis unfolding k_def [symmetric] q_def [symmetric] by simp
qed

lemma loaded_target:
  assumes "loaded disk m0 r m" "r < 1024"
  shows "target m = 0x10000 + 512 * r"
proof -
  have "unat (b_es m) = 0x1000 * (r div 128 + 1)" "unat (b_bx m) = 512 * (r mod 128)"
    using assms half_of_nat [of "0x1000 * (r div 128 + 1)"] half_of_nat [of "512 * (r mod 128)"]
    by (simp_all add: loaded_def)
  then show ?thesis unfolding target_def by (simp only: in_segment)
qed

lemma advance:
  fixes x n k :: nat
  assumes "x mod k + n \<le> k" "0 < k"
  shows "(x + n) mod k = (if x mod k + n = k then 0 else x mod k + n)"
    "(x + n) div k = (if x mod k + n = k then x div k + 1 else x div k)"
proof -
  define y q where "y = x mod k + n" and "q = x div k"
  have x: "x + n = y + k * q" by (simp add: y_def q_def)
  have y: "y \<le> k" using assms(1) by (simp add: y_def)
  show "(x + n) mod k = (if x mod k + n = k then 0 else x mod k + n)"
    unfolding x y_def [symmetric] using y by simp
  show "(x + n) div k = (if x mod k + n = k then x div k + 1 else x div k)"
    unfolding x y_def [symmetric] q_def [symmetric] using y assms(2) by simp
qed

text \<open>One round: it reads to the end of the track or of the segment, whichever is first.\<close>

definition batch :: "nat \<Rightarrow> nat" where
  "batch r = min (18 - (r + 1) mod 18) (128 - r mod 128)"

lemma batch: "0 < batch r" "(r + 1) mod 18 + batch r \<le> 18" "r mod 128 + batch r \<le> 128"
proof -
  have "(r + 1) mod 18 < 18" "r mod 128 < 128" by simp_all
  then show "0 < batch r" "(r + 1) mod 18 + batch r \<le> 18" "r mod 128 + batch r \<le> 128"
    unfolding batch_def by linarith+
qed

lemma after_batch:
  fixes r :: nat
  defines "n \<equiv> batch r" and "s \<equiv> (r + 1) mod 18" and "h \<equiv> (r + 1) div 18 mod 2" and "t \<equiv> (r + 1) div 18 div 2"
  shows "(r + n + 1) mod 18 = (if s + n = 18 then 0 else s + n)"
    "(r + n + 1) div 18 mod 2 = (if s + n = 18 then 1 - h else h)"
    "(r + n + 1) div 18 div 2 = (if s + n = 18 \<and> h = 1 then t + 1 else t)"
proof -
  note a = advance [of "r + 1" 18 n, folded s_def]
  have c: "r + n + 1 = r + 1 + n" by simp
  have n: "s + n \<le> 18" using batch(2) by (simp add: s_def n_def)
  show "(r + n + 1) mod 18 = (if s + n = 18 then 0 else s + n)" unfolding c by (rule a(1) [OF n]) simp
  have d: "(r + n + 1) div 18 = (if s + n = 18 then (r + 1) div 18 + 1 else (r + 1) div 18)"
    unfolding c by (rule a(2) [OF n]) simp
  have "(q + 1) mod 2 = 1 - q mod 2 \<and> (q + 1) div 2 = (if q mod 2 = 1 then q div 2 + 1 else q div 2)" for q :: nat
    by (cases "even q") (auto elim!: evenE oddE)
  then show "(r + n + 1) div 18 mod 2 = (if s + n = 18 then 1 - h else h)"
    "(r + n + 1) div 18 div 2 = (if s + n = 18 \<and> h = 1 then t + 1 else t)"
    unfolding d by (simp_all add: h_def t_def)
qed

lemma round_ok:
  assumes bios: "bios_ok bios disk" and l: "loaded disk m0 r m" and r: "r < 1024"
  shows "\<exists>m'. read_track bios (ok1_read m) = Some m' \<and>
     loaded disk m0 (r + batch r) (next_address (next_sector m'))"
proof -
  let ?s = "(r + 1) mod 18" and ?h = "(r + 1) div 18 mod 2" and ?t = "(r + 1) div 18 div 2" and ?n = "batch r"
  note L = l [unfolded loaded_def]
  have at: "at_sector ?s ?h ?t m" "b_bx m = of_nat (512 * (r mod 128))" "r mod 128 < 128" using L by simp_all
  note ok1 = ok1_read_ok [OF at, folded batch_def]
  have to: "target (ok1_read m) = 0x10000 + 512 * r"
    using loaded_target [OF l r] ok1 by (simp add: target_def)
  have "\<exists>M. read_track bios (ok1_read m) = Some ((ok1_read m)\<lparr>b_mem := M\<rparr>) \<and>
     (\<forall>i < 512 * ?n. M (target (ok1_read m) + i) = disk (512 * ((?t * 2 + ?h) * 18 + ?s) + i)) \<and>
     (\<forall>x. 0x600 \<le> x \<longrightarrow> x < 0xA0000 \<longrightarrow> x < target (ok1_read m) \<or> target (ok1_read m) + 512 * ?n \<le> x \<longrightarrow> M x = b_mem (ok1_read m) x)"
  proof (rule read_track_ok [OF bios ok1(2,1)])
    show "1 \<le> ?n" "?s + ?n \<le> 18" using batch [of r] by simp_all
    note k = in_segment [of r]
    have "r div 128 + 1 \<le> 8" using r by simp
    then have "16 * (0x1000 * (r div 128 + 1)) + 512 * (r mod 128 + ?n) \<le> 16 * (0x1000 * 8) + 512 * 128"
      using batch(3) [of r] by (intro add_mono mult_le_mono2)
    then show "0x600 \<le> target (ok1_read m)" "target (ok1_read m) + 512 * ?n \<le> 0x90000"
      using to k by (simp_all add: algebra_simps)
    fix i
    assume i: "i < 512 * ?n"
    have "x div 0x10000 = r div 128 + 1" if "512 * r \<le> x - 0x10000" "x - 0x10000 < 512 * (r + ?n)" "0x10000 \<le> x" for x
    proof (rule div_nat_eqI)
      show "65536 * (r div 128 + 1) \<le> x" using that k by linarith
      have "y < 65536 * Suc (c + 1)" if "y - 65536 < 512 * (e + n)" "16 * (0x1000 * (c + 1)) + 512 * q = 0x10000 + 512 * e"
          "q + n \<le> 128" for y c q e n :: nat
        using that by (simp add: algebra_simps)
      from this [OF that(2) k batch(3)] show "x < 65536 * Suc (r div 128 + 1)" .
    qed
    then show "(target (ok1_read m) + i) div 0x10000 = target (ok1_read m) div 0x10000"
      using i batch(1) [of r] by (simp add: to)
  qed
  then obtain M where run: "read_track bios (ok1_read m) = Some ((ok1_read m)\<lparr>b_mem := M\<rparr>)"
    and M: "\<And>i. i < 512 * ?n \<Longrightarrow> M (0x10000 + 512 * r + i) = disk (512 * ((?t * 2 + ?h) * 18 + ?s) + i)"
      "\<And>x. 0x600 \<le> x \<Longrightarrow> x < 0xA0000 \<Longrightarrow> x < 0x10000 + 512 * r \<or> 0x10000 + 512 * (r + ?n) \<le> x \<Longrightarrow> M x = b_mem m x"
    using to ok1(5) by (auto simp: algebra_simps)
  have lba: "(?t * 2 + ?h) * 18 + ?s = r + 1" by simp
  let ?m1 = "(ok1_read m)\<lparr>b_mem := M\<rparr>"
  have at1: "at_sector ?s ?h ?t ?m1" "b_ax ?m1 = of_nat ?n" using ok1 by (simp_all add: at_sector_def)
  note s = next_sector_ok [OF at1 batch(2)]
  have a0: "b_bx (next_sector ?m1) = of_nat (512 * (r mod 128))" "b_es (next_sector ?m1) = of_nat (0x1000 * (r div 128 + 1))"
    using s ok1 L by simp_all
  have n18: "?n \<le> 18" by (simp add: batch_def)
  have k8: "r div 128 < 8" using r by simp
  note a = next_address_ok [OF s(4) a0 n18 at(3) batch(3) k8]
  note adv = advance [OF batch(3) [of r], simplified]
  have "(r + 1) div 18 div 2 \<le> 1024 div 18 div 2" using r by (intro div_le_mono) simp
  then have t: "?t < 79" by simp
  have "loaded disk m0 (r + ?n) (next_address (next_sector ?m1))"
    unfolding loaded_def
  proof (intro conjI allI impI)
    show "at_sector ((r + ?n + 1) mod 18) ((r + ?n + 1) div 18 mod 2) ((r + ?n + 1) div 18 div 2) (next_address (next_sector ?m1))"
      using a(3-5) s(1-3) t batch(2) [of r] unfolding at_sector_def after_batch by simp
    show "b_bx (next_address (next_sector ?m1)) = of_nat (512 * ((r + ?n) mod 128))" using a(1) adv(1) by simp
    show "b_es (next_address (next_sector ?m1)) = of_nat (0x1000 * ((r + ?n) div 128 + 1))" using a(2) adv(2) by simp
    show "rest (next_address (next_sector ?m1)) = rest m0" using a(7) s(8) ok1(6) L by simp
    fix i
    assume i: "i < 512 * (r + ?n)"
    have "M (0x10000 + i) = disk (512 + i)"
    proof (cases "i < 512 * r")
      case True
      then show ?thesis using M(2) [of "0x10000 + i"] L r by simp
    next
      case False
      then show ?thesis using M(1) [of "i - 512 * r"] i unfolding lba by (simp add: algebra_simps)
    qed
    then show "b_mem (next_address (next_sector ?m1)) (0x10000 + i) = disk (512 + i)" using a(6) s(7) by simp
  next
    fix x :: nat
    assume "0x600 \<le> x" "x < 0xA0000" "x < 0x10000 \<or> 0x10000 + 512 * (r + ?n) \<le> x"
    then show "b_mem (next_address (next_sector ?m1)) x = b_mem m0 x"
      using a(6) s(7) M(2) L by (auto simp: algebra_simps)
  qed
  with run show ?thesis by blast
qed

lemma load16_low:
  assumes "16 * unat seg + unat (off + 1) < 0x100000" "unat (off + 1) = unat off + 1"
  shows "load16 m seg off = set_hi (b_mem m (16 * unat seg + unat off + 1)) (ucast (b_mem m (16 * unat seg + unat off)))"
  using assms by (simp add: load16_def load8_def linear_low)

text \<open>The loop reads whole segments of 64 KB until they hold more than \<^verbatim>\<open>syssize\<close> paragraphs.\<close>

definition segments :: "rm \<Rightarrow> nat" where
  "segments m = unat (load16 m INITSEG syssize) div 0x1000 + 1"

lemma loaded_syssize:
  assumes "loaded disk m0 r m" "r \<le> 1024" "b_ds m0 = INITSEG"
  shows "load16 m (b_ds m) syssize = load16 m0 INITSEG syssize"
proof -
  have "b_ds m = INITSEG" using assms rest_fields(1) [of m m0] by (simp add: loaded_def)
  moreover have "b_mem m x = b_mem m0 x" if "x = 0x90000 + 500 \<or> x = 0x90000 + 501" for x
    using assms(1,2) that by (auto simp: loaded_def)
  ultimately show ?thesis by (simp add: load16_low)
qed

lemma rp_read_ok:
  assumes bios: "bios_ok bios disk" and ds: "b_ds m0 = INITSEG" and K: "segments m0 \<le> 8"
  shows "loaded disk m0 r m \<Longrightarrow> r \<le> 128 * segments m0 \<Longrightarrow>
     \<exists>m'. rp_read bios m = Some m' \<and> loaded disk m0 (128 * segments m0) m'"
proof (induction "128 * segments m0 - r" arbitrary: r m rule: less_induct)
  case less
  let ?S = "unat (load16 m0 INITSEG syssize)"
  have r: "r \<le> 1024" using less.prems(2) K by simp
  note sys = loaded_syssize [OF less.prems(1) r ds]
  have "b_es m = of_nat (0x1000 * (r div 128 + 1))" using less.prems(1) by (simp add: loaded_def)
  then have "b_es m - SYSSEG = of_nat (0x1000 * (r div 128))" by (simp add: algebra_simps)
  moreover have "unat (of_nat (0x1000 * (r div 128)) :: half) = 0x1000 * (r div 128)" by (rule half_of_nat) (use r in simp)
  ultimately have cond: "b_es m - SYSSEG \<le> load16 m (b_ds m) syssize \<longleftrightarrow> 0x1000 * (r div 128) \<le> ?S"
    by (simp add: sys word_le_nat_alt)
  have k: "0x1000 * (r div 128) \<le> ?S \<longleftrightarrow> r div 128 < segments m0"
    by (simp add: segments_def less_Suc_eq_le less_eq_div_iff_mult_less_eq mult.commute)
  have ax: "loaded disk m0 r (m\<lparr>b_ax := w\<rparr>)" for w
    using less.prems(1) by (simp add: loaded_def at_sector_def)
  show ?case
  proof (cases "r = 128 * segments m0")
    case True
    then have "\<not> b_es m - SYSSEG \<le> load16 m (b_ds m) syssize" using cond k by simp
    then have "rp_read bios m = Some (m\<lparr>b_ax := b_es m - SYSSEG\<rparr>)" by (subst rp_read.simps) simp
    then show ?thesis using ax True by blast
  next
    case False
    then have r': "r < 128 * segments m0" "r < 1024" using less.prems(2) K by simp_all
    then have c: "b_es m - SYSSEG \<le> load16 m (b_ds m) syssize"
      using cond k by (simp add: div_less_iff_less_mult mult.commute)
    obtain m1 where m1: "read_track bios (ok1_read (m\<lparr>b_ax := b_es m - SYSSEG\<rparr>)) = Some m1"
        "loaded disk m0 (r + batch r) (next_address (next_sector m1))"
      using round_ok [OF bios ax r'(2)] by blast
    have step: "rp_read bios m = rp_read bios (next_address (next_sector m1))"
      by (subst rp_read.simps) (simp add: c m1(1))
    have "r + batch r \<le> 128 * segments m0"
    proof -
      have "r div 128 + 1 \<le> segments m0" using c cond k by simp
      then have "128 * (r div 128 + 1) \<le> 128 * segments m0" by (rule mult_le_mono2)
      moreover have "r + batch r \<le> 128 * (r div 128 + 1)"
        using batch(3) [of r] in_segment [of r] by (simp add: algebra_simps)
      ultimately show ?thesis by linarith
    qed
    then show ?thesis
      unfolding step by (intro less.hyps [OF _ m1(2)]) (use batch(1) [of r] r' in simp_all)
  qed
qed

lemma read_it_ok:
  assumes bios: "bios_ok bios disk" and ds: "b_ds m = INITSEG" and es: "b_es m = SYSSEG" and K: "segments m \<le> 8"
    and vars: "b_sread m = 0" "b_head m = 0" "b_track m = 0" and s: "b_mem m (0x90000 + 497) = 0"
  shows "\<exists>m'. read_it bios m = Some m' \<and> loaded disk m (128 * segments m) m'"
proof -
  have z: "load8 m (b_ds m) setup_sects = 0" using s by (simp add: load8_def ds linear_low)
  have w: "set_lo 1 0 = 1" by (simp add: set_lo_def)
  let ?m = "m\<lparr>b_sread := 1, b_ax := b_es m, b_bx := 0\<rparr>"
  have "read_it bios m = rp_read bios ?m"
    using es vars(1) by (simp add: read_it_def Let_def z w)
  moreover have "loaded disk m 0 ?m"
    using vars es by (simp add: loaded_def at_sector_def)
  ultimately show ?thesis using rp_read_ok [OF bios ds K, of 0 ?m] by simp
qed

section \<open>Moving the sector\<close>

lemma store16_low:
  assumes "16 * unat seg + unat (off + 1) < 0x100000" "unat (off + 1) = unat off + 1"
  shows "store16 seg off w m =
    m\<lparr>b_mem := (b_mem m)(16 * unat seg + unat off := lo w, 16 * unat seg + unat off + 1 := hi w)\<rparr>"
  using assms by (simp add: store16_def linear_low)

lemma lo_ucast [simp]: "lo (ucast b) = b"
  unfolding lo_def by (rule bit_word_eqI) (auto simp: bit_simps)

lemma movsw_round:
  assumes "b_ds m = BOOTSEG" "b_es m = INITSEG" "b_si m = of_nat (2 * k)" "b_di m = of_nat (2 * k)" "k < 256"
  shows "store16 (b_es m) (b_di m) (load16 m (b_ds m) (b_si m)) m =
    m\<lparr>b_mem := (b_mem m)(0x90000 + 2 * k := b_mem m (0x7C00 + 2 * k), 0x90000 + 2 * k + 1 := b_mem m (0x7C00 + 2 * k + 1))\<rparr>"
proof -
  have u: "unat (of_nat (2 * k) :: half) = 2 * k" by (rule half_of_nat) (use assms(5) in simp)
  have "unat (of_nat (2 * k + 1) :: half) = 2 * k + 1" by (rule half_of_nat) (use assms(5) in simp)
  then have v: "unat (of_nat (2 * k) + 1 :: half) = 2 * k + 1" by (simp add: add.commute)
  have l: "load16 m (b_ds m) (b_si m) = set_hi (b_mem m (0x7C00 + 2 * k + 1)) (ucast (b_mem m (0x7C00 + 2 * k)))"
    using load16_low [of "b_ds m" "b_si m" m] u v assms(5) unfolding assms(1,3) by simp
  show ?thesis
    using store16_low [of "b_es m" "b_di m"] u v assms(5) unfolding l unfolding assms(2,4) by simp
qed

lemma rep_movsw_ok:
  assumes "b_ds m = BOOTSEG" "b_es m = INITSEG" "b_si m = of_nat (2 * k)" "b_di m = of_nat (2 * k)" "b_cx m = of_nat (256 - k)" "k \<le> 256"
  shows "\<exists>M. rep_movsw m = m\<lparr>b_mem := M, b_si := 512, b_di := 512, b_cx := 0\<rparr> \<and>
     (\<forall>i<512. M (0x90000 + i) = (if i < 2 * k then b_mem m (0x90000 + i) else b_mem m (0x7C00 + i))) \<and>
     (\<forall>x. x < 0x90000 \<or> 0x90200 \<le> x \<longrightarrow> M x = b_mem m x)"
  using assms
proof (induction "256 - k" arbitrary: k m)
  case 0
  then have "k = 256" by simp
  then have "rep_movsw m = m\<lparr>b_mem := b_mem m, b_si := 512, b_di := 512, b_cx := 0\<rparr>"
    using 0 by (cases m) (simp add: rep_movsw.simps)
  then show ?case using \<open>k = 256\<close> by (intro exI [of _ "b_mem m"]) simp
next
  case (Suc n)
  then have k: "k < 256" by simp
  define M1 where "M1 = (b_mem m)(0x90000 + 2 * k := b_mem m (0x7C00 + 2 * k), 0x90000 + 2 * k + 1 := b_mem m (0x7C00 + 2 * k + 1))"
  let ?m1 = "m\<lparr>b_mem := M1, b_si := b_si m + 2, b_di := b_di m + 2, b_cx := b_cx m - 1\<rparr>"
  have "b_cx m \<noteq> 0"
  proof
    assume "b_cx m = 0"
    then have "unat (of_nat (256 - k) :: half) = 0" using Suc.prems(5) by simp
    moreover have "unat (of_nat (256 - k) :: half) = 256 - k" by (rule half_of_nat) simp
    ultimately show False using k by linarith
  qed
  then have step: "rep_movsw m = rep_movsw ?m1"
    by (subst rep_movsw.simps) (simp add: movsw_round [OF Suc.prems(1-4) k] M1_def)
  have "\<exists>M. rep_movsw ?m1 = ?m1\<lparr>b_mem := M, b_si := 512, b_di := 512, b_cx := 0\<rparr> \<and>
     (\<forall>i<512. M (0x90000 + i) = (if i < 2 * (k + 1) then b_mem ?m1 (0x90000 + i) else b_mem ?m1 (0x7C00 + i))) \<and>
     (\<forall>x. x < 0x90000 \<or> 0x90200 \<le> x \<longrightarrow> M x = b_mem ?m1 x)"
  proof (rule Suc.hyps(1))
    show "b_cx ?m1 = of_nat (256 - (k + 1))" using Suc.prems(5) k by (simp add: of_nat_diff)
  qed (use Suc.prems Suc.hyps(2) k in \<open>simp_all add: add.commute\<close>)
  then obtain M where M: "rep_movsw ?m1 = ?m1\<lparr>b_mem := M, b_si := 512, b_di := 512, b_cx := 0\<rparr>"
     "\<forall>i<512. M (0x90000 + i) = (if i < 2 * (k + 1) then b_mem ?m1 (0x90000 + i) else b_mem ?m1 (0x7C00 + i))"
     "\<forall>x. x < 0x90000 \<or> 0x90200 \<le> x \<longrightarrow> M x = b_mem ?m1 x"
    by blast
  have "rep_movsw m = m\<lparr>b_mem := M, b_si := 512, b_di := 512, b_cx := 0\<rparr>" using step M(1) by simp
  moreover have "M (0x90000 + i) = (if i < 2 * k then b_mem m (0x90000 + i) else b_mem m (0x7C00 + i))" if "i < 512" for i
  proof -
    have "i < 2 * k \<or> i = 2 * k \<or> i = 2 * k + 1 \<or> 2 * (k + 1) \<le> i" by arith
    then show ?thesis using M(2) [rule_format, OF that] k that by (elim disjE) (auto simp: M1_def)
  qed
  moreover have "M x = b_mem m x" if "x < 0x90000 \<or> 0x90200 \<le> x" for x
    using M(3) [rule_format, OF that] that k by (auto simp: M1_def)
  ultimately show ?case by blast
qed

lemma move_sector_ok:
  fixes m :: rm
  defines "m' \<equiv> move_sector m"
  shows "\<forall>i<512. b_mem m' (0x90000 + i) = b_mem m (0x7C00 + i)" "b_cs m' = INITSEG" "b_ax m' = INITSEG"
    "b_sread m' = b_sread m" "b_head m' = b_head m" "b_track m' = b_track m" "b_a20 m' = b_a20 m" "b_time m' = b_time m"
    "b_out m' = b_out m"
proof -
  let ?m = "m\<lparr>b_ds := BOOTSEG, b_ax := INITSEG, b_es := INITSEG, b_cx := 256, b_si := 0, b_di := 0\<rparr>"
  have "\<exists>M. rep_movsw ?m = ?m\<lparr>b_mem := M, b_si := 512, b_di := 512, b_cx := 0\<rparr> \<and>
     (\<forall>i<512. M (0x90000 + i) = (if i < 2 * 0 then b_mem ?m (0x90000 + i) else b_mem ?m (0x7C00 + i))) \<and>
     (\<forall>x. x < 0x90000 \<or> 0x90200 \<le> x \<longrightarrow> M x = b_mem ?m x)"
    by (rule rep_movsw_ok) simp_all
  then obtain M where M: "rep_movsw ?m = ?m\<lparr>b_mem := M, b_si := 512, b_di := 512, b_cx := 0\<rparr>"
     "\<forall>i<512. M (0x90000 + i) = b_mem m (0x7C00 + i)" by auto
  have m': "m' = (rep_movsw ?m)\<lparr>b_cs := INITSEG\<rparr>" by (simp add: m'_def move_sector_def Let_def)
  show "\<forall>i<512. b_mem m' (0x90000 + i) = b_mem m (0x7C00 + i)" "b_cs m' = INITSEG" "b_ax m' = INITSEG"
    "b_sread m' = b_sread m" "b_head m' = b_head m" "b_track m' = b_track m" "b_a20 m' = b_a20 m" "b_time m' = b_time m"
    "b_out m' = b_out m"
    unfolding m' M(1) using M(2) by simp_all
qed

section \<open>The other parts\<close>

lemma undisturbed_fields:
  assumes "undisturbed m A m'"
  shows "b_cs m' = b_cs m" "b_ds m' = b_ds m" "b_es m' = b_es m" "b_ss m' = b_ss m" "b_gs m' = b_gs m" "b_sp m' = b_sp m"
    "b_stack m' = b_stack m" "b_sread m' = b_sread m" "b_head m' = b_head m" "b_track m' = b_track m" "b_out m' = b_out m"
    "b_in m' = b_in m" "b_reads m' = b_reads m" "b_a20 m' = b_a20 m" "b_time m' = b_time m"
  using assms by (auto simp: undisturbed_def)

lemma greet_ok:
  fixes msg1 :: half
  assumes "bios_ok bios disk" "b_ax m = INITSEG"
  defines "m' \<equiv> greet bios msg1 m"
  shows "b_ds m' = INITSEG" "b_cs m' = b_cs m" "b_sread m' = b_sread m" "b_head m' = b_head m"
    "b_track m' = b_track m" "b_a20 m' = b_a20 m" "b_time m' = b_time m" "b_out m' = b_out m"
    "\<And>x. 0x600 \<le> x \<Longrightarrow> x < 0xA0000 \<Longrightarrow> b_mem m' x = b_mem m x"
proof -
  have u: "undisturbed x {} (bios 0x10 x)" for x using assms(1) by (simp add: bios_ok_def)
  have mem: "b_mem (bios 0x10 x) a = b_mem x a" if "0x600 \<le> a" "a < 0xA0000" for x a
    using u [of x] that by (auto simp: undisturbed_def)
  show "b_ds m' = INITSEG" "b_cs m' = b_cs m" "b_sread m' = b_sread m" "b_head m' = b_head m"
    "b_track m' = b_track m" "b_a20 m' = b_a20 m" "b_time m' = b_time m" "b_out m' = b_out m"
    by (simp_all add: m'_def greet_def Let_def undisturbed_fields [OF u] assms(2))
  show "\<And>x. 0x600 \<le> x \<Longrightarrow> x < 0xA0000 \<Longrightarrow> b_mem m' x = b_mem m x"
    by (simp add: m'_def greet_def Let_def mem)
qed

lemma kill_motor_ok:
  "\<exists>m'. kill_motor m = Some m' \<and> m' = m\<lparr>b_ax := b_ax m', b_out := b_out m @ [(0x3f2, 0)]\<rparr>"
  by (cases m) (simp add: kill_motor_def push16_def pop16_def out8_def)

lemma empty_8042_ok: "\<exists>a n. empty_8042 m = m\<lparr>b_ax := a, b_reads := n\<rparr>"
proof -
  have "\<exists>a n. empty_8042_loop c m = m\<lparr>b_ax := a, b_reads := n\<rparr>" for c
  proof (induction c m rule: empty_8042_loop.induct)
    case IH: (1 c m)
    have in8: "\<exists>a n. in8 port m = m\<lparr>b_ax := a, b_reads := n\<rparr>" for port m by (auto simp: in8_def)
    have trans: "\<exists>a n. z = x\<lparr>b_ax := a, b_reads := n\<rparr>"
      if "\<exists>a n. y = x\<lparr>b_ax := a, b_reads := n\<rparr>" "\<exists>a n. z = y\<lparr>b_ax := a, b_reads := n\<rparr>" for x y z :: rm
    proof -
      from that obtain a n where "z = x\<lparr>b_ax := a, b_reads := n\<rparr>" by (elim exE) simp
      then show ?thesis by blast
    qed
    have id: "\<exists>a n. x = x\<lparr>b_ax := a, b_reads := n\<rparr>" for x :: rm
      by (intro exI [of _ "b_ax x"] exI [of _ "b_reads x"]) simp
    let ?i = "in8 0x64 m"
    show ?case
    proof (cases "c - 1 = 0")
      case True
      then show ?thesis by (subst empty_8042_loop.simps) (simp add: Let_def id)
    next
      case n: False
      consider "b_ax ?i AND 1 \<noteq> 0" | "b_ax ?i AND 1 = 0" "b_ax ?i AND 2 \<noteq> 0" | "b_ax ?i AND 1 = 0" "b_ax ?i AND 2 = 0"
        by blast
      then show ?thesis
      proof cases
        case 1
        then have "empty_8042_loop c m = empty_8042_loop (c - 1) (in8 0x60 ?i)"
          using n by (subst empty_8042_loop.simps) (simp add: Let_def)
        then show ?thesis using trans [OF trans [OF in8 in8] IH(1) [OF refl n refl 1]] by simp
      next
        case 2
        then have "empty_8042_loop c m = empty_8042_loop (c - 1) ?i"
          using n by (subst empty_8042_loop.simps) (simp add: Let_def)
        then show ?thesis using trans [OF in8 IH(2) [OF refl n refl _ 2(2)]] 2(1) by simp
      next
        case 3
        then have "empty_8042_loop c m = ?i"
          using n by (subst empty_8042_loop.simps) (simp add: Let_def)
        then show ?thesis using in8 by simp
      qed
    qed
  qed
  then show ?thesis by (simp add: empty_8042_def)
qed

lemma empty_8042_fields [simp]:
  "b_mem (empty_8042 m) = b_mem m" "b_cs (empty_8042 m) = b_cs m" "b_ds (empty_8042 m) = b_ds m"
  "b_a20 (empty_8042 m) = b_a20 m" "b_out (empty_8042 m) = b_out m" "b_if (empty_8042 m) = b_if m"
  using empty_8042_ok [of m] by auto

subsection \<open>Address line 20\<close>

text \<open>The word at 0x10007C, and the memory with a word at 0x7C.\<close>

definition high_word :: "rm \<Rightarrow> half" where
  "high_word m = set_hi (b_mem m 0x10007D) (ucast (b_mem m 0x10007C))"

definition marked :: "half \<Rightarrow> (nat \<Rightarrow> byte) \<Rightarrow> nat \<Rightarrow> byte" where
  "marked w M = M(0x7C := lo w, 0x7D := hi w)"

lemma marked_marked [simp]: "marked w (marked v M) = marked w M"
  by (rule ext) (simp add: marked_def)

lemma a20_round:
  fixes m :: rm
  assumes "b_ds m = 0" "b_gs m = 0xFFFF"
  defines "a \<equiv> b_ax m + 1"
  shows "a20_wait m =
     (if b_a20 m (b_time m) \<and> high_word m \<noteq> a then Some (m\<lparr>b_ax := a, b_mem := marked a (b_mem m)\<rparr>)
      else a20_wait (m\<lparr>b_ax := a, b_mem := marked a (b_mem m), b_time := Suc (b_time m)\<rparr>))"
proof -
  have s: "store16 0 TEST_ADDR a (m\<lparr>b_ax := a\<rparr>) = m\<lparr>b_ax := a, b_mem := marked a (b_mem m)\<rparr>"
    by (simp add: store16_low marked_def)
  have "load16 (m\<lparr>b_ax := a, b_mem := marked a (b_mem m)\<rparr>) 0xFFFF (TEST_ADDR + 0x10) =
      (if b_a20 m (b_time m) then high_word m else a)"
    by (simp add: load16_def load8_def linear_def marked_def high_word_def)
  then show ?thesis
    by (subst a20_wait.simps) (auto simp: Let_def assms(1,2) a_def [symmetric] s)
qed

definition waited :: "rm \<Rightarrow> rm \<Rightarrow> bool" where
  "waited m m' \<longleftrightarrow> (\<exists>a t. m' = m\<lparr>b_ax := a, b_mem := marked a (b_mem m), b_time := t\<rparr> \<and> b_a20 m t)"

lemma waited_later: "waited (m\<lparr>b_ax := a, b_mem := marked a (b_mem m), b_time := t\<rparr>) m' \<Longrightarrow> waited m m'"
  by (auto simp: waited_def)

lemma waited_now: "b_a20 m (b_time m) \<Longrightarrow> waited m (m\<lparr>b_ax := a, b_mem := marked a (b_mem m)\<rparr>)"
  unfolding waited_def by (intro exI [of _ a] exI [of _ "b_time m"]) simp

text \<open>Once the gate stays open two rounds are enough.\<close>

lemma a20_wait_open:
  assumes "b_ds m = 0" "b_gs m = 0xFFFF" "\<And>t. b_time m \<le> t \<Longrightarrow> b_a20 m t"
  shows "\<exists>m'. a20_wait m = Some m' \<and> waited m m'"
proof (cases "high_word m = b_ax m + 1")
  case True
  let ?m = "m\<lparr>b_ax := b_ax m + 1, b_mem := marked (b_ax m + 1) (b_mem m), b_time := Suc (b_time m)\<rparr>"
  have "high_word ?m \<noteq> b_ax ?m + 1" using True by (simp add: high_word_def marked_def)
  then have "a20_wait m = Some (?m\<lparr>b_ax := b_ax ?m + 1, b_mem := marked (b_ax ?m + 1) (b_mem ?m)\<rparr>)"
    using True assms by (simp add: a20_round [of m] a20_round [of ?m] del: marked_marked)
  moreover have "b_a20 ?m (b_time ?m)" using assms(3) by simp
  ultimately show ?thesis using waited_later [OF waited_now] by blast
next
  case False
  then show ?thesis using a20_round [OF assms(1,2)] waited_now assms(3) by auto
qed

lemma a20_wait_ok:
  assumes "b_ds m = 0" "b_gs m = 0xFFFF" "\<And>t. N \<le> t \<Longrightarrow> b_a20 m t"
  shows "\<exists>m'. a20_wait m = Some m' \<and> waited m m'"
  using assms
proof (induction "N - b_time m" arbitrary: m rule: less_induct)
  case less
  show ?case
  proof (cases "N \<le> b_time m")
    case True
    then show ?thesis using less.prems by (intro a20_wait_open) auto
  next
    case False
    let ?m = "m\<lparr>b_ax := b_ax m + 1, b_mem := marked (b_ax m + 1) (b_mem m), b_time := Suc (b_time m)\<rparr>"
    have "\<exists>m'. a20_wait ?m = Some m' \<and> waited ?m m'" by (rule less.hyps) (use less.prems False in auto)
    then show ?thesis using a20_round [OF less.prems(1,2)] waited_now waited_later by fastforce
  qed
qed

lemma open_a20_ok:
  assumes "\<And>t. N \<le> t \<Longrightarrow> b_a20 m t"
  shows "\<exists>m'. open_a20 m = Some m' \<and> b_mem m' = b_mem m \<and> b_cs m' = b_cs m \<and> b_a20 m' (b_time m') \<and>
     b_out m' = b_out m @ [(0x64, 0xD1), (0x60, 0xDF)] \<and> b_if m' = b_if m"
proof -
  define m2 where "m2 = out8 0x60 0xDF (empty_8042 (out8 0x64 0xD1 (empty_8042 m)))"
  define m3 where "m3 = (push16 (b_ds m2) (empty_8042 m2))\<lparr>b_ax := 0, b_ds := 0, b_ax := -1, b_gs := -1\<rparr>"
  define m4 where "m4 = m3\<lparr>b_bx := load16 m3 (b_ds m3) TEST_ADDR\<rparr>"
  have f2: "b_mem m2 = b_mem m" "b_cs m2 = b_cs m" "b_a20 m2 = b_a20 m" "b_out m2 = b_out m @ [(0x64, 0xD1), (0x60, 0xDF)]"
    "b_if m2 = b_if m" "b_ds m2 = b_ds m"
    by (simp_all add: m2_def out8_def)
  have f4: "b_ds m4 = 0" "b_gs m4 = 0xFFFF" "b_a20 m4 = b_a20 m" "b_mem m4 = b_mem m" "b_cs m4 = b_cs m" "b_if m4 = b_if m"
    "b_out m4 = b_out m2" "b_stack m4 = b_ds m2 # b_stack (empty_8042 m2)" "b_bx m4 = set_hi (b_mem m 0x7D) (ucast (b_mem m 0x7C))"
    using f2 by (simp_all add: m4_def m3_def push16_def load16_low)
  obtain m5 where m5: "a20_wait m4 = Some m5" "waited m4 m5" using a20_wait_ok [OF f4(1,2)] f4(3) assms by metis
  then obtain v t where w: "m5 = m4\<lparr>b_ax := v, b_mem := marked v (b_mem m4), b_time := t\<rparr>" "b_a20 m4 t"
    by (auto simp: waited_def)
  have "open_a20 m = do { m \<leftarrow> a20_wait m4; m \<leftarrow> Some (store16 (b_ds m) TEST_ADDR (b_bx m) m);
      (w, m) \<leftarrow> pop16 m; Some (m\<lparr>b_ds := w\<rparr>) }"
    by (simp add: open_a20_def m4_def m3_def m2_def push16_def)
  also have "\<dots> = Some (m5\<lparr>b_mem := marked (b_bx m4) (b_mem m5), b_stack := b_stack (empty_8042 m2), b_ds := b_ds m2\<rparr>)"
    unfolding m5(1) using f4 by (simp add: w(1) store16_low marked_def pop16_def)
  finally have run: "open_a20 m = Some (m5\<lparr>b_mem := marked (b_bx m4) (b_mem m5), b_stack := b_stack (empty_8042 m2), b_ds := b_ds m2\<rparr>)" .
  have "marked (b_bx m4) (b_mem m5) = b_mem m"
    unfolding f4(9) w(1) by (rule ext) (simp add: marked_def f4(4))
  then show ?thesis using run f2 f4 w by simp
qed

section \<open>The sector as a whole\<close>

text \<open>Entry \<open>n\<close> of the table that the register of the processor points to, and the table of the sector.\<close>

definition gdt_entry :: "rm \<Rightarrow> nat \<Rightarrow> Descriptor" where
  "gdt_entry m n =
     (let b = (\<lambda>k. b_mem m (unat (reg_base (b_gdtr m)) + 8 * n + k))
      in \<lparr>limit = set_hi (b 1) (ucast (b 0)), lowBase = set_hi (b 3) (ucast (b 2)), midBase = b 4, flags1 = b 5,
          flags2 = b 6, highBase = b 7\<rparr>)"

definition flat_segment :: "byte \<Rightarrow> Descriptor" where
  "flat_segment rights =
     \<lparr>limit = 0xFFFF, lowBase = 0, midBase = 0, flags1 = rights, flags2 = 0xcf, highBase = 0\<rparr>"

definition boot_gdt :: "Descriptor list" where
  "boot_gdt =
     [\<lparr>limit = 0, lowBase = 0, midBase = 0, flags1 = 0, flags2 = 0, highBase = 0\<rparr>,
      \<lparr>limit = 0, lowBase = 0, midBase = 0, flags1 = 0, flags2 = 0, highBase = 0\<rparr>,
      flat_segment 0x9a, flat_segment 0x92, flat_segment 0xfa, flat_segment 0xf2,
      \<lparr>limit = 104, lowBase = 0, midBase = 0, flags1 = 0x89, flags2 = 0, highBase = 0\<rparr>]"

text \<open>The data of the sector, where \<^verbatim>\<open>build\<close> has replaced \<^verbatim>\<open>syssize\<close>.\<close>

definition has_boot_data :: "(nat \<Rightarrow> byte) \<Rightarrow> bool" where
  "has_boot_data disk \<longleftrightarrow> (\<forall>i<77. i \<notin> {65, 66} \<longrightarrow> disk (435 + i) = boot_data ! i)"

definition disk_syssize :: "(nat \<Rightarrow> byte) \<Rightarrow> nat" where
  "disk_syssize disk = unat (disk 500) + 256 * unat (disk 501)"

lemma boot_data_nth:
  "boot_data = [0,0,0,0,0,0,0,0, 0,0,0,0,0,0,0,0, 0xFF,0xFF,0,0,0,0x9a,0xcf,0, 0xFF,0xFF,0,0,0,0x92,0xcf,0,
     0xFF,0xFF,0,0,0,0xfa,0xcf,0, 0xFF,0xFF,0,0,0,0xf2,0xcf,0, 104,0,0,0,0,0x89,0,0, 0,0,0,0,0,0, 0, 0,0, 0x00,0x7F, 0x00,0x80,
     0xb3,0x01,0x09,0x00, 0,0, 0x55,0xAA]"
  by (simp add: boot_data_def gdt_data_def words_def lo_def hi_def)

lemma unat_parts: "unat w = unat (lo w) + 256 * unat (hi w)"
proof -
  have "unat w < 2 ^ 16" using unsigned_less [of w, where ?'a = nat] by simp
  then have "unat w div 2 ^ 8 < 2 ^ 8" by (simp add: div_less_iff_less_mult)
  moreover have "unat (hi w) = take_bit 8 (unat w div 2 ^ 8)"
    by (simp add: hi_def unsigned_ucast_eq drop_bit_eq_div unat_div)
  ultimately have "unat (hi w) = unat w div 2 ^ 8" by (simp add: take_bit_nat_eq_self)
  moreover have "unat (lo w) = unat w mod 2 ^ 8" by (simp add: lo_def unsigned_ucast_eq take_bit_eq_mod)
  ultimately show ?thesis by simp
qed

lemma unat_set_hi: "unat (set_hi h (ucast l)) = unat l + 256 * unat h" for h l :: byte
  by (subst unat_parts) simp

text \<open>The part before the loop of \<^verbatim>\<open>read_it\<close>, and the part behind it.\<close>

definition before_read :: "bios \<Rightarrow> half \<Rightarrow> rm \<Rightarrow> rm" where
  "before_read bios msg1 m = (greet bios msg1 (move_sector m))\<lparr>b_ax := SYSSEG, b_es := SYSSEG\<rparr>"

lemma before_read_ok:
  fixes m :: rm and msg1 :: half
  assumes "bios_ok bios disk" "\<forall>i<512. b_mem m (0x7C00 + i) = disk i" "has_boot_data disk"
  defines "m' \<equiv> before_read bios msg1 m"
  shows "b_ds m' = INITSEG" "b_cs m' = INITSEG" "b_es m' = SYSSEG" "b_sread m' = b_sread m" "b_head m' = b_head m"
    "b_track m' = b_track m" "b_a20 m' = b_a20 m" "b_out m' = b_out m" "\<And>i. i < 512 \<Longrightarrow> b_mem m' (0x90000 + i) = disk i"
    "segments m' = disk_syssize disk div 0x1000 + 1"
proof -
  note ms = move_sector_ok [of m]
  note g = greet_ok [OF assms(1) ms(3), where ?msg1.0 = msg1]
  show "b_ds m' = INITSEG" "b_cs m' = INITSEG" "b_es m' = SYSSEG" "b_sread m' = b_sread m" "b_head m' = b_head m"
    "b_track m' = b_track m" "b_a20 m' = b_a20 m" "b_out m' = b_out m"
    using ms g by (simp_all add: m'_def before_read_def)
  show mem: "b_mem m' (0x90000 + i) = disk i" if "i < 512" for i
    using ms(1) g(9) [of "0x90000 + i"] assms(2) that by (simp add: m'_def before_read_def)
  have "b_mem m' (0x90000 + 500) = disk 500" "b_mem m' (0x90000 + 501) = disk 501" by (rule mem, simp)+
  then show "segments m' = disk_syssize disk div 0x1000 + 1"
    by (simp add: segments_def load16_low unat_set_hi disk_syssize_def)
qed

lemma enter_protected_ok:
  assumes cs: "b_cs m = INITSEG" and mem: "\<forall>i<77. i \<notin> {65, 66} \<longrightarrow> b_mem m (0x90000 + 435 + i) = boot_data ! i"
  defines "m' \<equiv> enter_protected m"
  shows "b_cs m' = KERNEL_CS" "b_eip m' = 0x10010" "b_cr0 m' = 1" "b_mem m' = b_mem m"
    "b_if m' = b_if m" "b_a20 m' = b_a20 m" "b_time m' = b_time m" "b_out m' = b_out m"
    "b_gdtr m' = \<lparr>reg_limit = 0x8000, reg_base = GDT_START\<rparr>" "b_idtr m' = \<lparr>reg_limit = 0, reg_base = 0\<rparr>"
    "map (gdt_entry m') [0..<7] = boot_gdt"
proof -
  have b: "b_mem m (0x90000 + n) = boot_data ! (n - 435)" if "435 \<le> n" "n < 512" "n \<notin> {500, 501}" for n
  proof -
    have "n - 435 < 77" "n - 435 \<noteq> 65" "n - 435 \<noteq> 66" using that by auto
    then show ?thesis using mem [rule_format, of "n - 435"] that(1) by simp
  qed
  have idt: "load_table_reg (m\<lparr>b_ax := b_cs m, b_ds := b_cs m\<rparr>) idt_48 = \<lparr>reg_limit = 0, reg_base = 0\<rparr>"
    using b [of 491] b [of 492] b [of 493] b [of 494] b [of 495]
    by (simp add: load_table_reg_def cs load16_low load8_def linear_low boot_data_nth set_hi_def)
  have gdt: "load_table_reg (m\<lparr>b_ax := b_cs m, b_ds := b_cs m, b_idtr := r\<rparr>) gdt_48 = \<lparr>reg_limit = 0x8000, reg_base = GDT_START\<rparr>" for r
    using b [of 502] b [of 503] b [of 504] b [of 505] b [of 506]
    by (simp add: load_table_reg_def cs load16_low load8_def linear_low boot_data_nth set_hi_def)
  have m': "m' = m\<lparr>b_ds := b_cs m, b_idtr := \<lparr>reg_limit = 0, reg_base = 0\<rparr>,
      b_gdtr := \<lparr>reg_limit = 0x8000, reg_base = GDT_START\<rparr>, b_ax := 1, b_cr0 := 1, b_eip := 0x10010, b_cs := KERNEL_CS\<rparr>"
    by (simp add: m'_def enter_protected_def Let_def idt gdt)
  show "b_cs m' = KERNEL_CS" "b_eip m' = 0x10010" "b_cr0 m' = 1" "b_mem m' = b_mem m"
    "b_if m' = b_if m" "b_a20 m' = b_a20 m" "b_time m' = b_time m" "b_out m' = b_out m"
    "b_gdtr m' = \<lparr>reg_limit = 0x8000, reg_base = GDT_START\<rparr>" "b_idtr m' = \<lparr>reg_limit = 0, reg_base = 0\<rparr>"
    by (simp_all add: m')
  have e: "b_mem m' (unat (reg_base (b_gdtr m')) + 8 * n + k) = boot_data ! (8 * n + k)" if "n < 7" "k < 8" for n k
    using mem [rule_format, of "8 * n + k"] that by (simp add: m' add.assoc)
  have "gdt_entry m' n = \<lparr>limit = set_hi (boot_data ! (8 * n + 1)) (ucast (boot_data ! (8 * n))),
      lowBase = set_hi (boot_data ! (8 * n + 3)) (ucast (boot_data ! (8 * n + 2))), midBase = boot_data ! (8 * n + 4),
      flags1 = boot_data ! (8 * n + 5), flags2 = boot_data ! (8 * n + 6), highBase = boot_data ! (8 * n + 7)\<rparr>" if "n < 7" for n
    using e [OF that, of 0] e [OF that, of 1] e [OF that, of 2] e [OF that, of 3] e [OF that, of 4] e [OF that, of 5]
      e [OF that, of 6] e [OF that, of 7] by (simp add: gdt_entry_def Let_def)
  then show "map (gdt_entry m') [0..<7] = boot_gdt"
    by (simp add: boot_gdt_def flat_segment_def upt_conv_Cons boot_data_nth set_hi_def)
qed

lemma program_8259_ok:
  "\<exists>a. program_8259 m = m\<lparr>b_ax := a, b_out := b_out m @ [(0x20, 0x11), (0xA0, 0x11), (0x21, 0x20), (0xA1, 0x28),
     (0x21, 4), (0xA1, 2), (0x21, 1), (0xA1, 1), (0xA1, 0xFF), (0x21, 0xFB)]\<rparr>"
  by (cases m) (simp add: program_8259_def out8_def)

text \<open>Everything the sector writes to ports.\<close>

definition boot_output :: "(half \<times> byte) list" where
  "boot_output =
     [(0x3f2, 0), (0x70, 0x80), (0x64, 0xD1), (0x60, 0xDF), (0x20, 0x11), (0xA0, 0x11), (0x21, 0x20), (0xA1, 0x28),
      (0x21, 4), (0xA1, 2), (0x21, 1), (0xA1, 1), (0xA1, 0xFF), (0x21, 0xFB)]"

definition boot_done :: "(nat \<Rightarrow> byte) \<Rightarrow> rm \<Rightarrow> bool" where
  "boot_done disk p \<longleftrightarrow>
     (\<forall>i < 0x10000 * (disk_syssize disk div 0x1000 + 1). b_mem p (0x10000 + i) = disk (512 + i)) \<and>
     b_cs p = KERNEL_CS \<and> b_eip p = 0x10010 \<and> b_cr0 p = 1 \<and> \<not> b_if p \<and> b_a20 p (b_time p) \<and>
     b_gdtr p = \<lparr>reg_limit = 0x8000, reg_base = GDT_START\<rparr> \<and> b_idtr p = \<lparr>reg_limit = 0, reg_base = 0\<rparr> \<and>
     map (gdt_entry p) [0..<7] = boot_gdt"

lemma bootsect_ok:
  assumes bios: "bios_ok bios disk" and sector: "\<forall>i<512. b_mem m (0x7C00 + i) = disk i" "has_boot_data disk"
    and vars: "b_sread m = 0" "b_head m = 0" "b_track m = 0"
    and size: "disk_syssize disk < 0x8000" and a20: "\<And>t. N \<le> t \<Longrightarrow> b_a20 m t"
  shows "\<exists>p. bootsect bios msg1 m = Some p \<and> boot_done disk p \<and> b_out p = b_out m @ boot_output"
proof -
  let ?m2 = "before_read bios msg1 m"
  note 2 = before_read_ok [OF bios sector, where ?msg1.0 = msg1]
  have data: "b_mem ?m2 (0x90000 + 435 + i) = boot_data ! i" if "i < 77" "i \<notin> {65, 66}" for i
    using 2(9) [of "435 + i"] sector(2) that by (simp add: has_boot_data_def add.assoc)
  have K: "segments ?m2 \<le> 8"
  proof -
    have "disk_syssize disk div 0x1000 < 8" using size by (simp add: div_less_iff_less_mult)
    then show ?thesis by (simp add: 2(10))
  qed
  have z: "b_mem ?m2 (0x90000 + 497) = 0" using data [of 62] by (simp add: boot_data_nth)
  obtain m3 where m3: "read_it bios ?m2 = Some m3" "loaded disk ?m2 (128 * segments ?m2) m3"
    using read_it_ok [OF bios 2(1,3) K] vars z 2(4-6) by auto
  have rest: "rest m3 = rest ?m2" using m3(2) by (simp add: loaded_def)
  note f3 = rest_fields [OF rest]
  obtain m4 where m4: "kill_motor m3 = Some m4" "m4 = m3\<lparr>b_ax := b_ax m4, b_out := b_out m3 @ [(0x3f2, 0)]\<rparr>"
    using kill_motor_ok by blast
  let ?m5 = "out8 0x70 0x80 (m4\<lparr>b_if := False\<rparr>)"
  have f4: "b_mem m4 = b_mem m3" "b_cs m4 = b_cs m3" "b_a20 m4 = b_a20 m3" "b_out m4 = b_out m3 @ [(0x3f2, 0)]"
    by (subst m4(2), simp)+
  have "b_a20 ?m5 t" if "N \<le> t" for t using a20 [OF that] f4(3) f3(8) 2(7) by (simp add: out8_def)
  then obtain m6 where m6: "open_a20 ?m5 = Some m6" "b_mem m6 = b_mem m3" "b_cs m6 = INITSEG" "b_a20 m6 (b_time m6)"
      "b_out m6 = b_out m3 @ [(0x3f2, 0), (0x70, 0x80), (0x64, 0xD1), (0x60, 0xDF)]" "\<not> b_if m6"
    using open_a20_ok [of N ?m5] f4 f3(4) 2(2) by (auto simp: out8_def)
  obtain a where m7: "program_8259 m6 = m6\<lparr>b_ax := a, b_out := b_out m6 @ [(0x20, 0x11), (0xA0, 0x11), (0x21, 0x20),
      (0xA1, 0x28), (0x21, 4), (0xA1, 2), (0x21, 1), (0xA1, 1), (0xA1, 0xFF), (0x21, 0xFB)]\<rparr>"
    using program_8259_ok by blast
  let ?p = "enter_protected (program_8259 m6)"
  have run: "bootsect bios msg1 m = Some ?p"
    using m3(1) m4(1) m6(1) by (simp add: bootsect_def before_read_def)
  have cs: "b_cs (program_8259 m6) = INITSEG" using m6(3) by (simp add: m7)
  have "b_mem (program_8259 m6) (0x90000 + 435 + i) = boot_data ! i" if "i < 77" "i \<notin> {65, 66}" for i
  proof -
    have "b_mem m3 (0x90000 + 435 + i) = b_mem ?m2 (0x90000 + 435 + i)"
      using m3(2) K that(1) by (auto simp: loaded_def)
    then show ?thesis using data [OF that] m6(2) by (simp add: m7)
  qed
  then have "\<forall>i<77. i \<notin> {65, 66} \<longrightarrow> b_mem (program_8259 m6) (0x90000 + 435 + i) = boot_data ! i" by blast
  note p = enter_protected_ok [OF cs this]
  have mem: "b_mem ?p = b_mem m3" unfolding p(4) by (simp add: m7 m6(2))
  have "b_mem ?p (0x10000 + i) = disk (512 + i)" if "i < 0x10000 * (disk_syssize disk div 0x1000 + 1)" for i
    using m3(2) that unfolding mem by (simp add: loaded_def 2(10) algebra_simps)
  then have "boot_done disk ?p"
    unfolding boot_done_def p by (simp add: m7 m6)
  moreover have "b_out ?p = b_out m @ boot_output"
    unfolding p(8) by (simp add: m7 m6(5) f3(6) 2(8) boot_output_def)
  ultimately show ?thesis using run by blast
qed

section \<open>A machine for the examples\<close>

text \<open>A BIOS that does what is documented and nothing else, and a machine just after it has loaded the sector.\<close>

definition ideal_bios :: "(nat \<Rightarrow> byte) \<Rightarrow> bios" where
  "ideal_bios disk v m =
     (if v = 0x13 \<and> read_request m
      then m\<lparr>b_mem := \<lambda>x. if x \<in> req_to m
             then disk (512 * ((req_track m * 2 + req_head m) * 18 + req_first m - 1) + (x - linear m (b_es m) (b_bx m)))
             else b_mem m x\<rparr>
      else m)"

lemma ideal_bios_ok: "bios_ok (ideal_bios disk) disk"
proof -
  have upd: "undisturbed m A (m\<lparr>b_mem := M\<rparr>)" if M: "\<And>x. x \<notin> A \<Longrightarrow> M x = b_mem m x" for m A M
  proof -
    have "m\<lparr>b_mem := M\<rparr> = m\<lparr>b_mem := M, b_ax := b_ax m, b_bx := b_bx m, b_cx := b_cx m, b_dx := b_dx m, b_si := b_si m,
        b_di := b_di m, b_bp := b_bp m\<rparr>" by simp
    with M show ?thesis unfolding undisturbed_def by blast
  qed
  have id: "undisturbed m A m" for m A using upd [of A "b_mem m" m] by simp
  show ?thesis
    unfolding bios_ok_def
  proof (intro conjI allI impI)
    show "undisturbed m {} (ideal_bios disk 0x10 m)" for m by (simp add: ideal_bios_def id)
    fix m
    assume r: "read_request m"
    show "undisturbed m (req_to m) (ideal_bios disk 0x13 m)" using r by (simp add: ideal_bios_def upd)
    show "b_mem (ideal_bios disk 0x13 m) (linear m (b_es m) (b_bx m) + i) =
        disk (512 * ((req_track m * 2 + req_head m) * 18 + req_first m - 1) + i)" if "i < 512 * req_count m" for i
      using r that by (simp add: ideal_bios_def req_to_def)
  qed
qed

definition fresh_rm :: "(nat \<Rightarrow> byte) \<Rightarrow> rm" where
  "fresh_rm disk =
     \<lparr>b_mem = \<lambda>x. disk (x - 0x7C00), b_ax = 0, b_bx = 0, b_cx = 0, b_dx = 0, b_si = 0, b_di = 0, b_bp = 0, b_cs = BOOTSEG, b_ds = 0,
      b_es = 0, b_ss = 0, b_gs = 0, b_sp = 0, b_stack = [], b_sread = 0, b_head = 0, b_track = 0, b_out = [], b_in = \<lambda>_ _. 0,
      b_reads = 0, b_a20 = \<lambda>t. 3 \<le> t, b_time = 0, b_if = True, b_cr0 = 0, b_idtr = \<lparr>reg_limit = 0, reg_base = 0\<rparr>,
      b_gdtr = \<lparr>reg_limit = 0, reg_base = 0\<rparr>, b_eip = 0x7C00\<rparr>"

definition sample_disk :: "nat \<Rightarrow> byte" where
  "sample_disk i = (if i = 500 then 2 else if i = 501 then 0 else if 435 \<le> i \<and> i < 512 then boot_data ! (i - 435) else of_nat i)"

section \<open>The property\<close>

text \<open>C27: the boot sector loads the system and enters it. With a BIOS that does what is documented, on a disk with this sector whose
  \<^verbatim>\<open>syssize\<close> is below 0x8000, and if address line 20 opens at some time, the sector returns from its loops and jumps
  to 0x10010 in protected mode, with interrupts off and line 20 open. Every sector up to the last
  of the 64 KB segment that holds the end of the system is at 0x10000 in order: each read of the disk
  has been a request the BIOS accepts, within one track and one segment. The register of the descriptor
  table points to the seven descriptors of the sector, with flat segments for kernel and user, and the interrupt controllers
  are programmed to the vectors from 0x20 and 0x28 on and masked.\<close>

theorem boot_sector_loads:
  assumes "bios_ok bios disk" "\<forall>i<512. b_mem m (0x7C00 + i) = disk i" "has_boot_data disk"
    and "b_sread m = 0" "b_head m = 0" "b_track m = 0"
    and "disk_syssize disk < 0x8000" "\<And>t. N \<le> t \<Longrightarrow> b_a20 m t"
  shows "\<exists>p. bootsect bios msg1 m = Some p \<and>
     (\<forall>i < 0x10000 * (disk_syssize disk div 0x1000 + 1). b_mem p (0x10000 + i) = disk (512 + i)) \<and>
     b_cs p = KERNEL_CS \<and> b_eip p = 0x10010 \<and> b_cr0 p = 1 \<and> \<not> b_if p \<and> b_a20 p (b_time p) \<and>
     b_gdtr p = \<lparr>reg_limit = 0x8000, reg_base = GDT_START\<rparr> \<and> map (gdt_entry p) [0..<7] = boot_gdt \<and>
     b_out p = b_out m @ boot_output"
  using bootsect_ok [where ?msg1.0 = msg1, OF assms] unfolding boot_done_def by blast

theorem boot_sector_loads_witness:
  "\<exists>p. bootsect (ideal_bios sample_disk) 100 (fresh_rm sample_disk) = Some p \<and> b_eip p = 0x10010 \<and> b_mem p 0x10005 = 5"
proof -
  have "has_boot_data sample_disk" by (simp add: has_boot_data_def sample_disk_def)
  moreover have "disk_syssize sample_disk = 2" by (simp add: disk_syssize_def sample_disk_def)
  moreover have "\<And>t. 3 \<le> t \<Longrightarrow> b_a20 (fresh_rm sample_disk) t" by (simp add: fresh_rm_def)
  ultimately obtain p where p: "bootsect (ideal_bios sample_disk) 100 (fresh_rm sample_disk) = Some p" "b_eip p = 0x10010"
     "\<forall>i<0x10000. b_mem p (0x10000 + i) = sample_disk (512 + i)"
    using boot_sector_loads [where bios = "ideal_bios sample_disk" and disk = sample_disk and m = "fresh_rm sample_disk" and N = 3
        and ?msg1.0 = 100, OF ideal_bios_ok] by (fastforce simp: fresh_rm_def)
  have "b_mem p 0x10005 = 5" using p(3) [rule_format, of 5] by (simp add: sample_disk_def)
  then show ?thesis using p(1,2) by blast
qed

end
