(* ===== verification/System_Properties.thy ===== *)
theory System_Properties
  imports Setup_Proofs Image_Proofs Bootsect_Proofs
begin

text \<open>
  From the files of the host to the first user instruction: a disk with the image that \<^verbatim>\<open>build.c\<close> writes is one
  whose boot sector loads the kernel, and \<^verbatim>\<open>main\<close> of the kernel can start what it has loaded.
\<close>

text \<open>Build and boot agree on the layout of the image. If the builder accepts a boot sector, a
  system and a user program, and everything behind the first sector of its image is loaded at 0x10000,
  away from the stack of task 0 and the guard pages, then \<^verbatim>\<open>main\<close> finds the two sizes in it, copies exactly
  the user program to the user's pages and enters it in user mode.\<close>

theorem built_image_boots:
  assumes "length argv = 4" "files (argv ! 1) = Some b" "files (argv ! 2) = Some y" "files (argv ! 3) = Some u"
    and "read_fails b = {}" "boot_file (file_bytes b)" "regular y sys" "regular u usr"
    and "length (buf s) = 1024" "out_bytes s = []" "out_offset s = 0" "seekable s" "0x100000 \<le> out_room s"
    and "build_main files argv s = Inr s'"
    and sizes: "12 \<le> length sys" "0x10000 + length sys + length usr \<le> 0x100000" "length usr \<le> 28 * PAGE_SIZE - 4"
    and "layout_ok (kern m)" "zeroed (kern m)"
    and load: "\<And>i. i < length sys + length usr \<Longrightarrow> pmem (kern m) (of_nat (0x10000 + i)) = out_bytes s' ! (512 + i)"
    and away: "\<And>i. i < length sys + length usr \<Longrightarrow> i < 12 \<or> length sys \<le> i \<Longrightarrow>
        (0x10000 + i) div PAGE_SIZE \<notin> {unat (tasks_addr (kern m)) div PAGE_SIZE - 1,
          unat (tasks_addr (kern m)) div PAGE_SIZE, unat (tasks_addr (kern m)) div PAGE_SIZE + 10}"
    and "\<And>x. kern (set_handlers x) = kern x" "\<And>x. console_only (kern x) (kern (zeos_init_auxjp x))"
  shows "\<exists>m'. main set_handlers zeos_init_auxjp h m = Some m' \<and> r_eip m' = L_USER_START \<and> r_cs m' = USER_CS \<and>
     ksafe (kern m') boot_view \<and>
     (\<forall>i<length usr. user_read (kern m') (L_USER_START + of_nat i) = Some (usr ! i))"
proof -
  let ?n = "length sys" and ?u = "length usr"
  have out: "length (out_bytes s') = max (512 + ?n + ?u) 524"
      "bytes_dword (take 4 (drop 512 (out_bytes s'))) = of_nat ?n" "bytes_dword (take 4 (drop 516 (out_bytes s'))) = of_nat ?u"
      "\<And>i. 12 \<le> i \<Longrightarrow> i < ?n + ?u \<Longrightarrow> out_bytes s' ! (512 + i) = (sys @ usr) ! i"
    using build_image_ok [of argv files b y u sys usr s] assms(1-14) sizes by auto
  define img where "img = drop 512 (out_bytes s')"
  have l: "length img = ?n + ?u" using out(1) sizes(1) by (simp add: img_def)
  have at: "img ! i = out_bytes s' ! (512 + i)" for i
    using out(1) by (simp add: img_def)
  have "image_at (kern m) ?n ?u img"
    unfolding image_at_def Let_def
  proof (intro conjI allI impI)
    show "bytes_dword (take 4 img) = of_nat ?n" using out(2) by (simp add: img_def)
    show "bytes_dword (take 4 (drop 4 img)) = of_nat ?u" using out(3) by (simp add: img_def)
    show "pmem (kern m) (of_nat (0x10000 + i)) = img ! i" if "i < ?n + ?u" for i unfolding at by (rule load [OF that])
  qed (use l sizes away in blast)+
  from main_ok [OF assms(18,19) this assms(22,23)] obtain m' where m': "main set_handlers zeos_init_auxjp h m = Some m'"
      "ksafe (kern m') boot_view" "r_cs m' = USER_CS" "r_eip m' = L_USER_START"
      "\<forall>i<?u. user_read (kern m') (L_USER_START + of_nat i) = Some (img ! (?n + i))"
    by blast
  have "img ! (?n + i) = usr ! i" if "i < ?u" for i
    unfolding at using out(4) [of "?n + i"] that sizes(1) by (simp add: nth_append)
  with m' show ?thesis by auto
qed

theorem built_image_boots_witness:
  "\<exists>s' m m'. build_main (sample_files (replicate 16 1) [0xEB, 0xFE, 0x90, 0x90]) [''build'', ''b'', ''y'', ''u''] empty_output = Inr s' \<and>
     main (\<lambda>x. x) (\<lambda>x. x) entry_points m = Some m' \<and> r_eip m' = 0x100000 \<and> user_read (kern m') 0x100001 = Some 0xFE"
proof -
  let ?sys = "replicate 16 1 :: byte list" and ?usr = "[0xEB, 0xFE, 0x90, 0x90] :: byte list"
  let ?argv = "[''build'', ''b'', ''y'', ''u'']" and ?files = "sample_files (replicate 16 1) [0xEB, 0xFE, 0x90, 0x90]"
  obtain s' where s': "build_main ?files ?argv empty_output = Inr s'"
    using build_image_ok [of ?argv ?files "plain_file blank_boot" "plain_file ?sys" "plain_file ?usr" ?sys ?usr empty_output]
      blank_boot regular_plain sample_simps by auto
  let ?k = "reset_state\<lparr>pmem := \<lambda>x. out_bytes s' ! (512 + (unat x - 0x10000))\<rparr>"
  let ?m = "reset_machine\<lparr>kern := ?k\<rparr>"
  have "\<exists>m'. main (\<lambda>x. x) (\<lambda>x. x) entry_points ?m = Some m' \<and> r_eip m' = L_USER_START \<and> r_cs m' = USER_CS \<and>
     ksafe (kern m') boot_view \<and>
     (\<forall>i<length ?usr. user_read (kern m') (L_USER_START + of_nat i) = Some (?usr ! i))"
  proof (rule built_image_boots [where argv = ?argv and files = ?files and s = empty_output and s' = s' and sys = ?sys
      and b = "plain_file blank_boot"])
    show "build_main ?files ?argv empty_output = Inr s'" by (rule s')
    show "regular (plain_file ?sys) ?sys" "regular (plain_file ?usr) ?usr" by (rule regular_plain)+
    show "layout_ok (kern ?m)" "zeroed (kern ?m)" using reset_ok by (simp_all add: layout_ok_def zeroed_def)
    fix i
    assume i: "i < length ?sys + length ?usr"
    have "unat (of_nat (0x10000 + i) :: dword) = 0x10000 + i" by (rule sint_of_nat_small(2)) (use i in simp)
    then show "pmem (kern ?m) (of_nat (0x10000 + i)) = out_bytes s' ! (512 + i)" by simp
    have "(0x10000 + i) div PAGE_SIZE = 16" by (rule div_nat_eqI) (use i in simp_all)
    moreover have "unat (tasks_addr (kern ?m)) div PAGE_SIZE = 33" by (simp add: reset_state_def)
    ultimately show "(0x10000 + i) div PAGE_SIZE \<notin> {unat (tasks_addr (kern ?m)) div PAGE_SIZE - 1,
        unat (tasks_addr (kern ?m)) div PAGE_SIZE, unat (tasks_addr (kern ?m)) div PAGE_SIZE + 10}" by simp
  qed (simp_all add: sample_simps blank_boot)
  then obtain m' where m': "main (\<lambda>x. x) (\<lambda>x. x) entry_points ?m = Some m'" "r_eip m' = L_USER_START"
      "\<forall>i<length ?usr. user_read (kern m') (L_USER_START + of_nat i) = Some (?usr ! i)"
    by blast
  have "user_read (kern m') 0x100001 = Some 0xFE" using m'(3) [rule_format, of 1] by simp
  then show ?thesis using s' m'(1,2) by blast
qed

section \<open>From the disk\<close>

text \<open>
  What the boot sector leaves is what \<^verbatim>\<open>main\<close> finds: the memory below the sector, the instruction pointer, the code segment
  and the tables. The variables of the kernel, which are parts of \<open>kstate\<close>, are zero where the image has the zeros of \<^verbatim>\<open>.bss\<close>.
\<close>

definition handed_over :: "rm \<Rightarrow> machine \<Rightarrow> bool" where
  "handed_over p m \<longleftrightarrow>
     (\<forall>a<0x90000. pmem (kern m) (of_nat a) = b_mem p a) \<and> r_eip m = b_eip p \<and> r_cs m = b_cs p \<and>
     r_gdt m = b_gdtr p \<and> r_idt m = b_idtr p \<and> (\<forall>n<7. gdt m n = gdt_entry p n)"

text \<open>The image is away from the stack of task 0 and the guard pages.\<close>

definition away :: "kstate \<Rightarrow> nat \<Rightarrow> nat \<Rightarrow> bool" where
  "away k sys usr \<longleftrightarrow>
     (\<forall>i < sys + usr. i < 12 \<or> sys \<le> i \<longrightarrow>
        (0x10000 + i) div PAGE_SIZE \<notin> {unat (tasks_addr k) div PAGE_SIZE - 1, unat (tasks_addr k) div PAGE_SIZE,
          unat (tasks_addr k) div PAGE_SIZE + 10})"

text \<open>A boot sector assembled from \<^verbatim>\<open>bootsect.S\<close>, behind its 32 bytes of header.\<close>

definition zeos_boot_file :: "byte list \<Rightarrow> bool" where
  "zeos_boot_file bs \<longleftrightarrow> boot_file bs \<and> (\<forall>i<77. bs ! (467 + i) = boot_data ! i)"

lemma built_disk:
  assumes "length argv = 4" "files (argv ! 1) = Some b" "files (argv ! 2) = Some y" "files (argv ! 3) = Some u"
    and "read_fails b = {}" "zeos_boot_file (file_bytes b)" "regular y sys" "regular u usr"
    and "length (buf s) = 1024" "out_bytes s = []" "out_offset s = 0" "seekable s" "0x100000 \<le> out_room s"
    and "build_main files argv s = Inr s'"
    and sizes: "12 \<le> length sys" "length sys + length usr \<le> 0x7FFF0"
    and disk: "\<forall>i < length (out_bytes s'). disk i = out_bytes s' ! i"
  shows "has_boot_data disk" "disk_syssize disk = (length sys + length usr + 15) div 16"
    "disk_syssize disk < 0x8000"
proof -
  let ?n = "length sys + length usr"
  have boot: "boot_file (file_bytes b)" "\<And>i. i < 77 \<Longrightarrow> file_bytes b ! (467 + i) = boot_data ! i"
    using assms(6) by (simp_all add: zeos_boot_file_def)
  have out: "length (out_bytes s') = max (512 + ?n) 524"
      "\<forall>i<508. i \<notin> {500, 501} \<longrightarrow> out_bytes s' ! i = file_bytes b ! (32 + i)" "out_bytes s' ! 508 = 0" "out_bytes s' ! 509 = 0"
      "out_bytes s' ! 510 = 0x55" "out_bytes s' ! 511 = 0xaa"
      "unat (out_bytes s' ! 500) + 256 * unat (out_bytes s' ! 501) = (?n + 15) div 16 mod 2 ^ 16"
    using build_image_ok [of argv files b y u sys usr s] assms(1-5) boot(1) assms(7-14) sizes by auto
  have d: "disk i = out_bytes s' ! i" if "i < 512" for i using disk out(1) that by simp
  show "has_boot_data disk"
    unfolding has_boot_data_def
  proof (intro allI impI)
    fix i :: nat
    assume i: "i < 77" "i \<notin> {65, 66}"
    show "disk (435 + i) = boot_data ! i"
    proof (cases "435 + i < 508")
      case True
      then show ?thesis using out(2) [rule_format, of "435 + i"] boot(2) [OF i(1)] d [of "435 + i"] i(2) by simp
    next
      case False
      then have "i \<in> {73, 74, 75, 76}" using i(1) by auto
      then show ?thesis using d [of "435 + i"] out(3-6) by (auto simp: boot_data_nth)
    qed
  qed
  have "(?n + 15) div 16 < 0x8000" by (rule less_mult_imp_div_less) (use sizes(2) in simp)
  then show "disk_syssize disk = (?n + 15) div 16" "disk_syssize disk < 0x8000"
    using d [of 500] d [of 501] out(7) by (simp_all add: disk_syssize_def)
qed

text \<open>C26: a built disk boots, if its parts have a size that the system can take. Let the system have at least 12 bytes, system and user
  program together at most 0x7FFF0, the user program at most 28 pages less a word, and let the output be an empty
  seekable file with room for 1 MB. (The builder itself checks none of these sizes and accepts larger images, which do not boot.) If it then accepts an
  assembled boot sector, a system and a user program and the image is at the start of the disk, the boot sector, run with a BIOS that does
  what is documented on a machine whose line 20 opens, reaches the entry of the kernel; and from
  whatever it hands over there, with the kernel's variables zero and the image away from the stack of task 0, \<^verbatim>\<open>main\<close> sets up a kernel that satisfies its
  invariant and enters exactly the given user program in user mode. Of the prebuilt libraries it is assumed that \<^verbatim>\<open>set_handlers\<close>
  leaves the kernel's variables and its memory alone, and \<^verbatim>\<open>zeos_init_auxjp\<close> all but the console.\<close>

theorem built_disk_boots:
  assumes files: "length argv = 4" "files (argv ! 1) = Some b" "files (argv ! 2) = Some y" "files (argv ! 3) = Some u"
      "read_fails b = {}" "zeos_boot_file (file_bytes b)" "regular y sys" "regular u usr"
    and outf: "length (buf s) = 1024" "out_bytes s = []" "out_offset s = 0" "seekable s" "0x100000 \<le> out_room s"
    and built: "build_main files argv s = Inr s'"
    and sizes: "12 \<le> length sys" "length sys + length usr \<le> 0x7FFF0" "length usr \<le> 28 * PAGE_SIZE - 4"
    and disk: "\<forall>i < length (out_bytes s'). disk i = out_bytes s' ! i"
    and start: "bios_ok bios disk" "\<forall>i<512. b_mem r (0x7C00 + i) = disk i" "b_sread r = 0" "b_head r = 0" "b_track r = 0"
    and a20: "\<And>t. N \<le> t \<Longrightarrow> b_a20 r t"
    and libs: "\<And>x. kern (set_handlers x) = kern x" "\<And>x. console_only (kern x) (kern (zeos_init_auxjp x))"
  shows "\<exists>p. bootsect bios msg1 r = Some p \<and>
     (\<forall>m. handed_over p m \<and> layout_ok (kern m) \<and> zeroed (kern m) \<and> away (kern m) (length sys) (length usr) \<longrightarrow>
        r_eip m = 0x10010 \<and> gdt m 2 = flat_segment 0x9a \<and>
        (\<exists>m'. main set_handlers zeos_init_auxjp h m = Some m' \<and> r_eip m' = L_USER_START \<and> r_cs m' = USER_CS \<and>
           ksafe (kern m') boot_view \<and> (\<forall>i<length usr. user_read (kern m') (L_USER_START + of_nat i) = Some (usr ! i))))"
proof -
  let ?n = "length sys + length usr"
  note d = built_disk [OF files outf built sizes(1,2) disk]
  obtain p where p: "bootsect bios msg1 r = Some p" "boot_done disk p"
    using bootsect_ok [where ?msg1.0 = msg1, OF start(1,2) d(1) start(3-5) d(3) a20] by blast
  have boot: "boot_file (file_bytes b)" using files(6) by (simp add: zeos_boot_file_def)
  have len: "length (out_bytes s') = max (512 + ?n) 524"
    using build_image_ok [of argv files b y u sys usr s] files(1-5,7,8) boot outf built sizes by auto
  have room: "?n \<le> 0x10000 * (disk_syssize disk div 0x1000 + 1)"
  proof -
    have part: "x < k * (x div k + 1)" if "0 < k" for x k :: nat
      using dividend_less_times_div [OF that, of x] by simp
    have "disk_syssize disk < 0x1000 * (disk_syssize disk div 0x1000 + 1)" "?n + 15 < 16 * (disk_syssize disk + 1)"
      unfolding d(2) by (rule part, simp)+
    moreover have "l \<le> 0x10000 * c" if "k < 0x1000 * c" "l + 15 < 16 * (k + 1)" for k c l :: nat
    proof -
      have "l \<le> 16 * k" using that(2) by simp
      also have "\<dots> \<le> 16 * (0x1000 * c)" using that(1) by (intro mult_le_mono2) simp
      finally show ?thesis by simp
    qed
    ultimately show ?thesis by blast
  qed
  have "r_eip m = 0x10010 \<and> gdt m 2 = flat_segment 0x9a \<and>
        (\<exists>m'. main set_handlers zeos_init_auxjp h m = Some m' \<and> r_eip m' = L_USER_START \<and> r_cs m' = USER_CS \<and>
           ksafe (kern m') boot_view \<and> (\<forall>i<length usr. user_read (kern m') (L_USER_START + of_nat i) = Some (usr ! i)))"
    if m: "handed_over p m" "layout_ok (kern m)" "zeroed (kern m)" "away (kern m) (length sys) (length usr)" for m
  proof (intro conjI)
    have "[0..<7] = [0, 1, 2, 3, 4, 5, 6 :: nat]" by (simp add: upt_conv_Cons)
    then have "gdt_entry p 2 = flat_segment 0x9a" using p(2) by (simp add: boot_done_def boot_gdt_def)
    then show "r_eip m = 0x10010" "gdt m 2 = flat_segment 0x9a" using p(2) m(1) by (simp_all add: boot_done_def handed_over_def)
    have load: "pmem (kern m) (of_nat (0x10000 + i)) = out_bytes s' ! (512 + i)" if i: "i < ?n" for i
    proof -
      have "pmem (kern m) (of_nat (0x10000 + i)) = b_mem p (0x10000 + i)" using m(1) i sizes(2) by (simp add: handed_over_def del: of_nat_add)
      also have "\<dots> = disk (512 + i)" using p(2) i room by (simp add: boot_done_def)
      finally show ?thesis using disk i len by simp
    qed
    show "\<exists>m'. main set_handlers zeos_init_auxjp h m = Some m' \<and> r_eip m' = L_USER_START \<and> r_cs m' = USER_CS \<and>
           ksafe (kern m') boot_view \<and> (\<forall>i<length usr. user_read (kern m') (L_USER_START + of_nat i) = Some (usr ! i))"
    proof (rule built_image_boots [OF files(1-5) boot files(7,8) outf built sizes(1) _ sizes(3) m(2,3) load _ libs])
      show "0x10000 + length sys + length usr \<le> 0x100000" using sizes(2) by simp
      show "(0x10000 + i) div PAGE_SIZE \<notin> {unat (tasks_addr (kern m)) div PAGE_SIZE - 1,
          unat (tasks_addr (kern m)) div PAGE_SIZE, unat (tasks_addr (kern m)) div PAGE_SIZE + 10}"
        if "i < ?n" "i < 12 \<or> length sys \<le> i" for i
        using m(4) that unfolding away_def by blast
    qed
  qed
  with p(1) show ?thesis by blast
qed

definition data_boot :: "byte list" where
  "data_boot = hdr @ replicate 24 0 @ replicate 435 0 @ boot_data"

lemma data_boot: "zeos_boot_file data_boot"
proof -
  have l: "length boot_data = 77" by (simp add: boot_data_nth)
  have w: "header_word data_boot i = 0" if "i \<in> {3, 4, 5, 7}" for i
    using that by (auto simp: header_word_def data_boot_def hdr_def bytes_dword_def numeral_eq_Suc)
  have "data_boot ! 542 = 0x55" "data_boot ! 543 = 0xaa" by (simp_all add: data_boot_def nth_append hdr_def boot_data_nth)
  then have "boot_file data_boot" using w l by (simp add: boot_file_def minix_header_def nth_append hdr_def data_boot_def)
  moreover have "data_boot ! (467 + i) = boot_data ! i" for i by (simp add: data_boot_def nth_append hdr_def)
  ultimately show ?thesis by (simp add: zeos_boot_file_def)
qed

definition boot_files :: "byte list \<Rightarrow> byte list \<Rightarrow> string \<Rightarrow> host_file option" where
  "boot_files sys usr = [''b'' \<mapsto> plain_file data_boot, ''y'' \<mapsto> plain_file sys, ''u'' \<mapsto> plain_file usr]"

lemma boot_files_simps [simp]:
  "boot_files sys usr ''b'' = Some (plain_file data_boot)" "boot_files sys usr ''y'' = Some (plain_file sys)"
  "boot_files sys usr ''u'' = Some (plain_file usr)"
  by (simp_all add: boot_files_def)

theorem built_disk_boots_witness:
  "\<exists>s' p m m'. build_main (boot_files (replicate 16 1) [0xEB, 0xFE, 0x90, 0x90]) [''build'', ''b'', ''y'', ''u''] empty_output = Inr s' \<and>
     bootsect (ideal_bios ((!) (out_bytes s'))) 100 (fresh_rm ((!) (out_bytes s'))) = Some p \<and> handed_over p m \<and>
     main (\<lambda>x. x) (\<lambda>x. x) entry_points m = Some m' \<and> r_eip m' = 0x100000 \<and> user_read (kern m') 0x100001 = Some 0xFE"
proof -
  let ?sys = "replicate 16 1 :: byte list" and ?usr = "[0xEB, 0xFE, 0x90, 0x90] :: byte list"
  let ?argv = "[''build'', ''b'', ''y'', ''u'']" and ?files = "boot_files (replicate 16 1) [0xEB, 0xFE, 0x90, 0x90]"
  have boot: "boot_file data_boot" using data_boot by (simp add: zeos_boot_file_def)
  obtain s' where s': "build_main ?files ?argv empty_output = Inr s'"
    using build_image_ok [of ?argv ?files "plain_file data_boot" "plain_file ?sys" "plain_file ?usr" ?sys ?usr empty_output]
      boot regular_plain sample_simps by auto
  let ?disk = "(!) (out_bytes s')"
  have "\<exists>p. bootsect (ideal_bios ?disk) 100 (fresh_rm ?disk) = Some p \<and>
     (\<forall>m. handed_over p m \<and> layout_ok (kern m) \<and> zeroed (kern m) \<and> away (kern m) (length ?sys) (length ?usr) \<longrightarrow>
        r_eip m = 0x10010 \<and> gdt m 2 = flat_segment 0x9a \<and>
        (\<exists>m'. main (\<lambda>x. x) (\<lambda>x. x) entry_points m = Some m' \<and> r_eip m' = L_USER_START \<and> r_cs m' = USER_CS \<and>
           ksafe (kern m') boot_view \<and> (\<forall>i<length ?usr. user_read (kern m') (L_USER_START + of_nat i) = Some (?usr ! i))))"
  proof (rule built_disk_boots [where argv = ?argv and files = ?files and s = empty_output and s' = s' and N = 3
        and b = "plain_file data_boot"])
    show "bios_ok (ideal_bios ?disk) ?disk" by (rule ideal_bios_ok)
    show "build_main ?files ?argv empty_output = Inr s'" by (rule s')
    show "regular (plain_file ?sys) ?sys" "regular (plain_file ?usr) ?usr" by (rule regular_plain)+
  qed (simp_all add: sample_simps data_boot fresh_rm_def)
  then obtain p where p: "bootsect (ideal_bios ?disk) 100 (fresh_rm ?disk) = Some p"
    and then_main: "\<And>m. handed_over p m \<Longrightarrow> layout_ok (kern m) \<Longrightarrow> zeroed (kern m) \<Longrightarrow> away (kern m) (length ?sys) (length ?usr) \<Longrightarrow>
        \<exists>m'. main (\<lambda>x. x) (\<lambda>x. x) entry_points m = Some m' \<and> r_eip m' = L_USER_START \<and> r_cs m' = USER_CS \<and>
           ksafe (kern m') boot_view \<and> (\<forall>i<length ?usr. user_read (kern m') (L_USER_START + of_nat i) = Some (?usr ! i))"
    by blast
  let ?k = "reset_state\<lparr>pmem := \<lambda>x. b_mem p (unat x)\<rparr>"
  let ?m = "reset_machine\<lparr>kern := ?k, gdt := gdt_entry p, r_gdt := b_gdtr p, r_idt := b_idtr p, r_cs := b_cs p, r_eip := b_eip p\<rparr>"
  have "unat (of_nat a :: dword) = a" if "a < 0x90000" for a by (rule sint_of_nat_small(2)) (use that in simp)
  then have over: "handed_over p ?m" by (simp add: handed_over_def)
  have "away ?k (length ?sys) (length ?usr)"
    unfolding away_def
  proof (intro allI impI)
    fix i
    assume i: "i < length ?sys + length ?usr"
    have "(0x10000 + i) div PAGE_SIZE = 16" by (rule div_nat_eqI) (use i in simp_all)
    moreover have "unat (tasks_addr ?k) div PAGE_SIZE = 33" by (simp add: reset_state_def)
    ultimately show "(0x10000 + i) div PAGE_SIZE \<notin> {unat (tasks_addr ?k) div PAGE_SIZE - 1,
        unat (tasks_addr ?k) div PAGE_SIZE, unat (tasks_addr ?k) div PAGE_SIZE + 10}" by simp
  qed
  moreover have "layout_ok ?k" "zeroed ?k" using reset_ok by (simp_all add: layout_ok_def zeroed_def)
  ultimately obtain m' where m': "main (\<lambda>x. x) (\<lambda>x. x) entry_points ?m = Some m'" "r_eip m' = L_USER_START"
      "\<forall>i<length ?usr. user_read (kern m') (L_USER_START + of_nat i) = Some (?usr ! i)"
    using then_main [OF over] by auto
  have "user_read (kern m') 0x100001 = Some 0xFE" using m'(3) [rule_format, of 1] by simp
  then show ?thesis using s' p over m'(1,2) by blast
qed

end
