(* ===== verification/Effects.thy ===== *)
theory Effects
  imports Kernel_Reach
begin

text \<open>
  What the operations of the kernel do to physical memory and to the places where the tasks continue.
  Most leave both alone (\<open>quiet\<close>); a switch changes the place of the outgoing task only; what the system
  calls and the page fault write lies in frames of the user pool, in the last page of the kernel, or in
  the stack of the task that \<^verbatim>\<open>fork\<close> or \<^verbatim>\<open>clone\<close> takes from the free queue.
\<close>

section \<open>Quiet operations\<close>

definition quiet :: "kstate \<Rightarrow> kstate \<Rightarrow> bool" where
  "quiet s s' \<longleftrightarrow> pmem s' = pmem s \<and> tasks_addr s' = tasks_addr s \<and> kpc s' = kpc s \<and> current s' = current s \<and>
     tss_esp0 s' = tss_esp0 s"

text \<open>The processor takes the kernel stack of the current task when it is interrupted.\<close>

definition tss_ok :: "kstate \<Rightarrow> bool" where
  "tss_ok s \<longleftrightarrow> tss_esp0 s = KERNEL_ESP s (current s)"

lemma KERNEL_ESP_cong: "tasks_addr s' = tasks_addr s \<Longrightarrow> KERNEL_ESP s' = KERNEL_ESP s"
  by (simp add: fun_eq_iff KERNEL_ESP_def stack_addr_def)

text \<open>A switch, after which the old task continues at \<open>k\<close>.\<close>

definition switched :: "kcont \<Rightarrow> kstate \<Rightarrow> kstate \<Rightarrow> bool" where
  "switched k s s' \<longleftrightarrow> pmem s' = pmem s \<and> tasks_addr s' = tasks_addr s \<and> kpc s' = (kpc s)(current s := k) \<and> tss_ok s'"

lemma quiet_refl [simp]: "quiet s s"
  by (simp add: quiet_def)

lemma quiet_trans: "quiet s s1 \<Longrightarrow> quiet s1 s2 \<Longrightarrow> quiet s s2"
  by (simp add: quiet_def)

lemma quiet_switched: "quiet s s1 \<Longrightarrow> switched k s1 s2 \<Longrightarrow> switched k s s2"
  by (simp add: quiet_def switched_def)

lemma quiet_upd [simp]:
  "quiet s (upd_task t f s1) = quiet s s1" "quiet s (upd_sem n g s1) = quiet s s1" "quiet s (s1\<lparr>links := h\<rparr>) = quiet s s1"
  "quiet s (s1\<lparr>last_PID := p\<rparr>) = quiet s s1" "quiet s (s1\<lparr>dir_status := D\<rparr>) = quiet s s1"
  "quiet s (s1\<lparr>pagusr_table := T\<rparr>) = quiet s s1" "quiet s (s1\<lparr>phys_mem := M\<rparr>) = quiet s s1"
  "quiet s (s1\<lparr>cow_count_mem := C\<rparr>) = quiet s s1" "quiet s (s1\<lparr>current_ticks := x\<rparr>) = quiet s s1"
  "quiet s (s1\<lparr>idle_task := i\<rparr>) = quiet s s1" "quiet s (set_cr3 d s1) = quiet s s1" "quiet s (s1\<lparr>zeos_ticks := x\<rparr>) = quiet s s1"
  "quiet s (s1\<lparr>remaining_to_read := r\<rparr>) = quiet s s1" "quiet s (s1\<lparr>keyboard_buffer := b\<rparr>) = quiet s s1"
  "quiet s (s1\<lparr>buff_to := r\<rparr>) = quiet s s1" "quiet s (reset_stats t s1) = quiet s s1"
  by (simp_all add: quiet_def set_cr3_def upd_task_def upd_sem_def reset_stats_def upd_st_def)

lemma quiet_on_links: "on_links f s = Some s' \<Longrightarrow> quiet s s'"
  by (auto simp: on_links_Some)

lemma quiet_stats: "update_stats t e s = Some s' \<Longrightarrow> quiet s s'"
  using update_stats_only by (fastforce simp: quiet_def only_stats_def)

lemma quiet_console: "console_only s s' \<Longrightarrow> quiet s s'"
  by (elim console_onlyE) (simp add: quiet_def)

text \<open>Loops of quiet operations.\<close>

lemma quiet_for_range:
  "for_range lo n body s = Some s' \<Longrightarrow> (\<And>i s s'. body i s = Some s' \<Longrightarrow> quiet s s') \<Longrightarrow> quiet s s'"
proof (induction n arbitrary: lo s)
  case (Suc n)
  then obtain s1 where "body lo s = Some s1" "for_range (Suc lo) n body s1 = Some s'" by (auto simp: bind_eq_Some_conv)
  with Suc quiet_trans show ?case by blast
qed simp

lemma quiet_list_from:
  "list_for_each_safe_from fuel l lk body pos s = Some s' \<Longrightarrow> (\<And>p s s'. body p s = Some s' \<Longrightarrow> quiet s s') \<Longrightarrow> quiet s s'"
proof (induction fuel arbitrary: pos s)
  case 0
  then show ?case by (subst (asm) list_for_each_safe_from.simps) (auto split: option.splits if_splits)
next
  case (Suc fuel)
  from Suc.prems(1) obtain p where p: "pos = Some p" by (subst (asm) list_for_each_safe_from.simps) (auto split: option.splits)
  show ?case
  proof (cases "p = l")
    case True
    then show ?thesis using Suc.prems(1) by (subst (asm) list_for_each_safe_from.simps) (simp add: p)
  next
    case False
    with Suc.prems(1) obtain s1 where "body p s = Some s1"
        "list_for_each_safe_from fuel l lk body (next_ptr (lk s p)) s1 = Some s'"
      by (subst (asm) list_for_each_safe_from.simps) (auto simp: p Let_def bind_eq_Some_conv)
    with Suc quiet_trans show ?thesis by blast
  qed
qed

section \<open>The scheduler\<close>

lemma quiet_process_state: "update_process_state t d b s = Some s' \<Longrightarrow> quiet s s'"
proof -
  assume run: "update_process_state t d b s = Some s'"
  define f where "f = (if anchor_linked (Task_anchor t) (links s) then on_links (list_del (Task_anchor t)) s else Some s)"
  obtain s1 where s1: "f = Some s1" using run by (cases f) (auto simp: update_process_state_def f_def)
  have q: "quiet s s1" using s1 quiet_on_links unfolding f_def by (auto split: if_splits)
  show ?thesis
  proof (cases d)
    case None
    then show ?thesis using run s1 q by (auto simp: update_process_state_def simp flip: f_def)
  next
    case (Some n)
    then obtain s2 g where "on_links (if b then list_add (Task_anchor t) n else list_add_tail (Task_anchor t) n) s1 = Some s2"
        "s' = upd_task t g s2"
      using run s1 by (auto simp: update_process_state_def bind_eq_Some_conv simp flip: f_def)
    then show ?thesis using quiet_trans [OF q quiet_on_links] by simp
  qed
qed

lemma quiet_process_state_rr: "update_process_state_rr t d s = Some s' \<Longrightarrow> quiet s s'"
  by (auto simp: update_process_state_rr_def dest: quiet_process_state)

lemma quiet_add_process: "add_process_to_scheduling t e b s = Some s' \<Longrightarrow> quiet s s'"
proof -
  assume "add_process_to_scheduling t e b s = Some s'"
  then obtain s1 where "update_process_state t (Some Ready_queue) b s = Some s1" "update_stats t e s1 = Some s'"
    by (auto simp: add_process_to_scheduling_def bind_eq_Some_conv)
  then show ?thesis using quiet_trans [OF quiet_process_state quiet_stats] by blast
qed

lemma switched_task_switch: "switched k s (task_switch k t s)"
  by (simp add: switched_def task_switch_def inner_task_switch_def get_ebp_def update_TSS_def change_context_def set_cr3_def Let_def
      tss_ok_def KERNEL_ESP_def stack_addr_def upd_task_def)

lemma switched_sched_next: "sched_next_rr k s = Some s' \<Longrightarrow> switched k s s'"
proof -
  assume "sched_next_rr k s = Some s'"
  then obtain t s1 s2 s3 where s: "update_process_state_rr t None s = Some s1" "update_stats t READY_TO_SYS s1 = Some s2"
      "update_stats t CURRENT_TICKS_UPDATED (s2\<lparr>current_ticks := 0\<rparr>) = Some s3" "s' = task_switch k t s3"
    by (auto simp: sched_next_rr_def bind_eq_Some_conv)
  have "quiet s (s2\<lparr>current_ticks := 0\<rparr>)" using quiet_trans [OF quiet_process_state_rr [OF s(1)] quiet_stats [OF s(2)]] by simp
  then have "quiet s s3" using quiet_trans quiet_stats [OF s(3)] by blast
  then show ?thesis unfolding s(4) by (rule quiet_switched [OF _ switched_task_switch])
qed

lemma execute_scheduling_effect: "execute_scheduling s = Some s' \<Longrightarrow> quiet s s' \<or> switched Irq_exit s s'"
proof -
  assume "execute_scheduling s = Some s'"
  then obtain s1 where s1: "update_stats (current s) CURRENT_TICKS_UPDATED (s\<lparr>current_ticks := current_ticks s + 1\<rparr>) = Some s1"
      "s' = s1 \<or> (\<exists>s2 s3. (s2 = s1 \<or> update_process_state_rr (current s1) (Some Ready_queue) s1 = Some s2) \<and>
         update_stats (current s2) SYS_TO_READY s2 = Some s3 \<and> sched_next_rr Irq_exit s3 = Some s')"
    by (auto simp: execute_scheduling_def update_sched_data_rr_def bind_eq_Some_conv split: if_splits)
  have q: "quiet s s1" using quiet_stats [OF s1(1)] by (simp add: quiet_def)
  from s1(2) show ?thesis
  proof (elim disjE exE conjE)
    assume "s' = s1" with q show ?thesis by simp
  next
    fix s2 s3
    assume a: "s2 = s1" "update_stats (current s2) SYS_TO_READY s2 = Some s3" "sched_next_rr Irq_exit s3 = Some s'"
    then have "quiet s s3" using quiet_trans [OF q] quiet_stats by blast
    then show ?thesis using quiet_switched switched_sched_next [OF a(3)] by blast
  next
    fix s2 s3
    assume a: "update_process_state_rr (current s1) (Some Ready_queue) s1 = Some s2"
      "update_stats (current s2) SYS_TO_READY s2 = Some s3" "sched_next_rr Irq_exit s3 = Some s'"
    then have "quiet s s3" using quiet_trans [OF q] quiet_trans quiet_process_state_rr quiet_stats by blast
    then show ?thesis using quiet_switched switched_sched_next [OF a(3)] by blast
  qed
qed

lemma clock_effect:
  assumes "clock_routine f s = Some s'" "shows_clock f"
  shows "quiet s s' \<or> switched Irq_exit s s'"
proof (cases "state (tasks s (current s)) = ST_RUN")
  case True
  let ?s = "f (s\<lparr>zeos_ticks := zeos_ticks s + 1\<rparr>)"
  have "quiet (s\<lparr>zeos_ticks := zeos_ticks s + 1\<rparr>) ?s" using assms(2) quiet_console by (simp add: shows_clock_def)
  then have "quiet s ?s" by (simp add: quiet_def)
  moreover have "execute_scheduling ?s = Some s'" using assms(1) True by (simp add: clock_routine_def)
  ultimately show ?thesis using execute_scheduling_effect quiet_trans quiet_switched by blast
qed (use assms in \<open>simp add: clock_routine_def\<close>)

lemma keyboard_effect: "keyboard_routine b s = Some s' \<Longrightarrow> quiet s s' \<or> switched Irq_exit s s'"
proof -
  assume run: "keyboard_routine b s = Some s'"
  have push: "quiet s s1" if "buffer_push k s = Some s1" for k s1
    using that by (auto simp: buffer_push_def bind_eq_Some_conv split: if_splits)
  have wake: "switched Irq_exit s s2" if "wake_reader s = Some s2" for s s2
  proof -
    from that obtain s1 s3 t where "s1 = s \<or> add_process_to_scheduling (current s) SYS_TO_READY False s = Some s1"
        "add_process_to_scheduling t BLOCKED_TO_READY True s1 = Some s3" "sched_next_rr Irq_exit s3 = Some s2"
      by (auto simp: wake_reader_def bind_eq_Some_conv split: if_splits)
    then have "quiet s s1" "quiet s1 s3" "switched Irq_exit s3 s2"
      using quiet_add_process switched_sched_next by auto
    then show ?thesis by (simp add: quiet_def switched_def)
  qed
  from run consider "s' = s" | k s1 where "buffer_push k s = Some s1" "s' = s1 \<or> s' = s1\<lparr>remaining_to_read := remaining_to_read s1 - 1\<rparr> \<or>
      wake_reader (s1\<lparr>remaining_to_read := remaining_to_read s1 - 1\<rparr>) = Some s'"
    by (auto simp: keyboard_routine_def Let_def bind_eq_Some_conv split: if_splits)
  then show ?thesis
  proof cases
    case 2
    have q: "quiet s (s1\<lparr>remaining_to_read := remaining_to_read s1 - 1\<rparr>)" "quiet s s1" using push [OF 2(1)] by simp_all
    from 2(2) show ?thesis using q quiet_switched [OF q(1) wake] by blast
  qed simp
qed

section \<open>Semaphores\<close>

lemma sem_init_effect: "sys_sem_init w val s = Some (r, s') \<Longrightarrow> quiet s s'"
  by (auto simp: sys_sem_init_def bind_eq_Some_conv on_links_Some split: option.splits if_splits)

lemma sem_signal_effect: "sys_sem_signal w s = Some (r, s') \<Longrightarrow> quiet s s'"
  by (auto simp: sys_sem_signal_def bind_eq_Some_conv split: option.splits if_splits intro: quiet_add_process)

lemma sem_destroy_effect: "sys_sem_destroy w s = Some (r, s') \<Longrightarrow> quiet s s'"
proof -
  have wake: "quiet s s'" if "wake_deleted p s = Some s'" for p s s'
    using that quiet_add_process by (auto simp: wake_deleted_def bind_eq_Some_conv)
  assume "sys_sem_destroy w s = Some (r, s')"
  then consider "s' = s" | n h where
      "list_for_each_safe NR_TASKS (Sem_blocked n) links wake_deleted ((upd_sem n (\<lambda>x. x\<lparr>used := 0\<rparr>) s)\<lparr>links := h\<rparr>) = Some s'"
    by (auto simp: sys_sem_destroy_def bind_eq_Some_conv on_links_Some split: option.splits if_splits)
  then show ?thesis
  proof cases
    case 2
    have "quiet ((upd_sem n (\<lambda>x. x\<lparr>used := 0\<rparr>) s)\<lparr>links := h\<rparr>) s'"
      using 2 wake unfolding list_for_each_safe_def by (rule quiet_list_from)
    then show ?thesis by (simp add: quiet_def upd_sem_def)
  qed simp
qed

lemma sem_wait_effect:
  "sys_sem_wait w s = Some (r, s') \<Longrightarrow> (if r = Switched then switched Sem_wait_exit s s' else quiet s s')"
proof -
  assume "sys_sem_wait w s = Some (r, s')"
  then consider x where "r = Ret x" "quiet s s'" | n s1 s2 where "r = Switched"
      "update_process_state_rr (current s) (Some (Sem_blocked n)) s = Some s1"
      "update_stats (current s1) SYS_TO_BLOCKED s1 = Some s2" "sched_next_rr Sem_wait_exit s2 = Some s'"
    by (auto simp: sys_sem_wait_def bind_eq_Some_conv split: option.splits if_splits)
  then show ?thesis
  proof cases
    case 2
    have "quiet s s2" using quiet_trans [OF quiet_process_state_rr [OF 2(2)] quiet_stats [OF 2(3)]] .
    then show ?thesis using 2(1) quiet_switched switched_sched_next [OF 2(4)] by simp
  qed simp
qed

lemma sem_wait_exit_effect: "sem_wait_exit s = (x, s') \<Longrightarrow> quiet s s'"
  by (auto simp: sem_wait_exit_def split: if_splits)

section \<open>Memory management\<close>

lemma quiet_free_frame: "free_frame f s = Some s' \<Longrightarrow> quiet s s'"
  by (auto simp: free_frame_def bind_eq_Some_conv split: if_splits)

lemma quiet_upd_pte: "upd_pte pt pg f s = Some s' \<Longrightarrow> quiet s s'"
  by (auto simp: upd_pte_def bind_eq_Some_conv)

lemma quiet_set_ss_pag: "set_ss_pag pt pg f s = Some s' \<Longrightarrow> quiet s s'"
  by (auto simp: set_ss_pag_def bind_eq_Some_conv quiet_def dest!: quiet_upd_pte)

lemma quiet_share: "share_cow_page a b pg s = Some s' \<Longrightarrow> quiet s s'"
proof -
  assume "share_cow_page a b pg s = Some s'"
  then obtain f c s1 s2 where s: "set_ss_pag b pg f (s\<lparr>cow_count_mem := c\<rparr>) = Some s1" "set_ro_page a pg s1 = Some s2" "set_ro_page b pg s2 = Some s'"
    by (auto simp: share_cow_page_def bind_eq_Some_conv split: if_splits)
  have "quiet s s1" using quiet_set_ss_pag [OF s(1)] by (simp add: quiet_def)
  then show ?thesis using quiet_upd_pte s(2,3) quiet_trans unfolding set_ro_page_def by blast
qed

lemma quiet_free_user_pages: "free_user_pages t s = Some s' \<Longrightarrow> quiet s s'"
proof -
  assume "free_user_pages t s = Some s'"
  then obtain pt s1 where s: "for_range 0 NUM_PAG_DATA
                 (\<lambda>pag s. do { frame \<leftarrow> get_frame pt (PAG_LOG_INIT_DATA + pag) s; s \<leftarrow> free_frame frame s;
                               upd_pte pt (PAG_LOG_INIT_DATA + pag) (\<lambda>_. 0) s }) s = Some s1"
      "for_range 0 (nat (get_heap_page_size (heap_top (tasks s1 t))))
                 (\<lambda>pag s. do { page \<leftarrow> heap_page pag; frame \<leftarrow> get_frame pt page s; s \<leftarrow> free_frame frame s;
                               upd_pte pt (PAG_LOG_INIT_HEAP + pag) (\<lambda>_. 0) s }) s1 = Some s'"
    by (auto simp: free_user_pages_def bind_eq_Some_conv simp del: for_range.simps)
  have "quiet s s1" using s(1)
    by (rule quiet_for_range) (auto simp: bind_eq_Some_conv dest!: quiet_free_frame quiet_upd_pte intro: quiet_trans)
  moreover have "quiet s1 s'" using s(2)
    by (rule quiet_for_range) (auto simp: bind_eq_Some_conv dest!: quiet_free_frame quiet_upd_pte intro: quiet_trans)
  ultimately show ?thesis by (rule quiet_trans)
qed

lemma quiet_free_DIR: "free_DIR t s = Some s' \<Longrightarrow> quiet s s'"
proof -
  assume "free_DIR t s = Some s'"
  then obtain i D s1 where s: "s' = upd_task t (\<lambda>k. k\<lparr>dir_pages_baseAddr := None\<rparr>) s1"
      "s1 = s\<lparr>dir_status := D\<rparr> \<or> (\<exists>s2. free_user_pages t (s\<lparr>dir_status := D\<rparr>) = Some s2 \<and>
         on_links (list_add (Dir_anchor i) Free_dirs) s2 = Some s1)"
    by (auto simp: free_DIR_def bind_eq_Some_conv upd_dir_count_def split: if_splits)
  have "quiet (s\<lparr>dir_status := D\<rparr>) s1"
    using s(2) quiet_free_user_pages quiet_on_links quiet_trans quiet_refl by blast
  then show ?thesis by (simp add: s(1) quiet_def upd_task_def)
qed

lemma exit_effect: "sys_exit s = Some s' \<Longrightarrow> switched Exited s s'"
proof -
  assume "sys_exit s = Some s'"
  then obtain s1 s2 s3 s4 where s: "update_process_state_rr (current s) (Some Free_queue) s = Some s1" "free_DIR (current s) s1 = Some s2"
      "list_for_each_safe NR_SEMAPHORES (Task_semaphores (current s)) links destroy_anchored s2 = Some s3"
      "on_links (INIT_LIST_HEAD (Task_semaphores (current s))) s3 = Some s4" "sched_next_rr Exited s4 = Some s'"
    by (auto simp: sys_exit_def free_process_def free_semaphores_def bind_eq_Some_conv)
  have "quiet s2 s3" using s(3) unfolding list_for_each_safe_def
    by (rule quiet_list_from) (auto simp: destroy_anchored_def bind_eq_Some_conv dest: sem_destroy_effect)
  then have "quiet s s4"
    using quiet_process_state_rr [OF s(1)] quiet_free_DIR [OF s(2)] quiet_on_links [OF s(4)] by (simp add: quiet_def)
  then show ?thesis using quiet_switched switched_sched_next [OF s(5)] by blast
qed

end
