(* ===== verification/Entry.thy ===== *)
theory Entry
  imports Setup Kernel
begin

text \<open>
  The kernel's entry and exit at the level of instructions: \<^verbatim>\<open>entry.S\<close>, \<^verbatim>\<open>sched.S\<close> and the assembly in \<^verbatim>\<open>sched.c\<close>,
  on a processor with general registers whose stack is in the kernel's memory. The C functions
  that are called are those of the other theories; of their own frames, further down on the current stack, only the words are modelled
  that other code relies on.
\<close>

section \<open>The processor\<close>

text \<open>\<open>pic_cmds\<close> is what was written to port 0x20, \<open>r_cr2\<close> the address of the last page fault.\<close>

record cpu = machine +
  r_eax :: dword
  r_ebx :: dword
  r_ecx :: dword
  r_edx :: dword
  r_esi :: dword
  r_edi :: dword
  r_ebp :: dword
  r_cr2 :: dword
  pic_cmds :: "byte list"

definition push :: "dword \<Rightarrow> cpu \<Rightarrow> cpu option" where
  "push w m = map_option (\<lambda>k. m\<lparr>kern := k, r_esp := r_esp m - 4\<rparr>) (write_dword (kern m) (r_esp m - 4) w)"

definition pop :: "cpu \<Rightarrow> (dword \<times> cpu) option" where
  "pop m = map_option (\<lambda>w. (w, m\<lparr>r_esp := r_esp m + 4\<rparr>)) (read_dword (kern m) (r_esp m))"

text \<open>\<^verbatim>\<open>call\<close>, given the address behind it, and \<^verbatim>\<open>ret\<close>.\<close>

definition call_from :: "dword \<Rightarrow> cpu \<Rightarrow> cpu option" where
  "call_from return_address m = push return_address m"

definition ret :: "cpu \<Rightarrow> cpu option" where
  "ret m = do { (w, m) \<leftarrow> pop m; Some (m\<lparr>r_eip := w\<rparr>) }"

definition user_mode :: "cpu \<Rightarrow> bool" where
  "user_mode m \<longleftrightarrow> r_cs m AND 3 = 3"

text \<open>
  An interrupt, or the instruction \<^verbatim>\<open>int\<close>: from user mode the stack of the task state segment is used and
  the old one saved on it; a gate of the interrupt type switches interrupts off.
\<close>

definition interrupt :: "nat \<Rightarrow> cpu \<Rightarrow> cpu option" where
  "interrupt vector m =
     (let g = idt m vector; esp' = r_esp m; ss' = r_ss m
      in do { m \<leftarrow> (if user_mode m
                   then do { m \<leftarrow> push (ucast ss') (m\<lparr>r_esp := tss_esp0 (kern m), r_ss := t_ss0 (tss m)\<rparr>);
                             push esp' m }
                   else Some m);
              m \<leftarrow> push (r_eflags m) m;
              m \<leftarrow> push (ucast (r_cs m)) m;
              m \<leftarrow> push (r_eip m) m;
              Some (m\<lparr>r_eip := ucast (lowOffset g) OR push_bit 16 (ucast (highOffset g)), r_cs := segmentSelector g,
                      r_eflags := (if gate_flags g AND 0x0F00 = 0x0E00 then unset_bit 9 (r_eflags m) else r_eflags m)\<rparr>) })"

definition iret :: "cpu \<Rightarrow> cpu option" where
  "iret m =
     do { (eip', m) \<leftarrow> pop m;
          (cs', m) \<leftarrow> pop m;
          (eflags', m) \<leftarrow> pop m;
          m \<leftarrow> Some (m\<lparr>r_eip := eip', r_cs := ucast cs', r_eflags := eflags'\<rparr>);
          if user_mode m
          then do { (esp', m) \<leftarrow> pop m;
                    (ss', m) \<leftarrow> pop m;
                    Some (m\<lparr>r_esp := esp', r_ss := ucast ss'\<rparr>) }
          else Some m }"

section \<open>Saving and restoring\<close>

definition SAVE_ALL :: "cpu \<Rightarrow> cpu option" where
  "SAVE_ALL m =
     do { m \<leftarrow> push (ucast (r_gs m)) m;
          m \<leftarrow> push (ucast (r_fs m)) m;
          m \<leftarrow> push (ucast (r_es m)) m;
          m \<leftarrow> push (ucast (r_ds m)) m;
          m \<leftarrow> push (r_eax m) m;
          m \<leftarrow> push (r_ebp m) m;
          m \<leftarrow> push (r_edi m) m;
          m \<leftarrow> push (r_esi m) m;
          m \<leftarrow> push (r_edx m) m;
          m \<leftarrow> push (r_ecx m) m;
          m \<leftarrow> push (r_ebx m) m;
          m \<leftarrow> Some (m\<lparr>r_edx := ucast KERNEL_DS\<rparr>);
          Some (m\<lparr>r_ds := ucast (r_edx m), r_es := ucast (r_edx m)\<rparr>) }"

definition RESTORE_ALL :: "cpu \<Rightarrow> cpu option" where
  "RESTORE_ALL m =
     do { (w, m) \<leftarrow> pop m; m \<leftarrow> Some (m\<lparr>r_ebx := w\<rparr>);
          (w, m) \<leftarrow> pop m; m \<leftarrow> Some (m\<lparr>r_ecx := w\<rparr>);
          (w, m) \<leftarrow> pop m; m \<leftarrow> Some (m\<lparr>r_edx := w\<rparr>);
          (w, m) \<leftarrow> pop m; m \<leftarrow> Some (m\<lparr>r_esi := w\<rparr>);
          (w, m) \<leftarrow> pop m; m \<leftarrow> Some (m\<lparr>r_edi := w\<rparr>);
          (w, m) \<leftarrow> pop m; m \<leftarrow> Some (m\<lparr>r_ebp := w\<rparr>);
          (w, m) \<leftarrow> pop m; m \<leftarrow> Some (m\<lparr>r_eax := w\<rparr>);
          (w, m) \<leftarrow> pop m; m \<leftarrow> Some (m\<lparr>r_ds := ucast w\<rparr>);
          (w, m) \<leftarrow> pop m; m \<leftarrow> Some (m\<lparr>r_es := ucast w\<rparr>);
          (w, m) \<leftarrow> pop m; m \<leftarrow> Some (m\<lparr>r_fs := ucast w\<rparr>);
          (w, m) \<leftarrow> pop m; Some (m\<lparr>r_gs := ucast w\<rparr>) }"

definition EOI :: "cpu \<Rightarrow> cpu" where
  "EOI m =
     (let m = m\<lparr>r_eax := (r_eax m AND 0xFFFFFF00) OR 0x20\<rparr>
      in m\<lparr>pic_cmds := pic_cmds m @ [ucast (r_eax m)]\<rparr>)"

section \<open>Calls of C functions\<close>

text \<open>
  A C function may leave anything in \<^verbatim>\<open>eax\<close>, \<^verbatim>\<open>ecx\<close> and \<^verbatim>\<open>edx\<close>, here the three values of \<open>junk\<close>, and keeps the other
  registers. A result is in \<^verbatim>\<open>eax\<close>.
\<close>

type_synonym junk = "dword \<times> dword \<times> dword"

definition clobber :: "junk \<Rightarrow> cpu \<Rightarrow> cpu" where
  "clobber j m = (case j of (a, c, d) \<Rightarrow> m\<lparr>r_eax := a, r_ecx := c, r_edx := d\<rparr>)"

definition call_c :: "junk \<Rightarrow> (kstate \<Rightarrow> kstate option) \<Rightarrow> cpu \<Rightarrow> cpu option" where
  "call_c j f m = map_option (\<lambda>k. clobber j (m\<lparr>kern := k\<rparr>)) (f (kern m))"

text \<open>
  What becomes of a handler: it returns from the interrupt, or it has switched to another task,
  which goes on with the kernel in the given state.
\<close>

datatype handled = Back cpu | Away kstate

section \<open>\<^verbatim>\<open>system_call_handler\<close>\<close>

text \<open>The label \<^verbatim>\<open>end\<close>.\<close>

definition syscall_end :: "cpu \<Rightarrow> cpu option" where
  "syscall_end m =
     do { k \<leftarrow> write_dword (kern m) (r_esp m + 0x18) (r_eax m);
          m \<leftarrow> RESTORE_ALL (m\<lparr>kern := k\<rparr>);
          iret m }"

text \<open>Between the range check and the call.\<close>

definition syscall_enter :: "junk \<Rightarrow> cpu \<Rightarrow> cpu option" where
  "syscall_enter j m =
     do { m \<leftarrow> Some (m\<lparr>r_ebx := r_eax m\<rparr>);
          m \<leftarrow> call_c j update_entering_sys m;
          Some (m\<lparr>r_eax := r_ebx m\<rparr>) }"

text \<open>From the return of the call on, its result in \<^verbatim>\<open>eax\<close>.\<close>

definition syscall_leave :: "junk \<Rightarrow> cpu \<Rightarrow> cpu option" where
  "syscall_leave j m =
     do { m \<leftarrow> Some (m\<lparr>r_ebx := r_eax m\<rparr>);
          m \<leftarrow> call_c j update_leaving_sys m;
          m \<leftarrow> Some (m\<lparr>r_eax := r_ebx m\<rparr>);
          syscall_end m }"

text \<open>
  The arguments of the call are the three words on top of the stack, where \<^verbatim>\<open>SAVE_ALL\<close> left \<^verbatim>\<open>ebx\<close>, \<^verbatim>\<open>ecx\<close>
  and \<^verbatim>\<open>edx\<close>; \<open>loc\<close> is the content of the local array of \<^verbatim>\<open>sys_write\<close>. The C function is taken to leave these three
  words as they are: the binary interface gives them to the callee, so this is an assumption on the compiled code, without which
  \<^verbatim>\<open>RESTORE_ALL\<close> would not give the program its \<^verbatim>\<open>ebx\<close>, \<^verbatim>\<open>ecx\<close> and \<^verbatim>\<open>edx\<close> back.
\<close>

definition call_table :: "junk \<Rightarrow> byte list \<Rightarrow> cpu \<Rightarrow> (sysret \<times> cpu) option" where
  "call_table j loc m =
     do { a \<leftarrow> read_dword (kern m) (r_esp m);
          b \<leftarrow> read_dword (kern m) (r_esp m + 4);
          c \<leftarrow> read_dword (kern m) (r_esp m + 8);
          (r, k) \<leftarrow> sys_call_table (unat (r_eax m)) a b c loc (kern m);
          Some (r, clobber j (m\<lparr>kern := k\<rparr>)) }"

definition system_call_asm :: "junk \<Rightarrow> byte list \<Rightarrow> cpu \<Rightarrow> handled option" where
  "system_call_asm j loc m =
     do { m \<leftarrow> SAVE_ALL m;
          if r_eax m <s 0 \<or> MAX_SYSCALL <=s r_eax m
          then map_option Back (syscall_end (m\<lparr>r_eax := - ENOSYS\<rparr>))
          else do { m \<leftarrow> syscall_enter j m;
                    (r, m) \<leftarrow> call_table j loc m;
                    case r of
                      Ret x \<Rightarrow> map_option Back (syscall_leave j (m\<lparr>r_eax := x\<rparr>))
                    | Switched \<Rightarrow> Some (Away (kern m)) } }"

section \<open>The interrupt handlers\<close>

text \<open>\<^verbatim>\<open>clock_handler\<close> and \<^verbatim>\<open>keyboard_handler\<close>. The end runs when the interrupted task is current again.\<close>

definition irq_end :: "junk \<Rightarrow> cpu \<Rightarrow> cpu option" where
  "irq_end j m =
     do { m \<leftarrow> call_c j update_leaving_sys m;
          m \<leftarrow> RESTORE_ALL m;
          iret m }"

definition irq_asm :: "junk \<Rightarrow> (kstate \<Rightarrow> kstate option) \<Rightarrow> cpu \<Rightarrow> handled option" where
  "irq_asm j routine m =
     do { m \<leftarrow> SAVE_ALL m;
          m \<leftarrow> Some (EOI m);
          k0 \<leftarrow> Some (kern m);
          m \<leftarrow> call_c j update_entering_sys m;
          m \<leftarrow> call_c j routine m;
          if kpc (kern m) (current k0) = kpc k0 (current k0)
          then map_option Back (irq_end j m) else Some (Away (kern m)) }"

definition clock_asm :: "junk \<Rightarrow> (kstate \<Rightarrow> kstate) \<Rightarrow> cpu \<Rightarrow> handled option" where
  "clock_asm j zeos_show_clock m = irq_asm j (clock_routine zeos_show_clock) m"

definition keyboard_asm :: "junk \<Rightarrow> byte \<Rightarrow> cpu \<Rightarrow> handled option" where
  "keyboard_asm j value m = irq_asm j (keyboard_routine value) m"

text \<open>
  \<^verbatim>\<open>pf_handler\<close>: the processor has left an error code on the stack, which the end overwrites with
  \<^verbatim>\<open>ebx\<close> in order to pop it.
\<close>

definition pf_asm :: "junk \<Rightarrow> cpu \<Rightarrow> cpu option" where
  "pf_asm j m =
     do { m \<leftarrow> SAVE_ALL m;
          m \<leftarrow> Some (EOI m);
          m \<leftarrow> Some (m\<lparr>r_ebx := r_cr2 m\<rparr>);
          m \<leftarrow> push (r_ebx m) m;
          address \<leftarrow> read_dword (kern m) (r_esp m);
          m \<leftarrow> call_c j (pf_rsi address) m;
          (w, m) \<leftarrow> pop m;
          m \<leftarrow> RESTORE_ALL (m\<lparr>r_ebx := w\<rparr>);
          k \<leftarrow> write_dword (kern m) (r_esp m) (r_ebx m);
          (w, m) \<leftarrow> pop (m\<lparr>kern := k\<rparr>);
          iret (m\<lparr>r_ebx := w\<rparr>) }"

section \<open>Switching stacks\<close>

text \<open>\<^verbatim>\<open>current\<close> of \<^verbatim>\<open>sched.c\<close>: the address of the task, found from the stack pointer.\<close>

definition current_asm :: "cpu \<Rightarrow> dword" where
  "current_asm m = r_esp m AND 0xfffff000"

definition get_ebp_asm :: "cpu \<Rightarrow> dword" where
  "get_ebp_asm m = r_ebp m"

definition change_context_asm :: "dword \<Rightarrow> cpu \<Rightarrow> cpu option" where
  "change_context_asm esp' m =
     do { m \<leftarrow> Some (m\<lparr>r_esp := esp'\<rparr>);
          (w, m) \<leftarrow> pop m;
          ret (m\<lparr>r_ebp := w\<rparr>) }"

text \<open>
  The two instructions that open a C function, and \<^verbatim>\<open>task_switch\<close>. What \<^verbatim>\<open>get_ebp\<close> reads in such a function is the
  frame pointer they set, which is the next value \<open>ebp_value\<close> has in store.
\<close>

definition prologue :: "cpu \<Rightarrow> cpu option" where
  "prologue m = do { m \<leftarrow> push (r_ebp m) m; Some (m\<lparr>r_ebp := r_esp m\<rparr>) }"

definition see_ebp :: "cpu \<Rightarrow> kstate" where
  "see_ebp m = (kern m)\<lparr>ebp_value := (ebp_value (kern m))(ebp_count (kern m) := get_ebp_asm m)\<rparr>"

definition task_at :: "kstate \<Rightarrow> dword \<Rightarrow> nat" where
  "task_at s p = unat (p - tasks_addr s) div PAGE_SIZE"

definition inner_task_switch_asm :: "kcont \<Rightarrow> cpu \<Rightarrow> cpu option" where
  "inner_task_switch_asm k m =
     do { m \<leftarrow> prologue m;
          t \<leftarrow> read_dword (kern m) (r_ebp m + 8);
          s \<leftarrow> Some (inner_task_switch k (task_at (kern m) t) (see_ebp m));
          change_context_asm (kernel_esp (tasks s (task_at s t))) (m\<lparr>kern := s\<rparr>) }"

text \<open>\<^verbatim>\<open>task_switch\<close> up to the switch, \<open>back\<close> being the address behind the call in it, and the rest.\<close>

definition task_switch_asm :: "dword \<Rightarrow> kcont \<Rightarrow> cpu \<Rightarrow> cpu option" where
  "task_switch_asm back k m =
     do { m \<leftarrow> prologue m;
          m \<leftarrow> push (r_esi m) m;
          m \<leftarrow> push (r_edi m) m;
          m \<leftarrow> push (r_ebx m) m;
          t \<leftarrow> read_dword (kern m) (r_ebp m + 8);
          m \<leftarrow> push t m;
          m \<leftarrow> call_from back m;
          inner_task_switch_asm k m }"

definition task_switch_end :: "cpu \<Rightarrow> cpu option" where
  "task_switch_end m =
     do { m \<leftarrow> Some (m\<lparr>r_esp := r_esp m + 4\<rparr>);
          (w, m) \<leftarrow> pop m; m \<leftarrow> Some (m\<lparr>r_ebx := w\<rparr>);
          (w, m) \<leftarrow> pop m; m \<leftarrow> Some (m\<lparr>r_edi := w\<rparr>);
          (w, m) \<leftarrow> pop m; m \<leftarrow> Some (m\<lparr>r_esi := w\<rparr>);
          (w, m) \<leftarrow> pop m; m \<leftarrow> Some (m\<lparr>r_ebp := w\<rparr>);
          ret m }"

text \<open>\<^verbatim>\<open>ret_from_fork\<close>: a C function that returns 0; its own frame is gone when it returns.\<close>

definition ret_from_fork_asm :: "cpu \<Rightarrow> cpu option" where
  "ret_from_fork_asm m = ret (m\<lparr>r_eax := 0\<rparr>)"

text \<open>\<^verbatim>\<open>sys_fork\<close> and \<^verbatim>\<open>sys_clone\<close>, called from the handler at the instruction before \<open>after\<close>.\<close>

definition call_fork :: "dword \<Rightarrow> cpu \<Rightarrow> (dword \<times> kstate) option" where
  "call_fork after m =
     do { m \<leftarrow> call_from after m;
          m \<leftarrow> prologue m;
          sys_fork (see_ebp m) }"

definition call_clone :: "dword \<Rightarrow> cpu \<Rightarrow> (dword \<times> kstate) option" where
  "call_clone after m =
     do { m \<leftarrow> call_from after m;
          m \<leftarrow> prologue m;
          fn \<leftarrow> read_dword (kern m) (r_ebp m + 8);
          stack \<leftarrow> read_dword (kern m) (r_ebp m + 12);
          exit_func \<leftarrow> read_dword (kern m) (r_ebp m + 16);
          sys_clone fn stack exit_func (see_ebp m) }"

text \<open>\<^verbatim>\<open>cpu_idle\<close> up to its endless loop, which only interrupts leave.\<close>

definition cpu_idle_asm :: "cpu \<Rightarrow> cpu" where
  "cpu_idle_asm m = m\<lparr>r_eflags := set_bit 9 (r_eflags m)\<rparr>"

end
