(* ===== verification/Stack_Words.thy ===== *)
theory Stack_Words
  imports Entry Kernel_Reach
begin

text \<open>
  The kernel stacks as arrays of 1024 words in physical memory: reading and writing a word of a
  stack in closed form, and \<^verbatim>\<open>push\<close> and \<^verbatim>\<open>pop\<close> on a stack pointer that points into one.
\<close>

section \<open>Words of a stack\<close>

definition stacks_ok :: "kstate \<Rightarrow> bool" where
  "stacks_ok s \<longleftrightarrow> kmap_ok s \<and> (\<exists>d<NR_TASKS. cr3 s = Some (d * TOTAL_PAGES))"

definition stack_word :: "kstate \<Rightarrow> nat \<Rightarrow> nat \<Rightarrow> dword" where
  "stack_word s t n =
     bytes_dword (map (\<lambda>i. pmem s (of_nat (stack_pa s t (4 * n + i)))) [0, 1, 2, 3])"

definition put_word :: "nat \<Rightarrow> nat \<Rightarrow> dword \<Rightarrow> kstate \<Rightarrow> kstate" where
  "put_word t n w s =
     (let a = (\<lambda>i. of_nat (stack_pa s t (4 * n + i))); b = (\<lambda>i. dword_bytes w ! i)
      in s\<lparr>pmem := (pmem s)(a 0 := b 0, a 1 := b 1, a 2 := b 2, a 3 := b 3)\<rparr>)"

lemma put_word_pmem: "\<exists>m. put_word t n w s = s\<lparr>pmem := m\<rparr>"
  by (simp add: put_word_def Let_def) blast

lemma put_word_fields [simp]:
  "tasks (put_word t n w s) = tasks s" "current (put_word t n w s) = current s" "kpc (put_word t n w s) = kpc s"
  "tss_esp0 (put_word t n w s) = tss_esp0 s" "cr3 (put_word t n w s) = cr3 s" "idle_task (put_word t n w s) = idle_task s"
  "tasks_addr (put_word t n w s) = tasks_addr s" "ebp_value (put_word t n w s) = ebp_value s"
  "ebp_count (put_word t n w s) = ebp_count s" "ret_from_fork_addr (put_word t n w s) = ret_from_fork_addr s"
  "cpu_idle_addr (put_word t n w s) = cpu_idle_addr s" "pagusr_table (put_word t n w s) = pagusr_table s"
  "dir_pages (put_word t n w s) = dir_pages s" "pagusr_table_addr (put_word t n w s) = pagusr_table_addr s"
  "translate (put_word t n w s) = translate s" "stack_addr (put_word t n w s) = stack_addr s"
  "stack_pa (put_word t n w s) = stack_pa s" "stacks_ok (put_word t n w s) = stacks_ok s"
  using put_word_pmem [of t n w s] by (auto simp: stacks_ok_def)

lemma ksafe_put_word [simp]: "ksafe s v \<Longrightarrow> ksafe (put_word t n w s) v"
  using put_word_pmem [of t n w s] by auto

lemma ksafe_stacks:
  assumes "ksafe s v"
  shows "stacks_ok s"
  using assms current_space [of s v "stacks_ok s"] by (auto simp: ksafe_def stacks_ok_def mem_ok_def)

lemma stack_word_translate:
  assumes "stacks_ok s" "t < NR_TASKS" "n < KERNEL_STACK_SIZE" "i < 4"
  shows "translate s (stack_addr s t (int n) + of_nat i) = Some (of_nat (stack_pa s t (4 * n + i)))"
proof -
  obtain d where d: "kmap_ok s" "cr3 s = Some (d * TOTAL_PAGES)" "d < NR_TASKS" using assms(1) by (auto simp: stacks_ok_def)
  have e: "stack_addr s t (int n) + of_nat i = of_nat (stack_pa s t (4 * n + i))"
    using stack_addr_pa [of s t n i] by simp
  show ?thesis unfolding e by (rule stack_translate(1) [OF d assms(2)]) (use assms(3,4) in simp)
qed

lemma stack_pa_eq:
  assumes "stacks_ok s" "t < NR_TASKS" "u < NR_TASKS" "n < PAGE_SIZE" "m < PAGE_SIZE"
  shows "(of_nat (stack_pa s t n) :: dword) = of_nat (stack_pa s u m) \<longleftrightarrow> t = u \<and> n = m"
  using assms stack_pa_inj [of s _ t u n m] by (auto simp: stacks_ok_def)

lemma four_bytes: "dword_bytes w = [dword_bytes w ! 0, dword_bytes w ! 1, dword_bytes w ! 2, dword_bytes w ! 3]"
  by (simp add: dword_bytes_def)

lemma bytes_nth: "bytes_dword (map (\<lambda>i. dword_bytes w ! i) [0, 1, 2, 3]) = w"
  using four_bytes [of w] bytes_dword_dword_bytes [of w] by simp

lemma write_stack:
  assumes "stacks_ok s" "t < NR_TASKS" "n < KERNEL_STACK_SIZE"
  shows "write_dword s (stack_addr s t (int n)) w = Some (put_word t n w s)"
  unfolding write_dword_def
  by (subst four_bytes)
    (use stack_word_translate [OF assms, of 0] stack_word_translate [OF assms, of 1]
      stack_word_translate [OF assms, of 2] stack_word_translate [OF assms, of 3] in
     \<open>simp add: write_byte_def put_word_def Let_def add.assoc\<close>)

lemma read_stack:
  assumes "stacks_ok s" "t < NR_TASKS" "n < KERNEL_STACK_SIZE"
  shows "read_dword s (stack_addr s t (int n)) = Some (stack_word s t n)"
  using stack_word_translate [OF assms, of 0] stack_word_translate [OF assms, of 1]
    stack_word_translate [OF assms, of 2] stack_word_translate [OF assms, of 3]
  by (simp add: read_dword_def read_byte_def stack_word_def numeral_eq_Suc add.assoc)

lemma stack_word_put [simp]:
  assumes "stacks_ok s" "t < NR_TASKS" "u < NR_TASKS" "n < KERNEL_STACK_SIZE" "k < KERNEL_STACK_SIZE"
  shows "stack_word (put_word t n w s) u k = (if u = t \<and> k = n then w else stack_word s u k)"
proof -
  have eq: "(of_nat (stack_pa s u (4 * k + i)) :: dword) = of_nat (stack_pa s t (4 * n + j)) \<longleftrightarrow>
      u = t \<and> 4 * k + i = 4 * n + j" if "i < 4" "j < 4" for i j
    by (rule stack_pa_eq [OF assms(1,3,2)]) (use that assms(4,5) in simp_all)
  have ne: "4 * k + i \<noteq> 4 * n + j" if "k \<noteq> n" "i < 4" "j < 4" for i j using that by presburger
  have "pmem (put_word t n w s) (of_nat (stack_pa s u (4 * k + i))) =
      (if u = t \<and> k = n then dword_bytes w ! i else pmem s (of_nat (stack_pa s u (4 * k + i))))" if i: "i \<in> {0, 1, 2, 3}" for i
  proof (cases "u = t \<and> k = n")
    case True
    then have "(of_nat (stack_pa s u (4 * k + i)) :: dword) = of_nat (stack_pa s t (4 * n + j)) \<longleftrightarrow> i = j" if "j < 4" for j
      using eq [of i j] that i by auto
    note this [of 0] this [of 1] this [of 2] this [of 3]
    then show ?thesis using i True unfolding put_word_def Let_def by (elim insertE emptyE) simp_all
  next
    case False
    have "(of_nat (stack_pa s u (4 * k + i)) :: dword) \<noteq> of_nat (stack_pa s t (4 * n + j))" if "j < 4" for j
      using eq [of i j] False ne [of i j] i that by auto
    note this [of 0] this [of 1] this [of 2] this [of 3]
    then show ?thesis using False unfolding put_word_def Let_def by auto
  qed
  then have "map (\<lambda>i. pmem (put_word t n w s) (of_nat (stack_pa s u (4 * k + i)))) [0, 1, 2, 3] =
      map (\<lambda>i. if u = t \<and> k = n then dword_bytes w ! i else pmem s (of_nat (stack_pa s u (4 * k + i)))) [0, 1, 2, 3]"
    by (intro map_cong) auto
  then show ?thesis unfolding stack_word_def put_word_fields by (cases "u = t \<and> k = n") (simp_all only: simp_thms if_True if_False bytes_nth)
qed

section \<open>The stack pointer\<close>

text \<open>The address of word \<open>n\<close>, or of the byte above the stack for \<open>n = 1024\<close>.\<close>

definition word_addr :: "kstate \<Rightarrow> nat \<Rightarrow> nat \<Rightarrow> dword" where
  "word_addr s t n = stack_addr s t (int n)"

lemma word_addr_put [simp]: "word_addr (put_word t n w s) = word_addr s"
  by (simp add: word_addr_def fun_eq_iff)

lemma word_addr_minus: "0 < n \<Longrightarrow> word_addr s t n - 4 = word_addr s t (n - 1)"
  by (simp add: word_addr_def stack_addr_def of_nat_diff algebra_simps)

lemma word_addr_plus: "word_addr s t n + 4 = word_addr s t (n + 1)"
  by (simp add: word_addr_def stack_addr_def algebra_simps)

lemma word_addr_add: "word_addr s t n + of_nat (4 * k) = word_addr s t (n + k)"
  by (simp add: word_addr_def stack_addr_def algebra_simps)

lemma KERNEL_ESP_word: "KERNEL_ESP s t = word_addr s t KERNEL_STACK_SIZE"
  by (simp add: KERNEL_ESP_def word_addr_def)

text \<open>The stack pointer is at word \<open>n\<close> of the stack of task \<open>t\<close>.\<close>

definition at_word :: "cpu \<Rightarrow> nat \<Rightarrow> nat \<Rightarrow> bool" where
  "at_word m t n \<longleftrightarrow> stacks_ok (kern m) \<and> t < NR_TASKS \<and> n \<le> KERNEL_STACK_SIZE \<and> r_esp m = word_addr (kern m) t n"

lemma push_at:
  assumes "at_word m t n" "0 < n"
  shows "push w m = Some (m\<lparr>kern := put_word t (n - 1) w (kern m), r_esp := word_addr (kern m) t (n - 1)\<rparr>)"
proof -
  have w: "write_dword (kern m) (word_addr (kern m) t (n - 1)) w = Some (put_word t (n - 1) w (kern m))"
    unfolding word_addr_def by (rule write_stack) (use assms in \<open>auto simp: at_word_def\<close>)
  show ?thesis using assms w by (simp add: push_def at_word_def word_addr_minus)
qed

lemma pop_at:
  assumes "at_word m t n" "n < KERNEL_STACK_SIZE"
  shows "pop m = Some (stack_word (kern m) t n, m\<lparr>r_esp := word_addr (kern m) t (n + 1)\<rparr>)"
proof -
  have "read_dword (kern m) (word_addr (kern m) t n) = Some (stack_word (kern m) t n)"
    unfolding word_addr_def by (rule read_stack) (use assms in \<open>auto simp: at_word_def\<close>)
  then show ?thesis using assms by (simp add: pop_def at_word_def word_addr_plus)
qed

section \<open>Several words\<close>

text \<open>Indices as successors, for the steps of a sequence of pushes.\<close>

lemma plus_Suc:
  fixes n :: nat
  shows "n + 2 = Suc (Suc n)" "n + 3 = Suc (Suc (Suc n))"
    "n + 4 = Suc (Suc (Suc (Suc n)))" "n + 5 = Suc (Suc (Suc (Suc (Suc n))))"
    "n + 6 = Suc (Suc (Suc (Suc (Suc (Suc n)))))" "n + 7 = Suc (Suc (Suc (Suc (Suc (Suc (Suc n))))))"
    "n + 8 = Suc (Suc (Suc (Suc (Suc (Suc (Suc (Suc n)))))))" "n + 9 = Suc (Suc (Suc (Suc (Suc (Suc (Suc (Suc (Suc n))))))))"
    "n + 10 = Suc (Suc (Suc (Suc (Suc (Suc (Suc (Suc (Suc (Suc n)))))))))" "n + 11 = Suc (Suc (Suc (Suc (Suc (Suc (Suc (Suc (Suc (Suc (Suc n))))))))))"
  by simp_all

fun put_words :: "nat \<Rightarrow> nat \<Rightarrow> dword list \<Rightarrow> kstate \<Rightarrow> kstate" where
  "put_words t n [] s = s"
| "put_words t n (w # ws) s = put_word t n w (put_words t (Suc n) ws s)"

lemma put_words_fields [simp]:
  "tasks (put_words t n ws s) = tasks s" "current (put_words t n ws s) = current s" "kpc (put_words t n ws s) = kpc s"
  "tss_esp0 (put_words t n ws s) = tss_esp0 s" "cr3 (put_words t n ws s) = cr3 s" "idle_task (put_words t n ws s) = idle_task s"
  "tasks_addr (put_words t n ws s) = tasks_addr s" "ebp_value (put_words t n ws s) = ebp_value s"
  "ebp_count (put_words t n ws s) = ebp_count s" "ret_from_fork_addr (put_words t n ws s) = ret_from_fork_addr s"
  "cpu_idle_addr (put_words t n ws s) = cpu_idle_addr s" "translate (put_words t n ws s) = translate s"
  "pagusr_table (put_words t n ws s) = pagusr_table s"
  "stack_addr (put_words t n ws s) = stack_addr s" "stack_pa (put_words t n ws s) = stack_pa s"
  "word_addr (put_words t n ws s) = word_addr s" "stacks_ok (put_words t n ws s) = stacks_ok s"
  by (induction ws arbitrary: n) simp_all

lemma ksafe_put_words [simp]: "ksafe s v \<Longrightarrow> ksafe (put_words t n ws s) v"
  by (induction ws arbitrary: n) simp_all

lemma put_words_pmem: "\<exists>m. put_words t n ws s = s\<lparr>pmem := m\<rparr>"
proof (induction ws arbitrary: n)
  case Nil
  show ?case by (rule exI [of _ "pmem s"]) simp
next
  case (Cons w ws)
  then obtain m where "put_words t (Suc n) ws s = s\<lparr>pmem := m\<rparr>" by blast
  then show ?case using put_word_pmem [of t n w "s\<lparr>pmem := m\<rparr>"] by auto
qed

lemma put_words_outside:
  assumes "\<And>n. n < PAGE_SIZE \<Longrightarrow> x \<noteq> of_nat (stack_pa s t n)" "n + length ws \<le> KERNEL_STACK_SIZE"
  shows "pmem (put_words t n ws s) x = pmem s x"
  using assms(2)
proof (induction ws arbitrary: n)
  case (Cons w ws)
  have "x \<noteq> of_nat (stack_pa s t (4 * n + i))" if "i < 4" for i using assms(1) [of "4 * n + i"] that Cons.prems by simp
  note this [of 0] this [of 1] this [of 2] this [of 3]
  then have "pmem (put_word t n w (put_words t (Suc n) ws s)) x = pmem (put_words t (Suc n) ws s) x"
    unfolding put_word_def Let_def by auto
  then show ?case using Cons by simp
qed simp

lemma stack_word_puts:
  assumes "stacks_ok s" "t < NR_TASKS" "u < NR_TASKS" "k < KERNEL_STACK_SIZE" "n + length ws \<le> KERNEL_STACK_SIZE"
  shows "stack_word (put_words t n ws s) u k =
     (if u = t \<and> n \<le> k \<and> k < n + length ws then ws ! (k - n) else stack_word s u k)"
  using assms(5)
proof (induction ws arbitrary: n)
  case (Cons w ws)
  then show ?case using assms(1-4) by (cases "k = n") (auto simp: nth_Cons')
qed auto

end
