(* ===== verification/Stack_Effects.thy ===== *)
theory Stack_Effects
  imports Effects Stack_Words Kernel_Properties
begin

text \<open>
  No operation of the kernel writes to the kernel stack of a task in use, except for the frames of the
  current task's own code: what \<^verbatim>\<open>read\<close>, \<^verbatim>\<open>get_stats\<close>, \<^verbatim>\<open>clone\<close>, the page fault and the program itself write lies above
  the stacks, and \<^verbatim>\<open>fork\<close> and \<^verbatim>\<open>clone\<close> write to the stack of a task they take from the free queue.
\<close>

section \<open>Stacks that are kept\<close>

definition kept :: "nat set \<Rightarrow> kstate \<Rightarrow> kstate \<Rightarrow> bool" where
  "kept T s s' \<longleftrightarrow> tasks_addr s' = tasks_addr s \<and>
     (\<forall>t\<in>T. \<forall>n<PAGE_SIZE. pmem s' (of_nat (stack_pa s t n)) = pmem s (of_nat (stack_pa s t n)))"

lemma stack_pa_cong: "tasks_addr s' = tasks_addr s \<Longrightarrow> stack_pa s' = stack_pa s"
  by (simp add: stack_pa_def fun_eq_iff)

lemma kept_refl [simp]: "kept T s s"
  by (simp add: kept_def)

lemma kept_trans: "kept T s s1 \<Longrightarrow> kept T s1 s2 \<Longrightarrow> kept T s s2"
  using stack_pa_cong [of s1 s] by (simp add: kept_def)

lemma kept_quiet: "quiet s s' \<Longrightarrow> kept T s s'"
  by (simp add: kept_def quiet_def)

lemma kept_switched: "switched k s s' \<Longrightarrow> kept T s s'"
  by (simp add: kept_def switched_def)

lemma kept_subset: "kept T s s' \<Longrightarrow> U \<subseteq> T \<Longrightarrow> kept U s s'"
  by (auto simp: kept_def)

lemma kept_word:
  assumes "kept T s s'" "t \<in> T" "n < KERNEL_STACK_SIZE"
  shows "stack_word s' t n = stack_word s t n"
proof -
  have "pmem s' (of_nat (stack_pa s t (4 * n + i))) = pmem s (of_nat (stack_pa s t (4 * n + i)))" if "i < 4" for i
    using assms that by (simp add: kept_def)
  then have "pmem s' (of_nat (stack_pa s t (4 * n + i))) = pmem s (of_nat (stack_pa s t (4 * n + i)))" if "i \<in> set [0, 1, 2, 3]" for i
    using that by (cases "i < 4") auto
  moreover have "stack_pa s' = stack_pa s" by (rule stack_pa_cong) (use assms(1) in \<open>simp add: kept_def\<close>)
  ultimately show ?thesis unfolding stack_word_def by (intro arg_cong [of _ _ bytes_dword] map_cong refl) (simp only:)
qed

lemma kept_put_words:
  assumes "stacks_ok s" "u < NR_TASKS" "u \<notin> T" "T \<subseteq> {..<NR_TASKS}" "n + length ws \<le> KERNEL_STACK_SIZE"
  shows "kept T s (put_words u n ws s)"
  unfolding kept_def
proof (intro conjI ballI allI impI)
  fix t m :: nat
  assume t: "t \<in> T" "m < 4096"
  show "pmem (put_words u n ws s) (of_nat (stack_pa s t m)) = pmem s (of_nat (stack_pa s t m))"
  proof (rule put_words_outside [OF _ assms(5)])
    show "of_nat (stack_pa s t m) \<noteq> (of_nat (stack_pa s u k) :: dword)" if "k < 4096" for k
      using stack_pa_eq [OF assms(1), of t u m k] t that assms(2-4) by auto
  qed
qed simp

section \<open>Addresses above the stacks\<close>

text \<open>From here on an address is in the last page of the kernel, which is no stack, or above it.\<close>

definition above_stacks :: "dword \<Rightarrow> bool" where
  "above_stacks va \<longleftrightarrow> 0xFF000 \<le> unat va"

text \<open>The mapping under which such an address does not lead to a stack.\<close>

definition user_frames :: "kstate \<Rightarrow> bool" where
  "user_frames s \<longleftrightarrow> mem_ok s \<and> (\<exists>d<NR_TASKS. cr3 s = Some (d * TOTAL_PAGES) \<and>
     (\<forall>i. NUM_PAG_KERNEL \<le> i \<longrightarrow> i < TOTAL_PAGES \<longrightarrow> pte_present (pagusr_table s d i) \<longrightarrow>
        unat (pte_pbase_addr (pagusr_table s d i)) \<in> frame_pool))"

lemma ksafe_user_frames:
  assumes "ksafe s v"
  shows "user_frames s"
proof -
  have s: "kinv s v" "mem_ok s" "frames_ok s" using assms by (simp_all add: ksafe_def protected_def)
  obtain d where "cr3 s = Some (d * TOTAL_PAGES)" "d < NR_TASKS" by (rule current_space [OF s(1,2)])
  then show ?thesis using s(2) frames_okD(2) [OF s(3)] by (auto simp: user_frames_def)
qed

lemma high_not_stack:
  assumes ok: "user_frames s" and va: "above_stacks va" "translate s va = Some pa" and t: "t < NR_TASKS" "n < PAGE_SIZE"
  shows "pa \<noteq> of_nat (stack_pa s t n)"
proof -
  obtain d where d: "mem_ok s" "d < NR_TASKS" "cr3 s = Some (d * TOTAL_PAGES)"
      "\<And>i. NUM_PAG_KERNEL \<le> i \<Longrightarrow> i < TOTAL_PAGES \<Longrightarrow> pte_present (pagusr_table s d i) \<Longrightarrow>
        unat (pte_pbase_addr (pagusr_table s d i)) \<in> frame_pool"
    using ok by (auto simp: user_frames_def)
  have k: "kmap_ok s" using d(1) by (simp add: mem_ok_def)
  obtain p where p: "tasks_addr s = of_nat (p * PAGE_SIZE)" "2 \<le> p" "p + 11 \<le> NUM_PAG_KERNEL" "kernel_row p (pagusr_table s d)"
    using k d(2) by (auto simp: kmap_ok_def)
  have u: "unat (tasks_addr s) = p * PAGE_SIZE" unfolding p(1) by (rule page_addr_unat) (use p(3) in simp)
  have small: "stack_pa s t n < 0xFF000" using p(3) t by (simp add: stack_pa_def u)
  have st: "unat (of_nat (stack_pa s t n) :: dword) = stack_pa s t n" by (rule sint_of_nat_small(2)) (use small in simp)
  have "unat (drop_bit 22 va) = 0"
  proof (rule ccontr)
    assume i: "unat (drop_bit 22 va) \<noteq> 0"
    have "unat (drop_bit 22 va) < TOTAL_PAGES" using unat_lt_32 [of va] unfolding unat_drop_22 by simp
    with i have "(d * TOTAL_PAGES + unat (drop_bit 22 va)) mod TOTAL_PAGES \<noteq> 0" by simp
    then have "dir_pages s (d * TOTAL_PAGES + unat (drop_bit 22 va)) = 0" using k unfolding kmap_ok_def by blast
    then show False using va(2) by (simp add: translate_def table_entry_def dir_entry_def d(3))
  qed
  then obtain pg off where a: "pg < TOTAL_PAGES" "off < PAGE_SIZE" "va = of_nat (pg * PAGE_SIZE + off)" by (rule low_address)
  have pg: "255 \<le> pg" using va(1) address_parts(5) [OF a(1,2)] a(2) unfolding above_stacks_def a(3) by simp
  define f where "f = unat (pte_pbase_addr (pagusr_table s d pg))"
  have tr: "pte_present (pagusr_table s d pg)" "pa = of_nat (f * PAGE_SIZE + off)"
    using mem_translate(1) [OF d(1,3,2) a(1,2)] va(2) unfolding a(3) f_def by (simp_all split: if_splits del: of_nat_add of_nat_mult)
  have f: "255 \<le> f" "f < TOTAL_PAGES"
  proof -
    show "255 \<le> f"
    proof (cases "pg = 255")
      case True
      have "pagusr_table s d 255 = kernel_pte 255"
        using p(4) tr(1) unfolding kernel_row_def Let_def True by (auto split: if_splits)
      then show ?thesis unfolding f_def True
        by (simp add: kernel_pte_def unsigned_take_bit_eq unsigned_of_nat take_bit_nat_eq_self)
    next
      case False
      then show ?thesis using d(4) [OF _ a(1) tr(1)] pg by (simp add: f_def frame_pool_def)
    qed
    show "f < TOTAL_PAGES" using d(1,2) a(1) by (simp add: f_def mem_ok_def ptes_ok_def)
  qed
  have "unat pa = f * PAGE_SIZE + off" unfolding tr(2) by (rule address_parts(5) [OF f(2) a(2)])
  then show ?thesis using st small f(1) by auto
qed

section \<open>Writes above the stacks\<close>

lemma user_frames_pmem [simp]: "user_frames (s\<lparr>pmem := m\<rparr>) = user_frames s"
proof -
  have "mem_ok (s\<lparr>pmem := m\<rparr>) = mem_ok s" by (simp add: mem_ok_def spaces_ok_def)
  then show ?thesis by (simp add: user_frames_def)
qed

lemma kept_write_byte:
  assumes "user_frames s" "above_stacks a" "write_byte s a b = Some s'" "T \<subseteq> {..<NR_TASKS}"
  shows "kept T s s'"
proof -
  obtain pa where pa: "translate s a = Some pa" "s' = s\<lparr>pmem := (pmem s)(pa := b)\<rparr>" using assms(3) by (auto simp: write_byte_def)
  moreover have "of_nat (stack_pa s t n) \<noteq> pa" if "t \<in> T" "n < PAGE_SIZE" for t n
    using high_not_stack [OF assms(1,2) pa(1), of t n] assms(4) that by auto
  ultimately show ?thesis by (simp add: pa(2) kept_def)
qed

lemma kept_writes:
  assumes "write_bytes write_byte s a bs = Some s'" "user_frames s" "\<And>i. i < length bs \<Longrightarrow> above_stacks (a + of_nat i)"
    "T \<subseteq> {..<NR_TASKS}"
  shows "kept T s s'"
  using assms(1-3)
proof (induction bs arbitrary: s a)
  case (Cons b bs)
  from Cons.prems(1) obtain s1 where s1: "write_byte s a b = Some s1" "write_bytes write_byte s1 (a + 1) bs = Some s'"
    by (auto simp: bind_eq_Some_conv)
  have k: "kept T s s1" by (rule kept_write_byte [OF Cons.prems(2) _ s1(1) assms(4)]) (use Cons.prems(3) [of 0] in simp)
  have "user_frames s1" using write_byte_frame [OF s1(1)] Cons.prems(2) by auto
  then have "kept T s1 s'"
    using Cons.IH [OF s1(2)] Cons.prems(3) [of "Suc _"] by (simp add: algebra_simps)
  with k show ?case by (rule kept_trans)
qed simp

text \<open>A buffer of a process.\<close>

definition user_range :: "dword \<Rightarrow> dword \<Rightarrow> bool" where
  "user_range b n \<longleftrightarrow> 0x100000 \<le> unat b \<and> unat b + nat (sint n) \<le> 2 ^ 32"

lemma user_range_above:
  assumes "user_range b n" "i < nat (sint n)"
  shows "above_stacks (b + of_nat i)"
proof -
  have "unat (b + of_nat i) = unat b + i"
  proof -
    have "sint n < 2 ^ 31" using sint_less [of n] by simp
    then have "unat (of_nat i :: dword) = i" using assms(2) by (intro sint_of_nat_small(2)) simp
    then show ?thesis using assms by (simp add: unat_word_ariths user_range_def)
  qed
  then show ?thesis using assms by (simp add: above_stacks_def user_range_def)
qed

section \<open>The effect of a system call\<close>

text \<open>The place where a task continues in \<^verbatim>\<open>read\<close> holds a buffer that has been checked.\<close>

fun place_ok :: "kcont \<Rightarrow> bool" where
  "place_ok (Read_first b n) = (user_range b n \<and> \<not> n <s 0)"
| "place_ok (Read_more b m n) = (user_range b n \<and> 0 <s m \<and> m <=s n)"
| "place_ok k = True"

definition moves :: "kstate \<Rightarrow> kstate \<Rightarrow> bool" where
  "moves s s' \<longleftrightarrow> (\<forall>t. kpc s' t = kpc s t \<or> place_ok (kpc s' t))"

definition call_effect :: "nat set \<Rightarrow> sysret \<Rightarrow> kstate \<Rightarrow> kstate \<Rightarrow> bool" where
  "call_effect T r s s' \<longleftrightarrow> kept T s s' \<and> moves s s' \<and> (tss_ok s \<longrightarrow> tss_ok s') \<and>
     (r \<noteq> Switched \<longrightarrow> current s' = current s \<and> kpc s' (current s) = kpc s (current s))"

lemma moves_trans: "moves s s1 \<Longrightarrow> moves s1 s2 \<Longrightarrow> moves s s2"
  unfolding moves_def by metis

lemma tss_ok_cong: "tasks_addr s' = tasks_addr s \<Longrightarrow> tss_esp0 s' = tss_esp0 s \<Longrightarrow> current s' = current s \<Longrightarrow> tss_ok s' = tss_ok s"
  using KERNEL_ESP_cong [of s' s] by (simp add: tss_ok_def)

lemma effect_quiet:
  assumes "quiet s s'"
  shows "call_effect T r s s'"
  using assms kept_quiet [OF assms] tss_ok_cong [of s' s] by (simp add: call_effect_def quiet_def moves_def)

lemma effect_switched: "switched k s s' \<Longrightarrow> place_ok k \<Longrightarrow> call_effect T Switched s s'"
  using kept_switched by (simp add: call_effect_def switched_def moves_def)

lemma effect_trans:
  assumes "call_effect T (Ret x) s s1" "call_effect T r s1 s2"
  shows "call_effect T r s s2"
proof -
  have "kept T s s2" "moves s s2" using assms kept_trans moves_trans unfolding call_effect_def by blast+
  then show ?thesis using assms by (simp add: call_effect_def)
qed

lemma unat_drop_12: "unat (drop_bit 12 (x :: dword)) = unat x div 4096"
  using unat_lt_32 [of x] by (simp only: unsigned_drop_bit_eq) (simp add: drop_bit_eq_div take_bit_nat_eq_self)

lemma page_le: "x div 4096 \<le> y div 4096 \<Longrightarrow> x < y + 4096" for x y :: nat
  using div_mult_mod_eq [of x 4096] div_mult_mod_eq [of y 4096] mod_less_divisor [of 4096 x] by linarith

lemma access_ok_range:
  assumes acc: "access_ok VERIFY_WRITE b n s" and n: "\<not> n <s 0" and h: "heap_fits (heap_top (tasks s (current s)))"
  shows "user_range b n"
proof -
  have "256 \<le> unat (drop_bit 12 b)" by (rule access_ok_pages(1) [OF acc h])
  then have lo: "256 \<le> unat b div 4096" by (simp only: unat_drop_12)
  have le: "drop_bit 12 b \<le> drop_bit 12 (b + n)" using acc by (auto simp: access_ok_def Let_def not_less split: if_splits)
  then have le': "unat b div 4096 \<le> unat (b + n) div 4096" by (simp only: word_le_nat_alt unat_drop_12)
  have sn: "0 \<le> sint n" "sint n < 2 ^ 31" using n sint_less [of n] by (auto simp: word_sless_alt)
  have un: "int (unat n) = sint n"
  proof -
    have "unat (of_nat (nat (sint n)) :: dword) = nat (sint n)"
      by (rule sint_of_nat_small(2)) (use sn in \<open>simp add: nat_less_iff\<close>)
    moreover have "of_nat (nat (sint n)) = n" using sn(1) by (simp add: of_nat_nat)
    ultimately show ?thesis using sn(1) by simp
  qed
  have "unat b + unat n < 2 ^ 32"
  proof (rule ccontr)
    assume ge: "\<not> unat b + unat n < 2 ^ 32"
    then have "unat (b + n) = unat b + unat n - 2 ^ 32"
      using unat_lt_32 [of b] unat_lt_32 [of n] by (simp add: unat_word_ariths le_mod_geq)
    moreover have "unat n < 2 ^ 31"
    proof -
      have "int (unat n) < int (2 ^ 31)" unfolding un using sn(2) by simp
      then show ?thesis by (simp only: of_nat_less_iff)
    qed
    ultimately have "unat (b + n) + 4096 < unat b" using unat_lt_32 [of b] ge by simp
    then show False using page_le [OF le'] by simp
  qed
  moreover have "0x100000 \<le> unat b" using lo div_mult_mod_eq [of "unat b" 4096] by linarith
  moreover have "nat (sint n) = unat n" unfolding un [symmetric] by (simp only: nat_int)
  ultimately show ?thesis by (simp add: user_range_def)
qed

section \<open>Reading the keyboard\<close>

lemma kept_read_loop:
  assumes "read_loop b n cnt s = Some (r, s')" "user_frames s" "\<And>i. i < n \<Longrightarrow> above_stacks (b + of_nat (cnt + i))"
    "T \<subseteq> {..<NR_TASKS}"
  shows "kept T s s'"
  using assms(1-3)
proof (induction n arbitrary: cnt s)
  case (Suc n)
  show ?case
  proof (cases "buff_from s = buff_to s")
    case True
    then show ?thesis using Suc.prems by simp
  next
    case False
    then obtain s1 f where s1: "write_byte s (b + of_nat cnt) (keyboard_buffer s (buff_from s)) = Some s1"
        "read_loop b n (cnt + 1) (s1\<lparr>buff_from := f\<rparr>) = Some (r, s')"
      using Suc.prems(1) by (auto simp: bind_eq_Some_conv split: if_splits)
    have "kept T s s1" by (rule kept_write_byte [OF Suc.prems(2) _ s1(1) assms(4)]) (use Suc.prems(3) [of 0] in simp)
    then have k: "kept T s (s1\<lparr>buff_from := f\<rparr>)" by (simp add: kept_def)
    have "user_frames s1" using write_byte_frame [OF s1(1)] Suc.prems(2) by auto
    then have "user_frames (s1\<lparr>buff_from := f\<rparr>)"
      by (simp add: user_frames_def mem_ok_def kmap_ok_def layout_ok_def dir_pte_def spaces_ok_def)
    then have "kept T (s1\<lparr>buff_from := f\<rparr>) s'" by (rule Suc.IH [OF s1(2)]) (use Suc.prems(3) [of "Suc _"] in simp)
    with k show ?thesis by (rule kept_trans)
  qed
qed simp

lemma read_effect:
  assumes run: "read_from_keyboard_buffer (b + (n - m)) m s = Some (r, s')" and ok: "user_frames s" "user_range b n" "0 <=s m" "m <=s n"
    and T: "T \<subseteq> {..<NR_TASKS}"
  shows "call_effect T x s s' \<and> 0 <=s m - r \<and> m - r <=s n"
proof -
  have m: "0 \<le> sint m" "sint m \<le> sint n" using ok(3,4) by (simp_all add: word_sle_eq)
  obtain k where k: "read_loop (b + (n - m)) (nat (sint m)) 0 s = Some (k, s')" "r = of_nat k"
    using run by (auto simp: read_from_keyboard_buffer_def bind_eq_Some_conv)
  have bound: "sint n < 2 ^ 31" using sint_less [of n] by simp
  have nm: "of_nat (nat (sint n)) = n" "of_nat (nat (sint m)) = m" using m by simp_all
  have d: "n - m = of_nat (nat (sint n) - nat (sint m))" using m nm by (simp add: of_nat_diff)
  have "kept T s s'"
  proof (rule kept_read_loop [OF k(1) ok(1) _ T])
    fix i
    assume i: "i < nat (sint m)"
    have "b + (n - m) + of_nat (0 + i) = b + of_nat (nat (sint n) - nat (sint m) + i)"
      by (simp only: d of_nat_add add_0 add.assoc)
    moreover have "above_stacks (b + of_nat (nat (sint n) - nat (sint m) + i))"
      by (rule user_range_above [OF ok(2)]) (use i m in linarith)
    ultimately show "above_stacks (b + (n - m) + of_nat (0 + i))" by (simp only:)
  qed
  moreover have t: "taken_only s s'" "k \<le> nat (sint m)" using read_loop_taken [OF k(1)] by simp_all
  moreover have "kpc s' = kpc s" "current s' = current s" "tss_ok s' = tss_ok s"
    using t(1) tss_ok_cong [of s' s] by (auto elim!: taken_onlyE)
  moreover have "sint (m - r) = sint m - int k"
  proof -
    have "m - r = of_nat (nat (sint m) - k)" using nm(2) k(2) t(2) by (simp add: of_nat_diff)
    then show ?thesis using sint_of_nat_small(1) [of "nat (sint m) - k"] bound m t(2) by simp
  qed
  ultimately show ?thesis using m by (simp add: call_effect_def moves_def word_sle_eq)
qed

end
