(* ===== verification/Call_Effects.thy ===== *)
theory Call_Effects
  imports Stack_Effects
begin

text \<open>
  What each system call, the page fault and the program do to the kernel stacks, and to the places
  where the tasks continue.
\<close>

section \<open>Keyboard and statistics\<close>

lemma block_effect:
  assumes "block_in_read k first s = Some s'" "place_ok k"
  shows "call_effect T Switched s s'"
proof -
  obtain s1 s2 where s: "update_process_state (current s) (Some Keyboard_queue) first s = Some s1"
      "update_stats (current s1) SYS_TO_BLOCKED s1 = Some s2" "sched_next_rr k s2 = Some s'"
    using assms(1) by (auto simp: block_in_read_def bind_eq_Some_conv)
  show ?thesis
    by (rule effect_switched [OF quiet_switched assms(2)])
      (use quiet_trans [OF quiet_process_state [OF s(1)] quiet_stats [OF s(2)]] switched_sched_next [OF s(3)] in auto)
qed

lemma read_keyboard_loop_effect:
  assumes "sys_read_keyboard_loop b m n s = Some (r, s')" "user_range b n" "m <=s n"
  shows "call_effect T r s s'"
proof (cases "0 <s m")
  case True
  then obtain s1 where s1: "block_in_read (Read_more b m n) True (s\<lparr>remaining_to_read := sint m\<rparr>) = Some s1"
      "r = Switched" "s' = s1"
    using assms(1) by (auto simp: sys_read_keyboard_loop_def bind_eq_Some_conv)
  have q: "call_effect T (Ret 0) s (s\<lparr>remaining_to_read := sint m\<rparr>)" by (rule effect_quiet) simp
  show ?thesis unfolding s1(2,3)
    by (rule effect_trans [OF q block_effect [OF s1(1)]]) (use True assms(2,3) in simp)
next
  case False
  then show ?thesis using assms(1) by (auto simp: sys_read_keyboard_loop_def intro: effect_quiet)
qed

lemma read_then_loop_effect:
  assumes run: "do { (k, s) \<leftarrow> read_from_keyboard_buffer (b + (n - m)) m s; sys_read_keyboard_loop b (m - k) n s } = Some (r, s')"
    and ok: "user_frames s" "user_range b n" "0 <=s m" "m <=s n" and T: "T \<subseteq> {..<NR_TASKS}"
  shows "call_effect T r s s'"
proof -
  obtain k s1 where s1: "read_from_keyboard_buffer (b + (n - m)) m s = Some (k, s1)" "sys_read_keyboard_loop b (m - k) n s1 = Some (r, s')"
    using run by (auto simp: bind_eq_Some_conv)
  note e = read_effect [OF s1(1) ok T, of "Ret 0"]
  show ?thesis by (rule effect_trans [OF conjunct1 [OF e] read_keyboard_loop_effect [OF s1(2) ok(2)]]) (use e in blast)
qed

lemma read_first_effect:
  assumes run: "sys_read_keyboard_first b n s = Some (r, s')" and ok: "user_frames s" "user_range b n" "\<not> n <s 0"
    and T: "T \<subseteq> {..<NR_TASKS}"
  shows "call_effect T r s s'"
  by (rule read_then_loop_effect [OF _ ok(1,2) _ _ T, of n])
    (use run ok(3) in \<open>simp_all add: sys_read_keyboard_first_def not_less word_sle_eq word_sless_alt\<close>)

lemma read_more_effect:
  assumes run: "sys_read_keyboard_more b m n s = Some (r, s')" and ok: "user_frames s" "place_ok (Read_more b m n)"
    and T: "T \<subseteq> {..<NR_TASKS}"
  shows "call_effect T r s s'"
  by (rule read_then_loop_effect [OF _ ok(1) _ _ _ T, of _ _ m])
    (use run ok(2) in \<open>auto simp: sys_read_keyboard_more_def word_sle_eq word_sless_alt\<close>)

lemma sys_read_effect:
  assumes run: "sys_read fd b n s = Some (r, s')" and ok: "user_frames s" "heap_fits (heap_top (tasks s (current s)))"
    and T: "T \<subseteq> {..<NR_TASKS}"
  shows "call_effect T r s s'"
proof (cases "check_fd fd READ_OPERATION <s 0 \<or> b = 0 \<or> n <s 0 \<or> \<not> access_ok VERIFY_WRITE b n s")
  case True
  then have "s' = s" using run by (auto simp: sys_read_def Let_def split: if_splits)
  then show ?thesis by (simp add: effect_quiet)
next
  case False
  then have run': "sys_read_keyboard b n s = Some (r, s')" and n: "\<not> n <s 0" and acc: "access_ok VERIFY_WRITE b n s"
    using run by (auto simp: sys_read_def Let_def)
  have range: "user_range b n" by (rule access_ok_range [OF acc n ok(2)])
  show ?thesis
  proof (cases "list_empty Keyboard_queue (links s)")
    case True
    then show ?thesis using run' read_first_effect [OF _ ok(1) range n T] by (simp add: sys_read_keyboard_def)
  next
    case False
    then have "block_in_read (Read_first b n) False s = Some s'" "r = Switched"
      using run' by (auto simp: sys_read_keyboard_def bind_eq_Some_conv)
    then show ?thesis using block_effect range n by simp
  qed
qed

lemma get_stats_from_kept:
  assumes "get_stats_from i n pid p s = Some (r, s')" "user_frames s" "user_range p 28" "T \<subseteq> {..<NR_TASKS}"
  shows "call_effect T (Ret r) s s'"
  using assms(1)
proof (induction n arbitrary: i)
  case 0
  then show ?case by (simp add: effect_quiet)
next
  case (Suc n)
  consider "PID (tasks s i) \<noteq> pid" | "PID (tasks s i) = pid" "state (tasks s i) = ST_INVALID"
    | "PID (tasks s i) = pid" "state (tasks s i) \<noteq> ST_INVALID" by blast
  then show ?case
  proof cases
    case 1
    then show ?thesis using Suc by simp
  next
    case 2
    then show ?thesis using Suc.prems by (simp add: effect_quiet)
  next
    case 3
    then obtain s1 where s1: "(if state (tasks s i) = ST_READY \<or> state (tasks s i) = ST_BLOCKED then update_stats i REFRESH s else Some s) = Some s1"
        "write_bytes write_byte s1 p (stats_bytes (st (tasks s1 i))) = Some s'"
      using Suc.prems by (auto simp: bind_eq_Some_conv)
    have q: "quiet s s1" "user_frames s1"
    proof -
      show "quiet s s1" using s1(1) quiet_stats by (auto split: if_splits)
      have "s1 = s \<or> only_stats i s s1" using s1(1) update_stats_only by (auto split: if_splits)
      moreover have "only_stats i s s1 \<Longrightarrow> mem_ok s1"
        using mem_ok_cong [of s s1] assms(2) by (auto simp: user_frames_def only_stats_fields)
      moreover have "only_stats i s s1 \<Longrightarrow> user_frames s1"
        using assms(2) calculation(2) by (auto simp: user_frames_def only_stats_fields)
      ultimately show "user_frames s1" using assms(2) by blast
    qed
    have l: "length (stats_bytes x) = 28" for x by (simp add: stats_bytes_def dword_bytes_def)
    have k: "kept T s1 s'"
      by (rule kept_writes [OF s1(2) q(2) user_range_above [OF assms(3)] assms(4)]) (simp add: l)
    obtain m where m: "s' = s1\<lparr>pmem := m\<rparr>" using write_bytes_frame [OF s1(2)] by blast
    have "call_effect T (Ret r) s1 s'" using k tss_ok_cong [of s' s1] by (simp add: call_effect_def moves_def m)
    with effect_quiet [OF q(1)] show ?thesis by (rule effect_trans)
  qed
qed

lemma get_stats_effect:
  assumes run: "sys_get_stats pid p s = Some (r, s')" and ok: "user_frames s" "heap_fits (heap_top (tasks s (current s)))"
    and T: "T \<subseteq> {..<NR_TASKS}"
  shows "call_effect T (Ret r) s s'"
proof (cases "pid <s 0 \<or> p = 0 \<or> \<not> access_ok VERIFY_WRITE p 28 s")
  case True
  then have "s' = s" using run by (auto simp: sys_get_stats_def split: if_splits)
  then show ?thesis by (simp add: effect_quiet)
next
  case False
  then have run': "get_stats_from 0 NR_TASKS pid p s = Some (r, s')" and acc: "access_ok VERIFY_WRITE p 28 s"
    using run by (auto simp: sys_get_stats_def)
  have "user_range p 28" by (rule access_ok_range [OF acc _ ok(2)]) (simp add: word_sless_alt)
  then show ?thesis by (rule get_stats_from_kept [OF run' ok(1) _ T])
qed

section \<open>The heap\<close>

lemma quiet_alloc: "alloc_frame s = (r, s') \<Longrightarrow> quiet s s'"
proof (cases "r = -1")
  case True
  assume "alloc_frame s = (r, s')"
  with True show ?thesis using alloc_frame_fail by simp
next
  case False
  assume "alloc_frame s = (r, s')"
  with alloc_frame_ok [OF this False] show ?thesis by auto
qed

lemma quiet_free_all: "free_all free_frame fs s = Some s' \<Longrightarrow> quiet s s'"
proof (induction fs arbitrary: s)
  case (Cons f fs)
  then obtain s1 where "free_frame f s = Some s1" "free_all free_frame fs s1 = Some s'" by (auto simp: bind_eq_Some_conv)
  then show ?case using Cons.IH quiet_free_frame quiet_trans by blast
qed simp

lemma quiet_reserve: "reserve_frames alloc_frame free_frame n fs s = Some (r, s') \<Longrightarrow> quiet s s'"
proof (induction n arbitrary: fs s)
  case (Suc n)
  obtain x s1 where x: "alloc_frame s = (x, s1)" by fastforce
  with Suc show ?case using quiet_alloc [OF x] quiet_free_all quiet_trans
    by (fastforce simp: bind_eq_Some_conv split: if_splits)
qed simp

lemma quiet_map_heap: "map_heap_pages pt pag fs s = Some s' \<Longrightarrow> quiet s s'"
proof (induction fs arbitrary: pag s)
  case (Cons f fs)
  then obtain pg s1 where "set_ss_pag pt pg f s = Some s1" "map_heap_pages pt (Suc pag) fs s1 = Some s'"
    by (auto simp: bind_eq_Some_conv)
  then show ?case using Cons.IH quiet_set_ss_pag quiet_trans by blast
qed simp

lemma quiet_unmap_heap: "unmap_heap_pages pt pag n s = Some s' \<Longrightarrow> quiet s s'"
  unfolding unmap_heap_pages_def
proof (erule quiet_for_range)
  fix i :: nat and s s' :: kstate
  assume "do { page \<leftarrow> heap_page (pag + i); frame \<leftarrow> get_frame pt page s; s \<leftarrow> free_frame frame s; del_ss_pag pt page s } = Some s'"
  then obtain f g s1 where "free_frame f s = Some s1" "del_ss_pag pt g s1 = Some s'" by (auto simp: bind_eq_Some_conv)
  then show "quiet s s'" using quiet_free_frame quiet_upd_pte quiet_trans unfolding del_ss_pag_def by blast
qed

lemma sbrk_effect: "sys_sbrk x s = Some (r, s') \<Longrightarrow> quiet s s'"
proof -
  assume "sys_sbrk x s = Some (r, s')"
  then consider "s' = s"
    | n s1 y where "reserve_frames alloc_frame free_frame n [] s = Some (y, s1)" "s' = s1"
    | n s1 fs pt pag s2 h where "reserve_frames alloc_frame free_frame n [] s = Some (Some fs, s1)"
        "map_heap_pages pt pag fs s1 = Some s2" "s' = upd_task (current s2) (\<lambda>k. k\<lparr>heap_top := h\<rparr>) s2"
    | pt pag n s1 h where "unmap_heap_pages pt pag n s = Some s1"
        "s' = upd_task (current (set_cr3 (get_DIR s1 (current s1)) s1)) (\<lambda>k. k\<lparr>heap_top := h\<rparr>) (set_cr3 (get_DIR s1 (current s1)) s1)"
    by (auto simp: sys_sbrk_def Let_def bind_eq_Some_conv split: if_splits option.splits)
  then show ?thesis
  proof cases
    case 2
    then show ?thesis using quiet_reserve by simp
  next
    case 3
    then show ?thesis using quiet_trans [OF quiet_reserve [OF 3(1)] quiet_map_heap [OF 3(2)]] by simp
  next
    case 4
    then show ?thesis using quiet_unmap_heap [OF 4(1)] by simp
  qed simp
qed

section \<open>Children\<close>

lemma quiet_allocate: "allocate_process d s = Some (r, s') \<Longrightarrow> quiet s s'"
  by (auto simp: allocate_process_def allocate_DIR_def reuse_DIR_def upd_dir_count_def bind_eq_Some_conv on_links_Some Let_def
      split: option.splits if_splits)

lemma copy_stack_tss: "copy_process_stack t s = Some (p, s') \<Longrightarrow> tss_esp0 s' = tss_esp0 s"
  using copy_data_frame by (fastforce simp: copy_process_stack_def get_ebp_def Let_def bind_eq_Some_conv)

lemma write_dword_tss: "write_dword s a w = Some s' \<Longrightarrow> tss_esp0 s' = tss_esp0 s"
  unfolding write_dword_def using write_bytes_frame by fastforce

lemma quiet_share_user_pages: "share_user_pages t s = Some s' \<Longrightarrow> quiet s s'"
proof -
  assume "share_user_pages t s = Some s'"
  then obtain a b s1 s2 where s:
      "for_range 0 NUM_PAG_CODE (\<lambda>i s. share_code_page b a (PAG_LOG_INIT_CODE + i) s) s = Some s1"
      "for_range 0 NUM_PAG_DATA (\<lambda>i s. share_cow_page a b (PAG_LOG_INIT_DATA + i) s) s1 = Some s2"
      "for_range 0 (nat (get_heap_page_size (heap_top (tasks s2 (current s2)))))
         (\<lambda>i s. do { page \<leftarrow> heap_page i; share_cow_page a b page s }) s2 = Some s'"
    by (auto simp: share_user_pages_def bind_eq_Some_conv)
  have "quiet s s1" by (rule quiet_for_range [OF s(1)]) (auto simp: share_code_page_def bind_eq_Some_conv intro: quiet_upd_pte)
  moreover have "quiet s1 s2" by (rule quiet_for_range [OF s(2)]) (rule quiet_share)
  moreover have "quiet s2 s'" by (rule quiet_for_range [OF s(3)]) (auto simp: bind_eq_Some_conv intro: quiet_share)
  ultimately show ?thesis using quiet_trans by blast
qed

lemma quiet_tss: "quiet s s' \<Longrightarrow> tss_esp0 s' = tss_esp0 s"
  by (simp add: quiet_def)

lemma fork_tss: "sys_fork s = Some (r, s') \<Longrightarrow> tss_esp0 s' = tss_esp0 s"
  by (auto simp: sys_fork_def bind_eq_Some_conv upd_task_def set_cr3_def split: option.splits
      dest!: quiet_tss [OF quiet_allocate] quiet_tss [OF quiet_share_user_pages] quiet_tss [OF quiet_add_process]
        copy_stack_tss write_dword_tss)

lemma clone_tss: "sys_clone fn stack ex s = Some (r, s') \<Longrightarrow> tss_esp0 s' = tss_esp0 s"
  by (auto simp: sys_clone_def bind_eq_Some_conv upd_task_def split: option.splits if_splits
      dest!: quiet_tss [OF quiet_allocate] quiet_tss [OF quiet_add_process] copy_stack_tss write_dword_tss)

lemma fork_effect:
  assumes safe: "ksafe s v" and user: "idle_task s \<noteq> Some (current s)" and run: "sys_fork s = Some (r, s')"
    and T: "T \<subseteq> {..<NR_TASKS} - set (v_free v)"
  shows "call_effect T (Ret r) s s'"
proof (cases "v_free v")
  case Nil
  then have "s' = s" using sys_fork_none [of s v] safe run by (simp add: ksafe_def)
  then show ?thesis by (simp add: effect_quiet)
next
  case (Cons t ts)
  have inv: "kinv s v" "mem_ok s" using safe by (simp_all add: ksafe_def)
  have t: "t < NR_TASKS" using inv(1) Cons free_head(1) by (auto elim!: kinvE)
  obtain s1 where f: "sys_fork s = Some (last_PID s, s1)" "ctrl_frame (s\<lparr>kpc := (kpc s)(t := Fork_child)\<rparr>) s1" "t \<noteq> current s"
      "stack_copied s t (current s) (father_pos s) (ret_from_fork_addr s) (pmem s1)" "tasks_addr s1 = tasks_addr s"
    by (rule sys_fork_ok [OF inv user Cons]) blast
  have s': "s' = s1" using f(1) run by simp
  have "kept T s s'"
    unfolding kept_def
  proof (intro conjI ballI allI impI)
    fix u n :: nat
    assume u: "u \<in> T" "n < 4096"
    then have "\<forall>m<4096. (of_nat (stack_pa s u n) :: dword) \<noteq> of_nat (stack_pa s t m)"
      using stack_pa_eq [OF ksafe_stacks [OF safe], of u t n] T Cons t by auto
    then show "pmem s' (of_nat (stack_pa s u n)) = pmem s (of_nat (stack_pa s u n))"
      using f(4) by (simp add: stack_copied_def s')
  qed (use f(5) s' in simp)
  then show ?thesis using f(2,3,5) tss_ok_cong [of s' s] fork_tss [OF run] by (simp add: call_effect_def moves_def s' ctrl_frame_def)
qed

lemma stack_argument:
  assumes "access_ok VERIFY_WRITE stack 4 s" "heap_fits (heap_top (tasks s (current s)))" "i < 4"
  shows "above_stacks (stack - 4 + of_nat i)"
proof -
  have "user_range stack 4" by (rule access_ok_range [OF assms(1) _ assms(2)]) (simp add: word_sless_alt)
  then have lo: "0x100000 \<le> unat stack" by (simp add: user_range_def)
  have "unat (stack - 4) = unat stack - 4" by (rule unat_sub [of 4 stack, simplified]) (use lo in \<open>simp add: word_le_nat_alt\<close>)
  moreover have "unat (of_nat i :: dword) = i" by (rule sint_of_nat_small(2)) (use assms(3) in simp)
  ultimately have "unat (stack - 4 + of_nat i) = unat stack - 4 + i"
    using lo assms(3) unat_lt_32 [of stack] by (simp add: unat_word_ariths)
  then show ?thesis using lo by (simp add: above_stacks_def)
qed

lemma clone_effect:
  assumes safe: "ksafe s v" and user: "idle_task s \<noteq> Some (current s)" and run: "sys_clone fn stack ex s = Some (r, s')"
    and T: "T \<subseteq> {..<NR_TASKS} - set (v_free v)"
  shows "call_effect T (Ret r) s s'"
proof (cases "access_ok VERIFY_WRITE fn 4 s \<and> access_ok VERIFY_WRITE stack 4 s \<and> v_free v \<noteq> []")
  case False
  then have "s' = s" using sys_clone_errors [where s = s and fn = fn and stack = stack and exit_func = ex] run safe
    by (auto simp: ksafe_def)
  then show ?thesis by (simp add: effect_quiet)
next
  case True
  then obtain t ts where free: "v_free v = t # ts" and acc: "access_ok VERIFY_WRITE fn 4 s" "access_ok VERIFY_WRITE stack 4 s"
    by (cases "v_free v") auto
  have inv: "kinv s v" "mem_ok s" using safe by (simp_all add: ksafe_def)
  have t: "t < NR_TASKS" using inv(1) free free_head(1) by (auto elim!: kinvE)
  have heap: "heap_fits (heap_top (tasks s (current s)))" by (rule current_space [OF inv])
  show ?thesis
  proof (cases rule: sys_clone_cases [OF inv user free acc, of ex])
    case (1 s1)
    have s': "s' = s1" using 1(2) run by simp
    have "kept T s s'"
      unfolding kept_def
    proof (intro conjI ballI allI impI)
      fix u n :: nat
      assume u: "u \<in> T" "n < 4096"
      then have "u < NR_TASKS" using T by auto
      then have "\<forall>i<4. translate s (stack - 4 + of_nat i) \<noteq> Some (of_nat (stack_pa s u n))"
        using high_not_stack [OF ksafe_user_frames [OF safe] stack_argument [OF acc(2) heap]] u(2) by blast
      moreover have "\<forall>m<4096. (of_nat (stack_pa s u n) :: dword) \<noteq> of_nat (stack_pa s t m)"
        using stack_pa_eq [OF ksafe_stacks [OF safe], of u t n] u T free t by auto
      ultimately show "pmem s' (of_nat (stack_pa s u n)) = pmem s (of_nat (stack_pa s u n))"
        using 1 by (simp add: thread_copied_def s')
    qed (use 1 s' in simp)
    then show ?thesis using 1 tss_ok_cong [of s' s] clone_tss [OF run] by (simp add: call_effect_def moves_def s' ctrl_frame_def)
  next
    case (2 j)
    then show ?thesis using run by simp
  qed
qed

section \<open>Every system call\<close>

lemma table_effect:
  assumes safe: "ksafe s v" and user: "idle_task s \<noteq> Some (current s)"
    and run: "sys_call_table n a b c loc s = Some (r, s')" and T: "T \<subseteq> {..<NR_TASKS} - set (v_free v)"
  shows "call_effect T r s s'"
proof -
  have T': "T \<subseteq> {..<NR_TASKS}" using T by auto
  have inv: "kinv s v" "mem_ok s" using safe by (simp_all add: ksafe_def)
  have heap: "heap_fits (heap_top (tasks s (current s)))" by (rule current_space [OF inv])
  note uf = ksafe_user_frames [OF safe]
  consider "sys_exit s = Some s'" "r = Switched" | x where "sys_fork s = Some (x, s')" "r = Ret x"
    | x where "sys_write a b c loc s = Some (x, s')" | "sys_read a b c s = Some (r, s')"
    | x where "sys_clone a b c s = Some (x, s')" "r = Ret x" | x where "sys_sem_init a b s = Some (x, s')"
    | "sys_sem_wait a s = Some (r, s')" | x where "sys_sem_signal a s = Some (x, s')"
    | x where "sys_sem_destroy a s = Some (x, s')" | x where "sys_sbrk a s = Some (x, s')"
    | x where "sys_get_stats a b s = Some (x, s')" "r = Ret x" | "s' = s"
    using run by (auto simp: sys_call_table_def returning_def split: if_splits)
  then show ?thesis
  proof cases
    case 1
    then show ?thesis using effect_switched [OF exit_effect] by simp
  next
    case 2
    then show ?thesis using fork_effect [OF safe user _ T] by simp
  next
    case 3
    then show ?thesis by (intro effect_quiet quiet_console sys_write_only)
  next
    case 4
    then show ?thesis by (rule sys_read_effect [OF _ uf heap T'])
  next
    case 5
    then show ?thesis using clone_effect [OF safe user _ T] by simp
  next
    case 6
    then show ?thesis by (intro effect_quiet sem_init_effect)
  next
    case 7
    then show ?thesis using sem_wait_effect [OF 7] effect_switched effect_quiet by (auto split: if_splits)
  next
    case 8
    then show ?thesis by (intro effect_quiet sem_signal_effect)
  next
    case 9
    then show ?thesis by (intro effect_quiet sem_destroy_effect)
  next
    case 10
    then show ?thesis by (intro effect_quiet sbrk_effect)
  next
    case 11
    then show ?thesis using get_stats_effect [OF _ uf heap T'] by simp
  next
    case 12
    then show ?thesis by (simp add: effect_quiet)
  qed
qed

end
