(* ===== verification/Isolation.thy ===== *)
theory Isolation
  imports Call_Effects
begin

text \<open>
  The kernel stacks of the tasks are isolated: no step of the kernel writes to the stack of a task in use,
  and the stack in the task state segment stays that of the current task.
\<close>

section \<open>The page fault and stores of the program\<close>

lemma read_bytes_length: "read_bytes rd s a n = Some bs \<Longrightarrow> length bs = n"
  by (induction n arbitrary: a bs) (auto simp: bind_eq_Some_conv)

lemma kept_copy_single:
  assumes "copy_single read_byte write_byte p q sz s = Some s'" "user_frames s" "\<And>i. i < nat sz \<Longrightarrow> above_stacks (q + of_nat i)"
    "T \<subseteq> {..<NR_TASKS}"
  shows "kept T s s'"
  using assms(1-3)
proof (induction "nat sz" arbitrary: p q sz s rule: less_induct)
  case less
  show ?case
  proof (cases "sz > 0")
    case False
    then show ?thesis using less.prems(1) by (simp add: copy_single_stop)
  next
    case True
    with less.prems(1) obtain b s1 where s1: "write_byte s q b = Some s1"
        "copy_single read_byte write_byte (p + 1) (q + 1) (sz - 1) s1 = Some s'"
      by (auto simp: copy_single_step bind_eq_Some_conv)
    have k: "kept T s s1" by (rule kept_write_byte [OF less.prems(2) _ s1(1) assms(4)]) (use less.prems(3) [of 0] True in simp)
    have u: "user_frames s1" using write_byte_frame [OF s1(1)] less.prems(2) by auto
    have "kept T s1 s'"
      by (rule less.hyps [OF _ s1(2) u]) (use True less.prems(3) [of "Suc _"] in \<open>auto simp: algebra_simps\<close>)
    with k show ?thesis by (rule kept_trans)
  qed
qed

lemma kept_copy_dwords:
  assumes "copy_dwords read_byte write_byte p q sz s = Some (p', q', left, s')" "user_frames s"
    "\<And>i. i < nat sz \<Longrightarrow> above_stacks (q + of_nat i)" "T \<subseteq> {..<NR_TASKS}"
  shows "kept T s s' \<and> user_frames s' \<and> (\<forall>i < nat left. above_stacks (q' + of_nat i))"
  using assms(1-3)
proof (induction "nat sz" arbitrary: p q sz s rule: less_induct)
  case less
  show ?case
  proof (cases "sz > 4")
    case False
    then show ?thesis using less.prems by (simp add: copy_dwords_stop)
  next
    case True
    with less.prems(1) obtain bs s1 where s1: "read_bytes read_byte s p 4 = Some bs" "write_bytes write_byte s q bs = Some s1"
        "copy_dwords read_byte write_byte (p + 4) (q + 4) (sz - 4) s1 = Some (p', q', left, s')"
      by (auto simp: copy_dwords_step bind_eq_Some_conv)
    have l: "length bs = 4" using read_bytes_length [OF s1(1)] by simp
    have k: "kept T s s1" by (rule kept_writes [OF s1(2) less.prems(2) _ assms(4)]) (use less.prems(3) True l in auto)
    have "user_frames s1" using write_bytes_frame [OF s1(2)] less.prems(2) by auto
    moreover have "above_stacks (q + 4 + of_nat i)" if "i < nat (sz - 4)" for i
      using less.prems(3) [of "i + 4"] that True by (simp add: algebra_simps)
    ultimately have "kept T s1 s' \<and> user_frames s' \<and> (\<forall>i < nat left. above_stacks (q' + of_nat i))"
      using less.hyps [OF _ s1(3)] True by auto
    with k kept_trans show ?thesis by blast
  qed
qed

lemma kept_copy_data:
  assumes "copy_data p q n s = Some s'" "user_frames s" "\<And>i. i < nat n \<Longrightarrow> above_stacks (q + of_nat i)" "T \<subseteq> {..<NR_TASKS}"
  shows "kept T s s'"
proof -
  obtain p1 q1 n1 s1 where s1: "copy_dwords read_byte write_byte p q n s = Some (p1, q1, n1, s1)"
      "copy_single read_byte write_byte p1 q1 n1 s1 = Some s'"
    using assms(1) by (auto simp: copy_data_def copy_loop_def bind_eq_Some_conv)
  note k = kept_copy_dwords [OF s1(1) assms(2-4)]
  have "kept T s1 s'" by (rule kept_copy_single [OF s1(2) _ _ assms(4)]) (use k in auto)
  with k kept_trans show ?thesis by blast
qed

lemma kept_copy_frame:
  assumes mem: "mem_ok s" and fr: "frames_ok s" and d: "cr3 s = Some (d * TOTAL_PAGES)" "d < NR_TASKS"
    and g: "g \<in> frame_pool" and run: "copy_frame d page g s = Some s'" and T: "T \<subseteq> {..<NR_TASKS}"
  shows "kept T s s'"
proof -
  let ?s = "s\<lparr>pagusr_table := (pagusr_table s)(d := (pagusr_table s d)(SPARE_PAGE := user_pte g True))\<rparr>"
  have g1: "g < TOTAL_PAGES" using g by (simp add: frame_pool_def)
  obtain s1 where s1: "copy_data (of_nat (page * PAGE_SIZE)) (of_nat (SPARE_PAGE * PAGE_SIZE)) (int PAGE_SIZE) ?s = Some s1"
      "do { s2 \<leftarrow> del_ss_pag d SPARE_PAGE s1; Some (set_cr3 (get_DIR s2 (current s2)) s2) } = Some s'"
    using run d(2) by (auto simp: copy_frame_def set_ss_pag_ok bind_eq_Some_conv)
  have p: "ptes_ok (pagusr_table s)" using mem by (simp add: mem_ok_def)
  have mem1: "mem_ok ?s"
    by (rule mem_ok_tables [OF mem])
      (use p g1 mem in \<open>auto simp: ptes_ok_def mem_ok_def spaces_ok_def unsigned_take_bit_eq unsigned_of_nat take_bit_nat_eq_self\<close>)
  have u: "user_frames ?s"
    using mem1 d frames_okD(2) [OF fr d(2)] user_pte_frame [OF g1, of True] g
    by (auto simp: user_frames_def simp del: user_pte_bits(4))
  have a: "above_stacks (of_nat (SPARE_PAGE * PAGE_SIZE) + of_nat i)" if "i < 4096" for i
    using address_parts(5) [of SPARE_PAGE i] that by (simp add: above_stacks_def)
  have "kept T ?s s1" by (rule kept_copy_data [OF s1(1) u _ T]) (use a in simp)
  then have "kept T s s1" by (simp add: kept_def stack_pa_def)
  moreover have "quiet s1 s'" using s1(2) quiet_upd_pte [of d SPARE_PAGE] by (auto simp: bind_eq_Some_conv del_ss_pag_def)
  ultimately show ?thesis using kept_quiet kept_trans by blast
qed

lemma pf_effect:
  assumes safe: "ksafe s v" and run: "pf_rsi address s = Some s'" and T: "T \<subseteq> {..<NR_TASKS}"
  shows "call_effect T (Ret 0) s s'"
proof -
  have inv: "kinv s v" and mem: "mem_ok s" and fr: "frames_ok s" using safe by (simp_all add: ksafe_def protected_def)
  have acc: "access_ok VERIFY_WRITE address 1 s" using run by (auto simp: pf_rsi_def split: if_splits)
  obtain d where d: "dir_pages_baseAddr (tasks s (current s)) = Some (d * TOTAL_PAGES)" "d < NR_TASKS"
      "cr3 s = Some (d * TOTAL_PAGES)" "get_PT s (current s) = Some d" by (rule current_space [OF inv mem])
  define page where "page = unat (signed_drop_bit 12 address)"
  obtain f where f: "get_frame d page s = Some f" using run acc d(4) by (auto simp: pf_rsi_def page_def Let_def bind_eq_Some_conv)
  consider "set_ss_pag d page f (s\<lparr>cow_count_mem := (cow_count_mem s)(f := 0)\<rparr>) = Some s'"
    | r s1 s2 where "alloc_frame (s\<lparr>cow_count_mem := (cow_count_mem s)(f := cow_count_mem s f - 1)\<rparr>) = (r, s1)" "r \<noteq> -1"
        "2 \<le> cow_count_mem s f" "copy_frame d page (nat r) s1 = Some s2" "set_ss_pag d page (nat r) s2 = Some s'"
    using run acc d(4) f by (auto simp: pf_rsi_def page_def [symmetric] Let_def bind_eq_Some_conv split: if_splits prod.splits)
  then show ?thesis
  proof cases
    case 1
    show ?thesis by (rule effect_quiet) (use quiet_set_ss_pag [OF 1] in \<open>simp add: quiet_def\<close>)
  next
    case 2
    let ?s0 = "s\<lparr>cow_count_mem := (cow_count_mem s)(f := cow_count_mem s f - 1)\<rparr>"
    from alloc_frame_ok [OF 2(1,2)] obtain g where g: "r = int g" "g \<in> frame_pool"
        "s1 = ?s0\<lparr>phys_mem := (phys_mem ?s0)(g := USED_FRAME), cow_count_mem := (cow_count_mem ?s0)(g := 0)\<rparr>"
      by blast
    have mem1: "mem_ok s1" by (rule mem_ok_cong [OF mem]) (simp_all add: g(3))
    have fr1: "frames_ok s1" using fr 2(3) by (auto simp: g(3) frames_ok_def)
    have k: "kept T s1 s2" by (rule kept_copy_frame [OF mem1 fr1 _ d(2) g(2) _ T]) (use 2(4) d(3) g in simp_all)
    obtain m where m: "s2 = s1\<lparr>pmem := m, pagusr_table := (pagusr_table s1)(d := (pagusr_table s1 d)(SPARE_PAGE := 0))\<rparr>"
      using copy_frame_shape [OF 2(4) d(2)] d(1,3) by (auto simp: g(3) get_DIR_def)
    have q: "quiet s s1" "quiet s2 s'" using quiet_set_ss_pag [OF 2(5)] by (simp_all add: g(3))
    have "call_effect T (Ret 0) s1 s2" using k tss_ok_cong [of s2 s1] by (simp add: call_effect_def moves_def m)
    from effect_trans [OF effect_trans [OF effect_quiet [OF q(1)] this] effect_quiet [OF q(2)]] show ?thesis .
  qed
qed

lemma store_effect:
  assumes safe: "ksafe s v" and run: "user_write s a b = Some s'" and T: "T \<subseteq> {..<NR_TASKS}"
  shows "call_effect T (Ret 0) s s'"
proof -
  have w: "user_allowed s True a" "write_byte s a b = Some s'" using run by (auto simp: user_write_def split: if_splits)
  obtain pg off where a: "a = of_nat (pg * PAGE_SIZE + off)" "NUM_PAG_KERNEL \<le> pg" "pg < TOTAL_PAGES" "off < PAGE_SIZE"
    by (rule user_access [OF safe w(1)])
  have "above_stacks a" using address_parts(5) [OF a(3,4)] a(2) by (simp add: above_stacks_def a(1))
  then have "kept T s s'" by (rule kept_write_byte [OF ksafe_user_frames [OF safe] _ w(2) T])
  moreover obtain m where "s' = s\<lparr>pmem := m\<rparr>" using write_byte_frame [OF w(2)] by blast
  ultimately show ?thesis using tss_ok_cong [of s' s] by (simp add: call_effect_def moves_def)
qed

section \<open>Every step\<close>

definition step_effect :: "nat set \<Rightarrow> kstate \<Rightarrow> kstate \<Rightarrow> bool" where
  "step_effect T s s' \<longleftrightarrow> kept T s s' \<and> moves s s' \<and> (tss_ok s \<longrightarrow> tss_ok s')"

lemma step_effect_trans: "step_effect T s s1 \<Longrightarrow> step_effect T s1 s2 \<Longrightarrow> step_effect T s s2"
  unfolding step_effect_def using kept_trans moves_trans by blast

lemma call_step: "call_effect T r s s' \<Longrightarrow> step_effect T s s'"
  by (simp add: call_effect_def step_effect_def)

lemma quiet_step: "quiet s s' \<Longrightarrow> step_effect T s s'"
  by (rule call_step [OF effect_quiet])

lemma leave_effect: "leave_call x s = Some (r, s') \<Longrightarrow> quiet s s'"
  using quiet_stats by (auto simp: leave_call_def update_leaving_sys_def bind_eq_Some_conv split: sysret.splits)

lemma finish_effect:
  assumes "finish_call x = Some (r, s')" "\<And>y s2. x = Some (y, s2) \<Longrightarrow> step_effect T s s2"
  shows "step_effect T s s'"
proof -
  obtain y s2 z where "x = Some (y, s2)" "leave_call y s2 = Some (z, s')"
    using assms(1) by (auto simp: finish_call_def bind_eq_Some_conv)
  with assms(2) show ?thesis using leave_effect quiet_step step_effect_trans by blast
qed

lemma irq_effect:
  assumes run: "irq_handler f s = Some s'" and routine: "\<And>s s'. f s = Some s' \<Longrightarrow> quiet s s' \<or> switched Irq_exit s s'"
  shows "step_effect T s s'"
proof -
  obtain s1 s2 where s1: "update_entering_sys s = Some s1" "f s1 = Some s2" "s' = s2 \<or> update_leaving_sys s2 = Some s'"
    using run by (auto simp: irq_handler_def bind_eq_Some_conv split: if_splits)
  have "step_effect T s s1" using s1(1) quiet_stats quiet_step by (simp add: update_entering_sys_def)
  moreover have "step_effect T s1 s2" using routine [OF s1(2)] quiet_step call_step [OF effect_switched] by auto
  moreover have "step_effect T s2 s'" using s1(3) quiet_stats quiet_step by (auto simp: update_leaving_sys_def)
  ultimately show ?thesis using step_effect_trans by blast
qed

lemma resume_effect:
  assumes safe: "ksafe s v" and place: "place_ok (kpc s (current s))" and run: "resume s = Some (r, s')" and T: "T \<subseteq> {..<NR_TASKS}"
  shows "step_effect T s s'"
proof -
  let ?s1 = "s\<lparr>kpc := (kpc s)(current s := running s (current s))\<rparr>"
  have uf: "user_frames ?s1" by (rule ksafe_user_frames [OF ksafe_resume_point [OF safe]])
  have first: "step_effect T s ?s1"
    using tss_ok_cong [of ?s1 s] by (simp add: step_effect_def kept_def moves_def running_def)
  have "step_effect T ?s1 s'"
  proof (cases "kpc s (current s)")
    case Irq_exit
    then have "update_leaving_sys ?s1 = Some s'" using run by (auto simp: resume_def Let_def bind_eq_Some_conv)
    then show ?thesis using quiet_step quiet_stats by (simp add: update_leaving_sys_def)
  next
    case Fork_child
    then have "finish_call (Some (Ret 0, ?s1)) = Some (r, s')" using run by (simp add: resume_def Let_def)
    then show ?thesis by (rule finish_effect) (use quiet_step in auto)
  next
    case Clone_child
    then have "update_leaving_sys ?s1 = Some s'" using run by (auto simp: resume_def Let_def bind_eq_Some_conv)
    then show ?thesis using quiet_step quiet_stats by (simp add: update_leaving_sys_def)
  next
    case Sem_wait_exit
    obtain x s2 where s2: "sem_wait_exit ?s1 = (x, s2)" by fastforce
    with Sem_wait_exit run have "finish_call (Some (Ret x, s2)) = Some (r, s')" by (simp add: resume_def Let_def)
    then show ?thesis by (rule finish_effect) (use quiet_step [OF sem_wait_exit_effect [OF s2]] in simp)
  next
    case (Read_first b n)
    with run have fc: "finish_call (sys_read_keyboard_first b n ?s1) = Some (r, s')" by (simp add: resume_def Let_def)
    have ok: "user_range b n" "\<not> n <s 0" using place Read_first by simp_all
    show ?thesis by (rule finish_effect [OF fc]) (rule call_step [OF read_first_effect [OF _ uf ok T]])
  next
    case (Read_more b m n)
    with run have fc: "finish_call (sys_read_keyboard_more b m n ?s1) = Some (r, s')" by (simp add: resume_def Let_def)
    have ok: "place_ok (Read_more b m n)" using place Read_more by simp
    show ?thesis by (rule finish_effect [OF fc]) (rule call_step [OF read_more_effect [OF _ uf ok T]])
  qed (use run in \<open>simp_all add: resume_def Let_def\<close>)
  with first show ?thesis by (rule step_effect_trans)
qed

lemma step_effect:
  assumes safe: "ksafe s v" and place: "place_ok (kpc s (current s))" and clk: "shows_clock f"
    and run: "kernel_step f e s = Some s'" and T: "T \<subseteq> {..<NR_TASKS} - set (v_free v)"
  shows "step_effect T s s'"
proof -
  have T': "T \<subseteq> {..<NR_TASKS}" using T by auto
  show ?thesis
  proof (cases e)
    case (Syscall eax ebx ecx edx loc)
    then obtain r where r: "kpc s (current s) = User_mode" "system_call_handler eax ebx ecx edx loc s = Some (r, s')"
      using run by (auto simp: kernel_step_def Let_def split: if_splits)
    show ?thesis
    proof (cases "eax <s 0 \<or> MAX_SYSCALL <=s eax")
      case True
      then show ?thesis using r(2) by (auto simp: system_call_handler_def intro: quiet_step)
    next
      case False
      then obtain s1 s2 x where s1: "update_stats (current s) USER_TO_SYS s = Some s1"
          "sys_call_table (unat eax) ebx ecx edx loc s1 = Some (x, s2)" "leave_call x s2 = Some (r, s')"
        using r(2) by (auto simp: system_call_handler_def update_entering_sys_def bind_eq_Some_conv)
      have "idle_task s1 \<noteq> Some (current s1)"
        using ksafe_user [OF safe r(1)] by (simp add: only_stats_fields [OF update_stats_only [OF s1(1)]])
      then have "step_effect T s1 s2" by (rule call_step [OF table_effect [OF ksafe_update_stats [OF safe s1(1)] _ s1(2) T]])
      then show ?thesis
        using quiet_step [OF quiet_stats [OF s1(1)]] quiet_step [OF leave_effect [OF s1(3)]] step_effect_trans by blast
    qed
  next
    case (Page_fault address)
    then have "pf_rsi address s = Some s'" using run by (auto simp: kernel_step_def pf_handler_def Let_def split: if_splits)
    then show ?thesis by (rule call_step [OF pf_effect [OF safe _ T']])
  next
    case (User_store address b)
    then have "user_write s address b = Some s'" using run by (auto simp: kernel_step_def Let_def split: if_splits)
    then show ?thesis by (rule call_step [OF store_effect [OF safe _ T']])
  next
    case Clock
    then have "irq_handler (clock_routine f) s = Some s'" using run by (auto simp: kernel_step_def clock_handler_def Let_def split: if_splits)
    then show ?thesis by (rule irq_effect) (rule clock_effect [OF _ clk])
  next
    case (Key b)
    then have "irq_handler (keyboard_routine b) s = Some s'" using run by (auto simp: kernel_step_def keyboard_handler_def Let_def split: if_splits)
    then show ?thesis by (rule irq_effect) (rule keyboard_effect)
  next
    case Continue
    then obtain r where "resume s = Some (r, s')" using run by (auto simp: kernel_step_def)
    then show ?thesis by (rule resume_effect [OF safe place _ T'])
  qed
qed

section \<open>Every reachable state\<close>

text \<open>Where each task continues, the arguments are those the kernel has checked.\<close>

definition places_ok :: "kstate \<Rightarrow> bool" where
  "places_ok s \<longleftrightarrow> (\<forall>t. place_ok (kpc s t))"

lemma quiet_bind:
  "Option.bind x g = Some s' \<Longrightarrow> (\<And>y. x = Some y \<Longrightarrow> quiet s y) \<Longrightarrow> (\<And>y. g y = Some s' \<Longrightarrow> quiet y s') \<Longrightarrow> quiet s s'"
  using quiet_trans by (auto simp: bind_eq_Some_conv)

lemma quiet_init_mm: "init_mm s = Some s' \<Longrightarrow> quiet s s'"
proof -
  assume "init_mm s = Some s'"
  then obtain s1 s2 s3 where s: "init_table_pages s = Some s1" "init_frames s1 = Some s2" "init_dir_pages s2 = Some s3"
      "s' = set_cr3 (Some 0) s3"
    by (auto simp: init_mm_def bind_eq_Some_conv)
  have zero: "quiet s y" if "for_range 0 TOTAL_PAGES (\<lambda>i s. upd_pte j i (\<lambda>_. 0) s) s = Some y" for j s y
    using that by (rule quiet_for_range) (rule quiet_upd_pte)
  have kernel: "quiet s y" if "for_range 1 (NUM_PAG_KERNEL - 1)
                      (\<lambda>i s. do { s \<leftarrow> upd_pte j i (set_pte_pbase_addr (of_nat i)) s;
                                  s \<leftarrow> upd_pte j i (set_pte_rw True) s;
                                  upd_pte j i (set_pte_present True) s }) s = Some y" for j s y
    using that by (rule quiet_for_range) (auto simp: bind_eq_Some_conv dest!: quiet_upd_pte intro: quiet_trans)
  have "quiet s s1" using s(1) unfolding init_table_pages_def
  proof (rule quiet_for_range)
    fix j s s'
    assume "do { s \<leftarrow> for_range 0 TOTAL_PAGES (\<lambda>i s. upd_pte j i (\<lambda>_. 0) s) s;
               s \<leftarrow> for_range 1 (NUM_PAG_KERNEL - 1)
                      (\<lambda>i s. do { s \<leftarrow> upd_pte j i (set_pte_pbase_addr (of_nat i)) s;
                                  s \<leftarrow> upd_pte j i (set_pte_rw True) s;
                                  upd_pte j i (set_pte_present True) s }) s;
               s \<leftarrow> upd_pte j (unat (drop_bit 12 (tasks_addr s - of_nat PAGE_SIZE)))
                      (set_pte_present False) s;
               upd_pte j (unat (drop_bit 12 (tasks_addr s + of_nat (10 * PAGE_SIZE))))
                      (set_pte_present False) s } = Some s'"
    then show "quiet s s'"
      by (rule quiet_bind) (erule zero kernel quiet_upd_pte quiet_bind)+
  qed
  moreover have "quiet s1 s2"
    using s(2) unfolding init_frames_def by (rule quiet_bind) (erule quiet_for_range, fastforce simp: quiet_def)+
  moreover have "quiet s2 s3"
  proof -
    obtain s4 where "on_links (INIT_LIST_HEAD Free_dirs) s2 = Some s4" and f: "for_range 0 NR_TASKS
            (\<lambda>i s.
               (let e = i * TOTAL_PAGES + ENTRY_DIR_PAGES;
                    s = upd_dir_entry e (\<lambda>_. 0) s;
                    s = upd_dir_entry e (set_pte_pbase_addr
                          (drop_bit 12 (pagusr_table_addr s + of_nat (i * PAGE_SIZE)))) s;
                    s = upd_dir_entry e (set_pte_user True) s;
                    s = upd_dir_entry e (set_pte_rw True) s;
                    s = upd_dir_entry e (set_pte_present True) s;
                    s = s\<lparr>dir_status := (dir_status s)(i := \<lparr>dir_count = 0, dir_pos = int i\<rparr>)\<rparr>
                in on_links (list_add (Dir_anchor i) Free_dirs) s)) s4 = Some s3"
      using s(3) by (auto simp: init_dir_pages_def bind_eq_Some_conv)
    have "quiet s4 s3"
      by (rule quiet_for_range [OF f]) (auto simp: Let_def upd_dir_entry_def quiet_def dest!: quiet_on_links)
    with quiet_on_links [OF \<open>on_links (INIT_LIST_HEAD Free_dirs) s2 = Some s4\<close>] show ?thesis by (rule quiet_trans)
  qed
  ultimately show ?thesis using s(4) quiet_trans by simp
qed

lemma quiet_init_sched: "init_sched s = Some s' \<Longrightarrow> quiet s s'"
proof -
  assume "init_sched s = Some s'"
  then obtain s1 s2 s3 where s: "on_links (INIT_LIST_HEAD Free_queue) (s\<lparr>current_ticks := 0, last_PID := 0\<rparr>) = Some s1"
      "on_links (INIT_LIST_HEAD Ready_queue) s1 = Some s2"
      "for_range 0 NR_TASKS (\<lambda>i s. update_process_state_rr i (Some Free_queue) s) s2 = Some s3"
      "for_range 0 NR_SEMAPHORES (\<lambda>i s. Some (upd_sem i (\<lambda>x. x\<lparr>used := 0, count := 0\<rparr>) s)) s3 = Some s'"
    by (auto simp: init_sched_def bind_eq_Some_conv)
  have "quiet (s\<lparr>current_ticks := 0, last_PID := 0\<rparr>) s1" "quiet s1 s2" using s(1,2) quiet_on_links by blast+
  moreover have "quiet s2 s3" by (rule quiet_for_range [OF s(3)]) (rule quiet_process_state_rr)
  moreover have "quiet s3 s'" by (rule quiet_for_range [OF s(4)]) auto
  ultimately show ?thesis by (simp add: quiet_def)
qed

lemma quiet_set_user_pages: "set_user_pages t s = Some s' \<Longrightarrow> quiet s s'"
proof -
  have four: "quiet s s'" if "alloc_frame s = (r, s1)" "upd_pte p i f s1 = Some s2" "upd_pte p i g s2 = Some s3"
      "upd_pte p i h s3 = Some s4" "upd_pte p i k s4 = Some s'" for p i f g h k r s s1 s2 s3 s4 s'
    using quiet_alloc [OF that(1)] that(2-)[THEN quiet_upd_pte] by (simp add: quiet_def)
  assume "set_user_pages t s = Some s'"
  then obtain pt s1 where s: "for_range 0 NUM_PAG_CODE
                 (\<lambda>pag s. (let (new_ph_pag, s) = alloc_frame s
                           in do { s \<leftarrow> upd_pte pt (PAG_LOG_INIT_CODE + pag) (\<lambda>_. 0) s;
                                   s \<leftarrow> upd_pte pt (PAG_LOG_INIT_CODE + pag)
                                          (set_pte_pbase_addr (of_int new_ph_pag)) s;
                                   s \<leftarrow> upd_pte pt (PAG_LOG_INIT_CODE + pag) (set_pte_user True) s;
                                   upd_pte pt (PAG_LOG_INIT_CODE + pag) (set_pte_present True) s })) s = Some s1"
          "for_range 0 NUM_PAG_DATA
                 (\<lambda>pag s. (let (new_ph_pag, s) = alloc_frame s
                           in do { s \<leftarrow> upd_pte pt (PAG_LOG_INIT_DATA + pag) (\<lambda>_. 0) s;
                                   s \<leftarrow> upd_pte pt (PAG_LOG_INIT_DATA + pag)
                                          (set_pte_pbase_addr (of_int new_ph_pag)) s;
                                   s \<leftarrow> upd_pte pt (PAG_LOG_INIT_DATA + pag) (set_pte_user True) s;
                                   s \<leftarrow> upd_pte pt (PAG_LOG_INIT_DATA + pag) (set_pte_rw True) s;
                                   upd_pte pt (PAG_LOG_INIT_DATA + pag) (set_pte_present True) s })) s1 = Some s'"
    by (auto simp: set_user_pages_def bind_eq_Some_conv)
  have "quiet s s1" by (rule quiet_for_range [OF s(1)]) (auto simp: Let_def bind_eq_Some_conv split: prod.splits intro: four)
  moreover have "quiet s1 s'"
    by (rule quiet_for_range [OF s(2)])
      (auto simp: Let_def bind_eq_Some_conv split: prod.splits intro: quiet_trans [OF four quiet_upd_pte])
  ultimately show ?thesis by (rule quiet_trans)
qed

lemma boot_places:
  assumes run: "boot s = Some s'" and z: "zeroed s"
  shows "places_ok s' \<and> tss_ok s'"
proof -
  obtain s1 s2 s3 s4 where s: "init_mm s = Some s1" "init_sched s1 = Some s2" "init_idle s2 = Some s3" "init_task1 s3 = Some s4"
      "init_keyboard s4 = Some s'"
    using run by (auto simp: boot_def bind_eq_Some_conv)
  have p2: "places_ok s2" using quiet_init_mm [OF s(1)] quiet_init_sched [OF s(2)] z by (simp add: quiet_def places_ok_def zeroed_def)
  have p3: "places_ok s3"
  proof -
    obtain r s5 t s6 a w f where i: "allocate_process None s2 = Some (r, s5)" "write_dword (s5\<lparr>idle_task := r\<rparr>) a w = Some s6"
        "kpc s3 = (kpc s6)(t := Idle_loop)"
      using s(3) by (auto simp: init_idle_def bind_eq_Some_conv upd_task_def)
    have "kpc s6 = kpc s2" using quiet_allocate [OF i(1)] i(2) write_bytes_frame unfolding write_dword_def quiet_def by fastforce
    with p2 i(3) show ?thesis by (simp add: places_ok_def)
  qed
  obtain t s5 s6 s7 where i: "allocate_process None s3 = Some (Some t, s5)" "set_user_pages t s5 = Some s6"
      "update_stats t FREE_TO_READY (upd_task t (\<lambda>k. k\<lparr>state := ST_RUN\<rparr>) (set_cr3 (get_DIR (update_TSS t s6) t) (update_TSS t s6))) = Some s7"
      "s4 = s7\<lparr>current := t, kpc := (kpc s7)(t := User_mode)\<rparr>"
    using s(4) by (auto simp: init_task1_def bind_eq_Some_conv)
  have q: "quiet (update_TSS t s6) s7" using quiet_stats [OF i(3)] by (simp add: quiet_def upd_task_def set_cr3_def)
  have q6: "quiet s3 s6" using quiet_trans [OF quiet_allocate [OF i(1)] quiet_set_user_pages [OF i(2)]] .
  have "places_ok s4" using p3 q q6 by (simp add: places_ok_def quiet_def i(4) update_TSS_def)
  moreover have "tss_ok s4"
    using q by (simp add: tss_ok_def quiet_def i(4) update_TSS_def KERNEL_ESP_def stack_addr_def)
  moreover have "quiet s4 s'" using quiet_on_links [of _ _ s'] s(5) unfolding init_keyboard_def by (fastforce simp: quiet_def)
  ultimately show ?thesis using tss_ok_cong [of s' s4] by (simp add: places_ok_def quiet_def)
qed

lemma kreach_places:
  assumes "kreach f s" "shows_clock f"
  shows "places_ok s \<and> tss_ok s"
  using assms
proof (induction rule: kreach.induct)
  case (start s s')
  then show ?case using boot_places by blast
next
  case (step s s')
  obtain v where safe: "ksafe s v" using kreach_ksafe [OF step(1) assms(2)] by blast
  obtain e where "kernel_step f e s = Some s'" using step(2) by (auto elim!: kstepE)
  then have "step_effect {} s s'" using step_effect [OF safe _ assms(2)] step.IH assms(2) by (simp add: places_ok_def)
  then show ?case using step.IH assms(2) unfolding step_effect_def moves_def places_ok_def by metis
qed

text \<open>What a step does to the kernel stacks of the tasks that are not free.\<close>

lemma step_keeps_stack:
  assumes safe: "ksafe s v" and p: "places_ok s" "tss_ok s" and clk: "shows_clock f" and run: "kernel_step f e s = Some s'"
    and t: "t < NR_TASKS" "state (tasks s t) \<noteq> ST_INVALID"
  shows "kept {t} s s'" "tss_ok s'"
proof -
  have "t \<notin> set (v_free v)"
    using safe t(2) by (auto simp: ksafe_def kinv_def queues_ok_def dest!: spec [of _ Free_queue])
  then have "step_effect {t} s s'" using step_effect [OF safe _ clk run] p t(1) by (simp add: places_ok_def)
  then show "kept {t} s s'" "tss_ok s'" using p(2) by (simp_all add: step_effect_def)
qed

end
