(* ===== verification/Entry_Proofs.thy ===== *)
theory Entry_Proofs
  imports Stack_Words
begin

text \<open>
  What the assembly of the kernel does to the kernel stacks and registers.
\<close>

section \<open>Saving and restoring\<close>

lemma SAVE_ALL_at:
  assumes "at_word m t (q + 11)"
  shows "SAVE_ALL m = Some (m\<lparr>kern := put_words t q [r_ebx m, r_ecx m, r_edx m, r_esi m, r_edi m, r_ebp m, r_eax m,
         ucast (r_ds m), ucast (r_es m), ucast (r_fs m), ucast (r_gs m)] (kern m),
       r_esp := word_addr (kern m) t q, r_edx := 0x18, r_ds := 0x18, r_es := 0x18\<rparr>)"
proof -
  have p: "push w m' = Some (m'\<lparr>kern := put_word t n w (kern m'), r_esp := word_addr (kern m') t n\<rparr>)"
    if "at_word m' t (Suc n)" for m' n w using push_at [OF that] by simp
  note ps = p [where n = "q"]
    p [where n = "Suc q"]
    p [where n = "Suc (Suc q)"]
    p [where n = "Suc (Suc (Suc q))"]
    p [where n = "Suc (Suc (Suc (Suc q)))"]
    p [where n = "Suc (Suc (Suc (Suc (Suc q))))"]
    p [where n = "Suc (Suc (Suc (Suc (Suc (Suc q)))))"]
    p [where n = "Suc (Suc (Suc (Suc (Suc (Suc (Suc q))))))"]
    p [where n = "Suc (Suc (Suc (Suc (Suc (Suc (Suc (Suc q)))))))"]
    p [where n = "Suc (Suc (Suc (Suc (Suc (Suc (Suc (Suc (Suc q))))))))"]
    p [where n = "Suc (Suc (Suc (Suc (Suc (Suc (Suc (Suc (Suc (Suc q)))))))))"]
  show ?thesis using assms unfolding SAVE_ALL_def by (simp add: ps at_word_def plus_Suc)
qed

lemma RESTORE_ALL_at:
  assumes "at_word m t q" "q + 11 \<le> KERNEL_STACK_SIZE"
  shows "RESTORE_ALL m = Some (m\<lparr>r_ebx := stack_word (kern m) t q, r_ecx := stack_word (kern m) t (q + 1),
       r_edx := stack_word (kern m) t (q + 2), r_esi := stack_word (kern m) t (q + 3), r_edi := stack_word (kern m) t (q + 4),
       r_ebp := stack_word (kern m) t (q + 5), r_eax := stack_word (kern m) t (q + 6), r_ds := ucast (stack_word (kern m) t (q + 7)),
       r_es := ucast (stack_word (kern m) t (q + 8)), r_fs := ucast (stack_word (kern m) t (q + 9)),
       r_gs := ucast (stack_word (kern m) t (q + 10)), r_esp := word_addr (kern m) t (q + 11)\<rparr>)"
proof -
  have p: "pop m' = Some (stack_word (kern m') t n, m'\<lparr>r_esp := word_addr (kern m') t (Suc n)\<rparr>)"
    if "at_word m' t n" "n < KERNEL_STACK_SIZE" for m' n using pop_at [OF that] by simp
  note ps = p [where n = "q"]
    p [where n = "Suc q"]
    p [where n = "Suc (Suc q)"]
    p [where n = "Suc (Suc (Suc q))"]
    p [where n = "Suc (Suc (Suc (Suc q)))"]
    p [where n = "Suc (Suc (Suc (Suc (Suc q))))"]
    p [where n = "Suc (Suc (Suc (Suc (Suc (Suc q)))))"]
    p [where n = "Suc (Suc (Suc (Suc (Suc (Suc (Suc q))))))"]
    p [where n = "Suc (Suc (Suc (Suc (Suc (Suc (Suc (Suc q)))))))"]
    p [where n = "Suc (Suc (Suc (Suc (Suc (Suc (Suc (Suc (Suc q))))))))"]
    p [where n = "Suc (Suc (Suc (Suc (Suc (Suc (Suc (Suc (Suc (Suc q)))))))))"]
  show ?thesis using assms unfolding RESTORE_ALL_def by (simp add: ps at_word_def plus_Suc)
qed

section \<open>Interrupts\<close>

text \<open>
  The words that an interrupt from user mode and \<^verbatim>\<open>SAVE_ALL\<close> leave at the top of the kernel stack, from the
  lowest address up; \<open>r_eip\<close> is the address of the next instruction.
\<close>

definition saved_regs :: "cpu \<Rightarrow> dword list" where
  "saved_regs m = [r_ebx m, r_ecx m, r_edx m, r_esi m, r_edi m, r_ebp m, r_eax m,
     ucast (r_ds m), ucast (r_es m), ucast (r_fs m), ucast (r_gs m)]"

definition return_frame :: "cpu \<Rightarrow> dword list" where
  "return_frame m = [r_eip m, ucast (r_cs m), r_eflags m, r_esp m, ucast (r_ss m)]"

definition gate_addr :: "Gate \<Rightarrow> dword" where
  "gate_addr g = ucast (lowOffset g) OR push_bit 16 (ucast (highOffset g))"

definition gate_flags_of :: "Gate \<Rightarrow> dword \<Rightarrow> dword" where
  "gate_flags_of g f = (if gate_flags g AND 0x0F00 = 0x0E00 then unset_bit 9 f else f)"

text \<open>The task of the processor: the current one of the kernel, with its stack in the task state segment.\<close>

definition on_task :: "cpu \<Rightarrow> nat \<Rightarrow> bool" where
  "on_task m t \<longleftrightarrow> stacks_ok (kern m) \<and> current (kern m) = t \<and> t < NR_TASKS \<and> tss_esp0 (kern m) = KERNEL_ESP (kern m) t"

lemma interrupt_user:
  assumes "on_task m t" "user_mode m"
  shows "interrupt n m = Some (m\<lparr>kern := put_words t 1019 (return_frame m) (kern m),
     r_esp := word_addr (kern m) t 1019, r_ss := t_ss0 (tss m), r_eip := gate_addr (idt m n), r_cs := segmentSelector (idt m n),
     r_eflags := gate_flags_of (idt m n) (r_eflags m)\<rparr>)"
proof -
  have p: "push w m' = Some (m'\<lparr>kern := put_word t (n - 1) w (kern m'), r_esp := word_addr (kern m') t (n - 1)\<rparr>)"
    if "at_word m' t n" "0 < n" for m' n w using push_at [OF that] .
  note p [where n = 1024] p [where n = 1023] p [where n = 1022] p [where n = 1021] p [where n = 1020]
  then show ?thesis
    using assms unfolding interrupt_def
    by (simp add: Let_def at_word_def on_task_def KERNEL_ESP_word user_mode_def return_frame_def gate_addr_def gate_flags_of_def)
qed

text \<open>Back to user mode from a frame.\<close>

lemma iret_user:
  assumes "at_word m t q" "q + 5 \<le> KERNEL_STACK_SIZE" "(ucast (stack_word (kern m) t (q + 1)) :: half) AND 3 = 3"
  shows "iret m = Some (m\<lparr>r_eip := stack_word (kern m) t q, r_cs := ucast (stack_word (kern m) t (q + 1)),
     r_eflags := stack_word (kern m) t (q + 2), r_esp := stack_word (kern m) t (q + 3), r_ss := ucast (stack_word (kern m) t (q + 4))\<rparr>)"
proof -
  have p: "pop m' = Some (stack_word (kern m') t n, m'\<lparr>r_esp := word_addr (kern m') t (Suc n)\<rparr>)"
    if "at_word m' t n" "n < KERNEL_STACK_SIZE" for m' n using pop_at [OF that] by simp
  note ps = p [where n = "q"]
    p [where n = "Suc q"]
    p [where n = "Suc (Suc q)"]
    p [where n = "Suc (Suc (Suc q))"]
    p [where n = "Suc (Suc (Suc (Suc q)))"]
  show ?thesis using assms unfolding iret_def by (simp add: ps at_word_def user_mode_def plus_Suc)
qed

end
