(* ===== verification/Entry_Calls.thy ===== *)
theory Entry_Calls
  imports Isolation Entry_Proofs
begin

text \<open>
  The handlers of \<^verbatim>\<open>entry.S\<close> on the processor, from the interrupt of a program to its next instruction.
\<close>

section \<open>The frame of a program on its kernel stack\<close>

text \<open>The sixteen words above the arguments of a system call.\<close>

definition user_frame :: "cpu \<Rightarrow> dword list" where
  "user_frame m = saved_regs m @ return_frame m"

definition framed :: "cpu \<Rightarrow> nat \<Rightarrow> kstate" where
  "framed m t = put_words t 1008 (user_frame m) (kern m)"

definition frame_on :: "cpu \<Rightarrow> kstate \<Rightarrow> nat \<Rightarrow> bool" where
  "frame_on m k t \<longleftrightarrow> (\<forall>i<16. stack_word k t (1008 + i) = user_frame m ! i)"

lemma length_user_frame [simp]: "length (user_frame m) = 16"
  by (simp add: user_frame_def saved_regs_def return_frame_def)

lemma put_words_append: "put_words t n (xs @ ys) s = put_words t n xs (put_words t (n + length xs) ys s)"
  by (induction xs arbitrary: n) simp_all

lemma frame_on_framed:
  assumes "stacks_ok (kern m)" "t < NR_TASKS"
  shows "frame_on m (framed m t) t"
  using assms by (simp add: frame_on_def framed_def stack_word_puts)

lemma frame_on_kept:
  assumes "frame_on m k t" "kept {t} k k'"
  shows "frame_on m k' t"
  unfolding frame_on_def
proof (intro allI impI)
  fix i :: nat
  assume i: "i < 16"
  have "stack_word k' t (1008 + i) = stack_word k t (1008 + i)" by (rule kept_word [OF assms(2)]) (use i in simp_all)
  then show "stack_word k' t (1008 + i) = user_frame m ! i" using assms(1) i by (simp add: frame_on_def)
qed

text \<open>The registers of the program.\<close>

definition with_regs :: "cpu \<Rightarrow> cpu \<Rightarrow> cpu" where
  "with_regs m n = n\<lparr>r_ebx := r_ebx m, r_ecx := r_ecx m, r_edx := r_edx m, r_esi := r_esi m, r_edi := r_edi m,
     r_ebp := r_ebp m, r_eax := r_eax m, r_ds := r_ds m, r_es := r_es m, r_fs := r_fs m, r_gs := r_gs m,
     r_eip := r_eip m, r_cs := r_cs m, r_eflags := r_eflags m, r_esp := r_esp m, r_ss := r_ss m\<rparr>"

lemma half_dword [simp]: "(ucast (ucast (x :: half) :: dword) :: half) = x"
  by (rule bit_word_eqI) (simp add: bit_ucast_iff)

lemma restore_user:
  assumes at: "at_word n t 1008" and fr: "frame_on m (kern n) t" and user: "user_mode m"
  shows "do { n \<leftarrow> RESTORE_ALL n; iret n } = Some (with_regs m n)"
proof -
  have w: "stack_word (kern n) t (1008 + i) = user_frame m ! i" if "i < 16" for i using fr that by (simp add: frame_on_def)
  note ws = w [of 0, simplified] w [of 1, simplified] w [of 2, simplified] w [of 3, simplified] w [of 4, simplified]
    w [of 5, simplified] w [of 6, simplified] w [of 7, simplified] w [of 8, simplified] w [of 9, simplified]
    w [of 10, simplified] w [of 11, simplified] w [of 12, simplified] w [of 13, simplified] w [of 14, simplified] w [of 15, simplified]
  let ?n = "n\<lparr>r_ebx := stack_word (kern n) t 1008, r_ecx := stack_word (kern n) t (1008 + 1),
       r_edx := stack_word (kern n) t (1008 + 2), r_esi := stack_word (kern n) t (1008 + 3), r_edi := stack_word (kern n) t (1008 + 4),
       r_ebp := stack_word (kern n) t (1008 + 5), r_eax := stack_word (kern n) t (1008 + 6), r_ds := ucast (stack_word (kern n) t (1008 + 7)),
       r_es := ucast (stack_word (kern n) t (1008 + 8)), r_fs := ucast (stack_word (kern n) t (1008 + 9)),
       r_gs := ucast (stack_word (kern n) t (1008 + 10)), r_esp := word_addr (kern n) t (1008 + 11)\<rparr>"
  have r: "RESTORE_ALL n = Some ?n" by (rule RESTORE_ALL_at [OF at]) simp
  have at2: "at_word ?n t 1019" using at by (simp add: at_word_def)
  have cs: "(ucast (stack_word (kern ?n) t (1019 + 1)) :: half) AND 3 = 3"
    using user ws by (simp add: user_frame_def saved_regs_def return_frame_def user_mode_def)
  have i: "iret ?n = Some (?n\<lparr>r_eip := stack_word (kern ?n) t 1019, r_cs := ucast (stack_word (kern ?n) t (1019 + 1)),
     r_eflags := stack_word (kern ?n) t (1019 + 2), r_esp := stack_word (kern ?n) t (1019 + 3), r_ss := ucast (stack_word (kern ?n) t (1019 + 4))\<rparr>)"
    by (rule iret_user [OF at2 _ cs]) simp
  show ?thesis
    unfolding r bind.bind_lunit i
    by (simp add: with_regs_def ws user_frame_def saved_regs_def return_frame_def)
qed

section \<open>Entering the kernel\<close>

lemma enter_kernel:
  assumes "on_task m t" "user_mode m" "interrupt v m = Some m1"
  shows "SAVE_ALL m1 = Some (m1\<lparr>kern := framed m t, r_esp := word_addr (kern m) t 1008, r_edx := 0x18, r_ds := 0x18, r_es := 0x18\<rparr>)"
proof -
  have m1: "m1 = m\<lparr>kern := put_words t 1019 (return_frame m) (kern m),
     r_esp := word_addr (kern m) t 1019, r_ss := t_ss0 (tss m), r_eip := gate_addr (idt m v), r_cs := segmentSelector (idt m v),
     r_eflags := gate_flags_of (idt m v) (r_eflags m)\<rparr>"
    using interrupt_user [OF assms(1,2), of v] assms(3) by simp
  have at: "at_word m1 t (1008 + 11)" using assms(1) by (simp add: m1 at_word_def on_task_def)
  show ?thesis
    unfolding SAVE_ALL_at [OF at]
    using put_words_append [of t 1008 "saved_regs m" "return_frame m" "kern m"]
    by (simp add: m1 framed_def user_frame_def saved_regs_def)
qed

section \<open>System calls\<close>

lemma user_frame_eax: "user_frame (m\<lparr>r_eax := x\<rparr>) = (user_frame m)[6 := x]"
  by (simp add: user_frame_def saved_regs_def return_frame_def)

lemma syscall_end_ok:
  assumes at: "at_word n t 1008" and fr: "frame_on m (kern n) t" and user: "user_mode m"
  shows "syscall_end n = Some (with_regs (m\<lparr>r_eax := r_eax n\<rparr>) (n\<lparr>kern := put_word t 1014 (r_eax n) (kern n)\<rparr>))"
proof -
  let ?k = "put_word t 1014 (r_eax n) (kern n)"
  have st: "stacks_ok (kern n)" "t < NR_TASKS" "r_esp n = word_addr (kern n) t 1008" using at by (simp_all add: at_word_def)
  have a: "r_esp n + 0x18 = stack_addr (kern n) t (int 1014)"
    using word_addr_add [of "kern n" t 1008 6] st(3) by (simp add: word_addr_def)
  have w: "write_dword (kern n) (r_esp n + 0x18) (r_eax n) = Some ?k" unfolding a by (rule write_stack [OF st(1,2)]) simp
  have at': "at_word (n\<lparr>kern := ?k\<rparr>) t 1008" using at by (simp add: at_word_def)
  have fr': "frame_on (m\<lparr>r_eax := r_eax n\<rparr>) (kern (n\<lparr>kern := ?k\<rparr>)) t"
    unfolding frame_on_def user_frame_eax
  proof (intro allI impI)
    fix i :: nat
    assume i: "i < 16"
    then have "stack_word ?k t (1008 + i) = (if i = 6 then r_eax n else stack_word (kern n) t (1008 + i))"
      using st(1,2) by (simp add: stack_word_put)
    then show "stack_word (kern (n\<lparr>kern := ?k\<rparr>)) t (1008 + i) = (user_frame m)[6 := r_eax n] ! i"
      using fr i by (simp add: frame_on_def nth_list_update)
  qed
  have "user_mode (m\<lparr>r_eax := r_eax n\<rparr>)" using user by (simp add: user_mode_def)
  from restore_user [OF at' fr' this] show ?thesis by (simp add: syscall_end_def w)
qed

text \<open>What the handler of the kernel's steps returns, as an event of the processor.\<close>

definition back_with :: "cpu \<Rightarrow> nat \<Rightarrow> sysret \<times> kstate \<Rightarrow> handled" where
  "back_with m t r = (case r of
     (Ret x, k) \<Rightarrow> Back (m\<lparr>kern := put_word t 1014 x k, r_eax := x\<rparr>)
   | (Switched, k) \<Rightarrow> Away k)"

lemma quiet_stacks: "quiet s s' \<Longrightarrow> word_addr s' = word_addr s"
  by (simp add: quiet_def word_addr_def stack_addr_def fun_eq_iff)

lemma kept_word_addr: "kept T s s' \<Longrightarrow> word_addr s' = word_addr s"
  by (simp add: kept_def word_addr_def stack_addr_def fun_eq_iff)

lemma on_task_safe:
  assumes "ksafe (kern m) v" "tss_ok (kern m)"
  shows "on_task m (current (kern m))"
proof -
  have "kinv (kern m) v" using assms(1) by (simp add: ksafe_def)
  then show ?thesis using ksafe_stacks [OF assms(1)] assms(2) kinv_current(3) by (simp add: on_task_def tss_ok_def)
qed

lemma syscall_leave_ok:
  assumes at: "at_word n t 1008" and fr: "frame_on m (kern n) t" and user: "user_mode m"
    and run: "update_leaving_sys (kern n) = Some k"
  shows "syscall_leave j n = Some (with_regs (m\<lparr>r_eax := r_eax n\<rparr>) (n\<lparr>kern := put_word t 1014 (r_eax n) k\<rparr>))"
proof -
  have q: "quiet (kern n) k" using run quiet_stats by (simp add: update_leaving_sys_def)
  let ?n = "(clobber j (n\<lparr>r_ebx := r_eax n, kern := k\<rparr>))\<lparr>r_eax := r_eax n\<rparr>"
  obtain a c d where j: "j = (a, c, d)" by (cases j) auto
  have "stacks_ok k"
    using at update_stats_only [OF run [unfolded update_leaving_sys_def]] kmap_ok_cong [of "kern n" k]
    by (auto simp: at_word_def stacks_ok_def only_stats_fields)
  then have at': "at_word ?n t 1008" using at quiet_stacks [OF q] by (simp add: at_word_def clobber_def j)
  have fr': "frame_on m (kern ?n) t" using frame_on_kept [OF fr kept_quiet [OF q]] by (simp add: clobber_def j)
  show ?thesis
    unfolding syscall_leave_def call_c_def using run syscall_end_ok [OF at' fr' user]
    by (simp add: clobber_def j with_regs_def)
qed

lemma call_table_frame:
  assumes at: "at_word n t 1008" and fr: "frame_on m (kern n) t"
  shows "call_table j loc n = map_option (\<lambda>(r, k). (r, clobber j (n\<lparr>kern := k\<rparr>)))
    (sys_call_table (unat (r_eax n)) (r_ebx m) (r_ecx m) (r_edx m) loc (kern n))"
proof -
  have st: "stacks_ok (kern n)" "t < NR_TASKS" "r_esp n = word_addr (kern n) t 1008" using at by (simp_all add: at_word_def)
  have w: "stack_word (kern n) t (1008 + i) = user_frame m ! i" if "i < 16" for i using fr that by (simp add: frame_on_def)
  have r: "read_dword (kern n) (word_addr (kern n) t k) = Some (stack_word (kern n) t k)" if "k < 1024" for k
    unfolding word_addr_def by (rule read_stack [OF st(1,2)]) (use that in simp)
  have e: "r_esp n + 4 = word_addr (kern n) t 1009" "r_esp n + 8 = word_addr (kern n) t 1010"
    using word_addr_add [of "kern n" t 1008 1] word_addr_add [of "kern n" t 1008 2] st(3) by simp_all
  show ?thesis
    unfolding call_table_def e unfolding st(3)
    using r [of 1008] r [of 1009] r [of 1010] w [of 0] w [of 1] w [of 2]
    by (simp add: user_frame_def saved_regs_def map_option_bind split_def comp_def flip: Option.bind_map_option) 
       (cases "sys_call_table (unat (r_eax n)) (r_ebx m) (r_ecx m) (r_edx m) loc (kern n)"; simp add: split_def)
qed

lemma current_not_free:
  assumes "ksafe s v"
  shows "current s \<notin> set (v_free v)"
proof -
  obtain i where "queues_ok s v {i, current s}" using assms by (auto simp: ksafe_def kinv_def)
  then show ?thesis using queuedI [of v Free_queue "v_free v" "current s"] by (auto simp: queues_ok_def)
qed

lemma system_call_ok:
  assumes safe: "ksafe (kern m) v" and tss: "tss_ok (kern m)" and user: "user_mode m" "idle_task (kern m) \<noteq> Some t"
    and t: "t = current (kern m)" and int: "interrupt n m = Some m1"
  shows "system_call_asm j loc m1 =
     map_option (back_with m t) (system_call_handler (r_eax m) (r_ebx m) (r_ecx m) (r_edx m) loc (framed m t))"
proof -
  have task: "on_task m t" using on_task_safe [OF safe tss] by (simp add: t)
  note m1 = interrupt_user [OF task user(1), of n] int
  define m2 where "m2 = m1\<lparr>kern := framed m t, r_esp := word_addr (kern m) t 1008, r_edx := 0x18, r_ds := 0x18, r_es := 0x18\<rparr>"
  have save: "SAVE_ALL m1 = Some m2" unfolding m2_def by (rule enter_kernel [OF task user(1) int])
  have eax1: "r_eax m1 = r_eax m" using m1 by auto
  then have eax: "r_eax m2 = r_eax m" by (simp add: m2_def)
  have wr: "with_regs p (m2\<lparr>kern := k\<rparr>) = p\<lparr>kern := k\<rparr>" if "p = m\<lparr>r_eax := x\<rparr>" for p k x
    using m1 that by (auto simp: m2_def with_regs_def intro!: cpu.equality)
  have at2: "at_word m2 t 1008" using task by (simp add: m2_def framed_def at_word_def on_task_def)
  have fr2: "frame_on m (kern m2) t" using frame_on_framed task by (simp add: m2_def on_task_def)
  have safe2: "ksafe (framed m t) v" using safe by (simp add: framed_def)
  show ?thesis
  proof (cases "r_eax m <s 0 \<or> MAX_SYSCALL <=s r_eax m")
    case True
    let ?n = "m2\<lparr>r_eax := - ENOSYS\<rparr>"
    have "syscall_end ?n = Some (with_regs (m\<lparr>r_eax := - ENOSYS\<rparr>) (?n\<lparr>kern := put_word t 1014 (- ENOSYS) (framed m t)\<rparr>))"
      using syscall_end_ok [of ?n t m] at2 fr2 user(1) by (simp add: at_word_def m2_def)
    moreover have "with_regs (m\<lparr>r_eax := - ENOSYS\<rparr>) (?n\<lparr>kern := k\<rparr>) = m\<lparr>kern := k, r_eax := - ENOSYS\<rparr>" for k
      using wr [OF refl, of "- ENOSYS" k] by (simp add: with_regs_def)
    ultimately show ?thesis using True by (simp add: system_call_asm_def save eax system_call_handler_def back_with_def)
  next
    case False
    have q0: "current (framed m t) = t" "idle_task (framed m t) = idle_task (kern m)" by (simp_all add: framed_def t)
    obtain s1 where s1: "update_entering_sys (framed m t) = Some s1" unfolding update_entering_sys_def using update_stats_returns by blast
    note st1 = s1 [unfolded update_entering_sys_def]
    have safe1: "ksafe s1 v" by (rule ksafe_update_stats [OF safe2 st1])
    have q1: "quiet (framed m t) s1" by (rule quiet_stats [OF st1])
    have cur1: "current s1 = t" "idle_task s1 \<noteq> Some (current s1)"
      using user(2) q0 by (simp_all add: only_stats_fields [OF update_stats_only [OF st1]])
    obtain a c d where j: "j = (a, c, d)" by (cases j) auto
    define n where "n = (clobber j (m2\<lparr>r_ebx := r_eax m, kern := s1\<rparr>))\<lparr>r_eax := r_eax m\<rparr>"
    have at: "at_word n t 1008" using at2 ksafe_stacks [OF safe1] quiet_stacks [OF q1]
      by (simp add: at_word_def n_def clobber_def j m2_def framed_def)
    have fr: "frame_on m (kern n) t" using frame_on_kept [OF fr2 [unfolded m2_def, simplified] kept_quiet [OF q1]]
      by (simp add: n_def clobber_def j)
    have asm: "system_call_asm j loc m1 = do { (r, m) \<leftarrow> call_table j loc n;
                    case r of
                      Ret x \<Rightarrow> map_option Back (syscall_leave j (m\<lparr>r_eax := x\<rparr>))
                    | Switched \<Rightarrow> Some (Away (kern m)) }"
      using False s1 unfolding j by (simp add: system_call_asm_def syscall_enter_def save eax1 call_c_def n_def m2_def clobber_def j)
    have handler: "system_call_handler (r_eax m) (r_ebx m) (r_ecx m) (r_edx m) loc (framed m t) =
        do { (r, s) \<leftarrow> sys_call_table (unat (r_eax m)) (r_ebx m) (r_ecx m) (r_edx m) loc s1; leave_call r s }"
      using False s1 by (simp add: system_call_handler_def)
    have kn: "kern n = s1" "r_eax n = r_eax m" by (simp_all add: n_def clobber_def j)
    show ?thesis
    proof (cases "sys_call_table (unat (r_eax m)) (r_ebx m) (r_ecx m) (r_edx m) loc s1")
      case None
      then show ?thesis unfolding asm handler call_table_frame [OF at fr] kn by simp
    next
      case (Some rk)
      obtain r k where rk: "rk = (r, k)" by fastforce
      note run = Some [unfolded rk]
      show ?thesis
      proof (cases r)
        case Switched
        then show ?thesis unfolding asm handler call_table_frame [OF at fr] kn run
          by (simp add: leave_call_def back_with_def clobber_def j)
      next
        case (Ret x)
        have "t \<notin> set (v_free v)" using current_not_free [OF safe1] cur1(1) by simp
        then have eff: "call_effect {t} r s1 k" using table_effect [OF safe1 cur1(2) run, of "{t}"] task by (simp add: on_task_def)
        have kept: "kept {t} s1 k" using eff by (simp add: call_effect_def)
        obtain w where "ksafe k w" using ksafe_table [OF safe1 cur1(2) run] by blast
        then have st: "stacks_ok k" by (rule ksafe_stacks)
        obtain k2 where k2: "update_leaving_sys k = Some k2" unfolding update_leaving_sys_def using update_stats_returns by blast
        let ?n = "(clobber j (n\<lparr>kern := k\<rparr>))\<lparr>r_eax := x\<rparr>"
        have at': "at_word ?n t 1008" using at st kept_word_addr [OF kept] by (simp add: at_word_def clobber_def j kn)
        have fr': "frame_on m (kern ?n) t" using frame_on_kept [OF fr [unfolded kn] kept] by (simp add: clobber_def j)
        have "syscall_leave j ?n = Some (with_regs (m\<lparr>r_eax := x\<rparr>) (?n\<lparr>kern := put_word t 1014 x k2\<rparr>))"
          using syscall_leave_ok [OF at' fr' user(1), of k2 j] k2 by (simp add: clobber_def j)
        moreover have "with_regs (m\<lparr>r_eax := x\<rparr>) (?n\<lparr>kern := k\<rparr>) = m\<lparr>kern := k, r_eax := x\<rparr>" for k
          using wr [OF refl, of x k] by (simp add: with_regs_def n_def clobber_def j)
        ultimately show ?thesis unfolding asm handler call_table_frame [OF at fr] kn run Ret
          by (simp add: leave_call_def k2 back_with_def)
      qed
    qed
  qed
qed

section \<open>Interrupts\<close>

lemma EOI_eq: "EOI m = m\<lparr>r_eax := (r_eax m AND 0xFFFFFF00) OR 0x20, pic_cmds := pic_cmds m @ [0x20]\<rparr>"
proof -
  have z: "(0xFFFFFF00 :: byte) = 0" by (simp add: word_unat_eq_iff)
  have "(ucast ((r_eax m AND 0xFFFFFF00) OR 0x20) :: byte) = 0x20" by (simp add: unsigned_or_eq unsigned_and_eq z)
  then show ?thesis by (simp add: EOI_def Let_def)
qed

lemma irq_ok:
  assumes safe: "ksafe (kern m) v" and tss: "tss_ok (kern m)" and user: "user_mode m"
    and t: "t = current (kern m)" and int: "interrupt n m = Some m1"
    and routine: "\<And>s v. ksafe s v \<Longrightarrow> \<exists>s' v'. f s = Some s' \<and> ksafe s' v'"
    and effect: "\<And>s s'. f s = Some s' \<Longrightarrow> quiet s s' \<or> switched Irq_exit s s'"
  shows "irq_asm j f m1 =
     map_option (\<lambda>k. if kpc k t = kpc (kern m) t then Back (m\<lparr>kern := k, pic_cmds := pic_cmds m @ [0x20]\<rparr>) else Away k)
       (irq_handler f (framed m t))"
proof -
  have task: "on_task m t" using on_task_safe [OF safe tss] by (simp add: t)
  note m1 = interrupt_user [OF task user, of n] int
  have save: "SAVE_ALL m1 = Some (m1\<lparr>kern := framed m t, r_esp := word_addr (kern m) t 1008, r_edx := 0x18, r_ds := 0x18, r_es := 0x18\<rparr>)"
    by (rule enter_kernel [OF task user int])
  have q0: "current (framed m t) = t" "kpc (framed m t) = kpc (kern m)" by (simp_all add: framed_def t)
  have safe2: "ksafe (framed m t) v" using safe by (simp add: framed_def)
  obtain s1 where s1: "update_entering_sys (framed m t) = Some s1" unfolding update_entering_sys_def using update_stats_returns by blast
  note st1 = s1 [unfolded update_entering_sys_def]
  have safe1: "ksafe s1 v" by (rule ksafe_update_stats [OF safe2 st1])
  have q1: "quiet (framed m t) s1" by (rule quiet_stats [OF st1])
  obtain s2 w where s2: "f s1 = Some s2" "ksafe s2 w" using routine [OF safe1] by blast
  obtain s3 where s3: "update_leaving_sys s2 = Some s3" unfolding update_leaving_sys_def using update_stats_returns by blast
  have q3: "quiet s2 s3" using quiet_stats s3 by (simp add: update_leaving_sys_def)
  have safe3: "ksafe s3 w" using ksafe_update_stats [OF s2(2)] s3 by (simp add: update_leaving_sys_def)
  have k12: "kept {t} s1 s2" using effect [OF s2(1)] kept_quiet kept_switched by blast
  have kept: "kept {t} (framed m t) s3" by (rule kept_trans [OF kept_quiet [OF q1] kept_trans [OF k12 kept_quiet [OF q3]]])
  obtain a c d where j: "j = (a, c, d)" by (cases j) auto
  define n where "n = clobber j (m1\<lparr>r_esp := word_addr (kern m) t 1008, r_ds := 0x18, r_es := 0x18,
     pic_cmds := pic_cmds m1 @ [0x20], kern := s3\<rparr>)"
  have "word_addr (framed m t) = word_addr (kern m)" by (simp add: framed_def)
  then have at: "at_word n t 1008"
    using task ksafe_stacks [OF safe3] kept_word_addr [OF kept] by (simp add: at_word_def n_def clobber_def j on_task_def)
  have fr: "frame_on m (kern n) t"
    using frame_on_kept [OF frame_on_framed kept] task by (simp add: n_def clobber_def j on_task_def)
  have wr: "with_regs m n = m\<lparr>kern := s3, pic_cmds := pic_cmds m @ [0x20]\<rparr>"
    using m1 by (auto simp: n_def clobber_def j with_regs_def intro!: cpu.equality)
  have asm: "irq_asm j f m1 = (if kpc s2 t = kpc (kern m) t then map_option Back (do { n \<leftarrow> RESTORE_ALL n; iret n }) else Some (Away s2))"
    unfolding j by (simp add: irq_asm_def irq_end_def save EOI_eq call_c_def clobber_def s1 s2(1) s3 q0 n_def j)
  have handler: "irq_handler f (framed m t) = (if kpc s2 t = kpc (kern m) t then Some s3 else Some s2)"
    by (simp add: irq_handler_def s1 s2(1) s3 q0)
  have "kpc s3 = kpc s2" using q3 by (simp add: quiet_def)
  then show ?thesis unfolding asm handler restore_user [OF at fr user] wr by simp
qed

section \<open>Page faults\<close>

text \<open>The exception leaves an error code below the frame.\<close>

definition fault :: "dword \<Rightarrow> cpu \<Rightarrow> cpu option" where
  "fault error_code m = do { m \<leftarrow> interrupt 14 m; push error_code m }"

definition fault_framed :: "dword \<Rightarrow> cpu \<Rightarrow> nat \<Rightarrow> kstate" where
  "fault_framed error_code m t =
     put_words t 1006 (r_cr2 m # saved_regs m @ error_code # return_frame m) (kern m)"

lemma pf_ok:
  assumes safe: "ksafe (kern m) v" and tss: "tss_ok (kern m)" and user: "user_mode m"
    and t: "t = current (kern m)" and int: "fault e m = Some m1"
  shows "pf_asm j m1 = map_option (\<lambda>k. m\<lparr>kern := put_word t 1018 (r_ebx m) k, pic_cmds := pic_cmds m @ [0x20]\<rparr>)
    (pf_rsi (r_cr2 m) (fault_framed e m t))"
proof -
  have task: "on_task m t" using on_task_safe [OF safe tss] by (simp add: t)
  obtain m0 where m0: "interrupt 14 m = Some m0" "push e m0 = Some m1" using int by (auto simp: fault_def bind_eq_Some_conv)
  note i = interrupt_user [OF task user, of 14] m0(1)
  have at0: "at_word m0 t 1019" using task i by (auto simp: at_word_def on_task_def)
  have m1: "m1 = m0\<lparr>kern := put_word t 1018 e (kern m0), r_esp := word_addr (kern m0) t 1018\<rparr>"
    using push_at [OF at0, of e] m0(2) by simp
  have at1: "at_word m1 t (1007 + 11)" using at0 by (simp add: m1 at_word_def)
  define k1 where "k1 = put_words t 1007 (saved_regs m @ e # return_frame m) (kern m)"
  have save: "SAVE_ALL m1 = Some (m1\<lparr>kern := k1, r_esp := word_addr (kern m) t 1007, r_edx := 0x18, r_ds := 0x18, r_es := 0x18\<rparr>)"
    unfolding SAVE_ALL_at [OF at1] k1_def put_words_append using i
    by (auto simp: m1 saved_regs_def)
  define k2 where "k2 = fault_framed e m t"
  have k2: "k2 = put_word t 1006 (r_cr2 m) k1" by (simp add: k2_def fault_framed_def k1_def)
  have safe2: "ksafe k2 v" using safe by (simp add: k2_def fault_framed_def)
  have wa: "word_addr k1 = word_addr (kern m)" "word_addr k2 = word_addr (kern m)" "stacks_ok k1" "t < NR_TASKS" "stacks_ok k2"
    using task by (simp_all add: k1_def k2_def fault_framed_def on_task_def)
  obtain a c d where j: "j = (a, c, d)" by (cases j) auto
  define n2 where "n2 = m1\<lparr>r_edx := 0x18, r_ds := 0x18, r_es := 0x18, r_eax := (r_eax m AND 0xFFFFFF00) OR 0x20,
     pic_cmds := pic_cmds m @ [0x20], r_ebx := r_cr2 m, kern := k2, r_esp := word_addr (kern m) t 1006\<rparr>"
  have r1: "r_eax m1 = r_eax m" "pic_cmds m1 = pic_cmds m" "r_cr2 m1 = r_cr2 m" using i by (auto simp: m1)
  have pushed: "push (r_cr2 m) (m1\<lparr>kern := k1, r_esp := word_addr (kern m) t 1007, r_edx := 0x18, r_ds := 0x18, r_es := 0x18,
     r_eax := (r_eax m AND 0xFFFFFF00) OR 0x20, pic_cmds := pic_cmds m @ [0x20], r_ebx := r_cr2 m\<rparr>) = Some n2"
    (is "push _ ?n1 = _")
    using push_at [of ?n1 t 1007 "r_cr2 m"] wa by (simp add: at_word_def n2_def k2)
  have arg: "read_dword (kern n2) (r_esp n2) = Some (r_cr2 m)"
    using read_stack [OF wa(5,4), of 1006] wa by (simp add: n2_def word_addr_def k2 flip: wa(2))
  have pf: "pf_asm j m1 = do { m \<leftarrow> call_c j (pf_rsi (r_cr2 m)) n2;
          (w, m) \<leftarrow> pop m;
          m \<leftarrow> RESTORE_ALL (m\<lparr>r_ebx := w\<rparr>);
          k \<leftarrow> write_dword (kern m) (r_esp m) (r_ebx m);
          (w, m) \<leftarrow> pop (m\<lparr>kern := k\<rparr>);
          iret (m\<lparr>r_ebx := w\<rparr>) }"
    unfolding pf_asm_def save EOI_eq bind.bind_lunit using pushed arg by (simp add: r1)
  show ?thesis
  proof (cases "pf_rsi (r_cr2 m) k2")
    case None
    then show ?thesis by (simp add: pf call_c_def n2_def flip: k2_def)
  next
    case (Some k3)
    have k3: "kept {t} k2 k3" using pf_effect [OF safe2 Some, of "{t}"] wa(4) by (simp add: call_effect_def)
    have st: "stacks_ok k3"
      using pf_rsi_safe [OF _ _ Some, of v] safe2 current_space [of k3 v "stacks_ok k3"] by (auto simp: ksafe_def stacks_ok_def mem_ok_def)
    have wa3: "word_addr k3 = word_addr (kern m)" using kept_word_addr [OF k3] wa(2) by simp
    have w: "stack_word k3 t (1006 + i) = (r_cr2 m # saved_regs m @ e # return_frame m) ! i" if "i < 18" for i
    proof -
      have "stack_word k3 t (1006 + i) = stack_word k2 t (1006 + i)" by (rule kept_word [OF k3]) (use that in simp_all)
      moreover have "length (r_cr2 m # saved_regs m @ e # return_frame m) = 18" by (simp add: saved_regs_def return_frame_def)
      ultimately show ?thesis using that wa(4) task by (simp add: k2_def fault_framed_def stack_word_puts on_task_def)
    qed
    note ws = w [of 0, simplified] w [of 1, simplified] w [of 2, simplified] w [of 3, simplified] w [of 4, simplified]
      w [of 5, simplified] w [of 6, simplified] w [of 7, simplified] w [of 8, simplified] w [of 9, simplified]
      w [of 10, simplified] w [of 11, simplified] w [of 12, simplified] w [of 13, simplified] w [of 14, simplified]
      w [of 15, simplified] w [of 16, simplified] w [of 17, simplified]
    define n3 where "n3 = clobber j (n2\<lparr>kern := k3\<rparr>)"
    have n3: "kern n3 = k3" "r_esp n3 = word_addr (kern m) t 1006" by (simp_all add: n3_def clobber_def j n2_def)
    have pop3: "pop n3 = Some (r_cr2 m, n3\<lparr>r_esp := word_addr (kern m) t 1007\<rparr>)"
      using pop_at [of n3 t 1006] st wa(4) wa3 ws by (simp add: at_word_def n3)
    let ?n4 = "n3\<lparr>r_esp := word_addr (kern m) t 1007, r_ebx := r_cr2 m\<rparr>"
    have at4: "at_word ?n4 t 1007" using st wa(4) wa3 by (simp add: at_word_def n3)
    note res = RESTORE_ALL_at [OF at4, simplified]
    define n5 where "n5 = ?n4\<lparr>r_ebx := r_ebx m, r_ecx := r_ecx m, r_edx := r_edx m, r_esi := r_esi m, r_edi := r_edi m,
       r_ebp := r_ebp m, r_eax := r_eax m, r_ds := r_ds m, r_es := r_es m, r_fs := r_fs m, r_gs := r_gs m,
       r_esp := word_addr (kern m) t 1018\<rparr>"
    have n5: "RESTORE_ALL ?n4 = Some n5"
      using res ws by (simp add: n5_def n3 wa3 saved_regs_def return_frame_def)
    have wr: "write_dword (kern n5) (r_esp n5) (r_ebx n5) = Some (put_word t 1018 (r_ebx m) k3)"
      using write_stack [OF st wa(4), of 1018 "r_ebx m"] by (simp add: n5_def n3 word_addr_def flip: wa3)
    let ?k4 = "put_word t 1018 (r_ebx m) k3"
    have pop5: "pop (n5\<lparr>kern := ?k4\<rparr>) = Some (r_ebx m, n5\<lparr>kern := ?k4, r_esp := word_addr (kern m) t 1019\<rparr>)"
      using pop_at [of "n5\<lparr>kern := ?k4\<rparr>" t 1018] st wa(4) wa3 by (simp add: at_word_def n5_def)
    let ?n6 = "n5\<lparr>kern := ?k4, r_esp := word_addr (kern m) t 1019, r_ebx := r_ebx m\<rparr>"
    have at6: "at_word ?n6 t 1019" using st wa(4) wa3 by (simp add: at_word_def)
    have w6: "stack_word ?k4 t n = stack_word k3 t n" if "n < 1024" "n \<noteq> 1018" for n
      using stack_word_put [OF st wa(4,4), of 1018 n] that by simp
    have cs: "(ucast (stack_word (kern ?n6) t (1019 + 1)) :: half) AND 3 = 3"
      using user w6 ws by (simp add: saved_regs_def return_frame_def user_mode_def)
    have it: "iret ?n6 = Some (?n6\<lparr>r_eip := r_eip m, r_cs := r_cs m, r_eflags := r_eflags m, r_esp := r_esp m, r_ss := r_ss m\<rparr>)"
      using iret_user [OF at6 _ cs] w6 ws by (simp add: saved_regs_def return_frame_def)
    have fin: "?n6\<lparr>r_eip := r_eip m, r_cs := r_cs m, r_eflags := r_eflags m, r_esp := r_esp m, r_ss := r_ss m\<rparr> =
        m\<lparr>kern := ?k4, pic_cmds := pic_cmds m @ [0x20]\<rparr>"
      using i by (auto simp: n5_def n3_def n2_def m1 clobber_def j intro!: cpu.equality)
    have "call_c j (pf_rsi (r_cr2 m)) n2 = Some n3" using Some by (simp add: call_c_def n3_def n2_def)
    then show ?thesis using Some pop3 n5 wr pop5 it fin by (simp add: pf flip: k2_def)
  qed
qed

end
