(* ===== verification/Context_Proofs.thy ===== *)
theory Context_Proofs
  imports Entry_Calls
begin

text \<open>
  The switch of stacks in \<^verbatim>\<open>sched.S\<close>, and the first instructions of a new process and of a new thread.
\<close>

section \<open>The current task, from the stack pointer\<close>

lemma page_mask: "(x :: dword) AND 0xfffff000 = push_bit 12 (drop_bit 12 x)"
proof -
  have "(0xfffff000 :: dword) = push_bit 12 (mask 20)" by (simp add: mask_eq_exp_minus_1 push_bit_eq_mult)
  moreover have "x AND push_bit 12 (mask 20) = push_bit 12 (drop_bit 12 x)"
    by (rule bit_word_eqI) (auto simp: bit_simps)
  ultimately show ?thesis by simp
qed

lemma current_asm_at:
  assumes "at_word m t n" "n < KERNEL_STACK_SIZE"
  shows "task_at (kern m) (current_asm m) = t"
proof -
  have st: "kmap_ok (kern m)" "t < NR_TASKS" "r_esp m = word_addr (kern m) t n" using assms(1) by (simp_all add: at_word_def stacks_ok_def)
  obtain p where p: "tasks_addr (kern m) = of_nat (p * PAGE_SIZE)" "p + 11 \<le> NUM_PAG_KERNEL" using st(1) by (auto simp: kmap_ok_def)
  have e: "r_esp m = of_nat ((p + t) * PAGE_SIZE + 4 * n)"
    by (simp add: st(3) word_addr_def stack_addr_def p(1) algebra_simps)
  have "drop_bit 12 (r_esp m) = of_nat (p + t)"
    unfolding e by (rule address_parts) (use p(2) st(2) assms(2) in simp_all)
  then have "current_asm m = of_nat ((p + t) * PAGE_SIZE)"
    by (simp add: current_asm_def page_mask push_bit_of_nat push_bit_eq_mult algebra_simps)
  then have "current_asm m - tasks_addr (kern m) = of_nat (t * PAGE_SIZE)" by (simp add: p(1) algebra_simps)
  moreover have "unat (of_nat (t * PAGE_SIZE) :: dword) = t * PAGE_SIZE" by (rule sint_of_nat_small(2)) (use st(2) in simp)
  ultimately show ?thesis unfolding task_at_def by simp
qed

section \<open>Continuing on another stack\<close>

lemma change_context_at:
  assumes "stacks_ok (kern m)" "u < NR_TASKS" "q + 2 \<le> KERNEL_STACK_SIZE"
  shows "change_context_asm (word_addr (kern m) u q) m = Some (m\<lparr>r_ebp := stack_word (kern m) u q,
     r_eip := stack_word (kern m) u (q + 1), r_esp := word_addr (kern m) u (q + 2)\<rparr>)"
proof -
  have at: "at_word (m\<lparr>r_esp := word_addr (kern m) u q\<rparr>) u q" using assms by (simp add: at_word_def)
  have at2: "at_word (m\<lparr>r_esp := word_addr (kern m) u (q + 1), r_ebp := stack_word (kern m) u q\<rparr>) u (q + 1)"
    using assms by (simp add: at_word_def)
  show ?thesis
    using pop_at [OF at] pop_at [OF at2] assms(3) by (simp add: change_context_asm_def ret_def numeral_2_eq_2)
qed

section \<open>\<^verbatim>\<open>task_switch\<close>\<close>

lemma stack_word_cong: "pmem s' = pmem s \<Longrightarrow> tasks_addr s' = tasks_addr s \<Longrightarrow> stack_word s' = stack_word s"
  by (simp add: stack_word_def stack_pa_def fun_eq_iff)

text \<open>The words that the outgoing task leaves on its stack, below the return address at word \<open>b + 7\<close>.\<close>

definition switch_frame :: "cpu \<Rightarrow> dword \<Rightarrow> nat \<Rightarrow> nat \<Rightarrow> dword list" where
  "switch_frame m back t b = [word_addr (kern m) t (b + 6), back, stack_word (kern m) t (b + 8),
     r_ebx m, r_edi m, r_esi m, r_ebp m]"

definition before_switch :: "cpu \<Rightarrow> dword \<Rightarrow> nat \<Rightarrow> nat \<Rightarrow> kstate" where
  "before_switch m back t b = (let k = put_words t b (switch_frame m back t b) (kern m)
     in k\<lparr>ebp_value := (ebp_value k)(ebp_count k := word_addr (kern m) t b)\<rparr>)"

lemma push_put:
  assumes "stacks_ok (kern m)" "t < NR_TASKS" "i < KERNEL_STACK_SIZE" "r_esp m = word_addr (kern m) t (Suc i)"
  shows "push w m = Some (m\<lparr>kern := put_word t i w (kern m), r_esp := word_addr (kern m) t i\<rparr>)"
  using push_at [of m t "Suc i" w] assms by (simp add: at_word_def)

lemma read_word_at:
  assumes "stacks_ok s" "t < NR_TASKS" "i < KERNEL_STACK_SIZE" "a = word_addr s t i"
  shows "read_dword s a = Some (stack_word s t i)"
  using read_stack [OF assms(1-3)] assms(4) by (simp add: word_addr_def)

lemma task_switch_down:
  assumes at: "at_word m t (b + 7)" and b: "b + 8 < KERNEL_STACK_SIZE"
    and u: "task_at (kern m) (stack_word (kern m) t (b + 8)) = u"
  shows "task_switch_asm back k m = change_context_asm (kernel_esp (tasks (inner_task_switch k u (before_switch m back t b)) u))
    (m\<lparr>r_esp := word_addr (kern m) t b, r_ebp := word_addr (kern m) t b, kern := inner_task_switch k u (before_switch m back t b)\<rparr>)"
proof -
  let ?k = "kern m" and ?w = "word_addr (kern m) t"
  have st: "stacks_ok ?k" "t < NR_TASKS" "r_esp m = ?w (b + 7)" using at by (simp_all add: at_word_def)
  define k6 where "k6 = put_words t (b + 6) [r_ebp m] ?k"
  define k3 where "k3 = put_words t (b + 3) [r_ebx m, r_edi m, r_esi m, r_ebp m] ?k"
  define k1 where "k1 = put_words t (b + 1) [back, stack_word ?k t (b + 8), r_ebx m, r_edi m, r_esi m, r_ebp m] ?k"
  have suc: "b + 7 = Suc (b + 6)" "b + 6 = Suc (b + 5)" "b + 5 = Suc (b + 4)" "b + 4 = Suc (b + 3)" "b + 3 = Suc (b + 2)"
    "b + 2 = Suc (b + 1)" "b + 1 = Suc b" by simp_all
  have k3: "k3 = put_word t (b + 3) (r_ebx m) (put_word t (b + 4) (r_edi m) (put_word t (b + 5) (r_esi m) k6))"
    by (simp add: k3_def k6_def plus_Suc)
  have k1: "k1 = put_word t (b + 1) back (put_word t (b + 2) (stack_word ?k t (b + 8)) k3)"
    by (simp add: k3_def k1_def plus_Suc)
  have k0: "before_switch m back t b = (put_word t b (?w (b + 6)) k1)\<lparr>ebp_value := (ebp_value ?k)(ebp_count ?k := ?w b)\<rparr>"
    by (simp add: before_switch_def switch_frame_def k1_def Let_def plus_Suc)
  have s6: "stacks_ok k6" "word_addr k6 = word_addr ?k" and s3: "stacks_ok k3" "word_addr k3 = word_addr ?k"
    and s1: "stacks_ok k1" "word_addr k1 = word_addr ?k" "tasks_addr k1 = tasks_addr ?k"
    using st(1) by (simp_all add: k6_def k3_def k1_def)
  have pro: "prologue m = Some (m\<lparr>kern := k6, r_esp := ?w (b + 6), r_ebp := ?w (b + 6)\<rparr>)"
    unfolding prologue_def by (subst push_put [of _ t "b + 6"]) (use st b in \<open>simp_all add: plus_Suc k6_def\<close>)
  have esi: "push (r_esi m) (m\<lparr>kern := k6, r_esp := ?w (b + 6), r_ebp := ?w (b + 6)\<rparr>) =
      Some (m\<lparr>kern := put_word t (b + 5) (r_esi m) k6, r_esp := ?w (b + 5), r_ebp := ?w (b + 6)\<rparr>)"
    by (subst push_put [of _ t "b + 5"]) (use s6 st(2) b in \<open>simp_all add: plus_Suc\<close>)
  have edi: "push (r_edi m) (m\<lparr>kern := put_word t (b + 5) (r_esi m) k6, r_esp := ?w (b + 5), r_ebp := ?w (b + 6)\<rparr>) =
      Some (m\<lparr>kern := put_word t (b + 4) (r_edi m) (put_word t (b + 5) (r_esi m) k6), r_esp := ?w (b + 4), r_ebp := ?w (b + 6)\<rparr>)"
    by (subst push_put [of _ t "b + 4"]) (use s6 st(2) b in \<open>simp_all add: plus_Suc\<close>)
  have ebx: "push (r_ebx m) (m\<lparr>kern := put_word t (b + 4) (r_edi m) (put_word t (b + 5) (r_esi m) k6), r_esp := ?w (b + 4), r_ebp := ?w (b + 6)\<rparr>) =
      Some (m\<lparr>kern := k3, r_esp := ?w (b + 3), r_ebp := ?w (b + 6)\<rparr>)"
    by (subst push_put [of _ t "b + 3"]) (use s6 st(2) b in \<open>simp_all add: plus_Suc k3\<close>)
  have w8: "stack_word k3 t (b + 8) = stack_word ?k t (b + 8)"
    using st(1,2) b by (simp add: k3_def stack_word_puts del: put_words.simps)
  have e8: "?w (b + 6) + 8 = ?w (b + 8)" "?w b + 8 = ?w (b + 2)"
    using word_addr_add [of ?k t "b + 6" 2] word_addr_add [of ?k t b 2] by (simp_all add: add.commute)
  have arg: "read_dword k3 (?w (b + 6) + 8) = Some (stack_word ?k t (b + 8))"
    using read_word_at [OF s3(1) st(2) b] w8 unfolding e8 s3(2) by simp
  have parg: "push (stack_word ?k t (b + 8)) (m\<lparr>kern := k3, r_esp := ?w (b + 3), r_ebp := ?w (b + 6)\<rparr>) =
      Some (m\<lparr>kern := put_word t (b + 2) (stack_word ?k t (b + 8)) k3, r_esp := ?w (b + 2), r_ebp := ?w (b + 6)\<rparr>)"
    by (subst push_put [of _ t "b + 2"]) (use s3 st(2) b in \<open>simp_all add: plus_Suc\<close>)
  have call: "push back (m\<lparr>kern := put_word t (b + 2) (stack_word ?k t (b + 8)) k3, r_esp := ?w (b + 2), r_ebp := ?w (b + 6)\<rparr>) =
      Some (m\<lparr>kern := k1, r_esp := ?w (b + 1), r_ebp := ?w (b + 6)\<rparr>)"
    by (subst push_put [of _ t "b + 1"]) (use s3 st(2) b in \<open>simp_all add: plus_Suc k1\<close>)
  have down: "task_switch_asm back k m = inner_task_switch_asm k (m\<lparr>kern := k1, r_esp := ?w (b + 1), r_ebp := ?w (b + 6)\<rparr>)"
    unfolding task_switch_asm_def pro bind.bind_lunit
    by (simp add: esi edi ebx arg parg call [simplified] call_from_def)
  let ?kp = "put_word t b (?w (b + 6)) k1"
  have pro2: "prologue (m\<lparr>kern := k1, r_esp := ?w (b + 1), r_ebp := ?w (b + 6)\<rparr>) = Some (m\<lparr>kern := ?kp, r_esp := ?w b, r_ebp := ?w b\<rparr>)"
    unfolding prologue_def by (subst push_put [of _ t b]) (use s1 st(2) b in simp_all)
  have w2: "stack_word ?kp t (b + 2) = stack_word ?k t (b + 8)"
  proof -
    have "stack_word k1 t (b + 2) = stack_word ?k t (b + 8)"
      using st(1,2) b by (simp add: k1_def stack_word_puts del: put_words.simps)
    then show ?thesis using s1(1) st(2) b by simp
  qed
  have arg2: "read_dword ?kp (?w b + 8) = Some (stack_word ?k t (b + 8))"
    using read_word_at [of ?kp t "b + 2"] s1 st(2) b w2 unfolding e8 by simp
  have its: "tasks_addr (inner_task_switch k' u' s) = tasks_addr s" for k' u' s
    using switched_task_switch [of k' s u'] by (simp add: switched_def task_switch_def)
  have see: "see_ebp (m\<lparr>kern := ?kp, r_esp := ?w b, r_ebp := ?w b\<rparr>) = before_switch m back t b"
    by (simp add: see_ebp_def get_ebp_asm_def k0 k1_def)
  have tb: "tasks_addr (before_switch m back t b) = tasks_addr ?k" using s1(3) by (simp add: k0)
  let ?a = "stack_word ?k t (b + 8)" and ?n = "m\<lparr>kern := ?kp, r_esp := ?w b, r_ebp := ?w b\<rparr>"
  have t1: "task_at ?kp ?a = u" using s1(3) u by (simp add: task_at_def)
  have t2: "task_at (inner_task_switch k u (before_switch m back t b)) ?a = u" using tb u by (simp add: task_at_def its)
  have k: "kern ?n = ?kp" "r_ebp ?n + 8 = ?w b + 8" by simp_all
  show ?thesis
    unfolding down inner_task_switch_asm_def pro2 bind.bind_lunit k arg2 see t1 t2 by simp
qed

lemma inner_switch_fields:
  "kernel_esp (tasks (inner_task_switch k u s) (current s)) = ebp_value s (ebp_count s)"
  "u \<noteq> current s \<Longrightarrow> kernel_esp (tasks (inner_task_switch k u s) u) = kernel_esp (tasks s u)"
  "current (inner_task_switch k u s) = u"
  by (simp_all add: inner_task_switch_def get_ebp_def Let_def update_TSS_def change_context_def set_cr3_def upd_task_def)

lemma inner_switch_stacks:
  assumes ok: "kmap_ok s" and dirs: "dirs_ok s v" "cr3 s = dir_pages_baseAddr (tasks s (current s))"
    and u: "u < NR_TASKS" "u \<notin> set (v_free v)"
  shows "stacks_ok (inner_task_switch k u s)"
proof -
  let ?s = "inner_task_switch k u s"
  obtain d where d: "dir_pages_baseAddr (tasks s u) = Some (d * TOTAL_PAGES)" "d < NR_TASKS"
    using dirs_okD(6) [OF dirs(1) u(1)] dirs_okD(7) [OF dirs(1) u(1)] u(2) by auto
  have "cr3 ?s = Some (d * TOTAL_PAGES)"
    using d(1) dirs(2)
    by (auto simp: inner_task_switch_def get_ebp_def Let_def update_TSS_def change_context_def set_cr3_def upd_task_def get_DIR_def)
  moreover have "kmap_ok ?s"
    by (rule kmap_ok_cong [OF ok])
      (simp_all add: inner_task_switch_def get_ebp_def Let_def update_TSS_def change_context_def set_cr3_def upd_task_def)
  ultimately show ?thesis using d(2) by (auto simp: stacks_ok_def)
qed

lemma task_switch_end_at:
  assumes at: "at_word m t i" and i: "i + 6 \<le> KERNEL_STACK_SIZE"
  shows "task_switch_end m = Some (m\<lparr>r_ebx := stack_word (kern m) t (i + 1), r_edi := stack_word (kern m) t (i + 2),
     r_esi := stack_word (kern m) t (i + 3), r_ebp := stack_word (kern m) t (i + 4), r_eip := stack_word (kern m) t (i + 5),
     r_esp := word_addr (kern m) t (i + 6)\<rparr>)"
proof -
  have p: "pop m' = Some (stack_word (kern m') t n, m'\<lparr>r_esp := word_addr (kern m') t (Suc n)\<rparr>)"
    if "at_word m' t n" "n < KERNEL_STACK_SIZE" for m' n using pop_at [OF that] by simp
  note ps = p [where n = "Suc i"] p [where n = "Suc (Suc i)"] p [where n = "Suc (Suc (Suc i))"]
    p [where n = "Suc (Suc (Suc (Suc i)))"] p [where n = "Suc (Suc (Suc (Suc (Suc i))))"]
  have a: "r_esp m + 4 = word_addr (kern m) t (Suc i)" using at word_addr_plus [of "kern m" t i] by (simp add: at_word_def)
  show ?thesis
    using at i unfolding task_switch_end_def bind.bind_lunit a
    by (simp add: ps at_word_def plus_Suc ret_def)
qed

section \<open>At the call of a system call routine\<close>

lemma enter_call:
  assumes safe: "ksafe (kern m) v" and tss: "tss_ok (kern m)" and user: "user_mode m" and t: "t = current (kern m)"
  obtains m1 m2 n where "interrupt vec m = Some m1" "SAVE_ALL m1 = Some m2" "syscall_enter j m2 = Some n"
    "at_word n t 1008" "frame_on m (kern n) t" "ksafe (kern n) v" "current (kern n) = t" "idle_task (kern n) = idle_task (kern m)"
    "quiet (framed m t) (kern n)" "r_eax n = r_eax m" "\<And>u. heap_top (tasks (kern n) u) = heap_top (tasks (kern m) u)"
    "\<And>u. dir_pages_baseAddr (tasks (kern n) u) = dir_pages_baseAddr (tasks (kern m) u)" "translate (kern n) = translate (kern m)" "ret_from_fork_addr (kern n) = ret_from_fork_addr (kern m)"
proof -
  have task: "on_task m t" using on_task_safe [OF safe tss] by (simp add: t)
  obtain m1 where m1: "interrupt vec m = Some m1" using interrupt_user [OF task user] by blast
  note i = interrupt_user [OF task user, of vec] m1
  define m2 where "m2 = m1\<lparr>kern := framed m t, r_esp := word_addr (kern m) t 1008, r_edx := 0x18, r_ds := 0x18, r_es := 0x18\<rparr>"
  have save: "SAVE_ALL m1 = Some m2" unfolding m2_def by (rule enter_kernel [OF task user m1])
  have safe2: "ksafe (framed m t) v" using safe by (simp add: framed_def)
  obtain k where k: "update_entering_sys (framed m t) = Some k" unfolding update_entering_sys_def using update_stats_returns by blast
  note st = k [unfolded update_entering_sys_def]
  have safe1: "ksafe k v" by (rule ksafe_update_stats [OF safe2 st])
  have q: "quiet (framed m t) k" by (rule quiet_stats [OF st])
  note only = only_stats_fields [OF update_stats_only [OF st]]
  obtain a c d where j: "j = (a, c, d)" by (cases j) auto
  define n where "n = (clobber j (m2\<lparr>r_ebx := r_eax m2, kern := k\<rparr>))\<lparr>r_eax := r_eax m2\<rparr>"
  have eax: "r_eax m2 = r_eax m" using i by (auto simp: m2_def)
  have enter: "syscall_enter j m2 = Some n"
    using k by (simp add: syscall_enter_def call_c_def n_def m2_def clobber_def j)
  have kn: "kern n = k" "r_esp n = word_addr (kern m) t 1008" "r_eax n = r_eax m" using eax by (simp_all add: n_def clobber_def j m2_def)
  have "word_addr (framed m t) = word_addr (kern m)" by (simp add: framed_def)
  then have at: "at_word n t 1008" using task ksafe_stacks [OF safe1] quiet_stacks [OF q] by (simp add: at_word_def kn on_task_def)
  have fr: "frame_on m k t" using frame_on_kept [OF frame_on_framed kept_quiet [OF q]] task by (simp add: on_task_def)
  have tr: "translate k = translate (framed m t)" by (rule translate_cong) (simp_all add: only)
  have "ret_from_fork_addr k = ret_from_fork_addr (kern m)"
    using update_stats_only [OF st] by (auto simp: only_stats_def framed_def)
  then show ?thesis
    by (intro that [OF m1 save enter at]) (use fr safe1 q only tr in \<open>simp_all add: kn framed_def t\<close>)
qed

lemma call_frame:
  assumes at: "at_word n t 1008"
  obtains n' where "do { n \<leftarrow> call_from after n; prologue n } = Some n'" "r_ebp n' = word_addr (kern n) t 1006"
    "kern n' = put_words t 1006 [r_ebp n, after] (kern n)"
proof -
  have st: "stacks_ok (kern n)" "t < NR_TASKS" "r_esp n = word_addr (kern n) t 1008" using at by (simp_all add: at_word_def)
  have a: "call_from after n = Some (n\<lparr>kern := put_word t 1007 after (kern n), r_esp := word_addr (kern n) t 1007\<rparr>)"
    unfolding call_from_def by (rule push_put) (use st in simp_all)
  have b: "push (r_ebp n) (n\<lparr>kern := put_word t 1007 after (kern n), r_esp := word_addr (kern n) t 1007\<rparr>) =
      Some (n\<lparr>kern := put_word t 1006 (r_ebp n) (put_word t 1007 after (kern n)), r_esp := word_addr (kern n) t 1006\<rparr>)"
    by (subst push_put [of _ t 1006]) (use st in simp_all)
  show ?thesis
    by (rule that [of "n\<lparr>kern := put_word t 1006 (r_ebp n) (put_word t 1007 after (kern n)),
        r_esp := word_addr (kern n) t 1006, r_ebp := word_addr (kern n) t 1006\<rparr>"]) (simp_all add: a prologue_def b)
qed

lemma father_pos_word:
  assumes "stacks_ok s" "t < NR_TASKS" "n < KERNEL_STACK_SIZE" "ebp_value s (ebp_count s) = word_addr s t n"
  shows "father_pos s = n"
proof -
  obtain p where p: "tasks_addr s = of_nat (p * PAGE_SIZE)" "p + 11 \<le> NUM_PAG_KERNEL"
    using assms(1) by (auto simp: stacks_ok_def kmap_ok_def)
  have e: "word_addr s t n = of_nat ((p + t) * PAGE_SIZE + 4 * n)"
    by (simp add: word_addr_def stack_addr_def p(1) algebra_simps)
  have "(of_nat PAGE_SIZE - 1 :: dword) = mask 12" by (simp add: mask_eq_exp_minus_1)
  then have "word_addr s t n AND (of_nat PAGE_SIZE - 1) = take_bit 12 (word_addr s t n)" by (simp add: take_bit_eq_mask)
  also have "\<dots> = of_nat (4 * n)" unfolding e by (rule address_parts) (use p(2) assms(2,3) in simp_all)
  finally have "father_pos s = unat (of_nat (4 * n) :: dword) div 4" by (simp add: father_pos_def assms(4))
  moreover have "unat (of_nat (4 * n) :: dword) = 4 * n" by (rule sint_of_nat_small(2)) (use assms(3) in simp)
  ultimately show ?thesis by simp
qed

text \<open>Words from bytes.\<close>

lemma stack_word_bytes:
  assumes "\<And>i. i < 4 \<Longrightarrow> pmem s' (of_nat (stack_pa s' t (4 * n + i))) = dword_bytes w ! i"
  shows "stack_word s' t n = w"
proof -
  have "map (\<lambda>i. pmem s' (of_nat (stack_pa s' t (4 * n + i)))) [0, 1, 2, 3] = map (\<lambda>i. dword_bytes w ! i) [0, 1, 2, 3]"
    using assms [of 0] assms [of 1] assms [of 2] assms [of 3] by simp
  then show ?thesis unfolding stack_word_def by (simp only: bytes_nth)
qed

lemma stack_word_eq:
  assumes "\<And>i. i < 4 \<Longrightarrow> pmem s' (of_nat (stack_pa s' t (4 * n + i))) = pmem s (of_nat (stack_pa s c (4 * n + i)))"
  shows "stack_word s' t n = stack_word s c n"
  using assms [of 0] assms [of 1] assms [of 2] assms [of 3] by (simp add: stack_word_def)

section \<open>A new process\<close>

text \<open>The state in which \<^verbatim>\<open>sys_fork\<close> or \<^verbatim>\<open>sys_clone\<close> runs.\<close>

definition in_call :: "cpu \<Rightarrow> nat \<Rightarrow> dword \<Rightarrow> kstate" where
  "in_call n t after = (put_words t 1006 [r_ebp n, after] (kern n))
     \<lparr>ebp_value := (ebp_value (kern n))(ebp_count (kern n) := word_addr (kern n) t 1006)\<rparr>"

lemma call_fork_at: "at_word n t 1008 \<Longrightarrow> call_fork after n = sys_fork (in_call n t after)"
proof -
  assume at: "at_word n t 1008"
  obtain n' where n': "do { n \<leftarrow> call_from after n; prologue n } = Some n'" "r_ebp n' = word_addr (kern n) t 1006"
    "kern n' = put_words t 1006 [r_ebp n, after] (kern n)" by (rule call_frame [OF at])
  have "call_fork after n = do { n \<leftarrow> do { n \<leftarrow> call_from after n; prologue n }; sys_fork (see_ebp n) }"
    by (simp add: call_fork_def)
  also have "\<dots> = sys_fork (in_call n t after)"
    unfolding n'(1) using n'(2,3) by (simp add: see_ebp_def get_ebp_asm_def in_call_def)
  finally show ?thesis .
qed

lemma ksafe_ebp: "ksafe s v \<Longrightarrow> ksafe (s\<lparr>ebp_value := e\<rparr>) v"
  by (rule ksafe_cong [of s v]) (simp_all add: buffer_wf_def)

lemma in_call:
  assumes at: "at_word n t 1008" and safe: "ksafe (kern n) v" and cur: "current (kern n) = t"
  shows "ksafe (in_call n t after) v" "father_pos (in_call n t after) = 1006" "current (in_call n t after) = t"
    "stack_word (in_call n t after) t 1007 = after" "frame_on m (kern n) t \<Longrightarrow> frame_on m (in_call n t after) t"
proof -
  have st: "stacks_ok (kern n)" "t < NR_TASKS" using at by (simp_all add: at_word_def)
  let ?k = "put_words t 1006 [r_ebp n, after] (kern n)"
  show "ksafe (in_call n t after) v" using ksafe_ebp [OF ksafe_put_words [OF safe]] by (simp only: in_call_def)
  then have ok: "stacks_ok (in_call n t after)" by (rule ksafe_stacks)
  have wa: "word_addr (in_call n t after) = word_addr (kern n)"
    by (simp add: in_call_def word_addr_def stack_addr_def fun_eq_iff)
  show "father_pos (in_call n t after) = 1006"
    by (rule father_pos_word [OF ok st(2)]) (simp_all add: wa, simp add: in_call_def)
  show "current (in_call n t after) = t" using cur by (simp add: in_call_def)
  have sw: "stack_word (in_call n t after) = stack_word ?k"
    by (rule stack_word_cong) (simp_all add: in_call_def)
  have w: "stack_word (in_call n t after) t i = (if 1006 \<le> i \<and> i < 1008 then [r_ebp n, after] ! (i - 1006) else stack_word (kern n) t i)"
    if "i < 1024" for i
    unfolding sw using stack_word_puts [OF st(1,2,2) that, of 1006 "[r_ebp n, after]"] by simp
  show "stack_word (in_call n t after) t 1007 = after" using w [of 1007] by simp
  show "frame_on m (in_call n t after) t" if "frame_on m (kern n) t"
    using that w by (simp add: frame_on_def)
qed

text \<open>From the first switch to the child.\<close>

lemma child_starts:
  assumes st: "stacks_ok (kern p)" "c < NR_TASKS"
    and w: "stack_word (kern p) c 1006 = rff" "stack_word (kern p) c 1007 = after" and fr: "frame_on m (kern p) c" and user: "user_mode m"
  shows "\<exists>q r n'. change_context_asm (word_addr (kern p) c 1005) p = Some q \<and> r_eip q = rff \<and>
    ret_from_fork_asm q = Some r \<and> r_eip r = after \<and> syscall_leave j r = Some n' \<and> user_frame n' = (user_frame m)[6 := 0]"
proof -
  let ?q = "p\<lparr>r_ebp := stack_word (kern p) c 1005, r_eip := rff, r_esp := word_addr (kern p) c 1007\<rparr>"
  have q: "change_context_asm (word_addr (kern p) c 1005) p = Some ?q"
    using change_context_at [OF st, of 1005] w by simp
  have at: "at_word (?q\<lparr>r_eax := 0\<rparr>) c 1007" using st by (simp add: at_word_def)
  let ?r = "?q\<lparr>r_eax := 0, r_esp := word_addr (kern p) c 1008, r_eip := after\<rparr>"
  have r: "ret_from_fork_asm ?q = Some ?r"
    using pop_at [OF at] w by (simp add: ret_from_fork_asm_def ret_def)
  have at8: "at_word ?r c 1008" and fr8: "frame_on m (kern ?r) c" using st fr by (simp_all add: at_word_def)
  obtain k where k: "update_leaving_sys (kern ?r) = Some k" unfolding update_leaving_sys_def using update_stats_returns by blast
  note leave = syscall_leave_ok [OF at8 fr8 user k, of j]
  have "user_frame (with_regs (m\<lparr>r_eax := r_eax ?r\<rparr>) x) = (user_frame m)[6 := 0]" for x
    by (simp add: user_frame_def saved_regs_def return_frame_def with_regs_def)
  with q r leave show ?thesis by fastforce
qed

end
