(* ===== verification/Entry_Properties.thy ===== *)
theory Entry_Properties
  imports Context_Proofs Setup_Proofs Fairness
begin

text \<open>
  The properties of the kernel's entry and exit: what a program sees of a system call, an interrupt and a
  page fault, how new processes and threads start, and that a switched task continues where it was.
\<close>

section \<open>Returning to the program\<close>

lemma with_regs_frame: "user_frame (with_regs m n) = user_frame m"
  by (simp add: user_frame_def saved_regs_def return_frame_def with_regs_def)

lemma leave_later:
  assumes "at_word n t 1008" "frame_on m (kern n) t" "user_mode m"
  shows "\<exists>n'. syscall_leave j n = Some n' \<and> user_frame n' = (user_frame m)[6 := r_eax n]"
proof -
  obtain k where "update_leaving_sys (kern n) = Some k" unfolding update_leaving_sys_def using update_stats_returns by blast
  from syscall_leave_ok [OF assms this] show ?thesis by (auto simp: with_regs_frame user_frame_eax)
qed

lemma irq_later:
  assumes "at_word n t 1008" "frame_on m (kern n) t" "user_mode m"
  shows "\<exists>n'. irq_end j n = Some n' \<and> user_frame n' = user_frame m"
proof -
  obtain k where k: "update_leaving_sys (kern n) = Some k" unfolding update_leaving_sys_def using update_stats_returns by blast
  obtain a c d where j: "j = (a, c, d)" by (cases j) auto
  let ?n = "clobber j (n\<lparr>kern := k\<rparr>)"
  have q: "quiet (kern n) k" using k quiet_stats by (simp add: update_leaving_sys_def)
  have "stacks_ok k"
    using assms(1) update_stats_only [OF k [unfolded update_leaving_sys_def]] kmap_ok_cong [of "kern n" k]
    by (auto simp: at_word_def stacks_ok_def only_stats_fields)
  then have "at_word ?n t 1008" using assms(1) quiet_stacks [OF q] by (simp add: at_word_def clobber_def j)
  moreover have "frame_on m (kern ?n) t" using frame_on_kept [OF assms(2) kept_quiet [OF q]] by (simp add: clobber_def j)
  ultimately have "do { n \<leftarrow> RESTORE_ALL ?n; iret n } = Some (with_regs m ?n)" using assms(3) by (rule restore_user)
  then show ?thesis by (simp add: irq_end_def call_c_def k with_regs_frame)
qed

lemma handler_keeps_frame:
  assumes safe: "ksafe (framed m t) v" and cur: "current (framed m t) = t" "idle_task (framed m t) \<noteq> Some t"
    and run: "system_call_handler a b c d loc (framed m t) = Some (r, k)"
  shows "kept {t} (framed m t) k"
proof (cases "a <s 0 \<or> MAX_SYSCALL <=s a")
  case True
  then show ?thesis using run by (auto simp: system_call_handler_def)
next
  case False
  then obtain s1 s2 x where s1: "update_stats (current (framed m t)) USER_TO_SYS (framed m t) = Some s1"
      "sys_call_table (unat a) b c d loc s1 = Some (x, s2)" "leave_call x s2 = Some (r, k)"
    using run by (auto simp: system_call_handler_def update_entering_sys_def bind_eq_Some_conv)
  note only = only_stats_fields [OF update_stats_only [OF s1(1)]]
  have safe1: "ksafe s1 v" by (rule ksafe_update_stats [OF safe s1(1)])
  have "kinv (framed m t) v" using safe by (simp add: ksafe_def)
  then have "{t} \<subseteq> {..<NR_TASKS} - set (v_free v)"
    using current_not_free [OF safe] kinv_current(3) [of "framed m t" v] cur(1) by simp
  then have "call_effect {t} x s1 s2" using table_effect [OF safe1 _ s1(2)] cur by (simp add: only)
  then show ?thesis
    using kept_quiet [OF quiet_stats [OF s1(1)]] kept_quiet [OF leave_effect [OF s1(3)]] kept_trans
    unfolding call_effect_def by blast
qed

section \<open>A program on the processor\<close>

text \<open>The processor in the first program after the start, with some values in its registers.\<close>

definition user_cpu :: "dword \<Rightarrow> dword \<Rightarrow> dword \<Rightarrow> cpu" where
  "user_cpu a b c = (machine.extend reset_machine (cpu.fields a b c 3 4 5 6 7 []))\<lparr>kern := boot_state, r_cs := USER_CS\<rparr>"

lemma user_cpu [simp]:
  "kern (user_cpu a b c) = boot_state" "user_mode (user_cpu a b c)" "r_eax (user_cpu a b c) = a"
  "r_ebx (user_cpu a b c) = b" "r_ecx (user_cpu a b c) = c" "r_edx (user_cpu a b c) = 3" "r_cr2 (user_cpu a b c) = 7"
  by (simp_all add: user_cpu_def user_mode_def cpu.defs machine.defs)

lemma boot_free: "2 < NR_TASKS" "dir_pages_baseAddr (tasks boot_state 2) = None"
proof -
  have "dirs_ok boot_state boot_view" using boot_state(2) by (simp add: kinv_def)
  from dirs_okD(6) [OF this, of 2] show "dir_pages_baseAddr (tasks boot_state 2) = None" by (simp add: boot_view_def)
qed simp

section \<open>System calls\<close>

text \<open>C20: a system call is transparent: from any reachable state in which a program runs, \<^verbatim>\<open>int 0x80\<close> and the
  instructions of \<^verbatim>\<open>system_call_handler\<close> do what the kernel's step does in the state with the program's frame on the
  kernel stack, and return to the next instruction with every register as it was but for the result in
  \<^verbatim>\<open>eax\<close>. If the call has switched to another task the frame stays on the stack, and from it the end of the
  handler returns to the program in the same way.\<close>

theorem system_call_transparent:
  assumes "kreach f (kern m)" "shows_clock f" "user_mode m" "kpc (kern m) (current (kern m)) = User_mode"
  defines "t \<equiv> current (kern m)"
  shows "\<exists>m1. interrupt 0x80 m = Some m1 \<and>
     system_call_asm j loc m1 =
       map_option (back_with m t) (system_call_handler (r_eax m) (r_ebx m) (r_ecx m) (r_edx m) loc (framed m t)) \<and>
     (\<forall>r k. system_call_handler (r_eax m) (r_ebx m) (r_ecx m) (r_edx m) loc (framed m t) = Some (r, k) \<longrightarrow> frame_on m k t) \<and>
     (\<forall>n. at_word n t 1008 \<longrightarrow> frame_on m (kern n) t \<longrightarrow>
        (\<exists>n'. syscall_leave j n = Some n' \<and> user_frame n' = (user_frame m)[6 := r_eax n]))"
proof -
  obtain v where safe: "ksafe (kern m) v" using kreach_ksafe [OF assms(1,2)] by blast
  have tss: "tss_ok (kern m)" using kreach_places [OF assms(1,2)] by simp
  have idle: "idle_task (kern m) \<noteq> Some t" using ksafe_user [OF safe assms(4)] by (simp add: t_def)
  have task: "on_task m t" using on_task_safe [OF safe tss] by (simp add: t_def)
  obtain m1 where m1: "interrupt 0x80 m = Some m1" using interrupt_user [OF task assms(3)] by blast
  have asm: "system_call_asm j loc m1 =
       map_option (back_with m t) (system_call_handler (r_eax m) (r_ebx m) (r_ecx m) (r_edx m) loc (framed m t))"
    by (rule system_call_ok [OF safe tss assms(3) idle _ m1]) (simp add: t_def)
  have "frame_on m k t" if "system_call_handler (r_eax m) (r_ebx m) (r_ecx m) (r_edx m) loc (framed m t) = Some (r, k)" for r k
  proof -
    have "ksafe (framed m t) v" using safe by (simp add: framed_def)
    then have "kept {t} (framed m t) k"
      by (rule handler_keeps_frame [OF _ _ _ that]) (use idle in \<open>simp_all add: framed_def t_def\<close>)
    moreover have "frame_on m (framed m t) t" using frame_on_framed task by (simp add: on_task_def)
    ultimately show ?thesis using frame_on_kept by blast
  qed
  with m1 asm leave_later [OF _ _ assms(3)] show ?thesis by blast
qed

theorem system_call_transparent_witness:
  "\<exists>m1 k. interrupt 0x80 (user_cpu 20 1 2) = Some m1 \<and> system_call_asm (7, 8, 9) [] m1 =
     Some (Back ((user_cpu 20 1 2)\<lparr>kern := k, r_eax := 1\<rparr>))"
proof -
  let ?m = "user_cpu 20 1 2"
  have k: "kpc (kern ?m) (current (kern ?m)) = User_mode" using boot_state by simp
  obtain m1 where m1: "interrupt 0x80 ?m = Some m1" "system_call_asm (7, 8, 9) [] m1 =
      map_option (back_with ?m 1) (system_call_handler 20 1 2 3 [] (framed ?m 1))"
    using system_call_transparent [of "\<lambda>s. s" ?m "(7, 8, 9)" "[]"] boot_reach [of "\<lambda>s. s"] shows_clock_id k boot_state(5) by auto
  obtain s1 where s1: "update_stats 1 USER_TO_SYS (framed ?m 1) = Some s1" using update_stats_returns by blast
  obtain s2 where s2: "update_leaving_sys s1 = Some s2" unfolding update_leaving_sys_def using update_stats_returns by blast
  have "current (framed ?m 1) = 1" using boot_state(5) by (simp add: framed_def)
  moreover have "PID (tasks s1 (current s1)) = 1"
    using only_stats_fields [OF update_stats_only [OF s1]] boot_ok [OF reset_ok] boot_state(1) by (auto simp: framed_def)
  ultimately have "system_call_handler 20 1 2 3 [] (framed ?m 1) = Some (Ret 1, s2)"
    using s1 s2 by (simp add: system_call_handler_def update_entering_sys_def sys_call_table_def sys_getpid_def leave_call_def word_sless_alt word_sle_eq)
  with m1 show ?thesis by (auto simp: back_with_def)
qed

section \<open>Interrupts and page faults\<close>

lemma irq_transparent:
  assumes safe: "ksafe (kern m) v" and tss: "tss_ok (kern m)" and user: "user_mode m" and t: "t = current (kern m)"
    and routine: "\<And>s v. ksafe s v \<Longrightarrow> \<exists>s' v'. f s = Some s' \<and> ksafe s' v'"
    and effect: "\<And>s s'. f s = Some s' \<Longrightarrow> quiet s s' \<or> switched Irq_exit s s'"
  shows "\<exists>m1 k. interrupt vec m = Some m1 \<and> irq_handler f (framed m t) = Some k \<and> frame_on m k t \<and>
     irq_asm j f m1 = Some (if kpc k t = kpc (kern m) t then Back (m\<lparr>kern := k, pic_cmds := pic_cmds m @ [0x20]\<rparr>) else Away k)"
proof -
  have task: "on_task m t" using on_task_safe [OF safe tss] by (simp add: t)
  obtain m1 where m1: "interrupt vec m = Some m1" using interrupt_user [OF task user] by blast
  have "ksafe (framed m t) v" using safe by (simp add: framed_def)
  then have "\<exists>s' v'. irq_handler f (framed m t) = Some s' \<and> ksafe s' v'" by (rule ksafe_irq) (rule routine)
  then obtain k where k: "irq_handler f (framed m t) = Some k" by blast
  have "kept {t} (framed m t) k" using irq_effect [OF k effect] by (simp add: step_effect_def)
  then have "frame_on m k t" using frame_on_kept [OF frame_on_framed] task by (simp add: on_task_def)
  with m1 k irq_ok [where f = f and j = j, OF safe tss user t m1 routine effect] show ?thesis by auto
qed

text \<open>C24: the clock and the keyboard interrupt are transparent: from any reachable state in which a program runs the interrupt
  and the instructions of its handler acknowledge it and do what the kernel's step does; unless that has switched
  to another task they return to the interrupted instruction with every register as it was. After a switch the frame is
  still on the stack of the interrupted task, and the end of the handler returns from it in the same way.\<close>

theorem interrupts_transparent:
  assumes "kreach f (kern m)" "shows_clock f" "user_mode m"
  defines "t \<equiv> current (kern m)"
  shows "(\<exists>m1 k. interrupt 32 m = Some m1 \<and> clock_handler f (framed m t) = Some k \<and> frame_on m k t \<and>
       clock_asm j f m1 = Some (if kpc k t = kpc (kern m) t then Back (m\<lparr>kern := k, pic_cmds := pic_cmds m @ [0x20]\<rparr>) else Away k)) \<and>
     (\<exists>m1 k. interrupt 33 m = Some m1 \<and> keyboard_handler value (framed m t) = Some k \<and> frame_on m k t \<and>
       keyboard_asm j value m1 = Some (if kpc k t = kpc (kern m) t then Back (m\<lparr>kern := k, pic_cmds := pic_cmds m @ [0x20]\<rparr>) else Away k)) \<and>
     (\<forall>n. at_word n t 1008 \<longrightarrow> frame_on m (kern n) t \<longrightarrow> (\<exists>n'. irq_end j n = Some n' \<and> user_frame n' = user_frame m))"
proof -
  obtain v where safe: "ksafe (kern m) v" using kreach_ksafe [OF assms(1,2)] by blast
  have tss: "tss_ok (kern m)" using kreach_places [OF assms(1,2)] by simp
  have t: "t = current (kern m)" by (simp add: t_def)
  have clock: "\<exists>s' v'. clock_routine f s = Some s' \<and> ksafe s' v'" if "ksafe s v" for s v
    by (rule ksafe_clock [OF that assms(2)]) blast
  have key: "\<exists>s' v'. keyboard_routine value s = Some s' \<and> ksafe s' v'" if "ksafe s v" for s v
    by (rule ksafe_keyboard [OF that]) blast
  show ?thesis
    unfolding clock_handler_def clock_asm_def keyboard_handler_def keyboard_asm_def
  proof (intro conjI)
    show "\<exists>m1 k. interrupt 32 m = Some m1 \<and> irq_handler (clock_routine f) (framed m t) = Some k \<and> frame_on m k t \<and>
       irq_asm j (clock_routine f) m1 = Some (if kpc k t = kpc (kern m) t then Back (m\<lparr>kern := k, pic_cmds := pic_cmds m @ [0x20]\<rparr>) else Away k)"
      by (rule irq_transparent [OF safe tss assms(3) t]) (erule clock, erule clock_effect [OF _ assms(2)])
    show "\<exists>m1 k. interrupt 33 m = Some m1 \<and> irq_handler (keyboard_routine value) (framed m t) = Some k \<and> frame_on m k t \<and>
       irq_asm j (keyboard_routine value) m1 = Some (if kpc k t = kpc (kern m) t then Back (m\<lparr>kern := k, pic_cmds := pic_cmds m @ [0x20]\<rparr>) else Away k)"
      by (rule irq_transparent [OF safe tss assms(3) t]) (erule key, erule keyboard_effect)
  qed (use irq_later [OF _ _ assms(3)] in blast)
qed

theorem interrupts_transparent_witness:
  "\<exists>m1 k. interrupt 32 (user_cpu 20 1 2) = Some m1 \<and> clock_handler (\<lambda>s. s) (framed (user_cpu 20 1 2) 1) = Some k \<and>
     frame_on (user_cpu 20 1 2) k 1"
  using interrupts_transparent [of "\<lambda>s. s" "user_cpu 20 1 2"] boot_reach [of "\<lambda>s. s"] shows_clock_id boot_state(5) by fastforce

text \<open>C23: a page fault that the kernel repairs restarts the instruction with every register as it was, the error code
  gone from the stack; where \<^verbatim>\<open>pf_rsi\<close> does not return, the handler does not.\<close>

theorem page_fault_restarts:
  assumes "kreach f (kern m)" "shows_clock f" "user_mode m"
  defines "t \<equiv> current (kern m)"
  shows "\<exists>m1. fault e m = Some m1 \<and> pf_asm j m1 =
    map_option (\<lambda>k. m\<lparr>kern := put_word t 1018 (r_ebx m) k, pic_cmds := pic_cmds m @ [0x20]\<rparr>)
      (pf_handler (r_cr2 m) (fault_framed e m t))"
proof -
  obtain v where safe: "ksafe (kern m) v" using kreach_ksafe [OF assms(1,2)] by blast
  have tss: "tss_ok (kern m)" using kreach_places [OF assms(1,2)] by simp
  have task: "on_task m t" using on_task_safe [OF safe tss] by (simp add: t_def)
  obtain m0 where m0: "interrupt 14 m = Some m0" "at_word m0 t 1019"
    using interrupt_user [OF task assms(3), of 14] task by (auto simp: at_word_def on_task_def)
  obtain m1 where m1: "fault e m = Some m1" using push_at [OF m0(2), of e] m0(1) by (auto simp: fault_def)
  show ?thesis using pf_ok [OF safe tss assms(3) _ m1, of t j] m1 by (simp add: t_def pf_handler_def)
qed

theorem page_fault_restarts_witness: "\<exists>m1. fault 4 (user_cpu 20 1 2) = Some m1 \<and> pf_asm (7, 8, 9) m1 = None"
proof -
  let ?m = "user_cpu 20 1 2"
  obtain m1 where m1: "fault 4 ?m = Some m1" "pf_asm (7, 8, 9) m1 =
    map_option (\<lambda>k. ?m\<lparr>kern := put_word 1 1018 (r_ebx ?m) k, pic_cmds := pic_cmds ?m @ [0x20]\<rparr>) (pf_handler 7 (fault_framed 4 ?m 1))"
    using page_fault_restarts [of "\<lambda>s. s" ?m 4 "(7, 8, 9)"] boot_reach [of "\<lambda>s. s"] shows_clock_id boot_state(5) by auto
  have "heap_top (tasks (fault_framed 4 ?m 1) (current (fault_framed 4 ?m 1))) = HEAP_START"
    using boot_state(5,11) by (simp add: fault_framed_def)
  then have "pf_handler 7 (fault_framed 4 ?m 1) = None" by (simp add: pf_handler_def pf_rsi_def access_ok_def in_heap_def get_heap_page_size_def)
  with m1 show ?thesis by auto
qed

section \<open>The stacks of the other tasks\<close>

text \<open>The ways into the kernel from user mode, from the interrupt to the end of its handler, and the state they leave.\<close>

datatype entry = Int80 "byte list" | Clock_int | Key_int byte | Fault_exc dword

fun enter_asm :: "(kstate \<Rightarrow> kstate) \<Rightarrow> junk \<Rightarrow> entry \<Rightarrow> cpu \<Rightarrow> handled option" where
  "enter_asm f j (Int80 loc) m = do { m \<leftarrow> interrupt 0x80 m; system_call_asm j loc m }"
| "enter_asm f j Clock_int m = do { m \<leftarrow> interrupt 32 m; clock_asm j f m }"
| "enter_asm f j (Key_int value) m = do { m \<leftarrow> interrupt 33 m; keyboard_asm j value m }"
| "enter_asm f j (Fault_exc error_code) m = do { m \<leftarrow> fault error_code m; map_option Back (pf_asm j m) }"

fun kernel_of :: "handled \<Rightarrow> kstate" where
  "kernel_of (Back m) = kern m"
| "kernel_of (Away k) = k"

text \<open>Each is a step of the kernel between two changes of the current stack.\<close>

lemma enter_asm_step:
  assumes safe: "ksafe (kern m) v" and tss: "tss_ok (kern m)" and clk: "shows_clock f" and user: "user_mode m"
    and k: "kpc (kern m) (current (kern m)) = User_mode" and run: "enter_asm f j ev m = Some r"
  obtains e b ws k i w where "b + length ws \<le> KERNEL_STACK_SIZE"
    "kernel_step f e (put_words (current (kern m)) b ws (kern m)) = Some k"
    "kernel_of r = k \<or> i < KERNEL_STACK_SIZE \<and> kernel_of r = put_word (current (kern m)) i w k"
proof -
  define t where "t = current (kern m)"
  have idle: "idle_task (kern m) \<noteq> Some t" using ksafe_user [OF safe k] by (simp add: t_def)
  have l: "1008 + length (user_frame m) \<le> KERNEL_STACK_SIZE" by (simp add: user_frame_def saved_regs_def return_frame_def)
  have step: "kernel_step f e (framed m t) = (case e of
      Syscall a b c d loc \<Rightarrow> map_option snd (system_call_handler a b c d loc (framed m t))
    | Clock \<Rightarrow> irq_handler (clock_routine f) (framed m t) | Key x \<Rightarrow> irq_handler (keyboard_routine x) (framed m t)
    | _ \<Rightarrow> kernel_step f e (framed m t))" for e
    using k by (simp add: kernel_step_def Let_def framed_def clock_handler_def keyboard_handler_def split: kevent.split)
  note found = that
  have irq: thesis if h: "irq_handler g (framed m t) = kernel_step f e (framed m t)" and m1: "interrupt n m = Some m1"
      and a: "irq_asm j g m1 = Some r" and routine: "\<And>s v. ksafe s v \<Longrightarrow> \<exists>s' v'. g s = Some s' \<and> ksafe s' v'"
      and effect: "\<And>s s'. g s = Some s' \<Longrightarrow> quiet s s' \<or> switched Irq_exit s s'" for g e n m1
  proof -
    have "irq_asm j g m1 = map_option (\<lambda>k. if kpc k t = kpc (kern m) t then Back (m\<lparr>kern := k, pic_cmds := pic_cmds m @ [0x20]\<rparr>) else Away k)
        (irq_handler g (framed m t))"
      by (rule irq_ok [OF safe tss user t_def m1]) (erule routine, erule effect)
    then obtain k where "irq_handler g (framed m t) = Some k" "kernel_of r = k"
      using a by (cases "irq_handler g (framed m t)") (auto split: if_splits)
    then show thesis using found [OF l, of e k] h by (simp add: framed_def t_def)
  qed
  show thesis
  proof (cases ev)
    case (Int80 loc)
    then obtain m1 where m1: "interrupt 0x80 m = Some m1" "system_call_asm j loc m1 = Some r" using run by (auto simp: bind_eq_Some_conv)
    obtain x k where x: "system_call_handler (r_eax m) (r_ebx m) (r_ecx m) (r_edx m) loc (framed m t) = Some (x, k)"
        "r = back_with m t (x, k)"
      using m1(2) system_call_ok [OF safe tss user idle t_def m1(1), of j loc] by auto
    have "kernel_step f (Syscall (r_eax m) (r_ebx m) (r_ecx m) (r_edx m) loc) (framed m t) = Some k" by (simp add: step x(1))
    then show thesis by (intro that [OF l, of _ k 1014 "case x of Ret y \<Rightarrow> y | Switched \<Rightarrow> 0"]) (auto simp: x(2) back_with_def framed_def t_def split: sysret.split)
  next
    case Clock_int
    then obtain m1 where m1: "interrupt 32 m = Some m1" "irq_asm j (clock_routine f) m1 = Some r"
      using run by (auto simp: bind_eq_Some_conv clock_asm_def)
    show thesis
    proof (rule irq [OF _ m1])
      show "irq_handler (clock_routine f) (framed m t) = kernel_step f Clock (framed m t)" by (simp add: step)
    qed (blast elim: ksafe_clock [OF _ clk], erule clock_effect [OF _ clk])
  next
    case (Key_int b)
    then obtain m1 where m1: "interrupt 33 m = Some m1" "irq_asm j (keyboard_routine b) m1 = Some r"
      using run by (auto simp: bind_eq_Some_conv keyboard_asm_def)
    show thesis
    proof (rule irq [OF _ m1])
      show "irq_handler (keyboard_routine b) (framed m t) = kernel_step f (Key b) (framed m t)" by (simp add: step)
    qed (blast elim: ksafe_keyboard, erule keyboard_effect)
  next
    case (Fault_exc e)
    then obtain m1 m2 where m1: "fault e m = Some m1" "pf_asm j m1 = Some m2" "r = Back m2" using run by (auto simp: bind_eq_Some_conv)
    then obtain k where r: "pf_rsi (r_cr2 m) (fault_framed e m t) = Some k" "kern m2 = put_word t 1018 (r_ebx m) k"
      using pf_ok [OF safe tss user t_def m1(1), of j] by auto
    have "kernel_step f (Page_fault (r_cr2 m)) (fault_framed e m t) = Some k"
      using r(1) k by (simp add: kernel_step_def pf_handler_def fault_framed_def t_def)
    moreover have "1006 + length (r_cr2 m # saved_regs m @ e # return_frame m) \<le> KERNEL_STACK_SIZE"
      by (simp add: saved_regs_def return_frame_def)
    ultimately show thesis
      using that [of 1006 "r_cr2 m # saved_regs m @ e # return_frame m" "Page_fault (r_cr2 m)" k 1018 "r_ebx m"] r(2) m1(3)
      by (simp add: fault_framed_def t_def)
  qed
qed

text \<open>C19: the kernel stacks are isolated. In a reachable state let \<open>u\<close> be a task that is neither free nor current. Whatever enters
  the kernel from user mode, a system call, the clock, the keyboard or a page fault, neither what the processor
  and the handler's instructions push nor what the called C code writes through its pointers changes a word of the
  kernel stack of \<open>u\<close>; and no store of the program and no continuation after a switch does. Whenever the
  processor enters the kernel it takes the stack of the current task, before the entry and after it.\<close>

theorem stacks_isolated:
  assumes "kreach f (kern m)" "shows_clock f"
    and "u < NR_TASKS" "state (tasks (kern m) u) \<noteq> ST_INVALID" "u \<noteq> current (kern m)" "n < KERNEL_STACK_SIZE"
  shows "tss_esp0 (kern m) = KERNEL_ESP (kern m) (current (kern m)) \<and>
     (\<forall>j ev r. user_mode m \<longrightarrow> kpc (kern m) (current (kern m)) = User_mode \<longrightarrow> enter_asm f j ev m = Some r \<longrightarrow>
        stack_word (kernel_of r) u n = stack_word (kern m) u n \<and>
        tss_esp0 (kernel_of r) = KERNEL_ESP (kernel_of r) (current (kernel_of r))) \<and>
     (\<forall>e s'. kernel_step f e (kern m) = Some s' \<longrightarrow> stack_word s' u n = stack_word (kern m) u n)"
proof -
  obtain v where safe: "ksafe (kern m) v" using kreach_ksafe [OF assms(1,2)] by blast
  have pl: "places_ok (kern m)" and tss: "tss_ok (kern m)" using kreach_places [OF assms(1,2)] by simp_all
  let ?t = "current (kern m)"
  have t: "?t < NR_TASKS" using safe kinv_current(3) by (auto simp: ksafe_def)
  have st: "stacks_ok (kern m)" by (rule ksafe_stacks [OF safe])
  have "stack_word (kernel_of r) u n = stack_word (kern m) u n \<and> tss_ok (kernel_of r)"
    if "user_mode m" "kpc (kern m) ?t = User_mode" "enter_asm f j ev m = Some r" for j ev r
  proof (rule enter_asm_step [OF safe tss assms(2) that])
    fix e b ws k i w
    assume ws: "b + length ws \<le> KERNEL_STACK_SIZE" and run: "kernel_step f e (put_words ?t b ws (kern m)) = Some k"
      and r: "kernel_of r = k \<or> i < KERNEL_STACK_SIZE \<and> kernel_of r = put_word ?t i w k"
    have safe1: "ksafe (put_words ?t b ws (kern m)) v" using safe by simp
    have pt: "places_ok (put_words ?t b ws (kern m))" "tss_ok (put_words ?t b ws (kern m))"
      using pl tss tss_ok_cong [of "put_words ?t b ws (kern m)" "kern m"] by (simp_all add: places_ok_def)
    note k = step_keeps_stack [OF safe1 pt assms(2) run assms(3)]
    have kept: "kept {u} (put_words ?t b ws (kern m)) k" "tss_ok k" using k assms(4) by simp_all
    obtain w' where "ksafe k w'" using ksafe_step [OF safe1 assms(2) run] by blast
    then have stk: "stacks_ok k" by (rule ksafe_stacks)
    have "stack_word k u n = stack_word (put_words ?t b ws (kern m)) u n" using kept_word [OF kept(1)] assms(6) by simp
    also have "\<dots> = stack_word (kern m) u n" using stack_word_puts [OF st t assms(3,6) ws] assms(5) by simp
    finally have "stack_word k u n = stack_word (kern m) u n" .
    moreover have "tss_ok (put_word ?t i w k)" using kept(2) tss_ok_cong [of "put_word ?t i w k" k] by simp
    ultimately show ?thesis using r stack_word_put [OF stk t assms(3) _ assms(6), of i w] assms(5) kept(2) by auto
  qed
  moreover have "stack_word s' u n = stack_word (kern m) u n" if "kernel_step f e (kern m) = Some s'" for e s'
    using kept_word [OF step_keeps_stack(1) [OF safe pl tss assms(2) that assms(3,4)]] assms(6) by simp
  ultimately show ?thesis using tss by (simp add: tss_ok_def)
qed

theorem stacks_isolated_witness:
  "\<exists>m r. kpc (kern m) 2 = Fork_child \<and> enter_asm (\<lambda>s. s) (7, 8, 9) Clock_int m = Some r \<and>
     stack_word (kernel_of r) 2 1000 = stack_word (kern m) 2 1000"
proof (rule forked_state [of "\<lambda>s. s"])
  fix s v
  assume s: "kreach (\<lambda>s. s) s" "ksafe s v" "v_ready v = [2]" "current s = 1" "kpc s 1 = User_mode" "idle_task s = Some 0" "kpc s 2 = Fork_child"
  let ?m = "(user_cpu 20 1 2)\<lparr>kern := s\<rparr>"
  have user: "user_mode ?m" using user_cpu(2) [of 20 1 2] by (simp add: user_mode_def)
  have tss: "tss_ok (kern ?m)" using kreach_places [OF s(1) shows_clock_id] by simp
  have "state (tasks s 2) = ST_READY"
    using s(2,3) by (auto simp: ksafe_def kinv_def queues_ok_def dest!: spec [of _ Ready_queue])
  then have live: "state (tasks (kern ?m) 2) \<noteq> ST_INVALID" by simp
  have "\<exists>m1 k. interrupt 32 ?m = Some m1 \<and> irq_handler (clock_routine (\<lambda>s. s)) (framed ?m 1) = Some k \<and> frame_on ?m k 1 \<and>
     irq_asm (7, 8, 9) (clock_routine (\<lambda>s. s)) m1 =
       Some (if kpc k 1 = kpc (kern ?m) 1 then Back (?m\<lparr>kern := k, pic_cmds := pic_cmds ?m @ [0x20]\<rparr>) else Away k)"
  proof (rule irq_transparent [OF _ tss user])
    show "ksafe (kern ?m) v" using s(2) by simp
    show "\<And>s v. ksafe s v \<Longrightarrow> \<exists>s' v'. clock_routine (\<lambda>s. s) s = Some s' \<and> ksafe s' v'" by (blast elim: ksafe_clock [OF _ shows_clock_id])
    show "\<And>s s'. clock_routine (\<lambda>s. s) s = Some s' \<Longrightarrow> quiet s s' \<or> switched Irq_exit s s'" by (erule clock_effect [OF _ shows_clock_id])
  qed (simp add: s(4))
  then obtain r where r: "enter_asm (\<lambda>s. s) (7, 8, 9) Clock_int ?m = Some r" by (auto simp: clock_asm_def)
  have "stack_word (kernel_of r) 2 1000 = stack_word (kern ?m) 2 1000"
    using stacks_isolated [of "\<lambda>s. s" ?m 2 1000, OF _ shows_clock_id _ live] s(1,4,5) user r by (simp del: enter_asm.simps)
  then show ?thesis using r s(7) by (intro exI [of _ ?m] exI [of _ r]) simp
qed

section \<open>New processes and threads\<close>

lemma free_task_exists:
  assumes "ksafe s v" "u < NR_TASKS" "dir_pages_baseAddr (tasks s u) = None"
  obtains c cs where "v_free v = c # cs" "c < NR_TASKS"
proof -
  have inv: "kinv s v" using assms(1) by (simp add: ksafe_def)
  then have "dirs_ok s v" by (simp add: kinv_def)
  then have "u \<in> set (v_free v)" using dirs_okD(6) [of s v u] assms(2,3) by simp
  then obtain c cs where "v_free v = c # cs" by (cases "v_free v") auto
  moreover then have "c < NR_TASKS" using inv free_head(1) by (auto elim!: kinvE)
  ultimately show ?thesis by (rule that)
qed

lemma copied_words:
  assumes "stack_copied s c t pos w (pmem s')" "tasks_addr s' = tasks_addr s"
  shows "pos < i \<Longrightarrow> i < 1024 \<Longrightarrow> stack_word s' c i = stack_word s t i" "stack_word s' c pos = w"
proof -
  have pa: "stack_pa s' = stack_pa s" by (rule stack_pa_cong [OF assms(2)])
  show "stack_word s' c i = stack_word s t i" if "pos < i" "i < 1024"
    by (rule stack_word_eq) (use assms(1) that in \<open>simp add: stack_copied_def pa\<close>)
  show "stack_word s' c pos = w"
    by (rule stack_word_bytes) (use assms(1) in \<open>simp add: stack_copied_def pa\<close>)
qed

text \<open>C21: a forked child returns to the program: while a task is free, \<^verbatim>\<open>int 0x80\<close> and the call of \<^verbatim>\<open>sys_fork\<close> make a child
  with the returned PID, and whenever the child is switched to for the first time, its saved stack pointer leads
  to \<^verbatim>\<open>ret_from_fork\<close>, from there behind the call in the handler, and from there to the program's next
  instruction with every register that of the father but \<^verbatim>\<open>eax\<close>, which is 0.\<close>

theorem fork_child_returns:
  assumes "kreach f (kern m)" "shows_clock f" "user_mode m" "kpc (kern m) (current (kern m)) = User_mode"
    and "u < NR_TASKS" "dir_pages_baseAddr (tasks (kern m) u) = None"
  shows "\<exists>m1 m2 n pid s c. interrupt 0x80 m = Some m1 \<and> SAVE_ALL m1 = Some m2 \<and> syscall_enter j m2 = Some n \<and>
     call_fork after n = Some (pid, s) \<and> c < NR_TASKS \<and> c \<noteq> current (kern m) \<and> kpc s c = Fork_child \<and> PID (tasks s c) = pid \<and>
     (\<forall>p. kept {c} s (kern p) \<longrightarrow> stacks_ok (kern p) \<longrightarrow> kernel_esp (tasks (kern p) c) = kernel_esp (tasks s c) \<longrightarrow>
        (\<exists>q r n'. change_context_asm (kernel_esp (tasks (kern p) c)) p = Some q \<and> r_eip q = ret_from_fork_addr (kern m) \<and>
           ret_from_fork_asm q = Some r \<and> r_eip r = after \<and> syscall_leave j r = Some n' \<and>
           user_frame n' = (user_frame m)[6 := 0]))"
proof -
  define t where "t = current (kern m)"
  obtain v where safe: "ksafe (kern m) v" using kreach_ksafe [OF assms(1,2)] by blast
  have tss: "tss_ok (kern m)" using kreach_places [OF assms(1,2)] by simp
  obtain m1 m2 n where n: "interrupt 0x80 m = Some m1" "SAVE_ALL m1 = Some m2" "syscall_enter j m2 = Some n"
    "at_word n t 1008" "frame_on m (kern n) t" "ksafe (kern n) v" "current (kern n) = t" "idle_task (kern n) = idle_task (kern m)"
    "ret_from_fork_addr (kern n) = ret_from_fork_addr (kern m)"
    by (rule enter_call [OF safe tss assms(3) t_def]) blast
  obtain c cs where c: "v_free v = c # cs" "c < NR_TASKS" by (rule free_task_exists [OF safe assms(5,6)])
  let ?k = "in_call n t after"
  note k = in_call [where after = after, OF n(4,6,7)]
  have inv: "kinv ?k v" "mem_ok ?k" using k(1) by (simp_all add: ksafe_def)
  have idle: "idle_task ?k \<noteq> Some (current ?k)"
    using ksafe_user [OF safe assms(4)] n(8) k(3) by (simp add: in_call_def t_def)
  obtain s where s: "sys_fork ?k = Some (last_PID ?k, s)" "ctrl_frame (?k\<lparr>kpc := (kpc ?k)(c := Fork_child)\<rparr>) s"
    "PID (tasks s c) = last_PID ?k" "c \<noteq> current ?k" "stack_copied ?k c (current ?k) (father_pos ?k) (ret_from_fork_addr ?k) (pmem s)"
    "kernel_esp (tasks s c) = stack_addr ?k c (int (father_pos ?k) - 1)" "tasks_addr s = tasks_addr ?k"
    by (rule sys_fork_ok [OF inv idle c(1)]) blast
  note cw = copied_words [OF s(5,7), unfolded k(2,3)]
  have child: "\<exists>q r n'. change_context_asm (kernel_esp (tasks (kern p) c)) p = Some q \<and> r_eip q = ret_from_fork_addr (kern m) \<and>
           ret_from_fork_asm q = Some r \<and> r_eip r = after \<and> syscall_leave j r = Some n' \<and> user_frame n' = (user_frame m)[6 := 0]"
    if p: "kept {c} s (kern p)" "stacks_ok (kern p)" "kernel_esp (tasks (kern p) c) = kernel_esp (tasks s c)" for p
  proof -
    have w: "stack_word (kern p) c i = stack_word s c i" if "i < 1024" for i using kept_word [OF p(1), of c i] that by simp
    have "frame_on m (kern p) c" using k(5) [OF n(5)] w cw(1) by (simp add: frame_on_def)
    moreover have "kernel_esp (tasks (kern p) c) = word_addr (kern p) c 1005"
      using p(1) by (simp add: p(3) s(6,7) k(2) word_addr_def stack_addr_def kept_def)
    moreover have "stack_word (kern p) c 1006 = ret_from_fork_addr (kern m)"
      using w [of 1006] cw(2) n(9) by (simp add: in_call_def)
    moreover have "stack_word (kern p) c 1007 = after" using w [of 1007] cw(1) [of 1007] k(4) by simp
    ultimately show ?thesis using child_starts [OF p(2) c(2) _ _ _ assms(3)] by simp
  qed
  have kp: "kpc s c = Fork_child" using s(2) by (simp add: ctrl_frame_def)
  have "call_fork after n = Some (last_PID ?k, s)" using call_fork_at [OF n(4), of after] s(1) by simp
  then show ?thesis using n(1-3) c(2) s(3,4) k(3) kp child unfolding t_def by metis
qed

theorem fork_child_returns_witness:
  "\<exists>m1 m2 n pid s c. interrupt 0x80 (user_cpu 2 0 0) = Some m1 \<and> SAVE_ALL m1 = Some m2 \<and> syscall_enter (7, 8, 9) m2 = Some n \<and>
     call_fork 0x10200 n = Some (pid, s) \<and> c \<noteq> 1 \<and> kpc s c = Fork_child"
  using fork_child_returns [where f = "\<lambda>s. s" and m = "user_cpu 2 0 0" and u = 2 and j = "(7, 8, 9)" and after = "0x10200"] boot_reach [of "\<lambda>s. s"] shows_clock_id
    boot_state(5,10) boot_free by auto

lemma access_ok_same_heap:
  "heap_top (tasks s' (current s')) = heap_top (tasks s (current s)) \<Longrightarrow> access_ok ty a n s' = access_ok ty a n s"
  by (simp add: access_ok_def in_heap_def)

lemma call_clone_at:
  assumes at: "at_word n t 1008" and fr: "frame_on m (kern n) t"
  shows "call_clone after n = sys_clone (r_ebx m) (r_ecx m) (r_edx m) (in_call n t after)"
proof -
  obtain n' where n': "do { n \<leftarrow> call_from after n; prologue n } = Some n'" "r_ebp n' = word_addr (kern n) t 1006"
    "kern n' = put_words t 1006 [r_ebp n, after] (kern n)" by (rule call_frame [OF at])
  have st: "stacks_ok (kern n)" "t < NR_TASKS" using at by (simp_all add: at_word_def)
  have w: "read_dword (kern n') (word_addr (kern n) t (1008 + i)) = Some (user_frame m ! i)" if "i < 16" for i
  proof -
    have "read_dword (kern n') (word_addr (kern n') t (1008 + i)) = Some (stack_word (kern n') t (1008 + i))"
      by (rule read_word_at) (use st that in \<open>simp_all add: n'(3)\<close>)
    moreover have "stack_word (kern n') t (1008 + i) = stack_word (kern n) t (1008 + i)"
      using stack_word_puts [OF st(1,2,2), of "1008 + i" 1006 "[r_ebp n, after]"] that by (simp add: n'(3))
    ultimately show ?thesis using fr that by (simp add: frame_on_def n'(3))
  qed
  have a: "r_ebp n' + 8 = word_addr (kern n) t 1008" "r_ebp n' + 12 = word_addr (kern n) t 1009" "r_ebp n' + 16 = word_addr (kern n) t 1010"
    using word_addr_add [of "kern n" t 1006 2] word_addr_add [of "kern n" t 1006 3] word_addr_add [of "kern n" t 1006 4] by (simp_all add: n'(2))
  have "call_clone after n = do { n \<leftarrow> do { n \<leftarrow> call_from after n; prologue n };
          fn \<leftarrow> read_dword (kern n) (r_ebp n + 8);
          stack \<leftarrow> read_dword (kern n) (r_ebp n + 12);
          exit_func \<leftarrow> read_dword (kern n) (r_ebp n + 16);
          sys_clone fn stack exit_func (see_ebp n) }"
    by (simp add: call_clone_def)
  also have "\<dots> = sys_clone (r_ebx m) (r_ecx m) (r_edx m) (in_call n t after)"
    unfolding n'(1) bind.bind_lunit a
    using w [of 0] w [of 1] w [of 2] n'(2,3) by (simp add: user_frame_def saved_regs_def see_ebp_def get_ebp_asm_def in_call_def)
  finally show ?thesis .
qed

text \<open>C22: a new thread starts its function: while a task is free and the arguments lie in the program's memory,
  \<^verbatim>\<open>int 0x80\<close> and the call of \<^verbatim>\<open>sys_clone\<close> make a thread with the returned PID, and whenever it is switched to for the first
  time, its saved stack pointer leads behind the call in the handler, and from there to the first instruction of
  the function in user mode, with the stack pointer at the word below the given stack and the other
  registers of the creator but \<^verbatim>\<open>eax\<close>.\<close>

theorem clone_thread_starts:
  assumes "kreach f (kern m)" "shows_clock f" "user_mode m" "kpc (kern m) (current (kern m)) = User_mode"
    and "u < NR_TASKS" "dir_pages_baseAddr (tasks (kern m) u) = None"
    and "access_ok VERIFY_WRITE (r_ebx m) 4 (kern m)" "access_ok VERIFY_WRITE (r_ecx m) 4 (kern m)"
    and "\<forall>i<4. translate (kern m) (r_ecx m - 4 + of_nat i) \<noteq> None"
  shows "\<exists>m1 m2 n pid s c. interrupt 0x80 m = Some m1 \<and> SAVE_ALL m1 = Some m2 \<and> syscall_enter j m2 = Some n \<and>
     call_clone after n = Some (pid, s) \<and> c < NR_TASKS \<and> c \<noteq> current (kern m) \<and> kpc s c = Clone_child \<and> PID (tasks s c) = pid \<and>
     (\<forall>p. kept {c} s (kern p) \<longrightarrow> stacks_ok (kern p) \<longrightarrow> kernel_esp (tasks (kern p) c) = kernel_esp (tasks s c) \<longrightarrow>
        (\<exists>q n'. change_context_asm (kernel_esp (tasks (kern p) c)) p = Some q \<and> r_eip q = after \<and> syscall_leave j q = Some n' \<and>
           user_frame n' = (user_frame m)[6 := r_eax q, 11 := r_ebx m, 14 := r_ecx m - 4]))"
proof -
  define t where "t = current (kern m)"
  obtain v where safe: "ksafe (kern m) v" using kreach_ksafe [OF assms(1,2)] by blast
  have tss: "tss_ok (kern m)" using kreach_places [OF assms(1,2)] by simp
  obtain m1 m2 n where n: "interrupt 0x80 m = Some m1" "SAVE_ALL m1 = Some m2" "syscall_enter j m2 = Some n"
    "at_word n t 1008" "frame_on m (kern n) t" "ksafe (kern n) v" "current (kern n) = t" "idle_task (kern n) = idle_task (kern m)"
    "\<And>u. heap_top (tasks (kern n) u) = heap_top (tasks (kern m) u)" "translate (kern n) = translate (kern m)"
    by (rule enter_call [OF safe tss assms(3) t_def]) blast
  obtain c cs where c: "v_free v = c # cs" "c < NR_TASKS" by (rule free_task_exists [OF safe assms(5,6)])
  let ?k = "in_call n t after"
  note k = in_call [where after = after, OF n(4,6,7)]
  have inv: "kinv ?k v" "mem_ok ?k" using k(1) by (simp_all add: ksafe_def)
  have idle: "idle_task ?k \<noteq> Some (current ?k)"
    using ksafe_user [OF safe assms(4)] n(8) k(3) by (simp add: in_call_def t_def)
  have heap: "heap_top (tasks ?k (current ?k)) = heap_top (tasks (kern m) (current (kern m)))"
    using n(9) k(3) by (simp add: in_call_def t_def)
  have acc: "access_ok VERIFY_WRITE (r_ebx m) 4 ?k" "access_ok VERIFY_WRITE (r_ecx m) 4 ?k"
    using assms(7,8) access_ok_same_heap [OF heap] by simp_all
  have tr: "translate ?k = translate (kern m)"
  proof -
    have "translate ?k = translate (put_words t 1006 [r_ebp n, after] (kern n))" by (rule translate_cong) (simp_all add: in_call_def)
    then show ?thesis using n(10) by simp
  qed
  show ?thesis
  proof (cases rule: sys_clone_cases [OF inv idle c(1) acc, of "r_edx m"])
    case (1 s)
    let ?esp = "r_ecx m - 4"
    have pa: "stack_pa s = stack_pa ?k" by (rule stack_pa_cong) (rule 1)
    have st: "thread_start ?k c (r_ebx m) ?esp (pmem s)" and tc: "thread_copied ?k c 1006 ?esp (pmem s)"
      using 1 k(2) by simp_all
    have w1: "stack_word s c 1022 = ?esp" "stack_word s c 1019 = r_ebx m"
      by (rule stack_word_bytes, use st in \<open>simp add: thread_start_def pa\<close>)+
    have heapk: "heap_fits (heap_top (tasks ?k (current ?k)))" by (rule current_space [OF inv])
    have w2: "stack_word s c i = stack_word ?k t i" if i: "1006 < i" "i < 1024" "i \<noteq> 1019" "i \<noteq> 1022" for i
    proof (rule stack_word_eq)
      fix b :: nat
      assume b: "b < 4"
      have "\<forall>x<4. translate ?k (?esp + of_nat x) \<noteq> Some (of_nat (stack_pa ?k c (4 * i + b)))"
      proof (intro allI impI notI)
        fix x :: nat
        assume x: "x < 4" "translate ?k (?esp + of_nat x) = Some (of_nat (stack_pa ?k c (4 * i + b)))"
        have "4 * i + b < PAGE_SIZE" using i b by simp
        from high_not_stack [OF ksafe_user_frames [OF k(1)] stack_argument [OF acc(2) heapk x(1)] x(2) c(2) this] show False by simp
      qed
      moreover have "(4 * i + b) div 4 = i" using b by simp
      ultimately show "pmem s (of_nat (stack_pa s c (4 * i + b))) = pmem ?k (of_nat (stack_pa ?k t (4 * i + b)))"
        using tc i b unfolding thread_copied_def pa k(3) by auto
    qed
    have child: "\<exists>q n'. change_context_asm (kernel_esp (tasks (kern p) c)) p = Some q \<and> r_eip q = after \<and> syscall_leave j q = Some n' \<and>
           user_frame n' = (user_frame m)[6 := r_eax q, 11 := r_ebx m, 14 := r_ecx m - 4]"
      if p: "kept {c} s (kern p)" "stacks_ok (kern p)" "kernel_esp (tasks (kern p) c) = kernel_esp (tasks s c)" for p
    proof -
      have w: "stack_word (kern p) c i = stack_word s c i" if "i < 1024" for i using kept_word [OF p(1), of c i] that by simp
      let ?m = "m\<lparr>r_eip := r_ebx m, r_esp := ?esp\<rparr>"
      have uf: "user_frame ?m = (user_frame m)[11 := r_ebx m, 14 := ?esp]"
        by (simp add: user_frame_def saved_regs_def return_frame_def)
      have fk: "stack_word ?k t (1008 + i) = user_frame m ! i" if "i < 16" for i using k(5) [OF n(5)] that by (simp add: frame_on_def)
      have fr: "frame_on ?m (kern p) c"
        unfolding frame_on_def uf
      proof (intro allI impI)
        fix i :: nat
        assume i: "i < 16"
        show "stack_word (kern p) c (1008 + i) = (user_frame m)[11 := r_ebx m, 14 := ?esp] ! i"
          using w [of "1008 + i"] w1 w2 [of "1008 + i"] fk [OF i] i by (cases "i = 11"; cases "i = 14") simp_all
      qed
      have e: "kernel_esp (tasks (kern p) c) = word_addr (kern p) c 1006"
        using p(1) 1 by (simp add: p(3) k(2) word_addr_def stack_addr_def kept_def)
      let ?q = "p\<lparr>r_ebp := stack_word (kern p) c 1006, r_eip := after, r_esp := word_addr (kern p) c 1008\<rparr>"
      have q: "change_context_asm (kernel_esp (tasks (kern p) c)) p = Some ?q"
        unfolding e using change_context_at [OF p(2) c(2), of 1006] w [of 1007] w2 [of 1007] k(4) by simp
      have "user_mode ?m" using assms(3) by (simp add: user_mode_def)
      moreover have "at_word ?q c 1008" "frame_on ?m (kern ?q) c" using p(2) c(2) fr by (simp_all add: at_word_def)
      ultimately obtain n' where "syscall_leave j ?q = Some n'" "user_frame n' = (user_frame ?m)[6 := r_eax ?q]"
        using leave_later by blast
      then have "syscall_leave j ?q = Some n'" "user_frame n' = (user_frame m)[6 := r_eax ?q, 11 := r_ebx m, 14 := ?esp]"
        by (simp_all add: uf list_update_swap)
      with q show ?thesis by (intro exI [of _ ?q] exI [of _ n']) simp
    qed
    have "kpc s c = Clone_child" using 1 by (simp add: ctrl_frame_def)
    moreover have "call_clone after n = Some (last_PID ?k, s)" using call_clone_at [OF n(4,5), of after] 1 by simp
    moreover have "PID (tasks s c) = last_PID ?k" "c \<noteq> current (kern m)" using 1 k(3) by (simp_all add: t_def)
    ultimately show ?thesis using n(1-3) c(2) child by metis
  next
    case (2 i)
    then show ?thesis using assms(9) by (simp add: tr)
  qed
qed

theorem clone_thread_starts_witness:
  "\<exists>m1 m2 n pid s c. interrupt 0x80 (user_cpu 19 0x100000 0x11BFF0) = Some m1 \<and> SAVE_ALL m1 = Some m2 \<and>
     syscall_enter (7, 8, 9) m2 = Some n \<and> call_clone 0x10200 n = Some (pid, s) \<and> c \<noteq> 1 \<and> kpc s c = Clone_child"
proof -
  have acc: "access_ok VERIFY_WRITE 0x100000 4 boot_state" "access_ok VERIFY_WRITE 0x11BFF0 4 boot_state"
    by (simp_all add: access_ok_def)
  have "translate boot_state (0x11BFF0 - 4 + of_nat i) \<noteq> None" if "i < 4" for i
  proof -
    have a: "0x11BFF0 - 4 + of_nat i = (of_nat (283 * PAGE_SIZE + (0xFEC + i)) :: dword)" by simp
    show ?thesis unfolding a by (rule boot_user_mapped) (use that in simp_all)
  qed
  then have t: "\<forall>i<4. translate (kern (user_cpu 19 0x100000 0x11BFF0)) (r_ecx (user_cpu 19 0x100000 0x11BFF0) - 4 + of_nat i) \<noteq> None"
    by simp
  show ?thesis
    using clone_thread_starts [where f = "\<lambda>s. s" and m = "user_cpu 19 0x100000 0x11BFF0" and u = 2 and j = "(7, 8, 9)" and after = "0x10200", OF _ shows_clock_id _ _ _ _ _ _ t]
      boot_reach [of "\<lambda>s. s"] boot_state(5,10) boot_free acc by auto
qed

section \<open>Switching tasks\<close>

text \<open>C25: a switched task continues where it was: \<^verbatim>\<open>task_switch\<close> of task \<open>t\<close> to another task \<open>u\<close> (the switch of a lone task to
  itself is not covered) goes on with the frame pointer and at the
  return address that the saved stack pointer of \<open>u\<close> leads to, on the stack of \<open>u\<close>, which is the current task by the field of the
  state, by the address of its stack and in the task state segment. Whenever a later switch
  takes the stack pointer it has saved, it returns from \<^verbatim>\<open>task_switch\<close> to its caller, with the registers a C function
  must keep as they were.\<close>

theorem task_switch_returns:
  assumes at: "at_word m t (b + 7)" "b + 8 < KERNEL_STACK_SIZE" and cur: "current (kern m) = t"
    and dirs: "dirs_ok (kern m) v" "cr3 (kern m) = dir_pages_baseAddr (tasks (kern m) t)"
    and u: "task_at (kern m) (stack_word (kern m) t (b + 8)) = u" "u < NR_TASKS" "u \<noteq> t" "dir_pages_baseAddr (tasks (kern m) u) \<noteq> None"
    and esp: "kernel_esp (tasks (kern m) u) = word_addr (kern m) u q" "q + 2 \<le> KERNEL_STACK_SIZE"
  shows "\<exists>m1. task_switch_asm back k m = Some m1 \<and> kern m1 = task_switch k u (before_switch m back t b) \<and>
     current (kern m1) = u \<and> tss_ok (kern m1) \<and> r_esp m1 = word_addr (kern m) u (q + 2) \<and>
     (q + 2 < KERNEL_STACK_SIZE \<longrightarrow> task_at (kern m1) (current_asm m1) = u) \<and>
     r_ebp m1 = stack_word (kern m) u q \<and> r_eip m1 = stack_word (kern m) u (q + 1) \<and>
     (\<forall>p. kept {t} (kern m1) (kern p) \<longrightarrow> stacks_ok (kern p) \<longrightarrow> kernel_esp (tasks (kern p) t) = kernel_esp (tasks (kern m1) t) \<longrightarrow>
        (\<exists>p1 p2. change_context_asm (kernel_esp (tasks (kern p) t)) p = Some p1 \<and> r_eip p1 = back \<and>
           task_switch_end p1 = Some p2 \<and> r_ebx p2 = r_ebx m \<and> r_esi p2 = r_esi m \<and> r_edi p2 = r_edi m \<and> r_ebp p2 = r_ebp m \<and>
           r_esp p2 = word_addr (kern m) t (b + 8) \<and> r_eip p2 = stack_word (kern m) t (b + 7)))"
proof -
  let ?k = "before_switch m back t b" and ?f = "switch_frame m back t b"
  let ?s = "inner_task_switch k u ?k"
  have st: "stacks_ok (kern m)" "t < NR_TASKS" using at(1) by (simp_all add: at_word_def)
  have fields: "current ?k = t" "tasks ?k = tasks (kern m)" "cr3 ?k = cr3 (kern m)" "tasks_addr ?k = tasks_addr (kern m)"
    "ebp_value ?k (ebp_count ?k) = word_addr (kern m) t b"
    using cur by (simp_all add: before_switch_def Let_def)
  have sw: "switched k ?k ?s" using switched_task_switch [of k ?k u] by (simp add: task_switch_def)
  have dk: "dirs_ok ?k v"
    by (rule dirs_ok_cong [OF dirs(1)])
      (use put_words_pmem [of t b ?f "kern m"] in \<open>auto simp: before_switch_def Let_def\<close>)
  have "kmap_ok ?k"
    by (rule kmap_ok_cong [of "put_words t b ?f (kern m)"])
      (use st(1) put_words_fields(17) [of t b ?f "kern m"] in \<open>simp_all add: before_switch_def Let_def stacks_ok_def\<close>)
  then have ok: "stacks_ok ?s"
    by (rule inner_switch_stacks [OF _ dk _ u(2)]) (use dirs_okD(6) [OF dirs(1) u(2)] u(4) dirs(2) fields in auto)
  have wa: "word_addr ?s = word_addr (kern m)"
    using sw fields(4) by (simp add: switched_def word_addr_def stack_addr_def fun_eq_iff)
  have pw: "stack_word ?s = stack_word (put_words t b ?f (kern m))"
    by (rule stack_word_cong) (use sw in \<open>simp_all add: switched_def before_switch_def Let_def\<close>)
  have lf: "length ?f = 7" by (simp add: switch_frame_def)
  have words: "stack_word ?s x i = (if x = t \<and> b \<le> i \<and> i < b + 7 then ?f ! (i - b) else stack_word (kern m) x i)"
    if "x < 10" "i < 1024" for x i
    unfolding pw using stack_word_puts [OF st(1,2) that, of b ?f] at(2) by (simp add: lf)
  have eu: "kernel_esp (tasks ?s u) = word_addr ?s u q"
    using inner_switch_fields(2) [of u ?k k] u(3) esp(1) by (simp add: fields wa)
  have et: "kernel_esp (tasks ?s t) = word_addr (kern m) t b"
    using inner_switch_fields(1) [of k u ?k] by (simp add: fields)
  define m0 where "m0 = m\<lparr>r_esp := word_addr (kern m) t b, r_ebp := word_addr (kern m) t b, kern := ?s\<rparr>"
  have k0: "kern m0 = ?s" by (simp add: m0_def)
  define m1 where "m1 = m0\<lparr>r_ebp := stack_word ?s u q, r_eip := stack_word ?s u (q + 1), r_esp := word_addr ?s u (q + 2)\<rparr>"
  have run: "task_switch_asm back k m = Some m1"
    unfolding task_switch_down [OF at u(1)] eu m0_def [symmetric] m1_def
    using change_context_at [of m0 u q] ok u(2) esp(2) by (simp add: k0)
  have k1: "kern m1 = ?s" by (simp add: m1_def k0)
  have later: "\<exists>p1 p2. change_context_asm (kernel_esp (tasks (kern p) t)) p = Some p1 \<and> r_eip p1 = back \<and>
           task_switch_end p1 = Some p2 \<and> r_ebx p2 = r_ebx m \<and> r_esi p2 = r_esi m \<and> r_edi p2 = r_edi m \<and> r_ebp p2 = r_ebp m \<and>
           r_esp p2 = word_addr (kern m) t (b + 8) \<and> r_eip p2 = stack_word (kern m) t (b + 7)"
    if p: "kept {t} (kern m1) (kern p)" "stacks_ok (kern p)" "kernel_esp (tasks (kern p) t) = kernel_esp (tasks (kern m1) t)" for p
  proof -
    have wp: "word_addr (kern p) = word_addr (kern m)" using kept_word_addr [OF p(1)] wa by (simp add: k1)
    have w: "stack_word (kern p) t (b + i) = (if i < 7 then ?f ! i else stack_word (kern m) t (b + i))" if "i < 8" for i
      using kept_word [OF p(1), of t "b + i"] words [OF st(2), of "b + i"] that at(2) by (simp add: k1)
    have e: "kernel_esp (tasks (kern p) t) = word_addr (kern p) t b" by (simp add: p(3) k1 et wp)
    let ?p = "p\<lparr>r_ebp := stack_word (kern p) t b, r_eip := stack_word (kern p) t (b + 1), r_esp := word_addr (kern p) t (b + 2)\<rparr>"
    have c: "change_context_asm (kernel_esp (tasks (kern p) t)) p = Some ?p"
      unfolding e using change_context_at [OF p(2) st(2), of b] at(2) by simp
    have "at_word ?p t (b + 2)" using p(2) st(2) at(2) by (simp add: at_word_def)
    from task_switch_end_at [OF this] at(2) show ?thesis
      using c w [of 0] w [of 1] w [of 3] w [of 4] w [of 5] w [of 6] w [of 7]
      by (simp add: switch_frame_def wp numeral_eq_Suc)
  qed
  have "at_word m1 u (q + 2)" using ok u(2) esp(2) by (simp add: at_word_def m1_def k0)
  from current_asm_at [OF this] have "q + 2 < KERNEL_STACK_SIZE \<longrightarrow> task_at (kern m1) (current_asm m1) = u" by simp
  moreover have "tss_ok ?s" using sw by (simp add: switched_def)
  ultimately show ?thesis
    using run k1 later inner_switch_fields(3) [of k u ?k] words [of u q] words [of u "q + 1"] u(2,3) esp(2) wa
    by (intro exI [of _ m1]) (simp add: task_switch_def, simp add: m1_def k0)
qed

theorem task_switch_returns_witness:
  "\<exists>m m1. current (kern m) = 1 \<and> task_switch_asm 0x10300 Irq_exit m = Some m1 \<and> current (kern m1) = 0"
proof -
  let ?t = "tasks_addr boot_state"
  define s where "s = (put_word 1 108 ?t (upd_task 0 (\<lambda>k. k\<lparr>kernel_esp := word_addr boot_state 0 100\<rparr>) boot_state))"
  let ?s = "upd_task 0 (\<lambda>k. k\<lparr>kernel_esp := word_addr boot_state 0 100\<rparr>) boot_state"
  let ?m = "(user_cpu 0 0 0)\<lparr>kern := s, r_esp := word_addr boot_state 1 107\<rparr>"
  have st: "stacks_ok boot_state" by (rule ksafe_stacks [OF ksafe_boot [OF reset_ok boot_state(1)]])
  have "kmap_ok ?s" by (rule kmap_ok_cong [of boot_state]) (use st in \<open>simp_all add: stacks_ok_def upd_task_def\<close>)
  then have st1: "stacks_ok ?s" using st by (simp add: stacks_ok_def upd_task_def)
  have wa: "word_addr ?s = word_addr boot_state" by (simp add: word_addr_def stack_addr_def upd_task_def fun_eq_iff)
  have at: "at_word ?m 1 (100 + 7)" using st1 by (simp add: at_word_def s_def wa)
  have "dirs_ok boot_state boot_view" using boot_state(2) by (simp add: kinv_def)
  then have d: "dirs_ok (kern ?m) boot_view"
    by (rule dirs_ok_cong) (simp_all add: s_def put_word_def Let_def upd_task_def)
  have c: "cr3 (kern ?m) = dir_pages_baseAddr (tasks (kern ?m) 1)"
    using boot_state(2,5) by (simp add: kinv_def s_def upd_task_def)
  have w: "task_at (kern ?m) (stack_word (kern ?m) 1 (100 + 8)) = 0"
    using st1 by (simp add: s_def task_at_def upd_task_def)
  have i: "dir_pages_baseAddr (tasks (kern ?m) 0) \<noteq> None"
    using dirs_okD(6) [OF d, of 0] by (simp add: boot_view_def)
  have e: "kernel_esp (tasks (kern ?m) 0) = word_addr (kern ?m) 0 100"
    using wa by (simp add: s_def upd_task_def)
  have cur: "current (kern ?m) = 1" using boot_state(5) by (simp add: s_def upd_task_def)
  obtain m1 where "task_switch_asm 0x10300 Irq_exit ?m = Some m1" "current (kern m1) = 0"
    using task_switch_returns [OF at _ cur d c w _ _ i e, of "0x10300" Irq_exit] by auto
  with cur show ?thesis by blast
qed

end
