(* ===== verification/Spec2Isabelle.thy ===== *)
theory Spec2Isabelle
  imports Kernel_Properties Fairness Component_Properties Console_Proofs Libc_Proofs Memory_Properties System_Properties
    Entry_Properties
begin

text \<open>
  ZeOS, a teaching kernel for the i386, with its user library and its image builder.

  \<^bold>\<open>The program.\<close> \<^verbatim>\<open>build.c\<close> assembles a disk image from a boot sector, the system and a user program. The
  boot sector \<^verbatim>\<open>bootsect.S\<close> loads it at 0x10000 with the BIOS and jumps to \<^verbatim>\<open>main\<close> of \<^verbatim>\<open>system.c\<close>, which sets up descriptor tables, gates
  and the task state segment (\<^verbatim>\<open>hardware.c\<close>, \<^verbatim>\<open>interrupt.c\<close>, \<^verbatim>\<open>mm.c\<close>), memory (\<^verbatim>\<open>mm.c\<close>), the scheduler (\<^verbatim>\<open>sched.c\<close>), an
  idle task and a first task, copies the user program and enters user mode. From then on the kernel
  runs in the handlers of \<^verbatim>\<open>entry.S\<close>: system calls (\<^verbatim>\<open>sys.c\<close>, \<^verbatim>\<open>sys_call_table.S\<close>), page faults, the clock and the
  keyboard (\<^verbatim>\<open>keyboard.c\<close>). Tasks are in intrusive lists (\<^verbatim>\<open>list.c\<close>): free, ready, waiting for the keyboard, blocked in a
  semaphore. There are ten tasks, ten page directories, twenty semaphores and 1024 frames of memory.

  \<^bold>\<open>The state.\<close> All global variables of the C files are one record \<open>kstate\<close> (\<open>Kernel_State\<close>); physical memory is a map
  \<open>pmem\<close> from addresses to bytes, list heads a map \<open>links\<close> from the addresses of list heads to pairs of pointers.
  A C function is a function on the state into \<open>option\<close>, where \<open>None\<close> means that control does not reach the end: a NULL
  pointer, an index out of an array, a page fault in the kernel, or an endless loop \<^verbatim>\<open>while(1);\<close>. An \<^verbatim>\<open>int\<close> is a 32-bit word
  read with \<open>sint\<close>, or \<open>int\<close> for an index that stays small. The machine of the initialisation, with registers and descriptor tables, is
  the record \<open>machine\<close> around \<open>kstate\<close> (\<open>Setup\<close>), which \<open>cpu\<close> (\<open>Entry\<close>) extends by the general registers; the processor in real mode is \<open>rm\<close> (\<open>Bootsect\<close>); the host's files and the output of the builder are \<open>build_state\<close> (\<open>Image\<close>).

  \<^bold>\<open>Theories that model code.\<close>
  \<^item> \<open>Prelude\<close>: widths, sequencing, counting loops. \<open>Kernel_State\<close>: constants, structures, variables.
  \<^item> \<open>Linked_List\<close>: \<^verbatim>\<open>list.c\<close> and \<^verbatim>\<open>list.h\<close> on a heap of pointers. Locale \<open>list_store\<close>: its contract over sequences.
  \<^item> \<open>Machine\<close>: address translation by the two levels of page tables that \<^verbatim>\<open>cr3\<close> selects, and accesses of kernel and user.
    Locale \<open>byte_memory\<close>: a memory behind a translation, interpreted by the kernel's and by the user's accesses.
  \<^item> \<open>Data_Copy\<close> (\<^verbatim>\<open>utils.c\<close>: \<^verbatim>\<open>copy_data\<close>, \<^verbatim>\<open>do_div\<close>, \<^verbatim>\<open>get_ticks\<close>), \<open>Access\<close> (\<^verbatim>\<open>access_ok\<close>), \<open>Stats\<close> (\<^verbatim>\<open>stats.c\<close>).
  \<^item> \<open>Frames\<close>, \<open>Paging\<close> (\<^verbatim>\<open>mm.c\<close>). Locale \<open>frame_allocator\<close>: the contract of \<^verbatim>\<open>alloc_frame\<close> and \<^verbatim>\<open>free_frame\<close>, on which the
    reservation of \<^verbatim>\<open>sys_sbrk\<close> and the initialisation rest.
  \<^item> \<open>Sched\<close> (\<^verbatim>\<open>sched.c\<close>, \<^verbatim>\<open>sched.S\<close>), \<open>Semaphore\<close>, \<open>Process\<close>, \<open>Heap\<close>, \<open>Fault\<close>, \<open>Syscalls\<close> (\<^verbatim>\<open>sys.c\<close> and the dispatch), \<open>Keyboard\<close>
    (\<^verbatim>\<open>keyboard.c\<close>), \<open>Console\<close> (\<^verbatim>\<open>io.c\<close>, \<^verbatim>\<open>devices.c\<close>), \<open>Boot\<close> and \<open>Setup\<close> (\<^verbatim>\<open>system.c\<close>, \<^verbatim>\<open>hardware.c\<close>, \<^verbatim>\<open>interrupt.c\<close>).
  \<^item> \<open>Kernel\<close>: the handlers of \<^verbatim>\<open>entry.S\<close>, as what they do to the kernel's variables, and the step relation \<open>kstep\<close>.
  \<^item> \<open>Entry\<close>: the same handlers and the context switch instruction by instruction (\<^verbatim>\<open>entry.S\<close>, \<^verbatim>\<open>sched.S\<close>, the assembly of
    \<^verbatim>\<open>sched.c\<close>), with interrupts, \<^verbatim>\<open>iret\<close> and the stack in the kernel's memory. The C functions they call are those of the other theories.
  \<^item> \<open>Libc\<close> (\<^verbatim>\<open>libc.c\<close>, \<^verbatim>\<open>libc.S\<close>), over the kernel's system call handler. \<open>Image\<close>: \<^verbatim>\<open>build.c\<close>.
  \<^item> \<open>Bootsect\<close>: \<^verbatim>\<open>bootsect.S\<close>, the BIOS being a parameter and the hardware of address line 20 a function of time.

  \<^bold>\<open>Context switches.\<close> A function that ends in \<^verbatim>\<open>task_switch\<close> does not return to its caller before its task runs again. The
  model records where the outgoing task will continue in \<open>kpc\<close>, a value of \<open>kcont\<close> per task, and returns \<open>Switched\<close>; the
  code behind the switch is a definition of its own (\<open>sem_wait_exit\<close>, \<open>sys_read_keyboard_more\<close>, \<open>leave_call\<close>), and
  \<open>resume\<close> runs it when the task is current again. Interrupts are off in the kernel, so a step is one handler up to its end or
  to the switch. The words of kernel stacks that the C code writes are written to physical memory.

  \<^bold>\<open>Lemmas.\<close> \<open>Queue_View\<close> and \<open>Kernel_Inv\<close> give the abstract queues (\<open>qview\<close>) and the invariant \<open>kinv\<close>: every task is in one queue, or is
  the idle or the current task, and semaphores, directories and their counters agree with the lists. \<open>Kernel_Map\<close>, \<open>Memory_Inv\<close> and
  \<open>Protection\<close> do the same for page tables: the kernel's pages map to themselves in every directory, the user's to frames of the
  pool. The theories \<open>*_Proofs\<close>, \<open>Allocate\<close>, \<open>User_Pages\<close> and \<open>Fork_Call\<close> give each operation in closed form under these invariants;
  \<open>Kernel_Safety\<close>, \<open>Kernel_Steps\<close> and \<open>Kernel_Reach\<close> combine them into \<open>ksafe\<close>, which every step keeps.
  \<open>Stack_Words\<close> and \<open>Entry_Proofs\<close> run the instructions on a stack of words; \<open>Effects\<close>, \<open>Stack_Effects\<close> and \<open>Call_Effects\<close> show which
  words of kernel stacks each call and each step may change; \<open>Isolation\<close>, \<open>Entry_Calls\<close> and \<open>Context_Proofs\<close> put the two together.
  \<open>Fairness\<close> counts the ticks that a task has left to its turn.
  \<open>Bootsect_Proofs\<close> has the invariant of the loading loop: how many sectors are read determines registers, variables and memory.

  \<^bold>\<open>Properties.\<close>
  \<^item> The whole kernel (\<open>Kernel_Properties\<close>, \<open>Fairness\<close>): the invariant of every reachable state; no
    access in user mode reaches the kernel's frames; clock and keyboard handlers return; under the ticks of the clock the ready tasks run one
    after another, each for its whole quantum.
  \<^item> Tasks (\<open>Task_Properties\<close>, \<open>Process_Properties\<close>): the initialisation establishes the invariant; the scheduler is round-robin;
    semaphores are counters with a first-in first-out queue; fork, exit, clone and sbrk on every branch.
  \<^item> Memory (\<open>Memory_Properties\<close>): copy on write on every branch; reading the keyboard; \<^verbatim>\<open>get_stats\<close>; two theorems that show a defect, the stale
    entries of a freed heap and the writes of the kernel to shared pages.
  \<^item> From the files to user mode (\<open>Image_Proofs\<close>, \<open>Setup_Proofs\<close>, \<open>System_Properties\<close>): which inputs the builder accepts, the
    layout of its image, gates and descriptors, that \<^verbatim>\<open>main\<close> enters the user program of such an image, and that the boot sector
    loads it (\<open>Bootsect_Proofs\<close>), so that a built disk boots.
  \<^item> Instructions (\<open>Entry_Properties\<close>): no system call, interrupt or page fault, run instruction by instruction, changes the kernel
    stack of a task other than the current one; system calls, interrupts and
    page faults do what the steps of \<open>Kernel\<close> do and give the program its registers back; a forked child returns from \<^verbatim>\<open>fork\<close>, a
    new thread starts its function; a switched task continues behind its switch.
  \<^item> Components (\<open>Component_Properties\<close>, \<open>Console_Proofs\<close>, \<open>Libc_Proofs\<close>): lists refine sequences, traversal ends, division,
    accounting, pointer checks, the screen, \<^verbatim>\<open>write\<close>, unknown calls, \<^verbatim>\<open>itoa\<close> and \<^verbatim>\<open>perror\<close>.

  \<^bold>\<open>Bounds.\<close> The only fuel is that of \<open>list_for_each_safe\<close>: a number of rounds that the length of the list bounds, with \<open>None\<close> when
  it is used up; its callers give 20, the number of semaphores, or 10, the number of tasks, no list being longer, and the theorems show
  that this is enough. \<^verbatim>\<open>strlen\<close> has no fuel: it is \<open>None\<close> for a memory without a zero byte. All other loops are
  structural or have a measure, but for two of the boot sector, which are partial functions shown to return: the loading loop by
  the number of sectors left, the wait for line 20 once the line stays open. The hypotheses on the layout (\<open>layout_ok\<close>, \<open>zeroed\<close>, \<open>image_at\<close>) say what the linker script
  and the image provide; \<open>reset_state\<close> and \<open>reset_machine\<close> satisfy them.

  \<^bold>\<open>Not in the sources.\<close> The BIOS is a parameter of \<open>Bootsect\<close>; \<open>bios_ok\<close> states what is documented of its interrupts 0x10 and 0x13,
  reads being promised only within a track and a segment of 64 KB, and \<open>ideal_bios\<close> satisfies it. \<^verbatim>\<open>set_handlers\<close>, \<^verbatim>\<open>zeos_init_auxjp\<close> and \<^verbatim>\<open>zeos_show_clock\<close> come from prebuilt libraries and are
  parameters; properties that need it assume that they leave the kernel's variables alone but for the console. The same library call installs a trap
  0x82 that user programs may use and whose handlers move tasks between the kernel's lists; no step of \<open>kernel_step\<close> stands for it, so the properties of
  reachable states are those of runs without it. The
  addresses of handlers, of variables and of string literals are parameters or components of the state.

  \<^bold>\<open>Two levels.\<close> The handlers of \<open>Kernel\<close> (\<open>system_call_handler\<close>, \<open>clock_handler\<close>, \<open>keyboard_handler\<close>, \<open>pf_handler\<close>) leave out what \<^verbatim>\<open>entry.S\<close> does
  to the stack of the current task and to the interrupt controller: the frame of the interrupt, \<^verbatim>\<open>SAVE_ALL\<close> and \<^verbatim>\<open>RESTORE_ALL\<close>, the error code and the end of
  interrupt. These are in \<open>system_call_asm\<close>, \<open>clock_asm\<close>, \<open>keyboard_asm\<close> and \<open>pf_asm\<close> of \<open>Entry\<close>, whose properties say that they do
  the step of \<open>Kernel\<close> on the state with these words on the stack. \<open>call_table\<close> takes a C function to leave its arguments on the stack as they are, which the binary interface
  does not promise.

  \<^bold>\<open>Not modelled.\<close> \<^verbatim>\<open>user.c\<close> (a call of a prebuilt
  test and an endless loop); segmentation beyond the descriptors, which are flat; the parts of the frames of C functions that no
  other code reads, which are on the stack of the current task; the translation cache, so that a load of \<^verbatim>\<open>cr3\<close> that only empties it (\<open>copy_frame\<close>, \<^verbatim>\<open>sys_fork\<close>,
  \<^verbatim>\<open>sys_sbrk\<close>) has no effect; the messages of \<^verbatim>\<open>pf_rsi\<close> before its endless loops; the words that \<^verbatim>\<open>return_gate\<close> pushes on the boot stack, and the registers \<^verbatim>\<open>fs\<close> and
  \<^verbatim>\<open>gs\<close>; variables of the kernel as bytes (they are fields of \<open>kstate\<close>, so a \<^verbatim>\<open>write\<close> of kernel data prints bytes of \<open>pmem\<close> that are unrelated to
  them); errors of the disk, which the boot sector does not look at; the messages of the builder on the standard error; timing, but for the tick counter, whose values
  are an arbitrary function.
\<close>

end
